(* ===== verification/Prelude.thy ===== *)
theory Prelude
  imports Complex_Main "HOL-Library.AList"
begin

text \<open>
  The vocabulary shared by every component: Python exceptions as values of a datatype, fallible
  code as \<open>exc + 'a\<close>, insertion-ordered dictionaries as association lists, Python indexing, and
  the generic lemmas on them. Floating-point numbers of the source (latencies, scores, costs) are
  rationals, so rounding is not modelled; \<open>nan\<close> and \<open>inf\<close> are written out where the code can
  produce them.
\<close>

section \<open>Exceptions\<close>

text \<open>The exception classes that the modelled code raises or catches; messages are dropped.\<close>

datatype exc =
    ValueError | RuntimeError | TypeError | IndexError | KeyError | AssertionError
  | AttributeError | ZeroDivisionError | JSONDecodeError | TVMError | InstantiationError
  | NameError | FileNotFoundError | SocketError | NotImplementedError | RecursionError | StructError
  | OutOfFuel  \<comment> \<open>not an exception of the source: the fuel of a loop that may not end ran out\<close>

type_synonym 'a res = "exc + 'a"

definition bindR :: "'a res \<Rightarrow> ('a \<Rightarrow> 'b res) \<Rightarrow> 'b res" where
  "bindR r f = (case r of Inl e \<Rightarrow> Inl e | Inr x \<Rightarrow> f x)"

definition guardR :: "bool \<Rightarrow> exc \<Rightarrow> unit res" where
  "guardR b e = (if b then Inr () else Inl e)"

lemma bindR_simps [simp]:
  "bindR (Inl e) f = Inl e"
  "bindR (Inr x) f = f x"
  by (simp_all add: bindR_def)

lemma bindR_Inr_iff: "bindR r f = Inr y \<longleftrightarrow> (\<exists>x. r = Inr x \<and> f x = Inr y)"
  by (cases r) simp_all

lemma bindR_Inl_iff: "bindR r f = Inl e \<longleftrightarrow> r = Inl e \<or> (\<exists>x. r = Inr x \<and> f x = Inl e)"
  by (cases r) auto

lemma guardR_simps [simp]:
  "guardR True e = Inr ()"
  "guardR False e = Inl e"
  "(guardR b e = Inr u) = b"
  "(guardR b e = Inl e') = (\<not> b \<and> e' = e)"
  by (auto simp: guardR_def)

text \<open>A Python loop over a list that stops at the first exception.\<close>

fun mapR :: "('a \<Rightarrow> 'b res) \<Rightarrow> 'a list \<Rightarrow> 'b list res" where
  "mapR f [] = Inr []"
| "mapR f (x # xs) = bindR (f x) (\<lambda>y. bindR (mapR f xs) (\<lambda>ys. Inr (y # ys)))"

fun foldR :: "('a \<Rightarrow> 's \<Rightarrow> 's res) \<Rightarrow> 'a list \<Rightarrow> 's \<Rightarrow> 's res" where
  "foldR f [] s = Inr s"
| "foldR f (x # xs) s = bindR (f x s) (foldR f xs)"

text \<open>Congruence rules, so that recursion through these combinators is seen to terminate.\<close>

lemma bindR_cong [fundef_cong]:
  "r = r' \<Longrightarrow> (\<And>x. r' = Inr x \<Longrightarrow> f x = g x) \<Longrightarrow> bindR r f = bindR r' g"
  by (cases r') simp_all

lemma mapR_cong [fundef_cong]:
  "xs = ys \<Longrightarrow> (\<And>x. x \<in> set ys \<Longrightarrow> f x = g x) \<Longrightarrow> mapR f xs = mapR g ys"
  by (induction ys arbitrary: xs) auto

lemma foldR_cong [fundef_cong]:
  "xs = ys \<Longrightarrow> s = t \<Longrightarrow> (\<And>x u. x \<in> set ys \<Longrightarrow> f x u = g x u) \<Longrightarrow> foldR f xs s = foldR g ys t"
proof (induction ys arbitrary: xs s t)
  case Nil
  then show ?case by simp
next
  case (Cons y ys)
  then show ?case by (cases "g y t") auto
qed

lemma mapR_Inr_iff: "mapR f xs = Inr ys \<longleftrightarrow> list_all2 (\<lambda>x y. f x = Inr y) xs ys"
proof (induction xs arbitrary: ys)
  case Nil
  then show ?case by auto
next
  case (Cons x xs)
  then show ?case by (cases ys) (auto simp: bindR_Inr_iff)
qed

lemma mapR_range: "mapR f xs = Inr ys \<Longrightarrow> y \<in> set ys \<Longrightarrow> \<exists>x\<in>set xs. f x = Inr y"
  by (force simp: mapR_Inr_iff list_all2_conv_all_nth in_set_conv_nth)

lemma mapR_length: "mapR f xs = Inr ys \<Longrightarrow> length ys = length xs"
  by (simp add: mapR_Inr_iff list_all2_lengthD)

lemma mapR_total: "(\<And>x. x \<in> set xs \<Longrightarrow> f x = Inr (g x)) \<Longrightarrow> mapR f xs = Inr (map g xs)"
  by (induction xs) simp_all

lemma mapR_append:
  "mapR f (xs @ ys) = bindR (mapR f xs) (\<lambda>us. bindR (mapR f ys) (\<lambda>vs. Inr (us @ vs)))"
proof (induction xs)
  case Nil
  then show ?case by (cases "mapR f ys") simp_all
next
  case (Cons x xs)
  then show ?case by (cases "f x"; cases "mapR f xs"; cases "mapR f ys") simp_all
qed

lemma foldR_append: "foldR f (xs @ ys) s = bindR (foldR f xs s) (foldR f ys)"
proof (induction xs arbitrary: s)
  case Nil
  then show ?case by simp
next
  case (Cons x xs)
  then show ?case by (cases "f x s") simp_all
qed

text \<open>An invariant kept by every successful step of a loop holds of its result.\<close>

lemma foldR_inv:
  assumes "foldR f xs s = Inr t" "P s"
    and "\<And>x s t. x \<in> set xs \<Longrightarrow> P s \<Longrightarrow> f x s = Inr t \<Longrightarrow> P t"
  shows "P t"
  using assms
proof (induction xs arbitrary: s)
  case Nil
  then show ?case by simp
next
  case (Cons x xs)
  from Cons.prems(1) obtain u where u: "f x s = Inr u" "foldR f xs u = Inr t"
    by (auto simp: bindR_Inr_iff)
  have "P u" by (rule Cons.prems(3) [of x s]) (use Cons.prems(2) u(1) in auto)
  with u(2) show ?case by (rule Cons.IH) (use Cons.prems(3) in auto)
qed

text \<open>A loop whose every step succeeds under an invariant succeeds.\<close>

lemma foldR_total:
  assumes "P s" "\<And>x s. x \<in> set xs \<Longrightarrow> P s \<Longrightarrow> \<exists>t. f x s = Inr t \<and> P t"
  shows "\<exists>t. foldR f xs s = Inr t \<and> P t"
  using assms
proof (induction xs arbitrary: s)
  case Nil
  then show ?case by simp
next
  case (Cons x xs)
  then obtain t where "f x s = Inr t" "P t" by (meson list.set_intros(1))
  with Cons.IH [of t] Cons.prems(2) show ?case by simp
qed

text \<open>Two loops whose bodies agree under an invariant of one of them.\<close>

lemma foldR_agree:
  assumes "P s" "\<And>x t. x \<in> set xs \<Longrightarrow> P t \<Longrightarrow> f x t = g x t"
    and "\<And>x t t'. x \<in> set xs \<Longrightarrow> P t \<Longrightarrow> g x t = Inr t' \<Longrightarrow> P t'"
  shows "foldR f xs s = foldR g xs s"
  using assms
proof (induction xs arbitrary: s)
  case Nil
  then show ?case by simp
next
  case (Cons x xs)
  show ?case
  proof (cases "g x s")
    case (Inl e)
    then show ?thesis using Cons.prems by simp
  next
    case (Inr s')
    then have "P s'" by (rule Cons.prems(3) [rotated 2]) (use Cons.prems(1) in auto)
    then have "foldR f xs s' = foldR g xs s'"
    proof (rule Cons.IH)
      show "f y t = g y t" if "y \<in> set xs" "P t" for y t using Cons.prems(2) that by simp
      show "P t'" if "y \<in> set xs" "P t" "g y t = Inr t'" for y t t'
        using Cons.prems(3) [of y t t'] that by simp
    qed
    then show ?thesis using Inr Cons.prems by simp
  qed
qed

section \<open>Python lists and dictionaries\<close>

text \<open>
  Subscripts are Python integers; the position before the first element is the last one, and so
  on backwards. Anything outside is an \<open>IndexError\<close>.
\<close>

definition py_get :: "'a list \<Rightarrow> int \<Rightarrow> 'a res" where
  "py_get xs i =
     (if i \<ge> 0 then
        (if nat i < length xs then Inr (xs ! nat i) else Inl IndexError)
      else
        (if nat (- i) \<le> length xs then Inr (xs ! (length xs - nat (- i))) else Inl IndexError))"

lemma py_get_nat [simp]: "i < length xs \<Longrightarrow> py_get xs (int i) = Inr (xs ! i)"
  by (simp add: py_get_def)

lemma py_get_0 [simp]: "py_get (x # xs) 0 = Inr x" "py_get [] i = Inl IndexError"
  by (simp_all add: py_get_def)

lemma py_get_Inr: "py_get xs i = Inr x \<Longrightarrow> x \<in> set xs"
  by (auto simp: py_get_def split: if_splits)

text \<open>\<open>list.index(x)\<close>: the first position, \<open>ValueError\<close> when absent.\<close>

fun py_index :: "'a \<Rightarrow> 'a list \<Rightarrow> nat res" where
  "py_index x [] = Inl ValueError"
| "py_index x (y # ys) = (if x = y then Inr 0 else bindR (py_index x ys) (\<lambda>i. Inr (Suc i)))"

lemma py_index_Inr:
  "py_index x xs = Inr i \<longleftrightarrow> i < length xs \<and> xs ! i = x \<and> (\<forall>j<i. xs ! j \<noteq> x)"
proof (induction xs arbitrary: i)
  case Nil
  then show ?case by simp
next
  case (Cons y ys)
  show ?case
  proof (cases i)
    case 0
    then show ?thesis by (auto simp: bindR_Inr_iff)
  next
    case (Suc k)
    then show ?thesis using Cons[of k]
      by (auto simp: bindR_Inr_iff nth_Cons split: nat.splits)
  qed
qed

lemma py_index_Inl: "py_index x xs = Inl e \<longleftrightarrow> e = ValueError \<and> x \<notin> set xs"
  by (induction xs) (auto simp: bindR_Inl_iff)

text \<open>\<open>list.remove(x)\<close>: the first occurrence goes, \<open>ValueError\<close> when absent.\<close>

definition py_remove :: "'a \<Rightarrow> 'a list \<Rightarrow> 'a list res" where
  "py_remove x xs = (if x \<in> set xs then Inr (remove1 x xs) else Inl ValueError)"

text \<open>
  A dictionary keeps the insertion order of its keys: assigning to a present key keeps its place,
  a new key goes to the end. \<open>AList.update\<close> and \<open>AList.delete\<close> are exactly these operations;
  a dictionary never holds a key twice.
\<close>

type_synonym ('k, 'v) dict = "('k \<times> 'v) list"

abbreviation dict_ok :: "('k, 'v) dict \<Rightarrow> bool" where
  "dict_ok d \<equiv> distinct (map fst d)"

definition dict_get :: "('k, 'v) dict \<Rightarrow> 'k \<Rightarrow> 'v res" where
  "dict_get d k = (case map_of d k of None \<Rightarrow> Inl KeyError | Some v \<Rightarrow> Inr v)"

lemma dict_get_update [simp]:
  "dict_get (AList.update k v d) k' = (if k' = k then Inr v else dict_get d k')"
  by (simp add: dict_get_def update_conv)

lemma dict_get_Inr: "dict_get d k = Inr v \<longleftrightarrow> map_of d k = Some v"
  by (simp add: dict_get_def split: option.splits)

lemma dict_get_Inl: "dict_get d k = Inl e \<longleftrightarrow> e = KeyError \<and> k \<notin> fst ` set d"
proof (cases "map_of d k")
  case None
  then have "k \<notin> fst ` set d" by (simp add: map_of_eq_None_iff)
  with None show ?thesis by (auto simp: dict_get_def)
next
  case (Some v)
  then have "k \<in> fst ` set d" by (force dest: map_of_SomeD)
  with Some show ?thesis by (simp add: dict_get_def)
qed

lemma map_of_dict_iff: "dict_ok d \<Longrightarrow> map_of d k = Some v \<longleftrightarrow> (k, v) \<in> set d"
  by (rule map_of_eq_Some_iff)

lemma keys_update: "map fst (AList.update k v d) =
    (if k \<in> fst ` set d then map fst d else map fst d @ [k])"
  by (simp add: update_keys)

section \<open>Numbers\<close>

definition sumlist :: "'a::comm_monoid_add list \<Rightarrow> 'a" where
  "sumlist xs = foldr (+) xs 0"

lemma sumlist_simps [simp]:
  "sumlist [] = 0"
  "sumlist (x # xs) = x + sumlist xs"
  by (simp_all add: sumlist_def)

lemma sumlist_append [simp]: "sumlist (xs @ ys) = sumlist xs + sumlist ys"
  by (induction xs) (simp_all add: add.assoc)

definition prodlist :: "'a::comm_monoid_mult list \<Rightarrow> 'a" where
  "prodlist xs = foldr (*) xs 1"

lemma prodlist_simps [simp]:
  "prodlist [] = 1"
  "prodlist (x # xs) = x * prodlist xs"
  by (simp_all add: prodlist_def)

lemma prodlist_append [simp]: "prodlist (xs @ ys) = prodlist xs * prodlist ys"
  by (induction xs) (simp_all add: mult.assoc)

lemma prodlist_rev [simp]: "prodlist (rev xs) = prodlist xs"
  by (induction xs) (simp_all add: mult.commute)

lemma prodlist_pos: "(\<And>x. x \<in> set xs \<Longrightarrow> 0 < x) \<Longrightarrow> 0 < prodlist (xs :: nat list)"
  by (induction xs) simp_all

text \<open>Python's \<open>range(a, b, step)\<close> for a positive step.\<close>

definition py_range :: "int \<Rightarrow> int \<Rightarrow> int \<Rightarrow> int list" where
  "py_range a b step = map (\<lambda>k. a + step * int k) [0..<nat ((b - a + step - 1) div step)]"

lemma in_py_range:
  assumes "0 < step"
  shows "x \<in> set (py_range a b step) \<longleftrightarrow> a \<le> x \<and> x < b \<and> step dvd (x - a)"
proof
  assume "x \<in> set (py_range a b step)"
  then obtain k where "k < nat ((b - a + step - 1) div step)" and x: "x = a + step * int k"
    unfolding py_range_def set_map set_upt by (elim imageE) simp
  then have k: "int k < (b - a + step - 1) div step" by linarith
  from k have "step * (int k + 1) \<le> step * ((b - a + step - 1) div step)"
    using assms by (intro mult_left_mono) auto
  also have "\<dots> \<le> b - a + step - 1"
    using assms by (metis mult_div_mod_eq le_add_same_cancel1 pos_mod_sign)
  finally show "a \<le> x \<and> x < b \<and> step dvd (x - a)" using x assms by (simp add: algebra_simps)
next
  assume r: "a \<le> x \<and> x < b \<and> step dvd (x - a)"
  then obtain k where k: "x - a = step * k" by (auto elim: dvdE)
  with r assms have k0: "0 \<le> k" by (smt (verit) zero_le_mult_iff)
  have "k + 1 = (step * (k + 1)) div step" using assms by simp
  also have "\<dots> \<le> (b - a + step - 1) div step"
    using assms r k by (intro zdiv_mono1) (auto simp: algebra_simps)
  finally have "nat k < nat ((b - a + step - 1) div step)" using k0 by linarith
  then show "x \<in> set (py_range a b step)" using k k0 by (auto simp: py_range_def intro!: image_eqI [of _ _ "nat k"])
qed

lemma distinct_py_range: "0 < step \<Longrightarrow> distinct (py_range a b step)"
  by (auto simp: py_range_def distinct_map intro: inj_onI)

lemma py_range_1: "py_range 0 (int n) 1 = map int [0..<n]"
  by (simp add: py_range_def)

section \<open>Enumeration by depth-first search\<close>

text \<open>
  The loops that fill a stack position by position, each from its own list of choices, and run a
  body when the stack is full. The stack is the caller's, mutated in place.
\<close>

function dfs_fill ::
  "('a list \<Rightarrow> 's \<Rightarrow> 's res) \<Rightarrow> 'a list list \<Rightarrow> nat \<Rightarrow> 'a list \<times> 's \<Rightarrow> ('a list \<times> 's) res" where
  "dfs_fill leaf choices now (stack, s) =
     (if now = length choices then bindR (leaf stack s) (\<lambda>s'. Inr (stack, s'))
      else if length choices < now then Inl IndexError
      else foldR (\<lambda>c (stack, s). dfs_fill leaf choices (Suc now) (stack[now := c], s))
             (choices ! now) (stack, s))"
  by pat_completeness auto
termination by (relation "measure (\<lambda>(leaf, choices, now, _). length choices - now)") auto

declare dfs_fill.simps [simp del]

text \<open>The body runs on every choice of one element per position, in lexicographic order.\<close>

lemma foldR_concat: "foldR f (concat xss) s = foldR (foldR f) xss s"
proof (induction xss arbitrary: s)
  case (Cons xs xss)
  then show ?case by (cases "foldR f xs s") (simp_all add: foldR_append)
qed simp

lemma foldR_map: "foldR f (map g xs) s = foldR (\<lambda>x. f (g x)) xs s"
proof (induction xs arbitrary: s)
  case (Cons x xs)
  then show ?case by (cases "f (g x) s") simp_all
qed simp

lemma dfs_fill_foldR:
  assumes "length stack = length choices" "now \<le> length choices"
  shows "case foldR leaf (map (\<lambda>t. take now stack @ t) (product_lists (drop now choices))) s of
           Inl e \<Rightarrow> dfs_fill leaf choices now (stack, s) = Inl e
         | Inr s' \<Rightarrow> (\<exists>stack'. dfs_fill leaf choices now (stack, s) = Inr (stack', s') \<and>
             length stack' = length choices \<and> take now stack' = take now stack)"
  using assms
proof (induction "length choices - now" arbitrary: now stack s)
  case 0
  then show ?case by (cases "leaf stack s") (simp_all add: dfs_fill.simps)
next
  case (Suc n)
  then have now: "now < length choices" by simp
  define body where "body = (\<lambda>c (st, s). dfs_fill leaf choices (Suc now) (st[now := c], s))"
  define R where "R = product_lists (drop (Suc now) choices)"
  have step: "case foldR leaf (map (\<lambda>t. take now st @ c # t) R) u of
       Inl e \<Rightarrow> body c (st, u) = Inl e
     | Inr s' \<Rightarrow> (\<exists>st'. body c (st, u) = Inr (st', s') \<and> length st' = length choices \<and>
         take now st' = take now st)" if "length st = length choices" for c st u
  proof -
    have t: "take (Suc now) (st[now := c]) = take now st @ [c]"
      using now that by (simp add: take_Suc_conv_app_nth)
    have app: "(@) (take now st @ [c]) = (\<lambda>t. take now st @ c # t)" by (rule ext) simp
    have *: "take now st' = take now st" if e: "take (Suc now) st' = take (Suc now) (st[now := c])" for st'
      using arg_cong [OF e, of "take now"] by (simp add: take_update_cancel)
    have n: "n = length choices - Suc now" using Suc(2) by simp
    have "case foldR leaf (map (\<lambda>t. take now st @ c # t) R) u of
         Inl e \<Rightarrow> body c (st, u) = Inl e
       | Inr s' \<Rightarrow> (\<exists>st'. body c (st, u) = Inr (st', s') \<and> length st' = length choices \<and>
           take (Suc now) st' = take (Suc now) (st[now := c]))"
      using Suc(1) [OF n, of "st[now := c]" u] that now unfolding body_def R_def prod.case
      by (simp add: t app)
    then show ?thesis
      by (cases "foldR leaf (map (\<lambda>t. take now st @ c # t) R) u") (simp, simp, use * in blast)
  qed
  have fold: "case foldR leaf (concat (map (\<lambda>c. map (\<lambda>t. take now st @ c # t) R) cs)) u of
       Inl e \<Rightarrow> foldR body cs (st, u) = Inl e
     | Inr s' \<Rightarrow> (\<exists>st'. foldR body cs (st, u) = Inr (st', s') \<and> length st' = length choices \<and>
         take now st' = take now st)" if "length st = length choices" for cs st u
    using that
  proof (induction cs arbitrary: st u)
    case Nil
    then show ?case by simp
  next
    case (Cons c cs)
    show ?case
    proof (cases "foldR leaf (map (\<lambda>t. take now st @ c # t) R) u")
      case (Inl e)
      with step [OF Cons.prems, of c u] show ?thesis by (simp add: foldR_append)
    next
      case (Inr v)
      with step [OF Cons.prems, of c u] obtain st1 where st1: "body c (st, u) = Inr (st1, v)"
        "length st1 = length choices" "take now st1 = take now st" by auto
      with Cons.IH [OF st1(2), of v] Inr show ?thesis by (simp add: foldR_append cong: sum.case_cong)
    qed
  qed
  have "drop now choices = choices ! now # drop (Suc now) choices"
    using now by (simp add: Cons_nth_drop_Suc)
  then have "map (\<lambda>t. take now stack @ t) (product_lists (drop now choices)) =
      concat (map (\<lambda>c. map (\<lambda>t. take now stack @ c # t) R) (choices ! now))"
    by (simp add: R_def map_concat o_def)
  moreover have "dfs_fill leaf choices now (stack, s) = foldR body (choices ! now) (stack, s)"
    using now by (simp add: dfs_fill.simps body_def)
  ultimately show ?case using fold [OF Suc(3), of "choices ! now" s] by (simp cong: sum.case_cong)
qed

lemma dfs_fill_0:
  "length stack = length choices \<Longrightarrow>
     map_sum id snd (dfs_fill leaf choices 0 (stack, s)) = foldR leaf (product_lists choices) s"
  using dfs_fill_foldR [of stack choices 0 leaf s] by (auto split: sum.splits)

end
