(* ===== verification/WorkloadKeys.thy ===== *)
theory WorkloadKeys
  imports Prelude
begin

text \<open>
  Workload keys and workload arguments: \<open>tvm/python/tvm/auto_scheduler/utils.py\<close>. The two JSON
  codecs (\<open>json.loads\<close> and TVM's own node serializer) and the expression simplifier are
  parameters of the definitions that call them.
\<close>

section \<open>Values\<close>

text \<open>
  What \<open>json.loads\<close> returns. Python's \<open>bool\<close> is a subclass of \<open>int\<close>, so \<open>true\<close> and
  \<open>false\<close> are \<open>JInt 1\<close> and \<open>JInt 0\<close> here.
\<close>

datatype jval = JNull | JInt int | JFloat rat | JStr string | JList "jval list"

text \<open>
  What the two loaders of \<open>decode_workload_key\<close> give back: a Python value, or a TVM object
  (\<open>tvm.ir.Array\<close>, \<open>tvm.runtime.String\<close>, ...), which is never an instance of \<open>list\<close>.
\<close>

datatype 'n loaded = PyValue jval | TvmObject 'n

text \<open>
  Arguments of a workload function. \<open>VArray\<close> is \<open>tvm.ir.Array\<close>, the container that TVM's own
  JSON loader returns; it is neither a \<open>list\<close> nor a \<open>tuple\<close>. \<open>VTensor\<close> carries shape and dtype;
  \<open>VIntImm\<close>, \<open>VFloatImm\<close> and \<open>VMap\<close> are TVM's constants and its map.
  \<open>VExpr\<close> and \<open>VObj\<close> are other expressions and other hashable objects, by an identity number.
\<close>

datatype pyval =
    VNone | VInt int | VFloat rat | VStr string
  | VTuple "pyval list" | VList "pyval list" | VDict "(pyval \<times> pyval) list" | VArray "pyval list"
  | VTensor "pyval list" string
  | VIntImm int | VFloatImm rat | VMap "(pyval \<times> pyval) list" | VVar string | VAny | VExpr nat | VObj nat

section \<open>Decoding a workload key\<close>

fun flatten_list :: "jval list \<Rightarrow> jval list" where
  "flatten_list [] = []"
| "flatten_list (JList ys # xs) = flatten_list ys @ flatten_list xs"
| "flatten_list (x # xs) = x # flatten_list xs"

text \<open>
  \<open>ansor_fmt\<close> is the integer value of the environment variable
  \<open>USE_ANSOR_SCHED_LOG_FORMAT\<close> (default 0). Only \<open>JSONDecodeError\<close> is caught.
\<close>

definition decode_workload_key ::
  "int \<Rightarrow> (string \<Rightarrow> jval res) \<Rightarrow> (string \<Rightarrow> 'n res) \<Rightarrow> string \<Rightarrow> (jval \<times> jval list option) res" where
  "decode_workload_key ansor_fmt json_loads load_json key =
     (let key_list = (if ansor_fmt \<noteq> 0 then map_sum id PyValue (json_loads key)
                      else map_sum id TvmObject (load_json key))
      in case key_list of
           Inl e \<Rightarrow> (if e = JSONDecodeError then Inr (JStr key, None) else Inl e)
         | Inr (PyValue (JList (x # xs))) \<Rightarrow> Inr (x, Some (flatten_list xs))
         | Inr _ \<Rightarrow> Inr (JStr key, None))"

section \<open>The distance factor of two workloads\<close>

text \<open>
  \<open>target % arg\<close> and \<open>target / arg\<close> of an integer and an argument that is not zero;
  a string, list or None on the right is a \<open>TypeError\<close>. Result: is the remainder non-zero, and
  the quotient.
\<close>

fun mod_div :: "int \<Rightarrow> jval \<Rightarrow> (bool \<times> rat) res" where
  "mod_div t (JInt a) = Inr (t mod a \<noteq> 0, of_int t / of_int a)"
| "mod_div t (JFloat a) =
     Inr (of_int t - a * of_int \<lfloor>of_int t / a\<rfloor> \<noteq> 0, of_int t / a)"
| "mod_div t _ = Inl TypeError"

text \<open>Python's \<open>==\<close> compares an integer and a float by value.\<close>

fun jeq :: "jval \<Rightarrow> jval \<Rightarrow> bool" and jeqs :: "jval list \<Rightarrow> jval list \<Rightarrow> bool" where
  "jeq (JInt a) (JFloat b) = (of_int a = b)"
| "jeq (JFloat a) (JInt b) = (a = of_int b)"
| "jeq (JList xs) (JList ys) = jeqs xs ys"
| "jeq x y = (x = y)"
| "jeqs [] [] = True"
| "jeqs (x # xs) (y # ys) = (jeq x y \<and> jeqs xs ys)"
| "jeqs _ _ = False"

text \<open>The loop over the zipped arguments; \<open>None\<close> is \<open>float("inf")\<close>.\<close>

fun dis_loop :: "(jval \<times> jval) list \<Rightarrow> rat \<Rightarrow> rat option res" where
  "dis_loop [] dis_f = Inr (Some dis_f)"
| "dis_loop ((JInt t, arg) # rest) dis_f =
     (if t = 0 \<or> jeq arg (JInt 0) then
        (if \<not> jeq (JInt t) arg then Inr None else dis_loop rest dis_f)
      else bindR (mod_div t arg) (\<lambda>(r, q).
        if r then Inr None else dis_loop rest (dis_f * q)))"
| "dis_loop ((t, arg) # rest) dis_f =
     (if \<not> jeq t arg then Inr None else dis_loop rest dis_f)"

type_synonym workload = "jval \<times> jval list option"

definition calc_workload_dis_factor :: "workload \<Rightarrow> workload \<Rightarrow> rat option res" where
  "calc_workload_dis_factor target_workload_pair workload_pair =
     (let (target_key, ta) = target_workload_pair;
          target_args = (case ta of Some xs \<Rightarrow> xs | None \<Rightarrow> []);
          (key, a) = workload_pair;
          args = (case a of Some xs \<Rightarrow> xs | None \<Rightarrow> [])
      in if \<not> jeq key target_key \<or> length target_args \<noteq> length args then Inr None
         else dis_loop (zip target_args args) 1)"

section \<open>Constants and (de)serialization of arguments\<close>

text \<open>\<open>simplify\<close> is TVM's expression simplifier, applied to an expression that is not \<open>IntImm\<close>.\<close>

definition get_const_int :: "(pyval \<Rightarrow> pyval) \<Rightarrow> pyval \<Rightarrow> int res" where
  "get_const_int simplify e =
     (case e of
        VInt n \<Rightarrow> Inr n
      | VIntImm n \<Rightarrow> Inr n
      | _ \<Rightarrow> (case simplify e of VIntImm n \<Rightarrow> Inr n | _ \<Rightarrow> Inl ValueError))"

fun const_elem :: "(pyval \<Rightarrow> pyval) \<Rightarrow> pyval \<Rightarrow> pyval res" where
  "const_elem simplify (VVar x) = Inr (VVar x)"
| "const_elem simplify VAny = Inr VAny"
| "const_elem simplify e = bindR (get_const_int simplify e) (\<lambda>n. Inr (VInt n))"

definition get_const_tuple :: "(pyval \<Rightarrow> pyval) \<Rightarrow> pyval list \<Rightarrow> pyval res" where
  "get_const_tuple simplify in_tuple =
     bindR (mapR (const_elem simplify) in_tuple) (\<lambda>ret. Inr (VTuple ret))"

text \<open>\<open>tuplify\<close> is the conditional expression inside the comprehension of \<open>list_to_tuple\<close>.\<close>

fun tuplify :: "pyval \<Rightarrow> pyval" where
  "tuplify (VList xs) = VTuple (map tuplify xs)"
| "tuplify v = v"

definition list_to_tuple :: "pyval \<Rightarrow> pyval res" where
  "list_to_tuple x = (case x of VList xs \<Rightarrow> Inr (tuplify x) | _ \<Rightarrow> Inl AssertionError)"

text \<open>\<open>isinstance(t, Hashable)\<close> looks at the class only: lists and dictionaries have no hash.\<close>

fun hashable :: "pyval \<Rightarrow> bool" where
  "hashable (VList _) = False"
| "hashable (VDict _) = False"
| "hashable _ = True"

definition serialize_arg :: "(pyval \<Rightarrow> pyval) \<Rightarrow> pyval \<Rightarrow> pyval res" where
  "serialize_arg simplify t =
     bindR (case t of
              VTensor shape dtype \<Rightarrow>
                bindR (get_const_tuple simplify shape)
                  (\<lambda>s. Inr (VTuple [VStr ''TENSOR'', s, VStr dtype]))
            | VList _ \<Rightarrow> list_to_tuple t
            | _ \<Rightarrow> Inr t)
       (\<lambda>t'. bindR (guardR (hashable t') AssertionError) (\<lambda>_. Inr t'))"

definition serialize_args :: "(pyval \<Rightarrow> pyval) \<Rightarrow> pyval list option \<Rightarrow> pyval list res" where
  "serialize_args simplify args =
     (case args of None \<Rightarrow> Inr [] | Some ts \<Rightarrow> mapR (serialize_arg simplify) ts)"

text \<open>\<open>te.placeholder(shape, dtype)\<close>: a fresh tensor; a shape is any sequence, a dtype a string.\<close>

fun placeholder :: "pyval \<Rightarrow> pyval \<Rightarrow> pyval res" where
  "placeholder (VTuple s) (VStr d) = Inr (VTensor s d)"
| "placeholder (VList s) (VStr d) = Inr (VTensor s d)"
| "placeholder (VArray s) (VStr d) = Inr (VTensor s d)"
| "placeholder _ _ = Inl TypeError"

definition deserialize_seq :: "pyval \<Rightarrow> pyval list \<Rightarrow> pyval res" where
  "deserialize_seq t xs =
     bindR (py_get xs 0) (\<lambda>x0.
       if x0 = VStr ''TENSOR'' then
         bindR (py_get xs 1) (\<lambda>x1. bindR (py_get xs 2) (\<lambda>x2. placeholder x1 x2))
       else Inr t)"

fun deserialize_arg :: "pyval \<Rightarrow> pyval res" where
  "deserialize_arg (VTuple xs) = deserialize_seq (VTuple xs) xs"
| "deserialize_arg (VList xs) = deserialize_seq (VList xs) xs"
| "deserialize_arg t = Inr t"

definition deserialize_args :: "pyval list \<Rightarrow> pyval list res" where
  "deserialize_args args = mapR deserialize_arg args"

definition get_func_name :: "string option \<Rightarrow> string \<Rightarrow> string" where
  "get_func_name func_name qualname = (case func_name of Some n \<Rightarrow> n | None \<Rightarrow> qualname)"

definition array_mean :: "rat list \<Rightarrow> rat res" where
  "array_mean arr =
     (if arr = [] then Inl ZeroDivisionError else Inr (sumlist arr / of_nat (length arr)))"

section \<open>Lemmas\<close>

lemma decode_tvm_format:
  "load_json key = Inr obj \<Longrightarrow> decode_workload_key 0 jl load_json key = Inr (JStr key, None)"
  by (simp add: decode_workload_key_def)

lemma decode_json_list:
  "f \<noteq> 0 \<Longrightarrow> json_loads key = Inr (JList (x # xs)) \<Longrightarrow>
     decode_workload_key f json_loads lj key = Inr (x, Some (flatten_list xs))"
  by (simp add: decode_workload_key_def)

lemma decode_undecodable:
  "f \<noteq> 0 \<Longrightarrow> json_loads key = Inl JSONDecodeError \<Longrightarrow>
     decode_workload_key f json_loads lj key = Inr (JStr key, None)"
  by (simp add: decode_workload_key_def)

text \<open>No argument of a decoded key is a list any more: the tuple is flat.\<close>

lemma flatten_list_flat: "x \<in> set (flatten_list xs) \<Longrightarrow> \<not> (\<exists>ys. x = JList ys)"
  by (induction xs rule: flatten_list.induct) auto

lemma flatten_list_append: "flatten_list (xs @ ys) = flatten_list xs @ flatten_list ys"
  by (induction xs rule: flatten_list.induct) simp_all

lemma jeq_refl [simp]: "jeq x x"
proof (induction x)
  case (JList xs)
  then have "jeqs xs xs" by (induction xs) auto
  then show ?case by simp
qed simp_all

text \<open>The loop on integer arguments: a closed form that does not mention the accumulator.\<close>

definition ints :: "int list \<Rightarrow> jval list" where
  "ints = map JInt"

definition compatible :: "int list \<Rightarrow> int list \<Rightarrow> bool" where
  "compatible ts as \<longleftrightarrow> list_all2 (\<lambda>t a. if t = 0 \<or> a = 0 then t = a else a dvd t) ts as"

definition ratio :: "int \<Rightarrow> int \<Rightarrow> rat" where
  "ratio t a = (if t = 0 \<or> a = 0 then 1 else of_int t / of_int a)"

lemma dis_loop_ints:
  "length ts = length as \<Longrightarrow>
     dis_loop (zip (ints ts) (ints as)) d =
       Inr (if compatible ts as then Some (d * prodlist (map2 ratio ts as)) else None)"
proof (induction ts as arbitrary: d rule: list_induct2)
  case Nil
  then show ?case by (simp add: ints_def compatible_def)
next
  case (Cons t ts a as)
  have dvd: "t mod a \<noteq> 0 \<longleftrightarrow> \<not> a dvd t" by (simp add: dvd_eq_mod_eq_0)
  from Cons show ?case
    by (auto simp: ints_def compatible_def ratio_def dvd mult.assoc)
qed

lemma calc_ints:
  "calc_workload_dis_factor (k, Some (ints ts)) (k, Some (ints as)) =
     Inr (if length ts = length as \<and> compatible ts as
          then Some (prodlist (map2 ratio ts as)) else None)"
  using dis_loop_ints[of ts as 1]
  by (auto simp: calc_workload_dis_factor_def ints_def)

lemma compatible_trans: "compatible ts as \<Longrightarrow> compatible as bs \<Longrightarrow> compatible ts bs"
proof -
  let ?P = "\<lambda>t a :: int. if t = 0 \<or> a = 0 then t = a else a dvd t"
  assume "compatible ts as" "compatible as bs"
  moreover have "?P t a \<Longrightarrow> ?P a b \<Longrightarrow> ?P t b" for t a b
    by (auto split: if_splits intro: dvd_trans)
  ultimately show ?thesis
    unfolding compatible_def using list_all2_trans [of ?P ?P ?P ts as bs] by blast
qed

lemma ratio_ge_1: "0 \<le> t \<Longrightarrow> 0 \<le> a \<Longrightarrow> a dvd t \<or> t = 0 \<Longrightarrow> 1 \<le> ratio t a"
  by (auto simp: ratio_def dest: zdvd_imp_le)

lemma ratio_eq_1: "t = 0 \<or> a = 0 \<Longrightarrow> t = a \<Longrightarrow> ratio t a = 1" "ratio t a = 1 \<Longrightarrow> t \<noteq> 0 \<Longrightarrow> a \<noteq> 0 \<Longrightarrow> t = a"
  by (auto simp: ratio_def)

text \<open>The value of a finite factor, and its behaviour along a chain of candidates.\<close>

lemma prod_ratio_trans:
  "compatible ts as \<Longrightarrow> compatible as bs \<Longrightarrow>
     prodlist (map2 ratio ts bs) = prodlist (map2 ratio ts as) * prodlist (map2 ratio as bs)"
proof (induction ts arbitrary: as bs)
  case Nil
  then show ?case by (simp add: compatible_def)
next
  case (Cons t ts)
  then obtain a as' where a: "as = a # as'" by (cases as) (auto simp: compatible_def)
  with Cons.prems obtain b bs' where b: "bs = b # bs'" by (cases bs) (auto simp: compatible_def)
  have "ratio t b = ratio t a * ratio a b"
    using Cons.prems a b by (auto simp: compatible_def ratio_def split: if_splits)
  moreover have "prodlist (map2 ratio ts bs') =
      prodlist (map2 ratio ts as') * prodlist (map2 ratio as' bs')"
    by (rule Cons.IH) (use Cons.prems a b in \<open>auto simp: compatible_def\<close>)
  ultimately show ?case by (simp add: a b)
qed

lemma prod_ratio_ge_1:
  "compatible ts as \<Longrightarrow> \<forall>t\<in>set ts. 0 \<le> t \<Longrightarrow> \<forall>a\<in>set as. 0 \<le> a \<Longrightarrow>
     1 \<le> prodlist (map2 ratio ts as)"
proof (induction ts arbitrary: as)
  case Nil
  then show ?case by (simp add: compatible_def)
next
  case (Cons t ts)
  then obtain a as' where a: "as = a # as'" by (cases as) (auto simp: compatible_def)
  have "1 \<le> ratio t a"
    by (rule ratio_ge_1) (use Cons.prems a in \<open>auto simp: compatible_def split: if_splits\<close>)
  moreover have "1 \<le> prodlist (map2 ratio ts as')"
    by (rule Cons.IH) (use Cons.prems a in \<open>auto simp: compatible_def\<close>)
  ultimately have "1 * 1 \<le> ratio t a * prodlist (map2 ratio ts as')"
    by (intro mult_mono) auto
  then show ?case by (simp add: a)
qed

lemma prod_ratio_eq_1:
  "compatible ts as \<Longrightarrow> \<forall>t\<in>set ts. 0 \<le> t \<Longrightarrow> \<forall>a\<in>set as. 0 \<le> a \<Longrightarrow>
     prodlist (map2 ratio ts as) = 1 \<longleftrightarrow> ts = as"
proof (induction ts arbitrary: as)
  case Nil
  then show ?case by (simp add: compatible_def)
next
  case (Cons t ts)
  then obtain a as' where a: "as = a # as'" by (cases as) (auto simp: compatible_def)
  let ?r = "ratio t a" and ?p = "prodlist (map2 ratio ts as')"
  have r: "1 \<le> ?r"
    by (rule ratio_ge_1) (use Cons.prems a in \<open>auto simp: compatible_def split: if_splits\<close>)
  have p: "1 \<le> ?p"
    by (rule prod_ratio_ge_1) (use Cons.prems a in \<open>auto simp: compatible_def\<close>)
  have "?r * ?p = 1 \<longleftrightarrow> ?r = 1 \<and> ?p = 1"
  proof
    assume rp: "?r * ?p = 1"
    have "?r * 1 \<le> ?r * ?p" "1 * ?p \<le> ?r * ?p" using r p by (auto intro: mult_mono)
    with rp r p show "?r = 1 \<and> ?p = 1" by simp
  qed simp
  moreover have "?r = 1 \<longleftrightarrow> t = a"
    using Cons.prems a by (auto simp: compatible_def ratio_def split: if_splits)
  moreover have "?p = 1 \<longleftrightarrow> ts = as'"
    by (rule Cons.IH) (use Cons.prems a in \<open>auto simp: compatible_def\<close>)
  ultimately show ?case by (simp add: a)
qed

text \<open>Serialized arguments are hashable, and deserialization undoes serialization.\<close>

text \<open>
  The arguments the pair of functions is meant for: a tensor whose dimensions are integers or
  preserved variables, a non-empty list whose head is not the tag, or a value without brackets.
\<close>

fun const_dim :: "pyval \<Rightarrow> bool" where
  "const_dim (VInt _) = True"
| "const_dim (VVar _) = True"
| "const_dim VAny = True"
| "const_dim _ = False"

fun plain_arg :: "pyval \<Rightarrow> bool" where
  "plain_arg (VTensor s d) = list_all const_dim s"
| "plain_arg (VList xs) = (xs \<noteq> [] \<and> hd xs \<noteq> VStr ''TENSOR'')"
| "plain_arg (VTuple xs) = (xs \<noteq> [] \<and> hd xs \<noteq> VStr ''TENSOR'')"
| "plain_arg (VDict _) = False"
| "plain_arg _ = True"

lemma const_elem_dim: "const_dim d \<Longrightarrow> const_elem simplify d = Inr d"
  by (cases d) (simp_all add: get_const_int_def)

lemma const_tuple_dims: "list_all const_dim s \<Longrightarrow> get_const_tuple simplify s = Inr (VTuple s)"
  by (simp add: get_const_tuple_def mapR_total [where g = "\<lambda>x. x"] const_elem_dim list_all_iff)

lemma tuplify_tag: "tuplify x = VStr s \<longleftrightarrow> x = VStr s"
  by (cases x) simp_all

lemma serialize_arg_hashable: "serialize_arg simplify t = Inr u \<Longrightarrow> hashable u"
  by (auto simp: serialize_arg_def bindR_Inr_iff)

lemma roundtrip_arg:
  assumes "plain_arg t"
  shows "bindR (serialize_arg simplify t) deserialize_arg = Inr (tuplify t)"
proof (cases t)
  case (VList xs)
  with assms obtain y ys where "xs = y # ys" "y \<noteq> VStr ''TENSOR''" by (cases xs) auto
  with VList show ?thesis
    by (simp add: serialize_arg_def list_to_tuple_def deserialize_seq_def tuplify_tag)
next
  case (VTuple xs)
  with assms obtain y ys where "xs = y # ys" "y \<noteq> VStr ''TENSOR''" by (cases xs) auto
  with VTuple show ?thesis by (simp add: serialize_arg_def deserialize_seq_def)
next
  case (VTensor s d)
  with assms show ?thesis
    by (simp add: serialize_arg_def const_tuple_dims deserialize_seq_def py_get_def)
qed (use assms in \<open>simp_all add: serialize_arg_def\<close>)

section \<open>Properties\<close>

text \<open>
  On non-negative integer arguments a finite distance factor is at least 1, is 1 exactly for
  identical arguments, and multiplies along a chain of compatible workloads; so the factor orders
  the candidates of one target as intended.
\<close>

lemma dis_factor_laws:
  assumes "calc_workload_dis_factor (k, Some (ints ts)) (k, Some (ints as)) = Inr (Some f)"
    and "calc_workload_dis_factor (k, Some (ints as)) (k, Some (ints bs)) = Inr (Some g)"
    and "\<forall>t\<in>set ts. 0 \<le> t" and "\<forall>a\<in>set as. 0 \<le> a"
  shows "1 \<le> f \<and> (f = 1 \<longleftrightarrow> ts = as) \<and>
         calc_workload_dis_factor (k, Some (ints ts)) (k, Some (ints bs)) = Inr (Some (f * g))"
proof -
  have c: "compatible ts as" "length ts = length as" "f = prodlist (map2 ratio ts as)"
    using assms(1) by (auto simp: calc_ints split: if_splits)
  have d: "compatible as bs" "length as = length bs" "g = prodlist (map2 ratio as bs)"
    using assms(2) by (auto simp: calc_ints split: if_splits)
  have "compatible ts bs" using c(1) d(1) by (rule compatible_trans)
  then show ?thesis
    using c d assms(3,4)
    by (simp add: calc_ints prod_ratio_trans [OF c(1) d(1)] prod_ratio_ge_1 prod_ratio_eq_1)
qed

text \<open>
  \<open>deserialize_args\<close> undoes \<open>serialize_args\<close>: every argument comes back, a list as the
  tuple of its converted elements, a tensor with constant or symbolic dimensions as a placeholder
  of the same shape and dtype.
\<close>

lemma serialize_roundtrip:
  assumes "\<forall>t\<in>set ts. plain_arg t"
  shows "bindR (serialize_args simplify (Some ts)) deserialize_args = Inr (map tuplify ts)"
  using assms
proof (induction ts)
  case Nil
  then show ?case by (simp add: serialize_args_def deserialize_args_def)
next
  case (Cons t ts)
  then have t: "bindR (serialize_arg simplify t) deserialize_arg = Inr (tuplify t)"
    by (simp add: roundtrip_arg)
  then obtain u where u: "serialize_arg simplify t = Inr u" "deserialize_arg u = Inr (tuplify t)"
    by (auto simp: bindR_Inr_iff)
  from Cons obtain us where "mapR (serialize_arg simplify) ts = Inr us"
      "mapR deserialize_arg us = Inr (map tuplify ts)"
    by (auto simp: serialize_args_def deserialize_args_def bindR_Inr_iff)
  with u show ?case by (simp add: serialize_args_def deserialize_args_def)
qed

end
