(* ===== verification/WorkloadRegistry.thy ===== *)
theory WorkloadRegistry
  imports WorkloadKeys
begin

text \<open>
  The workload registry: \<open>tvm/python/tvm/auto_scheduler/workload_registry.py\<close>, with the
  conversion of Python values to TVM objects it relies on
  (\<open>tvm/python/tvm/runtime/object_generic.py\<close>). The module variable
  \<open>WORKLOAD_FUNC_REGISTRY\<close> is passed explicitly; TVM's JSON codec for nodes, a call of a
  registered Python function and the pickled file contents are parameters.
\<close>

section \<open>State\<close>

text \<open>A Python function object: its identity and the two attributes \<open>get_func_name\<close> reads.\<close>

record pyfunc =
  pf_id :: nat
  pf_func_name :: "string option"
  pf_qualname :: string

text \<open>A registry value is a function, or the (non-callable) tensors of an extracted task.\<close>

datatype regval = RFunc pyfunc | RTensors pyval

type_synonym registry = "string \<rightharpoonup> regval"

text \<open>The first argument of \<open>register_workload\<close> and \<open>make_workload_key\<close>.\<close>

datatype name_arg = NFunc pyfunc | NStr string | NOther

text \<open>
  \<open>register_workload\<close> registers at once when it has a function, and otherwise returns its inner
  function \<open>register\<close>, a closure over the name and the flag.
\<close>

datatype registered = Done registry regval | Decorator string bool

section \<open>Registration\<close>

definition pyfunc_name :: "pyfunc \<Rightarrow> string" where
  "pyfunc_name f = get_func_name (pf_func_name f) (pf_qualname f)"

definition register :: "string \<Rightarrow> bool \<Rightarrow> regval \<Rightarrow> registry \<Rightarrow> registry res" where
  "register func_name override myf reg =
     (if func_name \<in> dom reg \<and> \<not> override then Inl RuntimeError
      else Inr (reg(func_name \<mapsto> myf)))"

definition register_workload ::
  "name_arg \<Rightarrow> pyfunc option \<Rightarrow> bool \<Rightarrow> registry \<Rightarrow> registered res" where
  "register_workload func_name f override reg =
     (let (f', name) = (case func_name of
            NFunc g \<Rightarrow> (Some g, Some (pyfunc_name g))
          | NStr s \<Rightarrow> (f, Some s)
          | NOther \<Rightarrow> (f, None))
      in case name of
           None \<Rightarrow> Inl ValueError
         | Some s \<Rightarrow>
             (case f' of
                Some g \<Rightarrow> bindR (register s override (RFunc g) reg) (\<lambda>r. Inr (Done r (RFunc g)))
              | None \<Rightarrow> Inr (Decorator s override)))"

definition register_workload_tensors ::
  "string \<Rightarrow> pyval \<Rightarrow> bool \<Rightarrow> registry \<Rightarrow> (registry \<times> string) res" where
  "register_workload_tensors key tensors override reg =
     bindR (register_workload (NStr key) None override reg) (\<lambda>d.
       case d of
         Decorator s ov \<Rightarrow> bindR (register s ov (RTensors tensors) reg) (\<lambda>r. Inr (r, key))
       | Done _ _ \<Rightarrow> Inl TypeError)"

section \<open>Keys and their resolution\<close>

text \<open>
  \<open>convert_to_object\<close>: what TVM's serializer makes of the tuple it is given. TVM objects are
  kept, numbers become constants, lists and tuples become an \<open>Array\<close>.
\<close>

fun convert_to_object :: "pyval \<Rightarrow> pyval res" where
  "convert_to_object (VInt n) = Inr (VIntImm n)"
| "convert_to_object (VFloat q) = Inr (VFloatImm q)"
| "convert_to_object (VStr s) = Inr (VStr s)"
| "convert_to_object (VList xs) = bindR (mapR convert_to_object xs) (\<lambda>ys. Inr (VArray ys))"
| "convert_to_object (VTuple xs) = bindR (mapR convert_to_object xs) (\<lambda>ys. Inr (VArray ys))"
| "convert_to_object (VDict kvs) =
     bindR (mapR (\<lambda>kv. case kv of (k, v) \<Rightarrow>
              bindR (convert_to_object k) (\<lambda>k'. bindR (convert_to_object v) (\<lambda>v'. Inr (k', v')))) kvs)
       (\<lambda>kvs'. Inr (VMap kvs'))"
| "convert_to_object VNone = Inr VNone"
| "convert_to_object (VObj i) = Inl ValueError"
| "convert_to_object v = Inr v"

text \<open>\<open>save_json\<close> serializes the converted \<open>(func_name,) + args\<close>.\<close>

definition make_workload_key ::
  "(pyval \<Rightarrow> string) \<Rightarrow> (pyval \<Rightarrow> pyval) \<Rightarrow> name_arg \<Rightarrow> pyval list option \<Rightarrow> registry \<Rightarrow> string res" where
  "make_workload_key save_json simplify func args reg =
     (case (case func of NFunc g \<Rightarrow> Some (pyfunc_name g) | NStr s \<Rightarrow> Some s | NOther \<Rightarrow> None) of
        None \<Rightarrow> Inl ValueError
      | Some func_name \<Rightarrow>
          (if func_name \<notin> dom reg then Inl ValueError
           else bindR (serialize_args simplify args) (\<lambda>args'.
                  bindR (convert_to_object (VTuple (VStr func_name # args'))) (\<lambda>node.
                    Inr (save_json node)))))"

text \<open>Subscripting the loaded object: an \<open>Array\<close> (or list, tuple) and a string have items.\<close>

fun py_items :: "pyval \<Rightarrow> pyval list res" where
  "py_items (VArray xs) = Inr xs"
| "py_items (VList xs) = Inr xs"
| "py_items (VTuple xs) = Inr xs"
| "py_items (VStr s) = Inr (map (\<lambda>c. VStr [c]) s)"
| "py_items _ = Inl TypeError"

fun reg_lookup :: "registry \<Rightarrow> pyval \<Rightarrow> regval res" where
  "reg_lookup reg (VStr s) = (case reg s of Some v \<Rightarrow> Inr v | None \<Rightarrow> Inl KeyError)"
| "reg_lookup reg v = (if hashable v then Inl KeyError else Inl TypeError)"

definition workload_key_to_tensors ::
  "(string \<Rightarrow> pyval res) \<Rightarrow> (pyfunc \<Rightarrow> pyval list \<Rightarrow> pyval res) \<Rightarrow> registry \<Rightarrow> string \<Rightarrow> regval res" where
  "workload_key_to_tensors load_json call reg key =
     (case reg key of
        Some v \<Rightarrow> Inr v
      | None \<Rightarrow>
          bindR (load_json key) (\<lambda>workload.
          bindR (py_items workload) (\<lambda>items.
          bindR (py_get items 0) (\<lambda>name.
          bindR (reg_lookup reg name) (\<lambda>value.
            case value of
              RTensors _ \<Rightarrow> Inl AssertionError
            | RFunc g \<Rightarrow>
                bindR (deserialize_args (tl items)) (\<lambda>args.
                  bindR (call g args) (\<lambda>t. Inr (RTensors t))))))))"

section \<open>Moving an entry to another process\<close>

text \<open>The serialized value: a function is passed as it is, tensors as TVM's JSON.\<close>

datatype sval = SFunc pyfunc | SJson string

definition serialize_workload_registry_entry ::
  "(pyval \<Rightarrow> string) \<Rightarrow> (string \<Rightarrow> pyval res) \<Rightarrow> registry \<Rightarrow> string \<Rightarrow> (pyval \<times> sval) res" where
  "serialize_workload_registry_entry SaveJSON load_json reg key =
     bindR (if key \<in> dom reg then Inr (VStr key)
            else bindR (load_json key) (\<lambda>workload.
                 bindR (py_items workload) (\<lambda>items. py_get items 0)))
       (\<lambda>sname. bindR (reg_lookup reg sname) (\<lambda>svalue.
          Inr (sname, case svalue of RFunc g \<Rightarrow> SFunc g | RTensors t \<Rightarrow> SJson (SaveJSON t))))"

definition deserialize_workload_registry_entry ::
  "(string \<Rightarrow> pyval res) \<Rightarrow> string \<times> sval \<Rightarrow> registry \<Rightarrow> registry res" where
  "deserialize_workload_registry_entry LoadJSON data reg =
     (let (name, value) = data
      in if name \<in> dom reg then Inr reg
         else bindR (case value of
                       SFunc g \<Rightarrow> Inr (RFunc g)
                     | SJson j \<Rightarrow> bindR (LoadJSON j) (\<lambda>t. Inr (RTensors t)))
                (\<lambda>v. Inr (reg(name \<mapsto> v))))"

text \<open>
  Dumping and loading the whole registry: a file holds the pickled dictionary, and
  \<open>pickle.load\<close> of what \<open>pickle.dump\<close> wrote gives the dictionary back. Opening a missing file
  raises.
\<close>

type_synonym files = "string \<rightharpoonup> registry"

definition save_workload_func_registry :: "string \<Rightarrow> registry \<Rightarrow> files \<Rightarrow> files" where
  "save_workload_func_registry filename reg fs = fs(filename \<mapsto> reg)"

definition load_workload_func_registry :: "string \<Rightarrow> files \<Rightarrow> registry res" where
  "load_workload_func_registry filename fs =
     (case fs filename of Some reg \<Rightarrow> Inr reg | None \<Rightarrow> Inl FileNotFoundError)"

section \<open>Lemmas\<close>

lemma register_Inr:
  "register n ov v reg = Inr reg' \<longleftrightarrow> (n \<notin> dom reg \<or> ov) \<and> reg' = reg(n \<mapsto> v)"
  by (auto simp: register_def)

lemma register_Inl:
  "register n ov v reg = Inl e \<longleftrightarrow> n \<in> dom reg \<and> \<not> ov \<and> e = RuntimeError"
  by (auto simp: register_def)

lemma register_workload_simps:
  "register_workload NOther f ov reg = Inl ValueError"
  "register_workload (NStr s) None ov reg = Inr (Decorator s ov)"
  "register_workload (NStr s) (Some g) ov reg =
     bindR (register s ov (RFunc g) reg) (\<lambda>r. Inr (Done r (RFunc g)))"
  "register_workload (NFunc g) f ov reg =
     bindR (register (pyfunc_name g) ov (RFunc g) reg) (\<lambda>r. Inr (Done r (RFunc g)))"
  by (simp_all add: register_workload_def)

lemma register_workload_tensors_eq:
  "register_workload_tensors key t ov reg =
     bindR (register key ov (RTensors t) reg) (\<lambda>r. Inr (r, key))"
  by (simp add: register_workload_tensors_def register_workload_simps)

lemma serialize_args_hashable:
  "serialize_args simplify (Some ts) = Inr us \<Longrightarrow> \<forall>u\<in>set us. hashable u"
  by (auto simp: serialize_args_def dest!: mapR_range dest: serialize_arg_hashable)

text \<open>TVM's own objects are never rebuilt into tensors: only a Python tuple or list is looked at.\<close>

fun tvm_object :: "pyval \<Rightarrow> bool" where
  "tvm_object (VTuple _) = False"
| "tvm_object (VList _) = False"
| "tvm_object (VDict _) = False"
| "tvm_object (VInt _) = False"
| "tvm_object (VFloat _) = False"
| "tvm_object _ = True"

lemma convert_tvm_object: "convert_to_object v = Inr w \<Longrightarrow> tvm_object w"
  by (cases v) (auto simp: bindR_Inr_iff)

lemma deserialize_tvm_object: "tvm_object v \<Longrightarrow> deserialize_arg v = Inr v"
  by (cases v) simp_all

lemma deserialize_tvm_objects:
  "\<forall>v\<in>set vs. tvm_object v \<Longrightarrow> deserialize_args vs = Inr vs"
  unfolding deserialize_args_def
  by (subst mapR_total [where g = "\<lambda>x. x"]) (auto intro: deserialize_tvm_object)

lemma mapR_convert_tvm: "mapR convert_to_object vs = Inr ws \<Longrightarrow> \<forall>w\<in>set ws. tvm_object w"
  by (auto dest!: mapR_range dest: convert_tvm_object)

section \<open>Properties\<close>

text \<open>
  C16. A key made by \<open>make_workload_key\<close> resolves, through TVM's JSON codec (loading what was
  saved gives the saved node), to a call of the registered function on the serialized arguments,
  each converted to a TVM object, with nothing rebuilt. In particular no tensor argument is rebuilt by
  \<open>deserialize_args\<close>: the tag it looks for sits in an \<open>Array\<close>, which is neither tuple nor list.
\<close>

theorem key_resolves_to_call:
  assumes key: "make_workload_key save_json simplify func args reg = Inr key"
    and codec: "\<And>node. save_json node = key \<Longrightarrow> load_json key = Inr node"
    and name: "func = NFunc g" "reg (pyfunc_name g) = Some (RFunc g)"
    and fresh: "reg key = None"
  shows "\<exists>sargs objs. serialize_args simplify args = Inr sargs \<and>
           mapR convert_to_object sargs = Inr objs \<and> (\<forall>v\<in>set objs. tvm_object v) \<and>
           workload_key_to_tensors load_json call reg key =
             bindR (call g objs) (\<lambda>t. Inr (RTensors t))"
proof -
  from key name obtain sargs objs where s: "serialize_args simplify args = Inr sargs"
      and o: "mapR convert_to_object sargs = Inr objs"
      and k: "key = save_json (VArray (VStr (pyfunc_name g) # objs))"
    by (auto simp: make_workload_key_def bindR_Inr_iff split: if_splits)
  have tv: "\<forall>v\<in>set objs. tvm_object v" using o by (rule mapR_convert_tvm)
  have "workload_key_to_tensors load_json call reg key =
      bindR (call g objs) (\<lambda>t. Inr (RTensors t))"
    using fresh codec name(2) by (simp add: workload_key_to_tensors_def k deserialize_tvm_objects tv)
  with s o tv show ?thesis by blast
qed

text \<open>An instance: a function of one tensor argument, with an injective codec of its own.\<close>

definition demo_fn :: pyfunc where
  "demo_fn = \<lparr>pf_id = 0, pf_func_name = None, pf_qualname = ''Dense''\<rparr>"

definition demo_reg :: registry where
  "demo_reg = [''Dense'' \<mapsto> RFunc demo_fn]"

definition demo_node :: pyval where
  "demo_node = VArray [VStr ''Dense'', VArray [VStr ''TENSOR'', VArray [VIntImm 4], VStr ''float32'']]"

definition demo_save :: "pyval \<Rightarrow> string" where
  "demo_save n = (if n = demo_node then ''K'' else [])"

lemma key_resolves_to_call_witness:
  "\<exists>sargs objs. serialize_args id (Some [VTensor [VInt 4] ''float32'']) = Inr sargs \<and>
     mapR convert_to_object sargs = Inr objs \<and> (\<forall>v\<in>set objs. tvm_object v) \<and>
     workload_key_to_tensors (\<lambda>_. Inr demo_node) (\<lambda>_ xs. Inr (VList xs)) demo_reg ''K'' =
       bindR (Inr (VList objs)) (\<lambda>t. Inr (RTensors t))"
proof -
  have key: "make_workload_key demo_save id (NFunc demo_fn)
      (Some [VTensor [VInt 4] ''float32'']) demo_reg = Inr ''K''"
    by (simp add: make_workload_key_def pyfunc_name_def demo_fn_def get_func_name_def demo_reg_def
        serialize_args_def serialize_arg_def get_const_tuple_def get_const_int_def demo_save_def
        demo_node_def)
  show ?thesis
    by (rule key_resolves_to_call [OF key])
      (auto simp: demo_save_def demo_reg_def pyfunc_name_def get_func_name_def demo_fn_def
        split: if_splits)
qed

text \<open>
  A registry entry survives the move to a freshly spawned process: deserializing what
  \<open>serialize_workload_registry_entry\<close> produced registers exactly the entry the key stands for,
  and leaves every entry the new process already has.
\<close>

theorem registry_entry_roundtrip:
  assumes ser: "serialize_workload_registry_entry SaveJSON load_json reg key = Inr (VStr name, sv)"
    and codec: "\<And>t. reg name = Some (RTensors t) \<Longrightarrow> LoadJSON (SaveJSON t) = Inr t"
  shows "\<exists>v reg2. reg name = Some v \<and>
           deserialize_workload_registry_entry LoadJSON (name, sv) reg1 = Inr reg2 \<and>
           reg2 name = (if name \<in> dom reg1 then reg1 name else Some v) \<and>
           (\<forall>n. n \<noteq> name \<longrightarrow> reg2 n = reg1 n)"
proof -
  from ser obtain v where v: "reg name = Some v"
      and sv: "sv = (case v of RFunc g \<Rightarrow> SFunc g | RTensors t \<Rightarrow> SJson (SaveJSON t))"
    by (auto simp: serialize_workload_registry_entry_def bindR_Inr_iff split: option.splits)
  let ?reg2 = "if name \<in> dom reg1 then reg1 else reg1(name \<mapsto> v)"
  have "deserialize_workload_registry_entry LoadJSON (name, sv) reg1 = Inr ?reg2"
    using v by (cases v) (simp_all add: deserialize_workload_registry_entry_def sv codec)
  with v show ?thesis by (intro exI [of _ v] exI [of _ ?reg2]) auto
qed

lemma registry_entry_roundtrip_witness:
  "\<exists>v reg2. [''k'' \<mapsto> RTensors (VList [])] ''k'' = Some v \<and>
     deserialize_workload_registry_entry (\<lambda>_. Inr (VList [])) (''k'', SJson ''j'') Map.empty = Inr reg2 \<and>
     reg2 ''k'' = (if ''k'' \<in> dom (Map.empty :: registry) then Map.empty ''k'' else Some v) \<and>
     (\<forall>n. n \<noteq> ''k'' \<longrightarrow> reg2 n = Map.empty n)"
  by (rule registry_entry_roundtrip [where SaveJSON = "\<lambda>_. ''j''" and key = "''k''"
        and load_json = "\<lambda>_. Inl TVMError"])
    (auto simp: serialize_workload_registry_entry_def)

end
