(* ===== verification/Dispatch.thy ===== *)
theory Dispatch
  imports WorkloadKeys
begin

text \<open>
  Dispatch contexts: \<open>tvm/python/tvm/auto_scheduler/dispatcher.py\<close>, the dynamic-workload
  dispatcher of \<open>dietcode.py\<close> and \<open>remove_func_name_indices\<close> of \<open>relay_integration.py\<close>.
  A context object is a record in a heap, \<open>DispatchContext.current\<close> and \<open>_old_ctx\<close> are its
  addresses, and every query passes the heap on, because a lookup writes to the tables it reads.
  The exception of a call ends it; writes made before are then dropped.
\<close>

section \<open>The interface of a best-record table\<close>

text \<open>
  The history keeps the best value per key in a table it only reads by \<open>find\<close> and writes by
  \<open>put\<close>. What follows needs one law of the two.
\<close>

locale best_table =
  fixes find :: "'t \<Rightarrow> 'k \<Rightarrow> 'v option"
    and put :: "'k \<Rightarrow> 'v \<Rightarrow> 't \<Rightarrow> 't"
  assumes find_put: "find (put k v t) k' = (if k' = k then Some v else find t k')"
begin

definition keep :: "('v \<Rightarrow> 'v \<Rightarrow> bool) \<Rightarrow> 'k \<times> 'v \<Rightarrow> 't \<Rightarrow> 't" where
  "keep worse kv t =
     (case find t (fst kv) of
        None \<Rightarrow> put (fst kv) (snd kv) t
      | Some w \<Rightarrow> if worse w (snd kv) then put (fst kv) (snd kv) t else t)"

definition keep1 :: "('v \<Rightarrow> 'v \<Rightarrow> bool) \<Rightarrow> 'v \<Rightarrow> 'v option \<Rightarrow> 'v option" where
  "keep1 worse v p = (case p of None \<Rightarrow> Some v | Some w \<Rightarrow> if worse w v then Some v else p)"

lemma keep1_simps [simp]:
  "keep1 worse v None = Some v"
  "keep1 worse v (Some w) = Some (if worse w v then v else w)"
  by (simp_all add: keep1_def)

lemma find_keep:
  "find (keep worse kv t) k = (if k = fst kv then keep1 worse (snd kv) (find t k) else find t k)"
  by (simp add: keep_def keep1_def find_put split: option.split)

lemma find_keep_fold:
  "find (fold (keep worse) kvs t) k =
     fold (keep1 worse) [snd kv. kv \<leftarrow> kvs, fst kv = k] (find t k)"
  by (induction kvs arbitrary: t) (auto simp: find_keep)

text \<open>The value kept is a best one, and the earliest of the best ones.\<close>

lemma keep1_fold_None: "fold (keep1 worse) vs None = None \<longleftrightarrow> vs = []"
proof -
  have "fold (keep1 worse) vs (Some w) \<noteq> None" for vs w
    by (induction vs arbitrary: w) (auto simp: keep1_def)
  then show ?thesis by (cases vs) (auto simp: keep1_def)
qed

lemma keep1_fold_best:
  fixes c :: "'v \<Rightarrow> 'c::linorder"
  assumes "\<And>w v. w \<in> set (w0 # vs) \<Longrightarrow> v \<in> set vs \<Longrightarrow> worse w v \<longleftrightarrow> c v < c w"
    and "fold (keep1 worse) vs (Some w0) = Some b"
  shows "\<exists>i<length (w0 # vs). (w0 # vs) ! i = b \<and>
    (\<forall>v\<in>set (w0 # vs). c b \<le> c v) \<and> (\<forall>j<i. c b < c ((w0 # vs) ! j))"
  using assms
proof (induction vs arbitrary: w0)
  case Nil
  then show ?case by simp
next
  case (Cons v vs)
  have w: "worse w0 v \<longleftrightarrow> c v < c w0" using Cons.prems(1) by simp
  show ?case
  proof (cases "c v < c w0")
    case True
    with w Cons.prems(2) have f: "fold (keep1 worse) vs (Some v) = Some b"
      by simp
    have "\<exists>i<length (v # vs). (v # vs) ! i = b \<and>
        (\<forall>v'\<in>set (v # vs). c b \<le> c v') \<and> (\<forall>j<i. c b < c ((v # vs) ! j))"
      by (rule Cons.IH [OF _ f]) (use Cons.prems(1) in auto)
    then obtain i where i: "i < length (v # vs)" "(v # vs) ! i = b"
        "\<forall>v'\<in>set (v # vs). c b \<le> c v'" "\<forall>j<i. c b < c ((v # vs) ! j)" by blast
    moreover have "\<forall>j<Suc i. c b < c ((w0 # v # vs) ! j)"
      using i True by (auto simp: nth_Cons split: nat.splits)
    ultimately show ?thesis using True by (intro exI [of _ "Suc i"]) auto
  next
    case False
    with w Cons.prems(2) have f: "fold (keep1 worse) vs (Some w0) = Some b"
      by simp
    have "\<exists>i<length (w0 # vs). (w0 # vs) ! i = b \<and>
        (\<forall>v'\<in>set (w0 # vs). c b \<le> c v') \<and> (\<forall>j<i. c b < c ((w0 # vs) ! j))"
      by (rule Cons.IH [OF _ f]) (use Cons.prems(1) in auto)
    then obtain i where i: "i < length (w0 # vs)" "(w0 # vs) ! i = b"
        "\<forall>v'\<in>set (w0 # vs). c b \<le> c v'" "\<forall>j<i. c b < c ((w0 # vs) ! j)" by blast
    show ?thesis
    proof (cases i)
      case 0
      with i False show ?thesis by (intro exI [of _ 0]) auto
    next
      case (Suc k)
      have "c b < c w0" using i(4) Suc by force
      with i Suc False show ?thesis
        by (intro exI [of _ "Suc i"]) (auto simp: nth_Cons split: nat.splits)
    qed
  qed
qed

end

section \<open>State\<close>

text \<open>A cost is a mean of rationals; \<open>None\<close> is \<open>nan\<close>, the mean of no cost at all.\<close>

type_synonym cost = "rat option"

text \<open>
  What an entry may hold under its only key \<open>'cached_autosched_result'\<close>: the pair of a state and
  its cost, or a dynamic-workload dispatcher.
\<close>

datatype ('s, 'd) cached = CPair 's cost | CDisp 'd

type_synonym ('s, 'd) entry = "(string, ('s, 'd) cached) dict"
type_synonym ('s, 'd) table = "string \<rightharpoonup> (jval \<rightharpoonup> ('s, 'd) entry)"

record ('s, 'd) history =
  h_by_targetkey :: "('s, 'd) table"
  h_by_model :: "('s, 'd) table"
  h_user :: "('s, 'd) table"
  h_include_compatible :: bool

text \<open>
  A measurement record: the target's keys and model, the workload key, the state, the error
  number and the costs; \<open>None\<close> in the costs is an element that is not a \<open>FloatImm\<close>.
\<close>

record 's mrec =
  r_keys :: "string list"
  r_model :: string
  r_wkey :: string
  r_state :: 's
  r_error_no :: int
  r_costs :: "rat option list"

text \<open>A dispatcher record: its search task's target and workload key, and the object itself.\<close>

record 'd drec =
  d_keys :: "string list"
  d_model :: string
  d_wkey :: string
  d_obj :: 'd

record target =
  t_keys :: "string list"
  t_model :: string
  t_str :: string

type_synonym decoder = "string \<Rightarrow> (jval \<times> jval list option) res"

abbreviation CK :: string where
  "CK \<equiv> ''cached_autosched_result''"

section \<open>Loading records\<close>

text \<open>
  \<open>get_workload_entry\<close> creates the two levels when they are missing. A list is not hashable, so
  it is no dictionary key.
\<close>

definition get_workload_entry ::
  "decoder \<Rightarrow> ('s, 'd) table \<Rightarrow> string \<Rightarrow> string \<Rightarrow>
     (('s, 'd) table \<times> ('s, 'd) entry \<times> jval \<times> jval list option) res" where
  "get_workload_entry decode best_records target_key workload_key =
     bindR (decode workload_key) (\<lambda>(workload_hash, workload_args).
       bindR (guardR (\<not> (\<exists>xs. workload_hash = JList xs)) TypeError) (\<lambda>_.
         let m = (case best_records target_key of None \<Rightarrow> Map.empty | Some m \<Rightarrow> m);
             e = (case m workload_hash of None \<Rightarrow> [] | Some e \<Rightarrow> e)
         in Inr (best_records(target_key \<mapsto> m(workload_hash \<mapsto> e)), e, workload_hash, workload_args)))"

text \<open>The assignment \<open>entry['cached_autosched_result'] = v\<close>, through the table that holds the entry.\<close>

definition put_cached :: "string \<times> jval \<Rightarrow> ('s, 'd) cached \<Rightarrow> ('s, 'd) table \<Rightarrow> ('s, 'd) table" where
  "put_cached kh v t =
     (let m = (case t (fst kh) of None \<Rightarrow> Map.empty | Some m \<Rightarrow> m);
          e = (case m (snd kh) of None \<Rightarrow> [] | Some e \<Rightarrow> e)
      in t(fst kh \<mapsto> m(snd kh \<mapsto> AList.update CK v e)))"

definition find_cached :: "('s, 'd) table \<Rightarrow> string \<times> jval \<Rightarrow> ('s, 'd) cached option" where
  "find_cached t kh =
     (case t (fst kh) of None \<Rightarrow> None
      | Some m \<Rightarrow> (case m (snd kh) of None \<Rightarrow> None | Some e \<Rightarrow> map_of e CK))"

definition mean_cost :: "rat option list \<Rightarrow> cost" where
  "mean_cost cs =
     (let costs = [v. Some v \<leftarrow> cs]
      in if costs = [] then None else Some (sumlist costs / of_nat (length costs)))"

text \<open>The comparison \<open>other_cost > cost\<close> of floats: false as soon as one side is \<open>nan\<close>.\<close>

fun cost_gt :: "cost \<Rightarrow> cost \<Rightarrow> bool" where
  "cost_gt (Some a) (Some b) = (a > b)"
| "cost_gt _ _ = False"

text \<open>One target key of a record. Unpacking a dispatcher object into two names is a \<open>TypeError\<close>.\<close>

definition load_targetkey ::
  "decoder \<Rightarrow> 's \<Rightarrow> cost \<Rightarrow> string \<Rightarrow> string \<Rightarrow> ('s, 'd) table \<Rightarrow> ('s, 'd) table res" where
  "load_targetkey decode state cost workload_key k tbl =
     bindR (get_workload_entry decode tbl k workload_key) (\<lambda>(tbl', entry, h, _).
       case map_of entry CK of
         None \<Rightarrow> Inr (put_cached (k, h) (CPair state cost) tbl')
       | Some (CPair _ other_cost) \<Rightarrow>
           Inr (if cost_gt other_cost cost then put_cached (k, h) (CPair state cost) tbl' else tbl')
       | Some (CDisp _) \<Rightarrow> Inl TypeError)"

text \<open>
  The model table of a record. In its \<open>else\<close> branch the code unpacks the whole entry,
  \<open>_, other_cost = entry\<close>: that iterates over the keys of a dictionary and needs exactly two of
  them, the second of which, a string, cannot be compared with a number.
\<close>

definition load_model ::
  "decoder \<Rightarrow> 's \<Rightarrow> cost \<Rightarrow> string \<Rightarrow> string \<Rightarrow> ('s, 'd) table \<Rightarrow> ('s, 'd) table res" where
  "load_model decode state cost workload_key model tbl =
     bindR (get_workload_entry decode tbl model workload_key) (\<lambda>(tbl', entry, h, _).
       if map_of entry CK = None then
         Inr (if model \<noteq> ''unknown'' then put_cached (model, h) (CPair state cost) tbl' else tbl')
       else Inl (if length entry = 2 then TypeError else ValueError))"

definition load_rec :: "decoder \<Rightarrow> 's mrec \<Rightarrow> ('s, 'd) history \<Rightarrow> ('s, 'd) history res" where
  "load_rec decode r hist =
     (if r_error_no r \<noteq> 0 then Inr hist
      else let cost = mean_cost (r_costs r) in
        bindR (foldR (load_targetkey decode (r_state r) cost (r_wkey r)) (r_keys r)
                 (h_by_targetkey hist)) (\<lambda>tk.
        bindR (load_model decode (r_state r) cost (r_wkey r) (r_model r) (h_by_model hist)) (\<lambda>md.
          Inr (hist\<lparr>h_by_targetkey := tk, h_by_model := md\<rparr>))))"

text \<open>\<open>n_lines is not None and counter >= n_lines: break\<close>\<close>

definition stop_at :: "int option \<Rightarrow> int \<Rightarrow> bool" where
  "stop_at n_lines counter = (case n_lines of None \<Rightarrow> False | Some n \<Rightarrow> counter \<ge> n)"

fun load_pairs ::
  "decoder \<Rightarrow> int option \<Rightarrow> 's mrec list \<Rightarrow> int \<Rightarrow> ('s, 'd) history \<Rightarrow> (('s, 'd) history \<times> int) res" where
  "load_pairs decode n_lines [] counter hist = Inr (hist, counter)"
| "load_pairs decode n_lines (r # rs) counter hist =
     (if stop_at n_lines counter then Inr (hist, counter)
      else bindR (load_rec decode r hist) (load_pairs decode n_lines rs (counter + 1)))"

definition load_disp_key ::
  "decoder \<Rightarrow> 'd \<Rightarrow> string \<Rightarrow> string \<Rightarrow> ('s, 'd) table \<Rightarrow> ('s, 'd) table res" where
  "load_disp_key decode disp workload_key k tbl =
     bindR (get_workload_entry decode tbl k workload_key) (\<lambda>(tbl', _, h, _).
       Inr (put_cached (k, h) (CDisp disp) tbl'))"

definition load_disp :: "decoder \<Rightarrow> 'd drec \<Rightarrow> ('s, 'd) history \<Rightarrow> ('s, 'd) history res" where
  "load_disp decode d hist =
     bindR (load_disp_key decode (d_obj d) (d_wkey d) (d_model d) (h_by_model hist)) (\<lambda>md.
     bindR (foldR (load_disp_key decode (d_obj d) (d_wkey d)) (d_keys d) (h_by_targetkey hist)) (\<lambda>tk.
       Inr (hist\<lparr>h_by_targetkey := tk, h_by_model := md\<rparr>)))"

fun load_disps ::
  "decoder \<Rightarrow> int option \<Rightarrow> 'd drec list \<Rightarrow> int \<Rightarrow> ('s, 'd) history \<Rightarrow> (('s, 'd) history \<times> int) res" where
  "load_disps decode n_lines [] counter hist = Inr (hist, counter)"
| "load_disps decode n_lines (d # ds) counter hist =
     (if stop_at n_lines counter then Inr (hist, counter)
      else bindR (load_disp decode d hist) (load_disps decode n_lines ds (counter + 1)))"

text \<open>
  The \<open>records\<close> argument: a file name (or path), something empty, or the pair of records and
  dispatchers. \<open>load_records\<close> is the reader of the log file.
\<close>

datatype ('s, 'd) records = RFile string | REmpty | RPair "'s mrec list" "'d drec list"

definition load ::
  "decoder \<Rightarrow> (string \<Rightarrow> ('s mrec list \<times> 'd drec list) res) \<Rightarrow> ('s, 'd) records \<Rightarrow> int option \<Rightarrow>
     ('s, 'd) history \<Rightarrow> ('s, 'd) history res" where
  "load decode load_records records n_lines hist =
     bindR (case records of
              RFile f \<Rightarrow> map_sum id Some (load_records f)
            | REmpty \<Rightarrow> Inr None
            | RPair ps ds \<Rightarrow> Inr (Some (ps, ds)))
       (\<lambda>recs. case recs of
          None \<Rightarrow> Inr hist
        | Some (inp_res_pairs, dispatchers) \<Rightarrow>
            bindR (load_pairs decode n_lines inp_res_pairs 0 hist) (\<lambda>(hist', counter).
            bindR (load_disps decode n_lines dispatchers counter hist') (\<lambda>(hist'', _).
              Inr hist'')))"

definition empty_history :: "bool \<Rightarrow> ('s, 'd) history" where
  "empty_history include_compatible =
     \<lparr>h_by_targetkey = Map.empty, h_by_model = Map.empty, h_user = Map.empty,
      h_include_compatible = include_compatible\<rparr>"

section \<open>Lemmas on tables\<close>

interpretation bt: best_table find_cached put_cached
  by unfold_locales (auto simp: find_cached_def put_cached_def update_conv' split: option.split)

lemma find_cached_empty [simp]: "find_cached (\<lambda>_. None) kh = None"
  by (simp add: find_cached_def)

text \<open>Creating the missing levels of a table changes no value that can be found in it.\<close>

lemma get_workload_entry_Inr:
  "get_workload_entry decode t k wk = Inr (t', e, h, args) \<longleftrightarrow>
     decode wk = Inr (h, args) \<and> (\<forall>xs. h \<noteq> JList xs) \<and>
     (let m = (case t k of None \<Rightarrow> Map.empty | Some m \<Rightarrow> m)
      in e = (case m h of None \<Rightarrow> [] | Some e \<Rightarrow> e) \<and> t' = t(k \<mapsto> m(h \<mapsto> e)))"
  by (auto simp: get_workload_entry_def bindR_Inr_iff Let_def)

lemma find_touched:
  "get_workload_entry decode t k wk = Inr (t', e, h, args) \<Longrightarrow> find_cached t' = find_cached t"
  by (rule ext) (auto simp: get_workload_entry_Inr find_cached_def Let_def split: option.splits)

lemma entry_found:
  "get_workload_entry decode t k wk = Inr (t', e, h, args) \<Longrightarrow> map_of e CK = find_cached t (k, h)"
  by (auto simp: get_workload_entry_Inr find_cached_def Let_def split: option.splits)

text \<open>The hash part of a key, for keys that decode to something hashable.\<close>

definition wkey_ok :: "decoder \<Rightarrow> string \<Rightarrow> bool" where
  "wkey_ok decode wk = (case decode wk of Inl _ \<Rightarrow> False | Inr (h, _) \<Rightarrow> (\<forall>xs. h \<noteq> JList xs))"

definition hash_of :: "decoder \<Rightarrow> string \<Rightarrow> jval" where
  "hash_of decode wk = (case decode wk of Inl _ \<Rightarrow> JNull | Inr (h, _) \<Rightarrow> h)"

lemma get_workload_entry_ok:
  assumes "wkey_ok decode wk"
  obtains t' e args where
    "get_workload_entry decode t k wk = Inr (t', e, hash_of decode wk, args)"
  using assms
  by (auto simp: wkey_ok_def hash_of_def get_workload_entry_def Let_def split: sum.splits prod.splits)

lemma get_workload_entry_hash:
  "get_workload_entry decode t k wk = Inr (t', e, h, args) \<Longrightarrow> h = hash_of decode wk \<and> wkey_ok decode wk"
  by (auto simp: get_workload_entry_Inr hash_of_def wkey_ok_def)

text \<open>A pair is worse than another when its cost is greater; a dispatcher is never compared.\<close>

fun worse :: "('s, 'd) cached \<Rightarrow> ('s, 'd) cached \<Rightarrow> bool" where
  "worse (CPair _ a) (CPair _ b) = cost_gt a b"
| "worse _ _ = False"

abbreviation no_disp :: "('s, 'd) table \<Rightarrow> bool" where
  "no_disp t \<equiv> (\<forall>kh d. find_cached t kh \<noteq> Some (CDisp d))"

lemma load_targetkey_keep:
  assumes "load_targetkey decode st c wk k t = Inr t'"
  shows "find_cached t' = find_cached (bt.keep worse ((k, hash_of decode wk), CPair st c) t)"
proof -
  from assms obtain t1 e h args where g: "get_workload_entry decode t k wk = Inr (t1, e, h, args)"
      and r: "(case map_of e CK of None \<Rightarrow> Inr (put_cached (k, h) (CPair st c) t1)
        | Some (CPair _ oc) \<Rightarrow> Inr (if cost_gt oc c then put_cached (k, h) (CPair st c) t1 else t1)
        | Some (CDisp _) \<Rightarrow> Inl TypeError) = Inr t'"
    by (auto simp: load_targetkey_def bindR_Inr_iff)
  have h: "h = hash_of decode wk" using get_workload_entry_hash [OF g] by simp
  note f = find_touched [OF g] entry_found [OF g]
  show ?thesis
  proof (rule ext)
    fix kh
    show "find_cached t' kh = find_cached (bt.keep worse ((k, hash_of decode wk), CPair st c) t) kh"
      using r f
      by (auto simp: bt.find_keep bt.keep1_def bt.find_put h split: option.splits cached.splits if_splits)
  qed
qed

lemma load_targetkey_total:
  assumes "wkey_ok decode wk" "no_disp t"
  shows "\<exists>t'. load_targetkey decode st c wk k t = Inr t' \<and> no_disp t'"
proof -
  obtain t1 e args where g: "get_workload_entry decode t k wk = Inr (t1, e, hash_of decode wk, args)"
    using assms(1) by (rule get_workload_entry_ok)
  have "\<exists>t'. load_targetkey decode st c wk k t = Inr t'"
    using g assms(2) entry_found [OF g]
    by (auto simp: load_targetkey_def split: option.splits cached.splits)
  then obtain t' where t': "load_targetkey decode st c wk k t = Inr t'" by blast
  have "no_disp t'"
    using assms(2) load_targetkey_keep [OF t']
    by (auto simp: bt.find_keep bt.keep1_def split: option.splits if_splits)
  with t' show ?thesis by blast
qed

text \<open>All target keys of one record, then all records of a log.\<close>

definition key_items :: "decoder \<Rightarrow> 's mrec \<Rightarrow> ((string \<times> jval) \<times> ('s, 'd) cached) list" where
  "key_items decode r =
     (if r_error_no r \<noteq> 0 then []
      else [((k, hash_of decode (r_wkey r)), CPair (r_state r) (mean_cost (r_costs r))). k \<leftarrow> r_keys r])"

lemma keep_cong: "find_cached t = find_cached u \<Longrightarrow>
    find_cached (bt.keep worse kv t) = find_cached (bt.keep worse kv u)"
  by (rule ext) (simp add: bt.find_keep)

lemma fold_keep_cong: "find_cached t = find_cached u \<Longrightarrow>
    find_cached (fold (bt.keep worse) kvs t) = find_cached (fold (bt.keep worse) kvs u)"
  by (rule ext) (simp add: bt.find_keep_fold)

lemma load_keys_keep:
  "foldR (load_targetkey decode st c wk) ks t = Inr t' \<Longrightarrow>
     find_cached t' =
       find_cached (fold (bt.keep worse) [((k, hash_of decode wk), CPair st c). k \<leftarrow> ks] t)"
proof (induction ks arbitrary: t)
  case Nil
  then show ?case by simp
next
  case (Cons k ks)
  then obtain t1 where t1: "load_targetkey decode st c wk k t = Inr t1"
      and rest: "foldR (load_targetkey decode st c wk) ks t1 = Inr t'"
    by (auto simp: bindR_Inr_iff)
  from Cons.IH [OF rest] fold_keep_cong [OF load_targetkey_keep [OF t1]] show ?case by simp
qed

lemma load_rec_keep:
  assumes "load_rec decode r hist = Inr hist'"
  shows "find_cached (h_by_targetkey hist') =
    find_cached (fold (bt.keep worse) (key_items decode r) (h_by_targetkey hist))"
  using assms
  by (auto simp: load_rec_def key_items_def Let_def bindR_Inr_iff dest!: load_keys_keep split: if_splits)

lemma load_pairs_keep:
  "load_pairs decode None rs n hist = Inr (hist', m) \<Longrightarrow>
     find_cached (h_by_targetkey hist') =
       find_cached (fold (bt.keep worse) (concat (map (key_items decode) rs)) (h_by_targetkey hist))"
proof (induction rs arbitrary: n hist)
  case Nil
  then show ?case by simp
next
  case (Cons r rs)
  then obtain h1 where h1: "load_rec decode r hist = Inr h1"
      and rest: "load_pairs decode None rs (n + 1) h1 = Inr (hist', m)"
    by (auto simp: bindR_Inr_iff stop_at_def)
  from Cons.IH [OF rest] fold_keep_cong [OF load_rec_keep [OF h1]] show ?case by simp
qed

text \<open>The model table: a key that is already filled makes the load fail.\<close>

lemma load_model_Inr:
  assumes "load_model decode st c wk model t = Inr t'"
  shows "find_cached t (model, hash_of decode wk) = None \<and>
    find_cached t' = (find_cached t)((model, hash_of decode wk) :=
       (if model \<noteq> ''unknown'' then Some (CPair st c) else None))"
proof -
  from assms obtain t1 e h args where g: "get_workload_entry decode t model wk = Inr (t1, e, h, args)"
      and n: "map_of e CK = None"
      and r: "t' = (if model \<noteq> ''unknown'' then put_cached (model, h) (CPair st c) t1 else t1)"
    by (auto simp: load_model_def bindR_Inr_iff split: if_splits)
  have h: "h = hash_of decode wk" using get_workload_entry_hash [OF g] by simp
  have none: "find_cached t (model, hash_of decode wk) = None"
    using entry_found [OF g] n h by simp
  have "find_cached t' kh = ((find_cached t)((model, hash_of decode wk) :=
       (if model \<noteq> ''unknown'' then Some (CPair st c) else None))) kh" for kh
    using none find_touched [OF g] by (auto simp: r h bt.find_put)
  with none show ?thesis by blast
qed

lemma load_model_filled:
  assumes "wkey_ok decode wk" "find_cached t (model, hash_of decode wk) = Some v"
  shows "\<exists>e. load_model decode st c wk model t = Inl e \<and> e \<in> {ValueError, TypeError}"
proof -
  obtain t1 e args where g: "get_workload_entry decode t model wk = Inr (t1, e, hash_of decode wk, args)"
    using assms(1) by (rule get_workload_entry_ok)
  with entry_found [OF g] assms(2) show ?thesis by (auto simp: load_model_def)
qed

text \<open>When a log loads: the keys it would put into the model table must be pairwise distinct.\<close>

definition model_keys :: "decoder \<Rightarrow> 's mrec list \<Rightarrow> (string \<times> jval) list" where
  "model_keys decode rs =
     [(r_model r, hash_of decode (r_wkey r)). r \<leftarrow> rs, r_error_no r = 0, r_model r \<noteq> ''unknown'']"

lemma model_keys_Cons:
  "model_keys decode (r # rs) =
     (if r_error_no r = 0 \<and> r_model r \<noteq> ''unknown''
      then (r_model r, hash_of decode (r_wkey r)) # model_keys decode rs else model_keys decode rs)"
  by (simp add: model_keys_def)

lemma load_keys_total:
  "wkey_ok decode wk \<Longrightarrow> no_disp t \<Longrightarrow>
     \<exists>t'. foldR (load_targetkey decode st c wk) ks t = Inr t' \<and> no_disp t'"
proof (induction ks arbitrary: t)
  case Nil
  then show ?case by simp
next
  case (Cons k ks)
  from load_targetkey_total [OF Cons.prems] obtain t1
    where "load_targetkey decode st c wk k t = Inr t1" "no_disp t1" by blast
  with Cons.IH [OF Cons.prems(1), of t1] show ?case by simp
qed

lemma load_model_total:
  assumes "wkey_ok decode wk" "find_cached t (model, hash_of decode wk) = None"
  shows "\<exists>t'. load_model decode st c wk model t = Inr t'"
proof -
  obtain t1 e args where g: "get_workload_entry decode t model wk = Inr (t1, e, hash_of decode wk, args)"
    using assms(1) by (rule get_workload_entry_ok)
  with entry_found [OF g] assms(2) show ?thesis by (auto simp: load_model_def)
qed

lemma load_rec_step:
  assumes "r_error_no r = 0" "wkey_ok decode (r_wkey r)" "no_disp (h_by_targetkey hist)"
    and "find_cached (h_by_model hist) (r_model r, hash_of decode (r_wkey r)) = None"
  shows "\<exists>hist'. load_rec decode r hist = Inr hist' \<and> no_disp (h_by_targetkey hist') \<and>
    find_cached (h_by_model hist') = (find_cached (h_by_model hist))
      ((r_model r, hash_of decode (r_wkey r)) :=
        (if r_model r \<noteq> ''unknown'' then Some (CPair (r_state r) (mean_cost (r_costs r))) else None))"
proof -
  from load_keys_total [OF assms(2,3)] obtain tk where tk:
    "foldR (load_targetkey decode (r_state r) (mean_cost (r_costs r)) (r_wkey r)) (r_keys r)
       (h_by_targetkey hist) = Inr tk" "no_disp tk" by blast
  from load_model_total [OF assms(2,4)] obtain md where md:
    "load_model decode (r_state r) (mean_cost (r_costs r)) (r_wkey r) (r_model r) (h_by_model hist) =
       Inr md" by blast
  have "load_rec decode r hist = Inr (hist\<lparr>h_by_targetkey := tk, h_by_model := md\<rparr>)"
    using assms(1) tk md by (simp add: load_rec_def Let_def)
  then show ?thesis using tk(2) load_model_Inr [OF md] by simp
qed

lemma load_rec_stuck:
  assumes "r_error_no r = 0" "wkey_ok decode (r_wkey r)" "no_disp (h_by_targetkey hist)"
    and "find_cached (h_by_model hist) (r_model r, hash_of decode (r_wkey r)) = Some v"
  shows "\<exists>e. load_rec decode r hist = Inl e"
proof -
  from load_keys_total [OF assms(2,3)] obtain tk where tk:
    "foldR (load_targetkey decode (r_state r) (mean_cost (r_costs r)) (r_wkey r)) (r_keys r)
       (h_by_targetkey hist) = Inr tk" by blast
  from load_model_filled [OF assms(2,4)] obtain e where
    "load_model decode (r_state r) (mean_cost (r_costs r)) (r_wkey r) (r_model r) (h_by_model hist) =
       Inl e" by blast
  with assms(1) tk show ?thesis by (simp add: load_rec_def Let_def)
qed

lemma load_pairs_iff:
  assumes "\<forall>r\<in>set rs. wkey_ok decode (r_wkey r)" "no_disp (h_by_targetkey hist)"
    and "\<forall>h. find_cached (h_by_model hist) (''unknown'', h) = None"
  shows "(\<exists>x. load_pairs decode None rs n hist = Inr x) \<longleftrightarrow>
    distinct (model_keys decode rs) \<and>
    (\<forall>p\<in>set (model_keys decode rs). find_cached (h_by_model hist) p = None)"
  using assms
proof (induction rs arbitrary: n hist)
  case Nil
  then show ?case by (simp add: model_keys_def)
next
  case (Cons r rs)
  let ?p = "(r_model r, hash_of decode (r_wkey r))"
  have wk: "wkey_ok decode (r_wkey r)" "\<forall>r\<in>set rs. wkey_ok decode (r_wkey r)"
    using Cons.prems(1) by auto
  show ?case
  proof (cases "r_error_no r = 0")
    case False
    then have "load_rec decode r hist = Inr hist" by (simp add: load_rec_def)
    with False Cons.IH [OF wk(2) Cons.prems(2,3)] show ?thesis
      by (simp add: stop_at_def model_keys_Cons)
  next
    case ok: True
    show ?thesis
    proof (cases "find_cached (h_by_model hist) ?p")
      case (Some v)
      with load_rec_stuck [OF ok wk(1) Cons.prems(2)] obtain e
        where "load_rec decode r hist = Inl e" by blast
      moreover have "r_model r \<noteq> ''unknown''" using Some Cons.prems(3) by auto
      ultimately show ?thesis using Some ok by (simp add: stop_at_def model_keys_Cons)
    next
      case None
      from load_rec_step [OF ok wk(1) Cons.prems(2) None] obtain hist' where h:
        "load_rec decode r hist = Inr hist'" "no_disp (h_by_targetkey hist')"
        "find_cached (h_by_model hist') = (find_cached (h_by_model hist))(?p :=
          (if r_model r \<noteq> ''unknown'' then Some (CPair (r_state r) (mean_cost (r_costs r))) else None))"
        by blast
      have u: "\<forall>h. find_cached (h_by_model hist') (''unknown'', h) = None"
        using h(3) Cons.prems(3) by auto
      note IH = Cons.IH [OF wk(2) h(2) u, of "n + 1"]
      show ?thesis
      proof (cases "r_model r = ''unknown''")
        case True
        then have "find_cached (h_by_model hist') = find_cached (h_by_model hist)"
          using h(3) None by (auto simp: fun_upd_idem)
        with True IH h(1) show ?thesis by (simp add: stop_at_def model_keys_Cons)
      next
        case False
        then have "(\<forall>p\<in>set (model_keys decode rs). find_cached (h_by_model hist') p = None) \<longleftrightarrow>
            ?p \<notin> set (model_keys decode rs) \<and>
            (\<forall>p\<in>set (model_keys decode rs). find_cached (h_by_model hist) p = None)"
          using h(3) by auto
        with False IH h(1) ok None show ?thesis by (auto simp: stop_at_def model_keys_Cons)
      qed
    qed
  qed
qed

section \<open>Queries inside one context\<close>

text \<open>
  \<open>re.match('.*_[0-9]+', func_name)\<close> looks for an underscore followed by a digit anywhere before
  the first line break; \<open>func_name[:func_name.rfind('_')]\<close> then cuts at the last underscore.
\<close>

definition is_digit :: "char \<Rightarrow> bool" where
  "is_digit c = (c \<in> set ''0123456789'')"

fun has_index :: "string \<Rightarrow> bool" where
  "has_index (c # d # cs) = ((c = CHR ''_'' \<and> is_digit d) \<or> has_index (d # cs))"
| "has_index _ = False"

definition remove_func_name_indices :: "string \<Rightarrow> string" where
  "remove_func_name_indices func_name =
     (if has_index (takeWhile (\<lambda>c. c \<noteq> CHR 0x0A) func_name)
      then rev (tl (dropWhile (\<lambda>c. c \<noteq> CHR ''_'') (rev func_name)))
      else func_name)"

text \<open>
  The inner function \<open>match_record\<close>. With \<open>include_compatible\<close> a miss runs into
  \<open>assert False\<close>; the search for compatible records behind it is never reached.
\<close>

definition match_record ::
  "decoder \<Rightarrow> bool \<Rightarrow> ('s, 'd) table \<Rightarrow> string \<Rightarrow> string \<Rightarrow>
     (('s, 'd) table \<times> ('s, 'd) cached option) res" where
  "match_record decode include_compatible best_records target_key workload_key =
     bindR (get_workload_entry decode best_records target_key workload_key) (\<lambda>(tbl', entry, _, _).
       case map_of entry CK of
         Some c \<Rightarrow> Inr (tbl', Some c)
       | None \<Rightarrow> if include_compatible then Inl AssertionError else Inr (tbl', None))"

type_synonym ('s, 'd) lookup = "('s, 'd) history \<Rightarrow> (('s, 'd) history \<times> ('s, 'd) cached option) res"

definition match_user :: "decoder \<Rightarrow> string \<Rightarrow> string \<Rightarrow> ('s, 'd) lookup" where
  "match_user decode k wk h =
     bindR (match_record decode (h_include_compatible h) (h_user h) k wk)
       (\<lambda>(t, c). Inr (h\<lparr>h_user := t\<rparr>, c))"

definition match_model :: "decoder \<Rightarrow> string \<Rightarrow> string \<Rightarrow> ('s, 'd) lookup" where
  "match_model decode k wk h =
     bindR (match_record decode (h_include_compatible h) (h_by_model h) k wk)
       (\<lambda>(t, c). Inr (h\<lparr>h_by_model := t\<rparr>, c))"

definition match_key :: "decoder \<Rightarrow> string \<Rightarrow> string \<Rightarrow> ('s, 'd) lookup" where
  "match_key decode k wk h =
     bindR (match_record decode (h_include_compatible h) (h_by_targetkey h) k wk)
       (\<lambda>(t, c). Inr (h\<lparr>h_by_targetkey := t\<rparr>, c))"

text \<open>\<open>ret = ...; if ret is not None: return ret\<close>, and otherwise go on.\<close>

definition or_else :: "('s, 'd) lookup \<Rightarrow> ('s, 'd) lookup \<Rightarrow> ('s, 'd) lookup" where
  "or_else m n h = bindR (m h) (\<lambda>(h', c). case c of Some _ \<Rightarrow> Inr (h', c) | None \<Rightarrow> n h')"

fun match_keys :: "decoder \<Rightarrow> string list \<Rightarrow> string \<Rightarrow> ('s, 'd) lookup" where
  "match_keys decode [] wk h = Inr (h, None)"
| "match_keys decode (k # ks) wk h =
     or_else (match_user decode k wk) (or_else (match_key decode k wk) (match_keys decode ks wk)) h"

fun match_dyn_keys :: "decoder \<Rightarrow> string list \<Rightarrow> string \<Rightarrow> ('s, 'd) lookup" where
  "match_dyn_keys decode [] wk h = Inr (h, None)"
| "match_dyn_keys decode (k # ks) wk h =
     or_else (match_key decode k wk) (match_dyn_keys decode ks wk) h"

text \<open>
  \<open>ApplyHistoryBest._query_inside\<close>. \<open>dyn_tasks\<close> is \<open>DYN_SEARCH_TASK_REGISTRY\<close>, as the map from a
  function name to the workload key of its dynamic search task.
\<close>

definition query_inside ::
  "decoder \<Rightarrow> (string \<rightharpoonup> string) \<Rightarrow> target option \<Rightarrow> string \<Rightarrow> string \<Rightarrow> ('s, 'd) lookup" where
  "query_inside decode dyn_tasks tgt wk func_name h =
     (case tgt of
        None \<Rightarrow> Inl RuntimeError
      | Some t \<Rightarrow>
          or_else (match_user decode (t_model t) wk)
         (or_else (match_model decode (t_model t) wk)
         (or_else (match_keys decode (t_keys t) wk)
            (\<lambda>h. case dyn_tasks (remove_func_name_indices func_name) of
                 None \<Rightarrow> Inr (h, None)
               | Some dwk \<Rightarrow> or_else (match_model decode (t_model t) dwk)
                                 (match_dyn_keys decode (t_keys t) dwk) h))) h)"

text \<open>
  \<open>ApplyHistoryBestOrSample._query_inside\<close>: when nothing is found, tune, load the log and ask
  again, until something is found. \<open>sampled i\<close> is what the log file holds after round \<open>i\<close>.
\<close>

fun sample_loop ::
  "nat \<Rightarrow> decoder \<Rightarrow> (string \<rightharpoonup> string) \<Rightarrow> (nat \<Rightarrow> ('s mrec list \<times> 'd drec list) res) \<Rightarrow> nat \<Rightarrow>
     target option \<Rightarrow> string \<Rightarrow> string \<Rightarrow> ('s, 'd) lookup" where
  "sample_loop 0 decode dyn_tasks sampled i tgt wk func_name h = Inl OutOfFuel"
| "sample_loop (Suc fuel) decode dyn_tasks sampled i tgt wk func_name h =
     bindR (load decode (\<lambda>_. sampled i) (RFile []) None h)
       (or_else (query_inside decode dyn_tasks tgt wk func_name)
          (sample_loop fuel decode dyn_tasks sampled (Suc i) tgt wk func_name))"

definition sample_query_inside ::
  "nat \<Rightarrow> decoder \<Rightarrow> (string \<rightharpoonup> string) \<Rightarrow> (nat \<Rightarrow> ('s mrec list \<times> 'd drec list) res) \<Rightarrow>
     target option \<Rightarrow> string \<Rightarrow> string \<Rightarrow> ('s, 'd) lookup" where
  "sample_query_inside fuel decode dyn_tasks sampled tgt wk func_name =
     or_else (query_inside decode dyn_tasks tgt wk func_name)
       (sample_loop fuel decode dyn_tasks sampled 0 tgt wk func_name)"

section \<open>The fallback context\<close>

text \<open>A warning is identified by what its text is made of: function, target, key and DAG.\<close>

type_synonym message = "string \<times> string \<times> string \<times> string"

record 's fallback =
  f_memory :: "string \<times> string \<rightharpoonup> 's option"
  f_verbose :: nat
  f_messages :: "message set"
  f_log :: "message list"

definition new_fallback :: "'s fallback" where
  "new_fallback = \<lparr>f_memory = Map.empty, f_verbose = 1, f_messages = {}, f_log = []\<rparr>"

definition fallback_query ::
  "target \<Rightarrow> string \<Rightarrow> bool \<Rightarrow> string \<Rightarrow> string \<Rightarrow> 's fallback \<Rightarrow> 's fallback \<times> 's option" where
  "fallback_query tgt workload_key has_complex_op dag func_name fb =
     (case f_memory fb (t_str tgt, workload_key) of
        Some s \<Rightarrow> (fb, s)
      | None \<Rightarrow>
          let msg = (func_name, t_str tgt, workload_key, dag);
              fb' = (if (f_verbose fb = 2 \<or> (has_complex_op \<and> f_verbose fb = 1)) \<and> msg \<notin> f_messages fb
                     then fb\<lparr>f_messages := insert msg (f_messages fb), f_log := f_log fb @ [msg]\<rparr>
                     else fb)
          in (fb'\<lparr>f_memory := (f_memory fb')((t_str tgt, workload_key) \<mapsto> None)\<rparr>, None))"

definition fallback_update :: "target \<Rightarrow> string \<Rightarrow> 's option \<Rightarrow> 's fallback \<Rightarrow> 's fallback" where
  "fallback_update tgt workload_key state fb =
     fb\<lparr>f_memory := (f_memory fb)((t_str tgt, workload_key) \<mapsto> state)\<rparr>"

end
