(* ===== verification/Contexts.thy ===== *)
theory Contexts
  imports Dispatch
begin

text \<open>
  The stack of dispatch contexts of \<open>tvm/python/tvm/auto_scheduler/dispatcher.py\<close>
  (\<open>DispatchContext\<close>, \<open>ApplyHistoryBest\<close>, \<open>ApplyHistoryBestOrSample\<close>, \<open>FallbackContext\<close>) and the
  dynamic-workload dispatcher of \<open>dietcode.py\<close>.
\<close>

section \<open>State\<close>

text \<open>
  A context object: the address of the context it falls back to (\<open>None\<close> for the base, which is
  created while \<open>DispatchContext.current\<close> is \<open>None\<close>) and the fields of its class. A sampling
  context carries its flag \<open>sample_simple_workloads\<close>.
\<close>

datatype ('s, 'd) body =
    BFallback "'s fallback" | BHistory "('s, 'd) history" | BSample bool "('s, 'd) history"

record ('s, 'd) ctx =
  c_old :: "nat option"
  c_body :: "('s, 'd) body"

record ('s, 'd) dstate =
  d_heap :: "nat \<rightharpoonup> ('s, 'd) ctx"
  d_current :: "nat option"

text \<open>What a query answers: a cached result, or what a fallback context has in its memory.\<close>

datatype ('s, 'd) answer = ACached "('s, 'd) cached" | AMemory "'s option"

text \<open>The arguments of \<open>query\<close>; \<open>dag\<close> is the printed compute DAG.\<close>

record qargs =
  q_target :: "target option"
  q_wkey :: string
  q_complex :: bool
  q_dag :: string
  q_func :: string

text \<open>
  The surroundings of a query: the key decoder, the registry of dynamic search tasks, the logs that
  sampling rounds leave, and the number of rounds a sampling loop is followed for.
\<close>

record ('s, 'd) env =
  e_decode :: decoder
  e_dyn :: "string \<rightharpoonup> string"
  e_sampled :: "nat \<Rightarrow> ('s mrec list \<times> 'd drec list) res"
  e_rounds :: nat

section \<open>Operations\<close>

definition set_body :: "nat \<Rightarrow> ('s, 'd) body \<Rightarrow> ('s, 'd) dstate \<Rightarrow> ('s, 'd) dstate" where
  "set_body i b st =
     (case d_heap st i of
        None \<Rightarrow> st
      | Some c \<Rightarrow> st\<lparr>d_heap := (d_heap st)(i \<mapsto> c\<lparr>c_body := b\<rparr>)\<rparr>)"

text \<open>\<open>__init__\<close> of the base class: a fresh object remembers the current context.\<close>

definition new_ctx :: "nat \<Rightarrow> ('s, 'd) body \<Rightarrow> ('s, 'd) dstate \<Rightarrow> ('s, 'd) dstate" where
  "new_ctx i b st = st\<lparr>d_heap := (d_heap st)(i \<mapsto> \<lparr>c_old = d_current st, c_body = b\<rparr>)\<rparr>"

definition new_history_ctx ::
  "decoder \<Rightarrow> (string \<Rightarrow> ('s mrec list \<times> 'd drec list) res) \<Rightarrow> ('s, 'd) records \<Rightarrow> int option \<Rightarrow> bool \<Rightarrow>
     nat \<Rightarrow> ('s, 'd) dstate \<Rightarrow> ('s, 'd) dstate res" where
  "new_history_ctx decode load_records records n_lines include_compatible i st =
     bindR (load decode load_records records n_lines (empty_history include_compatible)) (\<lambda>h.
       Inr (new_ctx i (BHistory h) st))"

definition new_sample_ctx ::
  "decoder \<Rightarrow> (string \<Rightarrow> ('s mrec list \<times> 'd drec list) res) \<Rightarrow> ('s, 'd) records \<Rightarrow> bool \<Rightarrow>
     nat \<Rightarrow> ('s, 'd) dstate \<Rightarrow> ('s, 'd) dstate res" where
  "new_sample_ctx decode load_records records sample_simple_workloads i st =
     bindR (load decode load_records records None (empty_history True)) (\<lambda>h.
       Inr (new_ctx i (BSample sample_simple_workloads h) st))"

text \<open>\<open>with ctx:\<close> calls \<open>enter\<close> and, however the block ends, \<open>leave\<close>.\<close>

definition enter :: "nat \<Rightarrow> ('s, 'd) dstate \<Rightarrow> ('s, 'd) dstate" where
  "enter i st =
     (case d_heap st i of
        None \<Rightarrow> st
      | Some c \<Rightarrow> st\<lparr>d_heap := (d_heap st)(i \<mapsto> c\<lparr>c_old := d_current st\<rparr>), d_current := Some i\<rparr>)"

definition leave :: "nat \<Rightarrow> ('s, 'd) dstate \<Rightarrow> ('s, 'd) dstate" where
  "leave i st = (case d_heap st i of None \<Rightarrow> st | Some c \<Rightarrow> st\<lparr>d_current := c_old c\<rparr>)"

text \<open>
  \<open>query\<close>, on the context at an address. The first argument is what is left of the interpreter's
  recursion limit: a chain that does not end is a \<open>RecursionError\<close>. Going on at a missing outer
  context is an attribute access on \<open>None\<close>. A fallback context turns the target into a string,
  which works for \<open>None\<close> as well; that string is \<open>''None''\<close>.
\<close>

definition str_target :: "target option \<Rightarrow> target" where
  "str_target t = (case t of Some t \<Rightarrow> t | None \<Rightarrow> \<lparr>t_keys = [], t_model = [], t_str = ''None''\<rparr>)"

definition sample_inside :: "('s, 'd) env \<Rightarrow> qargs \<Rightarrow> bool \<Rightarrow> ('s, 'd) lookup" where
  "sample_inside e q sample_simple =
     (if q_complex q \<or> sample_simple
      then sample_query_inside (e_rounds e) (e_decode e) (e_dyn e) (e_sampled e)
             (q_target q) (q_wkey q) (q_func q)
      else query_inside (e_decode e) (e_dyn e) (q_target q) (q_wkey q) (q_func q))"

fun query ::
  "nat \<Rightarrow> ('s, 'd) env \<Rightarrow> qargs \<Rightarrow> nat option \<Rightarrow> ('s, 'd) dstate \<Rightarrow>
     (('s, 'd) dstate \<times> ('s, 'd) answer) res" where
  "query 0 e q i st = Inl RecursionError"
| "query (Suc depth) e q i st =
     (case Option.bind i (d_heap st) of
        None \<Rightarrow> Inl AttributeError
      | Some c \<Rightarrow>
         (case c_body c of
            BFallback fb \<Rightarrow>
              (case fallback_query (str_target (q_target q)) (q_wkey q) (q_complex q) (q_dag q) (q_func q) fb of
                 (fb', s) \<Rightarrow> Inr (set_body (the i) (BFallback fb') st, AMemory s))
          | BHistory h \<Rightarrow>
              bindR (query_inside (e_decode e) (e_dyn e) (q_target q) (q_wkey q) (q_func q) h) (\<lambda>(h', r).
                case r of
                  Some x \<Rightarrow> Inr (set_body (the i) (BHistory h') st, ACached x)
                | None \<Rightarrow> query depth e q (c_old c) (set_body (the i) (BHistory h') st))
          | BSample b h \<Rightarrow>
              bindR (sample_inside e q b h) (\<lambda>(h', r).
                case r of
                  Some x \<Rightarrow> Inr (set_body (the i) (BSample b h') st, ACached x)
                | None \<Rightarrow> query depth e q (c_old c) (set_body (the i) (BSample b h') st))))"

text \<open>\<open>update\<close>: the history contexts refuse it with \<open>assert False\<close>.\<close>

definition update ::
  "target \<Rightarrow> string \<Rightarrow> 's option \<Rightarrow> nat \<Rightarrow> ('s, 'd) dstate \<Rightarrow> ('s, 'd) dstate res" where
  "update tgt wk s i st =
     (case d_heap st i of
        None \<Rightarrow> Inl AttributeError
      | Some c \<Rightarrow>
         (case c_body c of
            BFallback fb \<Rightarrow> Inr (set_body i (BFallback (fallback_update tgt wk s fb)) st)
          | _ \<Rightarrow> Inl AssertionError))"

definition init_dstate :: "('s, 'd) dstate" where
  "init_dstate =
     \<lparr>d_heap = [0 \<mapsto> \<lparr>c_old = None, c_body = BFallback new_fallback\<rparr>], d_current = Some 0\<rparr>"

text \<open>No load touches the user table or the flag.\<close>

definition same_user :: "('s, 'd) history \<Rightarrow> ('s, 'd) history \<Rightarrow> bool" where
  "same_user h h' \<longleftrightarrow> h_user h' = h_user h \<and> h_include_compatible h' = h_include_compatible h"

lemma load_rec_user: "load_rec decode r h = Inr h' \<Longrightarrow> same_user h h'"
  by (auto simp: load_rec_def Let_def bindR_Inr_iff same_user_def split: if_splits)

lemma load_disp_user: "load_disp decode d h = Inr h' \<Longrightarrow> same_user h h'"
  by (auto simp: load_disp_def bindR_Inr_iff same_user_def)

lemma load_pairs_user: "load_pairs decode n_lines rs n h = Inr (h', m) \<Longrightarrow> same_user h h'"
proof (induction rs arbitrary: n h)
  case Nil
  then show ?case by (simp add: same_user_def)
next
  case (Cons r rs)
  then show ?case
    by (fastforce simp: bindR_Inr_iff same_user_def split: if_splits dest: load_rec_user)
qed

lemma load_disps_user: "load_disps decode n_lines ds n h = Inr (h', m) \<Longrightarrow> same_user h h'"
proof (induction ds arbitrary: n h)
  case Nil
  then show ?case by (simp add: same_user_def)
next
  case (Cons d ds)
  then show ?case
    by (fastforce simp: bindR_Inr_iff same_user_def split: if_splits dest: load_disp_user)
qed

lemma load_keeps_user:
  "load decode load_records records n_lines h = Inr h' \<Longrightarrow>
     h_user h' = h_user h \<and> h_include_compatible h' = h_include_compatible h"
  by (fastforce simp: load_def bindR_Inr_iff same_user_def split: option.splits
      dest!: load_pairs_user load_disps_user)

section \<open>The dispatcher of dynamic workloads\<close>

text \<open>
  \<open>_find_wkl_id\<close>: the first workload instance equal to the shape tuple. The instances are the
  dispatcher's \<open>search_task.wkl_insts\<close>; the two native calls take the dispatcher and that index.
\<close>

fun find_wkl_id :: "int list list \<Rightarrow> int list \<Rightarrow> nat \<Rightarrow> nat res" where
  "find_wkl_id [] shape_tuple i = Inl AssertionError"
| "find_wkl_id (wkl_inst # rest) shape_tuple i =
     (if wkl_inst = shape_tuple then Inr i else find_wkl_id rest shape_tuple (Suc i))"

definition dispatch ::
  "('d \<Rightarrow> nat \<Rightarrow> 'p) \<Rightarrow> 'd \<Rightarrow> int list list \<Rightarrow> int list \<Rightarrow> 'p res" where
  "dispatch DispatcherDispatch self wkl_insts shape_tuple =
     bindR (find_wkl_id wkl_insts shape_tuple 0) (\<lambda>i. Inr (DispatcherDispatch self i))"

definition dispatch_to_state ::
  "('d \<Rightarrow> nat \<Rightarrow> 's) \<Rightarrow> 'd \<Rightarrow> int list list \<Rightarrow> int list \<Rightarrow> 's res" where
  "dispatch_to_state DispatcherDispatchToState self wkl_insts shape_tuple =
     bindR (find_wkl_id wkl_insts shape_tuple 0) (\<lambda>i. Inr (DispatcherDispatchToState self i))"

section \<open>Lookups as specifications\<close>

text \<open>The candidates of one context, in the order the code tries them; the first hit wins.\<close>

fun first_some :: "'a option list \<Rightarrow> 'a option" where
  "first_some [] = None"
| "first_some (None # xs) = first_some xs"
| "first_some (Some x # xs) = Some x"

definition candidates ::
  "decoder \<Rightarrow> (string \<rightharpoonup> string) \<Rightarrow> target \<Rightarrow> string \<Rightarrow> string \<Rightarrow> ('s, 'd) history \<Rightarrow>
     ('s, 'd) cached option list" where
  "candidates decode dyn t wk func h =
     (let k = hash_of decode wk; user = find_cached (h_user h);
          model = find_cached (h_by_model h); key = find_cached (h_by_targetkey h)
      in [user (t_model t, k), model (t_model t, k)]
         @ concat (map (\<lambda>tk. [user (tk, k), key (tk, k)]) (t_keys t))
         @ (case dyn (remove_func_name_indices func) of
              None \<Rightarrow> []
            | Some dwk \<Rightarrow> model (t_model t, hash_of decode dwk)
                # map (\<lambda>tk. key (tk, hash_of decode dwk)) (t_keys t)))"

text \<open>Two histories in which the same values are found: lookups may only create empty levels.\<close>

definition same_finds :: "('s, 'd) history \<Rightarrow> ('s, 'd) history \<Rightarrow> bool" where
  "same_finds h h' \<longleftrightarrow>
     find_cached (h_user h') = find_cached (h_user h) \<and>
     find_cached (h_by_model h') = find_cached (h_by_model h) \<and>
     find_cached (h_by_targetkey h') = find_cached (h_by_targetkey h) \<and>
     h_include_compatible h' = h_include_compatible h"

lemma same_finds_refl [simp]: "same_finds h h"
  by (simp add: same_finds_def)

lemma same_finds_trans: "same_finds h h' \<Longrightarrow> same_finds h' h'' \<Longrightarrow> same_finds h h''"
  by (simp add: same_finds_def)

lemma candidates_same: "same_finds h h' \<Longrightarrow> candidates decode dyn t wk func h' = candidates decode dyn t wk func h"
  by (simp add: candidates_def same_finds_def)

text \<open>A lookup implements a list of candidates if it answers the first hit and loses nothing.\<close>

definition implements ::
  "('s, 'd) lookup \<Rightarrow> (('s, 'd) history \<Rightarrow> ('s, 'd) cached option list) \<Rightarrow> bool" where
  "implements m cs \<longleftrightarrow>
     (\<forall>h. \<not> h_include_compatible h \<longrightarrow> (\<exists>h'. m h = Inr (h', first_some (cs h)) \<and> same_finds h h'))"

lemma first_some_append:
  "first_some (xs @ ys) = (case first_some xs of None \<Rightarrow> first_some ys | Some x \<Rightarrow> Some x)"
  by (induction xs rule: first_some.induct) simp_all

lemma first_some_None: "first_some xs = None \<longleftrightarrow> set xs \<subseteq> {None}"
  by (induction xs rule: first_some.induct) auto

lemma first_some_Nones [simp]: "first_some (concat (map (\<lambda>k. [None, None]) ks)) = None"
  by (induction ks) simp_all

lemma match_record_plain:
  assumes "wkey_ok decode wk"
  shows "\<exists>t'. match_record decode False t k wk = Inr (t', find_cached t (k, hash_of decode wk)) \<and>
    find_cached t' = find_cached t"
proof -
  obtain t' e args where g: "get_workload_entry decode t k wk = Inr (t', e, hash_of decode wk, args)"
    using assms by (rule get_workload_entry_ok)
  have "match_record decode False t k wk = Inr (t', find_cached t (k, hash_of decode wk))"
    using g entry_found [OF g] by (simp add: match_record_def split: option.split)
  with find_touched [OF g] show ?thesis by blast
qed

lemma first_some_single [simp]: "first_some [x] = x"
  by (cases x) simp_all

lemma implements_match:
  assumes "wkey_ok decode wk"
  shows "implements (match_user decode k wk :: ('s, 'd) lookup) (\<lambda>h. [find_cached (h_user h) (k, hash_of decode wk)])"
    and "implements (match_model decode k wk :: ('s, 'd) lookup) (\<lambda>h. [find_cached (h_by_model h) (k, hash_of decode wk)])"
    and "implements (match_key decode k wk :: ('s, 'd) lookup) (\<lambda>h. [find_cached (h_by_targetkey h) (k, hash_of decode wk)])"
proof -
  note m = match_record_plain [OF assms, where k = k]
  show "implements (match_user decode k wk :: ('s, 'd) lookup) (\<lambda>h. [find_cached (h_user h) (k, hash_of decode wk)])"
    unfolding implements_def
  proof (intro allI impI)
    fix h :: "('s, 'd) history"
    assume "\<not> h_include_compatible h"
    with m [of "h_user h"] show "\<exists>h'. match_user decode k wk h =
        Inr (h', first_some [find_cached (h_user h) (k, hash_of decode wk)]) \<and> same_finds h h'"
      by (force simp: match_user_def same_finds_def)
  qed
  show "implements (match_model decode k wk :: ('s, 'd) lookup) (\<lambda>h. [find_cached (h_by_model h) (k, hash_of decode wk)])"
    unfolding implements_def
  proof (intro allI impI)
    fix h :: "('s, 'd) history"
    assume "\<not> h_include_compatible h"
    with m [of "h_by_model h"] show "\<exists>h'. match_model decode k wk h =
        Inr (h', first_some [find_cached (h_by_model h) (k, hash_of decode wk)]) \<and> same_finds h h'"
      by (force simp: match_model_def same_finds_def)
  qed
  show "implements (match_key decode k wk :: ('s, 'd) lookup) (\<lambda>h. [find_cached (h_by_targetkey h) (k, hash_of decode wk)])"
    unfolding implements_def
  proof (intro allI impI)
    fix h :: "('s, 'd) history"
    assume "\<not> h_include_compatible h"
    with m [of "h_by_targetkey h"] show "\<exists>h'. match_key decode k wk h =
        Inr (h', first_some [find_cached (h_by_targetkey h) (k, hash_of decode wk)]) \<and> same_finds h h'"
      by (force simp: match_key_def same_finds_def)
  qed
qed

text \<open>Replacing a lookup or its list by an equal one.\<close>

lemma implements_eq:
  "implements m cs \<Longrightarrow> (\<And>h. m' h = m h) \<Longrightarrow> (\<And>h. cs' h = cs h) \<Longrightarrow> implements m' cs'"
  by (simp add: implements_def)

lemma implements_or_else:
  assumes "implements m cs" "implements n ds"
    and "\<And>h h'. same_finds h h' \<Longrightarrow> ds h' = ds h"
  shows "implements (or_else m n) (\<lambda>h. cs h @ ds h)"
  unfolding implements_def
proof (intro allI impI)
  fix h :: "('a, 'b) history"
  assume inc: "\<not> h_include_compatible h"
  with assms(1) obtain h1 where h1: "m h = Inr (h1, first_some (cs h))" "same_finds h h1"
    by (auto simp: implements_def)
  with inc have "\<not> h_include_compatible h1" by (simp add: same_finds_def)
  with assms(2) obtain h2 where h2: "n h1 = Inr (h2, first_some (ds h1))" "same_finds h1 h2"
    by (auto simp: implements_def)
  have "ds h1 = ds h" using h1(2) by (rule assms(3))
  with h1 h2 show "\<exists>h'. or_else m n h = Inr (h', first_some (cs h @ ds h)) \<and> same_finds h h'"
    by (auto simp: or_else_def first_some_append split: option.split intro: same_finds_trans)
qed

lemma implements_keys:
  assumes "wkey_ok decode wk"
  shows "implements (match_keys decode ks wk)
      (\<lambda>h. concat (map (\<lambda>tk. [find_cached (h_user h) (tk, hash_of decode wk),
              find_cached (h_by_targetkey h) (tk, hash_of decode wk)]) ks))"
proof (induction ks)
  case Nil
  then show ?case by (simp add: implements_def)
next
  case (Cons k ks)
  note m = implements_match [OF assms, of k]
  show ?case
    by (rule implements_eq [OF implements_or_else [OF m(1) implements_or_else [OF m(3) Cons]]])
      (simp_all add: same_finds_def)
qed

lemma implements_dyn_keys:
  assumes "wkey_ok decode wk"
  shows "implements (match_dyn_keys decode ks wk)
      (\<lambda>h. map (\<lambda>tk. find_cached (h_by_targetkey h) (tk, hash_of decode wk)) ks)"
proof (induction ks)
  case Nil
  then show ?case by (simp add: implements_def)
next
  case (Cons k ks)
  show ?case
    by (rule implements_eq [OF implements_or_else [OF implements_match(3) [OF assms, of k] Cons]])
      (simp_all add: same_finds_def)
qed

text \<open>The keys a query needs: its own, and that of the dynamic task its function name leads to.\<close>

definition query_ok :: "decoder \<Rightarrow> (string \<rightharpoonup> string) \<Rightarrow> string \<Rightarrow> string \<Rightarrow> bool" where
  "query_ok decode dyn wk func \<longleftrightarrow> wkey_ok decode wk \<and>
     (\<forall>dwk. dyn (remove_func_name_indices func) = Some dwk \<longrightarrow> wkey_ok decode dwk)"

lemma implements_query_inside:
  assumes "query_ok decode dyn wk func"
  shows "implements (query_inside decode dyn (Some t) wk func) (candidates decode dyn t wk func)"
proof -
  have wk: "wkey_ok decode wk" using assms by (simp add: query_ok_def)
  let ?dyn = "\<lambda>h. case dyn (remove_func_name_indices func) of None \<Rightarrow> Inr (h, None)
     | Some dwk \<Rightarrow> or_else (match_model decode (t_model t) dwk) (match_dyn_keys decode (t_keys t) dwk) h"
  let ?ds = "\<lambda>h. case dyn (remove_func_name_indices func) of None \<Rightarrow> []
     | Some dwk \<Rightarrow> find_cached (h_by_model h) (t_model t, hash_of decode dwk)
         # map (\<lambda>tk. find_cached (h_by_targetkey h) (tk, hash_of decode dwk)) (t_keys t)"
  have d: "implements ?dyn ?ds"
  proof (cases "dyn (remove_func_name_indices func)")
    case None
    then show ?thesis by (simp add: implements_def)
  next
    case (Some dwk)
    with assms have "wkey_ok decode dwk" by (simp add: query_ok_def)
    then show ?thesis
      by (intro implements_eq [OF implements_or_else [OF implements_match(2) implements_dyn_keys]])
        (simp_all add: same_finds_def Some)
  qed
  have ds: "same_finds h h' \<Longrightarrow> ?ds h' = ?ds h" for h h'
    by (simp add: same_finds_def split: option.split)
  note m = implements_match [OF wk, of "t_model t"]
  show ?thesis
    by (rule implements_eq [OF implements_or_else [OF m(1) implements_or_else [OF m(2)
          implements_or_else [OF implements_keys [OF wk, of "t_keys t"] d ds]]]])
      (simp_all add: candidates_def Let_def same_finds_def query_inside_def split: option.split)
qed

section \<open>Queries along a chain of contexts\<close>

text \<open>
  \<open>chain st i hs base\<close>: from the context \<open>i\<close> the \<open>_old_ctx\<close> links lead through the plain history
  contexts \<open>hs\<close> to a fallback context \<open>base\<close>.
\<close>

definition plain_history :: "('s, 'd) dstate \<Rightarrow> nat \<Rightarrow> ('s, 'd) history option" where
  "plain_history st i =
     (case d_heap st i of
        Some c \<Rightarrow> (case c_body c of
            BHistory h \<Rightarrow> if h_include_compatible h then None else Some h | _ \<Rightarrow> None)
      | None \<Rightarrow> None)"

definition fallback_at :: "('s, 'd) dstate \<Rightarrow> nat \<Rightarrow> 's fallback option" where
  "fallback_at st i =
     (case d_heap st i of
        Some c \<Rightarrow> (case c_body c of BFallback fb \<Rightarrow> Some fb | _ \<Rightarrow> None) | None \<Rightarrow> None)"

fun chain :: "('s, 'd) dstate \<Rightarrow> nat option \<Rightarrow> nat list \<Rightarrow> nat \<Rightarrow> bool" where
  "chain st i [] base = (i = Some base \<and> fallback_at st base \<noteq> None)"
| "chain st i (h # hs) base =
     (i = Some h \<and> plain_history st h \<noteq> None \<and>
      chain st (Option.bind (d_heap st h) c_old) hs base)"

definition hits ::
  "('s, 'd) env \<Rightarrow> qargs \<Rightarrow> target \<Rightarrow> ('s, 'd) dstate \<Rightarrow> nat \<Rightarrow> ('s, 'd) cached option" where
  "hits e q t st i =
     Option.bind (plain_history st i)
       (\<lambda>h. first_some (candidates (e_decode e) (e_dyn e) t (q_wkey q) (q_func q) h))"

lemma plain_history_set:
  assumes "plain_history st i = Some h" "same_finds h h'"
  shows "plain_history (set_body i (BHistory h') st) j =
    (if j = i then Some h' else plain_history st j)"
  using assms by (auto simp: plain_history_def set_body_def same_finds_def split: option.splits body.splits if_splits)

lemma hits_set:
  assumes "plain_history st i = Some h" "same_finds h h'"
  shows "hits e q t (set_body i (BHistory h') st) = hits e q t st"
proof (rule ext)
  fix j
  show "hits e q t (set_body i (BHistory h') st) j = hits e q t st j"
    using assms by (simp add: hits_def plain_history_set candidates_same)
qed

lemma old_set: "Option.bind (d_heap (set_body i b st) j) c_old = Option.bind (d_heap st j) c_old"
  by (simp add: set_body_def split: option.split)

lemma fallback_set:
  assumes "plain_history st i = Some h"
  shows "fallback_at (set_body i (BHistory h') st) = fallback_at st"
  using assms
  by (auto simp: fun_eq_iff fallback_at_def plain_history_def set_body_def
      split: option.splits body.splits)

lemma chain_set:
  assumes "plain_history st i = Some h" "same_finds h h'"
  shows "chain (set_body i (BHistory h') st) p hs base = chain st p hs base"
proof (induction hs arbitrary: p)
  case Nil
  then show ?case by (simp add: fallback_set [OF assms(1)])
next
  case (Cons j hs)
  have "(plain_history (set_body i (BHistory h') st) j \<noteq> None) = (plain_history st j \<noteq> None)"
    using assms by (simp add: plain_history_set)
  then show ?case by (simp only: chain.simps Cons old_set)
qed

lemma plain_historyD:
  "plain_history st i = Some h \<Longrightarrow>
     \<exists>c. d_heap st i = Some c \<and> c_body c = BHistory h \<and> \<not> h_include_compatible h"
  by (auto simp: plain_history_def split: option.splits body.splits if_splits)

text \<open>One history context of a chain: answer the first of its candidates, or go to the outer one.\<close>

lemma query_history:
  assumes "plain_history st i = Some h" "q_target q = Some t"
    and "query_ok (e_decode e) (e_dyn e) (q_wkey q) (q_func q)"
  shows "\<exists>h'. same_finds h h' \<and>
    query (Suc depth) e q (Some i) st =
      (case hits e q t st i of
         Some x \<Rightarrow> Inr (set_body i (BHistory h') st, ACached x)
       | None \<Rightarrow> query depth e q (Option.bind (d_heap st i) c_old) (set_body i (BHistory h') st))"
proof -
  from plain_historyD [OF assms(1)] obtain c where c: "d_heap st i = Some c"
    "c_body c = BHistory h" "\<not> h_include_compatible h" by blast
  from implements_query_inside [OF assms(3), of t] c(3) obtain h' where
    h': "query_inside (e_decode e) (e_dyn e) (Some t) (q_wkey q) (q_func q) h =
      Inr (h', hits e q t st i)" "same_finds h h'"
    using assms(1) by (auto simp: implements_def hits_def)
  then show ?thesis
    using c assms(2) by (intro exI [of _ h']) (simp split: option.split)
qed

lemma query_fallback:
  assumes "fallback_at st i = Some fb" "q_target q = Some t"
  shows "query (Suc depth) e q (Some i) st =
    (case fallback_query t (q_wkey q) (q_complex q) (q_dag q) (q_func q) fb of
       (fb', s) \<Rightarrow> Inr (set_body i (BFallback fb') st, AMemory s))"
  using assms
  by (auto simp: fallback_at_def str_target_def split: option.splits body.splits prod.splits)

lemma fallback_answer:
  "snd (fallback_query t wk cx dag func fb) =
     (case f_memory fb (t_str t, wk) of Some s \<Rightarrow> s | None \<Rightarrow> None)"
  by (simp add: fallback_query_def Let_def split: option.split)

section \<open>Properties\<close>

lemma query_along_chain:
  assumes "chain st i hs base" and "length hs < depth" and "q_target q = Some t"
    and "query_ok (e_decode e) (e_dyn e) (q_wkey q) (q_func q)"
    and "fallback_at st base = Some fb"
  shows "\<exists>st'. query depth e q i st =
    Inr (st', case first_some (map (hits e q t st) hs) of
                Some x \<Rightarrow> ACached x
              | None \<Rightarrow> AMemory (case f_memory fb (t_str t, q_wkey q) of Some s \<Rightarrow> s | None \<Rightarrow> None))"
  using assms
proof (induction hs arbitrary: i depth st)
  case Nil
  then obtain d where d: "depth = Suc d" by (cases depth) auto
  from Nil have i: "i = Some base" by simp
  obtain fb' s where f: "fallback_query t (q_wkey q) (q_complex q) (q_dag q) (q_func q) fb = (fb', s)"
    by (cases "fallback_query t (q_wkey q) (q_complex q) (q_dag q) (q_func q) fb")
  then have "s = (case f_memory fb (t_str t, q_wkey q) of Some s \<Rightarrow> s | None \<Rightarrow> None)"
    using fallback_answer [of t "q_wkey q" "q_complex q" "q_dag q" "q_func q" fb] by simp
  with f show ?case unfolding i d query_fallback [OF Nil.prems(5,3)] by simp
next
  case (Cons j hs)
  then obtain d where d: "depth = Suc d" by (cases depth) auto
  from Cons.prems(1) obtain h where i: "i = Some j" and h: "plain_history st j = Some h"
    and rest: "chain st (Option.bind (d_heap st j) c_old) hs base" by auto
  from query_history [OF h Cons.prems(3,4), of d] obtain h' where s: "same_finds h h'"
    and qh: "query (Suc d) e q (Some j) st =
      (case hits e q t st j of
         Some x \<Rightarrow> Inr (set_body j (BHistory h') st, ACached x)
       | None \<Rightarrow> query d e q (Option.bind (d_heap st j) c_old) (set_body j (BHistory h') st))" by blast
  show ?case
  proof (cases "hits e q t st j")
    case (Some x)
    then show ?thesis by (simp only: i d qh) simp
  next
    case None
    have "chain (set_body j (BHistory h') st) (Option.bind (d_heap st j) c_old) hs base"
      using rest by (simp add: chain_set [OF h s])
    from Cons.IH [OF this _ Cons.prems(3,4)] Cons.prems(2,5) None show ?thesis
      by (simp only: i d qh) (simp add: hits_set [OF h s] fallback_set [OF h])
  qed
qed

text \<open>
  C1. A query on a chain of history contexts that ends in a fallback context always returns, given
  a recursion limit above the chain's length, and its answer is the first hit along the chain,
  innermost context first and within a context in the order user, model, target keys, dynamic
  task; when nothing is found, it is what the fallback's memory holds for the target and key.
\<close>

theorem query_chain:
  assumes "chain st i hs base" and "length hs < depth" and "q_target q = Some t"
    and "query_ok (e_decode e) (e_dyn e) (q_wkey q) (q_func q)"
    and "fallback_at st base = Some fb"
  shows "\<exists>st'. query depth e q i st =
    Inr (st', case first_some (map (hits e q t st) hs) of
                Some x \<Rightarrow> ACached x
              | None \<Rightarrow> AMemory (case f_memory fb (t_str t, q_wkey q) of Some s \<Rightarrow> s | None \<Rightarrow> None))"
  using assms by (rule query_along_chain)

text \<open>
  An instance used below: a log with one static record for \<open>k1\<close> and one dynamic dispatcher for the
  task \<open>dyn\<close>, whose functions are called \<open>fused_dense\<close>, \<open>fused_dense_1\<close> and so on. Keys decode to
  themselves, as in TVM's own format.
\<close>

definition demo_decode :: decoder where
  "demo_decode k = Inr (JStr k, None)"

definition demo_target :: target where
  "demo_target = \<lparr>t_keys = [''cuda'', ''gpu''], t_model = ''t4'', t_str = ''nvidia/t4''\<rparr>"

definition demo_rec :: "string \<Rightarrow> nat \<Rightarrow> rat \<Rightarrow> nat mrec" where
  "demo_rec k s c = \<lparr>r_keys = [''cuda'', ''gpu''], r_model = ''t4'', r_wkey = k, r_state = s,
     r_error_no = 0, r_costs = [Some c]\<rparr>"

definition demo_disp :: "nat drec" where
  "demo_disp = \<lparr>d_keys = [''cuda'', ''gpu''], d_model = ''t4'', d_wkey = ''dyn'', d_obj = 7\<rparr>"

definition demo_env :: "(nat, nat) env" where
  "demo_env = \<lparr>e_decode = demo_decode, e_dyn = [''fused_dense'' \<mapsto> ''dyn''],
     e_sampled = (\<lambda>_. Inr ([], [])), e_rounds = 5\<rparr>"

definition demo_args :: "string \<Rightarrow> string \<Rightarrow> qargs" where
  "demo_args k f = \<lparr>q_target = Some demo_target, q_wkey = k, q_complex = True, q_dag = [], q_func = f\<rparr>"

lemma query_chain_witness:
  "\<exists>st'. query 1 demo_env (demo_args ''k'' ''f'') (Some 0) init_dstate =
    Inr (st', case first_some (map (hits demo_env (demo_args ''k'' ''f'') demo_target init_dstate) []) of
                Some x \<Rightarrow> ACached x
              | None \<Rightarrow> AMemory (case f_memory (new_fallback :: nat fallback)
                                  (t_str demo_target, q_wkey (demo_args ''k'' ''f'')) of
                                  Some s \<Rightarrow> s | None \<Rightarrow> None))"
  by (rule query_chain [where base = 0])
    (simp_all add: init_dstate_def fallback_at_def demo_args_def query_ok_def wkey_ok_def demo_env_def
      demo_decode_def)

definition cval :: "('s, 'd) cached \<Rightarrow> rat" where
  "cval c = (case c of CPair _ (Some q) \<Rightarrow> q | _ \<Rightarrow> 0)"

definition measured :: "decoder \<Rightarrow> string \<Rightarrow> jval \<Rightarrow> 's mrec list \<Rightarrow> ('s, 'd) cached list" where
  "measured decode k h rs =
     [snd kv. kv \<leftarrow> concat (map (key_items decode) rs), fst kv = (k, h)]"

text \<open>
  C8. Loading a log into a fresh history keeps, for every target key and workload hash, the state
  of the first record among those of least mean cost, over all records without an error.
\<close>

theorem load_keeps_best:
  fixes hist :: "('s, 'd) history"
  assumes "load_pairs decode None rs 0 (empty_history b) = Inr (hist, n)"
    and "\<forall>r\<in>set rs. r_error_no r = 0 \<longrightarrow> mean_cost (r_costs r) \<noteq> None"
  shows "let ms = (measured decode k h rs :: ('s, 'd) cached list)
    in case find_cached (h_by_targetkey hist) (k, h) of
         None \<Rightarrow> ms = []
       | Some c \<Rightarrow> \<exists>i<length ms. ms ! i = c \<and> (\<forall>v\<in>set ms. cval c \<le> cval v) \<and>
           (\<forall>j<i. cval c < cval (ms ! j))"
proof -
  let ?m = "measured decode k h rs :: ('s, 'd) cached list"
  have f: "find_cached (h_by_targetkey hist) (k, h) = fold (bt.keep1 worse) ?m None"
    using load_pairs_keep [OF assms(1)]
    by (simp add: bt.find_keep_fold measured_def empty_history_def)
  have cost: "\<exists>s q. v = CPair s (Some q)" if "v \<in> set ?m" for v
    using that assms(2) by (auto simp: measured_def key_items_def split: if_splits)
  have worse: "worse v w \<longleftrightarrow> cval w < cval v" if "v \<in> set ?m" "w \<in> set ?m" for v w
    using cost [OF that(1)] cost [OF that(2)] by (auto simp: cval_def)
  show ?thesis
  proof (cases ?m)
    case Nil
    with f show ?thesis by (simp add: Let_def)
  next
    case (Cons v vs)
    have "fold (bt.keep1 worse) (v # vs) None \<noteq> None" unfolding bt.keep1_fold_None by simp
    with f Cons obtain c where c: "find_cached (h_by_targetkey hist) (k, h) = Some c"
      "fold (bt.keep1 worse) vs (Some v) = Some c" by auto
    have "\<exists>i<length (v # vs). (v # vs) ! i = c \<and> (\<forall>u\<in>set (v # vs). cval c \<le> cval u) \<and>
        (\<forall>j<i. cval c < cval ((v # vs) ! j))"
      by (rule bt.keep1_fold_best [OF _ c(2)]) (use worse Cons in auto)
    with c(1) Cons show ?thesis by (simp add: Let_def)
  qed
qed

abbreviation demo_log :: "nat mrec list" where
  "demo_log \<equiv> [demo_rec ''a'' 1 3, demo_rec ''b'' 2 4]"

lemma demo_log_loads:
  "\<exists>hist n. load_pairs demo_decode None demo_log 0 (empty_history False :: (nat, nat) history) = Inr (hist, n)"
  using load_pairs_iff [of demo_log demo_decode "empty_history False :: (nat, nat) history" 0]
  by (auto simp: demo_rec_def wkey_ok_def demo_decode_def empty_history_def model_keys_def hash_of_def)

lemma load_keeps_best_witness:
  "\<exists>hist n. load_pairs demo_decode None demo_log 0 (empty_history False :: (nat, nat) history) = Inr (hist, n) \<and>
     (let ms = (measured demo_decode ''gpu'' (JStr ''a'') demo_log :: (nat, nat) cached list)
      in case find_cached (h_by_targetkey hist) (''gpu'', JStr ''a'') of
           None \<Rightarrow> ms = []
         | Some c \<Rightarrow> \<exists>i<length ms. ms ! i = c \<and> (\<forall>v\<in>set ms. cval c \<le> cval v) \<and>
             (\<forall>j<i. cval c < cval (ms ! j)))"
proof -
  obtain hist n where l: "load_pairs demo_decode None demo_log 0
      (empty_history False :: (nat, nat) history) = Inr (hist, n)"
    using demo_log_loads by blast
  have "\<forall>r\<in>set demo_log. r_error_no r = 0 \<longrightarrow> mean_cost (r_costs r) \<noteq> None"
    by (simp add: demo_rec_def mean_cost_def)
  from load_keeps_best [OF l this, of "''gpu''" "JStr ''a''"] l show ?thesis by blast
qed

text \<open>
  C33. A log loads if and only if its successful records are about pairwise different pairs of
  target model and workload: a second successful record of a known model for one workload raises
  an exception, because the model table's \<open>else\<close> branch unpacks the entry's dictionary.
\<close>

theorem load_iff_no_repetition:
  assumes "\<forall>r\<in>set rs. wkey_ok decode (r_wkey r)"
  shows "(\<exists>x. load_pairs decode None rs 0 (empty_history b) = Inr x) \<longleftrightarrow>
    distinct (model_keys decode rs)"
  by (subst load_pairs_iff [OF assms]) (simp_all add: empty_history_def)

lemma load_iff_no_repetition_witness:
  "(\<exists>x. load_pairs demo_decode None [demo_rec ''a'' 1 3, demo_rec ''a'' 2 2] 0
       (empty_history False :: (nat, nat) history) = Inr x) \<longleftrightarrow>
     distinct (model_keys demo_decode [demo_rec ''a'' 1 3, demo_rec ''a'' 2 2])"
  by (rule load_iff_no_repetition) (simp add: demo_rec_def wkey_ok_def demo_decode_def)

text \<open>
  C22. A dynamic workload is served by its dispatcher: after loading a log whose only entry for the
  dynamic task is a dispatcher, a query for a static key that the log does not know, from a function
  whose name without its index is registered for that task, answers the dispatcher.
\<close>

theorem dynamic_query_answers_dispatcher:
  fixes hist :: "('s, 'd) history"
  assumes "load_disps decode None [d] 0 (empty_history False) = Inr (hist, n)"
    and "dyn (remove_func_name_indices func) = Some (d_wkey d)"
    and "wkey_ok decode wk" and "hash_of decode wk \<noteq> hash_of decode (d_wkey d)"
    and "t_model t = d_model d"
  shows "\<exists>hist'. query_inside decode dyn (Some t) wk func hist = Inr (hist', Some (CDisp (d_obj d)))"
proof -
  from assms(1) obtain md tk where md: "load_disp_key decode (d_obj d) (d_wkey d) (d_model d) Map.empty = Inr md"
    and tk: "foldR (load_disp_key decode (d_obj d) (d_wkey d)) (d_keys d) Map.empty = Inr tk"
    and hist: "hist = (empty_history False)\<lparr>h_by_targetkey := tk, h_by_model := md\<rparr>"
    by (auto simp: load_disp_def bindR_Inr_iff stop_at_def empty_history_def)
  from md obtain t1 e h args where g: "get_workload_entry decode Map.empty (d_model d) (d_wkey d) =
      Inr (t1, e, h, args :: jval list option)" and put: "md = put_cached (d_model d, h) (CDisp (d_obj d)) t1"
    by (auto simp: load_disp_key_def bindR_Inr_iff)
  note hh = get_workload_entry_hash [OF g]
  have md_find: "find_cached md p = (if p = (d_model d, hash_of decode (d_wkey d))
      then Some (CDisp (d_obj d)) else None)" for p
    using hh find_touched [OF g] by (auto simp: put bt.find_put)
  have tk_find: "find_cached tk (k, hash_of decode wk) = None" for k
  proof (rule foldR_inv [OF tk, where P = "\<lambda>t. find_cached t (k, hash_of decode wk) = None"])
    fix k' t t'
    assume none: "find_cached t (k, hash_of decode wk) = None"
      and step: "load_disp_key decode (d_obj d) (d_wkey d) k' t = Inr t'"
    from step obtain t1 e h args where g: "get_workload_entry decode t k' (d_wkey d) =
        Inr (t1, e, h, args :: jval list option)" and "t' = put_cached (k', h) (CDisp (d_obj d)) t1"
      by (auto simp: load_disp_key_def bindR_Inr_iff)
    with none assms(4) get_workload_entry_hash [OF g] find_touched [OF g]
    show "find_cached t' (k, hash_of decode wk) = None" by (auto simp: bt.find_put)
  qed simp
  have ok: "query_ok decode dyn wk func" using assms(2,3) hh by (auto simp: query_ok_def)
  have "first_some (candidates decode dyn t wk func hist) = Some (CDisp (d_obj d))"
    using assms(2,4,5)
    by (simp add: candidates_def Let_def hist empty_history_def md_find tk_find first_some_append)
  moreover have "implements (query_inside decode dyn (Some t) wk func :: ('s, 'd) lookup)
      (candidates decode dyn t wk func)"
    using ok by (rule implements_query_inside)
  moreover have "\<not> h_include_compatible hist" by (simp add: hist empty_history_def)
  ultimately show ?thesis by (fastforce simp: implements_def)
qed

definition demo_dyn_history :: "(nat, nat) history" where
  "demo_dyn_history = \<lparr>h_by_targetkey = [''cuda'' \<mapsto> [JStr ''dyn'' \<mapsto> [(CK, CDisp 7)]],
       ''gpu'' \<mapsto> [JStr ''dyn'' \<mapsto> [(CK, CDisp 7)]]],
     h_by_model = [''t4'' \<mapsto> [JStr ''dyn'' \<mapsto> [(CK, CDisp 7)]]], h_user = Map.empty,
     h_include_compatible = False\<rparr>"

lemma dynamic_query_answers_dispatcher_witness:
  "remove_func_name_indices ''fused_dense_12'' = ''fused_dense'' \<and>
   (\<exists>hist'. query_inside demo_decode (e_dyn demo_env) (Some demo_target) ''static'' ''fused_dense_12''
      demo_dyn_history = Inr (hist', Some (CDisp (d_obj demo_disp))))"
proof
  show r: "remove_func_name_indices ''fused_dense_12'' = ''fused_dense''"
    by (simp add: remove_func_name_indices_def is_digit_def)
  show "\<exists>hist'. query_inside demo_decode (e_dyn demo_env) (Some demo_target) ''static'' ''fused_dense_12''
      demo_dyn_history = Inr (hist', Some (CDisp (d_obj demo_disp)))"
    by (rule dynamic_query_answers_dispatcher [where n = 1])
      (simp_all add: r load_disp_def load_disp_key_def get_workload_entry_def put_cached_def stop_at_def
        demo_disp_def demo_decode_def demo_dyn_history_def empty_history_def demo_env_def wkey_ok_def
        hash_of_def demo_target_def Let_def)
qed

text \<open>
  A query that reaches an \<open>ApplyHistoryBestOrSample\<close> context raises \<open>AssertionError\<close>, for every
  log it was loaded with: the context is created with \<open>include_compatible\<close>, nothing can ever be in
  its table of user-defined entries, which is asked first, and a miss then meets \<open>assert False\<close>.
\<close>

theorem sample_context_never_answers:
  assumes "new_sample_ctx decode load_records records flag i st0 = Inr st"
    and "q_target q = Some t" and "wkey_ok (e_decode e) (q_wkey q)"
  shows "query (Suc depth) e q (Some i) st = Inl AssertionError"
proof -
  from assms(1) obtain h where l: "load decode load_records records None (empty_history True) = Inr h"
    and st: "st = new_ctx i (BSample flag h) st0"
    by (auto simp: new_sample_ctx_def bindR_Inr_iff)
  have h: "h_user h = Map.empty" "h_include_compatible h"
    using load_keeps_user [OF l] by (simp_all add: empty_history_def)
  obtain t' e' args where "get_workload_entry (e_decode e) (h_user h) (t_model t) (q_wkey q) =
      Inr (t', e', hash_of (e_decode e) (q_wkey q), args)"
    using assms(3) by (rule get_workload_entry_ok)
  moreover from entry_found [OF this] h have "map_of e' CK = None" by simp
  ultimately have "match_user (e_decode e) (t_model t) (q_wkey q) h = Inl AssertionError"
    using h by (simp add: match_user_def match_record_def)
  then have "query_inside (e_decode e) (e_dyn e) (Some t) (q_wkey q) (q_func q) h = Inl AssertionError"
    by (simp add: query_inside_def or_else_def)
  then show ?thesis
    by (simp add: st new_ctx_def sample_inside_def sample_query_inside_def or_else_def assms(2))
qed

lemma sample_context_never_answers_witness:
  "query (Suc 99) demo_env (demo_args ''a'' ''f'') (Some 1)
     (new_ctx 1 (BSample True (empty_history True)) init_dstate) = Inl AssertionError"
proof -
  have "new_sample_ctx demo_decode (\<lambda>_. Inr ([], [])) REmpty True 1 init_dstate =
      Inr (new_ctx 1 (BSample True (empty_history True :: (nat, nat) history)) init_dstate)"
    by (simp add: new_sample_ctx_def load_def)
  from sample_context_never_answers [OF this, of "demo_args ''a'' ''f''" demo_target demo_env 99]
  show ?thesis by (simp add: demo_args_def wkey_ok_def demo_env_def demo_decode_def)
qed

text \<open>
  A context object is not re-entrant. Entering it while it is the current context makes it its
  own outer context: a query it cannot answer itself never reaches the fallback (it recurses until
  the interpreter's limit), and leaving both blocks leaves it installed.
\<close>

lemma reentered_context_is_stuck:
  assumes "plain_history st i = Some h" and "q_target q = Some t"
    and "query_ok (e_decode e) (e_dyn e) (q_wkey q) (q_func q)" and "hits e q t st i = None"
  shows "query depth e q (Some i) (enter i (enter i st)) = Inl RecursionError \<and>
    d_current (leave i (leave i (enter i (enter i st)))) = Some i"
proof
  from plain_historyD [OF assms(1)] obtain c where c: "d_heap st i = Some c" "c_body c = BHistory h"
    "\<not> h_include_compatible h" by blast
  let ?st = "enter i (enter i st)"
  have st: "d_heap ?st i = Some (c\<lparr>c_old := Some i\<rparr>)" using c by (simp add: enter_def)
  have h: "plain_history ?st i = Some h" using st c by (simp add: plain_history_def)
  have "hits e q t ?st i = None" using assms(1,4) h by (simp add: hits_def)
  moreover have "Option.bind (d_heap ?st i) c_old = Some i" using st by simp
  moreover have "plain_history st' i = Some h \<Longrightarrow> hits e q t st' i = None \<Longrightarrow>
      Option.bind (d_heap st' i) c_old = Some i \<Longrightarrow> query depth e q (Some i) st' = Inl RecursionError"
    for st' h
  proof (induction depth arbitrary: st' h)
    case 0
    then show ?case by simp
  next
    case (Suc depth)
    from query_history [OF Suc.prems(1) assms(2,3), of depth] Suc.prems(2,3) obtain h'
      where s: "same_finds h h'"
        and q: "query (Suc depth) e q (Some i) st' = query depth e q (Some i) (set_body i (BHistory h') st')"
      by (auto simp del: query.simps)
    have "query depth e q (Some i) (set_body i (BHistory h') st') = Inl RecursionError"
      by (rule Suc.IH [of _ h'])
        (use Suc.prems s in \<open>simp_all add: hits_set old_set plain_history_set\<close>)
    with q show ?case by simp
  qed
  ultimately show "query depth e q (Some i) ?st = Inl RecursionError" using h by blast
  show "d_current (leave i (leave i ?st)) = Some i" using c by (simp add: enter_def leave_def)
qed

datatype block = With nat "block list"

fun run_block :: "block \<Rightarrow> ('s, 'd) dstate \<Rightarrow> ('s, 'd) dstate" where
  "run_block (With i bs) st = leave i (fold run_block bs (enter i st))"

fun entered :: "block \<Rightarrow> nat set" where
  "entered (With i bs) = insert i (\<Union> (entered ` set bs))"

fun no_reentry :: "block \<Rightarrow> bool" where
  "no_reentry (With i bs) = (list_all no_reentry bs \<and> i \<notin> \<Union> (entered ` set bs))"

lemma run_block_frame:
  assumes "no_reentry b" "entered b \<subseteq> dom (d_heap st)"
  shows "d_current (run_block b st) = d_current st \<and> dom (d_heap (run_block b st)) = dom (d_heap st) \<and>
    (\<forall>j. j \<notin> entered b \<longrightarrow> d_heap (run_block b st) j = d_heap st j)"
  using assms
proof (induction b arbitrary: st)
  case (With i bs)
  then obtain c where c: "d_heap st i = Some c" by auto
  let ?st = "enter i st"
  have enter: "d_heap ?st = (d_heap st)(i \<mapsto> c\<lparr>c_old := d_current st\<rparr>)" using c by (simp add: enter_def)
  have body: "dom (d_heap (fold run_block cs s)) = dom (d_heap s) \<and>
      (\<forall>j. j \<notin> \<Union> (entered ` set cs) \<longrightarrow> d_heap (fold run_block cs s) j = d_heap s j)"
    if "set cs \<subseteq> set bs" "\<Union> (entered ` set cs) \<subseteq> dom (d_heap s)" for cs and s :: "('a, 'b) dstate"
    using that
  proof (induction cs arbitrary: s)
    case Nil
    then show ?case by simp
  next
    case (Cons d cs)
    have "no_reentry d" using Cons.prems(1) With.prems(1) by (auto simp: list_all_iff)
    with With.IH [of d s] Cons.prems have d: "dom (d_heap (run_block d s)) = dom (d_heap s)"
      "\<forall>j. j \<notin> entered d \<longrightarrow> d_heap (run_block d s) j = d_heap s j" by auto
    have "set cs \<subseteq> set bs" "\<Union> (entered ` set cs) \<subseteq> dom (d_heap (run_block d s))"
      using Cons.prems d(1) by auto
    from Cons.IH [OF this] d show ?case by auto
  qed
  have dom: "dom (d_heap ?st) = dom (d_heap st)" using c by (auto simp: enter)
  have "\<Union> (entered ` set bs) \<subseteq> dom (d_heap ?st)" using With.prems(2) dom by auto
  note body = body [OF subset_refl this]
  have old: "d_heap (fold run_block bs ?st) i = Some (c\<lparr>c_old := d_current st\<rparr>)"
    using body With.prems(1) by (simp add: enter)
  then show ?case using body dom by (auto simp: leave_def enter)
qed

text \<open>
  Nested \<open>with\<close> blocks over contexts that are not re-entered inside their own block restore the
  current context, whatever contexts the inner blocks install.
\<close>

theorem with_blocks_restore:
  assumes "no_reentry b" and "entered b \<subseteq> dom (d_heap st)"
  shows "d_current (run_block b st) = d_current st"
  using run_block_frame [OF assms] by blast

lemma with_blocks_restore_witness:
  "d_current (run_block (With 1 [With 2 [], With 2 []])
       (new_ctx 2 (BHistory (empty_history False)) (new_ctx 1 (BHistory (empty_history False))
         (init_dstate :: (nat, nat) dstate)))) =
     d_current (new_ctx 2 (BHistory (empty_history False)) (new_ctx 1 (BHistory (empty_history False))
         (init_dstate :: (nat, nat) dstate)))"
  by (rule with_blocks_restore) (auto simp: new_ctx_def init_dstate_def)

definition ask :: "target \<times> string \<times> bool \<times> string \<times> string \<Rightarrow> 's fallback \<Rightarrow> 's fallback" where
  "ask a fb = (case a of (t, wk, cx, dag, f) \<Rightarrow> fst (fallback_query t wk cx dag f fb))"

definition warned_ok :: "'s fallback \<Rightarrow> bool" where
  "warned_ok fb \<longleftrightarrow> distinct (f_log fb) \<and> set (f_log fb) = f_messages fb"

lemma warned_ok_ask: "warned_ok fb \<Longrightarrow> warned_ok (ask a fb)"
  by (auto simp: warned_ok_def ask_def fallback_query_def Let_def split: option.splits prod.splits)

text \<open>
  The fallback context warns at most once per function, target, workload and DAG: the log of
  warnings holds no message twice, whatever is asked, and a key asked once is answered from the
  memory afterwards, with the same answer and no further effect.
\<close>

theorem fallback_warns_once:
  "distinct (f_log (fold ask qs (new_fallback :: 's fallback))) \<and>
   (case fallback_query t wk cx dag f (fold ask qs (new_fallback :: 's fallback)) of
      (fb, s) \<Rightarrow> fallback_query t wk cx' dag' f' fb = (fb, s))"
proof
  have "warned_ok (fold ask qs fb)" if "warned_ok fb" for fb :: "'s fallback"
    using that by (induction qs arbitrary: fb) (simp_all add: warned_ok_ask)
  moreover have "warned_ok (new_fallback :: 's fallback)" by (simp add: warned_ok_def new_fallback_def)
  ultimately show "distinct (f_log (fold ask qs (new_fallback :: 's fallback)))"
    unfolding warned_ok_def by blast
qed (auto simp: fallback_query_def Let_def split: option.splits)

text \<open>
  Dispatching a shape finds the first workload instance equal to it, and fails with an
  assertion exactly for shapes that are not among the instances the dispatcher was tuned for.
\<close>

lemma find_wkl_id_correct:
  "(find_wkl_id wkl_insts shape 0 = Inr i \<longleftrightarrow>
      i < length wkl_insts \<and> wkl_insts ! i = shape \<and> shape \<notin> set (take i wkl_insts)) \<and>
   (find_wkl_id wkl_insts shape 0 = Inl e \<longleftrightarrow> e = AssertionError \<and> shape \<notin> set wkl_insts)"
proof -
  have Inr: "find_wkl_id ws shape n = Inr i \<longleftrightarrow>
      n \<le> i \<and> i < n + length ws \<and> ws ! (i - n) = shape \<and> shape \<notin> set (take (i - n) ws)" for ws n i
  proof (induction ws arbitrary: n)
    case Nil
    then show ?case by simp
  next
    case (Cons w ws)
    show ?case
    proof (cases "i = n")
      case True
      then show ?thesis using Cons.IH [of "Suc n"] by auto
    next
      case False
      then have "n \<le> i \<Longrightarrow> i - n = Suc (i - Suc n)" by simp
      with False show ?thesis by (auto simp: Cons)
    qed
  qed
  have Inl: "find_wkl_id ws shape n = Inl e \<longleftrightarrow> e = AssertionError \<and> shape \<notin> set ws" for ws n
    by (induction ws arbitrary: n) auto
  show ?thesis by (simp add: Inr Inl)
qed

end
