(* ===== verification/SplitSpace.thy ===== *)
theory SplitSpace
  imports Prelude
begin

text \<open>
  Factors and the split space of \<open>tvm/python/tvm/autotvm/task/space.py\<close>: \<open>get_factors\<close>,
  \<open>get_pow2s\<close>, \<open>VirtualAxis\<close>, \<open>SplitSpace\<close> and \<open>SplitEntity\<close>. \<open>math.sqrt\<close> and \<open>math.log2\<close>
  go through floats in the source; the model has their exact integer parts, which is what the
  code computes for the axis lengths that occur (below 2^48).
\<close>

section \<open>Factors and powers of two\<close>

fun isqrt :: "nat \<Rightarrow> nat" where
  "isqrt n = (if n = 0 then 0 else
     let r = 2 * isqrt (n div 4) in if (r + 1) * (r + 1) \<le> n then r + 1 else r)"

declare isqrt.simps [simp del]

fun ilog2 :: "nat \<Rightarrow> nat" where
  "ilog2 n = (if n < 2 then 0 else Suc (ilog2 (n div 2)))"

declare ilog2.simps [simp del]

text \<open>
  \<open>math.sqrt\<close> raises below 0; \<open>functools.reduce\<close> without a start value raises on nothing, which
  is what the range up to \<open>sqrt(0)\<close> leaves.
\<close>

definition get_factors :: "int \<Rightarrow> int list res" where
  "get_factors n =
     (let step = (if n mod 2 \<noteq> 0 then 2 else 1) in
      bindR (guardR (0 \<le> n) ValueError) (\<lambda>_.
        let pairs = [[i, n div i]. i \<leftarrow> py_range 1 (int (isqrt (nat n)) + 1) step, n mod i = 0] in
        bindR (guardR (pairs \<noteq> []) TypeError) (\<lambda>_.
          Inr (sort (remdups (concat pairs))))))"

definition get_pow2s :: "int \<Rightarrow> int list res" where
  "get_pow2s n =
     bindR (guardR (0 < n) ValueError) (\<lambda>_. Inr (map (\<lambda>x. 2 ^ x) [0..<ilog2 (nat n) + 1]))"

section \<open>Virtual axes\<close>

text \<open>
  The constructor takes a number, an iteration variable (with its name and, when its domain is
  known, the extent after simplification: \<open>None\<close> when that is no constant), a virtual axis or
  something else. The name counter is the class attribute \<open>name_ct\<close>; \<open>axis_name\<close> is the
  formatting \<open>'axis_%d'\<close>.
\<close>

datatype axis_arg =
    AxInt int | AxIter string "int option option" | AxVirtual string int | AxOther

definition virtual_axis ::
  "(nat \<Rightarrow> string) \<Rightarrow> axis_arg \<Rightarrow> string option \<Rightarrow> nat \<Rightarrow> ((string \<times> int) \<times> nat) res" where
  "virtual_axis axis_name var nm name_ct =
     (let (nm', name_ct') = (case nm of None \<Rightarrow> (axis_name name_ct, name_ct + 1) | Some x \<Rightarrow> (x, name_ct))
      in case var of
           AxInt n \<Rightarrow> Inr ((nm', n), name_ct')
         | AxIter vname extent \<Rightarrow>
             (case extent of
                None \<Rightarrow> Inr ((vname, -1), name_ct')
              | Some None \<Rightarrow> Inl ValueError
              | Some (Some n) \<Rightarrow> Inr ((vname, n), name_ct'))
         | AxVirtual _ n \<Rightarrow> Inr ((nm', n), name_ct')
         | AxOther \<Rightarrow> Inl RuntimeError)"

section \<open>The split space\<close>

text \<open>The keyword arguments; \<open>None\<close> is an absent one. A filter looks at an entity's sizes.\<close>

record split_kwargs =
  kw_max_factor :: "int option"
  kw_filter :: "(int list \<Rightarrow> bool) option"
  kw_num_outputs :: "int option"
  kw_candidate :: "int list list option"
  kw_no_tail :: "bool option"

text \<open>
  The body of the search at a full stack. The reduction of an empty stack, for one output, raises.
  \<open>SplitEntity([-1] + tmp_stack[::-1])\<close> is the list of its sizes.
\<close>

definition split_leaf :: "int \<Rightarrow> bool \<Rightarrow> int list \<Rightarrow> int list list \<Rightarrow> int list list res" where
  "split_leaf product no_tail tmp_stack entities =
     bindR (guardR (tmp_stack \<noteq> []) TypeError) (\<lambda>_.
       let pr = prodlist tmp_stack in
       if pr > product then Inr entities
       else bindR (guardR (pr \<noteq> 0) ZeroDivisionError) (\<lambda>_.
         if product mod pr = 0 \<or> (\<not> no_tail \<and> pr < product)
         then Inr (entities @ [-1 # rev tmp_stack]) else Inr entities))"

definition generate_split :: "int list \<Rightarrow> int \<Rightarrow> nat \<Rightarrow> bool \<Rightarrow> int list list \<Rightarrow> int list list res" where
  "generate_split factors product num_output no_tail entities =
     map_sum id snd (dfs_fill (split_leaf product no_tail) (replicate (num_output - 1) factors) 0
       (replicate (num_output - 1) 0, entities))"

text \<open>\<open>enum\<close> is the order in which Python enumerates the set with these elements.\<close>

definition split_factors ::
  "(int list \<Rightarrow> int list) \<Rightarrow> string \<Rightarrow> int \<Rightarrow> int \<Rightarrow> int list res" where
  "split_factors enum policy product max_factor =
     (if policy = ''verbose'' then
        bindR (get_factors product) (\<lambda>divisibles. bindR (get_pow2s product) (\<lambda>pow2s.
          Inr [x \<leftarrow> enum (divisibles @ pow2s). x \<le> max_factor]))
      else if policy = ''factors'' then
        bindR (get_factors product) (\<lambda>fs. Inr [x \<leftarrow> fs. x \<le> max_factor])
      else if policy = ''power2'' then
        bindR (get_pow2s product) (\<lambda>fs. Inr [x \<leftarrow> fs. x \<le> max_factor])
      else Inl RuntimeError)"

text \<open>\<open>SplitSpace.__init__\<close> on an axis of length \<open>product\<close>: the list of entities.\<close>

definition split_space ::
  "(int list \<Rightarrow> int list) \<Rightarrow> int \<Rightarrow> string \<Rightarrow> split_kwargs \<Rightarrow> int list list res" where
  "split_space enum product policy kw =
     (let max_factor = (case kw_max_factor kw of None \<Rightarrow> 2 ^ 31 | Some m \<Rightarrow> m);
          fil = (case kw_filter kw of None \<Rightarrow> (\<lambda>_. True) | Some f \<Rightarrow> f);
          num_output = (case kw_num_outputs kw of None \<Rightarrow> 0 | Some k \<Rightarrow> k)
      in bindR (guardR (num_output > 0) AssertionError) (\<lambda>_.
         bindR
           (if policy = ''candidate'' then
              (case kw_candidate kw of
                 None \<Rightarrow> Inl KeyError
               | Some cands \<Rightarrow> mapR (\<lambda>size. bindR (guardR (int (length size) = num_output) AssertionError)
                                  (\<lambda>_. Inr size)) cands)
            else
              bindR (split_factors enum policy product max_factor) (\<lambda>factors.
                let no_tail = (case kw_no_tail kw of None \<Rightarrow> policy = ''factors'' | Some b \<Rightarrow> b)
                in generate_split factors product (nat num_output) no_tail []))
           (\<lambda>entities. Inr [x \<leftarrow> entities. fil x])))"

text \<open>\<open>get_num_output\<close>, which is what is used when no space is collected.\<close>

definition split_num_output :: "split_kwargs \<Rightarrow> int res" where
  "split_num_output kw = (case kw_num_outputs kw of None \<Rightarrow> Inl KeyError | Some k \<Rightarrow> Inr k)"

text \<open>
  \<open>SplitEntity.apply\<close>: the schedule's \<open>split(axis, factor)\<close> is a parameter that yields the outer
  and the inner axis.
\<close>

fun apply_split_from :: "('a \<Rightarrow> int \<Rightarrow> 'a \<times> 'a) \<Rightarrow> int list \<Rightarrow> nat list \<Rightarrow> 'a list \<Rightarrow> 'a \<Rightarrow> 'a list \<times> 'a" where
  "apply_split_from split sz [] ret axis = (ret, axis)"
| "apply_split_from split sz (i # is) ret axis =
     (let (ax0, ax1) = split axis (prodlist (drop i sz))
      in apply_split_from split sz is (ret @ [ax0]) ax1)"

definition apply_split :: "('a \<Rightarrow> int \<Rightarrow> 'a \<times> 'a) \<Rightarrow> int list \<Rightarrow> 'a \<Rightarrow> 'a list" where
  "apply_split split sz axis =
     (let (ret, axis') = apply_split_from split sz [1..<length sz] [] axis in ret @ [axis'])"

section \<open>Lemmas on factors\<close>

lemma isqrt_bounds: "isqrt n * isqrt n \<le> n \<and> n < (isqrt n + 1) * (isqrt n + 1)"
proof (induction n rule: isqrt.induct)
  case (1 n)
  show ?case
  proof (cases "n = 0")
    case True
    then show ?thesis by (simp add: isqrt.simps)
  next
    case False
    define r where "r = isqrt (n div 4)"
    have r: "r * r \<le> n div 4" "n div 4 < (r + 1) * (r + 1)" using 1 [OF False] by (auto simp: r_def)
    have "4 * (r * r) \<le> n" using r(1) by linarith
    moreover have "n < 4 * ((r + 1) * (r + 1))" using r(2) by linarith
    ultimately have "(2 * r) * (2 * r) \<le> n" "n < (2 * r + 2) * (2 * r + 2)" by (auto simp: algebra_simps)
    moreover have "isqrt n = (if (2 * r + 1) * (2 * r + 1) \<le> n then 2 * r + 1 else 2 * r)"
      using False by (simp add: isqrt.simps [of n] Let_def r_def)
    ultimately show ?thesis by (auto simp: algebra_simps)
  qed
qed

lemma factor_pair:
  fixes n d :: int
  assumes "0 < n" "0 < d" "d dvd n"
  shows "d \<le> int (isqrt (nat n)) \<or> n div d \<le> int (isqrt (nat n))"
proof (rule ccontr)
  define r where "r = int (isqrt (nat n))"
  assume "\<not> ?thesis"
  then have "r + 1 \<le> d" "r + 1 \<le> n div d" by (auto simp: r_def)
  then have "(r + 1) * (r + 1) \<le> d * (n div d)" using assms
    by (intro mult_mono) (auto simp: r_def)
  also have "\<dots> = n" using assms by simp
  finally have "nat ((r + 1) * (r + 1)) \<le> nat n" by simp
  moreover have "nat ((r + 1) * (r + 1)) = (isqrt (nat n) + 1) * (isqrt (nat n) + 1)"
    by (simp add: r_def nat_mult_distrib nat_add_distrib)
  ultimately show False using isqrt_bounds [of "nat n"] by simp
qed

lemma codivisor:
  fixes n d :: int
  assumes "0 < n" "0 < d" "d dvd n"
  shows "0 < n div d \<and> n div d dvd n \<and> n div (n div d) = d"
proof -
  obtain k where k: "n = d * k" using assms(3) by (rule dvdE)
  then have "0 < k" using assms by (simp add: zero_less_mult_iff)
  with k assms show ?thesis by simp
qed

lemma get_factors_eq:
  assumes "0 < n"
  obtains fs where "get_factors n = Inr fs" "set fs = {d. 0 < d \<and> d dvd n}" "sorted fs" "distinct fs"
proof -
  define step :: int where "step = (if n mod 2 \<noteq> 0 then 2 else 1)"
  define rng where "rng = py_range 1 (int (isqrt (nat n)) + 1) step"
  define pairs where "pairs = [[i, n div i]. i \<leftarrow> rng, n mod i = 0]"
  have step: "step > 0" by (simp add: step_def)
  have mem: "i \<in> set rng \<longleftrightarrow> 1 \<le> i \<and> i \<le> int (isqrt (nat n)) \<and> step dvd (i - 1)" for i
    using in_py_range [OF step] by (auto simp: rng_def)
  have odd: "step dvd (i - 1)" if "i dvd n" for i
    using that by (cases "n mod 2 = 0") (auto simp: step_def even_iff_mod_2_eq_zero [symmetric] elim!: dvdE)
  have all: "set (concat pairs) = {d. 0 < d \<and> d dvd n}"
  proof
    show "set (concat pairs) \<subseteq> {d. 0 < d \<and> d dvd n}"
    proof
      fix x assume "x \<in> set (concat pairs)"
      then obtain i where i: "i \<in> set rng" "n mod i = 0" "x = i \<or> x = n div i"
        by (auto simp: pairs_def split: if_splits)
      then have "0 < i" "i dvd n" using mem by auto
      with i(3) assms codivisor [of n i] show "x \<in> {d. 0 < d \<and> d dvd n}" by auto
    qed
    show "{d. 0 < d \<and> d dvd n} \<subseteq> set (concat pairs)"
    proof
      fix d assume "d \<in> {d. 0 < d \<and> d dvd n}"
      then have d: "0 < d" "d dvd n" by auto
      then have c: "0 < n div d" "n div d dvd n" "n div (n div d) = d"
        using codivisor [OF assms] by auto
      from factor_pair [OF assms d] show "d \<in> set (concat pairs)"
      proof
        assume "d \<le> int (isqrt (nat n))"
        then have "d \<in> set rng" using mem d odd by simp
        then show ?thesis using d by (force simp: pairs_def)
      next
        assume "n div d \<le> int (isqrt (nat n))"
        then have "n div d \<in> set rng" using mem c odd by simp
        then have "[n div d, n div (n div d)] \<in> set pairs" using c by (force simp: pairs_def)
        then show ?thesis using c unfolding set_concat by (intro UN_I) auto
      qed
    qed
  qed
  have "1 \<in> set (concat pairs)" using all assms by simp
  then have "pairs \<noteq> []" by auto
  then have "get_factors n = Inr (sort (remdups (concat pairs)))"
    using assms by (simp add: get_factors_def pairs_def rng_def step_def Let_def)
  then show thesis by (rule that) (use all in auto)
qed

lemma ilog2_bounds: "0 < n \<Longrightarrow> 2 ^ ilog2 n \<le> n \<and> n < 2 ^ (ilog2 n + 1)"
proof (induction n rule: ilog2.induct)
  case (1 n)
  show ?case
  proof (cases "n < 2")
    case True
    with 1 show ?thesis by (simp add: ilog2.simps)
  next
    case False
    with 1 have "2 ^ ilog2 (n div 2) \<le> n div 2" "n div 2 < 2 ^ (ilog2 (n div 2) + 1)" by auto
    moreover define k where "k = (2::nat) ^ ilog2 (n div 2)"
    ultimately have "k \<le> n div 2" "n div 2 < 2 * k" by auto
    then have "2 * k \<le> n \<and> n < 4 * k" by linarith
    then show ?thesis using False by (simp add: ilog2.simps [of n] k_def)
  qed
qed

lemma get_pow2s_eq:
  assumes "0 < n"
  obtains fs where "get_pow2s n = Inr fs" "set fs = {f. f \<le> n \<and> (\<exists>x. f = 2 ^ x)}" "sorted fs" "distinct fs"
proof -
  define fs where "fs = map (\<lambda>x. (2::int) ^ x) [0..<ilog2 (nat n) + 1]"
  have "get_pow2s n = Inr fs" using assms by (simp add: get_pow2s_def fs_def)
  moreover have "set fs = {f. f \<le> n \<and> (\<exists>x. f = 2 ^ x)}"
  proof -
    have iff: "x < ilog2 (nat n) + 1 \<longleftrightarrow> (2::int) ^ x \<le> n" for x
    proof -
      have b: "2 ^ ilog2 (nat n) \<le> nat n" "nat n < 2 ^ (ilog2 (nat n) + 1)"
        using ilog2_bounds [of "nat n"] assms by auto
      have "x < ilog2 (nat n) + 1 \<longleftrightarrow> (2::nat) ^ x \<le> nat n"
      proof
        assume "x < ilog2 (nat n) + 1"
        then have "(2::nat) ^ x \<le> 2 ^ ilog2 (nat n)" by simp
        with b show "(2::nat) ^ x \<le> nat n" by linarith
      next
        assume "(2::nat) ^ x \<le> nat n"
        with b have "(2::nat) ^ x < 2 ^ (ilog2 (nat n) + 1)" by linarith
        then show "x < ilog2 (nat n) + 1" by (rule power_less_imp_less_exp [rotated]) simp
      qed
      also have "(2::nat) ^ x \<le> nat n \<longleftrightarrow> int (2 ^ x) \<le> n" using assms by linarith
      finally show ?thesis by simp
    qed
    have ivl: "{0..<ilog2 (nat n) + 1} = {x. (2::int) ^ x \<le> n}"
      by (rule set_eqI) (simp only: atLeastLessThan_iff iff mem_Collect_eq le0 simp_thms)
    show ?thesis unfolding fs_def set_map set_upt ivl by blast
  qed
  moreover have "sorted fs" unfolding fs_def sorted_map
    by (rule sorted_wrt_mono_rel [OF _ sorted_wrt_upt]) (simp add: power_increasing)
  moreover have "distinct fs" by (simp add: fs_def distinct_map inj_on_def del: upt_Suc)
  ultimately show thesis using that by blast
qed


section \<open>Lemmas on the search\<close>

definition split_keep :: "int \<Rightarrow> bool \<Rightarrow> int list \<Rightarrow> bool" where
  "split_keep product no_tail t \<longleftrightarrow>
     prodlist t \<le> product \<and> (prodlist t dvd product \<or> \<not> no_tail \<and> prodlist t < product)"

lemma prodlist_pos_int: "(\<And>x. x \<in> set xs \<Longrightarrow> 0 < x) \<Longrightarrow> 0 < prodlist (xs :: int list)"
  by (induction xs) simp_all

lemma dvd_prodlist: "x \<in> set xs \<Longrightarrow> x dvd prodlist (xs :: int list)"
  by (induction xs) auto

lemma split_leaf_eq:
  assumes "t \<noteq> []" "\<And>x. x \<in> set t \<Longrightarrow> 0 < x"
  shows "split_leaf product no_tail t entities =
    Inr (if split_keep product no_tail t then entities @ [-1 # rev t] else entities)"
proof -
  have "0 < prodlist t" using assms(2) by (rule prodlist_pos_int)
  then have "guardR (prodlist t \<noteq> 0) e = Inr ()" for e by simp
  then show ?thesis
    by (cases "prodlist t > product")
      (simp_all add: assms(1) split_leaf_def split_keep_def Let_def dvd_eq_mod_eq_0)
qed

lemma foldR_split_leaf:
  assumes "\<And>t. t \<in> set ts \<Longrightarrow> t \<noteq> [] \<and> (\<forall>x\<in>set t. 0 < x)"
  shows "foldR (split_leaf product no_tail) ts entities =
    Inr (entities @ map (\<lambda>t. -1 # rev t) (filter (split_keep product no_tail) ts))"
  using assms
proof (induction ts arbitrary: entities)
  case (Cons t ts)
  then have "split_leaf product no_tail t entities =
    Inr (if split_keep product no_tail t then entities @ [-1 # rev t] else entities)" for entities
    by (intro split_leaf_eq) auto
  moreover have "foldR (split_leaf product no_tail) ts es =
    Inr (es @ map (\<lambda>t. -1 # rev t) (filter (split_keep product no_tail) ts))" for es
    by (rule Cons.IH) (use Cons.prems in auto)
  ultimately show ?case by simp
qed simp

lemma in_product_replicate:
  "t \<in> set (product_lists (replicate m fs)) \<longleftrightarrow> length t = m \<and> set t \<subseteq> set fs"
proof (induction m arbitrary: t)
  case (Suc m)
  then show ?case by (cases t) auto
qed auto

lemma generate_split_eq:
  assumes "2 \<le> k" "\<And>f. f \<in> set fs \<Longrightarrow> 0 < f"
  shows "generate_split fs product k no_tail entities =
    Inr (entities @ map (\<lambda>t. -1 # rev t)
      (filter (split_keep product no_tail) (product_lists (replicate (k - 1) fs))))"
proof -
  have "foldR (split_leaf product no_tail) (product_lists (replicate (k - 1) fs)) entities =
    Inr (entities @ map (\<lambda>t. -1 # rev t)
      (filter (split_keep product no_tail) (product_lists (replicate (k - 1) fs))))"
    by (rule foldR_split_leaf) (use assms in \<open>auto simp: in_product_replicate\<close>)
  then show ?thesis by (simp add: generate_split_def dfs_fill_0)
qed

lemma generate_split_one [simp]: "generate_split fs product (Suc 0) no_tail entities = Inl TypeError"
  by (simp add: generate_split_def dfs_fill.simps split_leaf_def)

lemma split_space_eq:
  assumes "split_factors enum policy product (case kw_max_factor kw of None \<Rightarrow> 2 ^ 31 | Some m \<Rightarrow> m) = Inr fs"
    and "kw_num_outputs kw = Some k" "2 \<le> k" "policy \<noteq> ''candidate''" "\<And>f. f \<in> set fs \<Longrightarrow> 0 < f"
  shows "split_space enum product policy kw =
    Inr (filter (case kw_filter kw of None \<Rightarrow> (\<lambda>_. True) | Some f \<Rightarrow> f) (map (\<lambda>t. -1 # rev t)
      (filter (split_keep product (case kw_no_tail kw of None \<Rightarrow> policy = ''factors'' | Some b \<Rightarrow> b))
        (product_lists (replicate (nat k - 1) fs)))))"
  using assms by (simp add: split_space_def Let_def generate_split_eq)

text \<open>The factors of every policy are positive and within the maximum.\<close>

lemma split_factors_Inr:
  assumes "split_factors enum policy product mx = Inr fs" "\<And>xs. set (enum xs) = set xs"
  shows "0 < product \<and> (\<forall>f\<in>set fs. 0 < f \<and> f \<le> mx \<and> f \<le> product)"
proof -
  have f: "0 < product \<and> (\<forall>f\<in>set fs. 0 < f \<and> f \<le> product)" if "get_factors product = Inr fs" for fs
  proof (cases "0 < product")
    case True
    from get_factors_eq [OF this] that have "set fs = {d. 0 < d \<and> d dvd product}" by (metis sum.inject(2))
    with True show ?thesis by (auto intro: zdvd_imp_le)
  next
    case False
    with that show ?thesis
      by (auto simp: get_factors_def Let_def bindR_Inr_iff py_range_def isqrt.simps)
  qed
  have p: "0 < product \<and> (\<forall>f\<in>set fs. 0 < f \<and> f \<le> product)" if "get_pow2s product = Inr fs" for fs
  proof (cases "0 < product")
    case True
    from get_pow2s_eq [OF this] that have "set fs = {f. f \<le> product \<and> (\<exists>x. f = 2 ^ x)}" by (metis sum.inject(2))
    with True show ?thesis by auto
  next
    case False
    with that show ?thesis by (simp add: get_pow2s_def)
  qed
  consider "policy = ''verbose''" | "policy = ''factors''" | "policy = ''power2''"
    using assms(1) by (auto simp: split_factors_def split: if_splits)
  then show ?thesis
  proof cases
    case 1
    with assms(1) obtain ds ps where "get_factors product = Inr ds" "get_pow2s product = Inr ps"
      "fs = [x \<leftarrow> enum (ds @ ps). x \<le> mx]" by (auto simp: split_factors_def bindR_Inr_iff)
    with f p assms(2) show ?thesis by auto
  next
    case 2
    with assms(1) obtain ds where "get_factors product = Inr ds" "fs = [x \<leftarrow> ds. x \<le> mx]"
      by (auto simp: split_factors_def bindR_Inr_iff)
    with f show ?thesis by auto
  next
    case 3
    with assms(1) obtain ps where "get_pow2s product = Inr ps" "fs = [x \<leftarrow> ps. x \<le> mx]"
      by (auto simp: split_factors_def bindR_Inr_iff)
    with p show ?thesis by auto
  qed
qed

section \<open>Properties\<close>

text \<open>
  \<open>get_factors\<close> returns exactly the positive divisors of a positive number, each once and in
  increasing order, although it only tries numbers up to the square root and only odd ones when
  the number is odd; \<open>get_pow2s\<close> returns exactly the powers of two that do not exceed it. Below 1
  both raise, \<open>get_factors(0)\<close> with a \<open>TypeError\<close>.
\<close>

lemma factors_and_powers:
  "(0 < n \<longrightarrow> (\<exists>fs. get_factors n = Inr fs \<and> set fs = {d. 0 < d \<and> d dvd n} \<and> sorted fs \<and> distinct fs)) \<and>
   (0 < n \<longrightarrow> (\<exists>ps. get_pow2s n = Inr ps \<and> set ps = {f. f \<le> n \<and> (\<exists>x. f = 2 ^ x)} \<and> sorted ps \<and> distinct ps)) \<and>
   (n < 0 \<longrightarrow> get_factors n = Inl ValueError) \<and> (n \<le> 0 \<longrightarrow> get_pow2s n = Inl ValueError) \<and>
   get_factors 0 = Inl TypeError"
proof (intro conjI impI)
  assume "0 < n"
  then show "\<exists>fs. get_factors n = Inr fs \<and> set fs = {d. 0 < d \<and> d dvd n} \<and> sorted fs \<and> distinct fs"
    by (metis get_factors_eq)
next
  assume "0 < n"
  then show "\<exists>ps. get_pow2s n = Inr ps \<and> set ps = {f. f \<le> n \<and> (\<exists>x. f = 2 ^ x)} \<and> sorted ps \<and> distinct ps"
    by (metis (no_types, lifting) get_pow2s_eq)
qed (simp_all add: get_factors_def get_pow2s_def py_range_def isqrt.simps)

lemma kept_factor_lists:
  assumes "set fs = {d. 0 < d \<and> d dvd n}" "0 < n"
  shows "t \<in> set (filter (split_keep n True) (product_lists (replicate k (filter (\<lambda>x. x \<le> mx) fs)))) \<longleftrightarrow>
    length t = k \<and> (\<forall>f\<in>set t. 0 < f \<and> f \<le> mx) \<and> prodlist t dvd n" (is "t \<in> ?L \<longleftrightarrow> ?R")
proof
  assume "t \<in> ?L"
  then show ?R using assms(1) by (auto simp: in_product_replicate split_keep_def subset_iff)
next
  assume ?R
  then show "t \<in> ?L" using assms zdvd_imp_le [of "prodlist t" n]
    by (auto simp: in_product_replicate split_keep_def subset_iff intro: dvd_trans [OF dvd_prodlist])
qed

lemma factor_splits:
  assumes "0 < n" and "kw_num_outputs kw = Some k" "2 \<le> k" "kw_no_tail kw = None"
  shows "\<exists>es. split_space enum n ''factors'' kw = Inr es \<and> distinct es \<and>
    set es = {-1 # t | t. length t = nat k - 1 \<and>
      (\<forall>f\<in>set t. 0 < f \<and> f \<le> (case kw_max_factor kw of None \<Rightarrow> 2 ^ 31 | Some m \<Rightarrow> m)) \<and>
      prodlist t dvd n \<and> (case kw_filter kw of None \<Rightarrow> True | Some fil \<Rightarrow> fil (-1 # t))}"
proof -
  define mx where "mx = (case kw_max_factor kw of None \<Rightarrow> 2 ^ 31 | Some m \<Rightarrow> m)"
  define fil where "fil = (case kw_filter kw of None \<Rightarrow> (\<lambda>_. True) | Some f \<Rightarrow> f)"
  obtain fs where fs: "get_factors n = Inr fs" "set fs = {d. 0 < d \<and> d dvd n}" "distinct fs"
    using get_factors_eq [OF assms(1)] by metis
  define L where "L = filter (split_keep n True)
    (product_lists (replicate (nat k - 1) (filter (\<lambda>x. x \<le> mx) fs)))"
  have eq: "split_space enum n ''factors'' kw = Inr (filter fil (map (\<lambda>t. -1 # rev t) L))"
  proof -
    have "split_factors enum ''factors'' n mx = Inr (filter (\<lambda>x. x \<le> mx) fs)"
      by (simp add: split_factors_def fs(1))
    moreover have "0 < f" if "f \<in> set (filter (\<lambda>x. x \<le> mx) fs)" for f using that fs(2) by auto
    ultimately show ?thesis unfolding mx_def fil_def L_def
      by (subst split_space_eq [OF _ assms(2, 3)]) (assumption | simp add: assms(4))+
  qed
  note L = kept_factor_lists [OF fs(2) assms(1), of _ "nat k - 1" mx, folded L_def]
  have "distinct L" unfolding L_def using fs(3)
    by (intro distinct_filter distinct_product_lists) (simp add: set_replicate_conv_if)
  then have d: "distinct (filter fil (map (\<lambda>t. -1 # rev t) L))"
    by (intro distinct_filter) (simp add: distinct_map inj_on_def)
  have "set (filter fil (map (\<lambda>t. -1 # rev t) L)) =
    {-1 # t | t. length t = nat k - 1 \<and> (\<forall>f\<in>set t. 0 < f \<and> f \<le> mx) \<and> prodlist t dvd n \<and> fil (-1 # t)}"
    (is "?A = ?B")
  proof
    show "?A \<subseteq> ?B" using L by auto
    show "?B \<subseteq> ?A"
    proof
      fix e assume "e \<in> ?B"
      then obtain t where t: "e = -1 # t" "rev t \<in> set L" "fil e" using L by auto
      then have "e \<in> (\<lambda>t. -1 # rev t) ` set L" by (intro image_eqI [of _ _ "rev t"]) simp_all
      with t show "e \<in> ?A" by simp
    qed
  qed
  then show ?thesis using eq d unfolding fil_def mx_def by (auto split: option.splits)
qed

text \<open>
  C10. The default split space of an axis of positive length with at least two outputs has exactly
  the tilings that leave no tail: \<open>-1\<close> followed by positive factors within the maximum whose
  product divides the length and that the filter accepts, each once.
\<close>

theorem split_factors_space:
  assumes "0 < n" and "kw_num_outputs kw = Some k" "2 \<le> k" "kw_no_tail kw = None"
  shows "\<exists>es. split_space enum n ''factors'' kw = Inr es \<and> distinct es \<and>
    set es = {-1 # t | t. length t = nat k - 1 \<and>
      (\<forall>f\<in>set t. 0 < f \<and> f \<le> (case kw_max_factor kw of None \<Rightarrow> 2 ^ 31 | Some m \<Rightarrow> m)) \<and>
      prodlist t dvd n \<and> (case kw_filter kw of None \<Rightarrow> True | Some fil \<Rightarrow> fil (-1 # t))}"
  using assms by (rule factor_splits)

lemma split_factors_space_witness:
  "let kw = \<lparr>kw_max_factor = Some 4, kw_filter = None, kw_num_outputs = Some 3,
             kw_candidate = None, kw_no_tail = None\<rparr> in
   \<exists>es. split_space remdups 6 ''factors'' kw = Inr es \<and> [-1, 2, 3] \<in> set es \<and> [-1, 3, 3] \<notin> set es \<and>
     [-1, 1, 6] \<notin> set es"
proof -
  let ?kw = "\<lparr>kw_max_factor = Some 4, kw_filter = None, kw_num_outputs = Some 3,
             kw_candidate = None, kw_no_tail = None\<rparr>"
  obtain es where es: "split_space remdups 6 ''factors'' ?kw = Inr es"
    "set es = {-1 # t | t. length t = nat 3 - 1 \<and> (\<forall>f\<in>set t. 0 < f \<and> f \<le> 4) \<and> prodlist t dvd 6 \<and> True}"
    using split_factors_space [of 6 ?kw 3 remdups] by auto
  have "[-1, 2, 3] \<in> set es" unfolding es(2) by (intro CollectI exI [of _ "[2, 3]"]) simp
  moreover have "[-1, 3, 3] \<notin> set es" "[-1, 1, 6] \<notin> set es" unfolding es(2) by auto
  ultimately show ?thesis using es(1) by (simp add: Let_def)
qed

text \<open>
  C34. Every entity that the split space enumerates, under any of its three policies, splits the
  axis completely: it starts with \<open>-1\<close>, has one size per output, the sizes after the first are
  positive factors within the maximum, and their product does not exceed the length; it divides
  the length unless tails are allowed.
\<close>

theorem split_space_sound:
  assumes "split_space enum n policy kw = Inr es" "policy \<noteq> ''candidate''" "e \<in> set es"
    and "\<And>xs. set (enum xs) = set xs"
  shows "\<exists>t. e = -1 # t \<and> kw_num_outputs kw = Some (int (length e)) \<and> 2 \<le> length e \<and>
    (\<forall>f\<in>set t. 0 < f \<and> f \<le> (case kw_max_factor kw of None \<Rightarrow> 2 ^ 31 | Some m \<Rightarrow> m)) \<and>
    prodlist t \<le> n \<and>
    ((case kw_no_tail kw of None \<Rightarrow> policy = ''factors'' | Some b \<Rightarrow> b) \<longrightarrow> prodlist t dvd n)"
proof -
  define mx where "mx = (case kw_max_factor kw of None \<Rightarrow> 2 ^ 31 | Some m \<Rightarrow> m)"
  define nt where "nt = (case kw_no_tail kw of None \<Rightarrow> policy = ''factors'' | Some b \<Rightarrow> b)"
  from assms(1) obtain k where k: "kw_num_outputs kw = Some k" "0 < k"
    by (cases "kw_num_outputs kw") (auto simp: split_space_def Let_def bindR_Inr_iff)
  from assms(1,2) k obtain fs es0 where fs: "split_factors enum policy n mx = Inr fs"
    and es0: "generate_split fs n (nat k) nt [] = Inr es0" "e \<in> set es0"
    using assms(3) by (auto simp: split_space_def Let_def bindR_Inr_iff mx_def nt_def)
  have pos: "0 < f \<and> f \<le> mx" if "f \<in> set fs" for f
    using split_factors_Inr [OF fs assms(4)] that by auto
  have k2: "2 \<le> nat k"
  proof (rule ccontr)
    assume "\<not> ?thesis"
    then have "nat k = 1" using k by simp
    then show False using es0(1) generate_split_one [of fs n nt] by simp
  qed
  have "e \<in> (\<lambda>t. -1 # rev t) ` {t \<in> set (product_lists (replicate (nat k - 1) fs)). split_keep n nt t}"
    using es0 generate_split_eq [OF k2, of fs n nt "[]"] pos by auto
  then obtain t where "e = -1 # rev t" "length t = nat k - 1" "set t \<subseteq> set fs" "split_keep n nt t"
    by (auto simp: in_product_replicate)
  with pos k k2 show ?thesis
    by (intro exI [of _ "rev t"]) (auto simp: split_keep_def mx_def [symmetric] nt_def [symmetric] subset_iff)
qed

lemma split_space_sound_witness:
  "let kw = \<lparr>kw_max_factor = None, kw_filter = None, kw_num_outputs = Some 2,
             kw_candidate = None, kw_no_tail = None\<rparr> in
   split_space remdups 6 ''power2'' kw = Inr [[-1, 1], [-1, 2], [-1, 4]] \<and>
   (\<exists>t. [-1, 4] = -1 # t \<and> prodlist t \<le> 6 \<and> \<not> prodlist t dvd (6 :: int))"
proof -
  let ?kw = "\<lparr>kw_max_factor = None, kw_filter = None, kw_num_outputs = Some 2,
             kw_candidate = None, kw_no_tail = None\<rparr>"
  have il: "ilog2 6 = 2" by (simp add: ilog2.simps)
  have e: "split_space remdups 6 ''power2'' ?kw = Inr [[-1, 1], [-1, 2], [-1, 4]]"
    by (simp add: split_space_def split_factors_def get_pow2s_def il generate_split_def numeral_2_eq_2
        dfs_fill.simps split_leaf_def Let_def)
  from split_space_sound [OF e, of "[-1, 4]"] show ?thesis using e by (auto simp: Let_def)
qed

lemma split_factors_returns:
  assumes "policy \<in> {''verbose'', ''factors'', ''power2''}" "0 < n"
  shows "\<exists>fs. split_factors enum policy n mx = Inr fs"
proof -
  obtain ds ps where "get_factors n = Inr ds" "get_pow2s n = Inr ps"
    using get_factors_eq [OF assms(2)] get_pow2s_eq [OF assms(2)] by metis
  then show ?thesis using assms(1) by (auto simp: split_factors_def)
qed

lemma split_factors_raises:
  assumes "policy \<in> {''verbose'', ''factors'', ''power2''}" "\<not> 0 < n"
  shows "split_factors enum policy n mx = Inl (if n < 0 \<or> policy = ''power2'' then ValueError else TypeError)"
proof -
  have "get_factors n = Inl (if n < 0 then ValueError else TypeError)" "get_pow2s n = Inl ValueError"
    using assms(2) by (auto simp: get_factors_def get_pow2s_def Let_def py_range_def isqrt.simps guardR_def)
  then show ?thesis using assms(1) by (auto simp: split_factors_def)
qed

text \<open>
  When the enumerating policies raise: an \<open>AssertionError\<close> without a positive number of
  outputs, otherwise an error on every axis shorter than 1 (also for the unknown length \<open>-1\<close>
  of an axis without a domain), and a \<open>TypeError\<close> for exactly one output, because the product of
  an empty stack is taken. In every other case the space is built.
\<close>

lemma split_space_errors:
  assumes "policy \<in> {''verbose'', ''factors'', ''power2''}" and "\<And>xs. set (enum xs) = set xs"
  shows "case kw_num_outputs kw of
      None \<Rightarrow> split_space enum n policy kw = Inl AssertionError
    | Some k \<Rightarrow>
        if k \<le> 0 then split_space enum n policy kw = Inl AssertionError
        else if n < 0 \<or> n = 0 \<and> policy = ''power2'' then split_space enum n policy kw = Inl ValueError
        else if n = 0 \<or> k = 1 then split_space enum n policy kw = Inl TypeError
        else \<exists>es. split_space enum n policy kw = Inr es"
proof -
  define mx where "mx = (case kw_max_factor kw of None \<Rightarrow> 2 ^ 31 | Some m \<Rightarrow> m)"
  note total = split_factors_returns [OF assms(1), of n enum mx]
  note neg = split_factors_raises [OF assms(1), of n enum mx]
  have nc: "policy \<noteq> ''candidate''" using assms(1) by auto
  show ?thesis
  proof (cases "kw_num_outputs kw")
    case None
    then show ?thesis by (simp add: split_space_def Let_def)
  next
    case (Some k)
    consider "k \<le> 0 \<or> \<not> 0 < n" | "0 < n" "k = 1" | "0 < n" "2 \<le> k" by linarith
    then show ?thesis
    proof cases
      case 1
      with Some neg nc show ?thesis
        by (auto simp: split_space_def Let_def mx_def [symmetric] not_le)
    next
      case 2
      then obtain fs where "split_factors enum policy n mx = Inr fs" using total by auto
      with Some 2 nc generate_split_one show ?thesis
        by (simp add: split_space_def Let_def mx_def [symmetric])
    next
      case 3
      then obtain fs where fs: "split_factors enum policy n mx = Inr fs" using total by auto
      have "0 < f" if "f \<in> set fs" for f using split_factors_Inr [OF fs assms(2)] that by auto
      with split_space_eq [OF fs [unfolded mx_def] Some 3(2) nc] Some 3
      show ?thesis by auto
    qed
  qed
qed

section \<open>Applying a split\<close>

lemma apply_split_from_shift:
  "apply_split_from split (x # sz) (map Suc is') ret axis = apply_split_from split sz is' ret axis"
  by (induction is' arbitrary: ret axis) (auto split: prod.split)

lemma apply_split_from_ret:
  "apply_split_from split sz is' ret axis =
    (let (ret', axis') = apply_split_from split sz is' [] axis in (ret @ ret', axis'))"
proof (induction is' arbitrary: ret axis)
  case (Cons i is')
  obtain a0 a1 where s: "split axis (prodlist (drop i sz)) = (a0, a1)" by fastforce
  show ?case using Cons [of "ret @ [a0]" a1] Cons [of "[a0]" a1] by (simp add: s split: prod.splits)
qed simp

lemma apply_split_Cons:
  assumes "t \<noteq> []"
  shows "apply_split split (x # t) axis =
    (let (ax0, ax1) = split axis (prodlist t) in ax0 # apply_split split t ax1)"
proof -
  have i: "[1..<length (x # t)] = 1 # map Suc [1..<length t]"
    using assms by (cases t) (simp_all add: map_Suc_upt upt_conv_Cons del: upt_Suc)
  obtain a0 a1 where s: "split axis (prodlist t) = (a0, a1)" by fastforce
  show ?thesis
    unfolding apply_split_def i
    by (simp add: s apply_split_from_shift apply_split_from_ret [of split t _ "[a0]"]
        split: prod.split del: upt_Suc)
qed

text \<open>The extents after a split as the schedule computes them: the outer one rounds up.\<close>

abbreviation split_extent :: "int \<Rightarrow> int \<Rightarrow> int \<times> int" where
  "split_extent n f \<equiv> (- (- n div f), f)"

lemma apply_split_exact:
  "t \<noteq> [] \<Longrightarrow> (\<And>x. x \<in> set t \<Longrightarrow> 0 < x) \<Longrightarrow> apply_split split_extent t (prodlist t) = t"
proof (induction t)
  case (Cons x t)
  show ?case
  proof (cases "t = []")
    case True
    then show ?thesis by (simp add: apply_split_def)
  next
    case False
    have "0 < prodlist t" using Cons.prems by (intro prodlist_pos_int) auto
    then have "- (- (x * prodlist t) div prodlist t) = x"
      by (metis add.inverse_inverse less_irrefl mult_minus_left nonzero_mult_div_cancel_right)
    with Cons False show ?thesis by (simp add: apply_split_Cons)
  qed
qed simp

text \<open>
  Applying the entity \<open>-1 # t\<close> to an axis of length \<open>n\<close>: the schedule is asked to split by the
  products of the remaining sizes, and the resulting extents are exactly \<open>t\<close> under an outer axis
  of \<open>n\<close> divided by their product, rounded up. So they cover the axis, with nothing left over when
  the product divides it.
\<close>

theorem apply_split_extents:
  assumes "t \<noteq> []" "\<forall>x\<in>set t. 0 < x"
  shows "apply_split split_extent (-1 # t) n = - (- n div prodlist t) # t \<and>
    n \<le> prodlist (apply_split split_extent (-1 # t) n) \<and>
    (prodlist t dvd n \<longrightarrow> prodlist (apply_split split_extent (-1 # t) n) = n)"
proof -
  define P where "P = prodlist t"
  have P: "0 < P" unfolding P_def using assms(2) by (intro prodlist_pos_int) auto
  have e: "apply_split split_extent (-1 # t) n = - (- n div P) # t"
    using assms by (simp add: apply_split_Cons apply_split_exact P_def)
  have "P * (- n div P) \<le> - n" using P by (metis mult_div_mod_eq le_add_same_cancel1 pos_mod_sign)
  then have "n \<le> - (- n div P) * P" by (simp add: mult.commute)
  moreover have "- (- n div P) * P = n" if "P dvd n" using that P by (simp add: dvd_neg_div)
  ultimately show ?thesis using e by (simp add: P_def)
qed

lemma apply_split_extents_witness:
  "apply_split split_extent [-1, 2, 4] 13 = [2, 2, 4]"
  using apply_split_extents [of "[2, 4]" 13] by simp

end
