(* ===== verification/Transforms.thy ===== *)
theory Transforms
  imports Prelude "HOL-Library.Multiset" "HOL-Library.Sublist"
begin

text \<open>
  The reorder, annotate and option spaces of \<open>tvm/python/tvm/autotvm/task/space.py\<close> with their
  entities. A schedule is the list of the primitives called on it; the axis that \<open>fuse\<close> returns
  is a parameter.
\<close>

section \<open>Iterators of the standard library\<close>

text \<open>\<open>itertools.permutations\<close> and \<open>itertools.combinations\<close>, in their order.\<close>

function perms :: "'a list \<Rightarrow> 'a list list" where
  "perms xs =
     (if xs = [] then [[]]
      else concat (map (\<lambda>i. map (Cons (xs ! i)) (perms (take i xs @ drop (Suc i) xs))) [0..<length xs]))"
  by pat_completeness auto
termination by (relation "measure length") auto

declare perms.simps [simp del]

fun combinations :: "'a list \<Rightarrow> nat \<Rightarrow> 'a list list" where
  "combinations xs 0 = [[]]"
| "combinations [] (Suc r) = []"
| "combinations (x # xs) (Suc r) = map (Cons x) (combinations xs r) @ combinations xs (Suc r)"

text \<open>\<open>np.argmax\<close>: the first position of the maximum.\<close>

definition argmax :: "int list \<Rightarrow> nat" where
  "argmax xs = hd [i \<leftarrow> [0..<length xs]. xs ! i = Max (set xs)]"

section \<open>The reorder space\<close>

record 'a reorder_kwargs =
  rk_interval :: "(int \<times> int) option"
  rk_candidate :: "'a list list option"
  rk_spatial :: "'a list list option"
  rk_reduce :: "'a list list option"

text \<open>
  The search that merges chains. \<open>tmp_pt\<close> and \<open>tmp_stack\<close> are restored after each call, so the
  recursion gets its own copies; only \<open>merged\<close> is passed on.
\<close>

function merge_dfs ::
  "'a list list \<Rightarrow> nat \<Rightarrow> nat list \<Rightarrow> 'a list \<Rightarrow> 'a list list \<Rightarrow> 'a list list" where
  "merge_dfs chs sz tmp_pt tmp_stack merged =
     (if sumlist tmp_pt = sz then merged @ [tmp_stack]
      else fold (\<lambda>i merged.
             if i < length tmp_pt \<and> tmp_pt ! i < length (chs ! i) \<and>
                i = argmax (map (\<lambda>x. int (length (chs ! x)) - int (tmp_pt ! x)) [0..<length chs])
             then merge_dfs chs sz (tmp_pt[i := tmp_pt ! i + 1])
                    (tmp_stack @ [chs ! i ! (tmp_pt ! i)]) merged
             else merged)
           [0..<length chs] merged)"
  by pat_completeness auto
termination
proof (relation "measure (\<lambda>(chs, _, tmp_pt, _). \<Sum>i<length chs. length (chs ! i) - tmp_pt ! i)", goal_cases)
  case (2 chs sz tmp_pt tmp_stack merged i m)
  then show ?case
    by (auto intro!: sum_strict_mono_ex1 simp: nth_list_update)
qed simp

declare merge_dfs.simps [simp del]

definition merge_chain :: "'a list list \<Rightarrow> 'a list list" where
  "merge_chain chs =
     merge_dfs chs (sumlist (map length chs)) (replicate (length chs) 0) [] []"

definition axes_index :: "'a list \<Rightarrow> 'a list \<Rightarrow> int list res" where
  "axes_index axes ch = mapR (\<lambda>x. map_sum id int (py_index x axes)) ch"

definition kwarg :: "'a option \<Rightarrow> 'a res" where
  "kwarg v = (case v of None \<Rightarrow> Inl KeyError | Some x \<Rightarrow> Inr x)"

definition last_slice :: "'a list \<Rightarrow> 'a list" where
  "last_slice xs = (if xs = [] then [] else [last xs])"

text \<open>\<open>ReorderSpace.__init__\<close>: the permutations of its entities.\<close>

definition reorder_space :: "'a list \<Rightarrow> string \<Rightarrow> 'a reorder_kwargs \<Rightarrow> int list list res" where
  "reorder_space axes policy kw =
     (let n = int (length axes) in
      if policy = ''identity'' then Inr [py_range 0 n 1]
      else if policy = ''all'' then Inr (perms (py_range 0 n 1))
      else if policy = ''interval_all'' then
        bindR (kwarg (rk_interval kw)) (\<lambda>(b, e).
          Inr (map (\<lambda>x. py_range 0 b 1 @ x @ py_range e n 1) (perms (py_range b e 1))))
      else if policy = ''candidate'' then
        bindR (kwarg (rk_candidate kw)) (mapR (axes_index axes))
      else if policy = ''interleave'' then
        bindR (kwarg (rk_spatial kw)) (\<lambda>spatial0. bindR (kwarg (rk_reduce kw)) (\<lambda>reduce0.
        bindR (mapR (axes_index axes) spatial0) (\<lambda>spatial. bindR (mapR (axes_index axes) reduce0) (\<lambda>reduce.
          let outer_merged = merge_chain (map butlast spatial);
              inner_merged = merge_chain (map last_slice spatial @ reduce)
          in Inr [o' @ i. o' \<leftarrow> outer_merged, i \<leftarrow> inner_merged]))))
      else if policy = ''interleave_cuda'' then
        bindR (kwarg (rk_spatial kw)) (\<lambda>spatial0. bindR (kwarg (rk_reduce kw)) (\<lambda>reduce0.
        bindR (mapR (axes_index axes) spatial0) (\<lambda>spatial. bindR (mapR (axes_index axes) reduce0) (\<lambda>reduce.
          let outer_merged = merge_chain (map butlast spatial);
              reduce_merged = merge_chain reduce
          in bindR (mapR (\<lambda>x. py_get x (-1)) spatial) (\<lambda>inner_merged.
               Inr [o' @ r @ inner_merged. o' \<leftarrow> outer_merged, r \<leftarrow> reduce_merged])))))
      else Inl RuntimeError)"

text \<open>\<open>ReorderEntity.apply\<close>: the new order, which is also what the schedule's \<open>reorder\<close> is called on.\<close>

definition apply_reorder :: "int list \<Rightarrow> 'a list \<Rightarrow> 'a list res" where
  "apply_reorder perm axes =
     (if length axes = length perm then mapR (py_get axes) perm
      else mapR (py_get axes) [i \<leftarrow> perm. i < int (length axes)])"

section \<open>The annotate space\<close>

text \<open>An annotation is a word, or the position of an axis in the \<open>locate_cache\<close> policy.\<close>

datatype ann = AStr string | AInt int

fun replace_try :: "string \<Rightarrow> string" where
  "replace_try (a # b # c # s) =
     (if [a, b, c] = ''try'' then ''none'' @ replace_try s else a # replace_try (b # c # s))"
| "replace_try s = s"

fun split_on :: "char \<Rightarrow> string \<Rightarrow> string list" where
  "split_on c [] = [[]]"
| "split_on c (x # s) =
     (if x = c then [] # split_on c s
      else (case split_on c s of [] \<Rightarrow> [[x]] | w # ws \<Rightarrow> (x # w) # ws))"

definition annotate_leaf :: "string list \<Rightarrow> ann list list \<Rightarrow> ann list list res" where
  "annotate_leaf tmp_stack entities =
     Inr (if count_list tmp_stack ''vec'' \<in> {0, 1} then entities @ [map AStr tmp_stack] else entities)"

definition generate_annotate :: "string list \<Rightarrow> nat \<Rightarrow> ann list list res" where
  "generate_annotate anns num_axis =
     map_sum id snd (dfs_fill annotate_leaf (replicate num_axis anns) 0 (replicate num_axis [], []))"

definition annotate_space :: "'a list \<Rightarrow> string \<Rightarrow> int option \<Rightarrow> ann list list res" where
  "annotate_space axes policy num_anchor =
     (let n = length axes; fuses = (\<lambda>k. replicate (n - k) (AStr ''fuse'')) in
      if policy = ''bind_gpu'' then
        (if n \<ge> 6 then Inr [fuses 6 @ map AStr [''blockIdx.z'', ''blockIdx.y'', ''blockIdx.x'',
                              ''threadIdx.z'', ''threadIdx.y'', ''threadIdx.x'']]
         else if n \<ge> 4 then Inr [fuses 4 @ map AStr [''blockIdx.y'', ''blockIdx.x'',
                              ''threadIdx.y'', ''threadIdx.x'']]
         else if n \<ge> 2 then Inr [fuses 2 @ map AStr [''blockIdx.x'', ''threadIdx.x'']]
         else Inl RuntimeError)
      else if policy = ''bind_gpu_virtual'' then
        (if n \<ge> 9 then Inr [fuses 9 @ map AStr [''blockIdx.z'', ''blockIdx.y'', ''blockIdx.x'',
                              ''vthread'', ''vthread'', ''vthread'',
                              ''threadIdx.z'', ''threadIdx.y'', ''threadIdx.x'']]
         else if n \<ge> 6 then Inr [fuses 6 @ map AStr [''blockIdx.y'', ''blockIdx.x'',
                              ''vthread'', ''vthread'', ''threadIdx.y'', ''threadIdx.x'']]
         else if n \<ge> 3 then Inr [fuses 3 @ map AStr [''blockIdx.x'', ''vthread'', ''threadIdx.x'']]
         else Inl RuntimeError)
      else if policy = ''locate_cache'' then
        bindR (kwarg num_anchor) (\<lambda>k. bindR (guardR (0 \<le> k) ValueError) (\<lambda>_.
          Inr (map (map (\<lambda>i. AInt (int i))) (combinations [0..<n] (nat k)))))
      else
        (let anns = split_on (CHR ''_'') (replace_try policy) in
         bindR (guardR (list_all (\<lambda>a. a \<in> {''none'', ''unroll'', ''vec''}) anns) RuntimeError) (\<lambda>_.
           generate_annotate anns n)))"

text \<open>
  \<open>AnnotateEntity.apply\<close>. The configuration's list of errors is \<open>None\<close> when no configuration is
  passed, which makes \<open>cfg.raise_error\<close> an \<open>AttributeError\<close>; in the same way, the lengths of the
  axes may be missing.
\<close>

datatype ('a, 't) call = Unroll 'a | Vectorize 'a | Bind 'a string | Fuse 'a 'a | ComputeAt 't 'a

record ('a, 't) astate =
  as_axes :: "'a list"
  as_calls :: "('a, 't) call list"
  as_errors :: "string list option"

definition record_error :: "string \<Rightarrow> ('a, 't) astate \<Rightarrow> ('a, 't) astate res" where
  "record_error msg st =
     (case as_errors st of None \<Rightarrow> Inl AttributeError
      | Some es \<Rightarrow> Inr (st\<lparr>as_errors := Some (es @ [msg])\<rparr>))"

definition call_on ::
  "nat \<Rightarrow> ('a \<Rightarrow> ('a, 't) call) \<Rightarrow> ('a, 't) astate \<Rightarrow> ('a, 't) astate res" where
  "call_on i f st = bindR (py_get (as_axes st) (int i)) (\<lambda>a. Inr (st\<lparr>as_calls := as_calls st @ [f a]\<rparr>))"

definition axis_len :: "int list option \<Rightarrow> nat \<Rightarrow> int res" where
  "axis_len axis_lens i =
     (case axis_lens of None \<Rightarrow> Inl TypeError | Some ls \<Rightarrow> py_get ls (int i))"

definition thread_tags :: "string list" where
  "thread_tags = [''blockIdx.x'', ''blockIdx.y'', ''blockIdx.z'', ''threadIdx.x'', ''threadIdx.y'',
     ''threadIdx.z'', ''vthread'']"

definition unroll_error :: string where "unroll_error = ''Too large factor for unrolling''"
definition vec_error :: string where "vec_error = ''Wrong size of lanes in vectorization''"

definition annotate_step ::
  "('a \<Rightarrow> 'a \<Rightarrow> 'a) \<Rightarrow> int list option \<Rightarrow> int option \<Rightarrow> int list option \<Rightarrow> nat \<times> ann \<Rightarrow>
     ('a, 't) astate \<Rightarrow> ('a, 't) astate res" where
  "annotate_step fuse axis_lens max_unroll vec_size p st =
     (case p of (i, AInt _) \<Rightarrow> Inl TypeError
      | (i, AStr w) \<Rightarrow>
          if w = ''none'' then Inr st
          else if w = ''unroll'' then
            bindR (case max_unroll of
                     None \<Rightarrow> Inr st
                   | Some m \<Rightarrow> if m = 0 then Inr st
                       else bindR (axis_len axis_lens i) (\<lambda>l. if l > m then record_error unroll_error st else Inr st))
              (call_on i Unroll)
          else if w = ''vec'' then
            bindR (case vec_size of
                     None \<Rightarrow> Inr st
                   | Some vs \<Rightarrow> if vs = [] then Inr st
                       else bindR (axis_len axis_lens i) (\<lambda>l. if l \<notin> set vs then record_error vec_error st else Inr st))
              (call_on i Vectorize)
          else if w \<in> set thread_tags then call_on i (\<lambda>a. Bind a w) st
          else if w = ''fuse'' then
            bindR (guardR (Suc i < length (as_axes st)) AssertionError) (\<lambda>_.
              let a = as_axes st ! i; b = as_axes st ! Suc i
              in Inr (st\<lparr>as_axes := (as_axes st)[Suc i := fuse a b], as_calls := as_calls st @ [Fuse a b]\<rparr>))
          else Inl RuntimeError)"

definition attach_step :: "'t list \<times> ann \<Rightarrow> ('a, 't) astate \<Rightarrow> ('a, 't) astate res" where
  "attach_step p st =
     foldR (\<lambda>t st. (case snd p of
         AStr _ \<Rightarrow> Inl TypeError
       | AInt i \<Rightarrow> bindR (py_get (as_axes st) i) (\<lambda>a. Inr (st\<lparr>as_calls := as_calls st @ [ComputeAt t a]\<rparr>))))
       (fst p) st"

definition apply_annotate ::
  "('a \<Rightarrow> 'a \<Rightarrow> 'a) \<Rightarrow> int list option \<Rightarrow> int option \<Rightarrow> int list option \<Rightarrow> 't list list option \<Rightarrow> ann list \<Rightarrow>
     ('a, 't) astate \<Rightarrow> ('a, 't) astate res" where
  "apply_annotate fuse axis_lens max_unroll vec_size source anns st =
     (case source of
        Some src \<Rightarrow> foldR attach_step (zip src anns) st
      | None \<Rightarrow> foldR (annotate_step fuse axis_lens max_unroll vec_size)
                 (zip [0..<length anns] anns) st)"

section \<open>The option space\<close>

definition other_space :: "'v list option \<Rightarrow> 'v list res" where
  "other_space cands = kwarg cands"

section \<open>Lemmas on permutations\<close>

lemma take_drop_mset: "i < length xs \<Longrightarrow> mset (take i xs @ drop (Suc i) xs) = mset xs - {#xs ! i#}"
proof -
  assume "i < length xs"
  then have "mset xs = add_mset (xs ! i) (mset (take i xs @ drop (Suc i) xs))"
    by (subst id_take_nth_drop [of i xs]) simp_all
  then show ?thesis by simp
qed

lemma distinct_skip: "distinct xs \<Longrightarrow> distinct (take i xs @ drop (Suc i) xs)"
proof (cases "i < length xs")
  case True
  assume "distinct xs"
  then have "distinct (take i xs @ xs ! i # drop (Suc i) xs)"
    by (simp only: id_take_nth_drop [OF True, symmetric])
  then show ?thesis by auto
qed simp

lemma set_perms: "distinct xs \<Longrightarrow> set (perms xs) = {ys. mset ys = mset xs}"
proof (induction xs rule: perms.induct)
  case (1 xs)
  show ?case
  proof (cases "xs = []")
    case True
    then show ?thesis by (simp add: perms.simps)
  next
    case False
    have d: "distinct (take i xs @ drop (Suc i) xs)" for i
      using "1.prems" by (rule distinct_skip)
    have IH: "set (perms (take i xs @ drop (Suc i) xs)) = {ys. mset ys = mset xs - {#xs ! i#}}"
      if "i < length xs" for i
      using "1.IH" [OF False _ d, of i] that by (simp only: take_drop_mset) simp
    have "ys \<in> set (perms xs) \<longleftrightarrow> mset ys = mset xs" for ys
    proof
      assume "ys \<in> set (perms xs)"
      then obtain i zs where "i < length xs" "zs \<in> set (perms (take i xs @ drop (Suc i) xs))" "ys = xs ! i # zs"
        using False by (auto simp: perms.simps [of xs])
      then show "mset ys = mset xs" using IH by simp
    next
      assume m: "mset ys = mset xs"
      with False obtain y zs where y: "ys = y # zs" by (cases ys) auto
      with m have "y \<in> set xs" by (metis list.set_intros(1) set_mset_mset)
      then obtain i where i: "i < length xs" "y = xs ! i" by (auto simp: in_set_conv_nth)
      have "mset zs = mset xs - {#xs ! i#}" using m y i by (metis add_mset_remove_trivial mset.simps(2))
      with IH i y False show "ys \<in> set (perms xs)" by (auto simp: perms.simps [of xs])
    qed
    then show ?thesis by auto
  qed
qed

lemma distinct_perms: "distinct xs \<Longrightarrow> distinct (perms xs)"
proof (induction xs rule: perms.induct)
  case (1 xs)
  show ?case
  proof (cases "xs = []")
    case True
    then show ?thesis by (simp add: perms.simps)
  next
    case False
    have d: "distinct (take i xs @ drop (Suc i) xs)" for i
      using "1.prems" by (rule distinct_skip)
    have "distinct (concat (map (\<lambda>i. map (Cons (xs ! i)) (perms (take i xs @ drop (Suc i) xs))) is'))"
      if "distinct is'" "set is' \<subseteq> {..<length xs}" for is'
      using that
    proof (induction is')
      case (Cons i is')
      then have "distinct (perms (take i xs @ drop (Suc i) xs))" using "1.IH" [OF False] d by simp
      moreover have "xs ! i \<noteq> xs ! j" if "j \<in> set is'" for j
        using that Cons.prems "1.prems" by (auto simp: nth_eq_iff_index_eq)
      ultimately show ?case using Cons by (auto simp: distinct_map)
    qed simp
    then show ?thesis using False by (simp add: perms.simps [of xs] atLeast0LessThan)
  qed
qed

section \<open>Lemmas on merging chains\<close>

lemma argmax_first:
  assumes "xs \<noteq> []"
  shows "argmax xs < length xs \<and> xs ! argmax xs = Max (set xs) \<and> (\<forall>j<argmax xs. xs ! j < Max (set xs))"
proof -
  let ?P = "\<lambda>i. xs ! i = Max (set xs)"
  have "Max (set xs) \<in> set xs" using assms by simp
  then obtain k where "k < length xs" "?P k" by (auto simp: in_set_conv_nth)
  define i where "i = (LEAST i. ?P i)"
  have i: "?P i" "i \<le> k" "\<And>j. j < i \<Longrightarrow> \<not> ?P j"
    unfolding i_def using \<open>?P k\<close> by (auto intro: LeastI Least_le dest: not_less_Least)
  have "[i \<leftarrow> [0..<length xs]. ?P i] = [i \<leftarrow> [0..<i]. ?P i] @ i # [i \<leftarrow> [Suc i..<length xs]. ?P i]"
  proof -
    have "[0..<length xs] = [0..<i] @ i # [Suc i..<length xs]"
      using i(2) \<open>k < length xs\<close> upt_add_eq_append [of 0 i "length xs - i"] by (simp add: upt_conv_Cons)
    then show ?thesis using i(1) by simp
  qed
  moreover have "[i \<leftarrow> [0..<i]. ?P i] = []" using i(3) by (auto simp: filter_empty_conv)
  ultimately have "argmax xs = i" by (simp add: argmax_def)
  moreover have "xs ! j < Max (set xs)" if "j < i" for j
    using i that \<open>k < length xs\<close> by (meson List.finite_set Max_ge le_less_trans less_le_trans linorder_neqE
        nat_less_le nth_mem not_less order_less_le)
  ultimately show ?thesis using i \<open>k < length xs\<close> by auto
qed

text \<open>The specification: always take from the chain with most left, the first of them.\<close>

abbreviation longest :: "'a list list \<Rightarrow> nat" where
  "longest cs \<equiv> argmax (map (\<lambda>c. int (length c)) cs)"

lemma longest_nonempty:
  assumes "concat cs \<noteq> []"
  shows "longest cs < length cs \<and> cs ! longest cs \<noteq> []"
proof -
  obtain c where c: "c \<in> set cs" "c \<noteq> []" using assms by auto
  let ?l = "map (\<lambda>c. int (length c)) cs"
  have ne: "?l \<noteq> []" using c by auto
  have "int (length c) \<le> Max (set ?l)" using c by (intro Max_ge) auto
  moreover have "0 < length c" using c by simp
  ultimately have "0 < Max (set ?l)" by linarith
  with argmax_first [OF ne] have "0 < ?l ! longest cs" "longest cs < length cs" by auto
  then show ?thesis by simp
qed

lemma concat_tl_length:
  "i < length cs \<Longrightarrow> cs ! i \<noteq> [] \<Longrightarrow> length (concat (cs[i := tl (cs ! i)])) < length (concat cs)"
  by (subst (3) id_take_nth_drop [of i cs]) (simp_all add: upd_conv_take_nth_drop)

function greedy :: "'a list list \<Rightarrow> 'a list" where
  "greedy cs =
     (if concat cs = [] then []
      else let i = longest cs in hd (cs ! i) # greedy (cs[i := tl (cs ! i)]))"
  by pat_completeness auto
termination
  by (relation "measure (\<lambda>cs. length (concat cs))")
    (use longest_nonempty concat_tl_length in \<open>simp, (metis in_measure)\<close>)

declare greedy.simps [simp del]

lemma mset_greedy: "mset (greedy cs) = mset (concat cs)"
proof (induction cs rule: greedy.induct)
  case (1 cs)
  show ?case
  proof (cases "concat cs = []")
    case True
    then show ?thesis by (simp add: greedy.simps)
  next
    case False
    define i where "i = longest cs"
    have i: "i < length cs" "cs ! i \<noteq> []" using longest_nonempty [OF False] by (auto simp: i_def)
    have "mset (concat cs) = add_mset (hd (cs ! i)) (mset (concat (cs[i := tl (cs ! i)])))"
      using i by (subst id_take_nth_drop [of i cs]) (simp_all add: upd_conv_take_nth_drop mset_concat
          flip: add_mset_add_single mset.simps(2))
    moreover have "mset (greedy (cs[i := tl (cs ! i)])) = mset (concat (cs[i := tl (cs ! i)]))"
      using "1.IH" [OF False i_def] .
    ultimately show ?thesis using False by (simp add: greedy.simps [of cs] Let_def i_def)
  qed
qed

lemma subseq_greedy: "j < length cs \<Longrightarrow> subseq (cs ! j) (greedy cs)"
proof (induction cs arbitrary: j rule: greedy.induct)
  case (1 cs)
  show ?case
  proof (cases "concat cs = []")
    case True
    then have "cs ! j = []" using "1.prems" by simp
    then show ?thesis by simp
  next
    case False
    define i where "i = longest cs"
    have i: "i < length cs" "cs ! i \<noteq> []" using longest_nonempty [OF False] by (auto simp: i_def)
    have IH: "subseq (cs[i := tl (cs ! i)] ! j) (greedy (cs[i := tl (cs ! i)]))"
      using "1.IH" [OF False i_def, of j] "1.prems" by simp
    have g: "greedy cs = hd (cs ! i) # greedy (cs[i := tl (cs ! i)])"
      using False by (simp add: greedy.simps [of cs] Let_def i_def)
    show ?thesis
    proof (cases "j = i")
      case True
      then have "cs ! j = hd (cs ! i) # tl (cs ! i)" using i by simp
      with IH g True i show ?thesis by (metis nth_list_update_eq subseq_Cons2)
    next
      case False
      with IH have "subseq (cs ! j) (greedy (cs[i := tl (cs ! i)]))" by simp
      then show ?thesis unfolding g by (rule list_emb_Cons)
    qed
  qed
qed

lemma greedy_step:
  "concat cs \<noteq> [] \<Longrightarrow> greedy cs = hd (cs ! longest cs) # greedy (cs[longest cs := tl (cs ! longest cs)])"
  by (subst greedy.simps) (simp only: if_False Let_def)

text \<open>The search of the code takes exactly that one path.\<close>

lemma fold_single:
  "i < n \<Longrightarrow> fold (\<lambda>j m. if P j \<and> j = i then F m else m) [0..<n] m = (if P i then F m else m)"
proof -
  assume "i < n"
  have no: "fold (\<lambda>j m. if P j \<and> j = i then F m else m) js m = m" if "i \<notin> set js" for js m
    using that by (induction js arbitrary: m) auto
  have "[0..<n] = [0..<i] @ i # [Suc i..<n]"
    using \<open>i < n\<close> upt_add_eq_append [of 0 i "n - i"] by (simp add: upt_conv_Cons)
  then show ?thesis by (simp add: no)
qed

abbreviation left :: "'a list list \<Rightarrow> nat list \<Rightarrow> 'a list list" where
  "left chs pt \<equiv> map2 drop pt chs"

lemma left_lengths:
  assumes "length pt = length chs" "list_all2 (\<lambda>p c. p \<le> length c) pt chs"
  shows "sumlist pt + length (concat (left chs pt)) = sumlist (map length chs)"
  using assms by (induction pt chs rule: list_induct2) auto

lemma merge_dfs_greedy:
  assumes "length pt = length chs" "list_all2 (\<lambda>p c. p \<le> length c) pt chs"
  shows "merge_dfs chs (sumlist (map length chs)) pt stack merged =
    merged @ [stack @ greedy (left chs pt)]"
  using assms
proof (induction "length (concat (left chs pt))" arbitrary: pt stack merged rule: less_induct)
  case less
  define sz where "sz = sumlist (map length chs)"
  note sum = left_lengths [OF less.prems, folded sz_def]
  show ?case
  proof (cases "concat (left chs pt) = []")
    case True
    then have "sumlist pt = sz" using sum by (simp only: list.size add_0_right)
    with True show ?thesis by (simp add: merge_dfs.simps [of chs] greedy.simps sz_def)
  next
    case False
    define i where "i = longest (left chs pt)"
    define pt' where "pt' = pt[i := pt ! i + 1]"
    have i: "i < length chs" "left chs pt ! i \<noteq> []"
      using longest_nonempty [OF False] less.prems(1) by (auto simp: i_def)
    then have lt: "pt ! i < length (chs ! i)" using less.prems(1) by simp
    have upd: "left chs pt' = (left chs pt)[i := tl (left chs pt ! i)]"
      using i less.prems(1) by (rule_tac nth_equalityI) (auto simp: pt'_def nth_list_update drop_Suc tl_drop)
    have hd: "hd (left chs pt ! i) = chs ! i ! (pt ! i)"
      using i lt less.prems(1) by (simp add: hd_drop_conv_nth)
    have ok: "list_all2 (\<lambda>p c. p \<le> length c) pt' chs" "length pt' = length chs"
      using less.prems lt i(1) by (auto simp: pt'_def list_all2_conv_all_nth nth_list_update)
    have "0 < length (concat (left chs pt))" using False by (simp only: length_greater_0_conv simp_thms)
    then have "sumlist pt \<noteq> sz" using sum by linarith
    moreover have am: "argmax (map (\<lambda>x. int (length (chs ! x)) - int (pt ! x)) [0..<length chs]) = i"
    proof -
      have "map (\<lambda>x. int (length (chs ! x)) - int (pt ! x)) [0..<length chs] =
          map (\<lambda>c. int (length c)) (left chs pt)"
        using less.prems by (intro nth_equalityI) (auto simp: list_all2_conv_all_nth of_nat_diff)
      then show ?thesis by (simp add: i_def)
    qed
    ultimately have "merge_dfs chs sz pt stack merged =
        fold (\<lambda>j m. if (j < length pt \<and> pt ! j < length (chs ! j)) \<and> j = i
                   then merge_dfs chs sz (pt[i := pt ! i + 1]) (stack @ [chs ! i ! (pt ! i)]) m else m)
          [0..<length chs] merged"
      by (subst merge_dfs.simps) (simp only: if_False, intro fold_cong, auto)
    also have "\<dots> = merge_dfs chs sz pt' (stack @ [chs ! i ! (pt ! i)]) merged"
      using i lt less.prems(1) by (subst fold_single) (auto simp: pt'_def)
    also have "\<dots> = merged @ [(stack @ [chs ! i ! (pt ! i)]) @ greedy (left chs pt')]"
      unfolding sz_def
      by (rule less.hyps) (use concat_tl_length [of i "left chs pt"] i less.prems ok upd in auto)
    also have "\<dots> = merged @ [stack @ greedy (left chs pt)]"
      unfolding greedy_step [OF False] hd [unfolded i_def, symmetric] upd [unfolded i_def] i_def by simp
    finally show ?thesis by (simp add: sz_def)
  qed
qed

lemma left_zeros: "left chs (replicate (length chs) 0) = chs"
  by (induction chs) auto

lemma merge_chain_greedy: "merge_chain chs = [greedy chs]"
proof -
  have "list_all2 (\<lambda>p c. p \<le> length c) (replicate (length chs) 0) chs"
    by (simp add: list_all2_conv_all_nth)
  then show ?thesis by (simp add: merge_chain_def merge_dfs_greedy left_zeros)
qed

section \<open>Properties of reordering\<close>

text \<open>
  Merging chains never branches: whatever the chains are, there is exactly one result. It
  consists of all their elements, keeps the order within every chain, and starts with the head
  of the longest chain, the first such.
\<close>

lemma merge_chain_single:
  "\<exists>m. merge_chain chs = [m] \<and> mset m = mset (concat chs) \<and> (\<forall>c\<in>set chs. subseq c m) \<and>
     (concat chs \<noteq> [] \<longrightarrow> hd m = hd (chs ! argmax (map (\<lambda>c. int (length c)) chs)))"
proof -
  have "subseq c (greedy chs)" if "c \<in> set chs" for c
    using that subseq_greedy by (metis in_set_conv_nth)
  moreover have "hd (greedy chs) = hd (chs ! longest chs)" if "concat chs \<noteq> []"
    using that by (subst greedy.simps) (simp only: if_False Let_def list.sel)
  ultimately show ?thesis by (simp add: merge_chain_greedy mset_greedy)
qed

lemma mapR_py_get_mset:
  "mset perm = mset (map int [0..<length axes]) \<Longrightarrow>
     mapR (py_get axes) perm = Inr (map (\<lambda>i. axes ! nat i) perm) \<and>
     mset (map (\<lambda>i. axes ! nat i) perm) = mset axes"
proof
  assume m: "mset perm = mset (map int [0..<length axes])"
  then have s: "set perm = int ` {0..<length axes}" by (metis set_mset_mset set_map set_upt)
  show "mapR (py_get axes) perm = Inr (map (\<lambda>i. axes ! nat i) perm)"
    by (rule mapR_total) (use s in \<open>auto simp: py_get_def\<close>)
  have "mset (map (\<lambda>i. axes ! nat i) perm) = image_mset (\<lambda>i. axes ! nat i) (mset (map int [0..<length axes]))"
    using m by simp
  also have "\<dots> = mset (map (\<lambda>i. axes ! i) [0..<length axes])"
    by (simp add: multiset.map_comp o_def)
  also have "\<dots> = mset axes" by (simp only: map_nth)
  finally show "mset (map (\<lambda>i. axes ! nat i) perm) = mset axes" .
qed

lemma apply_reorder_perm:
  assumes "mset perm = mset (map int [0..<length axes])"
  shows "\<exists>order. apply_reorder perm axes = Inr order \<and> mset order = mset axes"
proof -
  have "length axes = length perm" using mset_eq_length [OF assms] by simp
  with mapR_py_get_mset [OF assms] show ?thesis by (simp add: apply_reorder_def)
qed

text \<open>
  The policy \<open>all\<close> enumerates every permutation of the axes exactly once, and applying any of
  its entities to that many axes returns, and calls the schedule's \<open>reorder\<close> on, a
  rearrangement of them.
\<close>

lemma reorder_all:
  "\<exists>ps. reorder_space axes ''all'' kw = Inr ps \<and> distinct ps \<and>
     set ps = {p. mset p = mset (map int [0..<length axes])} \<and>
     (\<forall>p\<in>set ps. \<exists>order. apply_reorder p axes = Inr order \<and> mset order = mset axes)"
proof -
  let ?r = "map int [0..<length axes]"
  have d: "distinct ?r" by (simp add: distinct_map inj_on_def)
  have "reorder_space axes ''all'' kw = Inr (perms ?r)" by (simp add: reorder_space_def py_range_1)
  with d show ?thesis using apply_reorder_perm by (auto simp: set_perms distinct_perms)
qed

lemma axes_index_chains:
  assumes "distinct axes" "mset (concat chs) \<subseteq># mset axes"
  shows "\<exists>ixs. mapR (axes_index axes) chs = Inr ixs \<and> map length ixs = map length chs \<and>
    mset (map (\<lambda>i. axes ! nat i) (concat ixs)) = mset (concat chs) \<and> set (concat ixs) \<subseteq> int ` {0..<length axes}"
proof -
  define ix where "ix x = int (THE i. i < length axes \<and> axes ! i = x)" for x
  have ix: "map_sum id int (py_index x axes) = Inr (ix x) \<and> axes ! nat (ix x) = x \<and> ix x \<in> int ` {0..<length axes}"
    if x: "x \<in> set axes" for x
  proof -
    obtain i where i: "py_index x axes = Inr i" using x by (cases "py_index x axes") (auto simp: py_index_Inl)
    then have "i < length axes" "axes ! i = x" by (auto simp: py_index_Inr)
    moreover from this have "(THE i. i < length axes \<and> axes ! i = x) = i"
      using assms(1) by (auto simp: nth_eq_iff_index_eq)
    ultimately show ?thesis using i by (simp add: ix_def)
  qed
  have sub: "set (concat chs) \<subseteq> set axes" using assms(2) by (metis mset_subset_eqD set_mset_mset subsetI)
  have "mapR (axes_index axes) chs = Inr (map (map ix) chs)"
  proof (rule mapR_total)
    fix c assume "c \<in> set chs"
    with sub show "axes_index axes c = Inr (map ix c)"
      unfolding axes_index_def by (intro mapR_total) (use ix in auto)
  qed
  moreover have "map (\<lambda>i. axes ! nat i) (concat (map (map ix) chs)) = concat chs"
    using sub ix by (simp add: map_concat o_def) (intro arg_cong [where f = concat] map_idI, auto intro: map_idI)
  moreover have "set (concat (map (map ix) chs)) \<subseteq> int ` {0..<length axes}" using sub ix by auto
  ultimately show ?thesis by (intro exI [of _ "map (map ix) chs"]) (simp add: o_def)
qed

lemma butlast_last_slice: "mset (butlast x) + mset (last_slice x) = mset x"
  by (cases x rule: rev_cases) (simp_all add: last_slice_def)

lemma mset_butlasts:
  "mset (concat (map butlast chs)) + mset (concat (map last_slice chs)) = mset (concat chs)"
proof (induction chs)
  case (Cons c chs)
  have "mset (concat (map butlast (c # chs))) + mset (concat (map last_slice (c # chs))) =
      (mset (butlast c) + mset (last_slice c)) +
      (mset (concat (map butlast chs)) + mset (concat (map last_slice chs)))"
    by (simp add: ac_simps)
  also have "\<dots> = mset (concat (c # chs))" by (simp only: Cons butlast_last_slice) simp
  finally show ?case .
qed simp

lemma index_perm:
  assumes "distinct axes" "mset (map (\<lambda>i. axes ! nat i) L) = mset axes" "set L \<subseteq> int ` {0..<length axes}"
  shows "mset L = mset (map int [0..<length axes])"
proof -
  have "distinct (map (\<lambda>i. axes ! nat i) L)" using assms(1) mset_eq_imp_distinct_iff [OF assms(2)] by simp
  then have d: "distinct L" by (rule distinct_map [THEN iffD1, THEN conjunct1])
  have "card (set L) = card (int ` {0..<length axes})"
    using d mset_eq_length [OF assms(2)] by (simp add: distinct_card card_image)
  then have "set L = set (map int [0..<length axes])"
    using card_subset_eq [OF _ assms(3)] by simp
  with d show ?thesis by (subst (asm) set_eq_iff_mset_eq_distinct) (simp_all add: distinct_map inj_on_def)
qed

lemma chains_indexed:
  assumes "distinct axes" "mset (concat spatial) + mset (concat reduce) = mset axes"
  obtains sp rd where "mapR (axes_index axes) spatial = Inr sp" "mapR (axes_index axes) reduce = Inr rd"
    "map length sp = map length spatial"
    "mset (concat sp) + mset (concat rd) = mset (map int [0..<length axes])"
proof -
  have "mset (concat (spatial @ reduce)) = mset axes" using assms(2) by simp
  with axes_index_chains [OF assms(1), of "spatial @ reduce"] obtain ixs where ixs:
    "mapR (axes_index axes) (spatial @ reduce) = Inr ixs" "map length ixs = map length (spatial @ reduce)"
    "mset (map (\<lambda>i. axes ! nat i) (concat ixs)) = mset axes" "set (concat ixs) \<subseteq> int ` {0..<length axes}"
    by auto
  from ixs(1) obtain sp rd where i: "mapR (axes_index axes) spatial = Inr sp"
    "mapR (axes_index axes) reduce = Inr rd" "ixs = sp @ rd"
    by (auto simp: mapR_append bindR_Inr_iff)
  moreover have "map length sp = map length spatial"
    using ixs(2) i mapR_length [OF i(1)] by simp
  moreover have "mset (concat sp) + mset (concat rd) = mset (map int [0..<length axes])"
    using index_perm [OF assms(1) ixs(3,4)] i(3) by simp
  ultimately show thesis using that by blast
qed

text \<open>
  C25. When the spatial and reduction chains together name every axis once, the interleaving
  policies give exactly one entity, and it is a permutation of all the axes, so that applying it
  loses none; for \<open>interleave_cuda\<close> the innermost axes are the last ones of the spatial chains,
  which must not be empty (an empty one raises \<open>IndexError\<close>).
\<close>

theorem interleave_permutes:
  assumes "distinct axes" and "rk_spatial kw = Some spatial" "rk_reduce kw = Some reduce"
    and "mset (concat spatial) + mset (concat reduce) = mset axes"
  shows "(\<exists>p. reorder_space axes ''interleave'' kw = Inr [p] \<and>
      mset p = mset (map int [0..<length axes]) \<and>
      (\<exists>order. apply_reorder p axes = Inr order \<and> mset order = mset axes)) \<and>
    (if [] \<in> set spatial then reorder_space axes ''interleave_cuda'' kw = Inl IndexError
     else (\<exists>p. reorder_space axes ''interleave_cuda'' kw = Inr [p] \<and>
      mset p = mset (map int [0..<length axes]) \<and>
      (\<exists>order. apply_reorder p axes = Inr order \<and> mset order = mset axes)))"
proof -
  obtain sp rd where i: "mapR (axes_index axes) spatial = Inr sp" "mapR (axes_index axes) reduce = Inr rd"
    and l: "map length sp = map length spatial"
    and m: "mset (concat sp) + mset (concat rd) = mset (map int [0..<length axes])"
    using chains_indexed [OF assms(1,4)] by metis
  have em: "[] \<in> set sp \<longleftrightarrow> [] \<in> set spatial"
    using arg_cong [OF l, of "\<lambda>ls. 0 \<in> set ls"] by force
  have "reorder_space axes ''interleave'' kw =
      Inr [greedy (map butlast sp) @ greedy (map last_slice sp @ rd)]"
    using assms(2,3) i by (simp add: reorder_space_def kwarg_def Let_def merge_chain_greedy)
  moreover have "mset (greedy (map butlast sp) @ greedy (map last_slice sp @ rd)) = mset (map int [0..<length axes])"
    using m mset_butlasts [of sp] by (simp add: mset_greedy) (metis add.assoc)
  ultimately have A: "\<exists>p. reorder_space axes ''interleave'' kw = Inr [p] \<and>
      mset p = mset (map int [0..<length axes]) \<and>
      (\<exists>order. apply_reorder p axes = Inr order \<and> mset order = mset axes)"
    using apply_reorder_perm by blast
  have cuda: "reorder_space axes ''interleave_cuda'' kw =
      bindR (mapR (\<lambda>x. py_get x (- 1)) sp) (\<lambda>inner. Inr [greedy (map butlast sp) @ greedy rd @ inner])"
    using assms(2,3) i by (simp add: reorder_space_def kwarg_def Let_def merge_chain_greedy)
  show ?thesis
  proof (cases "[] \<in> set spatial")
    case True
    have "mapR (\<lambda>x. py_get x (- 1)) xs = Inl IndexError" if "[] \<in> set xs" for xs :: "int list list"
      using that by (induction xs) (auto simp: py_get_def)
    with True em A cuda show ?thesis by simp
  next
    case False
    then have "mapR (\<lambda>x. py_get x (- 1)) sp = Inr (map last sp)"
      by (intro mapR_total) (use em in \<open>auto simp: py_get_def last_conv_nth Suc_le_eq\<close>)
    moreover have "concat (map last_slice sp) = map last sp"
      using False em by (induction sp) (auto simp: last_slice_def)
    with mset_butlasts [of sp] m
    have "mset (greedy (map butlast sp) @ greedy rd @ map last sp) = mset (map int [0..<length axes])"
      by (simp add: mset_greedy ac_simps)
    ultimately show ?thesis using A False cuda apply_reorder_perm
      by (simp only: bindR_simps if_False sum.inject list.inject simp_thms ex_simps) blast
  qed
qed

lemma interleave_permutes_witness:
  "let kw = \<lparr>rk_interval = None, rk_candidate = None, rk_spatial = Some [''ab'', ''cd''],
             rk_reduce = Some [''r'']\<rparr> in
   \<exists>p. reorder_space ''abcdr'' ''interleave'' kw = Inr [p] \<and> mset p = mset [0, 1, 2, 3, 4]"
  using interleave_permutes [of "''abcdr''" "\<lparr>rk_interval = None, rk_candidate = None,
      rk_spatial = Some [''ab'', ''cd''], rk_reduce = Some [''r'']\<rparr>" "[''ab'', ''cd'']" "[''r'']"]
  by (auto simp: Let_def upt_rec)

section \<open>Properties of annotations\<close>

lemma foldR_annotate_leaf:
  "foldR annotate_leaf ts entities =
    Inr (entities @ map (map AStr) (filter (\<lambda>t. count_list t ''vec'' \<le> 1) ts))"
proof (induction ts arbitrary: entities)
  case (Cons t ts)
  have "annotate_leaf t entities =
      Inr (if count_list t ''vec'' \<le> 1 then entities @ [map AStr t] else entities)"
    by (auto simp: annotate_leaf_def)
  with Cons show ?case by simp
qed simp

lemma generate_annotate_eq:
  "generate_annotate anns n =
    Inr (map (map AStr) (filter (\<lambda>t. count_list t ''vec'' \<le> 1) (product_lists (replicate n anns))))"
  by (simp add: generate_annotate_def dfs_fill_0 foldR_annotate_leaf)

text \<open>
  The policies with a name of their own. Every other policy is a list of words with \<open>_\<close> between.
\<close>

abbreviation named_policy :: "string \<Rightarrow> bool" where
  "named_policy policy \<equiv> policy \<in> {''bind_gpu'', ''bind_gpu_virtual'', ''locate_cache''}"

definition words :: "string \<Rightarrow> string list" where
  "words policy = split_on (CHR ''_'') (replace_try policy)"

lemma annotate_words:
  assumes "\<not> named_policy policy"
  shows "annotate_space axes policy num_anchor =
    (if set (words policy) \<subseteq> {''none'', ''unroll'', ''vec''}
     then Inr (map (map AStr) (filter (\<lambda>t. count_list t ''vec'' \<le> 1)
            (product_lists (replicate (length axes) (words policy)))))
     else Inl RuntimeError)"
proof -
  have "annotate_space axes policy num_anchor =
      bindR (guardR (list_all (\<lambda>a. a \<in> {''none'', ''unroll'', ''vec''}) (words policy)) RuntimeError)
        (\<lambda>_. generate_annotate (words policy) (length axes))"
    using assms by (simp add: annotate_space_def words_def Let_def)
  moreover have "list_all (\<lambda>a. a \<in> {''none'', ''unroll'', ''vec''}) (words policy) \<longleftrightarrow>
      set (words policy) \<subseteq> {''none'', ''unroll'', ''vec''}"
    by (simp only: list_all_iff subset_iff Ball_def)
  ultimately show ?thesis by (simp only: generate_annotate_eq guardR_def) simp
qed

text \<open>An annotation that asks for too much, at a position.\<close>

definition violates :: "int list \<Rightarrow> int option \<Rightarrow> int list option \<Rightarrow> nat \<Rightarrow> string \<Rightarrow> bool" where
  "violates lens max_unroll vec_size i w \<longleftrightarrow>
     w = ''unroll'' \<and> (\<exists>m. max_unroll = Some m \<and> m \<noteq> 0 \<and> lens ! i > m) \<or>
     w = ''vec'' \<and> (\<exists>vs. vec_size = Some vs \<and> vs \<noteq> [] \<and> lens ! i \<notin> set vs)"

lemma annotate_step_word:
  assumes "w \<in> {''none'', ''unroll'', ''vec''}" "i < length (as_axes st)" "length lens = length (as_axes st)"
    and "as_errors st = Some es"
  shows "\<exists>st' es'. annotate_step fuse (Some lens) max_unroll vec_size (i, AStr w) st = Inr st' \<and>
    as_axes st' = as_axes st \<and> as_errors st' = Some (es @ es') \<and>
    (es' = [] \<longleftrightarrow> \<not> violates lens max_unroll vec_size i w)"
proof -
  have l: "py_get lens (int i) = Inr (lens ! i)" "py_get (as_axes st) (int i) = Inr (as_axes st ! i)"
    using assms(2,3) by auto
  from assms(1) consider "w = ''none''" | "w = ''unroll''" | "w = ''vec''" by auto
  then show ?thesis
  proof cases
    case 1
    then show ?thesis using assms(4) by (simp add: annotate_step_def violates_def)
  next
    case 2
    then show ?thesis using assms(4) l
      by (cases max_unroll) (auto simp: annotate_step_def violates_def axis_len_def record_error_def call_on_def)
  next
    case 3
    then show ?thesis using assms(4) l
      by (cases vec_size) (auto simp: annotate_step_def violates_def axis_len_def record_error_def call_on_def)
  qed
qed

lemma annotate_fold_words:
  assumes "set t \<subseteq> {''none'', ''unroll'', ''vec''}" "k + length t \<le> length (as_axes st)"
    and "length lens = length (as_axes st)" "as_errors st = Some es"
  shows "\<exists>st' es'. foldR (annotate_step fuse (Some lens) max_unroll vec_size)
      (zip [k..<k + length t] (map AStr t)) st = Inr st' \<and>
    as_axes st' = as_axes st \<and> as_errors st' = Some (es @ es') \<and>
    (es' = [] \<longleftrightarrow> (\<forall>i<length t. \<not> violates lens max_unroll vec_size (k + i) (t ! i)))"
  using assms
proof (induction t arbitrary: k st es)
  case Nil
  then show ?case by simp
next
  case (Cons w t)
  obtain st1 es1 where s1: "annotate_step fuse (Some lens) max_unroll vec_size (k, AStr w) st = Inr st1"
    "as_axes st1 = as_axes st" "as_errors st1 = Some (es @ es1)"
    "es1 = [] \<longleftrightarrow> \<not> violates lens max_unroll vec_size k w"
    using annotate_step_word [of w k st lens es fuse max_unroll vec_size] Cons.prems by auto
  obtain st2 es2 where s2: "foldR (annotate_step fuse (Some lens) max_unroll vec_size)
      (zip [Suc k..<Suc k + length t] (map AStr t)) st1 = Inr st2"
    "as_axes st2 = as_axes st1" "as_errors st2 = Some ((es @ es1) @ es2)"
    "es2 = [] \<longleftrightarrow> (\<forall>i<length t. \<not> violates lens max_unroll vec_size (Suc k + i) (t ! i))"
    using Cons.IH [of "Suc k" st1 "es @ es1"] Cons.prems s1 by auto
  have z: "zip [k..<k + length (w # t)] (map AStr (w # t)) =
      (k, AStr w) # zip [Suc k..<Suc k + length t] (map AStr t)"
    by (simp add: upt_conv_Cons del: upt_Suc)
  have "(\<forall>i<length (w # t). \<not> violates lens max_unroll vec_size (k + i) ((w # t) ! i)) \<longleftrightarrow>
      es1 = [] \<and> es2 = []"
    unfolding s1(4) s2(4) by (auto simp: less_Suc_eq_0_disj)
  with s1 s2 show ?case unfolding z by (intro exI [of _ st2] exI [of _ "es1 @ es2"]) auto
qed

text \<open>
  A policy that lists the words \<open>none\<close> (or \<open>try\<close>), \<open>unroll\<close> and \<open>vec\<close> yields every choice of
  a word per axis with at most one \<open>vec\<close>, and a policy with another word raises. Applying such an
  entity always returns with the axes as they were, and an error is registered in the
  configuration exactly when an axis is longer than the allowed unrolling, or its length is no
  allowed vector size.
\<close>

lemma annotate_words_apply:
  assumes "\<not> named_policy policy"
  shows "if set (words policy) \<subseteq> {''none'', ''unroll'', ''vec''}
    then \<exists>es. annotate_space axes policy num_anchor = Inr es \<and>
      set es = map AStr ` {t. length t = length axes \<and> set t \<subseteq> set (words policy) \<and> count_list t ''vec'' \<le> 1} \<and>
      (\<forall>t lens st errs. map AStr t \<in> set es \<and> length lens = length axes \<and> as_axes st = axes \<and>
         as_errors st = Some errs \<longrightarrow>
         (\<exists>st' errs'. apply_annotate fuse (Some lens) max_unroll vec_size None (map AStr t) st = Inr st' \<and>
            as_axes st' = axes \<and> as_errors st' = Some (errs @ errs') \<and>
            (errs' = [] \<longleftrightarrow> (\<forall>i<length t. \<not> violates lens max_unroll vec_size i (t ! i)))))
    else annotate_space axes policy num_anchor = Inl RuntimeError"
proof (cases "set (words policy) \<subseteq> {''none'', ''unroll'', ''vec''}")
  case True
  define es where "es = map (map AStr) (filter (\<lambda>t. count_list t ''vec'' \<le> 1)
    (product_lists (replicate (length axes) (words policy))))"
  have in_prod: "t \<in> set (product_lists (replicate m ws)) \<longleftrightarrow> length t = m \<and> set t \<subseteq> set ws"
    for t :: "string list" and m ws
  proof (induction m arbitrary: t)
    case (Suc m)
    then show ?case by (cases t) auto
  qed auto
  have inj: "map AStr t = map AStr u \<Longrightarrow> t = u" for t u by (simp add: inj_on_def inj_map_eq_map)
  have S: "set es = map AStr ` {t. length t = length axes \<and> set t \<subseteq> set (words policy) \<and> count_list t ''vec'' \<le> 1}"
    by (auto simp: es_def in_prod)
  have app: "\<exists>st' errs'. apply_annotate fuse (Some lens) max_unroll vec_size None (map AStr t) st = Inr st' \<and>
      as_axes st' = axes \<and> as_errors st' = Some (errs @ errs') \<and>
      (errs' = [] \<longleftrightarrow> (\<forall>i<length t. \<not> violates lens max_unroll vec_size i (t ! i)))"
    if "map AStr t \<in> set es" "length lens = length axes" "as_axes st = axes" "as_errors st = Some errs"
    for t lens st errs
  proof -
    have "length t = length axes" "set t \<subseteq> {''none'', ''unroll'', ''vec''}"
      using that(1) inj True unfolding S by blast+
    with annotate_fold_words [of t 0 st lens errs fuse max_unroll vec_size] that(2-)
    show ?thesis by (simp add: apply_annotate_def)
  qed
  have "annotate_space axes policy num_anchor = Inr es"
    using annotate_words [OF assms] True by (simp add: es_def)
  with True show ?thesis
    by (simp only: if_True) (intro exI [of _ es] conjI allI impI S, simp, elim conjE, rule app)
next
  case False
  with annotate_words [OF assms] show ?thesis by simp
qed

lemma annotate_fold_fuse:
  assumes "k + m < length (as_axes st)"
  shows "\<exists>st' fs. foldR (annotate_step fuse lens max_unroll vec_size)
      (zip [k..<k + m] (replicate m (AStr ''fuse''))) st = Inr st' \<and>
    length (as_axes st') = length (as_axes st) \<and> as_calls st' = as_calls st @ fs \<and>
    length fs = m \<and> (\<forall>c\<in>set fs. \<exists>a b. c = Fuse a b) \<and> as_errors st' = as_errors st"
  using assms
proof (induction m arbitrary: k st)
  case 0
  then show ?case by simp
next
  case (Suc m)
  define a b where "a = as_axes st ! k" and "b = as_axes st ! Suc k"
  define st1 where "st1 = st\<lparr>as_axes := (as_axes st)[Suc k := fuse a b], as_calls := as_calls st @ [Fuse a b]\<rparr>"
  have s: "annotate_step fuse lens max_unroll vec_size (k, AStr ''fuse'') st = Inr st1"
    using Suc.prems by (simp add: annotate_step_def thread_tags_def st1_def a_def b_def Let_def)
  obtain st2 fs where i: "foldR (annotate_step fuse lens max_unroll vec_size)
      (zip [Suc k..<Suc k + m] (replicate m (AStr ''fuse''))) st1 = Inr st2"
    "length (as_axes st2) = length (as_axes st1)" "as_calls st2 = as_calls st1 @ fs"
    "length fs = m" "\<forall>c\<in>set fs. \<exists>a b. c = Fuse a b" "as_errors st2 = as_errors st1"
    using Suc.IH [of "Suc k" st1] Suc.prems by (auto simp: st1_def)
  have z: "zip [k..<k + Suc m] (replicate (Suc m) (AStr ''fuse'')) =
      (k, AStr ''fuse'') # zip [Suc k..<Suc k + m] (replicate m (AStr ''fuse''))"
    by (simp add: upt_conv_Cons del: upt_Suc)
  show ?case unfolding z using s i
    by (intro exI [of _ st2] exI [of _ "Fuse a b # fs"]) (auto simp: st1_def)
qed

lemma annotate_fold_bind:
  assumes "set tags \<subseteq> set thread_tags" "k + length tags \<le> length (as_axes st)"
  shows "foldR (annotate_step fuse lens max_unroll vec_size) (zip [k..<k + length tags] (map AStr tags)) st =
    Inr (st\<lparr>as_calls := as_calls st @ map2 Bind (drop k (as_axes st)) tags\<rparr>)"
  using assms
proof (induction tags arbitrary: k st)
  case Nil
  then show ?case by simp
next
  case (Cons w tags)
  have "w \<noteq> ''none''" "w \<noteq> ''unroll''" "w \<noteq> ''vec''" "w \<in> set thread_tags"
    using Cons.prems(1) by (auto simp: thread_tags_def)
  then have s: "annotate_step fuse lens max_unroll vec_size (k, AStr w) st =
      Inr (st\<lparr>as_calls := as_calls st @ [Bind (as_axes st ! k) w]\<rparr>)"
    using Cons.prems(2) by (simp add: annotate_step_def call_on_def)
  have z: "zip [k..<k + length (w # tags)] (map AStr (w # tags)) =
      (k, AStr w) # zip [Suc k..<Suc k + length tags] (map AStr tags)"
    by (simp add: upt_conv_Cons del: upt_Suc)
  have "drop k (as_axes st) = as_axes st ! k # drop (Suc k) (as_axes st)"
    using Cons.prems(2) by (simp add: Cons_nth_drop_Suc)
  then show ?case unfolding z using s Cons.IH [of "Suc k" "st\<lparr>as_calls := as_calls st @ [Bind (as_axes st ! k) w]\<rparr>"] Cons.prems
    by simp
qed

lemma apply_fuse_bind:
  assumes "as_axes st = axes" "length axes = m + length tags" "tags \<noteq> []" "set tags \<subseteq> set thread_tags"
  shows "\<exists>st' fs. apply_annotate fuse lens max_unroll vec_size None
      (replicate m (AStr ''fuse'') @ map AStr tags) st = Inr st' \<and>
    as_calls st' = as_calls st @ fs @ map2 Bind (drop m (as_axes st')) tags \<and>
    length fs = m \<and> (\<forall>c\<in>set fs. \<exists>a b. c = Fuse a b) \<and> as_errors st' = as_errors st \<and>
    length (as_axes st') = length axes"
proof -
  obtain st1 fs where i: "foldR (annotate_step fuse lens max_unroll vec_size)
      (zip [0..<0 + m] (replicate m (AStr ''fuse''))) st = Inr st1"
    "length (as_axes st1) = length axes" "as_calls st1 = as_calls st @ fs"
    "length fs = m" "\<forall>c\<in>set fs. \<exists>a b. c = Fuse a b" "as_errors st1 = as_errors st"
    using annotate_fold_fuse [of 0 m st fuse lens max_unroll vec_size] assms by auto
  have "zip [0..<m + length tags] (replicate m (AStr ''fuse'') @ map AStr tags) =
      zip [0..<0 + m] (replicate m (AStr ''fuse'')) @ zip [m..<m + length tags] (map AStr tags)"
    by (simp only: upt_add_eq_append [OF le0, of m] zip_append length_upt length_replicate add_0 minus_nat.diff_0)
  moreover have "foldR (annotate_step fuse lens max_unroll vec_size) (zip [m..<m + length tags] (map AStr tags)) st1 =
      Inr (st1\<lparr>as_calls := as_calls st1 @ map2 Bind (drop m (as_axes st1)) tags\<rparr>)"
    by (rule annotate_fold_bind) (use assms i in auto)
  ultimately have "apply_annotate fuse lens max_unroll vec_size None
      (replicate m (AStr ''fuse'') @ map AStr tags) st =
      Inr (st1\<lparr>as_calls := as_calls st1 @ map2 Bind (drop m (as_axes st1)) tags\<rparr>)"
    using i(1) by (simp only: apply_annotate_def option.case length_append length_replicate length_map
        foldR_append bindR_simps)
  then show ?thesis using i(2-)
    by (intro exI [of _ "st1\<lparr>as_calls := as_calls st1 @ map2 Bind (drop m (as_axes st1)) tags\<rparr>"]
        exI [of _ fs] conjI) simp_all
qed

text \<open>
  Under the policy \<open>bind_gpu\<close>, two or more axes have exactly one annotation. Applying it fuses
  all but the last six, four or two axes (as many as there are) into the next ones, then binds
  these last axes, each to a thread tag of its own; it registers no error. With fewer than two
  axes the space raises.
\<close>

theorem bind_gpu_apply:
  fixes st :: "('a, 't) astate"
  assumes "as_axes st = axes"
  shows "if length axes < 2 then annotate_space axes ''bind_gpu'' num_anchor = Inl RuntimeError
    else \<exists>anns st' fs tags. annotate_space axes ''bind_gpu'' num_anchor = Inr [anns] \<and>
      apply_annotate fuse lens max_unroll vec_size None anns st = Inr st' \<and>
      as_calls st' = as_calls st @ fs @ map2 Bind (drop (length fs) (as_axes st')) tags \<and>
      (\<forall>c\<in>set fs. \<exists>a b. c = Fuse a b) \<and> distinct tags \<and> length fs + length tags = length axes \<and>
      length tags = (if length axes \<ge> 6 then 6 else if length axes \<ge> 4 then 4 else 2) \<and>
      set tags \<subseteq> set thread_tags \<and> as_errors st' = as_errors st"
proof (cases "length axes < 2")
  case True
  then show ?thesis by (simp add: annotate_space_def Let_def)
next
  case False
  define tags where "tags = (if length axes \<ge> 6 then [''blockIdx.z'', ''blockIdx.y'', ''blockIdx.x'',
      ''threadIdx.z'', ''threadIdx.y'', ''threadIdx.x'']
    else if length axes \<ge> 4 then [''blockIdx.y'', ''blockIdx.x'', ''threadIdx.y'', ''threadIdx.x'']
    else [''blockIdx.x'', ''threadIdx.x''])"
  have t: "length tags = (if length axes \<ge> 6 then 6 else if length axes \<ge> 4 then 4 else 2)"
    "distinct tags" "tags \<noteq> []" "set tags \<subseteq> set thread_tags"
    by (simp_all add: tags_def thread_tags_def)
  have sp: "annotate_space axes ''bind_gpu'' num_anchor =
      Inr [replicate (length axes - length tags) (AStr ''fuse'') @ map AStr tags]"
    using False by (simp add: annotate_space_def Let_def tags_def eval_nat_numeral)
  have l: "length axes = (length axes - length tags) + length tags" using False t(1) by simp
  from apply_fuse_bind [OF assms l t(3,4), of fuse lens max_unroll vec_size] obtain st' fs where
    "apply_annotate fuse lens max_unroll vec_size None
      (replicate (length axes - length tags) (AStr ''fuse'') @ map AStr tags) st = Inr st'"
    "as_calls st' = as_calls st @ fs @ map2 Bind (drop (length axes - length tags) (as_axes st')) tags"
    "length fs = length axes - length tags" "\<forall>c\<in>set fs. \<exists>a b. c = Fuse a b" "as_errors st' = as_errors st"
    by blast
  with sp t l show ?thesis unfolding if_not_P [OF False] by (metis (no_types))
qed

lemma bind_gpu_apply_witness:
  "let st = \<lparr>as_axes = ''xyz'', as_calls = [] :: (char, unit) call list, as_errors = Some []\<rparr> in
   \<exists>anns st' fs tags. annotate_space ''xyz'' ''bind_gpu'' None = Inr [anns] \<and>
     apply_annotate (\<lambda>a b. b) None None None None anns st = Inr st' \<and>
     as_calls st' = fs @ map2 Bind (drop (length fs) (as_axes st')) tags \<and> length tags = 2"
  using bind_gpu_apply [of "\<lparr>as_axes = ''xyz'', as_calls = [] :: (char, unit) call list, as_errors = Some []\<rparr>"
      "''xyz''" None "\<lambda>a b. b" None None None] by (auto simp: Let_def)

end
