(* ===== verification/Knobs.thy ===== *)
theory Knobs
  imports Prelude
begin

text \<open>
  Points and knobs: the two representations of a configuration that the tuners switch between,
  \<open>point2knob\<close> and \<open>knob2point\<close> of \<open>tvm/python/tvm/autotvm/tuner/model_based_tuner.py\<close>, with the
  interface the tuners rely on. The products of \<open>knob2point\<close> are NumPy's and wrap at 64 bits.
\<close>

section \<open>The interface of an index codec\<close>

text \<open>
  A finite space of \<open>size\<close> points, decoded into vectors and encoded back. The laws say that
  decoding returns on the whole range and that the two are inverse there.
\<close>

locale index_codec =
  fixes dec :: "int \<Rightarrow> 'k res"
    and enc :: "'k \<Rightarrow> int"
    and valid :: "'k \<Rightarrow> bool"
    and size :: int
  assumes dec_ok: "0 \<le> p \<Longrightarrow> p < size \<Longrightarrow> \<exists>k. dec p = Inr k \<and> valid k \<and> enc k = p"
    and enc_ok: "valid k \<Longrightarrow> 0 \<le> enc k \<and> enc k < size \<and> dec (enc k) = Inr k"
begin

lemma enc_inj: "valid k \<Longrightarrow> valid k' \<Longrightarrow> enc k = enc k' \<Longrightarrow> k = k'"
  by (metis enc_ok sum.inject(2))

lemma bij: "bij_betw enc {k. valid k} {0..<size}"
  unfolding bij_betw_def
proof
  show "inj_on enc {k. valid k}" by (auto intro: inj_onI enc_inj)
  show "enc ` {k. valid k} = {0..<size}"
  proof
    show "enc ` {k. valid k} \<subseteq> {0..<size}" using enc_ok by auto
    show "{0..<size} \<subseteq> enc ` {k. valid k}"
    proof
      fix p assume "p \<in> {0..<size}"
      then obtain k where "valid k" "enc k = p" using dec_ok [of p] by auto
      then show "p \<in> enc ` {k. valid k}" by auto
    qed
  qed
qed

lemma dec_valid: "0 \<le> p \<Longrightarrow> p < size \<Longrightarrow> dec p = Inr k \<Longrightarrow> valid k \<and> enc k = p"
  using dec_ok [of p] by auto

lemma card_valid: "card {k. valid k} = nat size"
  using bij_betw_same_card [OF bij] by simp

end

section \<open>The two conversions\<close>

text \<open>\<open>p % dim\<close> and \<open>p //= dim\<close> divide, so a dimension 0 raises.\<close>

fun point2knob :: "int \<Rightarrow> nat list \<Rightarrow> int list res" where
  "point2knob p [] = Inr []"
| "point2knob p (d # dims) =
     (if d = 0 then Inl ZeroDivisionError
      else bindR (point2knob (p div int d) dims) (\<lambda>knob. Inr (p mod int d # knob)))"

text \<open>\<open>np.prod\<close> of machine integers wraps at 64 bits.\<close>

definition int64 :: "int \<Rightarrow> int" where
  "int64 x = (x + 2 ^ 63) mod 2 ^ 64 - 2 ^ 63"

text \<open>
  \<open>for j, k in enumerate(knob): p += int(np.prod(dims[:j])) * k\<close>. The products wrap; their sum is
  one of Python's integers.
\<close>

definition knob2point :: "int list \<Rightarrow> nat list \<Rightarrow> int" where
  "knob2point knob dims =
     sumlist (map (\<lambda>(j, k). int64 (int (prodlist (take j dims))) * k) (zip [0..<length knob] knob))"

text \<open>The knobs of a space: one position per dimension, each below it.\<close>

definition knob_ok :: "nat list \<Rightarrow> int list \<Rightarrow> bool" where
  "knob_ok dims knob \<longleftrightarrow> list_all2 (\<lambda>d k. 0 \<le> k \<and> k < int d) dims knob"

section \<open>Lemmas\<close>

text \<open>\<open>knob2point\<close> without wrapping, and in Horner form, which is what inverts \<open>point2knob\<close>.\<close>

definition place_sum :: "int list \<Rightarrow> nat list \<Rightarrow> int" where
  "place_sum knob dims = sumlist (map (\<lambda>(j, k). int (prodlist (take j dims)) * k) (zip [0..<length knob] knob))"

fun horner :: "int list \<Rightarrow> nat list \<Rightarrow> int" where
  "horner (k # ks) (d # ds) = k + int d * horner ks ds"
| "horner _ _ = 0"

lemma int64_id: "0 \<le> x \<Longrightarrow> x < 2 ^ 63 \<Longrightarrow> int64 x = x"
  by (simp add: int64_def)

lemma sumlist_scale: "sumlist (map (\<lambda>x. (c :: int) * f x) xs) = c * sumlist (map f xs)"
  by (induction xs) (simp_all add: distrib_left)

lemma place_sum_Cons:
  "place_sum (k # ks) (d # ds) = k + int d * place_sum ks ds"
proof -
  have z: "zip [0..<length (k # ks)] (k # ks) = (0, k) # map (\<lambda>(j, x). (Suc j, x)) (zip [0..<length ks] ks)"
    by (simp add: upt_conv_Cons zip_map1 map_Suc_upt [symmetric] del: upt_Suc)
  have "place_sum (k # ks) (d # ds) =
      k + sumlist (map (\<lambda>(j, x). int d * (int (prodlist (take j ds)) * x)) (zip [0..<length ks] ks))"
    unfolding place_sum_def z by (simp add: case_prod_beta' o_def algebra_simps)
  also have "\<dots> = k + int d * place_sum ks ds"
    using sumlist_scale [of "int d" "\<lambda>p. int (prodlist (take (fst p) ds)) * snd p" "zip [0..<length ks] ks"]
    by (simp add: place_sum_def case_prod_beta')
  finally show ?thesis .
qed

lemma place_sum_Nil [simp]: "place_sum [] ds = 0"
  by (simp add: place_sum_def)

lemma place_sum_horner: "length ks = length ds \<Longrightarrow> place_sum ks ds = horner ks ds"
  by (induction ks ds rule: list_induct2) (simp_all add: place_sum_Cons)

lemma prodlist_take: "\<forall>d\<in>set ds. 0 < d \<Longrightarrow> prodlist (take j ds) \<le> prodlist (ds :: nat list)"
proof (induction ds arbitrary: j)
  case (Cons d ds)
  have "0 < prodlist ds" using Cons.prems by (induction ds) simp_all
  then show ?case using Cons by (cases j) auto
qed simp

text \<open>While the size of the space fits in 64 bits, no product wraps.\<close>

lemma knob2point_horner:
  assumes "knob_ok ds ks" "prodlist ds < 2 ^ 63"
  shows "knob2point ks ds = horner ks ds"
proof -
  have "\<forall>d\<in>set ds. 0 < d" using assms(1) by (fastforce simp: knob_ok_def list_all2_conv_all_nth in_set_conv_nth)
  then have "prodlist (take j ds) < 2 ^ 63" for j using prodlist_take [of ds j] assms(2) by simp
  then have "int (prodlist (take j ds)) < int (2 ^ 63)" for j by (simp only: of_nat_less_iff)
  then have "int64 (int (prodlist (take j ds))) = int (prodlist (take j ds))" for j by (intro int64_id) simp_all
  then have "knob2point ks ds = place_sum ks ds" by (simp add: knob2point_def place_sum_def)
  then show ?thesis using assms(1) by (simp add: place_sum_horner knob_ok_def list_all2_lengthD)
qed

lemma knob_ok_Cons: "knob_ok (d # ds) (k # ks) \<longleftrightarrow> 0 \<le> k \<and> k < int d \<and> knob_ok ds ks"
  by (simp add: knob_ok_def)

lemma knob_ok_length: "knob_ok ds ks \<Longrightarrow> length ks = length ds"
  by (simp add: knob_ok_def list_all2_lengthD)

lemma horner_bound: "knob_ok ds ks \<Longrightarrow> 0 \<le> horner ks ds \<and> horner ks ds < int (prodlist ds)"
proof (induction ds arbitrary: ks)
  case Nil
  then show ?case by (simp add: knob_ok_def)
next
  case (Cons d ds)
  then obtain k ks' where ks: "ks = k # ks'" "0 \<le> k" "k < int d" "knob_ok ds ks'"
    by (cases ks) (auto simp: knob_ok_def)
  with Cons.IH [of ks'] have h: "0 \<le> horner ks' ds" "horner ks' ds \<le> int (prodlist ds) - 1" by auto
  have "k + int d * horner ks' ds < int d * (1 + horner ks' ds)"
    using ks by (simp add: distrib_left)
  also have "\<dots> \<le> int d * int (prodlist ds)"
    using h by (intro mult_left_mono) auto
  finally show ?case using ks h by simp
qed

lemma point2knob_horner: "knob_ok ds ks \<Longrightarrow> point2knob (horner ks ds) ds = Inr ks"
proof (induction ds arbitrary: ks)
  case Nil
  then show ?case by (simp add: knob_ok_def)
next
  case (Cons d ds)
  then obtain k ks' where ks: "ks = k # ks'" "0 \<le> k" "k < int d" "knob_ok ds ks'"
    by (cases ks) (auto simp: knob_ok_def)
  then have "(k + int d * horner ks' ds) div int d = horner ks' ds"
    "(k + int d * horner ks' ds) mod int d = k" by simp_all
  with ks Cons.IH [OF ks(4)] show ?case by simp
qed

lemma point2knob_ok:
  "0 \<le> p \<Longrightarrow> p < int (prodlist ds) \<Longrightarrow> \<exists>ks. point2knob p ds = Inr ks \<and> knob_ok ds ks \<and> horner ks ds = p"
proof (induction ds arbitrary: p)
  case Nil
  then show ?case by (simp add: knob_ok_def)
next
  case (Cons d ds)
  then have d: "0 < d" by (cases d) auto
  have "p div int d < int (prodlist ds)"
  proof (rule ccontr)
    assume "\<not> ?thesis"
    then have "int d * int (prodlist ds) \<le> int d * (p div int d)" by (intro mult_left_mono) auto
    also have "\<dots> \<le> p" using d by (metis mult_div_mod_eq le_add_same_cancel1 pos_mod_sign of_nat_0_less_iff)
    finally show False using Cons.prems(2) by simp
  qed
  moreover have "0 \<le> p div int d" using Cons.prems d by (simp add: pos_imp_zdiv_nonneg_iff)
  ultimately obtain ks where "point2knob (p div int d) ds = Inr ks" "knob_ok ds ks"
    "horner ks ds = p div int d" using Cons.IH by blast
  with d show ?case by (auto simp: knob_ok_Cons)
qed

interpretation knob: index_codec "\<lambda>p. point2knob p dims" "\<lambda>k. knob2point k dims"
  "\<lambda>k. knob_ok dims k \<and> prodlist dims < 2 ^ 63" "if prodlist dims < 2 ^ 63 then int (prodlist dims) else 0" for dims
proof
  fix p assume p: "0 \<le> p" "p < (if prodlist dims < 2 ^ 63 then int (prodlist dims) else 0)"
  then have fits: "prodlist dims < 2 ^ 63" by (simp split: if_splits)
  then obtain ks where "point2knob p dims = Inr ks" "knob_ok dims ks" "horner ks dims = p"
    using point2knob_ok p by auto
  then show "\<exists>k. point2knob p dims = Inr k \<and> (knob_ok dims k \<and> prodlist dims < 2 ^ 63) \<and> knob2point k dims = p"
    using fits by (auto simp: knob2point_horner)
next
  fix k assume "knob_ok dims k \<and> prodlist dims < 2 ^ 63"
  then show "0 \<le> knob2point k dims \<and> knob2point k dims < (if prodlist dims < 2 ^ 63 then int (prodlist dims) else 0) \<and>
      point2knob (knob2point k dims) dims = Inr k"
    by (simp add: knob2point_horner horner_bound point2knob_horner)
qed

text \<open>The interface for a space whose size fits.\<close>

lemma knob_dec:
  "prodlist dims < 2 ^ 63 \<Longrightarrow> 0 \<le> p \<Longrightarrow> p < int (prodlist dims) \<Longrightarrow>
   \<exists>k. point2knob p dims = Inr k \<and> knob_ok dims k \<and> knob2point k dims = p"
  using knob.dec_ok [of p dims] by simp

lemma knob_enc:
  "prodlist dims < 2 ^ 63 \<Longrightarrow> knob_ok dims k \<Longrightarrow>
   0 \<le> knob2point k dims \<and> knob2point k dims < int (prodlist dims) \<and> point2knob (knob2point k dims) dims = Inr k"
  using knob.enc_ok [of dims k] by simp

lemma knob_bij:
  "prodlist dims < 2 ^ 63 \<Longrightarrow>
   bij_betw (\<lambda>k. knob2point k dims) {k. knob_ok dims k} {0..<int (prodlist dims)}"
  using knob.bij [of dims] by simp

section \<open>Properties\<close>

text \<open>
  C24. \<open>point2knob\<close> and \<open>knob2point\<close> are inverse while the size of the space, the product of its
  dimensions, fits in a signed 64-bit integer: every point below the size decodes to a knob vector
  within the dimensions that encodes back to it, and every such vector encodes to a point in range
  that decodes back to it. So they are a bijection.
\<close>

theorem point_knob_inverse:
  assumes "prodlist dims < 2 ^ 63"
  shows "(0 \<le> p \<and> p < int (prodlist dims) \<longrightarrow>
      (\<exists>k. point2knob p dims = Inr k \<and> knob_ok dims k \<and> knob2point k dims = p)) \<and>
   (knob_ok dims k \<longrightarrow> 0 \<le> knob2point k dims \<and> knob2point k dims < int (prodlist dims) \<and>
      point2knob (knob2point k dims) dims = Inr k) \<and>
   bij_betw (\<lambda>k. knob2point k dims) {k. knob_ok dims k} {0..<int (prodlist dims)}"
  using knob_dec [OF assms] knob_enc [OF assms] knob_bij [OF assms] by blast

lemma point_knob_inverse_witness:
  "point2knob 17 [4, 3, 2] = Inr [1, 1, 1] \<and> knob2point [1, 1, 1] [4, 3, 2] = 17 \<and>
   (\<exists>k. point2knob 17 [4, 3, 2] = Inr k \<and> knob_ok [4, 3, 2] k \<and> knob2point k [4, 3, 2] = 17) \<and>
   point2knob (knob2point [1, 1, 1] [4, 3, 2]) [4, 3, 2] = Inr [1, 1, 1]"
proof -
  have "knob_ok [4, 3, 2] [1, 1, 1]" by (simp add: knob_ok_def)
  with point_knob_inverse [of "[4, 3, 2]" 17 "[1, 1, 1]"] show ?thesis
    by (simp add: knob2point_def int64_def)
qed

text \<open>
  The bound is needed: beyond it the place of a knob may wrap to 0, and two configurations share a
  point.
\<close>

lemma point_knob_wraps:
  "let ds = [4294967296, 4294967296, 2] in
   knob_ok ds [0, 0, 0] \<and> knob_ok ds [0, 0, 1] \<and> knob2point [0, 0, 0] ds = knob2point [0, 0, 1] ds"
  by (simp add: Let_def knob_ok_def knob2point_def int64_def)

end
