(* ===== verification/ConfigSpace.thy ===== *)
theory ConfigSpace
  imports SplitSpace Transforms Knobs
begin

text \<open>
  Configuration spaces and their entities: the second half of
  \<open>tvm/python/tvm/autotvm/task/space.py\<close> (\<open>ConfigSpace\<close>, \<open>ConfigEntity\<close>,
  \<open>FallbackConfigEntity\<close>). Objects have identities where the code compares or shares them: a
  virtual axis is numbered by the class counter \<open>name_ct\<close>, a space by the order of creation, and
  the entity map may hold the very object that is the first entity of a space.
\<close>

declare map_of_eq_Some_iff [simp del]

section \<open>State\<close>

datatype 'v entity =
    SplitEntity "int list" | ReorderEntity "int list" | AnnotateEntity "ann list" | OtherOptionEntity 'v

datatype kind = KSplit | KReorder | KAnnotate | KOther

record 'v space =
  s_kind :: kind
  s_product :: int  \<comment> \<open>of a split space only\<close>
  s_num_output :: int
  s_entities :: "'v entity list"

text \<open>
  An axis as templates pass it: a virtual axis with its length, an \<open>Axis(space, index)\<close> that a
  transform returned, or what has yet to be wrapped into a virtual axis.
\<close>

datatype caxis = Virtual nat int | Derived "nat option" nat | Raw axis_arg

text \<open>A slot of the entity map: the first entity of the space of that name, shared, or an own one.\<close>

datatype 'v slot = First | Own "'v entity"

record 'v config_space =
  cs_space_map :: "(string, 'v space) dict"
  cs_collect :: bool
  cs_length :: "int option"
  cs_entity_map :: "(string, 'v slot) dict"
  cs_errors :: "string list"
  cs_code_hash :: "string option"
  cs_flop :: rat
  cs_is_fallback :: bool
  cs_name_ct :: nat  \<comment> \<open>the class attribute \<open>VirtualAxis.name_ct\<close>\<close>
  cs_serial :: nat  \<comment> \<open>how many spaces were created\<close>

definition new_config_space :: "nat \<Rightarrow> 'v config_space" where
  "new_config_space name_ct =
     \<lparr>cs_space_map = [], cs_collect = True, cs_length = None, cs_entity_map = [], cs_errors = [],
      cs_code_hash = None, cs_flop = 0, cs_is_fallback = False, cs_name_ct = name_ct, cs_serial = 0\<rparr>"

definition new_fallback_config :: "nat \<Rightarrow> 'v config_space" where
  "new_fallback_config name_ct = new_config_space name_ct\<lparr>cs_is_fallback := True\<rparr>"

text \<open>\<open>ConfigSpace.__getitem__\<close>, and the object behind a slot.\<close>

definition get_entity :: "string \<Rightarrow> 'v config_space \<Rightarrow> 'v entity res" where
  "get_entity nm cs =
     bindR (dict_get (cs_entity_map cs) nm) (\<lambda>slot. case slot of
         Own e \<Rightarrow> Inr e
       | First \<Rightarrow> bindR (dict_get (cs_space_map cs) nm) (\<lambda>sp. py_get (s_entities sp) 0))"

definition set_entity :: "string \<Rightarrow> 'v entity \<Rightarrow> 'v config_space \<Rightarrow> 'v config_space" where
  "set_entity nm e cs = cs\<lparr>cs_entity_map := AList.update nm (Own e) (cs_entity_map cs)\<rparr>"

section \<open>Defining knobs\<close>

datatype 'v transform =
    TSplit caxis string split_kwargs
  | TReorder "caxis list" string "caxis reorder_kwargs"
  | TAnnotate "caxis list" string "int option"
  | TOther "'v list"

fun transform_axes :: "'v transform \<Rightarrow> caxis list" where
  "transform_axes (TSplit axis _ _) = [axis]"
| "transform_axes (TReorder axes _ _) = axes"
| "transform_axes (TAnnotate axes _ _) = axes"
| "transform_axes (TOther _) = []"

text \<open>\<open>x if isinstance(x, (VirtualAxis, Axis)) else self.axis(x)\<close>, for every axis in turn.\<close>

fun convert_axes :: "caxis list \<Rightarrow> nat \<Rightarrow> caxis list res \<times> nat" where
  "convert_axes [] ct = (Inr [], ct)"
| "convert_axes (Raw var # axes) ct =
     (case virtual_axis (\<lambda>_. []) var None ct of
        Inl e \<Rightarrow> (Inl e, Suc ct)
      | Inr ((_, n), ct') \<Rightarrow>
          (let (r, ct'') = convert_axes axes ct' in (bindR r (\<lambda>as. Inr (Virtual ct n # as)), ct'')))"
| "convert_axes (a # axes) ct =
     (let (r, ct') = convert_axes axes ct in (bindR r (\<lambda>as. Inr (a # as)), ct'))"

text \<open>
  The constructor of the space class. A split space reads \<open>axis.length\<close>, which an \<open>Axis\<close> does not
  have.
\<close>

definition make_space ::
  "(int list \<Rightarrow> int list) \<Rightarrow> 'v transform \<Rightarrow> caxis list \<Rightarrow> 'v space res" where
  "make_space enum t axes =
     (case t of
        TSplit _ policy kw \<Rightarrow>
          (case axes of
             Virtual _ n # _ \<Rightarrow>
               bindR (split_space enum n policy kw) (\<lambda>es. bindR (kwarg (kw_num_outputs kw)) (\<lambda>k.
                 Inr \<lparr>s_kind = KSplit, s_product = n, s_num_output = k, s_entities = map SplitEntity es\<rparr>))
           | _ \<Rightarrow> Inl AttributeError)
      | TReorder _ policy kw \<Rightarrow>
          bindR (reorder_space axes policy kw) (\<lambda>ps.
            Inr \<lparr>s_kind = KReorder, s_product = 0, s_num_output = int (length axes),
                 s_entities = map ReorderEntity ps\<rparr>)
      | TAnnotate _ policy num_anchor \<Rightarrow>
          bindR (annotate_space axes policy num_anchor) (\<lambda>as.
            Inr \<lparr>s_kind = KAnnotate, s_product = 0, s_num_output = int (length axes),
                 s_entities = map AnnotateEntity as\<rparr>)
      | TOther candidate \<Rightarrow>
          bindR (other_space (Some candidate)) (\<lambda>vs.
            Inr \<lparr>s_kind = KOther, s_product = 0, s_num_output = 0, s_entities = map OtherOptionEntity vs\<rparr>))"

text \<open>\<open>space_class.get_num_output(axes, policy, **kwargs)\<close>\<close>

definition num_output_of :: "'v transform \<Rightarrow> int res" where
  "num_output_of t =
     (case t of
        TSplit _ _ kw \<Rightarrow> split_num_output kw
      | TReorder axes _ _ \<Rightarrow> Inr (int (length axes))
      | TAnnotate axes _ _ \<Rightarrow> Inr (int (length axes))
      | TOther _ \<Rightarrow> Inr 0)"

text \<open>
  \<open>_add_new_transform\<close>. The space is entered in the map before its first entity is looked up, so
  an empty space stays there when that raises, while the entity map keeps the object it had.
\<close>

definition add_new_transform ::
  "(int list \<Rightarrow> int list) \<Rightarrow> string \<Rightarrow> 'v transform \<Rightarrow> 'v config_space \<Rightarrow>
     caxis list res \<times> 'v config_space" where
  "add_new_transform enum nm t cs =
     (if cs_collect cs then
        (case convert_axes (transform_axes t) (cs_name_ct cs) of
           (Inl e, ct) \<Rightarrow> (Inl e, cs\<lparr>cs_name_ct := ct\<rparr>)
         | (Inr axes, ct) \<Rightarrow>
             (let cs1 = cs\<lparr>cs_name_ct := ct\<rparr> in
              case make_space enum t axes of
                Inl e \<Rightarrow> (Inl e, cs1)
              | Inr sp \<Rightarrow>
                  (let cs2 = cs1\<lparr>cs_space_map := AList.update nm sp (cs_space_map cs1),
                                 cs_serial := Suc (cs_serial cs1)\<rparr> in
                   if s_entities sp = [] then
                     (Inl IndexError,
                      (case get_entity nm cs of Inr e \<Rightarrow> set_entity nm e cs2 | Inl _ \<Rightarrow> cs2))
                   else (Inr (map (Derived (Some (cs_serial cs))) [0..<nat (s_num_output sp)]),
                         cs2\<lparr>cs_entity_map := AList.update nm First (cs_entity_map cs2)\<rparr>))))
      else (bindR (num_output_of t) (\<lambda>k. Inr (map (Derived None) [0..<nat k])), cs))"

definition define_split where
  "define_split enum nm axis policy kw = add_new_transform enum nm (TSplit axis policy kw)"

definition define_reorder where
  "define_reorder enum nm axes policy kw = add_new_transform enum nm (TReorder axes policy kw)"

definition define_annotate where
  "define_annotate enum nm axes policy num_anchor = add_new_transform enum nm (TAnnotate axes policy num_anchor)"

definition define_knob where
  "define_knob enum nm candidate = add_new_transform enum nm (TOther candidate)"

definition add_flop :: "rat \<Rightarrow> 'v config_space \<Rightarrow> 'v config_space" where
  "add_flop flop cs = cs\<lparr>cs_flop := cs_flop cs + flop\<rparr>"

definition raise_error :: "string \<Rightarrow> 'v config_space \<Rightarrow> 'v config_space" where
  "raise_error msg cs = cs\<lparr>cs_errors := cs_errors cs @ [msg]\<rparr>"

definition valid :: "'v config_space \<Rightarrow> bool" where
  "valid cs \<longleftrightarrow> cs_errors cs = []"

section \<open>Length, lookup and enumeration\<close>

definition dims :: "'v config_space \<Rightarrow> nat list" where
  "dims cs = map (\<lambda>(_, sp). length (s_entities sp)) (cs_space_map cs)"

text \<open>
  \<open>__len__\<close> computes the length once and keeps it; the built-in \<open>len\<close> rejects a negative one.
\<close>

definition config_len :: "'v config_space \<Rightarrow> int res \<times> 'v config_space" where
  "config_len cs =
     (let n = (case cs_length cs of None \<Rightarrow> int64 (int (prodlist (dims cs))) | Some n \<Rightarrow> n)
      in (if n < 0 then Inl ValueError else Inr n, cs\<lparr>cs_length := Some n\<rparr>))"

text \<open>A configuration entity: its index, the hash of the space, its entities and its errors.\<close>

record 'v config_entity =
  ce_index :: int
  ce_code_hash :: "string option"
  ce_entity_map :: "(string, 'v entity) dict"
  ce_errors :: "string list"

fun pick_entities :: "int \<Rightarrow> (string, 'v space) dict \<Rightarrow> (string, 'v entity) dict res" where
  "pick_entities t [] = Inr []"
| "pick_entities t ((nm, sp) # rest) =
     (let k = length (s_entities sp) in
      if k = 0 then Inl ZeroDivisionError
      else bindR (py_get (s_entities sp) (t mod int k)) (\<lambda>e.
           bindR (pick_entities (t div int k) rest) (\<lambda>es. Inr ((nm, e) # es))))"

definition config_get :: "int \<Rightarrow> 'v config_space \<Rightarrow> 'v config_entity res \<times> 'v config_space" where
  "config_get index cs =
     (let (r, cs1) = config_len cs in
      (bindR r (\<lambda>n.
         if index < 0 \<or> index \<ge> n then Inl IndexError
         else bindR (pick_entities index (cs_space_map cs1)) (\<lambda>es.
           Inr \<lparr>ce_index = index, ce_code_hash = cs_code_hash cs1, ce_entity_map = es, ce_errors = []\<rparr>)),
       cs1))"

section \<open>Entities as features and as JSON\<close>

definition ann_numbers :: "string list" where
  "ann_numbers = [''none'', ''vec'', ''unroll'', ''blockIdx.x'', ''blockIdx.y'', ''blockIdx.z'',
     ''threadIdx.x'', ''threadIdx.y'', ''threadIdx.z'', ''vthread'', ''fuse'']"

definition one_hot :: "ann \<Rightarrow> rat list res" where
  "one_hot a =
     (case a of
        AInt _ \<Rightarrow> Inl KeyError
      | AStr w \<Rightarrow> if w \<in> set ann_numbers
          then Inr (map (\<lambda>w'. if w' = w then 1 else 0) ann_numbers) else Inl KeyError)"

text \<open>\<open>num\<close> converts the value of an option, which must be a number, to a float.\<close>

definition entity_feature :: "('v \<Rightarrow> rat res) \<Rightarrow> 'v entity \<Rightarrow> rat list res" where
  "entity_feature num v =
     (case v of
        SplitEntity sz \<Rightarrow> Inr (map of_int sz)
      | ReorderEntity perm \<Rightarrow> Inr (map of_int perm)
      | AnnotateEntity anns \<Rightarrow> bindR (mapR one_hot anns) (\<lambda>xs. Inr (concat xs))
      | OtherOptionEntity x \<Rightarrow> bindR (num x) (\<lambda>q. Inr [q]))"

definition get_flatten_feature :: "('v \<Rightarrow> rat res) \<Rightarrow> 'v config_entity \<Rightarrow> rat list res" where
  "get_flatten_feature num ce =
     bindR (mapR (\<lambda>(_, v). entity_feature num v) (ce_entity_map ce)) (\<lambda>xs. Inr (concat xs))"

text \<open>The dictionary of \<open>get_other_option\<close> has the entity objects themselves as keys.\<close>

definition get_other_option :: "'v config_entity \<Rightarrow> ('v entity \<times> 'v) list" where
  "get_other_option ce =
     concat (map (\<lambda>(_, e). case e of OtherOptionEntity v \<Rightarrow> [(e, v)] | _ \<Rightarrow> []) (ce_entity_map ce))"

datatype 'v jarg = JInts "int list" | JAnns "ann list" | JOption 'v

record 'v jconfig =
  j_index :: int
  j_code_hash :: "string option"
  j_entity :: "(string \<times> string \<times> 'v jarg) list"

fun entity_item :: "string \<times> 'v entity \<Rightarrow> string \<times> string \<times> 'v jarg" where
  "entity_item (k, SplitEntity sz) = (k, ''sp'', JInts sz)"
| "entity_item (k, ReorderEntity perm) = (k, ''re'', JInts perm)"
| "entity_item (k, AnnotateEntity anns) = (k, ''an'', JAnns anns)"
| "entity_item (k, OtherOptionEntity v) = (k, ''ot'', JOption v)"

definition to_json_dict :: "'v config_entity \<Rightarrow> 'v jconfig" where
  "to_json_dict ce =
     \<lparr>j_index = ce_index ce, j_code_hash = ce_code_hash ce, j_entity = map entity_item (ce_entity_map ce)\<rparr>"

text \<open>
  The constructors take whatever argument comes with a known tag; an argument of another shape,
  which the code notices only when it is used, is a \<open>TypeError\<close> here at once.
\<close>

fun item_entity :: "string \<times> string \<times> 'v jarg \<Rightarrow> (string \<times> 'v entity) res" where
  "item_entity (k, tag, arg) =
     (if tag = ''sp'' then (case arg of JInts xs \<Rightarrow> Inr (k, SplitEntity xs) | _ \<Rightarrow> Inl TypeError)
      else if tag = ''re'' then (case arg of JInts xs \<Rightarrow> Inr (k, ReorderEntity xs) | _ \<Rightarrow> Inl TypeError)
      else if tag = ''an'' then (case arg of JAnns xs \<Rightarrow> Inr (k, AnnotateEntity xs) | _ \<Rightarrow> Inl TypeError)
      else if tag = ''ot'' then (case arg of JOption v \<Rightarrow> Inr (k, OtherOptionEntity v) | _ \<Rightarrow> Inl TypeError)
      else Inl RuntimeError)"

definition from_json_dict :: "'v jconfig \<Rightarrow> 'v config_entity res" where
  "from_json_dict j =
     bindR (foldR (\<lambda>item m. bindR (item_entity item) (\<lambda>(k, e). Inr (AList.update k e m))) (j_entity j) [])
       (\<lambda>m. Inr \<lparr>ce_index = j_index j, ce_code_hash = j_code_hash j, ce_entity_map = m, ce_errors = []\<rparr>)"

section \<open>Fallback configurations\<close>

text \<open>
  Writing a size of an entity: an object that is shared with the space changes there too.
\<close>

definition mutate_entity :: "string \<Rightarrow> 'v entity \<Rightarrow> 'v config_space \<Rightarrow> 'v config_space" where
  "mutate_entity nm e cs =
     (case map_of (cs_entity_map cs) nm of
        Some First \<Rightarrow>
          (case map_of (cs_space_map cs) nm of
             None \<Rightarrow> cs
           | Some sp \<Rightarrow> cs\<lparr>cs_space_map :=
               AList.update nm (sp\<lparr>s_entities := (s_entities sp)[0 := e]\<rparr>) (cs_space_map cs)\<rparr>)
      | _ \<Rightarrow> set_entity nm e cs)"

text \<open>The search for the position before the first factor over the limit, the last one if none is.\<close>

fun find_factor :: "int \<Rightarrow> int list \<Rightarrow> int \<Rightarrow> int" where
  "find_factor c [] j = j - 1"
| "find_factor c (f # fs) j = (if f > c then j - 1 else find_factor c fs (j + 1))"

fun fallback_loop ::
  "string \<Rightarrow> int list \<Rightarrow> nat list \<Rightarrow> int \<Rightarrow> 'v config_space \<Rightarrow> unit res \<times> 'v config_space" where
  "fallback_loop nm limits [] now cs = (Inr (), cs)"
| "fallback_loop nm limits (i # idx) now cs =
     (case get_factors now of
        Inl e \<Rightarrow> (Inl e, cs)
      | Inr factors \<Rightarrow>
          (let found = find_factor (limits ! i) factors 0 in
           if found \<ge> 0 then
             (case get_entity nm cs of
                Inl e \<Rightarrow> (Inl e, cs)
              | Inr (SplitEntity sz) \<Rightarrow>
                  if i < length sz then
                    fallback_loop nm limits idx (now div factors ! nat found)
                      (mutate_entity nm (SplitEntity (sz[i := factors ! nat found])) cs)
                  else (Inl IndexError, cs)
              | Inr _ \<Rightarrow> (Inl AttributeError, cs))
           else (Inl RuntimeError, cs)))"

definition fallback_split ::
  "string \<Rightarrow> int list \<Rightarrow> 'v config_space \<Rightarrow> unit res \<times> 'v config_space" where
  "fallback_split nm constraints cs =
     (case dict_get (cs_space_map cs) nm of
        Inl e \<Rightarrow> (Inl e, cs)
      | Inr sp \<Rightarrow>
          if s_kind sp \<noteq> KSplit \<or> int (length constraints) \<noteq> s_num_output sp then (Inl AssertionError, cs)
          else (case dict_get (cs_entity_map cs) nm of
                  Inl e \<Rightarrow> (Inl e, cs)
                | Inr _ \<Rightarrow>
                    fallback_loop nm (map (\<lambda>x. if x \<noteq> -1 then x else 10 ^ 10) constraints)
                      (rev [0..<nat (s_num_output sp)]) (s_product sp) cs))"

definition knob_names :: "'v config_space \<Rightarrow> string list" where
  "knob_names cs = map fst (filter (\<lambda>(_, sp). s_kind sp = KSplit) (cs_space_map cs))"

text \<open>
  The score of one reference configuration, the share of common factors summed over the knobs; the
  best one is updated after every knob.
\<close>

type_synonym 'v ref_cfg = "(string, 'v entity) dict"

fun match_knobs ::
  "(string \<times> int list) list \<Rightarrow> 'v ref_cfg \<Rightarrow> rat \<Rightarrow> 'v ref_cfg option \<times> rat \<Rightarrow> ('v ref_cfg option \<times> rat) res" where
  "match_knobs [] cfg score best = Inr best"
| "match_knobs ((nm, fs) # rest) cfg score best =
     bindR (dict_get cfg nm) (\<lambda>e. case e of
       SplitEntity sz \<Rightarrow>
         bindR (get_factors (int64 (prodlist sz))) (\<lambda>factors.
           let score' = score + of_nat (card (set fs \<inter> set factors)) / of_nat (length fs)
           in match_knobs rest cfg score' (if score' > snd best then (Some cfg, score') else best))
     | _ \<Rightarrow> Inl AttributeError)"

definition best_match :: "(string \<times> int list) list \<Rightarrow> 'v ref_cfg list \<Rightarrow> ('v ref_cfg option \<times> rat) res" where
  "best_match knobs ref_log = foldR (\<lambda>cfg. match_knobs knobs cfg 0) ref_log (None, 0)"

fun mimic_tiling :: "string list \<Rightarrow> 'v ref_cfg \<Rightarrow> 'v config_space \<Rightarrow> unit res \<times> 'v config_space" where
  "mimic_tiling [] cfg cs = (Inr (), cs)"
| "mimic_tiling (nm # nms) cfg cs =
     (case dict_get cfg nm of
        Inl e \<Rightarrow> (Inl e, cs)
      | Inr (SplitEntity sz) \<Rightarrow>
          if sz = [] then (Inl IndexError, cs)
          else (case fallback_split nm (sz[0 := -1]) cs of
                  (Inl e, cs') \<Rightarrow> (Inl e, cs')
                | (Inr _, cs') \<Rightarrow> mimic_tiling nms cfg cs')
      | Inr _ \<Rightarrow> (Inl AttributeError, cs))"

fun copy_others :: "(string \<times> 'v space) list \<Rightarrow> 'v ref_cfg \<Rightarrow> 'v config_space \<Rightarrow> unit res \<times> 'v config_space" where
  "copy_others [] cfg cs = (Inr (), cs)"
| "copy_others ((nm, sp) # rest) cfg cs =
     (if s_kind sp = KSplit then copy_others rest cfg cs
      else (case dict_get cfg nm of
              Inl e \<Rightarrow> (Inl e, cs)
            | Inr e \<Rightarrow> copy_others rest cfg (set_entity nm e cs)))"

definition fallback_with_reference_log ::
  "'v ref_cfg list \<Rightarrow> 'v config_space \<Rightarrow> unit res \<times> 'v config_space" where
  "fallback_with_reference_log ref_log cs =
     (let names = knob_names cs in
      case bindR (mapR (\<lambda>nm. bindR (dict_get (cs_space_map cs) nm) (\<lambda>sp.
                    bindR (get_factors (s_product sp)) (\<lambda>fs. Inr (nm, fs)))) names)
             (\<lambda>knobs. best_match knobs ref_log) of
        Inl e \<Rightarrow> (Inl e, cs)
      | Inr (None, _) \<Rightarrow> (Inr (), cs)
      | Inr (Some cfg, _) \<Rightarrow>
          (case mimic_tiling names cfg cs of
             (Inl e, cs') \<Rightarrow> (Inl e, cs')
           | (Inr _, cs') \<Rightarrow> copy_others (cs_space_map cs') cfg cs'))"

section \<open>Lemmas and properties of enumeration\<close>

text \<open>The entities at the positions that a knob vector names.\<close>

definition chosen :: "(string, 'v space) dict \<Rightarrow> int list \<Rightarrow> (string, 'v entity) dict" where
  "chosen m ks = map2 (\<lambda>(nm, sp) k. (nm, s_entities sp ! nat k)) m ks"

lemma pick_entities_knob:
  "0 \<le> t \<Longrightarrow> pick_entities t m =
    bindR (point2knob t (map (\<lambda>(_, sp). length (s_entities sp)) m)) (\<lambda>ks. Inr (chosen m ks))"
proof (induction m arbitrary: t)
  case Nil
  then show ?case by (simp add: chosen_def)
next
  case (Cons p m)
  obtain nm sp where p: "p = (nm, sp)" by fastforce
  define k where "k = length (s_entities sp)"
  show ?case
  proof (cases "k = 0")
    case True
    then show ?thesis by (simp add: p k_def)
  next
    case False
    then have g: "py_get (s_entities sp) (t mod int k) = Inr (s_entities sp ! nat (t mod int k))"
      by (simp add: py_get_def k_def nat_less_iff)
    have "0 \<le> t div int k" using Cons.prems False by (simp add: pos_imp_zdiv_nonneg_iff)
    note IH = Cons.IH [OF this]
    show ?thesis using False g IH
      by (cases "point2knob (t div int k) (map (\<lambda>(_, sp). length (s_entities sp)) m)")
        (simp_all add: p k_def chosen_def)
  qed
qed

text \<open>
  C3. \<open>ConfigSpace.get\<close> enumerates the product of its knobs: while the number of combinations fits
  in 64 bits, the indices from 0 up to it (exclusive) correspond one to one to the choices of a
  position in every space, and the configuration at an index has, under every name, the entity at
  the chosen position. Any other index raises \<open>IndexError\<close>.
\<close>

theorem config_get_enumerates:
  assumes "cs_length cs = None" and "prodlist (dims cs) < 2 ^ 63"
  shows "(\<not> (0 \<le> i \<and> i < int (prodlist (dims cs))) \<longrightarrow> fst (config_get i cs) = Inl IndexError) \<and>
    bij_betw (\<lambda>ks. knob2point ks (dims cs)) {ks. knob_ok (dims cs) ks} {0..<int (prodlist (dims cs))} \<and>
    (knob_ok (dims cs) ks \<longrightarrow> fst (config_get (knob2point ks (dims cs)) cs) =
       Inr \<lparr>ce_index = knob2point ks (dims cs), ce_code_hash = cs_code_hash cs,
            ce_entity_map = chosen (cs_space_map cs) ks, ce_errors = []\<rparr>)"
proof -
  define N where "N = int (prodlist (dims cs))"
  have "N < int (2 ^ 63)" using assms(2) unfolding N_def by (simp only: of_nat_less_iff)
  then have N: "0 \<le> N" "int64 N = N" by (simp_all add: N_def int64_id)
  then have len: "config_len cs = (Inr N, cs\<lparr>cs_length := Some N\<rparr>)"
    using assms(1) by (simp add: config_len_def N_def Let_def)
  have get: "fst (config_get i cs) = Inr \<lparr>ce_index = i, ce_code_hash = cs_code_hash cs,
      ce_entity_map = chosen (cs_space_map cs) ks, ce_errors = []\<rparr>"
    if "0 \<le> i" "i < N" "point2knob i (dims cs) = Inr ks" for i ks
    using that by (simp add: config_get_def len pick_entities_knob dims_def)
  have "fst (config_get (knob2point ks (dims cs)) cs) =
       Inr \<lparr>ce_index = knob2point ks (dims cs), ce_code_hash = cs_code_hash cs,
            ce_entity_map = chosen (cs_space_map cs) ks, ce_errors = []\<rparr>" if "knob_ok (dims cs) ks"
    using knob_enc [OF assms(2) that] by (intro get) (simp_all add: N_def)
  moreover have "fst (config_get i cs) = Inl IndexError" if "\<not> (0 \<le> i \<and> i < N)" for i
    using that by (auto simp: config_get_def len)
  ultimately show ?thesis using knob_bij [OF assms(2)] by (simp add: N_def)
qed

lemma config_get_enumerates_witness:
  "let sp1 = \<lparr>s_kind = KOther, s_product = 0, s_num_output = 0,
              s_entities = map OtherOptionEntity [10::int, 20]\<rparr>;
       sp2 = \<lparr>s_kind = KOther, s_product = 0, s_num_output = 0,
              s_entities = map OtherOptionEntity [1, 2, 3]\<rparr>;
       cs = (new_config_space 0)\<lparr>cs_space_map := [(''a'', sp1), (''b'', sp2)]\<rparr> in
   fst (config_get 5 cs) = Inr \<lparr>ce_index = 5, ce_code_hash = None,
     ce_entity_map = [(''a'', OtherOptionEntity 20), (''b'', OtherOptionEntity 3)], ce_errors = []\<rparr> \<and>
   fst (config_get 6 cs) = Inl IndexError"
proof -
  define cs where "cs = (new_config_space 0)\<lparr>cs_space_map :=
    [(''a'', \<lparr>s_kind = KOther, s_product = 0, s_num_output = 0,
              s_entities = map OtherOptionEntity [10::int, 20]\<rparr>),
     (''b'', \<lparr>s_kind = KOther, s_product = 0, s_num_output = 0,
              s_entities = map OtherOptionEntity [1, 2, 3]\<rparr>)]\<rparr>"
  have d: "dims cs = [2, 3]" by (simp add: cs_def dims_def)
  have k: "knob2point [1, 2] [2, 3] = 5" "knob_ok [2, 3] [1, 2]" by (simp_all add: knob2point_def knob_ok_def int64_def)
  have "cs_length cs = None" "prodlist (dims cs) < 2 ^ 63"
    by (simp add: cs_def new_config_space_def) (simp add: d)
  from config_get_enumerates [OF this, of 6 "[1, 2]"]
  have "fst (config_get 5 cs) = Inr \<lparr>ce_index = 5, ce_code_hash = cs_code_hash cs,
      ce_entity_map = chosen (cs_space_map cs) [1, 2], ce_errors = []\<rparr> \<and>
    fst (config_get 6 cs) = Inl IndexError"
    unfolding d k(1) using k(2) by simp
  moreover have "cs_code_hash cs = None" "chosen (cs_space_map cs) [1, 2] =
      [(''a'', OtherOptionEntity 20), (''b'', OtherOptionEntity 3)]"
    by (simp_all add: cs_def new_config_space_def chosen_def)
  ultimately show ?thesis unfolding cs_def Let_def by simp
qed

text \<open>
  \<open>from_json_dict\<close> inverts \<open>to_json_dict\<close>: index, hash and every entity under its name come
  back in the same order; only the errors collected so far are not written.
\<close>

lemma json_dict_roundtrip:
  assumes "dict_ok (ce_entity_map ce)"
  shows "from_json_dict (to_json_dict ce) = Inr (ce\<lparr>ce_errors := []\<rparr>)"
proof -
  have item: "item_entity (entity_item p) = Inr p" for p :: "string \<times> 'a entity"
    by (cases p rule: entity_item.cases) simp_all
  have "foldR (\<lambda>item m. bindR (item_entity item) (\<lambda>(k, e). Inr (AList.update k e m))) (map entity_item es) m
      = Inr (m @ es)" if "dict_ok (m @ es)" for m es :: "(string, 'a entity) dict"
    using that
  proof (induction es arbitrary: m)
    case (Cons p es)
    obtain k e where p: "p = (k, e)" by fastforce
    have "AList.update k e m = m @ [(k, e)]"
    proof -
      have "k \<notin> fst ` set m" using Cons.prems p by auto
      then show ?thesis by (induction m) auto
    qed
    with Cons.IH [of "m @ [p]"] Cons.prems p item [of p] show ?case by simp
  qed simp
  with assms show ?thesis by (simp add: from_json_dict_def to_json_dict_def)
qed

section \<open>The invariant of a configuration space\<close>

text \<open>
  Both maps hold a name once, every entry of the entity map that is shared points into a space that
  is there and not empty, and a length, once computed, is one that \<open>len\<close> could return or reject.
\<close>

definition cs_ok :: "'v config_space \<Rightarrow> bool" where
  "cs_ok cs \<longleftrightarrow> dict_ok (cs_space_map cs) \<and> dict_ok (cs_entity_map cs) \<and>
     (\<forall>nm. map_of (cs_entity_map cs) nm = Some First \<longrightarrow>
        (\<exists>sp. map_of (cs_space_map cs) nm = Some sp \<and> s_entities sp \<noteq> []))"

lemma dict_ok_update [intro]: "dict_ok d \<Longrightarrow> dict_ok (AList.update k v d)"
  by (rule distinct_update)

lemma get_entity_same:
  "map_of (cs_entity_map a) n = map_of (cs_entity_map b) n \<Longrightarrow>
   map_of (cs_space_map a) n = map_of (cs_space_map b) n \<Longrightarrow> get_entity n a = get_entity n b"
  by (simp add: get_entity_def dict_get_def cong: slot.case_cong)

lemma cs_ok_same:
  "cs_space_map a = cs_space_map b \<Longrightarrow> cs_entity_map a = cs_entity_map b \<Longrightarrow> cs_ok a = cs_ok b"
  by (simp only: cs_ok_def)

lemma cs_ok_get:
  assumes "cs_ok cs" "map_of (cs_entity_map cs) nm \<noteq> None"
  shows "\<exists>e. get_entity nm cs = Inr e"
proof (cases "map_of (cs_entity_map cs) nm")
  case None
  with assms show ?thesis by simp
next
  case (Some slot)
  show ?thesis
  proof (cases slot)
    case First
    with Some assms obtain sp where "map_of (cs_space_map cs) nm = Some sp" "s_entities sp \<noteq> []"
      by (auto simp: cs_ok_def)
    with Some First show ?thesis
      by (auto simp: get_entity_def dict_get_def py_get_def)
  qed (use Some in \<open>simp add: get_entity_def dict_get_def\<close>)
qed

text \<open>
  The three ways \<open>_add_new_transform\<close> ends while collecting: the axes or the space cannot be made,
  the space has no entity, or the knob is defined.
\<close>

definition with_space :: "string \<Rightarrow> 'v space \<Rightarrow> nat \<Rightarrow> 'v config_space \<Rightarrow> 'v config_space" where
  "with_space nm sp ct cs =
     cs\<lparr>cs_name_ct := ct, cs_space_map := AList.update nm sp (cs_space_map cs), cs_serial := Suc (cs_serial cs)\<rparr>"

lemma define_cases [consumes 2, case_names failed no_entity defined]:
  assumes "add_new_transform enum nm t cs = (r, cs')" "cs_collect cs"
  obtains e ct where "r = Inl e" "cs' = cs\<lparr>cs_name_ct := ct\<rparr>"
  | ct sp where "s_entities sp = []" "r = Inl IndexError"
      "cs' = (case get_entity nm cs of Inr e \<Rightarrow> set_entity nm e (with_space nm sp ct cs)
                                      | Inl _ \<Rightarrow> with_space nm sp ct cs)"
  | ct sp where "s_entities sp \<noteq> []"
      "r = Inr (map (Derived (Some (cs_serial cs))) [0..<nat (s_num_output sp)])"
      "cs' = (with_space nm sp ct cs)\<lparr>cs_entity_map := AList.update nm First (cs_entity_map cs)\<rparr>"
proof -
  obtain ra ct where conv: "convert_axes (transform_axes t) (cs_name_ct cs) = (ra, ct)" by fastforce
  consider e where "r = Inl e" "cs' = cs\<lparr>cs_name_ct := ct\<rparr>"
    | axes sp where "ra = Inr axes" "make_space enum t axes = Inr sp"
    using assms conv by (auto simp: add_new_transform_def Let_def split: sum.splits)
  then show ?thesis
  proof cases
    case 1
    then show ?thesis by (rule that(1))
  next
    case 2
    then show ?thesis using assms conv that(2,3) [of sp ct]
      by (cases "s_entities sp = []")
        (auto simp: add_new_transform_def Let_def with_space_def cong: sum.case_cong)
  qed
qed

lemma no_entity_keeps_ok:
  assumes "cs_ok cs"
    and "cs' = (case get_entity nm cs of Inr e \<Rightarrow> set_entity nm e (with_space nm sp ct cs)
                                        | Inl _ \<Rightarrow> with_space nm sp ct cs)"
  shows "cs_ok cs'" and "n \<noteq> nm \<Longrightarrow> get_entity n cs' = get_entity n cs"
proof -
  have nm: "map_of (cs_entity_map cs') nm \<noteq> Some First"
  proof (cases "get_entity nm cs")
    case (Inl e)
    then have "map_of (cs_entity_map cs) nm = None" using cs_ok_get [OF assms(1), of nm]
      by (metis Inl_Inr_False)
    then show ?thesis using Inl by (simp add: assms(2) with_space_def)
  next
    case (Inr e)
    then show ?thesis by (simp add: assms(2) set_entity_def update_conv)
  qed
  have em: "map_of (cs_entity_map cs') n = map_of (cs_entity_map cs) n" if "n \<noteq> nm" for n
    using that by (auto simp: assms(2) set_entity_def update_conv with_space_def split: sum.split)
  have sm: "cs_space_map cs' = AList.update nm sp (cs_space_map cs)"
    by (auto simp: assms(2) set_entity_def with_space_def split: sum.split)
  have d: "dict_ok (cs_entity_map cs')"
    using assms(1) by (auto simp: assms(2) set_entity_def with_space_def cs_ok_def intro: distinct_update split: sum.split)
  have f: "n \<noteq> nm \<and> map_of (cs_entity_map cs) n = Some First"
    if "map_of (cs_entity_map cs') n = Some First" for n
    using that nm em by (metis (no_types))
  show "cs_ok cs'" using assms(1) d f unfolding cs_ok_def sm
    by (simp add: distinct_update update_conv)
  show "get_entity n cs' = get_entity n cs" if "n \<noteq> nm"
    using em [OF that] that by (intro get_entity_same) (simp_all add: sm update_conv)
qed

lemma defined_keeps_ok:
  assumes "cs_ok cs" "s_entities sp \<noteq> []"
    and "cs' = (with_space nm sp ct cs)\<lparr>cs_entity_map := AList.update nm First (cs_entity_map cs)\<rparr>"
  shows "cs_ok cs'" and "n \<noteq> nm \<Longrightarrow> get_entity n cs' = get_entity n cs"
    and "dict_get (cs_space_map cs') nm = Inr sp" and "get_entity nm cs' = Inr (hd (s_entities sp))"
proof -
  show "cs_ok cs'" using assms(1,2)
    by (auto simp: cs_ok_def assms(3) with_space_def update_conv distinct_update)
  show "get_entity n cs' = get_entity n cs" if "n \<noteq> nm"
    using that by (intro get_entity_same) (simp_all add: assms(3) with_space_def update_conv)
  show "dict_get (cs_space_map cs') nm = Inr sp" "get_entity nm cs' = Inr (hd (s_entities sp))"
    using assms(2) by (cases "s_entities sp"; simp add: get_entity_def assms(3) with_space_def)+
qed

text \<open>
  Defining a knob, whether it succeeds or raises, keeps the two maps consistent: every name of
  the entity map still has an entity. When it succeeds while collecting, the name has the space,
  its entity is the first of that space, one axis per output comes back, and every other name is
  as before.
\<close>

lemma define_keeps_ok:
  assumes "cs_ok cs" and "add_new_transform enum nm t cs = (r, cs')"
  shows "cs_ok cs' \<and> (\<forall>n. map_of (cs_entity_map cs') n \<noteq> None \<longrightarrow> (\<exists>e. get_entity n cs' = Inr e)) \<and>
    (\<forall>n. n \<noteq> nm \<longrightarrow> get_entity n cs' = get_entity n cs) \<and>
    (\<forall>axes. r = Inr axes \<and> cs_collect cs \<longrightarrow>
       (\<exists>sp e es. dict_get (cs_space_map cs') nm = Inr sp \<and> s_entities sp = e # es \<and>
          get_entity nm cs' = Inr e \<and> axes = map (Derived (Some (cs_serial cs))) [0..<nat (s_num_output sp)]))"
proof (cases "cs_collect cs")
  case False
  with assms cs_ok_get [OF assms(1)] show ?thesis by (auto simp: add_new_transform_def)
next
  case True
  from assms(2) this show ?thesis
  proof (cases rule: define_cases)
    case (failed e ct)
    have "get_entity n cs' = get_entity n cs" for n by (rule get_entity_same) (simp_all add: failed)
    moreover have "cs_ok cs'" using assms(1) cs_ok_same [of cs' cs] by (simp add: failed)
    ultimately show ?thesis using failed cs_ok_get [OF assms(1)] by auto
  next
    case (no_entity ct sp)
    note d = no_entity_keeps_ok [OF assms(1) no_entity(3)]
    from d no_entity(2) cs_ok_get [OF d(1)] show ?thesis by auto
  next
    case (defined ct sp)
    note d = defined_keeps_ok [OF assms(1) defined(1,3)]
    obtain e es where "s_entities sp = e # es" using defined(1) by (cases "s_entities sp") auto
    with d defined(2) cs_ok_get [OF d(1)] show ?thesis by auto
  qed
qed

section \<open>Properties of fallback splits\<close>

lemma find_factor_shift: "find_factor c fs (j + 1) = find_factor c fs j + 1"
proof (induction fs arbitrary: j)
  case (Cons f fs)
  show ?case using Cons [of "j + 1"] by simp
qed simp

lemma find_factor_eq:
  "sorted fs \<Longrightarrow> find_factor c fs 0 = int (length [f \<leftarrow> fs. f \<le> c]) - 1"
proof (induction fs)
  case (Cons f fs)
  have "[x \<leftarrow> fs. x \<le> c] = []" if "c < f" using Cons.prems that by (auto simp: filter_empty_conv)
  with Cons find_factor_shift [of c fs 0] show ?case by auto
qed simp

definition largest_factor :: "int \<Rightarrow> int \<Rightarrow> int" where
  "largest_factor c n = Max {d. 0 < d \<and> d dvd n \<and> d \<le> c}"

lemma sorted_filter_prefix:
  "sorted fs \<Longrightarrow> [f \<leftarrow> fs. f \<le> (c :: int)] = take (length [f \<leftarrow> fs. f \<le> c]) fs"
proof (induction fs)
  case (Cons f fs)
  have "[x \<leftarrow> fs. x \<le> c] = []" if "c < f" using Cons.prems that by (auto simp: filter_empty_conv)
  with Cons show ?case by auto
qed simp

lemma fallback_factor:
  assumes "0 < n" "1 \<le> c" "get_factors n = Inr fs"
  shows "0 \<le> find_factor c fs 0 \<and> fs ! nat (find_factor c fs 0) = largest_factor c n"
proof -
  have fs: "set fs = {d. 0 < d \<and> d dvd n}" "sorted fs"
    using get_factors_eq [OF assms(1)] assms(3) by (metis sum.inject(2))+
  define gs where "gs = [f \<leftarrow> fs. f \<le> c]"
  have "1 \<in> set gs" using fs assms(2) by (simp add: gs_def)
  then have ne: "gs \<noteq> []" by auto
  have gs: "set gs = {d. 0 < d \<and> d dvd n \<and> d \<le> c}" "sorted gs"
    using fs by (auto simp: gs_def sorted_wrt_filter)
  have ff: "find_factor c fs 0 = int (length gs) - 1" using find_factor_eq [OF fs(2)] by (simp add: gs_def)
  have pre: "gs = take (length gs) fs" using sorted_filter_prefix [OF fs(2), of c] by (simp add: gs_def)
  have "fs ! (length gs - 1) = last gs"
    using ne pre by (metis last_conv_nth diff_less length_greater_0_conv nth_take zero_less_one)
  also have "\<dots> = Max (set gs)"
  proof (rule Max_eqI [symmetric])
    show "y \<le> last gs" if "y \<in> set gs" for y
    proof -
      obtain i where "i < length gs" "y = gs ! i" using \<open>y \<in> set gs\<close> by (auto simp: in_set_conv_nth)
      then show ?thesis using gs(2) ne by (simp add: last_conv_nth sorted_nth_mono)
    qed
  qed (use ne in auto)
  finally have "fs ! (length gs - 1) = largest_factor c n" by (simp add: gs(1) largest_factor_def)
  moreover have "nat (int (length gs) - 1) = length gs - 1" "0 \<le> int (length gs) - 1"
    using ne by (auto simp: Suc_le_eq)
  ultimately show ?thesis by (simp add: ff)
qed

lemma largest_factor_props:
  assumes "0 < n" "1 \<le> c"
  shows "0 < largest_factor c n \<and> largest_factor c n dvd n \<and> largest_factor c n \<le> c \<and>
    (\<forall>d. 0 < d \<and> d dvd n \<and> d \<le> c \<longrightarrow> d \<le> largest_factor c n)"
proof -
  let ?S = "{d. 0 < d \<and> d dvd n \<and> d \<le> c}"
  have fin: "finite ?S" using assms(1) by (auto intro: finite_subset [of _ "{0<..n}"] zdvd_imp_le)
  have "1 \<in> ?S" using assms by simp
  then have "Max ?S \<in> ?S" using fin by (metis Max_in empty_iff)
  moreover have "d \<le> Max ?S" if "d \<in> ?S" for d using fin that by (rule Max_ge)
  ultimately show ?thesis by (simp add: largest_factor_def)
qed

text \<open>The specification: from the innermost limit outwards, the largest factor within the limit.\<close>

fun tile :: "int list \<Rightarrow> int \<Rightarrow> int list" where
  "tile [] now = []"
| "tile (c # cs) now = largest_factor c now # tile cs (now div largest_factor c now)"

lemma tile_props:
  "0 < n \<Longrightarrow> \<forall>c\<in>set cs. 1 \<le> c \<Longrightarrow> length (tile cs n) = length cs \<and> (\<forall>f\<in>set (tile cs n). 0 < f) \<and>
    prodlist (tile cs n) dvd n \<and> list_all2 (\<le>) (tile cs n) cs"
proof (induction cs n rule: tile.induct)
  case (2 c cs n)
  define f where "f = largest_factor c n"
  have f: "0 < f" "f dvd n" "f \<le> c" using largest_factor_props [of n c] 2 by (auto simp: f_def)
  have "0 < n div f" using codivisor [OF _ f(1,2)] 2 by simp
  with 2 f_def have IH: "length (tile cs (n div f)) = length cs" "\<forall>f\<in>set (tile cs (n div f)). 0 < f"
    "prodlist (tile cs (n div f)) dvd n div f" "list_all2 (\<le>) (tile cs (n div f)) cs" by auto
  have "f * prodlist (tile cs (n div f)) dvd f * (n div f)" using IH(3) by (rule mult_dvd_mono [OF dvd_refl])
  with IH f show ?case by (simp add: f_def [symmetric])
qed simp

lemma tile_exact:
  "0 < n \<Longrightarrow> \<forall>c\<in>set cs. 1 \<le> c \<Longrightarrow> n \<le> c' \<Longrightarrow> prodlist (tile (cs @ [c']) n) = n"
proof (induction cs n rule: tile.induct)
  case (1 n)
  have "largest_factor c' n = n"
    using largest_factor_props [of n c'] 1 by (metis dvd_refl le_less_trans not_le order_antisym zdvd_imp_le zle_iff_zadd
      int_one_le_iff_zero_less order_trans)
  then show ?case by simp
next
  case (2 c cs n)
  define f where "f = largest_factor c n"
  have f: "0 < f" "f dvd n" using largest_factor_props [of n c] 2 by (auto simp: f_def)
  have "0 < n div f" "n div f \<le> c'"
    using codivisor [OF _ f] 2 f zdiv_mono2 [of n 1 f] by auto
  with 2 f_def f show ?case by simp
qed

lemma get_mutated:
  assumes "get_entity nm cs = Inr e0"
  shows "get_entity nm (mutate_entity nm e cs) = Inr e \<and>
    (\<forall>n. n \<noteq> nm \<longrightarrow> get_entity n (mutate_entity nm e cs) = get_entity n cs)"
proof -
  have same: "get_entity n (mutate_entity nm e cs) = get_entity n cs" if "n \<noteq> nm" for n
    using that by (intro get_entity_same)
      (auto simp: mutate_entity_def set_entity_def update_conv split: option.split slot.split)
  from assms obtain slot where slot: "map_of (cs_entity_map cs) nm = Some slot"
    by (auto simp: get_entity_def bindR_Inr_iff dict_get_Inr)
  have "get_entity nm (mutate_entity nm e cs) = Inr e"
  proof (cases slot)
    case First
    with assms slot obtain sp where sp: "map_of (cs_space_map cs) nm = Some sp" "s_entities sp \<noteq> []"
      by (auto simp: get_entity_def bindR_Inr_iff dict_get_Inr dest!: py_get_Inr) force
    then obtain x xs where "s_entities sp = x # xs" by (cases "s_entities sp") auto
    with slot First sp show ?thesis by (simp add: get_entity_def mutate_entity_def) (simp add: dict_get_def)
  next
    case (Own e')
    with slot show ?thesis by (simp add: get_entity_def mutate_entity_def set_entity_def)
  qed
  with same show ?thesis by blast
qed

lemma fallback_loop_ok:
  assumes "get_entity nm cs = Inr (SplitEntity sz)" "m \<le> length sz" "length limits = length sz"
    and "0 < now" "\<forall>i<m. 1 \<le> limits ! i"
  shows "\<exists>cs'. fallback_loop nm limits (rev [0..<m]) now cs = (Inr (), cs') \<and>
    get_entity nm cs' = Inr (SplitEntity (rev (tile (rev (take m limits)) now) @ drop m sz)) \<and>
    (\<forall>n. n \<noteq> nm \<longrightarrow> get_entity n cs' = get_entity n cs)"
  using assms
proof (induction m arbitrary: cs sz now)
  case 0
  then show ?case by simp
next
  case (Suc m)
  obtain fs where fs: "get_factors now = Inr fs" using get_factors_eq [OF Suc.prems(4)] by metis
  define f where "f = largest_factor (limits ! m) now"
  have c: "1 \<le> limits ! m" using Suc.prems(5) by simp
  have ff: "0 \<le> find_factor (limits ! m) fs 0" "fs ! nat (find_factor (limits ! m) fs 0) = f"
    using fallback_factor [OF Suc.prems(4) c fs] by (auto simp: f_def)
  have f: "0 < f" "f dvd now" using largest_factor_props [OF Suc.prems(4) c] by (auto simp: f_def)
  have now: "0 < now div f" using codivisor [OF Suc.prems(4) f] by simp
  define cs1 where "cs1 = mutate_entity nm (SplitEntity (sz[m := f])) cs"
  have cs1: "get_entity nm cs1 = Inr (SplitEntity (sz[m := f]))" "\<forall>n. n \<noteq> nm \<longrightarrow> get_entity n cs1 = get_entity n cs"
    using get_mutated [OF Suc.prems(1)] by (auto simp: cs1_def)
  have step: "fallback_loop nm limits (rev [0..<Suc m]) now cs =
      fallback_loop nm limits (rev [0..<m]) (now div f) cs1"
    using Suc.prems(1,2) fs ff by (simp add: cs1_def Let_def)
  obtain cs' where cs': "fallback_loop nm limits (rev [0..<m]) (now div f) cs1 = (Inr (), cs')"
    "get_entity nm cs' = Inr (SplitEntity (rev (tile (rev (take m limits)) (now div f)) @ drop m (sz[m := f])))"
    "\<forall>n. n \<noteq> nm \<longrightarrow> get_entity n cs' = get_entity n cs1"
    using Suc.IH [OF cs1(1) _ _ now] Suc.prems by auto
  have "rev (tile (rev (take m limits)) (now div f)) @ drop m (sz[m := f]) =
      rev (tile (rev (take (Suc m) limits)) now) @ drop (Suc m) sz"
  proof -
    have "take (Suc m) limits = take m limits @ [limits ! m]" using Suc.prems by (simp add: take_Suc_conv_app_nth)
    moreover have "drop m (sz[m := f]) = f # drop (Suc m) sz"
      using Suc.prems(2) by (simp add: drop_update_swap flip: Cons_nth_drop_Suc)
    ultimately show ?thesis by (simp add: f_def)
  qed
  with cs' cs1 step show ?case by auto
qed

lemma fallback_loop_error:
  assumes "get_entity nm cs = Inr (SplitEntity sz)" "m \<le> length sz" "length limits = length sz"
    and "0 < now" "i < m" "limits ! i < 1"
  shows "fst (fallback_loop nm limits (rev [0..<m]) now cs) = Inl RuntimeError"
  using assms
proof (induction m arbitrary: cs sz now)
  case 0
  then show ?case by simp
next
  case (Suc m)
  obtain fs where fs: "get_factors now = Inr fs" "set fs = {d. 0 < d \<and> d dvd now}" "sorted fs"
    using get_factors_eq [OF Suc.prems(4)] by metis
  show ?case
  proof (cases "limits ! m < 1")
    case True
    then have "[f \<leftarrow> fs. f \<le> limits ! m] = []" using fs(2) by (auto simp: filter_empty_conv)
    then have "find_factor (limits ! m) fs 0 = -1" using find_factor_eq [OF fs(3)] by simp
    with fs(1) show ?thesis by (simp add: Let_def)
  next
    case False
    define f where "f = largest_factor (limits ! m) now"
    have c: "1 \<le> limits ! m" using False by simp
    have ff: "0 \<le> find_factor (limits ! m) fs 0" "fs ! nat (find_factor (limits ! m) fs 0) = f"
      using fallback_factor [OF Suc.prems(4) c fs(1)] by (auto simp: f_def)
    have f: "0 < f" "f dvd now" using largest_factor_props [OF Suc.prems(4) c] by (auto simp: f_def)
    have now: "0 < now div f" using codivisor [OF Suc.prems(4) f] by simp
    have "i < m" using Suc.prems(5,6) False less_antisym by (cases "i = m") auto
    have "get_entity nm (mutate_entity nm (SplitEntity (sz[m := f])) cs) = Inr (SplitEntity (sz[m := f]))"
      using get_mutated [OF Suc.prems(1)] by blast
    from Suc.IH [OF this _ _ now \<open>i < m\<close>] Suc.prems fs(1) ff show ?thesis by (simp add: Let_def)
  qed
qed

text \<open>
  C23. \<open>fallback_split\<close> on a split knob of positive length: when every limit is \<open>-1\<close> or positive it
  succeeds, and the sizes it writes are positive, within their limits, and of a product that
  divides the length; from the innermost one outwards each is the largest factor of what is left
  that its limit allows. With no limit on the outermost size (and at most 10^10 iterations) the
  product is the whole length. No other knob changes. A limit below 1 other than \<open>-1\<close> makes it
  raise \<open>RuntimeError\<close>.
\<close>

theorem fallback_split_tiles:
  assumes "map_of (cs_space_map cs) nm = Some sp" "s_kind sp = KSplit"
    and "s_num_output sp = int (length sz)" "length constraints = length sz" "0 < s_product sp"
    and "get_entity nm cs = Inr (SplitEntity sz)"
  shows "let limits = map (\<lambda>x. if x \<noteq> -1 then x else 10 ^ 10) constraints in
    if \<forall>c\<in>set limits. 1 \<le> c then
      \<exists>cs' sz'. fallback_split nm constraints cs = (Inr (), cs') \<and>
        get_entity nm cs' = Inr (SplitEntity sz') \<and> sz' = rev (tile (rev limits) (s_product sp)) \<and>
        length sz' = length sz \<and> (\<forall>f\<in>set sz'. 0 < f) \<and> list_all2 (\<le>) sz' limits \<and>
        prodlist sz' dvd s_product sp \<and>
        (constraints \<noteq> [] \<and> hd constraints = -1 \<and> s_product sp \<le> 10 ^ 10 \<longrightarrow> prodlist sz' = s_product sp) \<and>
        (\<forall>n. n \<noteq> nm \<longrightarrow> get_entity n cs' = get_entity n cs)
    else fst (fallback_split nm constraints cs) = Inl RuntimeError"
proof -
  define limits where "limits = map (\<lambda>x. if x \<noteq> -1 then x else (10::int) ^ 10) constraints"
  have len: "length limits = length sz" using assms(4) by (simp add: limits_def)
  obtain slot where "map_of (cs_entity_map cs) nm = Some slot"
    using assms(6) by (auto simp: get_entity_def bindR_Inr_iff dict_get_Inr)
  then have fb: "fallback_split nm constraints cs =
      fallback_loop nm limits (rev [0..<length sz]) (s_product sp) cs"
    using assms by (simp add: fallback_split_def dict_get_def limits_def)
  show ?thesis
  proof (cases "\<forall>c\<in>set limits. 1 \<le> c")
    case True
    define sz' where "sz' = rev (tile (rev limits) (s_product sp))"
    have t: "length (tile (rev limits) (s_product sp)) = length (rev limits) \<and>
        (\<forall>f\<in>set (tile (rev limits) (s_product sp)). 0 < f) \<and>
        prodlist (tile (rev limits) (s_product sp)) dvd s_product sp \<and>
        list_all2 (\<le>) (tile (rev limits) (s_product sp)) (rev limits)"
      using True by (intro tile_props assms(5)) simp
    have "\<forall>i<length sz. 1 \<le> limits ! i" using True len by simp
    from fallback_loop_ok [OF assms(6) order_refl len assms(5) this] obtain cs' where cs':
      "fallback_loop nm limits (rev [0..<length sz]) (s_product sp) cs = (Inr (), cs')"
      "get_entity nm cs' = Inr (SplitEntity sz')" "\<forall>n. n \<noteq> nm \<longrightarrow> get_entity n cs' = get_entity n cs"
      using len by (auto simp: sz'_def)
    have whole: "prodlist sz' = s_product sp"
      if "constraints \<noteq> []" "hd constraints = -1" "s_product sp \<le> 10 ^ 10"
    proof -
      from that obtain cc where "limits = 10 ^ 10 # cc" by (cases constraints) (auto simp: limits_def)
      with tile_exact [OF assms(5), of "rev cc" "10 ^ 10"] True that(3) show ?thesis by (simp add: sz'_def)
    qed
    have "list_all2 (\<le>) sz' limits"
      using t list_all2_rev [of "(\<le>)" "tile (rev limits) (s_product sp)" "rev limits"] by (simp add: sz'_def)
    with t whole cs' fb len True show ?thesis
      unfolding Let_def limits_def [symmetric] if_P [OF True] by (intro exI [of _ cs'] exI [of _ sz']) (auto simp: sz'_def)
  next
    case False
    then obtain i where "i < length sz" "limits ! i < 1" using len by (auto simp: in_set_conv_nth not_le)
    with fallback_loop_error [OF assms(6) order_refl len assms(5)] fb show ?thesis
      unfolding Let_def limits_def [symmetric] if_not_P [OF False] by metis
  qed
qed

lemma fallback_split_tiles_witness:
  "let sp = \<lparr>s_kind = KSplit, s_product = 128, s_num_output = 3, s_entities = [SplitEntity [-1, 1, 1]]\<rparr>;
       cs = (new_fallback_config 0 :: unit config_space)\<lparr>cs_space_map := [(''t'', sp)], cs_entity_map := [(''t'', First)]\<rparr>
   in (\<exists>cs' sz'. fallback_split ''t'' [-1, 8, 4] cs = (Inr (), cs') \<and>
         get_entity ''t'' cs' = Inr (SplitEntity sz') \<and> prodlist sz' = 128 \<and> list_all2 (\<le>) sz' [10 ^ 10, 8, 4]) \<and>
      fst (fallback_split ''t'' [-1, 0, 4] cs) = Inl RuntimeError"
proof -
  define sp :: "unit space" where
    "sp = \<lparr>s_kind = KSplit, s_product = 128, s_num_output = 3, s_entities = [SplitEntity [-1, 1, 1]]\<rparr>"
  define cs where "cs = new_fallback_config 0\<lparr>cs_space_map := [(''t'', sp)], cs_entity_map := [(''t'', First)]\<rparr>"
  have a: "map_of (cs_space_map cs) ''t'' = Some sp" "s_kind sp = KSplit" "s_product sp = 128"
    "s_num_output sp = int (length [-1, 1, 1 :: int])" by (simp_all add: cs_def sp_def)
  have g: "get_entity ''t'' cs = Inr (SplitEntity [-1, 1, 1])"
    by (simp add: get_entity_def cs_def sp_def dict_get_def)
  have "\<exists>cs' sz'. fallback_split ''t'' [-1, 8, 4] cs = (Inr (), cs') \<and>
         get_entity ''t'' cs' = Inr (SplitEntity sz') \<and> prodlist sz' = 128 \<and> list_all2 (\<le>) sz' [10 ^ 10, 8, 4]"
    using fallback_split_tiles [OF a(1,2,4) _ _ g, of "[-1, 8, 4]"] by (auto simp: a(3) Let_def)
  moreover have "fst (fallback_split ''t'' [-1, 0, 4] cs) = Inl RuntimeError"
    using fallback_split_tiles [OF a(1,2,4) _ _ g, of "[-1, 0, 4]"] by (simp add: a(3) Let_def)
  ultimately show ?thesis unfolding cs_def sp_def Let_def by blast
qed

text \<open>
  The fallback from reference logs multiplies the sizes of a logged split and takes the factors
  of the product. A logged size of a split space starts with \<open>-1\<close>, so the product is negative: as
  soon as the first logged configuration has such an entity under the first split knob, the call
  raises \<open>ValueError\<close> and changes nothing.
\<close>

lemma reference_log_rejects_tuned:
  assumes "dict_ok (cs_space_map cs)" and "\<forall>(nm, sp)\<in>set (cs_space_map cs). s_kind sp = KSplit \<longrightarrow> 0 < s_product sp"
    and "knob_names cs = nm # nms" "dict_get cfg nm = Inr (SplitEntity (-1 # t))"
    and "\<forall>f\<in>set t. 0 < f" "prodlist t < 2 ^ 63"
  shows "fallback_with_reference_log (cfg # ref_log) cs = (Inl ValueError, cs)"
proof -
  define fac where "fac nm = bindR (dict_get (cs_space_map cs) nm) (\<lambda>sp.
      bindR (get_factors (s_product sp)) (\<lambda>fs. Inr (nm, fs)))" for nm
  have one: "\<exists>fs. fac n = Inr (n, fs)" if n: "n \<in> set (knob_names cs)" for n
  proof -
    obtain sp where sp: "(n, sp) \<in> set (cs_space_map cs)" "s_kind sp = KSplit"
      using n by (auto simp: knob_names_def)
    then have "map_of (cs_space_map cs) n = Some sp" "0 < s_product sp"
      using assms(1,2) by (auto simp: map_of_dict_iff)
    moreover from this obtain fs where "get_factors (s_product sp) = Inr fs" by (metis get_factors_eq)
    ultimately show ?thesis by (simp add: fac_def dict_get_def)
  qed
  have all: "\<exists>gs. mapR fac ns = Inr gs \<and> map fst gs = ns" if "set ns \<subseteq> set (knob_names cs)" for ns
    using that
  proof (induction ns)
    case (Cons n ns)
    then show ?case using one [of n] by auto
  qed simp
  then obtain gs where gs: "mapR fac (nm # nms) = Inr gs" "map fst gs = nm # nms"
    using all [of "nm # nms"] assms(3) by auto
  then obtain fs gs' where g: "gs = (nm, fs) # gs'" by (cases gs) auto
  have "0 < prodlist t" using assms(5) by (intro prodlist_pos_int) auto
  then have "int64 (prodlist (-1 # t)) = - prodlist t" using assms(6) by (simp add: int64_def)
  then have "get_factors (int64 (prodlist (-1 # t))) = Inl ValueError"
    using \<open>0 < prodlist t\<close> by (simp add: get_factors_def Let_def)
  then have "best_match gs (cfg # ref_log) = Inl ValueError"
    using assms(4) by (simp add: best_match_def g)
  moreover have "(\<lambda>nm. bindR (dict_get (cs_space_map cs) nm) (\<lambda>sp.
      bindR (get_factors (s_product sp)) (\<lambda>fs. Inr (nm, fs)))) = fac"
    by (rule ext) (simp only: fac_def)
  ultimately show ?thesis
    using gs(1) by (simp only: fallback_with_reference_log_def assms(3) Let_def bindR_simps sum.case)
qed

lemma add_keeps_length: "add_new_transform enum nm t cs = (r, cs') \<Longrightarrow> cs_length cs' = cs_length cs"
  by (auto simp: add_new_transform_def set_entity_def Let_def split: if_splits prod.splits sum.splits)

text \<open>
  The length of a configuration space is computed once: when it has been asked for, a knob
  that is defined afterwards does not change it, and the configurations beyond the old length
  cannot be got.
\<close>

theorem length_is_stale:
  assumes "config_len cs = (Inr n, cs1)" "add_new_transform enum nm t cs1 = (r, cs2)"
  shows "fst (config_len cs2) = Inr n \<and> (\<forall>i. n \<le> i \<longrightarrow> fst (config_get i cs2) = Inl IndexError)"
proof -
  have "cs_length cs1 = Some n \<and> 0 \<le> n"
    using assms(1) by (auto simp: config_len_def Let_def split: if_splits)
  then have "cs_length cs2 = Some n" "0 \<le> n" using add_keeps_length [OF assms(2)] by simp_all
  then show ?thesis by (simp add: config_get_def config_len_def)
qed

lemma length_is_stale_witness:
  "let cs = new_config_space 0; cs1 = snd (config_len cs);
       cs2 = snd (define_knob remdups ''k'' [True, False] cs1) in
   fst (config_len cs2) = Inr 1 \<and> prodlist (dims cs2) = 2 \<and> fst (config_get 1 cs2) = Inl IndexError"
proof -
  define cs1 where "cs1 = snd (config_len (new_config_space 0 :: bool config_space))"
  have c: "config_len (new_config_space 0 :: bool config_space) = (Inr 1, cs1)"
    by (simp add: config_len_def cs1_def Let_def new_config_space_def dims_def int64_def)
  obtain r cs2 where d: "add_new_transform remdups ''k'' (TOther [True, False]) cs1 = (r, cs2)" by fastforce
  then have "prodlist (dims cs2) = 2"
    by (auto simp: add_new_transform_def cs1_def config_len_def Let_def new_config_space_def dims_def
        make_space_def other_space_def kwarg_def)
  with length_is_stale [OF c d] c d show ?thesis by (simp add: Let_def define_knob_def)
qed

end
