(* ===== verification/TuneLoop.thy ===== *)
theory TuneLoop
  imports Prelude "HOL-Library.Multiset"
begin

text \<open>
  The tuning loop \<open>Tuner.tune\<close> of \<open>tvm/python/tvm/autotvm/tuner/tuner.py\<close> and the tuners of
  \<open>index_based_tuner.py\<close>. A configuration is its index in the configuration space, measuring is a
  parameter that gives one result per configuration, and random numbers are read from a stream.
  Scores are rationals; a mean cost of 0 (no measured time at all) is outside the model.
\<close>

section \<open>Random numbers\<close>

record rng =
  rng_draws :: "nat \<Rightarrow> nat"
  rng_pos :: nat

text \<open>\<open>np.random.randint(n)\<close>; it raises on an empty range.\<close>

definition randint :: "int \<Rightarrow> rng \<Rightarrow> (int \<times> rng) res" where
  "randint n g =
     (if n \<le> 0 then Inl ValueError
      else Inr (int (rng_draws g (rng_pos g)) mod n, g\<lparr>rng_pos := Suc (rng_pos g)\<rparr>))"

lemma randint_Inr: "0 < n \<Longrightarrow> \<exists>k g'. randint n g = Inr (k, g') \<and> 0 \<le> k \<and> k < n"
  by (simp add: randint_def)

section \<open>Measurement results\<close>

text \<open>A result: the costs of the runs, or the error number and message.\<close>

datatype mres = MOk "rat list" | MErr int string

definition mean :: "rat list \<Rightarrow> rat" where
  "mean xs = sumlist xs / of_nat (length xs)"

fun flops_of :: "rat \<Rightarrow> mres \<Rightarrow> rat" where
  "flops_of flop (MOk costs) = flop / mean costs"
| "flops_of flop (MErr _ _) = 0"

section \<open>The tuning loop\<close>

text \<open>What a tuner class provides, as functions on its state.\<close>

record ('s, 'c) tuner_ops =
  op_has_next :: "'s \<Rightarrow> bool"
  op_next_batch :: "nat \<Rightarrow> 's \<Rightarrow> ('c list \<times> 's) res"
  op_update :: "'c list \<Rightarrow> mres list \<Rightarrow> 's \<Rightarrow> 's res"

record tune_opts =
  o_n_parallel :: nat
  o_n_trial :: nat
  o_early_stopping :: "nat option"
  o_flop :: rat

text \<open>
  The tuner and the local variables of the loop. \<open>tr_done\<close> is the history: what was measured, with
  its score.
\<close>

record ('s, 'c) trun =
  tr_state :: 's
  tr_best_config :: "'c option"
  tr_best_flops :: rat
  tr_best_iter :: nat
  tr_i :: nat
  tr_error_ct :: nat
  tr_errors :: "string list"
  tr_ttl :: "int option"
  tr_done :: "('c \<times> rat) list"

definition new_run :: "'s \<Rightarrow> ('s, 'c) trun" where
  "new_run s = \<lparr>tr_state = s, tr_best_config = None, tr_best_flops = 0, tr_best_iter = 0, tr_i = 0,
     tr_error_ct = 0, tr_errors = [], tr_ttl = None, tr_done = []\<rparr>"

text \<open>The body of \<open>for k, (inp, res) in enumerate(zip(inputs, results))\<close>.\<close>

definition keep_best :: "rat \<Rightarrow> nat \<times> 'c \<times> mres \<Rightarrow> ('s, 'c) trun \<Rightarrow> ('s, 'c) trun" where
  "keep_best flop p r =
     (case p of (k, config, result) \<Rightarrow>
       let flops = flops_of flop result;
           r1 = (case result of
                   MOk _ \<Rightarrow> r\<lparr>tr_error_ct := 0\<rparr>
                 | MErr _ msg \<Rightarrow> r\<lparr>tr_error_ct := tr_error_ct r + 1, tr_errors := tr_errors r @ [msg]\<rparr>);
           r2 = (if flops > tr_best_flops r1
                 then r1\<lparr>tr_best_flops := flops, tr_best_config := Some config, tr_best_iter := tr_i r1 + k\<rparr>
                 else r1)
       in r2\<lparr>tr_done := tr_done r2 @ [(config, flops)]\<rparr>)"

definition early_limit :: "tune_opts \<Rightarrow> nat" where
  "early_limit opts =
     (case o_early_stopping opts of None \<Rightarrow> 10 ^ 9 | Some e \<Rightarrow> if e = 0 then 10 ^ 9 else e)"

text \<open>
  One round, with \<open>meas i c\<close> the result of the \<open>i\<close>-th measurement. The Boolean says that the
  loop goes on.
\<close>

definition tune_round ::
  "('s, 'c) tuner_ops \<Rightarrow> tune_opts \<Rightarrow> (nat \<Rightarrow> 'c \<Rightarrow> mres) \<Rightarrow> ('s, 'c) trun \<Rightarrow> (bool \<times> ('s, 'c) trun) res" where
  "tune_round ops opts meas r =
     (if \<not> op_has_next ops (tr_state r) then Inr (False, r)
      else bindR (op_next_batch ops (min (o_n_parallel opts) (o_n_trial opts - tr_i r)) (tr_state r))
        (\<lambda>(configs, s).
          let results = map (\<lambda>(k, c). meas (tr_i r + k) c) (zip [0..<length configs] configs);
              r1 = fold (keep_best (o_flop opts)) (zip [0..<length configs] (zip configs results)) (r\<lparr>tr_state := s\<rparr>);
              i = tr_i r1 + length results;
              r2 = r1\<lparr>tr_i := i,
                      tr_ttl := Some (int (min (early_limit opts + tr_best_iter r1) (o_n_trial opts)) - int i)\<rparr>
          in bindR (op_update ops configs results (tr_state r2)) (\<lambda>s'.
               Inr (i < tr_best_iter r2 + early_limit opts, r2\<lparr>tr_state := s'\<rparr>))))"

fun tune_loop ::
  "('s, 'c) tuner_ops \<Rightarrow> tune_opts \<Rightarrow> (nat \<Rightarrow> 'c \<Rightarrow> mres) \<Rightarrow> nat \<Rightarrow> ('s, 'c) trun \<Rightarrow> ('s, 'c) trun res" where
  "tune_loop ops opts meas 0 r = Inl OutOfFuel"
| "tune_loop ops opts meas (Suc fuel) r =
     (if tr_i r < o_n_trial opts then
        bindR (tune_round ops opts meas r) (\<lambda>(go, r').
          if go then tune_loop ops opts meas fuel r' else Inr r')
      else Inr r)"

text \<open>
  \<open>tune\<close> on a new tuner, with whether the errors are written to a file (\<open>error_ct == i\<close>) and the
  value in which the global flag \<open>in_tuning\<close> is left: an exception skips its reset.
\<close>

definition tune ::
  "('s, 'c) tuner_ops \<Rightarrow> tune_opts \<Rightarrow> (nat \<Rightarrow> 'c \<Rightarrow> mres) \<Rightarrow> nat \<Rightarrow> 's \<Rightarrow>
     (('s, 'c) trun \<times> string list option) res \<times> bool" where
  "tune ops opts meas fuel s =
     (case tune_loop ops opts meas fuel (new_run s) of
        Inl e \<Rightarrow> (Inl e, True)
      | Inr r \<Rightarrow> (Inr (r, if tr_error_ct r = tr_i r then Some (tr_errors r) else None), False))"

text \<open>The kept best is the earliest maximum of what was measured, if anything scored above 0.\<close>

definition best_of :: "('c \<times> rat) list \<Rightarrow> 'c option \<Rightarrow> rat \<Rightarrow> nat \<Rightarrow> bool" where
  "best_of hist c f k \<longleftrightarrow>
     0 \<le> f \<and> (\<forall>p\<in>set hist. snd p \<le> f) \<and>
     (case c of None \<Rightarrow> f = 0
      | Some c' \<Rightarrow> 0 < f \<and> k < length hist \<and> hist ! k = (c', f) \<and> (\<forall>j<k. snd (hist ! j) < f))"

section \<open>The interface of a tuner\<close>

text \<open>
  What the loop needs of a tuner to end: while there is a next configuration, a batch is not empty
  and not larger than asked for. \<open>emitted\<close> is what the tuner has handed out so far.
\<close>

locale batch_tuner =
  fixes ops :: "('s, 'c) tuner_ops"
    and inv :: "'s \<Rightarrow> bool"
    and emitted :: "'s \<Rightarrow> 'c list"
  assumes batch: "inv s \<Longrightarrow> op_has_next ops s \<Longrightarrow> 0 < b \<Longrightarrow>
      \<exists>cs s'. op_next_batch ops b s = Inr (cs, s') \<and> inv s' \<and> cs \<noteq> [] \<and> length cs \<le> b \<and>
        emitted s' = emitted s @ cs"
    and upd: "inv s \<Longrightarrow> \<exists>s'. op_update ops cs rs s = Inr s' \<and> inv s' \<and> emitted s' = emitted s"
begin

definition run_ok :: "tune_opts \<Rightarrow> 'c list \<Rightarrow> ('s, 'c) trun \<Rightarrow> bool" where
  "run_ok opts start r \<longleftrightarrow>
     inv (tr_state r) \<and> length (tr_done r) = tr_i r \<and> tr_i r \<le> o_n_trial opts \<and>
     emitted (tr_state r) = start @ map fst (tr_done r) \<and>
     best_of (tr_done r) (tr_best_config r) (tr_best_flops r) (tr_best_iter r)"

lemma best_of_step:
  assumes "best_of hist c f k"
  shows "if f < x then best_of (hist @ [(c', x)]) (Some c') x (length hist)
    else best_of (hist @ [(c', x)]) c f k"
proof (cases "f < x")
  case True
  have le: "snd p \<le> f" if "p \<in> set hist" for p using assms that by (simp add: best_of_def)
  have "snd ((hist @ [(c', x)]) ! j) < x" if "j < length hist" for j
    using le [OF nth_mem [OF that]] that True by (simp add: nth_append)
  moreover have "0 < x" using assms True by (simp add: best_of_def)
  moreover have "snd p \<le> x" if "p \<in> set (hist @ [(c', x)])" for p using le that True by fastforce
  ultimately show ?thesis using True by (simp add: best_of_def)
next
  case False
  with assms show ?thesis by (cases c) (auto simp: best_of_def nth_append)
qed

lemma keep_best_fold:
  assumes "best_of (tr_done r) (tr_best_config r) (tr_best_flops r) (tr_best_iter r)"
    and "length (tr_done r) = tr_i r + k" "length rs = length cs"
  shows "let r' = fold (keep_best flop) (zip [k..<k + length cs] (zip cs rs)) r in
    best_of (tr_done r') (tr_best_config r') (tr_best_flops r') (tr_best_iter r') \<and>
    map fst (tr_done r') = map fst (tr_done r) @ cs \<and> tr_i r' = tr_i r \<and> tr_state r' = tr_state r"
  using assms
proof (induction cs arbitrary: k rs r)
  case Nil
  then show ?case by (simp add: Let_def)
next
  case (Cons c cs)
  then obtain x rs' where rs: "rs = x # rs'" by (cases rs) auto
  define r1 where "r1 = keep_best flop (k, c, x) r"
  have d: "tr_done r1 = tr_done r @ [(c, flops_of flop x)]" "tr_i r1 = tr_i r" "tr_state r1 = tr_state r"
    by (auto simp: r1_def keep_best_def Let_def split: mres.split)
  have b: "best_of (tr_done r1) (tr_best_config r1) (tr_best_flops r1) (tr_best_iter r1)"
    using best_of_step [OF Cons.prems(1), of "flops_of flop x" c] Cons.prems(2)
    by (cases x) (auto simp: r1_def keep_best_def Let_def split: if_splits)
  have "zip [k..<k + length (c # cs)] (zip (c # cs) rs) = (k, c, x) # zip [Suc k..<Suc k + length cs] (zip cs rs')"
    by (simp add: rs upt_conv_Cons del: upt_Suc)
  then have f: "fold (keep_best flop) (zip [k..<k + length (c # cs)] (zip (c # cs) rs)) r =
      fold (keep_best flop) (zip [Suc k..<Suc k + length cs] (zip cs rs')) r1"
    by (simp add: r1_def)
  have l: "length (tr_done r1) = tr_i r1 + Suc k" "length rs' = length cs"
    using Cons.prems rs d by auto
  from Cons.IH [OF b l] show ?case unfolding f by (simp add: Let_def d)
qed

lemma round_ok:
  assumes "run_ok opts start r" "tr_i r < o_n_trial opts" "0 < o_n_parallel opts"
  shows "\<exists>go r'. tune_round ops opts meas r = Inr (go, r') \<and> run_ok opts start r' \<and>
    (go \<longrightarrow> tr_i r < tr_i r') \<and>
    (\<not> go \<longrightarrow> \<not> op_has_next ops (tr_state r') \<or> tr_best_iter r' + early_limit opts \<le> tr_i r')"
proof (cases "op_has_next ops (tr_state r)")
  case False
  with assms(1) show ?thesis by (intro exI [of _ False] exI [of _ r]) (simp add: tune_round_def)
next
  case True
  define b where "b = min (o_n_parallel opts) (o_n_trial opts - tr_i r)"
  have "0 < b" using assms by (simp add: b_def)
  have iv: "inv (tr_state r)" using assms(1) by (simp add: run_ok_def)
  obtain cs s where cs: "op_next_batch ops b (tr_state r) = Inr (cs, s)"
    "inv s" "cs \<noteq> []" "length cs \<le> b" "emitted s = emitted (tr_state r) @ cs"
    using batch [OF iv True \<open>0 < b\<close>] by blast
  define rs where "rs = map (\<lambda>(k, c). meas (tr_i r + k) c) (zip [0..<length cs] cs)"
  define r1 where "r1 = fold (keep_best (o_flop opts)) (zip [0..<length cs] (zip cs rs)) (r\<lparr>tr_state := s\<rparr>)"
  have r1: "best_of (tr_done r1) (tr_best_config r1) (tr_best_flops r1) (tr_best_iter r1)"
    "map fst (tr_done r1) = map fst (tr_done r) @ cs" "tr_i r1 = tr_i r" "tr_state r1 = s"
    using keep_best_fold [of "r\<lparr>tr_state := s\<rparr>" 0 rs cs "o_flop opts"] assms(1)
    by (auto simp: Let_def run_ok_def rs_def r1_def)
  define r2 where "r2 = r1\<lparr>tr_i := tr_i r1 + length rs, tr_ttl :=
    Some (int (min (early_limit opts + tr_best_iter r1) (o_n_trial opts)) - int (tr_i r1 + length rs))\<rparr>"
  obtain s' where s': "op_update ops cs rs s = Inr s'" "inv s'" "emitted s' = emitted s"
    using upd [OF cs(2)] by blast
  have eq: "tune_round ops opts meas r =
      Inr (tr_i r1 + length rs < tr_best_iter r2 + early_limit opts, r2\<lparr>tr_state := s'\<rparr>)"
    using True cs(1) s'(1) r1(4)
    by (simp add: tune_round_def Let_def b_def [symmetric] rs_def [symmetric] r1_def [symmetric] r2_def [symmetric])
      (simp add: r2_def rs_def)
  have len: "length rs = length cs" by (simp add: rs_def)
  have "length (tr_done r1) = length (tr_done r) + length cs"
    using arg_cong [OF r1(2), of length] by simp
  then have "run_ok opts start (r2\<lparr>tr_state := s'\<rparr>)"
    using assms(1,2) cs r1 s' len
    by (auto simp: run_ok_def r2_def b_def)
  then show ?thesis using eq cs(3) r1(3) len by (auto simp: r2_def)
qed

text \<open>The loop ends, within one round per measurement.\<close>

lemma loop_ok:
  assumes "run_ok opts start r" "0 < o_n_parallel opts" "o_n_trial opts - tr_i r < fuel"
  shows "\<exists>r'. tune_loop ops opts meas fuel r = Inr r' \<and> run_ok opts start r' \<and>
    (tr_i r' = o_n_trial opts \<or> \<not> op_has_next ops (tr_state r') \<or>
     tr_best_iter r' + early_limit opts \<le> tr_i r')"
  using assms
proof (induction fuel arbitrary: r)
  case 0
  then show ?case by simp
next
  case (Suc fuel)
  show ?case
  proof (cases "tr_i r < o_n_trial opts")
    case False
    with Suc.prems show ?thesis by (auto simp: run_ok_def)
  next
    case True
    obtain go r' where r': "tune_round ops opts meas r = Inr (go, r')" "run_ok opts start r'"
      "go \<longrightarrow> tr_i r < tr_i r'"
      "\<not> go \<longrightarrow> \<not> op_has_next ops (tr_state r') \<or> tr_best_iter r' + early_limit opts \<le> tr_i r'"
      using round_ok [OF Suc.prems(1) True Suc.prems(2)] by blast
    show ?thesis
    proof (cases go)
      case False
      with True r' show ?thesis by auto
    next
      case go: True
      with r' True Suc.prems(3) have "o_n_trial opts - tr_i r' < fuel" by linarith
      with Suc.IH [OF r'(2) Suc.prems(2)] r' True go show ?thesis by simp
    qed
  qed
qed

lemma tune_ok:
  assumes "inv s" "0 < o_n_parallel opts" "o_n_trial opts < fuel"
  shows "\<exists>r out. tune ops opts meas fuel s = (Inr (r, out), False) \<and> run_ok opts (emitted s) r \<and>
    (tr_i r = o_n_trial opts \<or> \<not> op_has_next ops (tr_state r) \<or> tr_best_iter r + early_limit opts \<le> tr_i r)"
proof -
  have "run_ok opts (emitted s) (new_run s)"
    using assms(1) by (simp add: run_ok_def new_run_def best_of_def)
  moreover have "o_n_trial opts - tr_i (new_run s) < fuel" using assms(3) by (simp add: new_run_def)
  ultimately obtain r' where "tune_loop ops opts meas fuel (new_run s) = Inr r'" "run_ok opts (emitted s) r'"
    "tr_i r' = o_n_trial opts \<or> \<not> op_has_next ops (tr_state r') \<or> tr_best_iter r' + early_limit opts \<le> tr_i r'"
    using loop_ok assms(2) by blast
  then show ?thesis by (auto simp: tune_def)
qed

end

section \<open>Grid search and random search\<close>

text \<open>\<open>config_space.get(index)\<close> of a space of that many configurations.\<close>

definition space_get :: "int \<Rightarrow> int \<Rightarrow> int res" where
  "space_get len index = (if index < 0 \<or> index \<ge> len then Inl IndexError else Inr index)"

record index_tuner =
  it_space_len :: int
  it_range_length :: int
  it_offset :: int
  it_counter :: int

definition new_index_tuner :: "int \<Rightarrow> (int \<times> int) option \<Rightarrow> index_tuner res" where
  "new_index_tuner space_len range_idx =
     (case range_idx of
        None \<Rightarrow> Inr \<lparr>it_space_len = space_len, it_range_length = space_len, it_offset = 0, it_counter = 0\<rparr>
      | Some (a, b) \<Rightarrow>
          bindR (guardR (b > a) AssertionError) (\<lambda>_. bindR (guardR (a \<ge> 0) AssertionError) (\<lambda>_.
            Inr \<lparr>it_space_len = space_len, it_range_length = b - a + 1, it_offset = a, it_counter = 0\<rparr>)))"

definition index_has_next :: "('a index_tuner_scheme) \<Rightarrow> bool" where
  "index_has_next t \<longleftrightarrow> it_counter t < it_range_length t"

fun grid_next_batch :: "nat \<Rightarrow> index_tuner \<Rightarrow> (int list \<times> index_tuner) res" where
  "grid_next_batch 0 t = Inr ([], t)"
| "grid_next_batch (Suc b) t =
     (if it_counter t \<ge> it_range_length t then Inr ([], t)
      else bindR (space_get (it_space_len t) (it_counter t + it_offset t)) (\<lambda>c.
           bindR (grid_next_batch b (t\<lparr>it_counter := it_counter t + 1\<rparr>)) (\<lambda>(cs, t').
             Inr (c # cs, t'))))"

text \<open>
  The random tuner keeps a dictionary in place of the list of the indices that are left: position
  \<open>i\<close> of that list holds \<open>i\<close> unless the dictionary says otherwise.
\<close>

record random_tuner = index_tuner +
  rt_state :: "int \<rightharpoonup> int"
  rt_max :: int
  rt_visited :: "int list"

definition new_random_tuner :: "int \<Rightarrow> (int \<times> int) option \<Rightarrow> random_tuner res" where
  "new_random_tuner space_len range_idx =
     bindR (new_index_tuner space_len range_idx) (\<lambda>t.
       Inr (index_tuner.extend t \<lparr>rt_state = Map.empty, rt_max = it_range_length t, rt_visited = []\<rparr>))"

definition state_get :: "(int \<rightharpoonup> int) \<Rightarrow> int \<Rightarrow> int" where
  "state_get m i = (case m i of None \<Rightarrow> i | Some v \<Rightarrow> v)"

fun random_next_batch :: "nat \<Rightarrow> random_tuner \<times> rng \<Rightarrow> (int list \<times> random_tuner \<times> rng) res" where
  "random_next_batch 0 (t, g) = Inr ([], t, g)"
| "random_next_batch (Suc b) (t, g) =
     (if rt_max t = 0 then Inr ([], t, g)
      else bindR (randint (rt_max t) g) (\<lambda>(index', g').
        let rand_max = rt_max t - 1;
            index = state_get (rt_state t) index' + it_offset t
        in bindR (space_get (it_space_len t) index) (\<lambda>c.
             let m1 = (rt_state t)(index' \<mapsto> state_get (rt_state t) rand_max);
                 t' = t\<lparr>rt_max := rand_max, rt_visited := rt_visited t @ [index],
                        rt_state := m1(rand_max := None), it_counter := it_counter t + 1\<rparr>
             in bindR (random_next_batch b (t', g')) (\<lambda>(cs, r). Inr (c # cs, r)))))"

definition grid_ops :: "(index_tuner, int) tuner_ops" where
  "grid_ops = \<lparr>op_has_next = index_has_next, op_next_batch = grid_next_batch, op_update = (\<lambda>_ _ t. Inr t)\<rparr>"

definition random_ops :: "(random_tuner \<times> rng, int) tuner_ops" where
  "random_ops = \<lparr>op_has_next = (\<lambda>(t, _). index_has_next t), op_next_batch = random_next_batch,
     op_update = (\<lambda>_ _ t. Inr t)\<rparr>"

section \<open>The tuners keep the laws of the loop\<close>

definition index_ok :: "('a index_tuner_scheme) \<Rightarrow> bool" where
  "index_ok t \<longleftrightarrow> 0 \<le> it_counter t \<and> it_counter t \<le> it_range_length t \<and> 0 \<le> it_offset t \<and>
     it_offset t + it_range_length t \<le> it_space_len t"

definition grid_emitted :: "index_tuner \<Rightarrow> int list" where
  "grid_emitted t = map (\<lambda>k. it_offset t + int k) [0..<nat (it_counter t)]"

lemma grid_batch:
  "index_ok t \<Longrightarrow> \<exists>cs t'. grid_next_batch b t = Inr (cs, t') \<and> index_ok t' \<and>
     int (length cs) = min (int b) (it_range_length t - it_counter t) \<and>
     grid_emitted t' = grid_emitted t @ cs \<and> it_offset t' = it_offset t \<and> it_range_length t' = it_range_length t"
proof (induction b arbitrary: t)
  case 0
  then show ?case by (simp add: index_ok_def)
next
  case (Suc b)
  show ?case
  proof (cases "it_counter t \<ge> it_range_length t")
    case True
    with Suc.prems show ?thesis by (simp add: index_ok_def)
  next
    case False
    define t1 where "t1 = t\<lparr>it_counter := it_counter t + 1\<rparr>"
    have ok: "index_ok t1" using Suc.prems False by (simp add: t1_def index_ok_def)
    then obtain cs t' where b: "grid_next_batch b t1 = Inr (cs, t')" "index_ok t'"
      "int (length cs) = min (int b) (it_range_length t1 - it_counter t1)"
      "grid_emitted t' = grid_emitted t1 @ cs" "it_offset t' = it_offset t1"
      "it_range_length t' = it_range_length t1" using Suc.IH by blast
    have g: "space_get (it_space_len t) (it_counter t + it_offset t) = Inr (it_counter t + it_offset t)"
      using Suc.prems False by (simp add: space_get_def index_ok_def)
    have "nat (it_counter t + 1) = Suc (nat (it_counter t))"
      using Suc.prems unfolding index_ok_def by linarith
    then have "grid_emitted t1 = grid_emitted t @ [it_counter t + it_offset t]"
      using Suc.prems by (simp add: grid_emitted_def t1_def index_ok_def)
    with b g False show ?thesis by (simp add: t1_def [symmetric]) (simp add: t1_def)
  qed
qed

definition grid_inv :: "int \<Rightarrow> int \<Rightarrow> index_tuner \<Rightarrow> bool" where
  "grid_inv offset range_length t \<longleftrightarrow>
     index_ok t \<and> it_offset t = offset \<and> it_range_length t = range_length"

interpretation grid: batch_tuner grid_ops "grid_inv offset range_length" grid_emitted
  for offset range_length
proof
  fix s :: index_tuner and b :: nat
  assume s: "grid_inv offset range_length s" "op_has_next grid_ops s" "0 < b"
  then have ok: "index_ok s" by (simp add: grid_inv_def)
  from s have "0 < min (int b) (it_range_length s - it_counter s)"
    by (simp add: grid_ops_def index_has_next_def)
  with grid_batch [OF ok, of b] s(1) show "\<exists>cs s'. op_next_batch grid_ops b s = Inr (cs, s') \<and>
      grid_inv offset range_length s' \<and> cs \<noteq> [] \<and> length cs \<le> b \<and> grid_emitted s' = grid_emitted s @ cs"
    by (fastforce simp: grid_ops_def grid_inv_def)
qed (simp add: grid_ops_def)

text \<open>The list that the dictionary stands for, and the invariant of the random tuner.\<close>

definition remaining :: "random_tuner \<Rightarrow> int list" where
  "remaining t = map (\<lambda>j. state_get (rt_state t) (int j)) [0..<nat (rt_max t)]"

definition random_ok :: "random_tuner \<times> rng \<Rightarrow> bool" where
  "random_ok s = (case s of (t, _) \<Rightarrow> index_ok t \<and> rt_max t = it_range_length t - it_counter t \<and>
     mset (map (\<lambda>i. i + it_offset t) (remaining t)) + mset (rt_visited t) =
       mset (map (\<lambda>j. it_offset t + int j) [0..<nat (it_range_length t)]))"

text \<open>One draw takes an element out of the list and puts the last one in its place.\<close>

lemma remaining_step:
  assumes "0 \<le> k" "k < rt_max t"
    and "rt_state t' = ((rt_state t)(k \<mapsto> state_get (rt_state t) (rt_max t - 1)))(rt_max t - 1 := None)"
    and "rt_max t' = rt_max t - 1"
  shows "remaining t' = butlast ((remaining t)[nat k := last (remaining t)]) \<and>
    mset (remaining t) = add_mset (state_get (rt_state t) k) (mset (remaining t'))"
proof
  define n where "n = nat (rt_max t) - 1"
  have n: "nat (rt_max t) = Suc n" "nat (rt_max t - 1) = n" "rt_max t - 1 = int n" "nat k \<le> n"
    using assms(1,2) unfolding n_def by linarith+
  have r: "remaining t = map (\<lambda>j. state_get (rt_state t) (int j)) [0..<Suc n]"
    by (simp only: remaining_def n)
  have r': "remaining t' = map (\<lambda>j. state_get (rt_state t') (int j)) [0..<n]"
    by (simp only: remaining_def assms(4) n nat_int)
  have last: "last (remaining t) = state_get (rt_state t) (int n)" by (simp add: r)
  have len: "length (remaining t) = Suc n" by (simp add: r)
  show e: "remaining t' = butlast ((remaining t)[nat k := last (remaining t)])"
  proof (rule nth_equalityI)
    show "length (remaining t') = length (butlast ((remaining t)[nat k := last (remaining t)]))"
      by (simp add: r' len)
    fix i assume "i < length (remaining t')"
    then have i: "i < n" by (simp add: r')
    have "remaining t' ! i = state_get (rt_state t') (int i)" using i by (simp add: r')
    also have "\<dots> = (if int i = k then state_get (rt_state t) (int n) else state_get (rt_state t) (int i))"
      using i by (simp add: state_get_def assms(3) n(3))
    also have "\<dots> = (remaining t)[nat k := last (remaining t)] ! i"
      using i assms(1) n(4) len last
      by (auto simp: nth_list_update nat_eq_iff) (auto simp: r simp del: upt_Suc)
    finally show "remaining t' ! i = butlast ((remaining t)[nat k := last (remaining t)]) ! i"
      using i len by (simp add: nth_butlast)
  qed
  define L where "L = (remaining t)[nat k := last (remaining t)]"
  have lk: "nat k < length (remaining t)" using len n(4) by simp
  have ne: "L \<noteq> []" using len by (auto simp: L_def)
  have "last L = last (remaining t)"
    using lk by (metis L_def last_list_update list.size(3) not_less_zero)
  then have "mset L = add_mset (last (remaining t)) (mset (butlast L))"
    using ne by (metis append_butlast_last_id mset.simps(2) mset_append add.commute add_mset_add_single mset_single_iff mset.simps(1))
  moreover have "add_mset (remaining t ! nat k) (mset L) = add_mset (last (remaining t)) (mset (remaining t))"
    using lk by (simp add: L_def mset_update)
  ultimately have "mset (remaining t) = add_mset (remaining t ! nat k) (mset (butlast L))" by simp
  moreover have "remaining t ! nat k = state_get (rt_state t) k"
    using n(4) assms(1) by (simp add: r del: upt_Suc)
  ultimately show "mset (remaining t) = add_mset (state_get (rt_state t) k) (mset (remaining t'))"
    by (simp add: e L_def)
qed

lemma random_step_ok:
  assumes ok: "random_ok (t, g)" and k: "0 \<le> k" "k < rt_max t"
    and t': "t' = t\<lparr>rt_max := rt_max t - 1, rt_visited := rt_visited t @ [state_get (rt_state t) k + it_offset t],
      rt_state := ((rt_state t)(k \<mapsto> state_get (rt_state t) (rt_max t - 1)))(rt_max t - 1 := None),
      it_counter := it_counter t + 1\<rparr>"
  shows "random_ok (t', g') \<and> space_get (it_space_len t) (state_get (rt_state t) k + it_offset t) =
    Inr (state_get (rt_state t) k + it_offset t)"
proof
  define x where "x = state_get (rt_state t) k + it_offset t"
  have i: "index_ok t" "rt_max t = it_range_length t - it_counter t"
    and m: "mset (map (\<lambda>i. i + it_offset t) (remaining t)) + mset (rt_visited t) =
      mset (map (\<lambda>j. it_offset t + int j) [0..<nat (it_range_length t)])"
    using ok unfolding random_ok_def prod.case by blast+
  have "rt_state t' = ((rt_state t)(k \<mapsto> state_get (rt_state t) (rt_max t - 1)))(rt_max t - 1 := None)"
    "rt_max t' = rt_max t - 1" by (simp_all add: t')
  from remaining_step [OF k this] have r: "mset (remaining t) = add_mset (state_get (rt_state t) k) (mset (remaining t'))"
    by blast
  then have r': "mset (map (\<lambda>i. i + it_offset t) (remaining t)) =
      add_mset x (mset (map (\<lambda>i. i + it_offset t) (remaining t')))" by (simp add: x_def)
  have "x \<in># mset (map (\<lambda>j. it_offset t + int j) [0..<nat (it_range_length t)])"
    using m r' by (metis union_iff union_single_eq_member)
  then have x: "it_offset t \<le> x" "x < it_offset t + it_range_length t" by auto
  with i show "space_get (it_space_len t) (state_get (rt_state t) k + it_offset t) =
      Inr (state_get (rt_state t) k + it_offset t)"
    by (simp add: space_get_def index_ok_def x_def)
  have "index_ok t'" "rt_max t' = it_range_length t' - it_counter t'"
    using i k by (auto simp: t' index_ok_def)
  moreover have "mset (map (\<lambda>i. i + it_offset t') (remaining t')) + mset (rt_visited t') =
      mset (map (\<lambda>j. it_offset t' + int j) [0..<nat (it_range_length t')])"
  proof -
    have f: "it_offset t' = it_offset t" "it_range_length t' = it_range_length t" "rt_visited t' = rt_visited t @ [x]"
      by (simp_all add: t' x_def)
    show ?thesis unfolding f m [symmetric] r' by simp
  qed
  ultimately show "random_ok (t', g')" by (simp add: random_ok_def)
qed

lemma random_batch:
  "random_ok (t, g) \<Longrightarrow> \<exists>cs t' g'. random_next_batch b (t, g) = Inr (cs, t', g') \<and> random_ok (t', g') \<and>
     int (length cs) = min (int b) (rt_max t) \<and> rt_visited t' = rt_visited t @ cs \<and>
     it_offset t' = it_offset t \<and> it_range_length t' = it_range_length t"
proof (induction b arbitrary: t g)
  case 0
  then show ?case by (auto simp: random_ok_def index_ok_def)
next
  case (Suc b)
  have nn: "0 \<le> rt_max t" using Suc.prems by (auto simp: random_ok_def index_ok_def)
  show ?case
  proof (cases "rt_max t = 0")
    case True
    with Suc.prems show ?thesis by simp
  next
    case False
    then obtain k g1 where k: "randint (rt_max t) g = Inr (k, g1)" "0 \<le> k" "k < rt_max t"
      using randint_Inr [of "rt_max t" g] nn by fastforce
    define x where "x = state_get (rt_state t) k + it_offset t"
    define t1 where "t1 = t\<lparr>rt_max := rt_max t - 1, rt_visited := rt_visited t @ [x],
      rt_state := ((rt_state t)(k \<mapsto> state_get (rt_state t) (rt_max t - 1)))(rt_max t - 1 := None),
      it_counter := it_counter t + 1\<rparr>"
    from random_step_ok [OF Suc.prems k(2,3) t1_def [unfolded x_def], of g1]
    have ok: "random_ok (t1, g1)" and sg: "space_get (it_space_len t) x = Inr x" by (auto simp: x_def)
    obtain cs t' g' where b: "random_next_batch b (t1, g1) = Inr (cs, t', g')" "random_ok (t', g')"
      "int (length cs) = min (int b) (rt_max t1)" "rt_visited t' = rt_visited t1 @ cs"
      "it_offset t' = it_offset t1" "it_range_length t' = it_range_length t1"
      using Suc.IH [OF ok] by blast
    have eq: "random_next_batch (Suc b) (t, g) = Inr (x # cs, t', g')"
      using False k(1) sg b(1) by (simp add: Let_def x_def [symmetric] t1_def [symmetric])
    have "int (length (x # cs)) = min (int (Suc b)) (rt_max t)" using b(3) by (simp add: t1_def)
    with eq b show ?thesis by (simp add: t1_def)
  qed
qed

definition random_inv :: "int \<Rightarrow> int \<Rightarrow> random_tuner \<times> rng \<Rightarrow> bool" where
  "random_inv offset range_length s \<longleftrightarrow>
     random_ok s \<and> it_offset (fst s) = offset \<and> it_range_length (fst s) = range_length"

interpretation random: batch_tuner random_ops "random_inv offset range_length" "\<lambda>s. rt_visited (fst s)"
  for offset range_length
proof
  fix s :: "random_tuner \<times> rng" and b :: nat
  assume s: "random_inv offset range_length s" "op_has_next random_ops s" "0 < b"
  obtain t g where tg: "s = (t, g)" by fastforce
  with s have "0 < min (int b) (rt_max t)"
    by (auto simp: random_ops_def index_has_next_def random_ok_def random_inv_def)
  with random_batch [of t g b] s tg show "\<exists>cs s'. op_next_batch random_ops b s = Inr (cs, s') \<and>
      random_inv offset range_length s' \<and> cs \<noteq> [] \<and> length cs \<le> b \<and> rt_visited (fst s') = rt_visited (fst s) @ cs"
    by (fastforce simp: random_ops_def random_inv_def)
qed (auto simp: random_ops_def)

lemma random_ok_distinct:
  assumes "random_ok (t, g)"
  shows "distinct (rt_visited t) \<and> set (rt_visited t) \<subseteq> {it_offset t..<it_offset t + it_range_length t}"
proof -
  define R where "R = map (\<lambda>j. it_offset t + int j) [0..<nat (it_range_length t)]"
  have m: "mset (map (\<lambda>i. i + it_offset t) (remaining t)) + mset (rt_visited t) = mset R"
    using assms by (simp only: random_ok_def R_def prod.case simp_thms)
  then have "mset (map (\<lambda>i. i + it_offset t) (remaining t) @ rt_visited t) = mset R" by simp
  moreover have "distinct R" by (simp add: R_def distinct_map inj_on_def)
  ultimately have "distinct (map (\<lambda>i. i + it_offset t) (remaining t) @ rt_visited t)"
    using mset_eq_imp_distinct_iff by blast
  moreover have "set (rt_visited t) \<subseteq> set R"
    using m by (metis Un_upper2 set_mset_mset set_mset_union)
  ultimately show ?thesis by (auto simp: R_def)
qed

lemma new_index_ok:
  assumes "new_index_tuner n range_idx = Inr t" "it_offset t + it_range_length t \<le> n" "0 \<le> n"
  shows "index_ok t \<and> it_counter t = 0"
  using assms by (auto simp: new_index_tuner_def index_ok_def bindR_Inr_iff split: option.splits)

lemma new_random_ok:
  assumes "new_random_tuner n range_idx = Inr t" "it_offset t + it_range_length t \<le> n" "0 \<le> n"
  shows "random_ok (t, g) \<and> rt_visited t = []"
proof -
  obtain i where i: "new_index_tuner n range_idx = Inr i"
    "t = index_tuner.extend i \<lparr>rt_state = Map.empty, rt_max = it_range_length i, rt_visited = []\<rparr>"
    using assms(1) by (auto simp: new_random_tuner_def bindR_Inr_iff)
  have f: "it_offset t = it_offset i" "it_range_length t = it_range_length i" "it_counter t = it_counter i"
    "it_space_len t = it_space_len i" "rt_max t = it_range_length i" "rt_visited t = []" "rt_state t = Map.empty"
    by (simp_all add: i(2) index_tuner.defs)
  have "index_ok i \<and> it_counter i = 0" by (rule new_index_ok [OF i(1)]) (use assms f in auto)
  moreover have "remaining t = map int [0..<nat (it_range_length i)]"
    by (simp add: remaining_def f state_get_def)
  ultimately show ?thesis
    by (simp add: random_ok_def f index_ok_def add.commute multiset.map_comp o_def)
qed

section \<open>Properties\<close>

text \<open>
  Tuning with a new grid search tuner whose range lies in the space returns, after at most
  \<open>n_trial\<close> measurements: it measures consecutive configurations from the start of the range, and
  stops when the trials are used up, the range is exhausted, or the last improvement is
  \<open>early_stopping\<close> measurements ago. What it keeps is the earliest configuration of the best score.
\<close>

lemma grid_tunes_in_order:
  assumes "new_index_tuner n range_idx = Inr t" "it_offset t + it_range_length t \<le> n" "0 \<le> n"
    and "0 < o_n_parallel opts" "o_n_trial opts < fuel"
  shows "\<exists>r out. tune grid_ops opts meas fuel t = (Inr (r, out), False) \<and> tr_i r \<le> o_n_trial opts \<and>
    map fst (tr_done r) = map (\<lambda>k. it_offset t + int k) [0..<tr_i r] \<and>
    (tr_i r = o_n_trial opts \<or> int (tr_i r) = it_range_length t \<or> tr_best_iter r + early_limit opts \<le> tr_i r) \<and>
    best_of (tr_done r) (tr_best_config r) (tr_best_flops r) (tr_best_iter r)"
proof -
  note t = new_index_ok [OF assms(1-3)]
  have inv: "grid_inv (it_offset t) (it_range_length t) t" using t by (simp add: grid_inv_def)
  obtain r out where r: "tune grid_ops opts meas fuel t = (Inr (r, out), False)"
    "grid.run_ok (it_offset t) (it_range_length t) opts (grid_emitted t) r"
    "tr_i r = o_n_trial opts \<or> \<not> op_has_next grid_ops (tr_state r) \<or> tr_best_iter r + early_limit opts \<le> tr_i r"
    using grid.tune_ok [OF inv assms(4,5)] by blast
  define s where "s = tr_state r"
  have s: "index_ok s" "it_offset s = it_offset t" "it_range_length s = it_range_length t"
    and e: "map fst (tr_done r) = grid_emitted s"
    "length (tr_done r) = tr_i r" "tr_i r \<le> o_n_trial opts"
    "best_of (tr_done r) (tr_best_config r) (tr_best_flops r) (tr_best_iter r)"
    using r(2) t by (simp_all add: grid.run_ok_def grid_inv_def s_def) (simp add: grid_emitted_def)
  have "nat (it_counter s) = tr_i r"
    using arg_cong [OF e(1), of length] e(2) by (simp add: grid_emitted_def)
  moreover have "0 \<le> it_counter s" "it_counter s \<le> it_range_length s" using s(1) by (auto simp: index_ok_def)
  ultimately have c: "it_counter s = int (tr_i r)" by linarith
  have "\<not> op_has_next grid_ops s \<Longrightarrow> int (tr_i r) = it_range_length t"
    using c s \<open>it_counter s \<le> it_range_length s\<close> by (simp add: grid_ops_def index_has_next_def)
  with r(1,3) e c s show ?thesis
    by (auto simp: grid_emitted_def s_def)
qed

text \<open>
  C9. Tuning with a new random tuner whose range lies in the space returns, whatever the random
  numbers are: it never measures a configuration twice nor one outside the range, and when it
  stops because nothing is left it has measured every configuration of the range.
\<close>

theorem random_tunes_without_repetition:
  assumes "new_random_tuner n range_idx = Inr t" "it_offset t + it_range_length t \<le> n" "0 \<le> n"
    and "0 < o_n_parallel opts" "o_n_trial opts < fuel"
  shows "\<exists>r out. tune random_ops opts meas fuel (t, g) = (Inr (r, out), False) \<and> tr_i r \<le> o_n_trial opts \<and>
    length (tr_done r) = tr_i r \<and> distinct (map fst (tr_done r)) \<and>
    set (map fst (tr_done r)) \<subseteq> {it_offset t..<it_offset t + it_range_length t} \<and>
    (tr_i r = o_n_trial opts \<or> set (map fst (tr_done r)) = {it_offset t..<it_offset t + it_range_length t} \<or>
     tr_best_iter r + early_limit opts \<le> tr_i r) \<and>
    best_of (tr_done r) (tr_best_config r) (tr_best_flops r) (tr_best_iter r)"
proof -
  note t = new_random_ok [OF assms(1-3), of g]
  have inv: "random_inv (it_offset t) (it_range_length t) (t, g)" using t by (simp add: random_inv_def)
  obtain r out where r: "tune random_ops opts meas fuel (t, g) = (Inr (r, out), False)"
    "random.run_ok (it_offset t) (it_range_length t) opts (rt_visited (fst (t, g))) r"
    "tr_i r = o_n_trial opts \<or> \<not> op_has_next random_ops (tr_state r) \<or> tr_best_iter r + early_limit opts \<le> tr_i r"
    using random.tune_ok [OF inv assms(4,5)] by blast
  obtain s g' where s: "tr_state r = (s, g')" by fastforce
  have ok: "random_ok (s, g')" "it_offset s = it_offset t" "it_range_length s = it_range_length t"
    and e: "map fst (tr_done r) = rt_visited s" "length (tr_done r) = tr_i r" "tr_i r \<le> o_n_trial opts"
    "best_of (tr_done r) (tr_best_config r) (tr_best_flops r) (tr_best_iter r)"
    using r(2) t s by (simp_all add: random.run_ok_def random_inv_def)
  note d = random_ok_distinct [OF ok(1)]
  have "set (rt_visited s) = {it_offset s..<it_offset s + it_range_length s}" if "\<not> op_has_next random_ops (s, g')"
  proof -
    have "rt_max s = 0" using that ok(1) by (auto simp: random_ops_def index_has_next_def random_ok_def index_ok_def)
    then have "mset (rt_visited s) = mset (map (\<lambda>j. it_offset s + int j) [0..<nat (it_range_length s)])"
      using ok(1) by (simp add: random_ok_def remaining_def)
    then have "set (rt_visited s) = set (map (\<lambda>j. it_offset s + int j) [0..<nat (it_range_length s)])"
      by (metis set_mset_mset)
    also have "\<dots> = {it_offset s..<it_offset s + it_range_length s}"
    proof (rule set_eqI, rule iffI)
      fix x assume "x \<in> {it_offset s..<it_offset s + it_range_length s}"
      then show "x \<in> set (map (\<lambda>j. it_offset s + int j) [0..<nat (it_range_length s)])"
        by (auto intro!: image_eqI [of _ _ "nat (x - it_offset s)"])
    qed auto
    finally show ?thesis .
  qed
  with r(3) s ok(2,3) have "tr_i r = o_n_trial opts \<or>
      set (map fst (tr_done r)) = {it_offset t..<it_offset t + it_range_length t} \<or>
      tr_best_iter r + early_limit opts \<le> tr_i r"
    unfolding e(1) by metis
  moreover have "distinct (map fst (tr_done r))"
    "set (map fst (tr_done r)) \<subseteq> {it_offset t..<it_offset t + it_range_length t}"
    unfolding e(1) using d ok(2,3) by simp_all
  ultimately show ?thesis using r(1) e(2-4) by blast
qed

lemma random_tunes_without_repetition_witness:
  "let opts = \<lparr>o_n_parallel = 4, o_n_trial = 100, o_early_stopping = None, o_flop = 60\<rparr> in
   \<exists>t r out. new_random_tuner 5 None = Inr t \<and>
     tune random_ops opts (\<lambda>i c. MOk [1]) 101 (t, \<lparr>rng_draws = (\<lambda>k. k * k), rng_pos = 0\<rparr>) = (Inr (r, out), False) \<and>
     distinct (map fst (tr_done r)) \<and> set (map fst (tr_done r)) \<subseteq> {0..<5}"
proof -
  define opts where "opts = \<lparr>o_n_parallel = 4, o_n_trial = 100, o_early_stopping = None, o_flop = 60\<rparr>"
  obtain t where t: "new_random_tuner 5 None = Inr t" "it_offset t = 0" "it_range_length t = 5"
    by (simp add: new_random_tuner_def new_index_tuner_def index_tuner.defs)
  with random_tunes_without_repetition [OF t(1), of opts 101 "\<lambda>i c. MOk [1]" "\<lparr>rng_draws = (\<lambda>k. k * k), rng_pos = 0\<rparr>"]
  show ?thesis by (simp add: Let_def opts_def) blast
qed

end
