(* ===== verification/ModelTuner.thy ===== *)
theory ModelTuner
  imports TuneLoop Knobs "HOL-Library.Product_Lexorder"
begin

text \<open>
  The model-based tuner with its diversity selection (\<open>model_based_tuner.py\<close>), the simulated
  annealing optimizer (\<open>sa_model_optimizer.py\<close>) of \<open>tvm/python/tvm/autotvm/tuner\<close>. The cost model is a
  parameter. Loops that draw random numbers until one suits run on fuel. The lemmas show that batches
  are new, that the diversity selection picks points once, that the binary heap of \<open>heapq\<close> is in order,
  and that the annealing keeps the best of the points it tries.
\<close>

section \<open>Drawing until something new is found\<close>

text \<open>\<open>index = randint(n); while index in visited: index = randint(n)\<close>\<close>

fun draw_new :: "nat \<Rightarrow> int \<Rightarrow> int set \<Rightarrow> rng \<Rightarrow> (int \<times> rng) res" where
  "draw_new 0 n visited g = Inl OutOfFuel"
| "draw_new (Suc fuel) n visited g =
     bindR (randint n g) (\<lambda>(i, g'). if i \<in> visited then draw_new fuel n visited g' else Inr (i, g'))"

section \<open>Diversity selection\<close>

text \<open>
  \<open>submodular_pick\<close>: the gain of a point is its score and a weight for every knob value that no
  picked point has yet; the search for the largest gain starts from position -1 with gain -1e9.
\<close>

definition pick_delta ::
  "rat list \<Rightarrow> int list list \<Rightarrow> rat \<Rightarrow> nat \<Rightarrow> int set list \<Rightarrow> nat \<Rightarrow> rat res" where
  "pick_delta scores knobs w n_knobs knobs_set x =
     foldR (\<lambda>i d. bindR (py_get (knobs ! x) (int i)) (\<lambda>v.
         Inr (if v \<notin> knobs_set ! i then d + w else d))) [0..<n_knobs] (scores ! x)"

definition pick_best ::
  "rat list \<Rightarrow> int list list \<Rightarrow> rat \<Rightarrow> nat \<Rightarrow> int set list \<Rightarrow> nat list \<Rightarrow> (nat option \<times> rat) res" where
  "pick_best scores knobs w n_knobs knobs_set remain =
     foldR (\<lambda>x (max_x, max_delta).
         bindR (pick_delta scores knobs w n_knobs knobs_set x) (\<lambda>d.
           Inr (if d > max_delta then (Some x, d) else (max_x, max_delta))))
       remain (None, - (10 ^ 9))"

fun pick_loop ::
  "rat list \<Rightarrow> int list list \<Rightarrow> rat \<Rightarrow> nat \<Rightarrow> nat \<Rightarrow> int set list \<Rightarrow> nat list \<Rightarrow> nat list res" where
  "pick_loop scores knobs w n_knobs 0 knobs_set remain = Inr []"
| "pick_loop scores knobs w n_knobs (Suc n_pick) knobs_set remain =
     bindR (pick_best scores knobs w n_knobs knobs_set remain) (\<lambda>(max_x, _).
       case max_x of
         None \<Rightarrow> Inl ValueError
       | Some x \<Rightarrow>
           bindR (pick_loop scores knobs w n_knobs n_pick
                    (map (\<lambda>i. insert (knobs ! x ! i) (knobs_set ! i)) [0..<n_knobs]) (remove1 x remain))
             (\<lambda>ret. Inr (x # ret)))"

definition submodular_pick :: "rat list \<Rightarrow> int list list \<Rightarrow> nat \<Rightarrow> rat \<Rightarrow> nat list res" where
  "submodular_pick scores knobs n_pick knob_weight =
     bindR (guardR (length scores = length knobs) AssertionError) (\<lambda>_.
     bindR (py_get knobs 0) (\<lambda>k0.
       pick_loop scores knobs knob_weight (length k0) n_pick (replicate (length k0) {}) [0..<length scores]))"

section \<open>The model-based tuner\<close>

record model_tuner =
  mt_plan_size :: nat
  mt_space_len :: int
  mt_dims :: "nat list"
  mt_ratio :: "nat option"
  mt_trials :: "int list"
  mt_trial_pt :: nat
  mt_visited :: "int set"
  mt_xs :: "int list"
  mt_ys :: "rat list"
  mt_flops_max :: rat
  mt_train_ct :: nat

definition new_model_tuner :: "int \<Rightarrow> nat list \<Rightarrow> nat \<Rightarrow> nat option \<Rightarrow> model_tuner" where
  "new_model_tuner space_len dims plan_size ratio =
     \<lparr>mt_plan_size = plan_size, mt_space_len = space_len, mt_dims = dims,
      mt_ratio = (if ratio = Some 0 then None else ratio),
      mt_trials = [], mt_trial_pt = 0, mt_visited = {}, mt_xs = [], mt_ys = [], mt_flops_max = 0,
      mt_train_ct = 0\<rparr>"

definition model_has_next :: "model_tuner \<Rightarrow> bool" where
  "model_has_next t \<longleftrightarrow> int (card (mt_visited t)) < mt_space_len t"

text \<open>\<open>while trial_pt < len(trials)\<close>: skip what was visited.\<close>

function skip_visited :: "int list \<Rightarrow> int set \<Rightarrow> nat \<Rightarrow> nat" where
  "skip_visited trials visited pt =
     (if pt < length trials \<and> trials ! pt \<in> visited then skip_visited trials visited (Suc pt) else pt)"
  by pat_completeness auto
termination by (relation "measure (\<lambda>(trials, _, pt). length trials - pt)") auto

declare skip_visited.simps [simp del]

fun model_next_batch :: "nat \<Rightarrow> nat \<Rightarrow> model_tuner \<times> rng \<Rightarrow> (int list \<times> model_tuner \<times> rng) res" where
  "model_next_batch fuel 0 (t, g) = Inr ([], t, g)"
| "model_next_batch fuel (Suc b) (t, g) =
     (if int (card (mt_visited t)) \<ge> mt_space_len t then Inr ([], t, g)
      else
        let pt = skip_visited (mt_trials t) (mt_visited t) (mt_trial_pt t) in
        bindR (if int pt \<ge> int (length (mt_trials t)) - int (mt_plan_size t div 20)
               then draw_new fuel (mt_space_len t) (mt_visited t) g
               else Inr (mt_trials t ! pt, g)) (\<lambda>(index, g').
        bindR (space_get (mt_space_len t) index) (\<lambda>c.
        bindR (model_next_batch fuel b
                 (t\<lparr>mt_trial_pt := pt, mt_visited := insert index (mt_visited t)\<rparr>, g')) (\<lambda>(cs, s).
          Inr (c # cs, s)))))"

text \<open>
  \<open>update\<close>. \<open>find_maximums\<close> fits the model on the samples and maximises it outside the visited
  points; \<open>predict\<close> is only used for the number of its scores.
\<close>

definition note_result :: "rat \<Rightarrow> int \<times> mres \<Rightarrow> model_tuner \<Rightarrow> model_tuner" where
  "note_result flop p t =
     (case p of (index, result) \<Rightarrow>
        let y = flops_of flop result in
        t\<lparr>mt_xs := mt_xs t @ [index], mt_ys := mt_ys t @ [y],
          mt_flops_max := (case result of MOk _ \<Rightarrow> max (mt_flops_max t) y | MErr _ _ \<Rightarrow> mt_flops_max t),
          mt_visited := insert index (mt_visited t)\<rparr>)"

definition model_update ::
  "(int list \<Rightarrow> rat list \<Rightarrow> nat \<Rightarrow> int set \<Rightarrow> int list) \<Rightarrow> rat \<Rightarrow> int list \<Rightarrow> mres list \<Rightarrow>
     model_tuner \<Rightarrow> model_tuner res" where
  "model_update find_maximums flop inputs results t =
     (let t1 = fold (note_result flop) (zip inputs results) t in
      if length (mt_xs t1) \<ge> mt_plan_size t1 * (mt_train_ct t1 + 1) \<and> mt_flops_max t1 > 1 / 10 ^ 6 then
        bindR (case mt_ratio t1 of
            Some ratio \<Rightarrow>
              (let candidate = find_maximums (mt_xs t1) (mt_ys t1) (mt_plan_size t1 * ratio) (mt_visited t1) in
               bindR (mapR (\<lambda>x. point2knob x (mt_dims t1)) candidate) (\<lambda>knobs.
               bindR (submodular_pick (map (\<lambda>_. 0) candidate) knobs (mt_plan_size t1) 1) (\<lambda>pick_index.
                 Inr (map (\<lambda>i. candidate ! i) pick_index))))
          | None \<Rightarrow> Inr (find_maximums (mt_xs t1) (mt_ys t1) (mt_plan_size t1) (mt_visited t1)))
          (\<lambda>maximums. Inr (t1\<lparr>mt_trials := maximums, mt_trial_pt := 0, mt_train_ct := mt_train_ct t1 + 1\<rparr>))
      else Inr t1)"

section \<open>Simulated annealing\<close>

text \<open>The scores in the heap: the start items have minus infinity.\<close>

datatype score = MInf | Fin rat

instantiation score :: linorder
begin

fun less_eq_score :: "score \<Rightarrow> score \<Rightarrow> bool" where
  "less_eq_score MInf _ = True"
| "less_eq_score (Fin _) MInf = False"
| "less_eq_score (Fin a) (Fin b) = (a \<le> b)"

definition less_score :: "score \<Rightarrow> score \<Rightarrow> bool" where
  "less_score a b \<longleftrightarrow> a \<le> b \<and> \<not> b \<le> (a :: score)"

instance
proof
  fix x y z :: score
  show "(x < y) = (x \<le> y \<and> \<not> y \<le> x)" by (simp add: less_score_def)
  show "x \<le> x" by (cases x) simp_all
  show "x \<le> y \<Longrightarrow> y \<le> z \<Longrightarrow> x \<le> z" by (cases x; cases y; cases z) simp_all
  show "x \<le> y \<Longrightarrow> y \<le> x \<Longrightarrow> x = y" by (cases x; cases y) simp_all
  show "x \<le> y \<or> y \<le> x" by (cases x; cases y) auto
qed

end

text \<open>
  The binary heap of \<open>heapq\<close>: \<open>siftdown\<close> moves an item towards the root, \<open>siftup\<close> lets it sink
  along the smaller children and then rise again. An item that moves is swapped step by step.
\<close>

type_synonym item = "score \<times> int"

definition swap_items :: "'a list \<Rightarrow> nat \<Rightarrow> nat \<Rightarrow> 'a list" where
  "swap_items h i j = h[i := h ! j, j := h ! i]"

fun siftdown :: "item list \<Rightarrow> nat \<Rightarrow> nat \<Rightarrow> item list" where
  "siftdown h startpos pos =
     (if pos > startpos then
        let parent = (pos - 1) div 2 in
        if h ! pos < h ! parent then siftdown (swap_items h pos parent) startpos parent else h
      else h)"

declare siftdown.simps [simp del]

function sink :: "item list \<Rightarrow> nat \<Rightarrow> item list \<times> nat" where
  "sink h pos =
     (let c = 2 * pos + 1 in
      if c < length h then
        let c' = (if c + 1 < length h \<and> \<not> h ! c < h ! (c + 1) then c + 1 else c)
        in sink (swap_items h pos c') c'
      else (h, pos))"
  by pat_completeness auto
termination by (relation "measure (\<lambda>(h, pos). length h - pos)") (auto simp: swap_items_def Let_def split: if_splits)

declare sink.simps [simp del]

definition siftup :: "item list \<Rightarrow> nat \<Rightarrow> item list" where
  "siftup h pos = (let (h', pos') = sink h pos in siftdown h' pos pos')"

definition heapify :: "item list \<Rightarrow> item list" where
  "heapify h = fold (\<lambda>i h. siftup h i) (rev [0..<length h div 2]) h"

definition heapreplace :: "item list \<Rightarrow> item \<Rightarrow> item \<times> item list" where
  "heapreplace h x = (h ! 0, siftup (h[0 := x]) 0)"

text \<open>\<open>random_walk\<close>: change positions of the knob vector at random until it differs.\<close>

fun walk_loop :: "nat \<Rightarrow> nat list \<Rightarrow> int list \<Rightarrow> int list \<Rightarrow> rng \<Rightarrow> (int list \<times> rng) res" where
  "walk_loop 0 dims old new g = Inl OutOfFuel"
| "walk_loop (Suc fuel) dims old new g =
     (if new \<noteq> old then Inr (new, g)
      else bindR (randint (int (length old)) g) (\<lambda>(from_i, g1).
           bindR (randint (int (dims ! nat from_i)) g1) (\<lambda>(to_v, g2).
             walk_loop fuel dims old (new[nat from_i := to_v]) g2)))"

definition random_walk :: "nat \<Rightarrow> int \<Rightarrow> nat list \<Rightarrow> rng \<Rightarrow> (int \<times> rng) res" where
  "random_walk fuel p dims g =
     bindR (point2knob p dims) (\<lambda>old. bindR (walk_loop fuel dims old old g) (\<lambda>(new, g').
       Inr (knob2point new dims, g')))"

text \<open>
  Offering scored points to the heap. \<open>in_heap\<close> are the excluded points and those in the heap;
  the Boolean says whether the heap was changed.
\<close>

record heap_state =
  hs_items :: "item list"
  hs_in :: "int set"

fun offer :: "(rat \<times> int) list \<Rightarrow> heap_state \<Rightarrow> (bool \<times> heap_state) res" where
  "offer [] st = Inr (False, st)"
| "offer ((s, p) # sps) st =
     bindR (py_get (hs_items st) 0) (\<lambda>top.
       if Fin s > fst top \<and> p \<notin> hs_in st then
         let (pop, items) = heapreplace (hs_items st) (Fin s, p) in
         bindR (guardR (snd pop \<in> hs_in st) KeyError) (\<lambda>_.
         bindR (offer sps (st\<lparr>hs_items := items, hs_in := insert p (hs_in st - {snd pop})\<rparr>)) (\<lambda>(_, st').
           Inr (True, st')))
       else offer sps st)"

fun walk_all :: "nat \<Rightarrow> nat list \<Rightarrow> int list \<Rightarrow> rng \<Rightarrow> (int list \<times> rng) res" where
  "walk_all fuel dims [] g = Inr ([], g)"
| "walk_all fuel dims (p # ps) g =
     bindR (random_walk fuel p dims g) (\<lambda>(q, g1). bindR (walk_all fuel dims ps g1) (\<lambda>(qs, g2).
       Inr (q # qs, g2)))"

text \<open>
  The annealing loop. \<open>accept\<close> decides from the gain, the temperature and a random number whether
  a point moves, which is where the source takes an exponential.
\<close>

record sa_run =
  sa_points :: "int list"
  sa_scores :: "rat list"
  sa_heap :: heap_state
  sa_temp :: rat
  sa_last_modify :: nat
  sa_rng :: rng
  sa_seen :: "int list"  \<comment> \<open>the points that were scored, for the properties\<close>

fun sa_loop ::
  "(int list \<Rightarrow> rat list) \<Rightarrow> (rat \<Rightarrow> rat \<Rightarrow> nat \<Rightarrow> bool) \<Rightarrow> nat list \<Rightarrow> nat \<Rightarrow> nat \<Rightarrow> rat \<Rightarrow> nat \<Rightarrow> nat \<Rightarrow>
     sa_run \<Rightarrow> sa_run res" where
  "sa_loop predict accept dims fuel early_stop cool 0 k r = Inr r"
| "sa_loop predict accept dims fuel early_stop cool (Suc n) k r =
     (if k < sa_last_modify r + early_stop then
        bindR (walk_all fuel dims (sa_points r) (sa_rng r)) (\<lambda>(new_points, g).
          let new_scores = predict new_points;
              acc = map (\<lambda>(i, s', s). accept (s' - s) (sa_temp r) (rng_draws g (rng_pos g + i)))
                      (zip [0..<length new_scores] (zip new_scores (sa_scores r)));
              points = map (\<lambda>(a, p', p). if a then p' else p) (zip acc (zip new_points (sa_points r)));
              scores = map (\<lambda>(a, s', s). if a then s' else s) (zip acc (zip new_scores (sa_scores r)))
          in bindR (offer (zip new_scores new_points) (sa_heap r)) (\<lambda>(changed, heap).
               sa_loop predict accept dims fuel early_stop cool n (Suc k)
                 \<lparr>sa_points = points, sa_scores = scores, sa_heap = heap, sa_temp = sa_temp r - cool,
                  sa_last_modify = (if changed then k else sa_last_modify r),
                  sa_rng = g\<lparr>rng_pos := rng_pos g + length acc\<rparr>, sa_seen = sa_seen r @ new_points\<rparr>))
      else Inr r)"

text \<open>
  \<open>find_maximums\<close> from given start points: the persistent ones or a sample. The stable sort by
  falling score comes last, then what scores below 0 is dropped.
\<close>

definition find_maximums ::
  "(int list \<Rightarrow> rat list) \<Rightarrow> (rat \<Rightarrow> rat \<Rightarrow> nat \<Rightarrow> bool) \<Rightarrow> nat list \<Rightarrow> nat \<Rightarrow> nat \<Rightarrow> nat \<Rightarrow> rat \<times> rat \<Rightarrow>
     nat \<Rightarrow> int set \<Rightarrow> int list \<Rightarrow> rng \<Rightarrow> ((score \<times> int) list \<times> sa_run) res" where
  "find_maximums predict accept dims fuel n_iter early_stop temp num exclusive points g =
     (let scores = predict points;
          heap0 = heapify (map (\<lambda>i. (MInf, - 1 - int i)) [0..<num]);
          in_heap = exclusive \<union> set (map snd heap0);
          cool = (fst temp - snd temp) / of_nat (n_iter + 1)
      in bindR (offer (zip scores points) \<lparr>hs_items = heap0, hs_in = in_heap\<rparr>) (\<lambda>(_, heap).
         bindR (sa_loop predict accept dims fuel early_stop cool n_iter 0
                  \<lparr>sa_points = points, sa_scores = scores, sa_heap = heap, sa_temp = fst temp,
                   sa_last_modify = 0, sa_rng = g, sa_seen = points\<rparr>) (\<lambda>r.
           Inr ([x \<leftarrow> rev (sort_key fst (rev (hs_items (sa_heap r)))). fst x \<ge> Fin 0], r))))"

section \<open>The next batch of the model-based tuner\<close>

text \<open>
  A stream of draws in which every residue comes up within every window of that length: what makes
  the retries end.
\<close>

definition fair :: "nat \<Rightarrow> nat \<Rightarrow> (nat \<Rightarrow> nat) \<Rightarrow> bool" where
  "fair n window draws \<longleftrightarrow> (\<forall>p k. k < n \<longrightarrow> (\<exists>q<window. draws (p + q) mod n = k))"

lemma fair_counter: "fair n n (\<lambda>k. k)"
proof -
  have "(p + (k + (n - 1) * p) mod n) mod n = k" if "k < n" for p k
  proof -
    have "(p + (k + (n - 1) * p) mod n) mod n = (k + n * p) mod n"
      using that by (cases n) (simp_all add: mod_add_right_eq algebra_simps)
    then show ?thesis using that by simp
  qed
  then show ?thesis unfolding fair_def by (metis mod_less_divisor not_less_zero zero_less_iff_neq_zero)
qed

lemma draw_new_found:
  assumes "rng_draws g (rng_pos g + q) mod n = k" "q < fuel" "0 < n" "int k \<notin> visited"
  shows "\<exists>i g'. draw_new fuel (int n) visited g = Inr (i, g') \<and> 0 \<le> i \<and> i < int n \<and> i \<notin> visited \<and>
    rng_draws g' = rng_draws g"
  using assms
proof (induction q arbitrary: fuel g)
  case 0
  then obtain f where "fuel = Suc f" by (cases fuel) auto
  with 0 show ?case by (auto simp: randint_def zmod_int [symmetric])
next
  case (Suc q)
  then obtain f where f: "fuel = Suc f" "q < f" by (cases fuel) auto
  define i where "i = int (rng_draws g (rng_pos g) mod n)"
  define g1 where "g1 = g\<lparr>rng_pos := Suc (rng_pos g)\<rparr>"
  have r: "randint (int n) g = Inr (i, g1)" using Suc.prems(3) by (simp add: randint_def i_def g1_def zmod_int)
  show ?case
  proof (cases "i \<in> visited")
    case False
    with f r Suc.prems(3) show ?thesis by (simp add: i_def g1_def)
  next
    case True
    have "rng_draws g1 (rng_pos g1 + q) mod n = k" using Suc.prems(1) by (simp add: g1_def)
    from Suc.IH [OF this f(2) Suc.prems(3,4)] f r True show ?thesis by (simp add: g1_def)
  qed
qed

lemma unvisited:
  assumes "visited \<subseteq> {0..<int n}" "card visited < n"
  shows "\<exists>k<n. int k \<notin> visited"
proof (rule ccontr)
  assume "\<not> ?thesis"
  then have "int ` {0..<n} \<subseteq> visited" by auto
  then have "card (int ` {0..<n}) \<le> card visited"
    using assms(1) by (intro card_mono) (auto intro: finite_subset)
  then show False using assms(2) by (simp add: card_image)
qed

lemma draw_new_fair:
  assumes "fair n window (rng_draws g)" "window \<le> fuel" "visited \<subseteq> {0..<int n}" "card visited < n"
  shows "\<exists>i g'. draw_new fuel (int n) visited g = Inr (i, g') \<and> 0 \<le> i \<and> i < int n \<and> i \<notin> visited \<and>
    rng_draws g' = rng_draws g"
proof -
  obtain k where k: "k < n" "int k \<notin> visited" using unvisited [OF assms(3,4)] by blast
  then obtain q where "q < window" "rng_draws g (rng_pos g + q) mod n = k"
    using assms(1) by (auto simp: fair_def)
  with draw_new_found [of g q n k fuel visited] k assms(2) show ?thesis by auto
qed

lemma skip_visited_stop:
  "skip_visited trials visited pt < length trials \<Longrightarrow> trials ! skip_visited trials visited pt \<notin> visited"
proof (induction trials visited pt rule: skip_visited.induct)
  case (1 trials visited pt)
  show ?case
  proof (cases "pt < length trials \<and> trials ! pt \<in> visited")
    case True
    with 1 show ?thesis by (simp add: skip_visited.simps [of trials visited pt])
  next
    case False
    with 1 show ?thesis by (auto simp: skip_visited.simps [of trials visited pt])
  qed
qed

definition model_ok :: "model_tuner \<Rightarrow> bool" where
  "model_ok t \<longleftrightarrow> 0 \<le> mt_space_len t \<and> mt_visited t \<subseteq> {0..<mt_space_len t} \<and>
     set (mt_trials t) \<subseteq> {0..<mt_space_len t}"

text \<open>
  One turn of the batch loop: the plan's next unvisited entry or, near the plan's end, a fresh random
  point. Either way the position is in the space and new.
\<close>

definition batch_pick :: "nat \<Rightarrow> model_tuner \<Rightarrow> rng \<Rightarrow> (int \<times> rng) res" where
  "batch_pick fuel t g =
     (let pt = skip_visited (mt_trials t) (mt_visited t) (mt_trial_pt t) in
      if int pt \<ge> int (length (mt_trials t)) - int (mt_plan_size t div 20)
      then draw_new fuel (mt_space_len t) (mt_visited t) g else Inr (mt_trials t ! pt, g))"

lemma batch_pick_new:
  assumes "model_ok t" "fair (nat (mt_space_len t)) window (rng_draws g)" "window \<le> fuel"
    and "int (card (mt_visited t)) < mt_space_len t"
  obtains i g1 where "batch_pick fuel t g = Inr (i, g1)" "0 \<le> i" "i < mt_space_len t"
    "i \<notin> mt_visited t" "rng_draws g1 = rng_draws g"
proof -
  define n where "n = nat (mt_space_len t)"
  have n: "mt_space_len t = int n" and vis: "mt_visited t \<subseteq> {0..<int n}" and c: "card (mt_visited t) < n"
    and tr: "set (mt_trials t) \<subseteq> {0..<int n}"
    using assms(1,4) by (auto simp: model_ok_def n_def)
  define pt where "pt = skip_visited (mt_trials t) (mt_visited t) (mt_trial_pt t)"
  show ?thesis
  proof (cases "int pt \<ge> int (length (mt_trials t)) - int (mt_plan_size t div 20)")
    case True
    then show ?thesis using draw_new_fair [of n window g fuel "mt_visited t"] assms(2,3) vis c that
      by (auto simp: batch_pick_def pt_def n)
  next
    case no: False
    then have lt: "pt < length (mt_trials t)" by linarith
    then have "mt_trials t ! pt \<in> {0..<int n}" using tr by (auto dest: nth_mem)
    moreover have "mt_trials t ! pt \<notin> mt_visited t"
      using skip_visited_stop lt by (auto simp: pt_def)
    ultimately show ?thesis using no that [of "mt_trials t ! pt" g] by (simp add: batch_pick_def pt_def n)
  qed
qed

lemma model_next_batch_turn:
  assumes "batch_pick fuel t g = Inr (i, g1)" "0 \<le> i" "i < mt_space_len t"
    and "int (card (mt_visited t)) < mt_space_len t"
  shows "model_next_batch fuel (Suc b) (t, g) =
    bindR (model_next_batch fuel b (t\<lparr>mt_trial_pt := skip_visited (mt_trials t) (mt_visited t) (mt_trial_pt t),
        mt_visited := insert i (mt_visited t)\<rparr>, g1)) (\<lambda>(cs, s). Inr (i # cs, s))"
  using assms by (simp add: batch_pick_def space_get_def Let_def del: skip_visited.simps)

lemma model_batch_new_gen:
  assumes "model_ok t" "fair (nat (mt_space_len t)) window (rng_draws g)" "window \<le> fuel"
  shows "\<exists>cs t' g'. model_next_batch fuel b (t, g) = Inr (cs, t', g') \<and> model_ok t' \<and> distinct cs \<and>
    set cs \<subseteq> {0..<mt_space_len t} \<and> set cs \<inter> mt_visited t = {} \<and> mt_visited t' = mt_visited t \<union> set cs \<and>
    length cs = min b (nat (mt_space_len t) - card (mt_visited t))"
  using assms
proof (induction b arbitrary: t g)
  case 0
  then show ?case by simp
next
  case (Suc b)
  show ?case
  proof (cases "int (card (mt_visited t)) < mt_space_len t")
    case False
    with Suc.prems(1) show ?thesis by simp
  next
    case True
    then obtain i g1 where i: "batch_pick fuel t g = Inr (i, g1)" "0 \<le> i" "i < mt_space_len t"
      "i \<notin> mt_visited t" "rng_draws g1 = rng_draws g"
      using batch_pick_new [OF Suc.prems] by blast
    define t1 where "t1 = t\<lparr>mt_trial_pt := skip_visited (mt_trials t) (mt_visited t) (mt_trial_pt t),
        mt_visited := insert i (mt_visited t)\<rparr>"
    have t1: "model_ok t1" "fair (nat (mt_space_len t1)) window (rng_draws g1)"
      using Suc.prems(1,2) i by (auto simp: t1_def model_ok_def)
    obtain cs t' g' where r: "model_next_batch fuel b (t1, g1) = Inr (cs, t', g')" "model_ok t'" "distinct cs"
      "set cs \<subseteq> {0..<mt_space_len t1}" "set cs \<inter> mt_visited t1 = {}" "mt_visited t' = mt_visited t1 \<union> set cs"
      "length cs = min b (nat (mt_space_len t1) - card (mt_visited t1))"
      using Suc.IH [OF t1 Suc.prems(3)] by blast
    have eq: "model_next_batch fuel (Suc b) (t, g) = Inr (i # cs, t', g')"
      using model_next_batch_turn [OF i(1-3) True, of b] r(1) by (simp add: t1_def)
    have "finite (mt_visited t)" using Suc.prems(1) by (auto simp: model_ok_def intro: finite_subset)
    then have "card (mt_visited t1) = Suc (card (mt_visited t))" using i(4) by (simp add: t1_def)
    moreover have "card (mt_visited t) < nat (mt_space_len t)" using True by simp
    ultimately have "length (i # cs) = min (Suc b) (nat (mt_space_len t) - card (mt_visited t))"
      using r(7) by (simp add: t1_def) linarith
    with eq r i show ?thesis by (auto simp: t1_def)
  qed
qed

text \<open>
  C26. The model-based tuner never proposes a configuration twice: from a state whose plan and
  visited points lie in the space, and for random numbers that hit every configuration within a
  window the retry fuel covers, the next batch is returned; its configurations are distinct,
  inside the space and were not visited before, it is as long as asked for unless the space is
  exhausted, and exactly they are marked as visited.
\<close>

theorem model_batch_is_new:
  assumes "model_ok t" "fair (nat (mt_space_len t)) window (rng_draws g)" "window \<le> fuel"
  shows "\<exists>cs t' g'. model_next_batch fuel b (t, g) = Inr (cs, t', g') \<and> model_ok t' \<and> distinct cs \<and>
    set cs \<subseteq> {0..<mt_space_len t} \<and> set cs \<inter> mt_visited t = {} \<and> mt_visited t' = mt_visited t \<union> set cs \<and>
    length cs = min b (nat (mt_space_len t) - card (mt_visited t))"
  using assms by (rule model_batch_new_gen)

lemma model_batch_is_new_witness:
  "let t = (new_model_tuner 4 [4] 64 None)\<lparr>mt_visited := {2}\<rparr>; g = \<lparr>rng_draws = (\<lambda>k. k), rng_pos = 0\<rparr> in
   \<exists>cs t' g'. model_next_batch 4 2 (t, g) = Inr (cs, t', g') \<and> distinct cs \<and> length cs = 2 \<and> 2 \<notin> set cs"
proof -
  have "fair 4 4 (\<lambda>k. k)" by (rule fair_counter)
  with model_batch_is_new [of "(new_model_tuner 4 [4] 64 None)\<lparr>mt_visited := {2}\<rparr>" 4
      "\<lparr>rng_draws = (\<lambda>k. k), rng_pos = 0\<rparr>" 4 2]
  show ?thesis by (auto simp: model_ok_def new_model_tuner_def Let_def)
qed

section \<open>Diversity selection picks points once\<close>

definition gain :: "rat list \<Rightarrow> int list list \<Rightarrow> rat \<Rightarrow> nat \<Rightarrow> int set list \<Rightarrow> nat \<Rightarrow> rat" where
  "gain scores knobs w m knobs_set x =
     scores ! x + w * of_nat (card {i. i < m \<and> knobs ! x ! i \<notin> knobs_set ! i})"

lemma pick_delta_gain:
  assumes "length (knobs ! x) = m"
  shows "pick_delta scores knobs w m knobs_set x = Inr (gain scores knobs w m knobs_set x)"
proof -
  have "foldR (\<lambda>i d. bindR (py_get (knobs ! x) (int i)) (\<lambda>v. Inr (if v \<notin> knobs_set ! i then d + w else d)))
      [0..<k] (scores ! x) = Inr (gain scores knobs w k knobs_set x)" if "k \<le> m" for k
    using that
  proof (induction k)
    case 0
    then show ?case by (simp add: gain_def)
  next
    case (Suc k)
    have "{i. i < Suc k \<and> knobs ! x ! i \<notin> knobs_set ! i} =
        (if knobs ! x ! k \<notin> knobs_set ! k then insert k {i. i < k \<and> knobs ! x ! i \<notin> knobs_set ! i}
         else {i. i < k \<and> knobs ! x ! i \<notin> knobs_set ! i})"
      by (auto simp: less_Suc_eq)
    then have "gain scores knobs w (Suc k) knobs_set x =
        (if knobs ! x ! k \<notin> knobs_set ! k then gain scores knobs w k knobs_set x + w
         else gain scores knobs w k knobs_set x)"
      by (simp add: gain_def algebra_simps)
    with Suc assms show ?case by (simp add: foldR_append)
  qed
  then show ?thesis by (simp add: pick_delta_def)
qed

lemma pick_best_max:
  assumes "\<And>x. x \<in> set remain \<Longrightarrow> length (knobs ! x) = m \<and> - (10 ^ 9) < gain scores knobs w m knobs_set x"
    and "remain \<noteq> []"
  shows "\<exists>x d. pick_best scores knobs w m knobs_set remain = Inr (Some x, d) \<and> x \<in> set remain \<and>
    (\<forall>y\<in>set remain. gain scores knobs w m knobs_set y \<le> gain scores knobs w m knobs_set x)"
proof -
  let ?g = "gain scores knobs w m knobs_set"
  let ?f = "\<lambda>x (max_x, max_delta). bindR (pick_delta scores knobs w m knobs_set x) (\<lambda>d.
           Inr (if d > max_delta then (Some x, d) else (max_x, max_delta)))"
  have step: "\<exists>x. foldR ?f xs (Some x0, ?g x0) = Inr (Some x, ?g x) \<and> x \<in> insert x0 (set xs) \<and>
      (\<forall>y\<in>insert x0 (set xs). ?g y \<le> ?g x)" if "set xs \<subseteq> set remain" for xs x0
    using that
  proof (induction xs arbitrary: x0)
    case Nil
    then show ?case by simp
  next
    case (Cons z xs)
    have p: "pick_delta scores knobs w m knobs_set z = Inr (?g z)"
      using Cons.prems assms(1) by (intro pick_delta_gain) simp
    define x1 where "x1 = (if ?g z > ?g x0 then z else x0)"
    obtain x where x: "foldR ?f xs (Some x1, ?g x1) = Inr (Some x, ?g x)" "x \<in> insert x1 (set xs)"
      "\<forall>y\<in>insert x1 (set xs). ?g y \<le> ?g x" using Cons.IH [of x1] Cons.prems by auto
    have "?f z (Some x0, ?g x0) = Inr (Some x1, ?g x1)" by (simp add: p x1_def)
    then have "foldR ?f (z # xs) (Some x0, ?g x0) = Inr (Some x, ?g x)" using x(1) by simp
    moreover have "x \<in> insert x0 (set (z # xs))" using x(2) by (auto simp: x1_def)
    moreover have "?g x0 \<le> ?g x1" "?g z \<le> ?g x1" by (auto simp: x1_def)
    ultimately show ?case using x(3) by (intro exI [of _ x]) (auto intro: order_trans)
  qed
  obtain z xs where r: "remain = z # xs" using assms(2) by (cases remain) auto
  have "pick_delta scores knobs w m knobs_set z = Inr (?g z)" "- (10 ^ 9) < ?g z"
    using assms(1) r by (auto intro: pick_delta_gain)
  then have "pick_best scores knobs w m knobs_set remain = foldR ?f xs (Some z, ?g z)"
    by (simp add: pick_best_def r)
  with step [of xs z] r show ?thesis by (fastforce simp del: foldR.simps)
qed

text \<open>
  The loop of \<open>submodular_pick\<close> over the remaining positions: asked for no more than there are, it
  returns that many distinct ones, a best one first; asked for more, it raises.
\<close>

definition pick_result ::
    "rat list \<Rightarrow> int list list \<Rightarrow> rat \<Rightarrow> nat \<Rightarrow> nat \<Rightarrow> int set list \<Rightarrow> nat list \<Rightarrow> nat list res \<Rightarrow> bool" where
  "pick_result scores knobs w m k ks remain r \<longleftrightarrow>
     (if k \<le> length remain then
        \<exists>ret. r = Inr ret \<and> length ret = k \<and> distinct ret \<and> set ret \<subseteq> set remain \<and>
          (0 < k \<longrightarrow> (\<forall>x\<in>set remain. gain scores knobs w m ks x \<le> gain scores knobs w m ks (hd ret)))
      else r = Inl ValueError)"

lemma pick_result_Cons:
  assumes "pick_result scores knobs w m k ks' (remove1 x remain) r" "x \<in> set remain" "distinct remain"
    and "\<forall>y\<in>set remain. gain scores knobs w m ks y \<le> gain scores knobs w m ks x"
  shows "pick_result scores knobs w m (Suc k) ks remain (bindR r (\<lambda>ret. Inr (x # ret)))"
proof -
  have "Suc (length (remove1 x remain)) = length remain"
    using assms(2) by (simp add: length_remove1) (metis Suc_pred length_pos_if_in_set)
  then show ?thesis using assms by (auto simp: pick_result_def split: if_splits)
qed

lemma pick_loop_result:
  assumes "\<And>x ks. x \<in> set remain \<Longrightarrow> length (knobs ! x) = m \<and> - (10 ^ 9) < gain scores knobs w m ks x"
    and "distinct remain"
  shows "pick_result scores knobs w m k ks remain (pick_loop scores knobs w m k ks remain)"
  using assms
proof (induction k arbitrary: ks remain)
  case 0
  then show ?case by (simp add: pick_result_def)
next
  case (Suc k)
  show ?case
  proof (cases "remain = []")
    case True
    then show ?thesis by (simp add: pick_best_def pick_result_def)
  next
    case False
    obtain x d where x: "pick_best scores knobs w m ks remain = Inr (Some x, d)" "x \<in> set remain"
      "\<forall>y\<in>set remain. gain scores knobs w m ks y \<le> gain scores knobs w m ks x"
      using pick_best_max [OF Suc.prems(1) False] by blast
    have "set (remove1 x remain) \<subseteq> set remain" by (rule set_remove1_subset)
    then have "pick_result scores knobs w m k ks' (remove1 x remain)
        (pick_loop scores knobs w m k ks' (remove1 x remain))" for ks'
      using Suc.prems by (intro Suc.IH) auto
    from pick_result_Cons [OF this x(2) Suc.prems(2) x(3)] x(1) show ?thesis by simp
  qed
qed

lemma gain_above:
  assumes "length scores = length knobs" "\<forall>s\<in>set scores. - (10 ^ 9) < s" "0 \<le> w" "x < length knobs"
  shows "- (10 ^ 9) < gain scores knobs w m ks x"
proof -
  have "- (10 ^ 9) < scores ! x" using assms by simp
  moreover have "0 \<le> w * of_nat (card {i. i < m \<and> knobs ! x ! i \<notin> ks ! i})" using assms(3) by simp
  ultimately show ?thesis by (simp add: gain_def)
qed

text \<open>
  \<open>submodular_pick\<close> on points with knob vectors of one length, a non-negative weight and scores
  above -10^9: if no more points are asked for than there are, it returns that many distinct
  positions, the first of which has the largest gain; if more are asked for, it raises
  \<open>ValueError\<close>, because position -1 is not among the remaining ones.
\<close>

lemma submodular_pick_distinct:
  assumes "length scores = length knobs" "knobs \<noteq> []" "\<forall>k\<in>set knobs. length k = length (hd knobs)"
    and "0 \<le> w" "\<forall>s\<in>set scores. - (10 ^ 9) < s"
  shows "if n_pick \<le> length knobs then
      \<exists>ret. submodular_pick scores knobs n_pick w = Inr ret \<and> length ret = n_pick \<and> distinct ret \<and>
        set ret \<subseteq> {..<length knobs} \<and>
        (0 < n_pick \<longrightarrow> (\<forall>x<length knobs.
           gain scores knobs w (length (hd knobs)) (replicate (length (hd knobs)) {}) x
             \<le> gain scores knobs w (length (hd knobs)) (replicate (length (hd knobs)) {}) (hd ret)))
    else submodular_pick scores knobs n_pick w = Inl ValueError"
proof -
  define m where "m = length (hd knobs)"
  have "pick_result scores knobs w m n_pick (replicate m {}) [0..<length knobs]
      (pick_loop scores knobs w m n_pick (replicate m {}) [0..<length knobs])"
    using gain_above [OF assms(1,5,4)] assms(3) by (intro pick_loop_result) (auto simp: m_def)
  moreover have "submodular_pick scores knobs n_pick w =
      pick_loop scores knobs w m n_pick (replicate m {}) [0..<length knobs]"
    using assms(1,2) by (cases knobs) (simp_all add: submodular_pick_def m_def)
  ultimately show ?thesis
    unfolding m_def [symmetric] by (auto simp: pick_result_def atLeast0LessThan split: if_splits)
qed

section \<open>The annealing optimizer\<close>

lemma mset_swap_items: "i < length h \<Longrightarrow> j < length h \<Longrightarrow> mset (swap_items h i j) = mset h"
  by (simp add: swap_items_def mset_swap)

lemma length_swap_items [simp]: "length (swap_items h i j) = length h"
  by (simp add: swap_items_def)

lemma mset_siftdown: "pos < length h \<Longrightarrow> mset (siftdown h startpos pos) = mset h"
proof (induction h startpos pos rule: siftdown.induct)
  case (1 h startpos pos)
  show ?case
  proof (cases "pos > startpos \<and> h ! pos < h ! ((pos - 1) div 2)")
    case True
    have p: "(pos - 1) div 2 < length h" using "1.prems" by auto
    with True "1.IH" "1.prems" have "mset (siftdown (swap_items h pos ((pos - 1) div 2)) startpos ((pos - 1) div 2)) =
        mset (swap_items h pos ((pos - 1) div 2))" by simp
    also have "\<dots> = mset h" using "1.prems" p by (rule mset_swap_items)
    finally show ?thesis using True by (simp add: siftdown.simps [of h] Let_def)
  next
    case False
    then show ?thesis by (auto simp: siftdown.simps [of h] Let_def)
  qed
qed

lemma mset_sink: "pos < length h \<Longrightarrow> mset (fst (sink h pos)) = mset h \<and> snd (sink h pos) < length h"
proof (induction h pos rule: sink.induct)
  case (1 h pos)
  define c where "c = 2 * pos + 1"
  define c' where "c' = (if c + 1 < length h \<and> \<not> h ! c < h ! (c + 1) then c + 1 else c)"
  show ?case
  proof (cases "c < length h")
    case True
    then have c': "c' < length h" by (simp add: c'_def)
    have e: "sink h pos = sink (swap_items h pos c') c'"
      using True by (subst sink.simps) (simp add: Let_def c_def c'_def)
    have "mset (fst (sink (swap_items h pos c') c')) = mset (swap_items h pos c') \<and>
        snd (sink (swap_items h pos c') c') < length (swap_items h pos c')"
      by (rule "1.IH" [OF c_def True c'_def]) (simp add: c')
    then show ?thesis using mset_swap_items [OF "1.prems" c'] by (simp add: e)
  next
    case False
    then show ?thesis using "1.prems" by (subst (1 2) sink.simps) (simp add: Let_def c_def)
  qed
qed

lemma mset_siftup: "pos < length h \<Longrightarrow> mset (siftup h pos) = mset h"
  using mset_sink [of pos h] mset_siftdown [of "snd (sink h pos)" "fst (sink h pos)" pos]
  by (auto simp: siftup_def split: prod.splits dest: mset_eq_length)

lemma mset_heapify: "mset (heapify h) = mset h"
proof -
  have "mset (fold (\<lambda>i h. siftup h i) is' h') = mset h'" if "\<forall>i\<in>set is'. i < length h'" for is' h'
    using that
  proof (induction is' arbitrary: h')
    case (Cons i is')
    then have m: "mset (siftup h' i) = mset h'" by (simp add: mset_siftup)
    with Cons mset_eq_length [OF m] show ?case by simp
  qed simp
  moreover have "\<forall>i\<in>set (rev [0..<length h div 2]). i < length h" by auto
  ultimately show ?thesis unfolding heapify_def by blast
qed

lemma mset_heapreplace:
  assumes "h \<noteq> []" "heapreplace h x = (p, h')"
  shows "p \<in> set h \<and> mset h' = add_mset x (mset h - {#p#})"
proof -
  have p: "p = h ! 0" and h': "h' = siftup (h[0 := x]) 0" using assms(2) by (auto simp: heapreplace_def)
  have "mset h' = mset (h[0 := x])" using assms(1) by (simp add: h' mset_siftup)
  then show ?thesis using assms(1) by (simp add: p mset_update)
qed

text \<open>
  The order of the heap: every item below a position \<open>k\<close> is at least its parent. An item that has
  sunk is out of order with its neighbours only; its parent and its children are in order.
\<close>

abbreviation parent_of :: "nat \<Rightarrow> nat" where
  "parent_of i \<equiv> (i - 1) div 2"

definition heap_from :: "nat \<Rightarrow> item list \<Rightarrow> bool" where
  "heap_from k h \<longleftrightarrow> (\<forall>i<length h. 0 < i \<and> k \<le> parent_of i \<longrightarrow> h ! parent_of i \<le> h ! i)"

definition bridged :: "nat \<Rightarrow> nat \<Rightarrow> item list \<Rightarrow> bool" where
  "bridged k pos h \<longleftrightarrow> (\<forall>i<length h. 0 < i \<and> parent_of i = pos \<and> 0 < pos \<and> k \<le> parent_of pos \<longrightarrow> h ! parent_of pos \<le> h ! i)"

text \<open>Out of order at most at the edges of \<open>pos\<close>, or at the edge to its parent.\<close>

definition heap_but :: "nat \<Rightarrow> nat \<Rightarrow> item list \<Rightarrow> bool" where
  "heap_but k pos h \<longleftrightarrow> bridged k pos h \<and>
     (\<forall>i<length h. 0 < i \<and> k \<le> parent_of i \<and> i \<noteq> pos \<and> parent_of i \<noteq> pos \<longrightarrow> h ! parent_of i \<le> h ! i)"

definition heap_above :: "nat \<Rightarrow> nat \<Rightarrow> item list \<Rightarrow> bool" where
  "heap_above k pos h \<longleftrightarrow> bridged k pos h \<and>
     (\<forall>i<length h. 0 < i \<and> k \<le> parent_of i \<and> i \<noteq> pos \<longrightarrow> h ! parent_of i \<le> h ! i)"

fun under :: "nat \<Rightarrow> nat \<Rightarrow> bool" where
  "under k pos = (if k < pos then under k (parent_of pos) else pos = k)"

declare under.simps [simp del]

lemma parent_less: "0 < i \<Longrightarrow> parent_of i < i"
  by (cases i) auto

lemma under_le: "under k pos \<Longrightarrow> k \<le> pos"
  using under.simps [of k pos] by (auto split: if_splits)

lemma under_parent: "under k pos \<Longrightarrow> k < pos \<Longrightarrow> under k (parent_of pos)"
  using under.simps [of k pos] by auto

lemma under_child:
  assumes "under k pos" "0 < c" "parent_of c = pos"
  shows "under k c"
proof -
  have "k < c" using under_le [OF assms(1)] parent_less [OF assms(2)] assms(3) by linarith
  then show ?thesis using assms(1,3) under.simps [of k c] by metis
qed

lemma nth_swap_items:
  "i < length h \<Longrightarrow> pos < length h \<Longrightarrow> c < length h \<Longrightarrow>
   swap_items h pos c ! i = (if i = c then h ! pos else if i = pos then h ! c else h ! i)"
  by (auto simp: swap_items_def nth_list_update)

lemma children: "0 < i \<Longrightarrow> parent_of i = pos \<longleftrightarrow> i = 2 * pos + 1 \<or> i = 2 * pos + 2"
  by (cases i) auto

lemma sink_step:
  assumes "heap_but k pos h" "under k pos" "c < length h" "0 < c" "parent_of c = pos"
    and least: "\<And>i. i < length h \<Longrightarrow> 0 < i \<Longrightarrow> parent_of i = pos \<Longrightarrow> h ! c \<le> h ! i"
  shows "heap_but k c (swap_items h pos c)"
proof -
  have pc: "pos < c" using assms(4,5) parent_less by blast
  let ?h = "swap_items h pos c"
  note nth = nth_swap_items [of _ h pos c]
  have kp: "k \<le> pos" using assms(2) by (rule under_le)
  have edge: "h ! parent_of i \<le> h ! i" if "i < length h" "0 < i" "k \<le> parent_of i" "i \<noteq> pos" "parent_of i \<noteq> pos" for i
    using assms(1) that by (simp add: heap_but_def)
  have br: "h ! parent_of pos \<le> h ! i" if "i < length h" "0 < i" "parent_of i = pos" "0 < pos" "k \<le> parent_of pos" for i
    using assms(1) that by (simp add: heap_but_def bridged_def)
  have "?h ! parent_of i \<le> ?h ! i" if i: "i < length h" "0 < i" "k \<le> parent_of i" "i \<noteq> c" "parent_of i \<noteq> c" for i
  proof -
    have pl: "parent_of i < length h" using i(1,2) parent_less [of i] by linarith
    consider "i = pos" | "i \<noteq> pos" "parent_of i = pos" | "i \<noteq> pos" "parent_of i \<noteq> pos" by blast
    then show ?thesis
    proof cases
      case 1
      then show ?thesis using br [OF assms(3,4,5)] i pl pc assms(3) nth [of i] nth [of "parent_of i"] by (simp add: parent_less less_imp_neq)
    next
      case 2
      then show ?thesis using least [OF i(1,2)] i pl pc assms(3) by (simp add: nth)
    next
      case 3
      then show ?thesis using edge [OF i(1-3)] i pl pc assms(3) by (simp add: nth)
    qed
  qed
  moreover have "?h ! parent_of c \<le> ?h ! i" if i: "i < length h" "0 < i" "parent_of i = c" for i
  proof -
    have "c < i" using i parent_less by blast
    then have "h ! c \<le> h ! i" using edge [OF i(1,2)] i(3) pc kp by simp
    then show ?thesis using \<open>c < i\<close> pc i(1) assms(3,5) by (simp add: nth)
  qed
  ultimately show ?thesis by (auto simp: heap_but_def bridged_def)
qed

lemma heap_but_sink:
  assumes "heap_but k pos h" "under k pos" "pos < length h" "sink h pos = (h', pos')"
  shows "heap_but k pos' h' \<and> under k pos' \<and> pos' < length h' \<and> length h' \<le> 2 * pos' + 1"
  using assms
proof (induction h pos rule: sink.induct)
  case (1 h pos)
  define c where "c = 2 * pos + 1"
  define c' where "c' = (if c + 1 < length h \<and> \<not> h ! c < h ! (c + 1) then c + 1 else c)"
  show ?case
  proof (cases "c < length h")
    case True
    then have c': "c' < length h" "0 < c'" "parent_of c' = pos" by (auto simp: c'_def c_def)
    have "h ! c' \<le> h ! i" if "i < length h" "0 < i" "parent_of i = pos" for i
    proof -
      have "i = c \<or> i = c + 1" using that(2,3) children [of i pos] by (simp add: c_def)
      then show ?thesis using that(1) by (auto simp: c'_def)
    qed
    then have "heap_but k c' (swap_items h pos c')" using "1.prems"(1,2) c' by (intro sink_step)
    moreover have "under k c'" using "1.prems"(2) c'(2,3) by (rule under_child)
    moreover have "sink h pos = sink (swap_items h pos c') c'"
      using True by (subst sink.simps) (simp add: Let_def c_def c'_def)
    then have "sink (swap_items h pos c') c' = (h', pos')" using "1.prems"(4) by simp
    ultimately show ?thesis using "1.IH" [OF c_def True c'_def] c'(1) by simp
  next
    case False
    then have "h' = h" "pos' = pos" using "1.prems"(4) by (simp_all add: sink.simps [of h] Let_def c_def)
    then show ?thesis using "1.prems"(1-3) False by (simp add: c_def)
  qed
qed

lemma rise_step:
  assumes "heap_above k pos h" "under k pos" "k < pos" "pos < length h" "h ! pos < h ! parent_of pos"
  shows "heap_above k (parent_of pos) (swap_items h pos (parent_of pos))"
proof -
  let ?q = "parent_of pos" and ?h = "swap_items h pos (parent_of pos)"
  have q: "?q < pos" "?q < length h" using assms(3,4) parent_less [of pos] by linarith+
  have kq: "k \<le> ?q" using under_le [OF under_parent [OF assms(2,3)]] .
  note nth = nth_swap_items
  have edge: "h ! parent_of i \<le> h ! i" if "i < length h" "0 < i" "k \<le> parent_of i" "i \<noteq> pos" for i
    using assms(1) that by (simp add: heap_above_def)
  have br: "h ! ?q \<le> h ! i" if "i < length h" "0 < i" "parent_of i = pos" for i
    using assms(1,3) that kq by (simp add: heap_above_def bridged_def)
  have "?h ! parent_of i \<le> ?h ! i" if i: "i < length h" "0 < i" "k \<le> parent_of i" "i \<noteq> ?q" for i
  proof -
    have pl: "parent_of i < i" "parent_of i < length h" using i(1,2) parent_less [of i] by linarith+
    consider "i = pos" | "i \<noteq> pos" "parent_of i = pos" | "i \<noteq> pos" "parent_of i = ?q" | "i \<noteq> pos" "parent_of i \<noteq> pos" "parent_of i \<noteq> ?q"
      by blast
    then show ?thesis
    proof cases
      case 1
      then show ?thesis using assms(4,5) q by (simp add: nth less_imp_le)
    next
      case 2
      then show ?thesis using br [OF i(1,2)] i(1,4) assms(4) q by (simp add: nth less_imp_neq)
    next
      case 3
      have "h ! pos \<le> h ! i" using edge [OF i(1,2,3)] 3 assms(5) by simp
      then show ?thesis using 3 i(1,4) assms(4) q by (simp add: nth)
    next
      case 4
      then show ?thesis using edge [OF i(1-3)] i(1,4) pl(2) assms(4) q by (simp add: nth)
    qed
  qed
  moreover have "?h ! parent_of ?q \<le> ?h ! i" if i: "i < length h" "0 < i" "parent_of i = ?q" "0 < ?q" "k \<le> parent_of ?q" for i
  proof -
    have qq: "parent_of ?q < ?q" using i(4) by (rule parent_less)
    have up: "h ! parent_of ?q \<le> h ! ?q" using edge [OF q(2) i(4,5)] q(1) by simp
    have "h ! ?q \<le> h ! i" if "i \<noteq> pos" using edge [OF i(1,2)] i(3) kq that by simp
    moreover have "?q < i" using parent_less [OF i(2)] i(3) by simp
    ultimately show ?thesis using up qq q i(1) assms(4) by (auto simp: nth)
  qed
  ultimately show ?thesis by (simp add: heap_above_def bridged_def)
qed

lemma heap_from_siftdown:
  assumes "heap_above k pos h" "under k pos" "pos < length h"
  shows "heap_from k (siftdown h k pos)"
  using assms
proof (induction h k pos rule: siftdown.induct)
  case (1 h k pos)
  show ?case
  proof (cases "k < pos")
    case True
    show ?thesis
    proof (cases "h ! pos < h ! parent_of pos")
      case less: True
      have "parent_of pos < length h" using True "1.prems"(3) parent_less [of pos] by linarith
      then have "heap_from k (siftdown (swap_items h pos (parent_of pos)) k (parent_of pos))"
        using "1.IH" [OF True refl less] rise_step [OF "1.prems"(1,2) True "1.prems"(3) less] under_parent [OF "1.prems"(2) True]
        by simp
      then show ?thesis using True less by (simp add: siftdown.simps [of h] Let_def)
    next
      case False
      then have "heap_from k h" using "1.prems"(1) by (auto simp: heap_above_def heap_from_def)
      then show ?thesis using False by (simp add: siftdown.simps [of h] Let_def)
    qed
  next
    case False
    then have "pos = k" using "1.prems"(2) under_le by fastforce
    then have "heap_from k h" using "1.prems"(1) parent_less by (fastforce simp: heap_above_def heap_from_def)
    then show ?thesis using False by (simp add: siftdown.simps [of h])
  qed
qed

lemma heap_from_siftup:
  assumes "heap_but k k h" "k < length h"
  shows "heap_from k (siftup h k)"
proof -
  obtain h' pos where s: "sink h k = (h', pos)" by fastforce
  have "under k k" by (simp add: under.simps)
  with heap_but_sink [OF assms(1) _ assms(2) s]
  have h: "heap_but k pos h'" "under k pos" "pos < length h'" "length h' \<le> 2 * pos + 1" by simp_all
  have "parent_of i \<noteq> pos" if "i < length h'" "0 < i" for i using that h(4) children [of i pos] by auto
  then have "heap_above k pos h'" using h(1) by (auto simp: heap_above_def heap_but_def)
  with h(2,3) show ?thesis by (simp add: siftup_def s heap_from_siftdown)
qed

lemma heap_from_heapify: "heap_from 0 (heapify h)"
proof -
  have "heap_from 0 (fold (\<lambda>i h. siftup h i) (rev [0..<k]) h)" if "heap_from k h" "k \<le> length h" for k h
    using that
  proof (induction k arbitrary: h)
    case (Suc k)
    have "heap_but k k h" using Suc.prems(1) parent_less
      by (fastforce simp: heap_but_def bridged_def heap_from_def)
    then have "heap_from k (siftup h k)" using Suc.prems(2) by (intro heap_from_siftup) simp_all
    moreover have "length (siftup h k) = length h" using Suc.prems(2) mset_siftup [of k h] mset_eq_length by auto
    ultimately show ?case using Suc.IH [of "siftup h k"] Suc.prems(2) by simp
  qed simp
  moreover have "heap_from (length h div 2) h" by (auto simp: heap_from_def)
  ultimately show ?thesis by (simp add: heapify_def)
qed

lemma heap_from_heapreplace:
  assumes "heap_from 0 h" "h \<noteq> []" "heapreplace h x = (p, h')"
  shows "heap_from 0 h'"
proof -
  have "heap_but 0 0 (h[0 := x])"
    using assms(1) by (auto simp: heap_but_def bridged_def heap_from_def nth_list_update)
  with assms(2,3) show ?thesis by (auto simp: heapreplace_def intro: heap_from_siftup)
qed

lemma heap_root: "heap_from 0 h \<Longrightarrow> i < length h \<Longrightarrow> h ! 0 \<le> h ! i"
proof (induction i rule: less_induct)
  case (less i)
  show ?case
  proof (cases "i = 0")
    case False
    then have p: "parent_of i < i" by (intro parent_less) simp
    then have "h ! 0 \<le> h ! parent_of i" using less by simp
    also have "\<dots> \<le> h ! i" using less.prems False by (simp add: heap_from_def)
    finally show ?thesis .
  qed simp
qed

text \<open>
  The points in the heap are distinct, none is excluded, every score is the model's, and the best are
  kept: a point that was scored and is not excluded is in the heap or no better than all that are.
\<close>

definition best_kept :: "(int \<Rightarrow> rat) \<Rightarrow> int set \<Rightarrow> int set \<Rightarrow> item list \<Rightarrow> bool" where
  "best_kept f exclusive seen items \<longleftrightarrow>
     (\<forall>p\<in>seen - exclusive. p \<in> snd ` set items \<or> (\<forall>(s, _)\<in>set items. Fin (f p) \<le> s))"

definition scored :: "(int \<Rightarrow> rat) \<Rightarrow> int set \<Rightarrow> item list \<Rightarrow> bool" where
  "scored f seen items \<longleftrightarrow> (\<forall>(s, p)\<in>set items. s = MInf \<and> p < 0 \<or> s = Fin (f p) \<and> p \<in> seen)"

definition heap_ok :: "(int \<Rightarrow> rat) \<Rightarrow> nat \<Rightarrow> int set \<Rightarrow> int set \<Rightarrow> heap_state \<Rightarrow> bool" where
  "heap_ok f num exclusive seen st \<longleftrightarrow>
     length (hs_items st) = num \<and> distinct (map snd (hs_items st)) \<and>
     snd ` set (hs_items st) \<inter> exclusive = {} \<and> hs_in st = exclusive \<union> snd ` set (hs_items st) \<and>
     heap_from 0 (hs_items st) \<and> (\<forall>p\<in>seen. 0 \<le> p) \<and>
     scored f seen (hs_items st) \<and> best_kept f exclusive seen (hs_items st)"

lemma root_least: "heap_from 0 h \<Longrightarrow> (s, p) \<in> set h \<Longrightarrow> fst (h ! 0) \<le> s"
  using heap_root [of h] by (auto simp: in_set_conv_nth less_eq_prod_def) (metis fst_conv order.order_iff_strict)+

lemma scored_replace:
  assumes "scored f seen items" "set items = insert pop R" "set items' = insert (Fin (f p), p) R"
  shows "scored f (insert p seen) items'"
  using assms by (auto simp: scored_def)

lemma best_kept_replace:
  assumes "best_kept f exclusive seen items" "scored f seen items" "\<forall>q\<in>seen. 0 \<le> q"
    and "set items = insert pop R" "set items' = insert (Fin (f p), p) R"
    and "\<forall>(s, _)\<in>set items. fst pop \<le> s" "fst pop < Fin (f p)"
  shows "best_kept f exclusive (insert p seen) items'"
  unfolding best_kept_def
proof
  fix q assume q: "q \<in> insert p seen - exclusive"
  have low: "\<forall>(s, _)\<in>set items'. x \<le> s" if "x \<le> fst pop" for x
    using assms(4-7) that by (auto intro: order_trans less_imp_le)
  show "q \<in> snd ` set items' \<or> (\<forall>(s, _)\<in>set items'. Fin (f q) \<le> s)"
  proof (cases "q = p \<or> q \<in> snd ` R")
    case True
    then show ?thesis using assms(5) by auto
  next
    case False
    then have "q \<in> seen" "q \<in> seen - exclusive" using q by auto
    have "Fin (f q) \<le> fst pop"
    proof (cases "q = snd pop")
      case True
      then show ?thesis using assms(2-4) \<open>q \<in> seen\<close> by (cases pop) (auto simp: scored_def)
    next
      case ne: False
      then have "q \<notin> snd ` set items" using False assms(4) by auto
      then have "\<forall>(s, _)\<in>set items. Fin (f q) \<le> s" using assms(1) \<open>q \<in> seen - exclusive\<close> by (auto simp: best_kept_def)
      then show ?thesis using assms(4) by (auto split: prod.splits)
    qed
    then show ?thesis using low by blast
  qed
qed

lemma distinct_replace:
  assumes "mset items = add_mset pop R" "mset items' = add_mset x R" "distinct (map snd items)" "snd x \<notin> snd ` set items"
  shows "distinct (map snd items') \<and> snd pop \<notin> snd ` set_mset R"
proof -
  have "mset (map snd items) = add_mset (snd pop) (image_mset snd R)" by (simp add: assms(1))
  then obtain rs where rs: "mset rs = image_mset snd R" "distinct (snd pop # rs)"
    using assms(3) by (metis ex_mset mset.simps(2) mset_eq_imp_distinct_iff)
  have R: "set_mset R \<subseteq> set items" using assms(1) by (metis set_mset_add_mset_insert set_mset_mset subset_insertI)
  have srs: "set rs = snd ` set_mset R" using rs(1) by (metis set_image_mset set_mset_mset)
  have "distinct (snd x # rs)" using rs(2) srs R assms(4) by auto
  moreover have "mset (map snd items') = mset (snd x # rs)" by (simp add: assms(2) rs(1))
  then have "distinct (map snd items') = distinct (snd x # rs)" by (rule mset_eq_imp_distinct_iff)
  ultimately show ?thesis using rs(2) srs by auto
qed

lemma replace_ok:
  assumes "heap_ok f num exclusive seen st" "0 < num" "0 \<le> p"
    and "fst (hs_items st ! 0) < Fin (f p)" "p \<notin> hs_in st"
    and "heapreplace (hs_items st) (Fin (f p), p) = (pop, items)"
  shows "snd pop \<in> hs_in st \<and>
    heap_ok f num exclusive (insert p seen) (st\<lparr>hs_items := items, hs_in := insert p (hs_in st - {snd pop})\<rparr>)"
proof -
  let ?old = "hs_items st"
  have ne: "?old \<noteq> []" and h: "heap_from 0 ?old" and d: "distinct (map snd ?old)"
    and in_st: "hs_in st = exclusive \<union> snd ` set ?old" and dis: "snd ` set ?old \<inter> exclusive = {}"
    using assms(1,2) by (auto simp: heap_ok_def)
  have pop: "pop = ?old ! 0" using assms(6) by (simp add: heapreplace_def)
  define R where "R = mset ?old - {#pop#}"
  have old: "mset ?old = add_mset pop R" and new: "mset items = add_mset (Fin (f p), p) R"
    using mset_heapreplace [OF ne assms(6)] by (simp_all add: R_def)
  have si: "set ?old = insert pop (set_mset R)" "set items = insert (Fin (f p), p) (set_mset R)"
    by (metis old set_mset_add_mset_insert set_mset_mset) (metis new set_mset_add_mset_insert set_mset_mset)
  have pin: "p \<notin> exclusive" "p \<notin> snd ` set ?old" using assms(5) in_st by auto
  have ds: "distinct (map snd items)" "snd pop \<notin> snd ` set_mset R"
    using distinct_replace [OF old new d] pin(2) by simp_all
  have len: "length items = num"
    using arg_cong [OF new, of size] arg_cong [OF old, of size] assms(1) by (simp add: heap_ok_def)
  have sc: "scored f (insert p seen) items"
    using assms(1) si by (intro scored_replace [of f seen ?old]) (simp_all add: heap_ok_def)
  have bk: "best_kept f exclusive (insert p seen) items"
    using assms(1,4) root_least [OF h] pop si
    by (intro best_kept_replace [of f exclusive seen ?old pop "set_mset R"]) (auto simp: heap_ok_def)
  have "insert p (hs_in st - {snd pop}) = exclusive \<union> snd ` set items"
    using ds(2) dis unfolding in_st si by auto
  moreover have "snd ` set items \<inter> exclusive = {}" using dis pin unfolding si by auto
  moreover have "heap_from 0 items" using h ne assms(6) by (rule heap_from_heapreplace)
  moreover have "snd pop \<in> hs_in st" by (simp add: in_st si)
  ultimately show ?thesis using assms(1,3) ds(1) len sc bk by (simp add: heap_ok_def)
qed

lemma refuse_ok:
  assumes "heap_ok f num exclusive seen st" "0 \<le> p" "\<not> (fst (hs_items st ! 0) < Fin (f p) \<and> p \<notin> hs_in st)"
  shows "heap_ok f num exclusive (insert p seen) st"
proof -
  have "Fin (f p) \<le> s" if "\<not> fst (hs_items st ! 0) < Fin (f p)" "(s, q) \<in> set (hs_items st)" for s q
    using that root_least [of "hs_items st" s q] assms(1) by (auto simp: heap_ok_def not_less)
  then have "best_kept f exclusive (insert p seen) (hs_items st)"
    using assms(1,3) unfolding heap_ok_def best_kept_def by blast
  then show ?thesis using assms(1,2) by (auto simp: heap_ok_def scored_def)
qed

lemma offer_ok:
  assumes "heap_ok f num exclusive seen st" "0 < num" "\<forall>(s, p)\<in>set sps. s = f p \<and> 0 \<le> p"
  shows "\<exists>c st'. offer sps st = Inr (c, st') \<and> heap_ok f num exclusive (seen \<union> snd ` set sps) st'"
  using assms
proof (induction sps arbitrary: seen st)
  case Nil
  then show ?case by auto
next
  case (Cons sp sps)
  obtain p where sp: "sp = (f p, p)" "0 \<le> p" using Cons.prems(3) by (cases sp) auto
  have top: "py_get (hs_items st) 0 = Inr (hs_items st ! 0)"
    using Cons.prems(1,2) by (cases "hs_items st") (auto simp: heap_ok_def)
  have rest: "\<forall>(s, p)\<in>set sps. s = f p \<and> 0 \<le> p" and all: "insert p seen \<union> snd ` set sps = seen \<union> snd ` set (sp # sps)"
    using Cons.prems(3) sp by auto
  show ?case
  proof (cases "fst (hs_items st ! 0) < Fin (f p) \<and> p \<notin> hs_in st")
    case False
    then have "offer (sp # sps) st = offer sps st" using top by (auto simp: sp)
    with Cons.IH [OF refuse_ok [OF Cons.prems(1) sp(2) False] Cons.prems(2) rest] show ?thesis unfolding all by simp
  next
    case True
    obtain pop items where h: "heapreplace (hs_items st) (Fin (f p), p) = (pop, items)" by fastforce
    let ?st = "st\<lparr>hs_items := items, hs_in := insert p (hs_in st - {snd pop})\<rparr>"
    have ok: "snd pop \<in> hs_in st" "heap_ok f num exclusive (insert p seen) ?st"
      using replace_ok [OF Cons.prems(1,2) sp(2) _ _ h] True by simp_all
    have "offer (sp # sps) st = bindR (offer sps ?st) (\<lambda>(_, st'). Inr (True, st'))"
      using top True h ok(1) by (simp add: sp)
    with Cons.IH [OF ok(2) Cons.prems(2) rest] show ?thesis unfolding all by auto
  qed
qed

text \<open>
  Pairs of draws in which every position and every new value of it come up within a window.
\<close>

definition fair_walk :: "nat list \<Rightarrow> nat \<Rightarrow> (nat \<Rightarrow> nat) \<Rightarrow> bool" where
  "fair_walk dims window draws \<longleftrightarrow>
     (\<forall>p i v. i < length dims \<and> v < dims ! i \<longrightarrow>
        (\<exists>q<window. draws (p + 2 * q) mod length dims = i \<and> draws (p + 2 * q + 1) mod dims ! i = v))"

lemma knob_ok_update:
  "knob_ok dims ks \<Longrightarrow> i < length dims \<Longrightarrow> v < dims ! i \<Longrightarrow> knob_ok dims (ks[i := int v])"
  by (auto simp: knob_ok_def list_all2_conv_all_nth nth_list_update)

lemma walk_loop_ends:
  assumes "knob_ok dims old" "i < length dims" "v < dims ! i" "old ! i \<noteq> int v"
    and "rng_draws g (rng_pos g + 2 * q) mod length dims = i"
    and "rng_draws g (rng_pos g + 2 * q + 1) mod dims ! i = v" "q + 2 \<le> fuel"
  shows "\<exists>new g'. walk_loop fuel dims old old g = Inr (new, g') \<and> knob_ok dims new \<and> new \<noteq> old \<and>
    rng_draws g' = rng_draws g"
  using assms(5-)
proof (induction q arbitrary: fuel g)
  have len: "length old = length dims" using assms(1) by (rule knob_ok_length)
  have pos: "dims ! j > 0" if "j < length dims" for j
    using assms(1) that by (auto simp: knob_ok_def list_all2_conv_all_nth)
  define step where "step g = (let j = rng_draws g (rng_pos g) mod length dims
      in old[j := int (rng_draws g (Suc (rng_pos g)) mod dims ! j)])" for g :: rng
  have unfold: "walk_loop (Suc fuel) dims old old g =
      walk_loop fuel dims old (step g) (g\<lparr>rng_pos := rng_pos g + 2\<rparr>) \<and> knob_ok dims (step g)" for fuel and g :: rng
  proof -
    define j where "j = rng_draws g (rng_pos g) mod length dims"
    have "0 < length dims" using assms(2) by linarith
    then have j: "j < length dims" by (simp add: j_def)
    have "dims \<noteq> []" using j by auto
    then have "randint (int (length old)) g = Inr (int j, g\<lparr>rng_pos := Suc (rng_pos g)\<rparr>)"
      by (simp add: randint_def len j_def zmod_int)
    moreover have "randint (int (dims ! j)) (g\<lparr>rng_pos := Suc (rng_pos g)\<rparr>) =
        Inr (int (rng_draws g (Suc (rng_pos g)) mod dims ! j), g\<lparr>rng_pos := rng_pos g + 2\<rparr>)"
      using pos [OF j] by (simp add: randint_def zmod_int)
    moreover have "knob_ok dims (step g)"
      using knob_ok_update [OF assms(1) j, of "rng_draws g (Suc (rng_pos g)) mod dims ! j"] pos [OF j]
      by (simp add: step_def j_def Let_def)
    ultimately show ?thesis by (simp add: step_def j_def Let_def)
  qed
  {
    case 0
    then have "step g = old[i := int v]" by (simp add: step_def Let_def)
    then have "step g \<noteq> old" using assms(2,4) len by (metis nth_list_update_eq)
    moreover obtain f where f: "fuel = Suc (Suc f)" using 0(3) by (metis add_2_eq_Suc' le_Suc_ex add_Suc_right add.commute plus_nat.add_0)
    ultimately show ?case using unfold [of "Suc f" g] by simp
  next
    case (Suc q)
    obtain f where f: "fuel = Suc f" "q + 2 \<le> f" using Suc.prems(3) by (cases fuel) auto
    show ?case
    proof (cases "step g = old")
      case False
      obtain f' where "f = Suc f'" using f(2) by (cases f) auto
      with f False unfold [of f g] show ?thesis by simp
    next
      case True
      define g1 where "g1 = g\<lparr>rng_pos := rng_pos g + 2\<rparr>"
      have "rng_draws g1 (rng_pos g1 + 2 * q) mod length dims = i"
        "rng_draws g1 (rng_pos g1 + 2 * q + 1) mod dims ! i = v" using Suc.prems(1,2) by (simp_all add: g1_def)
      from Suc.IH [OF this f(2)] f(1) True unfold [of f g] show ?thesis by (simp add: g1_def)
    qed
  }
qed

lemma random_walk_ends:
  assumes "0 \<le> p" "p < int (prodlist dims)" "\<exists>i<length dims. 2 \<le> dims ! i"
    and fits: "prodlist dims < 2 ^ 63"
    and "fair_walk dims window (rng_draws g)" "window + 1 \<le> fuel"
  shows "\<exists>q g'. random_walk fuel p dims g = Inr (q, g') \<and> 0 \<le> q \<and> q < int (prodlist dims) \<and> q \<noteq> p \<and>
    rng_draws g' = rng_draws g"
proof -
  obtain old where old: "point2knob p dims = Inr old" "knob_ok dims old" "knob2point old dims = p"
    using knob_dec [OF fits assms(1,2)] by blast
  obtain i where i: "i < length dims" "2 \<le> dims ! i" using assms(3) by blast
  define v :: nat where "v = (if old ! i = 0 then 1 else 0)"
  have v: "v < dims ! i" "old ! i \<noteq> int v" using i by (auto simp: v_def)
  obtain q where q: "q < window" "rng_draws g (rng_pos g + 2 * q) mod length dims = i"
    "rng_draws g (rng_pos g + 2 * q + 1) mod dims ! i = v"
    using assms(5) i(1) v(1) unfolding fair_walk_def by blast
  obtain new g' where new: "walk_loop fuel dims old old g = Inr (new, g')" "knob_ok dims new" "new \<noteq> old"
    "rng_draws g' = rng_draws g"
    using walk_loop_ends [OF old(2) i(1) v q(2,3), of fuel] q(1) assms(6) by auto
  then have "knob2point new dims \<noteq> p" using knob.enc_inj [of dims new old] fits old new(2,3) by auto
  with new old(1) knob_enc [OF fits new(2)] show ?thesis by (simp add: random_walk_def)
qed

lemma walk_all_ends:
  assumes "set ps \<subseteq> {0..<int (prodlist dims)}" "\<exists>i<length dims. 2 \<le> dims ! i" "prodlist dims < 2 ^ 63"
    and "fair_walk dims window (rng_draws g)" "window + 1 \<le> fuel"
  shows "\<exists>qs g'. walk_all fuel dims ps g = Inr (qs, g') \<and> set qs \<subseteq> {0..<int (prodlist dims)} \<and>
    rng_draws g' = rng_draws g"
  using assms(1,4)
proof (induction ps arbitrary: g)
  case (Cons p ps)
  then obtain q g1 where q: "random_walk fuel p dims g = Inr (q, g1)" "0 \<le> q" "q < int (prodlist dims)"
    "rng_draws g1 = rng_draws g" using random_walk_ends [of p dims window g fuel] assms(2,3,5) by auto
  with Cons.IH [of g1] Cons.prems show ?case by fastforce
qed simp

text \<open>The state of a run: the heap is in order, and all points lie in the space.\<close>

definition run_ok :: "(int \<Rightarrow> rat) \<Rightarrow> nat \<Rightarrow> int set \<Rightarrow> int \<Rightarrow> sa_run \<Rightarrow> bool" where
  "run_ok f num exclusive n r \<longleftrightarrow>
     heap_ok f num exclusive (set (sa_seen r)) (sa_heap r) \<and>
     set (sa_points r) \<subseteq> {0..<n} \<and> set (sa_seen r) \<subseteq> {0..<n}"

lemma moved_points: "set (map (\<lambda>(a, p', p). if a then p' else p) (zip acc (zip qs ps))) \<subseteq> set qs \<union> set ps"
proof
  fix x assume "x \<in> set (map (\<lambda>(a, p', p). if a then p' else p) (zip acc (zip qs ps)))"
  then obtain a p' p where x: "(a, p', p) \<in> set (zip acc (zip qs ps))" "x = (if a then p' else p)" by auto
  then have "p' \<in> set qs" "p \<in> set ps" by (metis set_zip_leftD set_zip_rightD)+
  then show "x \<in> set qs \<union> set ps" by (simp add: x(2))
qed

lemma sa_loop_ends:
  assumes "\<exists>i<length dims. 2 \<le> dims ! i" "prodlist dims < 2 ^ 63" "window + 1 \<le> fuel" "0 < num"
    and "run_ok f num exclusive (int (prodlist dims)) r" "fair_walk dims window (rng_draws (sa_rng r))"
  shows "\<exists>r'. sa_loop (map f) accept dims fuel early_stop cool n k r = Inr r' \<and>
    run_ok f num exclusive (int (prodlist dims)) r' \<and> set (sa_seen r) \<subseteq> set (sa_seen r')"
  using assms(5-)
proof (induction n arbitrary: k r)
  case 0
  then show ?case by simp
next
  case (Suc n)
  show ?case
  proof (cases "k < sa_last_modify r + early_stop")
    case False
    with Suc.prems show ?thesis by simp
  next
    case True
    have pts: "set (sa_points r) \<subseteq> {0..<int (prodlist dims)}" using Suc.prems(1) by (simp add: run_ok_def)
    obtain qs g where q: "walk_all fuel dims (sa_points r) (sa_rng r) = Inr (qs, g)"
      "set qs \<subseteq> {0..<int (prodlist dims)}" "rng_draws g = rng_draws (sa_rng r)"
      using walk_all_ends [OF pts assms(1,2) Suc.prems(2) assms(3)] by blast
    define acc where "acc = map (\<lambda>(i, s', s). accept (s' - s) (sa_temp r) (rng_draws g (rng_pos g + i)))
        (zip [0..<length (map f qs)] (zip (map f qs) (sa_scores r)))"
    define points where "points = map (\<lambda>(a, p', p). if a then p' else p) (zip acc (zip qs (sa_points r)))"
    have sps: "\<forall>(s, p)\<in>set (zip (map f qs) qs). s = f p \<and> 0 \<le> p" using q(2) by (force simp: set_zip)
    have img: "snd ` set (zip (map f qs) qs) = set qs" by (metis length_map list.set_map map_snd_zip)
    obtain c heap where off: "offer (zip (map f qs) qs) (sa_heap r) = Inr (c, heap)"
      "heap_ok f num exclusive (set (sa_seen r) \<union> set qs) heap"
      using offer_ok [OF _ assms(4) sps] Suc.prems(1) unfolding img run_ok_def by blast
    define r1 where "r1 = \<lparr>sa_points = points, sa_scores = map (\<lambda>(a, s', s). if a then s' else s)
        (zip acc (zip (map f qs) (sa_scores r))), sa_heap = heap, sa_temp = sa_temp r - cool,
        sa_last_modify = (if c then k else sa_last_modify r), sa_rng = g\<lparr>rng_pos := rng_pos g + length acc\<rparr>,
        sa_seen = sa_seen r @ qs\<rparr>"
    have "sa_loop (map f) accept dims fuel early_stop cool (Suc n) k r =
        sa_loop (map f) accept dims fuel early_stop cool n (Suc k) r1"
      using True q(1) off(1) by (simp add: Let_def acc_def points_def r1_def)
    moreover have "set points \<subseteq> {0..<int (prodlist dims)}"
      using moved_points [of acc qs "sa_points r"] q(2) pts unfolding points_def by blast
    then have "run_ok f num exclusive (int (prodlist dims)) r1"
      using off(2) q(2) Suc.prems(1) by (simp add: run_ok_def r1_def)
    from Suc.IH [OF this, of "Suc k"] Suc.prems(2) q(3)
    have "\<exists>r'. sa_loop (map f) accept dims fuel early_stop cool n (Suc k) r1 = Inr r' \<and>
        run_ok f num exclusive (int (prodlist dims)) r' \<and> set (sa_seen r1) \<subseteq> set (sa_seen r')" by (simp add: r1_def)
    ultimately show ?thesis by (auto simp: r1_def)
  qed
qed

text \<open>
  The heap the optimizer starts from holds distinct placeholders, none of them excluded; what it
  returns is the best part of the heap it ends with, from the largest score down.
\<close>

lemma start_heap_ok:
  fixes num :: nat and exclusive :: "int set"
  defines "heap0 \<equiv> heapify (map (\<lambda>i. (MInf, - 1 - int i)) [0..<num])"
  assumes "\<forall>x\<in>exclusive. 0 \<le> x"
  shows "heap_ok f num exclusive {} \<lparr>hs_items = heap0, hs_in = exclusive \<union> set (map snd heap0)\<rparr>"
proof -
  define start where "start = map (\<lambda>i. (MInf, - 1 - int i)) [0..<num]"
  have m: "mset heap0 = mset start" by (simp add: heap0_def start_def mset_heapify)
  have s0: "set heap0 = set start" using m by (metis set_mset_mset)
  have "mset (map snd heap0) = mset (map snd start)" using m by simp
  moreover have "distinct (map snd start)" by (simp add: start_def distinct_map inj_on_def)
  ultimately have "distinct (map snd heap0)" using mset_eq_imp_distinct_iff by blast
  moreover have "length heap0 = num" using mset_eq_length [OF m] by (simp add: start_def)
  moreover have "snd ` set heap0 \<inter> exclusive = {}" using assms(2) by (force simp: s0 start_def)
  moreover have "heap_from 0 heap0" by (simp add: heap0_def heap_from_heapify)
  ultimately show ?thesis by (auto simp: heap_ok_def s0 start_def scored_def best_kept_def)
qed

text \<open>The answer: the best \<open>num\<close> of the points that were scored, are not excluded and score at least 0.\<close>

definition best_of_seen :: "(int \<Rightarrow> rat) \<Rightarrow> nat \<Rightarrow> int set \<Rightarrow> int set \<Rightarrow> item list \<Rightarrow> bool" where
  "best_of_seen f num exclusive seen items \<longleftrightarrow>
     length items \<le> num \<and> distinct (map snd items) \<and> sorted (rev (map fst items)) \<and>
     (\<forall>(s, p)\<in>set items. p \<in> seen - exclusive \<and> s = Fin (f p) \<and> 0 \<le> f p) \<and>
     (\<forall>p\<in>seen - exclusive. 0 \<le> f p \<longrightarrow>
        p \<in> snd ` set items \<or> length items = num \<and> (\<forall>q\<in>snd ` set items. f p \<le> f q))"

lemma best_items_ok:
  assumes "heap_ok f num exclusive seen heap"
    and "items = [x \<leftarrow> rev (sort_key fst (rev (hs_items heap))). fst x \<ge> Fin 0]"
  shows "best_of_seen f num exclusive seen items"
proof -
  define hs where "hs = hs_items heap"
  define desc where "desc = rev (sort_key fst (rev hs))"
  have it: "items = [x \<leftarrow> desc. fst x \<ge> Fin 0]" by (simp add: assms(2) desc_def hs_def)
  have hk: "length hs = num" "distinct (map snd hs)" "snd ` set hs \<inter> exclusive = {}"
    "scored f seen hs" "best_kept f exclusive seen hs" "\<forall>p\<in>seen. 0 \<le> p" using assms(1) by (auto simp: heap_ok_def hs_def)
  have md: "mset desc = mset hs" by (simp add: desc_def)
  have "mset (map snd desc) = mset (map snd hs)" using md by simp
  then have dd: "distinct (map snd desc)" using hk(2) mset_eq_imp_distinct_iff by blast
  have sd: "set desc = set hs" and ld: "length desc = num" using md hk(1) by (metis set_mset_mset) (metis md mset_eq_length hk(1))
  have si: "set items = {x \<in> set hs. Fin 0 \<le> fst x}" by (simp add: it sd)
  have "length items \<le> num" using length_filter_le [of _ desc] ld by (simp add: it)
  moreover have "distinct (map snd items)" using dd by (simp add: it distinct_map_filter)
  moreover have "sorted (map fst (filter (\<lambda>x. fst x \<ge> Fin 0) (sort_key fst (rev hs))))"
    by (rule sorted_filter) simp
  then have "sorted (rev (map fst items))" by (simp add: it desc_def rev_map rev_filter)
  moreover have sc: "\<forall>(s, p)\<in>set items. p \<in> seen - exclusive \<and> s = Fin (f p) \<and> 0 \<le> f p"
    using hk(3,4) by (fastforce simp: si scored_def)
  moreover have "p \<in> snd ` set items \<or> length items = num \<and> (\<forall>q\<in>snd ` set items. f p \<le> f q)"
    if p: "p \<in> seen - exclusive" "0 \<le> f p" for p
  proof (cases "p \<in> snd ` set hs")
    case True
    then have "(Fin (f p), p) \<in> set hs" using hk(4,6) p(1) by (fastforce simp: scored_def)
    then show ?thesis using p(2) by (force simp: si)
  next
    case False
    then have low: "\<forall>(s, _)\<in>set hs. Fin (f p) \<le> s" using hk(5) p(1) by (auto simp: best_kept_def)
    have "Fin 0 \<le> Fin (f p)" using p(2) by simp
    then have "Fin 0 \<le> s" if "(s, q) \<in> set hs" for s q using low that by (blast intro: order_trans)
    then have "\<forall>x\<in>set desc. Fin 0 \<le> fst x" by (auto simp: sd)
    then have "items = desc" by (simp add: it)
    then show ?thesis using low sc ld by (fastforce simp: sd)
  qed
  ultimately show ?thesis by (auto simp: best_of_seen_def)
qed

text \<open>
  C14. Simulated annealing maximises over what it tries, in a space with at least two configurations
  that fits in 64 bits, for random numbers that keep trying every move: it returns the best \<open>num\<close>
  points. Each of them was a start point or a proposal of some round, is not excluded, and comes with
  the score that the model predicts for it, at least 0, in falling order of the scores and without
  repetition. Every other point that was tried, is not excluded and scores at least 0 is left out
  only if \<open>num\<close> points are returned and none of them scores less.
\<close>

theorem find_maximums_sound:
  assumes "0 < num" "\<forall>x\<in>exclusive. 0 \<le> x" "set points \<subseteq> {0..<int (prodlist dims)}" "prodlist dims < 2 ^ 63"
    and "\<exists>i<length dims. 2 \<le> dims ! i" "fair_walk dims window (rng_draws g)" "window + 1 \<le> fuel"
  shows "\<exists>items r. find_maximums (map f) accept dims fuel n_iter early_stop temp num exclusive points g = Inr (items, r) \<and>
    set points \<subseteq> set (sa_seen r) \<and> set (sa_seen r) \<subseteq> {0..<int (prodlist dims)} \<and>
    length items \<le> num \<and> distinct (map snd items) \<and> sorted (rev (map fst items)) \<and>
    (\<forall>(s, p)\<in>set items. p \<in> set (sa_seen r) - exclusive \<and> s = Fin (f p) \<and> 0 \<le> f p) \<and>
    (\<forall>p\<in>set (sa_seen r) - exclusive. 0 \<le> f p \<longrightarrow>
       p \<in> snd ` set items \<or> length items = num \<and> (\<forall>q\<in>snd ` set items. f p \<le> f q))"
proof -
  define heap0 where "heap0 = heapify (map (\<lambda>i. (MInf, - 1 - int i)) [0..<num])"
  have h0: "heap_ok f num exclusive {} \<lparr>hs_items = heap0, hs_in = exclusive \<union> set (map snd heap0)\<rparr>"
    using start_heap_ok [OF assms(2)] by (simp add: heap0_def)
  have img: "snd ` set (zip (map f points) points) = set points" by (metis length_map list.set_map map_snd_zip)
  have "\<forall>(s, p)\<in>set (zip (map f points) points). s = f p \<and> 0 \<le> p" using assms(3) by (force simp: set_zip)
  from offer_ok [OF h0 assms(1) this] obtain c heap where off:
    "offer (zip (map f points) points) \<lparr>hs_items = heap0, hs_in = exclusive \<union> set (map snd heap0)\<rparr> = Inr (c, heap)"
    "heap_ok f num exclusive (set points) heap" unfolding img by auto
  define r0 where "r0 = \<lparr>sa_points = points, sa_scores = map f points, sa_heap = heap, sa_temp = fst temp,
      sa_last_modify = 0, sa_rng = g, sa_seen = points\<rparr>"
  define cool where "cool = (fst temp - snd temp) / of_nat (n_iter + 1)"
  have ok0: "run_ok f num exclusive (int (prodlist dims)) r0" using off(2) assms(3) by (simp add: run_ok_def r0_def)
  have seen0: "sa_seen r0 = points" "fair_walk dims window (rng_draws (sa_rng r0))" using assms(6) by (simp_all add: r0_def)
  obtain r where r: "sa_loop (map f) accept dims fuel early_stop cool n_iter 0 r0 = Inr r"
    "run_ok f num exclusive (int (prodlist dims)) r" "set points \<subseteq> set (sa_seen r)"
    using sa_loop_ends [OF assms(5,4,7,1) ok0 seen0(2)] unfolding seen0(1) by blast
  define items where "items = [x \<leftarrow> rev (sort_key fst (rev (hs_items (sa_heap r)))). fst x \<ge> Fin 0]"
  have "find_maximums (map f) accept dims fuel n_iter early_stop temp num exclusive points g = Inr (items, r)"
    unfolding find_maximums_def Let_def heap0_def [symmetric] cool_def [symmetric] off(1)
    by (simp only: bindR_simps prod.case r0_def [symmetric] r(1) items_def)
  moreover have "best_of_seen f num exclusive (set (sa_seen r)) items"
    by (rule best_items_ok [OF _ items_def]) (use r(2) in \<open>simp add: run_ok_def\<close>)
  ultimately show ?thesis using r(2,3) unfolding best_of_seen_def run_ok_def by blast
qed

lemma find_maximums_sound_witness:
  "\<exists>items r. find_maximums (map (\<lambda>p. of_int p)) (\<lambda>_ _ _. True) [3] 4 2 50 (1, 0) 1 {1} [0, 2]
      \<lparr>rng_draws = (\<lambda>k. k), rng_pos = 0\<rparr> = Inr (items, r) \<and> snd ` set items = {2}"
proof -
  have "\<exists>q<3. (p + 2 * q + 1) mod 3 = v" if "v < 3" for p v :: nat
    using that by presburger
  then have "fair_walk [3] 3 (\<lambda>k. k)" by (simp add: fair_walk_def)
  with find_maximums_sound [of 1 "{1}" "[0, 2]" "[3]" 3 "\<lparr>rng_draws = (\<lambda>k. k), rng_pos = 0\<rparr>" 4
      "\<lambda>p. of_int p" "\<lambda>_ _ _. True" 2 50 "(1, 0)"]
  obtain items r where r: "find_maximums (map (\<lambda>p. of_int p)) (\<lambda>_ _ _. True) [3] 4 2 50 (1, 0) 1 {1} [0, 2]
      \<lparr>rng_draws = (\<lambda>k. k), rng_pos = 0\<rparr> = Inr (items, r)" "{0, 2} \<subseteq> set (sa_seen r)" "set (sa_seen r) \<subseteq> {0..<3}"
      "length items \<le> 1" "\<forall>x\<in>set items. snd x \<in> set (sa_seen r)"
      "\<forall>p\<in>set (sa_seen r) - {1}. 0 \<le> p \<longrightarrow> p \<in> snd ` set items \<or> length items = 1 \<and> (\<forall>q\<in>snd ` set items. p \<le> q)"
    by (auto simp: case_prod_beta)
  have "2 \<in> snd ` set items \<or> length items = 1 \<and> (\<forall>q\<in>snd ` set items. 2 \<le> q)" using r(2,6) by auto
  moreover have "q \<le> 2" if "q \<in> snd ` set items" for q using that r(3,5) by fastforce
  moreover obtain x where "items = [x]" using calculation(1) r(4) by (cases items) auto
  ultimately have "snd ` set items = {2}" by fastforce
  with r(1) show ?thesis by blast
qed

text \<open>
  In a space of a single configuration (every dimension 1) a random walk from it never ends:
  no amount of retries changes the knob vector, whatever is drawn.
\<close>

theorem random_walk_stuck:
  assumes "dims \<noteq> []" "\<forall>d\<in>set dims. d = 1"
  shows "random_walk fuel 0 dims g = Inl OutOfFuel"
proof -
  have old: "point2knob 0 dims = Inr (replicate (length dims) 0)"
    using assms(2) by (induction dims) auto
  have "walk_loop fuel dims (replicate (length dims) 0) (replicate (length dims) 0) g = Inl OutOfFuel" for g
  proof (induction fuel arbitrary: g)
    case (Suc fuel)
    obtain i g1 where i: "randint (int (length dims)) g = Inr (int i, g1)" "i < length dims"
      using randint_Inr [of "int (length dims)" g] assms(1) by (metis length_greater_0_conv of_nat_0_less_iff zero_le_imp_eq_int of_nat_less_iff)
    have "dims ! i = 1" using assms(2) i(2) by simp
    then obtain g2 where "randint (int (dims ! nat (int i))) g1 = Inr (0, g2)" by (simp add: randint_def)
    moreover have "(replicate (length dims) (0::int))[i := 0] = replicate (length dims) 0"
      by (metis i(2) list_update_id nth_replicate)
    ultimately show ?case using i Suc.IH by simp
  qed simp
  with old show ?thesis by (simp add: random_walk_def)
qed

lemma random_walk_stuck_witness:
  "random_walk 1000 0 [1, 1] \<lparr>rng_draws = (\<lambda>k. k), rng_pos = 0\<rparr> = Inl OutOfFuel"
  by (rule random_walk_stuck) simp_all

end
