(* ===== verification/GeneticTuner.thy ===== *)
theory GeneticTuner
  imports ModelTuner
begin

text \<open>
  The genetic tuner, \<open>tvm/python/tvm/autotvm/tuner/ga_tuner.py\<close>. A gene is a knob vector. Choosing
  the elites (\<open>np.argpartition\<close>), choosing parents (\<open>np.random.choice\<close>, which may raise) and the coin of a mutation
  are parameters; the retries for an unvisited gene run on fuel, of which a bounded amount is enough
  when the random numbers are fair.
\<close>

section \<open>State and initial population\<close>

record ga =
  ga_pop_size :: int
  ga_elite_num :: int
  ga_dims :: "nat list"
  ga_space_len :: int
  ga_visited :: "int set"
  ga_genes :: "int list list"
  ga_scores :: "rat list"
  ga_elites :: "int list list"
  ga_elite_scores :: "rat list"
  ga_trial_pt :: nat

fun draw_gene :: "nat \<Rightarrow> int \<Rightarrow> nat list \<Rightarrow> int set \<Rightarrow> rng \<Rightarrow> (int list \<times> rng) res" where
  "draw_gene 0 n dims visited g = Inl OutOfFuel"
| "draw_gene (Suc fuel) n dims visited g =
     bindR (randint n g) (\<lambda>(p, g'). bindR (point2knob p dims) (\<lambda>gene.
       if knob2point gene dims \<in> visited then draw_gene fuel n dims visited g' else Inr (gene, g')))"

fun init_genes :: "nat \<Rightarrow> nat \<Rightarrow> ga \<times> rng \<Rightarrow> (ga \<times> rng) res" where
  "init_genes fuel 0 (t, g) = Inr (t, g)"
| "init_genes fuel (Suc n) (t, g) =
     bindR (draw_gene fuel (ga_space_len t) (ga_dims t) (ga_visited t) g) (\<lambda>(gene, g').
       init_genes fuel n (t\<lparr>ga_genes := ga_genes t @ [gene],
                            ga_visited := insert (knob2point gene (ga_dims t)) (ga_visited t)\<rparr>, g'))"

definition new_ga :: "nat \<Rightarrow> int \<Rightarrow> nat list \<Rightarrow> int \<Rightarrow> int \<Rightarrow> rng \<Rightarrow> (ga \<times> rng) res" where
  "new_ga fuel space_len dims pop_size elite_num g =
     bindR (guardR (elite_num \<le> pop_size) AssertionError) (\<lambda>_.
       let pop = min pop_size space_len in
       init_genes fuel (nat pop)
         (\<lparr>ga_pop_size = pop, ga_elite_num = min pop elite_num, ga_dims = dims, ga_space_len = space_len,
           ga_visited = {}, ga_genes = [], ga_scores = [], ga_elites = [], ga_elite_scores = [],
           ga_trial_pt = 0\<rparr>, g))"

section \<open>Batches\<close>

fun ga_next_batch :: "nat \<Rightarrow> ga \<Rightarrow> (int list \<times> ga) res" where
  "ga_next_batch 0 t = Inr ([], t)"
| "ga_next_batch (Suc b) t =
     bindR (guardR (ga_pop_size t \<noteq> 0) ZeroDivisionError) (\<lambda>_.
     bindR (py_get (ga_genes t) (int (ga_trial_pt t) mod ga_pop_size t)) (\<lambda>gene.
     let t' = t\<lparr>ga_trial_pt := ga_trial_pt t + 1\<rparr> in
     bindR (space_get (ga_space_len t) (knob2point gene (ga_dims t))) (\<lambda>c.
     bindR (ga_next_batch b t') (\<lambda>(cs, t''). Inr (c # cs, t'')))))"

definition ga_has_next :: "ga \<Rightarrow> bool" where
  "ga_has_next t \<longleftrightarrow>
     int (card (ga_visited t)) - (int (length (ga_genes t)) - int (ga_trial_pt t)) < ga_space_len t"

section \<open>The next generation\<close>

fun mutate_gene ::
  "(rng \<Rightarrow> bool \<times> rng) \<Rightarrow> (nat \<times> nat) list \<Rightarrow> int list \<Rightarrow> rng \<Rightarrow> (int list \<times> rng) res" where
  "mutate_gene coin [] gene g = Inr (gene, g)"
| "mutate_gene coin ((j, d) # js) gene g =
     (let (heads, g1) = coin g in
      if heads then
        bindR (randint (int d) g1) (\<lambda>(v, g2). mutate_gene coin js (gene[j := v]) g2)
      else mutate_gene coin js gene g1)"

fun until_unvisited :: "nat \<Rightarrow> nat list \<Rightarrow> int set \<Rightarrow> int list \<Rightarrow> rng \<Rightarrow> (int list \<times> rng) res" where
  "until_unvisited 0 dims visited gene g = Inl OutOfFuel"
| "until_unvisited (Suc fuel) dims visited gene g =
     (if knob2point gene dims \<in> visited then
        bindR (randint (int (length dims)) g) (\<lambda>(j, g1).
        bindR (randint (int (dims ! nat j)) g1) (\<lambda>(v, g2).
          until_unvisited fuel dims visited (gene[nat j := v]) g2))
      else Inr (gene, g))"

fun crossover ::
  "(rat list \<Rightarrow> rng \<Rightarrow> ((nat \<times> nat) \<times> rng) res) \<Rightarrow> int list list \<Rightarrow> rat list \<Rightarrow> nat list \<Rightarrow> nat \<Rightarrow> rng \<Rightarrow>
     (int list list \<times> rng) res" where
  "crossover choice2 genes probs dims 0 g = Inr ([], g)"
| "crossover choice2 genes probs dims (Suc n) g =
     bindR (choice2 probs g) (\<lambda>((a, b), g1).
     bindR (randint (int (length dims)) g1) (\<lambda>(point, g2).
     bindR (crossover choice2 genes probs dims n g2) (\<lambda>(rest, g3).
       Inr ((take (nat point) (genes ! a) @ drop (nat point) (genes ! b)) # rest, g3))))"

text \<open>Genes are taken while the space has something unvisited; then the generation stays short.\<close>

fun next_genes ::
  "nat \<Rightarrow> (rng \<Rightarrow> bool \<times> rng) \<Rightarrow> int \<Rightarrow> nat list \<Rightarrow> int list list \<Rightarrow> int set \<Rightarrow> rng \<Rightarrow>
     (int list list \<times> int set \<times> rng) res" where
  "next_genes fuel coin space_len dims [] visited g = Inr ([], visited, g)"
| "next_genes fuel coin space_len dims (gene # genes) visited g =
     bindR (mutate_gene coin (zip [0..<length dims] dims) gene g) (\<lambda>(gene1, g1).
       if int (card visited) < space_len then
         bindR (until_unvisited fuel dims visited gene1 g1) (\<lambda>(gene2, g2).
         bindR (next_genes fuel coin space_len dims genes (insert (knob2point gene2 dims) visited) g2)
           (\<lambda>(rest, visited', g3). Inr (gene2 # rest, visited', g3)))
       else Inr ([], visited, g1))"

text \<open>
  The probabilities of the parents. The scores are raised above 0 and divided by the largest and then
  by their sum; with scores of at least 0 both divisors are positive.
\<close>

definition choice_probs :: "rat list \<Rightarrow> rat list res" where
  "choice_probs scores =
     (if scores = [] then Inl ValueError
      else let raised = map (\<lambda>s. s + 1 / 10 ^ 8) scores;
               scaled = map (\<lambda>s. s / Max (set raised)) raised
           in Inr (map (\<lambda>s. s / sumlist scaled) scaled))"

definition ga_update ::
  "nat \<Rightarrow> (rat list \<Rightarrow> int \<Rightarrow> nat list) \<Rightarrow> (rat list \<Rightarrow> rng \<Rightarrow> ((nat \<times> nat) \<times> rng) res) \<Rightarrow> (rng \<Rightarrow> bool \<times> rng) \<Rightarrow>
     rat \<Rightarrow> mres list \<Rightarrow> ga \<times> rng \<Rightarrow> (ga \<times> rng) res" where
  "ga_update fuel elite_indexes choice2 coin flop results s =
     (case s of (t, g) \<Rightarrow>
       let t1 = t\<lparr>ga_scores := ga_scores t @ map (flops_of flop) results\<rparr> in
       if length (ga_scores t1) \<ge> length (ga_genes t1) \<and> int (card (ga_visited t1)) < ga_space_len t1 then
         let genes = ga_genes t1 @ ga_elites t1;
             scores = take (length (ga_genes t1)) (ga_scores t1) @ ga_elite_scores t1;
             elite = elite_indexes scores (ga_elite_num t1)
         in bindR (choice_probs scores) (\<lambda>probs.
            bindR (crossover choice2 genes probs (ga_dims t1) (nat (ga_pop_size t1)) g) (\<lambda>(tmp_genes, g1).
            bindR (next_genes fuel coin (ga_space_len t1) (ga_dims t1) tmp_genes (ga_visited t1) g1)
              (\<lambda>(new_genes, visited, g2).
                Inr (t1\<lparr>ga_elites := map (\<lambda>i. genes ! i) elite, ga_elite_scores := map (\<lambda>i. scores ! i) elite,
                        ga_genes := new_genes, ga_visited := visited, ga_trial_pt := 0, ga_scores := []\<rparr>, g2))))
       else Inr (t1, g))"

section \<open>Properties\<close>

text \<open>A generation never proposes a visited gene, and it is as long as the space allows.\<close>

lemma until_unvisited_new:
  "until_unvisited fuel dims visited gene g = Inr (gene', g') \<Longrightarrow> knob2point gene' dims \<notin> visited"
  by (induction fuel arbitrary: gene g) (auto simp: bindR_Inr_iff split: if_splits)

lemma until_unvisited_knob:
  "until_unvisited fuel dims visited gene g = Inr (gene', g') \<Longrightarrow> knob_ok dims gene \<Longrightarrow> knob_ok dims gene'"
proof (induction fuel arbitrary: gene g)
  case (Suc fuel)
  show ?case
  proof (cases "knob2point gene dims \<in> visited")
    case True
    with Suc.prems(1) obtain j g1 v g2 where r: "randint (int (length dims)) g = Inr (j, g1)"
      "randint (int (dims ! nat j)) g1 = Inr (v, g2)"
      "until_unvisited fuel dims visited (gene[nat j := v]) g2 = Inr (gene', g')"
      by (auto simp: bindR_Inr_iff)
    then have "0 \<le> j" "j < int (length dims)" "0 \<le> v" "v < int (dims ! nat j)"
      by (auto simp: randint_def split: if_splits)
    then have "knob_ok dims (gene[nat j := v])"
      using knob_ok_update [OF Suc.prems(2), of "nat j" "nat v"] by (simp add: nat_less_iff)
    with Suc.IH [OF r(3)] show ?thesis by blast
  next
    case False
    with Suc.prems show ?thesis by simp
  qed
qed simp

lemma mutate_gene_knob:
  "mutate_gene coin js gene g = Inr (gene', g') \<Longrightarrow> knob_ok dims gene \<Longrightarrow>
   \<forall>(j, d)\<in>set js. j < length dims \<and> d = dims ! j \<Longrightarrow> knob_ok dims gene'"
proof (induction js arbitrary: gene g)
  case (Cons p js)
  obtain j d where p: "p = (j, d)" by fastforce
  obtain heads g1 where c: "coin g = (heads, g1)" by fastforce
  show ?case
  proof (cases heads)
    case True
    with Cons.prems(1) c p obtain v g2 where v: "randint (int d) g1 = Inr (v, g2)"
      "mutate_gene coin js (gene[j := v]) g2 = Inr (gene', g')" by (auto simp: bindR_Inr_iff)
    then have "0 \<le> v" "v < int d" by (auto simp: randint_def split: if_splits)
    then have "knob_ok dims (gene[j := v])"
      using knob_ok_update [OF Cons.prems(2), of j "nat v"] Cons.prems(3) p by (simp add: nat_less_iff)
    with Cons.IH [OF v(2)] Cons.prems(3) show ?thesis by simp
  next
    case False
    with Cons c p show ?thesis by auto
  qed
qed simp

lemma next_genes_new:
  assumes "next_genes fuel coin space_len dims genes visited g = Inr (new, visited', g')"
    and "\<forall>x\<in>set genes. knob_ok dims x" "finite visited"
  shows "(\<forall>x\<in>set new. knob_ok dims x) \<and> distinct (map (\<lambda>x. knob2point x dims) new) \<and>
    (\<lambda>x. knob2point x dims) ` set new \<inter> visited = {} \<and>
    visited' = visited \<union> (\<lambda>x. knob2point x dims) ` set new \<and>
    length new = min (length genes) (nat (space_len - int (card visited)))"
  using assms
proof (induction genes arbitrary: visited g new)
  case (Cons gene genes)
  obtain gene1 g1 where m: "mutate_gene coin (zip [0..<length dims] dims) gene g = Inr (gene1, g1)"
    using Cons.prems(1) by (auto simp: bindR_Inr_iff)
  have k1: "knob_ok dims gene1"
    by (rule mutate_gene_knob [OF m]) (use Cons.prems(2) in \<open>auto simp: in_set_zip\<close>)
  show ?case
  proof (cases "int (card visited) < space_len")
    case False
    with Cons.prems m show ?thesis by simp
  next
    case True
    obtain gene2 g2 rest where u: "until_unvisited fuel dims visited gene1 g1 = Inr (gene2, g2)"
      "next_genes fuel coin space_len dims genes (insert (knob2point gene2 dims) visited) g2 = Inr (rest, visited', g')"
      "new = gene2 # rest"
      using Cons.prems(1) m True by (auto simp: bindR_Inr_iff)
    have n: "knob2point gene2 dims \<notin> visited" using u(1) by (rule until_unvisited_new)
    have k2: "knob_ok dims gene2" using u(1) k1 by (rule until_unvisited_knob)
    have IH: "(\<forall>x\<in>set rest. knob_ok dims x) \<and> distinct (map (\<lambda>x. knob2point x dims) rest) \<and>
      (\<lambda>x. knob2point x dims) ` set rest \<inter> insert (knob2point gene2 dims) visited = {} \<and>
      visited' = insert (knob2point gene2 dims) visited \<union> (\<lambda>x. knob2point x dims) ` set rest \<and>
      length rest = min (length genes) (nat (space_len - int (card (insert (knob2point gene2 dims) visited))))"
      by (rule Cons.IH [OF u(2)]) (use Cons.prems in auto)
    have "card (insert (knob2point gene2 dims) visited) = Suc (card visited)" using n Cons.prems(3) by simp
    then have "length new = min (length (gene # genes)) (nat (space_len - int (card visited)))"
      using IH True u(3) by auto
    with IH n k2 u(3) show ?thesis by auto
  qed
qed simp

text \<open>
  One turn of the batch loop of the genetic tuner: the gene at the round's next position or, when
  there is none, \<open>IndexError\<close>.
\<close>

lemma ga_next_batch_turn:
  assumes "0 < ga_pop_size t" "\<forall>x\<in>set (ga_genes t). knob_ok (ga_dims t) x"
    and "ga_space_len t = int (prodlist (ga_dims t))" "i = ga_trial_pt t mod nat (ga_pop_size t)"
    and "prodlist (ga_dims t) < 2 ^ 63"
  shows "ga_next_batch (Suc b) t =
    (if i < length (ga_genes t)
     then bindR (ga_next_batch b (t\<lparr>ga_trial_pt := Suc (ga_trial_pt t)\<rparr>))
       (\<lambda>(cs, t'). Inr (knob2point (ga_genes t ! i) (ga_dims t) # cs, t'))
     else Inl IndexError)"
proof -
  have ix: "int (ga_trial_pt t) mod ga_pop_size t = int i" using assms(1,4) by (simp add: zmod_int)
  show ?thesis
  proof (cases "i < length (ga_genes t)")
    case False
    then have "py_get (ga_genes t) (int i) = Inl IndexError" by (simp add: py_get_def)
    then show ?thesis using False assms(1) ix by simp
  next
    case True
    have "knob_ok (ga_dims t) (ga_genes t ! i)" using True assms(2) by simp
    then have "space_get (ga_space_len t) (knob2point (ga_genes t ! i) (ga_dims t)) =
        Inr (knob2point (ga_genes t ! i) (ga_dims t))"
      using knob_enc [OF assms(5), of "ga_genes t ! i"] assms(3) by (simp add: space_get_def)
    then show ?thesis using True assms(1) ix by (simp add: Let_def)
  qed
qed

text \<open>
  \<open>next_batch\<close> of the genetic tuner walks around its genes modulo the size of a full
  generation, not modulo their number: with a full generation it returns as many configurations as
  asked for, the genes in turn; with a shorter one, which \<open>update\<close> leaves when the space runs out,
  it raises \<open>IndexError\<close> as soon as the batch reaches a position without gene.
\<close>

lemma ga_batch_positions:
  assumes "0 < ga_pop_size t" "\<forall>x\<in>set (ga_genes t). knob_ok (ga_dims t) x"
    and "ga_space_len t = int (prodlist (ga_dims t))" "prodlist (ga_dims t) < 2 ^ 63"
  shows "if \<forall>k<b. (ga_trial_pt t + k) mod nat (ga_pop_size t) < length (ga_genes t) then
      ga_next_batch b t =
        Inr (map (\<lambda>k. knob2point (ga_genes t ! ((ga_trial_pt t + k) mod nat (ga_pop_size t))) (ga_dims t)) [0..<b],
             t\<lparr>ga_trial_pt := ga_trial_pt t + b\<rparr>)
    else ga_next_batch b t = Inl IndexError"
  using assms
proof (induction b arbitrary: t)
  case 0
  then show ?case by simp
next
  case (Suc b)
  define n where "n = nat (ga_pop_size t)"
  define i where "i = ga_trial_pt t mod n"
  define t1 where "t1 = t\<lparr>ga_trial_pt := Suc (ga_trial_pt t)\<rparr>"
  define rest where "rest \<longleftrightarrow> (\<forall>k<b. (Suc (ga_trial_pt t) + k) mod n < length (ga_genes t))"
  define nexts where
    "nexts = map (\<lambda>k. knob2point (ga_genes t ! ((Suc (ga_trial_pt t) + k) mod n)) (ga_dims t)) [0..<b]"
  have IH: "if rest then ga_next_batch b t1 = Inr (nexts, t\<lparr>ga_trial_pt := Suc (ga_trial_pt t) + b\<rparr>)
    else ga_next_batch b t1 = Inl IndexError"
  proof -
    have "0 < ga_pop_size t1" "\<forall>x\<in>set (ga_genes t1). knob_ok (ga_dims t1) x"
      "ga_space_len t1 = int (prodlist (ga_dims t1))" "prodlist (ga_dims t1) < 2 ^ 63"
      using Suc.prems by (simp_all add: t1_def)
    from Suc.IH [OF this] show ?thesis
      unfolding rest_def nexts_def n_def by (auto simp: t1_def split: if_splits)
  qed
  have all: "(\<forall>k<Suc b. (ga_trial_pt t + k) mod n < length (ga_genes t)) \<longleftrightarrow> i < length (ga_genes t) \<and> rest"
    by (auto simp: i_def rest_def less_Suc_eq_0_disj)
  have turn: "ga_next_batch (Suc b) t = (if i < length (ga_genes t)
      then bindR (ga_next_batch b t1) (\<lambda>(cs, t'). Inr (knob2point (ga_genes t ! i) (ga_dims t) # cs, t'))
      else Inl IndexError)"
    unfolding t1_def by (rule ga_next_batch_turn [OF Suc.prems(1-3) _ Suc.prems(4)]) (simp add: i_def n_def)
  have "map (\<lambda>k. knob2point (ga_genes t ! ((ga_trial_pt t + k) mod n)) (ga_dims t)) [0..<Suc b] =
      knob2point (ga_genes t ! i) (ga_dims t) # nexts"
    by (simp add: upt_conv_Cons map_Suc_upt [symmetric] o_def i_def nexts_def del: upt_Suc)
  with IH all turn show ?case
    by (cases "i < length (ga_genes t)"; cases rest) (simp_all add: n_def [symmetric] del: upt_Suc ga_next_batch.simps)
qed

section \<open>A generation is found\<close>

text \<open>
  Random numbers for the retries: within every window there is a turn from which they set the
  positions one after the other to any given knob vector. Each turn draws a position and a value.
\<close>

definition fair_jumps :: "nat list \<Rightarrow> nat \<Rightarrow> (nat \<Rightarrow> nat) \<Rightarrow> bool" where
  "fair_jumps dims window draws \<longleftrightarrow>
     (\<forall>p ks. knob_ok dims ks \<longrightarrow> (\<exists>q<window. \<forall>j<length dims.
        draws (p + 2 * (q + j)) mod length dims = j \<and> int (draws (p + 2 * (q + j) + 1) mod dims ! j) = ks ! j))"

text \<open>Choosing two parents by their probabilities, as \<open>np.random.choice\<close> documents it.\<close>

definition chooses_two :: "(rat list \<Rightarrow> rng \<Rightarrow> ((nat \<times> nat) \<times> rng) res) \<Rightarrow> bool" where
  "chooses_two choice2 \<longleftrightarrow>
     (\<forall>probs g. 2 \<le> length probs \<and> (\<forall>p\<in>set probs. 0 < p) \<and> sumlist probs = 1 \<longrightarrow>
        (\<exists>a b h. choice2 probs g = Inr ((a, b), h) \<and> a < length probs \<and> b < length probs \<and>
           rng_draws h = rng_draws g))"

definition jump :: "nat list \<Rightarrow> (nat \<Rightarrow> nat) \<Rightarrow> nat \<Rightarrow> int list \<Rightarrow> int list" where
  "jump dims draws p gene = (let j = draws p mod length dims in gene[j := int (draws (p + 1) mod dims ! j)])"

definition jumps :: "nat list \<Rightarrow> (nat \<Rightarrow> nat) \<Rightarrow> nat \<Rightarrow> nat \<Rightarrow> int list \<Rightarrow> int list" where
  "jumps dims draws p n gene = fold (\<lambda>i. jump dims draws (p + 2 * i)) [0..<n] gene"

lemma jumps_simps [simp]:
  "jumps dims draws p 0 gene = gene"
  "jumps dims draws p (Suc n) gene = jump dims draws (p + 2 * n) (jumps dims draws p n gene)"
  by (simp_all add: jumps_def)

lemma dims_pos: "knob_ok dims ks \<Longrightarrow> j < length dims \<Longrightarrow> 0 < dims ! j"
  by (fastforce simp: knob_ok_def list_all2_conv_all_nth)

lemma jump_ok: "dims \<noteq> [] \<Longrightarrow> knob_ok dims gene \<Longrightarrow> knob_ok dims (jump dims draws p gene)"
  unfolding jump_def Let_def by (rule knob_ok_update) (simp_all add: dims_pos)

lemma jumps_ok: "dims \<noteq> [] \<Longrightarrow> knob_ok dims gene \<Longrightarrow> knob_ok dims (jumps dims draws p n gene)"
  by (induction n) (simp_all add: jump_ok)

lemma retry_turn:
  assumes "dims \<noteq> []" "knob_ok dims gene" "knob2point gene dims \<in> visited"
  shows "until_unvisited (Suc fuel) dims visited gene g =
    until_unvisited fuel dims visited (jump dims (rng_draws g) (rng_pos g) gene) (g\<lparr>rng_pos := rng_pos g + 2\<rparr>)"
proof -
  define j where "j = rng_draws g (rng_pos g) mod length dims"
  have j: "j < length dims" using assms(1) by (simp add: j_def)
  have "randint (int (length dims)) g = Inr (int j, g\<lparr>rng_pos := Suc (rng_pos g)\<rparr>)"
    using assms(1) by (simp add: randint_def j_def zmod_int)
  moreover have "randint (int (dims ! j)) (g\<lparr>rng_pos := Suc (rng_pos g)\<rparr>) =
      Inr (int (rng_draws g (Suc (rng_pos g)) mod dims ! j), g\<lparr>rng_pos := rng_pos g + 2\<rparr>)"
    using dims_pos [OF assms(2) j] by (simp add: randint_def zmod_int)
  ultimately show ?thesis using assms(3) by (simp add: jump_def Let_def j_def)
qed

lemma retry_turns:
  assumes "dims \<noteq> []" "knob_ok dims gene"
    and "\<forall>i<n. knob2point (jumps dims (rng_draws g) (rng_pos g) i gene) dims \<in> visited"
  shows "until_unvisited (n + fuel) dims visited gene g =
    until_unvisited fuel dims visited (jumps dims (rng_draws g) (rng_pos g) n gene) (g\<lparr>rng_pos := rng_pos g + 2 * n\<rparr>)"
  using assms(3)
proof (induction n arbitrary: fuel)
  case (Suc n)
  from Suc.IH [of "Suc fuel"] Suc.prems
  have "until_unvisited (Suc n + fuel) dims visited gene g = until_unvisited (Suc fuel) dims visited
      (jumps dims (rng_draws g) (rng_pos g) n gene) (g\<lparr>rng_pos := rng_pos g + 2 * n\<rparr>)" by simp
  also have "\<dots> = until_unvisited fuel dims visited (jumps dims (rng_draws g) (rng_pos g) (Suc n) gene)
      (g\<lparr>rng_pos := rng_pos g + 2 * Suc n\<rparr>)"
    by (subst retry_turn [OF assms(1) jumps_ok [OF assms(1,2)]]) (use Suc.prems in simp_all)
  finally show ?case .
qed simp

lemma jumps_spell:
  assumes "knob_ok dims gene" "dims \<noteq> []" "knob_ok dims ks"
    and "\<forall>j<length dims. draws (p + 2 * (q + j)) mod length dims = j \<and>
      int (draws (p + 2 * (q + j) + 1) mod dims ! j) = ks ! j"
  shows "jumps dims draws p (q + length dims) gene = ks"
proof -
  have len: "length (jumps dims draws p n gene) = length dims" for n
    using jumps_ok [OF assms(2,1)] by (rule knob_ok_length)
  have "\<forall>j<m. jumps dims draws p (q + m) gene ! j = ks ! j" if "m \<le> length dims" for m
    using that
  proof (induction m)
    case (Suc m)
    have "jump dims draws (p + 2 * (q + m)) x = x[m := ks ! m]" for x
      using assms(4) Suc.prems by (simp add: jump_def Let_def)
    then show ?case using Suc len [of "q + m"] by (auto simp: nth_list_update less_Suc_eq)
  qed simp
  from this [of "length dims"] show ?thesis
    using len knob_ok_length [OF assms(3)] by (intro nth_equalityI) simp_all
qed

lemma until_unvisited_ends:
  assumes "fair_jumps dims window (rng_draws g)" "window + length dims \<le> fuel" "dims \<noteq> []"
    and "knob_ok dims gene" "knob_ok dims ks" "knob2point ks dims \<notin> visited"
  shows "\<exists>gene' g'. until_unvisited fuel dims visited gene g = Inr (gene', g') \<and> rng_draws g' = rng_draws g"
proof -
  let ?gene = "\<lambda>n. jumps dims (rng_draws g) (rng_pos g) n gene"
  obtain q where q: "q < window" "?gene (q + length dims) = ks"
    using assms(1,5) jumps_spell [OF assms(4,3,5)] unfolding fair_jumps_def by blast
  define new where "new n \<longleftrightarrow> knob2point (?gene n) dims \<notin> visited" for n
  define n where "n = (LEAST n. new n)"
  have "new (q + length dims)" using q(2) assms(6) by (simp add: new_def)
  then have "new n" "n \<le> q + length dims" "\<forall>i<n. \<not> new i"
    unfolding n_def by (auto intro: LeastI Least_le dest: not_less_Least)
  then have n: "knob2point (?gene n) dims \<notin> visited" "n \<le> q + length dims" "\<forall>i<n. knob2point (?gene i) dims \<in> visited"
    by (simp_all add: new_def)
  obtain f where f: "fuel = n + Suc f" using n(2) q(1) assms(2) by (metis add_Suc_right less_iff_Suc_add
        add_less_cancel_right le_less_trans less_le_trans)
  have "until_unvisited fuel dims visited gene g = Inr (?gene n, g\<lparr>rng_pos := rng_pos g + 2 * n\<rparr>)"
    unfolding f retry_turns [OF assms(3,4) n(3)] using n(1) by simp
  then show ?thesis by simp
qed

lemma unvisited_knob:
  assumes "prodlist dims < 2 ^ 63" "finite visited" "int (card visited) < int (prodlist dims)"
  shows "\<exists>ks. knob_ok dims ks \<and> knob2point ks dims \<notin> visited"
proof -
  have "\<not> {0..<int (prodlist dims)} \<subseteq> visited"
    using card_mono [OF assms(2), of "{0..<int (prodlist dims)}"] assms(3) by auto
  then obtain p where "0 \<le> p" "p < int (prodlist dims)" "p \<notin> visited" by (metis atLeastLessThan_iff subsetI)
  with knob_dec [OF assms(1)] show ?thesis by metis
qed

lemma mutate_gene_ends:
  assumes "\<And>g. rng_draws (snd (coin g)) = rng_draws g"
  shows "\<forall>(j, d)\<in>set js. 0 < d \<Longrightarrow>
    \<exists>gene' g'. mutate_gene coin js gene g = Inr (gene', g') \<and> rng_draws g' = rng_draws g"
proof (induction js arbitrary: gene g)
  case (Cons p js)
  obtain j d where p: "p = (j, d)" by fastforce
  obtain heads g1 where c: "coin g = (heads, g1)" by fastforce
  then have g1: "rng_draws g1 = rng_draws g" using assms [of g] by simp
  show ?case
  proof (cases heads)
    case True
    obtain v g2 where v: "randint (int d) g1 = Inr (v, g2)" "rng_draws g2 = rng_draws g"
      using Cons.prems p g1 by (simp add: randint_def)
    with Cons.IH [of "gene[j := v]" g2] Cons.prems True c p show ?thesis by simp
  next
    case False
    with Cons.IH [of gene g1] Cons.prems c p g1 show ?thesis by simp
  qed
qed simp

lemma next_genes_ends:
  assumes "fair_jumps dims window draws" "window + length dims \<le> fuel" "dims \<noteq> []" "prodlist dims < 2 ^ 63"
    and coin: "\<And>g. rng_draws (snd (coin g)) = rng_draws g"
  shows "\<forall>x\<in>set genes. knob_ok dims x \<Longrightarrow> finite visited \<Longrightarrow> rng_draws g = draws \<Longrightarrow>
    \<exists>r. next_genes fuel coin (int (prodlist dims)) dims genes visited g = Inr r"
proof (induction genes arbitrary: visited g)
  case (Cons gene genes)
  have "\<forall>(j, d)\<in>set (zip [0..<length dims] dims). 0 < d"
    using dims_pos [of dims gene] Cons.prems(1) by (auto simp: set_zip)
  then obtain gene1 g1 where m: "mutate_gene coin (zip [0..<length dims] dims) gene g = Inr (gene1, g1)"
    "rng_draws g1 = draws" using mutate_gene_ends [OF coin] Cons.prems(3) by metis
  have k1: "knob_ok dims gene1"
    by (rule mutate_gene_knob [OF m(1)]) (use Cons.prems(1) in \<open>auto simp: in_set_zip\<close>)
  show ?case
  proof (cases "int (card visited) < int (prodlist dims)")
    case True
    obtain ks where ks: "knob_ok dims ks" "knob2point ks dims \<notin> visited"
      using unvisited_knob [OF assms(4) Cons.prems(2) True] by blast
    obtain gene2 g2 where u: "until_unvisited fuel dims visited gene1 g1 = Inr (gene2, g2)" "rng_draws g2 = draws"
      using until_unvisited_ends [OF _ assms(2,3) k1 ks, of g1] assms(1) m(2) by auto
    obtain r where "next_genes fuel coin (int (prodlist dims)) dims genes (insert (knob2point gene2 dims) visited) g2 = Inr r"
      using Cons.IH [of "insert (knob2point gene2 dims) visited" g2] Cons.prems(1,2) u(2) by auto
    then show ?thesis using m(1) u(1) True by (auto split: prod.splits)
  next
    case False
    then show ?thesis using m(1) by simp
  qed
qed simp

lemma cross_ok:
  assumes "knob_ok dims x" "knob_ok dims y"
  shows "knob_ok dims (take n x @ drop n y)"
  using assms by (auto simp: knob_ok_def list_all2_conv_all_nth nth_append min_def)

lemma crossover_ends:
  assumes "chooses_two choice2" "2 \<le> length genes" "length probs = length genes"
    and "\<forall>p\<in>set probs. 0 < p" "sumlist probs = 1" "dims \<noteq> []" "\<forall>x\<in>set genes. knob_ok dims x"
  shows "\<exists>tmp g'. crossover choice2 genes probs dims k g = Inr (tmp, g') \<and> length tmp = k \<and>
    (\<forall>x\<in>set tmp. knob_ok dims x) \<and> rng_draws g' = rng_draws g"
proof (induction k arbitrary: g)
  case (Suc k)
  obtain a b h where ab: "choice2 probs g = Inr ((a, b), h)" "a < length genes" "b < length genes" "rng_draws h = rng_draws g"
    using assms(1-5) unfolding chooses_two_def by metis
  obtain point h2 where p: "randint (int (length dims)) h = Inr (point, h2)" "rng_draws h2 = rng_draws g"
    using assms(6) ab(4) by (simp add: randint_def)
  obtain rest g1 where r: "crossover choice2 genes probs dims k h2 = Inr (rest, g1)" "length rest = k"
    "\<forall>x\<in>set rest. knob_ok dims x" "rng_draws g1 = rng_draws h2" using Suc.IH [of h2] by blast
  have "knob_ok dims (take (nat point) (genes ! a) @ drop (nat point) (genes ! b))"
    using assms(7) ab(2,3) by (intro cross_ok) simp_all
  with ab(1) p r show ?case by simp
qed simp

lemma sumlist_pos: "xs \<noteq> [] \<Longrightarrow> \<forall>x\<in>set xs. 0 < x \<Longrightarrow> 0 < sumlist (xs :: rat list)"
proof (induction xs)
  case (Cons x xs)
  then show ?case by (cases xs) (auto intro: add_pos_pos)
qed simp

lemma sumlist_divide: "sumlist (map (\<lambda>x. x / c) xs) = sumlist xs / (c :: rat)"
  by (induction xs) (simp_all add: add_divide_distrib)

lemma choice_probs_ok:
  assumes "scores \<noteq> []" "\<forall>s\<in>set scores. 0 \<le> s"
  shows "\<exists>probs. choice_probs scores = Inr probs \<and> length probs = length scores \<and>
    (\<forall>p\<in>set probs. 0 < p) \<and> sumlist probs = 1"
proof -
  define raised where "raised = map (\<lambda>s. s + 1 / 10 ^ 8) scores"
  define scaled where "scaled = map (\<lambda>s. s / Max (set raised)) raised"
  have r: "raised \<noteq> []" "\<forall>s\<in>set raised. 0 < s"
    using assms by (auto simp: raised_def add_nonneg_pos)
  then have "0 < Max (set raised)" by simp
  with r have s: "scaled \<noteq> []" "\<forall>s\<in>set scaled. 0 < s" by (auto simp: scaled_def)
  then have z: "0 < sumlist scaled" by (rule sumlist_pos)
  have "choice_probs scores = Inr (map (\<lambda>s. s / sumlist scaled) scaled)"
    unfolding choice_probs_def Let_def raised_def scaled_def using assms(1) by (rule if_not_P)
  moreover have "sumlist (map (\<lambda>s. s / sumlist scaled) scaled) = 1" using z by (simp add: sumlist_divide)
  moreover have "\<forall>p\<in>set (map (\<lambda>s. s / sumlist scaled) scaled). 0 < p" using s(2) z by (simp add: divide_pos_pos)
  moreover have "length scaled = length scores" by (simp add: scaled_def raised_def)
  ultimately show ?thesis by (metis length_map)
qed

section \<open>The genetic tuner\<close>

text \<open>
  C27. \<open>update\<close> makes a new generation, once all genes are measured and the space has an unvisited
  configuration: its retries end, for random numbers that spell every knob vector within a window the
  fuel covers, in a space that fits in 64 bits. The genes of the generation are legal knob vectors,
  pairwise distinct and none visited before, they are marked as visited, and there are as many as a
  full generation or, if that is less, as there are unvisited configurations; the round through them
  starts again.
\<close>

theorem ga_generation_is_new:
  assumes "fair_jumps (ga_dims t) window (rng_draws g)" "window + length (ga_dims t) \<le> fuel"
    and "chooses_two choice2" "\<And>g. rng_draws (snd (coin g)) = rng_draws g"
    and "ga_dims t \<noteq> []" "ga_space_len t = int (prodlist (ga_dims t))" "prodlist (ga_dims t) < 2 ^ 63"
    and "length (ga_scores t) + length results \<ge> length (ga_genes t)"
    and "int (card (ga_visited t)) < ga_space_len t" "finite (ga_visited t)"
    and "\<forall>x\<in>set (ga_genes t) \<union> set (ga_elites t). knob_ok (ga_dims t) x"
    and "length (ga_elites t) = length (ga_elite_scores t)" "2 \<le> length (ga_genes t) + length (ga_elites t)"
    and "\<forall>s\<in>set (ga_scores t) \<union> set (ga_elite_scores t). 0 \<le> s" "\<forall>r\<in>set results. 0 \<le> flops_of flop r"
  shows "\<exists>t' g'. ga_update fuel elite_indexes choice2 coin flop results (t, g) = Inr (t', g') \<and>
    (\<forall>x\<in>set (ga_genes t'). knob_ok (ga_dims t) x) \<and>
    distinct (map (\<lambda>x. knob2point x (ga_dims t)) (ga_genes t')) \<and>
    (\<lambda>x. knob2point x (ga_dims t)) ` set (ga_genes t') \<inter> ga_visited t = {} \<and>
    ga_visited t' = ga_visited t \<union> (\<lambda>x. knob2point x (ga_dims t)) ` set (ga_genes t') \<and>
    length (ga_genes t') = min (nat (ga_pop_size t)) (nat (ga_space_len t - int (card (ga_visited t)))) \<and>
    ga_trial_pt t' = 0 \<and> ga_scores t' = []"
proof -
  define genes where "genes = ga_genes t @ ga_elites t"
  define scores where "scores = take (length (ga_genes t)) (ga_scores t @ map (flops_of flop) results) @ ga_elite_scores t"
  have ls: "length scores = length genes" using assms(8,12) by (simp add: scores_def genes_def)
  then have "scores \<noteq> []" using assms(13) by (auto simp: genes_def)
  moreover have "\<forall>s\<in>set scores. 0 \<le> s" using assms(14,15)
    by (auto simp: scores_def dest!: in_set_takeD simp del: take_append)
  ultimately obtain probs where p: "choice_probs scores = Inr probs" "length probs = length genes"
    "\<forall>p\<in>set probs. 0 < p" "sumlist probs = 1" using choice_probs_ok ls by metis
  have "2 \<le> length genes" "\<forall>x\<in>set genes. knob_ok (ga_dims t) x" using assms(11,13) by (simp_all add: genes_def)
  then obtain tmp g1 where c: "crossover choice2 genes probs (ga_dims t) (nat (ga_pop_size t)) g = Inr (tmp, g1)"
    "length tmp = nat (ga_pop_size t)" "\<forall>x\<in>set tmp. knob_ok (ga_dims t) x" "rng_draws g1 = rng_draws g"
    using crossover_ends [OF assms(3) _ p(2-4) assms(5)] by metis
  obtain new visited g2 where
    n: "next_genes fuel coin (ga_space_len t) (ga_dims t) tmp (ga_visited t) g1 = Inr (new, visited, g2)"
    using next_genes_ends [OF assms(1,2,5,7,4) c(3) assms(10) c(4)] unfolding assms(6) by (metis prod_cases3)
  note next_genes_new [OF n c(3) assms(10)]
  moreover have "\<exists>t'. ga_update fuel elite_indexes choice2 coin flop results (t, g) = Inr (t', g2) \<and>
      ga_genes t' = new \<and> ga_visited t' = visited \<and> ga_trial_pt t' = 0 \<and> ga_scores t' = []"
    using assms(8,9) p(1) c(1) n by (simp add: ga_update_def Let_def genes_def scores_def)
  ultimately show ?thesis using c(2) by auto
qed

text \<open>A stream of bits that is fair for two positions of two values: it has every other period.\<close>

definition demo_bits :: "nat \<Rightarrow> nat" where
  "demo_bits k = [0, 0, 1, 0, 0, 1, 1, 0, 1, 1, 1] ! (k mod 11)"

lemma demo_bits_at: "(p :: nat) mod 11 = s \<Longrightarrow> demo_bits (p + k) = [0, 0, 1, 0, 0, 1, 1, 0, 1, 1, 1] ! ((s + k) mod 11)"
  by (auto simp: demo_bits_def mod_add_left_eq)

lemma demo_bits_spell:
  assumes "x < 2" "y < 2"
  shows "\<exists>q<11. demo_bits (p + 2 * q) = 0 \<and> demo_bits (p + 2 * q + 1) = x \<and>
    demo_bits (p + 2 * q + 2) = 1 \<and> demo_bits (p + 2 * q + 3) = y"
proof -
  define s :: nat where "s = (if x = 0 then (if y = 0 then 0 else 3) else if y = 0 then 4 else 7)"
  define q where "q = (6 * (s + 11 - p mod 11)) mod 11"
  define d where "d = s + 11 - p mod 11"
  have "(p + 2 * q) mod 11 = (p mod 11 + 12 * d) mod 11"
  proof -
    have "(p + 2 * q) mod 11 = (p + 2 * (6 * d)) mod 11" unfolding q_def d_def by (metis mod_add_right_eq mod_mult_right_eq)
    also have "2 * (6 * d) = 12 * d" by simp
    finally show ?thesis by (simp only: mod_add_left_eq)
  qed
  also have "p mod 11 + 12 * d = 11 * d + (s + 11)"
  proof -
    have "p mod 11 < 11" by simp
    then show ?thesis unfolding d_def by linarith
  qed
  also have "(11 * d + (s + 11)) mod 11 = s" by (simp add: s_def)
  finally have "(p + 2 * q) mod 11 = s" .
  note at = demo_bits_at [OF this, of 0] demo_bits_at [OF this, of 1] demo_bits_at [OF this, of 2] demo_bits_at [OF this, of 3]
  have "x = 0 \<or> x = 1" "y = 0 \<or> y = 1" using assms by auto
  then have "demo_bits (p + 2 * q) = 0 \<and> demo_bits (p + 2 * q + 1) = x \<and>
    demo_bits (p + 2 * q + 2) = 1 \<and> demo_bits (p + 2 * q + 3) = y"
    using at by (auto simp: s_def)
  moreover have "q < 11" by (simp add: q_def)
  ultimately show ?thesis by blast
qed

lemma demo_bits_fair: "fair_jumps [2, 2] 11 demo_bits"
  unfolding fair_jumps_def
proof (intro allI impI)
  fix p ks assume k: "knob_ok [2, 2] ks"
  then obtain v w where vw: "ks = [v, w]" "0 \<le> v" "v < 2" "0 \<le> w" "w < 2"
    by (auto simp: knob_ok_def list_all2_Cons1)
  then have small: "nat v < 2" "nat w < 2" "int (nat v mod Suc (Suc 0)) = v" "int (nat w mod Suc (Suc 0)) = w" by simp_all
  then obtain q where "q < 11" "demo_bits (p + 2 * q) = 0" "demo_bits (p + 2 * q + 1) = nat v"
    "demo_bits (p + 2 * q + 2) = 1" "demo_bits (p + 2 * q + 3) = nat w" using demo_bits_spell by blast
  then show "\<exists>q<11. \<forall>j<length [2, 2]. demo_bits (p + 2 * (q + j)) mod length [2, 2] = j \<and>
      int (demo_bits (p + 2 * (q + j) + 1) mod [2, 2] ! j) = ks ! j"
    using vw small(3,4) by (intro exI [of _ q]) (auto simp: less_Suc_eq numeral_2_eq_2 numeral_3_eq_3)
qed

lemma ga_generation_is_new_witness:
  "let t = \<lparr>ga_pop_size = 2, ga_elite_num = 1, ga_dims = [2, 2], ga_space_len = 4, ga_visited = {0, 3},
      ga_genes = [[0, 0], [1, 1]], ga_scores = [], ga_elites = [], ga_elite_scores = [], ga_trial_pt = 2\<rparr>;
      choice2 = (\<lambda>probs g. if 2 \<le> length probs then Inr ((0, 1), g) else Inl ValueError)
   in \<exists>t' g'. ga_update 13 (\<lambda>scores k. [0]) choice2 (\<lambda>g. (False, g)) 1 [MOk [1], MErr 4 ''x'']
          (t, \<lparr>rng_draws = demo_bits, rng_pos = 0\<rparr>) = Inr (t', g') \<and>
        length (ga_genes t') = 2 \<and> distinct (map (\<lambda>x. knob2point x [2, 2]) (ga_genes t')) \<and>
        (\<lambda>x. knob2point x [2, 2]) ` set (ga_genes t') \<inter> {0, 3} = {}"
proof -
  define t where "t = \<lparr>ga_pop_size = 2, ga_elite_num = 1, ga_dims = [2, 2], ga_space_len = 4, ga_visited = {0, 3},
      ga_genes = [[0, 0], [1, 1]], ga_scores = [], ga_elites = [], ga_elite_scores = [], ga_trial_pt = 2\<rparr>"
  define g where "g = \<lparr>rng_draws = demo_bits, rng_pos = 0\<rparr>"
  define choice2 :: "rat list \<Rightarrow> rng \<Rightarrow> ((nat \<times> nat) \<times> rng) res" where
    "choice2 = (\<lambda>probs g. if 2 \<le> length probs then Inr ((0, 1), g) else Inl ValueError)"
  have c: "chooses_two choice2" by (auto simp: chooses_two_def choice2_def)
  have "\<exists>t' g'. ga_update 13 (\<lambda>scores k. [0]) choice2 (\<lambda>g. (False, g)) 1 [MOk [1], MErr 4 ''x''] (t, g) = Inr (t', g') \<and>
      length (ga_genes t') = 2 \<and> distinct (map (\<lambda>x. knob2point x (ga_dims t)) (ga_genes t')) \<and>
      (\<lambda>x. knob2point x (ga_dims t)) ` set (ga_genes t') \<inter> ga_visited t = {}"
    using ga_generation_is_new [of t 11 g 13 choice2 "\<lambda>g. (False, g)" "[MOk [1], MErr 4 ''x'']" 1 "\<lambda>scores k. [0]"]
      c demo_bits_fair by (simp add: t_def g_def knob_ok_def mean_def) blast
  then show ?thesis unfolding Let_def choice2_def g_def by (simp add: t_def)
qed

end
