(* ===== verification/TaskScheduler.thy ===== *)
theory TaskScheduler
  imports WorkloadKeys
begin

text \<open>
  The task scheduler, \<open>tvm/python/tvm/auto_scheduler/task_scheduler.py\<close>, in the form in which it
  tunes several dynamic workloads together. One round of a search policy is a parameter that gives
  the number of measured programs and the best average latency; it may depend on everything that
  was tuned before. Numbers are rationals; the history of rounds is kept beside the state.
\<close>

section \<open>Search policies and similarity tags\<close>

text \<open>
  What \<open>make_search_policies\<close> builds: the kind of cost model with what is loaded into it, and
  whether the policies are preloaded from a log. \<open>is_file\<close> asks whether the model file exists. A
  value that is no string must be a list of policies.
\<close>

datatype model_load = NoLoad | LoadFile string | TrainFrom string
datatype cost_model = XGBModel nat model_load | RandomModel
datatype 'p policies = Sketch cost_model "string option" | Given "'p list"
datatype 'p policy_arg = PName string | PList "'p option list" | POther

fun split_dots :: "string \<Rightarrow> string list" where
  "split_dots [] = [[]]"
| "split_dots (c # s) =
     (if c = CHR ''.'' then [] # split_dots s
      else (case split_dots s of [] \<Rightarrow> [[c]] | w # ws \<Rightarrow> (c # w) # ws))"

definition given :: "string option \<Rightarrow> bool" where
  "given f = (case f of None \<Rightarrow> False | Some s \<Rightarrow> s \<noteq> [])"

definition make_search_policies ::
  "(string \<Rightarrow> bool) \<Rightarrow> 'p policy_arg \<Rightarrow> nat \<Rightarrow> nat \<Rightarrow> string option \<Rightarrow> string option \<Rightarrow> 'p policies res" where
  "make_search_policies is_file search_policy n_tasks num_measures_per_round load_model_file load_log_file =
     (case search_policy of
        POther \<Rightarrow> Inl AssertionError
      | PList ps \<Rightarrow>
          (if None \<in> set ps then Inl AssertionError else Inr (Given (map the ps)))
      | PName nm \<Rightarrow>
          (case split_dots (if nm = ''default'' then ''sketch.xgb'' else nm) of
             [policy_type, model_type] \<Rightarrow>
               bindR (if model_type = ''xgb'' then
                        Inr (XGBModel (n_tasks * num_measures_per_round)
                          (if given load_model_file \<and> is_file (the load_model_file)
                           then LoadFile (the load_model_file)
                           else if given load_log_file then TrainFrom (the load_log_file) else NoLoad))
                      else if model_type = ''random'' then Inr RandomModel
                      else Inl ValueError)
                 (\<lambda>model. if policy_type = ''sketch''
                   then Inr (Sketch model (if given load_log_file then load_log_file else None))
                   else Inl ValueError)
           | _ \<Rightarrow> Inl ValueError))"

text \<open>\<open>log_flop\<close> is the integer part of the logarithm of the operation count, formatted.\<close>

definition derive_similarity_tag :: "string \<Rightarrow> string option list \<Rightarrow> string" where
  "derive_similarity_tag log_flop tags =
     (let ret = concat (map (\<lambda>t. the t @ ''_'') (filter given tags))
      in if ret \<noteq> [] then ret @ log_flop else ret)"

section \<open>Configuration and state\<close>

text \<open>
  The value of the objective: a Python number, or a constant of the tensor IR, which is what comes
  out when the weights are such constants. Only the latter has the attribute \<open>value\<close>.
\<close>

datatype obj_score = PyFloat rat | TirImm rat

fun score_num :: "obj_score \<Rightarrow> rat" where
  "score_num (PyFloat x) = x"
| "score_num (TirImm x) = x"

fun has_value :: "obj_score \<Rightarrow> bool" where
  "has_value (PyFloat _) = False"
| "has_value (TirImm _) = True"

datatype weights = PyWeights "rat list" | ImmWeights "rat list"

definition weighted_sum :: "rat list \<Rightarrow> rat list \<Rightarrow> rat" where
  "weighted_sum costs ws = sumlist (map (\<lambda>(c, w). c * w) (zip costs ws))"

definition make_objective ::
  "(rat list \<Rightarrow> obj_score) option \<Rightarrow> weights option \<Rightarrow> rat list \<Rightarrow> obj_score" where
  "make_objective objective_func task_weights =
     (case objective_func of
        Some f \<Rightarrow> f
      | None \<Rightarrow>
          (case task_weights of
             Some (PyWeights ws) \<Rightarrow>
               if ws \<noteq> [] then (\<lambda>costs. PyFloat (weighted_sum costs ws)) else (\<lambda>costs. PyFloat (sumlist costs))
           | Some (ImmWeights ws) \<Rightarrow>
               if ws \<noteq> [] then (\<lambda>costs. TirImm (weighted_sum costs ws)) else (\<lambda>costs. PyFloat (sumlist costs))
           | None \<Rightarrow> (\<lambda>costs. PyFloat (sumlist costs))))"

datatype callback = PrintTableInfo | LogEstimatedLatency | OtherCallback

record sched_cfg =
  tc_n :: nat  \<comment> \<open>number of tasks\<close>
  tc_objective :: "rat list \<Rightarrow> obj_score"
  tc_strategy :: string
  tc_alpha :: rat
  tc_beta :: rat
  tc_window :: nat
  tc_callbacks :: "callback list"
  tc_verbose :: int
  tc_trials :: nat
  tc_early_all :: nat  \<comment> \<open>both limits after the replacement of "no limit" by \<open>1e20\<close>\<close>
  tc_early_task :: nat

record sched =
  ts_cts :: "nat list"
  ts_best_cts :: "nat list"
  ts_hist :: "rat list list"
  ts_best :: "rat list"
  ts_score :: obj_score
  ts_ct :: nat
  ts_best_ct :: nat
  ts_best_score :: obj_score
  ts_dead :: "nat set"
  ts_nmeas :: nat
  ts_log :: "(nat \<times> nat \<times> rat) list"  \<comment> \<open>the rounds: task, measured programs, latency\<close>

definition new_sched :: "sched_cfg \<Rightarrow> sched res" where
  "new_sched cfg =
     bindR (guardR (tc_n cfg \<noteq> 0) AssertionError) (\<lambda>_.
     bindR (guardR (tc_strategy cfg \<in> {''round-robin'', ''gradient''}) AssertionError) (\<lambda>_.
       let n = tc_n cfg; best = replicate n (10 ^ 10); score = tc_objective cfg best in
       Inr \<lparr>ts_cts = replicate n 0, ts_best_cts = replicate n 0, ts_hist = replicate n [], ts_best = best,
            ts_score = score, ts_ct = 0, ts_best_ct = 0, ts_best_score = score, ts_dead = {},
            ts_nmeas = 0, ts_log = []\<rparr>))"

section \<open>One round of a task\<close>

definition all_known :: "rat list \<Rightarrow> bool" where
  "all_known best \<longleftrightarrow> (\<forall>c\<in>set best. c < 10 ^ 9)"

text \<open>
  The callbacks print and write; what the model keeps of them is where they raise: both read
  \<open>cur_score.value\<close> as soon as every task has a latency.
\<close>

definition read_value :: "sched \<Rightarrow> unit res" where
  "read_value st = guardR (\<not> all_known (ts_best st) \<or> has_value (ts_score st)) AttributeError"

definition pre_tune :: "sched_cfg \<Rightarrow> sched \<Rightarrow> unit res" where
  "pre_tune cfg st =
     foldR (\<lambda>cb _. case cb of
         PrintTableInfo \<Rightarrow> if tc_verbose cfg < 1 then Inr () else read_value st
       | LogEstimatedLatency \<Rightarrow> Inr ()
       | OtherCallback \<Rightarrow> Inr ()) (tc_callbacks cfg) ()"

definition post_tune :: "sched_cfg \<Rightarrow> sched \<Rightarrow> unit res" where
  "post_tune cfg st =
     foldR (\<lambda>cb _. case cb of
         PrintTableInfo \<Rightarrow> Inr ()
       | LogEstimatedLatency \<Rightarrow> read_value st
       | OtherCallback \<Rightarrow> Inr ()) (tc_callbacks cfg) ()"

type_synonym round_log = "(nat \<times> nat \<times> rat) list"
type_synonym policy = "nat \<Rightarrow> round_log \<Rightarrow> nat \<times> rat"

definition apply_round :: "sched_cfg \<Rightarrow> nat \<Rightarrow> nat \<Rightarrow> rat \<Rightarrow> sched \<Rightarrow> sched" where
  "apply_round cfg idx num lat st =
     (let cts = (ts_cts st)[idx := ts_cts st ! idx + 1];
          better = lat < ts_best st ! idx;
          best_cts = (if better then (ts_best_cts st)[idx := cts ! idx] else ts_best_cts st);
          best = (if better then (ts_best st)[idx := lat] else ts_best st);
          no_change = (int (cts ! idx) - int (best_cts ! idx)) * int (ts_nmeas st);
          dead = (if num = 0 \<or> no_change > int (tc_early_task cfg) then insert idx (ts_dead st) else ts_dead st)
      in st\<lparr>ts_cts := cts, ts_best_cts := best_cts, ts_best := best, ts_dead := dead,
            ts_hist := (ts_hist st)[idx := ts_hist st ! idx @ [best ! idx]],
            ts_ct := ts_ct st + num, ts_score := tc_objective cfg best,
            ts_log := ts_log st @ [(idx, num, lat)]\<rparr>)"

definition tune_task :: "sched_cfg \<Rightarrow> policy \<Rightarrow> nat \<Rightarrow> sched \<Rightarrow> sched res" where
  "tune_task cfg policy idx st =
     bindR (pre_tune cfg st) (\<lambda>_.
       let (num, lat) = policy idx (ts_log st); st' = apply_round cfg idx num lat st
       in bindR (post_tune cfg st') (\<lambda>_. Inr st'))"

section \<open>Choosing a task\<close>

text \<open>\<open>while task_idx in dead_tasks: task_idx = (task_idx + 1) % len(tasks)\<close>\<close>

fun skip_dead :: "nat \<Rightarrow> nat \<Rightarrow> nat set \<Rightarrow> nat \<Rightarrow> nat res" where
  "skip_dead 0 n dead i = Inl OutOfFuel"
| "skip_dead (Suc fuel) n dead i = (if i \<in> dead then skip_dead fuel n dead ((i + 1) mod n) else Inr i)"

definition round_robin :: "sched_cfg \<Rightarrow> int \<Rightarrow> sched \<Rightarrow> nat res" where
  "round_robin cfg task_idx st =
     skip_dead (tc_n cfg) (tc_n cfg) (ts_dead st) (nat ((task_idx + 1) mod int (tc_n cfg)))"

text \<open>The gradient of one task. A task that was never tuned does not come here, nor a window of 0.\<close>

definition gradient :: "sched_cfg \<Rightarrow> sched \<Rightarrow> nat \<Rightarrow> rat res" where
  "gradient cfg st i =
     (if i \<in> ts_dead st then Inr 0
      else
        let delta = 1 / 10 ^ 4;
            best = ts_best st ! i;
            new_costs = (ts_best st)[i := best - delta];
            chain_grad = (score_num (tc_objective cfg (ts_best st)) - score_num (tc_objective cfg new_costs)) / delta;
            last = int (ts_cts st ! i) - 1;
            hist = ts_hist st ! i;
            backward_grad = (if last < int (length hist) \<and> last - int (tc_window cfg) \<ge> 0
              then (hist ! nat last - hist ! nat (last - int (tc_window cfg))) / of_nat (tc_window cfg) else 0);
            g_next_1 = best - best / of_nat (ts_cts st ! i);
            g_next_2 = tc_beta cfg * 10 ^ 30;
            forward_grad = min g_next_1 g_next_2 - best;
            grad = chain_grad * (tc_alpha cfg * backward_grad + (1 - tc_alpha cfg) * forward_grad)
        in bindR (guardR (grad \<le> 0) AssertionError) (\<lambda>_. Inr grad))"

definition argmin :: "rat list \<Rightarrow> nat" where
  "argmin xs = hd [i \<leftarrow> [0..<length xs]. xs ! i = Min (set xs)]"

text \<open>\<open>choice\<close> is the random number of \<open>np.random.choice(len(gradients))\<close>.\<close>

definition by_gradient :: "(round_log \<Rightarrow> nat) \<Rightarrow> sched_cfg \<Rightarrow> int \<Rightarrow> sched \<Rightarrow> nat res" where
  "by_gradient choice cfg task_idx st =
     bindR (mapR (gradient cfg st) [0..<tc_n cfg]) (\<lambda>gradients.
       Inr (if Max (set gradients) = Min (set gradients) then choice (ts_log st) mod length gradients
            else argmin gradients))"

definition select_task :: "(round_log \<Rightarrow> nat) \<Rightarrow> sched_cfg \<Rightarrow> int \<Rightarrow> sched \<Rightarrow> nat res" where
  "select_task choice cfg =
     (if tc_strategy cfg = ''round-robin'' then round_robin cfg
      else if tc_strategy cfg = ''gradient'' then by_gradient choice cfg
      else (\<lambda>_ _. Inl ValueError))"

section \<open>The scheduling loop\<close>

text \<open>After a round: note an improvement of the objective, or stop early.\<close>

definition note_score :: "sched_cfg \<Rightarrow> sched \<Rightarrow> bool \<times> sched" where
  "note_score cfg st =
     (if score_num (ts_score st) < score_num (ts_best_score st)
      then (True, st\<lparr>ts_best_score := ts_score st, ts_best_ct := ts_ct st\<rparr>)
      else (\<not> (int (ts_ct st) - int (ts_best_ct st) \<ge> int (tc_early_all cfg) \<and> all_known (ts_best st)), st))"

fun sched_loop ::
  "sched_cfg \<Rightarrow> policy \<Rightarrow> (int \<Rightarrow> sched \<Rightarrow> nat res) \<Rightarrow> nat \<Rightarrow> int \<Rightarrow> sched \<Rightarrow> sched res" where
  "sched_loop cfg policy sel 0 task_idx st = Inl OutOfFuel"
| "sched_loop cfg policy sel (Suc fuel) task_idx st =
     (if ts_ct st < tc_trials cfg \<and> card (ts_dead st) < tc_n cfg then
        bindR (sel task_idx st) (\<lambda>i.
        bindR (tune_task cfg policy i st) (\<lambda>st1.
          case note_score cfg st1 of
            (False, st2) \<Rightarrow> Inr st2
          | (True, st2) \<Rightarrow> sched_loop cfg policy sel fuel (int i) st2))
      else Inr st)"

definition warm_up :: "sched_cfg \<Rightarrow> policy \<Rightarrow> sched \<Rightarrow> sched res" where
  "warm_up cfg policy st =
     foldR (\<lambda>idx st. if ts_cts st ! idx = 0 then tune_task cfg policy idx st else Inr st) [0..<tc_n cfg] st"

section \<open>Restoring from a log\<close>

record log_record =
  lr_target :: string
  lr_wkey :: string
  lr_error_no :: int
  lr_costs :: "rat list"

text \<open>The dictionary from workload keys to tasks: a later task of the same key wins.\<close>

definition task_of_key :: "string list \<Rightarrow> string \<Rightarrow> nat option" where
  "task_of_key keys k = map_of (rev (zip keys [0..<length keys])) k"

definition restore_record :: "string \<Rightarrow> string list \<Rightarrow> log_record \<Rightarrow> sched \<Rightarrow> sched res" where
  "restore_record str_target keys r st =
     (if lr_target r \<noteq> str_target then Inr st
      else case task_of_key keys (lr_wkey r) of
          None \<Rightarrow> Inr st
        | Some i \<Rightarrow>
            (let st1 = st\<lparr>ts_cts := (ts_cts st)[i := ts_cts st ! i + 1]\<rparr> in
             if lr_error_no r = 0 then
               bindR (array_mean (lr_costs r)) (\<lambda>cost.
                 Inr (if cost < ts_best st1 ! i
                      then st1\<lparr>ts_best := (ts_best st1)[i := cost],
                               ts_best_cts := (ts_best_cts st1)[i := ts_cts st1 ! i]\<rparr>
                      else st1))
             else Inr st1))"

text \<open>\<open>int(x / n + 0.5)\<close>\<close>

definition round_half :: "nat \<Rightarrow> nat \<Rightarrow> nat" where
  "round_half x n = nat \<lfloor>of_nat x / (of_nat n :: rat) + 1 / 2\<rfloor>"

definition restore_task :: "sched_cfg \<Rightarrow> nat \<Rightarrow> nat \<Rightarrow> sched \<Rightarrow> sched" where
  "restore_task cfg n idx st =
     st\<lparr>ts_dead := (if int (ts_cts st ! idx) - int (ts_best_cts st ! idx) > int (tc_early_task cfg)
                    then insert idx (ts_dead st) else ts_dead st),
        ts_cts := (ts_cts st)[idx := round_half (ts_cts st ! idx) n],
        ts_best_cts := (ts_best_cts st)[idx := round_half (ts_best_cts st ! idx) n],
        ts_hist := (ts_hist st)[idx := ts_hist st ! idx @ [ts_best st ! idx]]\<rparr>"

definition restore_status ::
  "sched_cfg \<Rightarrow> string \<Rightarrow> string list \<Rightarrow> nat \<Rightarrow> log_record list \<Rightarrow> sched \<Rightarrow> sched res" where
  "restore_status cfg str_target keys n records st =
     bindR (foldR (restore_record str_target keys) records st) (\<lambda>st1.
       let st2 = fold (restore_task cfg n) [0..<tc_n cfg] st1
       in Inr (st2\<lparr>ts_score := tc_objective cfg (ts_best st2)\<rparr>))"

section \<open>\<open>tune\<close>\<close>

definition tune ::
  "(round_log \<Rightarrow> nat) \<Rightarrow> sched_cfg \<Rightarrow> nat \<Rightarrow> (nat \<Rightarrow> sched \<Rightarrow> sched res) option \<Rightarrow> unit res \<Rightarrow> policy \<Rightarrow> nat \<Rightarrow>
     sched \<Rightarrow> sched res" where
  "tune choice cfg measures_per_round restore policies policy fuel st =
     (let nmeas = min measures_per_round (tc_trials cfg div tc_n cfg);
          st0 = st\<lparr>ts_ct := 0, ts_best_ct := 0, ts_nmeas := nmeas\<rparr>
      in bindR (guardR (nmeas > 0) ValueError) (\<lambda>_.
         bindR (case restore of None \<Rightarrow> Inr st0 | Some f \<Rightarrow> f nmeas st0) (\<lambda>st1.
         bindR policies (\<lambda>_.
         bindR (warm_up cfg policy st1) (\<lambda>st2.
           sched_loop cfg policy (select_task choice cfg) fuel (-1)
             (st2\<lparr>ts_best_ct := ts_ct st2, ts_best_score := ts_score st2\<rparr>))))))"

section \<open>What the state says about the rounds\<close>

definition lats :: "nat \<Rightarrow> round_log \<Rightarrow> rat list" where
  "lats i rl = map (\<lambda>r. snd (snd r)) (filter (\<lambda>r. fst r = i) rl)"

text \<open>The running minima from a start value.\<close>

fun mins :: "rat \<Rightarrow> rat list \<Rightarrow> rat list" where
  "mins b [] = []"
| "mins b (x # xs) = min b x # mins (min b x) xs"

definition accounts :: "sched_cfg \<Rightarrow> sched \<Rightarrow> bool" where
  "accounts cfg st \<longleftrightarrow>
     length (ts_cts st) = tc_n cfg \<and> length (ts_best_cts st) = tc_n cfg \<and>
     length (ts_hist st) = tc_n cfg \<and> length (ts_best st) = tc_n cfg \<and> ts_dead st \<subseteq> {..<tc_n cfg} \<and>
     ts_ct st = sumlist (map (\<lambda>r. fst (snd r)) (ts_log st)) \<and> ts_score st = tc_objective cfg (ts_best st) \<and>
     (\<forall>i<tc_n cfg. ts_cts st ! i = length (lats i (ts_log st)) \<and>
        ts_hist st ! i = mins (10 ^ 10) (lats i (ts_log st)) \<and>
        ts_best st ! i = fold min (lats i (ts_log st)) (10 ^ 10) \<and>
        ts_best_cts st ! i \<le> ts_cts st ! i)"

lemma mins_append: "mins b (xs @ [x]) = mins b xs @ [min (fold min xs b) x]"
  by (induction xs arbitrary: b) (simp_all add: min.commute)

lemma length_mins [simp]: "length (mins b xs) = length xs"
  by (induction xs arbitrary: b) simp_all

lemma mins_le: "x \<in> set (mins b xs) \<Longrightarrow> x \<le> b"
  by (induction xs arbitrary: b) fastforce+

lemma mins_antimono: "i \<le> j \<Longrightarrow> j < length xs \<Longrightarrow> mins b xs ! j \<le> mins b xs ! i"
proof (induction xs arbitrary: b i j)
  case (Cons x xs)
  show ?case
  proof (cases j)
    case 0
    with Cons.prems show ?thesis by simp
  next
    case (Suc j')
    then have j': "j' < length xs" using Cons.prems by simp
    show ?thesis
    proof (cases i)
      case 0
      then show ?thesis using mins_le [of "mins (min b x) xs ! j'" "min b x" xs] j' Suc by simp
    next
      case (Suc i')
      with Cons \<open>j = Suc j'\<close> show ?thesis by simp
    qed
  qed
qed simp

lemma lats_append: "lats i (rl @ [(k, num, l)]) = (if k = i then lats i rl @ [l] else lats i rl)"
  by (simp add: lats_def)

lemma accounts_round:
  assumes "accounts cfg st" "idx < tc_n cfg"
  shows "accounts cfg (apply_round cfg idx num lat st)"
proof -
  define st' where "st' = apply_round cfg idx num lat st"
  have len: "length (ts_cts st) = tc_n cfg" "length (ts_best_cts st) = tc_n cfg"
    "length (ts_hist st) = tc_n cfg" "length (ts_best st) = tc_n cfg" "ts_dead st \<subseteq> {..<tc_n cfg}"
    using assms(1) by (auto simp: accounts_def)
  have old: "ts_cts st ! i = length (lats i (ts_log st))" "ts_hist st ! i = mins (10 ^ 10) (lats i (ts_log st))"
    "ts_best st ! i = fold min (lats i (ts_log st)) (10 ^ 10)" "ts_best_cts st ! i \<le> ts_cts st ! i"
    if "i < tc_n cfg" for i using assms(1) that by (auto simp: accounts_def)
  have rl: "ts_log st' = ts_log st @ [(idx, num, lat)]" by (simp add: st'_def apply_round_def Let_def)
  have best: "ts_best st' = (ts_best st)[idx := min (ts_best st ! idx) lat]"
    by (auto simp: st'_def apply_round_def Let_def min_def list_update_same_conv len assms(2))
  have f: "ts_cts st' = (ts_cts st)[idx := ts_cts st ! idx + 1]"
    "ts_hist st' = (ts_hist st)[idx := ts_hist st ! idx @ [ts_best st' ! idx]]"
    "ts_best_cts st' = (ts_best_cts st)[idx := ts_cts st ! idx + 1] \<or> ts_best_cts st' = ts_best_cts st"
    "ts_ct st' = ts_ct st + num" "ts_score st' = tc_objective cfg (ts_best st')"
    "ts_dead st' \<subseteq> insert idx (ts_dead st)"
    using len assms(2) by (auto simp: st'_def apply_round_def Let_def)
  have "ts_cts st' ! i = length (lats i (ts_log st')) \<and> ts_hist st' ! i = mins (10 ^ 10) (lats i (ts_log st')) \<and>
        ts_best st' ! i = fold min (lats i (ts_log st')) (10 ^ 10) \<and> ts_best_cts st' ! i \<le> ts_cts st' ! i"
    if i: "i < tc_n cfg" for i
  proof (cases "i = idx")
    case True
    have b: "ts_best st' ! idx = min (fold min (lats idx (ts_log st)) (10 ^ 10)) lat"
      using best old(3) [OF assms(2)] len assms(2) by simp
    have "ts_best_cts st' ! idx \<le> ts_cts st ! idx + 1"
      using f(3) old(4) [OF assms(2)] len assms(2) by auto
    then show ?thesis using True b f(1,2) old [OF assms(2)] len assms(2)
      by (simp add: rl lats_append mins_append min.commute)
  next
    case False
    have "ts_best_cts st' ! i = ts_best_cts st ! i" using f(3) False by auto
    with False show ?thesis using f(1,2) best old [OF i] by (simp add: rl lats_append)
  qed
  moreover have "length (ts_best_cts st') = tc_n cfg" using f(3) len by auto
  moreover have "ts_ct st' = sumlist (map (\<lambda>r. fst (snd r)) (ts_log st'))"
    using assms(1) f(4) by (simp add: rl accounts_def)
  moreover have "length (ts_cts st') = tc_n cfg" "length (ts_hist st') = tc_n cfg" "length (ts_best st') = tc_n cfg"
    by (simp_all add: f(1,2) best len)
  moreover have "ts_dead st' \<subseteq> {..<tc_n cfg}" using f(6) len(5) assms(2) by auto
  ultimately have "accounts cfg st'" using f(5) unfolding accounts_def by blast
  then show ?thesis by (simp add: st'_def)
qed

lemma accounts_note [simp]:
  "accounts cfg (st\<lparr>ts_best_score := s, ts_best_ct := c\<rparr>) = accounts cfg st"
  "accounts cfg (st\<lparr>ts_best_ct := c, ts_best_score := s\<rparr>) = accounts cfg st"
  by (simp_all add: accounts_def)

text \<open>When the callbacks cannot raise: every score has a \<open>value\<close>, or none of them reads it.\<close>

definition quiet :: "sched_cfg \<Rightarrow> bool" where
  "quiet cfg \<longleftrightarrow> (\<forall>best. has_value (tc_objective cfg best)) \<or> set (tc_callbacks cfg) \<subseteq> {OtherCallback}"

lemma callbacks_quiet:
  assumes "quiet cfg" "ts_score st = tc_objective cfg (ts_best st)"
  shows "pre_tune cfg st = Inr () \<and> post_tune cfg st = Inr ()"
proof -
  have r: "read_value st = Inr ()" if "\<forall>best. has_value (tc_objective cfg best)"
    using that assms(2) by (simp add: read_value_def guardR_def)
  have all: "foldR (\<lambda>cb _. f cb) cbs () = Inr ()" if "\<forall>cb\<in>set cbs. f cb = Inr ()"
    for f :: "callback \<Rightarrow> unit res" and cbs
    using that by (induction cbs) simp_all
  show ?thesis unfolding pre_tune_def post_tune_def
    using assms(1) r unfolding quiet_def by (intro conjI all) (auto split: callback.split)
qed

lemma tune_task_round:
  assumes "quiet cfg" "accounts cfg st" "idx < tc_n cfg"
  shows "\<exists>num lat. policy idx (ts_log st) = (num, lat) \<and>
    tune_task cfg policy idx st = Inr (apply_round cfg idx num lat st)"
proof -
  obtain num lat where p: "policy idx (ts_log st) = (num, lat)" by fastforce
  have "ts_score st = tc_objective cfg (ts_best st)" using assms(2) by (simp add: accounts_def)
  moreover have "ts_score (apply_round cfg idx num lat st) = tc_objective cfg (ts_best (apply_round cfg idx num lat st))"
    by (simp add: apply_round_def Let_def)
  ultimately show ?thesis using p callbacks_quiet [OF assms(1)] by (simp add: tune_task_def)
qed

text \<open>Why the loop has ended: trials used up, no task alive, or no improvement for long enough.\<close>

definition stopped :: "sched_cfg \<Rightarrow> sched \<Rightarrow> bool" where
  "stopped cfg st \<longleftrightarrow> tc_trials cfg \<le> ts_ct st \<or> ts_dead st = {..<tc_n cfg} \<or>
     int (ts_ct st) - int (ts_best_ct st) \<ge> int (tc_early_all cfg) \<and> all_known (ts_best st)"

section \<open>The interface of a strategy\<close>

text \<open>
  What the loop needs to end: as long as a task is alive the strategy picks one that is, and a
  round of it keeps what the strategy relies on. The invariant may speak of the last task tuned.
\<close>

locale task_strategy =
  fixes cfg :: sched_cfg
    and policy :: policy
    and sel :: "int \<Rightarrow> sched \<Rightarrow> nat res"
    and inv :: "int \<Rightarrow> sched \<Rightarrow> bool"
  assumes accounted: "inv t st \<Longrightarrow> quiet cfg \<and> accounts cfg st"
    and live: "inv t st \<Longrightarrow> card (ts_dead st) < tc_n cfg \<Longrightarrow>
      \<exists>i. sel t st = Inr i \<and> i < tc_n cfg \<and> i \<notin> ts_dead st"
    and step: "inv t st \<Longrightarrow> card (ts_dead st) < tc_n cfg \<Longrightarrow> sel t st = Inr i \<Longrightarrow>
      policy i (ts_log st) = (num, lat) \<Longrightarrow> inv (int i) (apply_round cfg i num lat st)"
    and noted: "inv t st \<Longrightarrow> inv t (st\<lparr>ts_best_score := s, ts_best_ct := c\<rparr>)"
begin

lemma loop_ends:
  assumes "inv t st" "(tc_trials cfg - ts_ct st) + (tc_n cfg - card (ts_dead st)) < fuel"
  shows "\<exists>st'. sched_loop cfg policy sel fuel t st = Inr st' \<and> (\<exists>t'. inv t' st') \<and> stopped cfg st'"
  using assms
proof (induction fuel arbitrary: t st)
  case 0
  then show ?case by simp
next
  case (Suc fuel)
  have sub: "ts_dead st \<subseteq> {..<tc_n cfg}" using accounted [OF Suc.prems(1)] by (simp add: accounts_def)
  then have fin: "finite (ts_dead st)" by (rule finite_subset) simp
  show ?case
  proof (cases "ts_ct st < tc_trials cfg \<and> card (ts_dead st) < tc_n cfg")
    case False
    have "ts_dead st = {..<tc_n cfg}" if "\<not> card (ts_dead st) < tc_n cfg"
      using card_subset_eq [OF _ sub] card_mono [OF _ sub] that by simp
    with False have "stopped cfg st" by (auto simp: stopped_def)
    moreover have "sched_loop cfg policy sel (Suc fuel) t st = Inr st" using False by auto
    ultimately show ?thesis using Suc.prems(1) by blast
  next
    case True
    obtain i where i: "sel t st = Inr i" "i < tc_n cfg" "i \<notin> ts_dead st"
      using live [OF Suc.prems(1)] True by blast
    obtain num lat where p: "policy i (ts_log st) = (num, lat)"
      "tune_task cfg policy i st = Inr (apply_round cfg i num lat st)"
      using tune_task_round accounted [OF Suc.prems(1)] i(2) by blast
    define st1 where "st1 = apply_round cfg i num lat st"
    have inv1: "inv (int i) st1" using step [OF Suc.prems(1) _ i(1) p(1)] True by (simp add: st1_def)
    have ct: "ts_ct st1 = ts_ct st + num" and dead: "ts_dead st \<subseteq> ts_dead st1" "num = 0 \<Longrightarrow> i \<in> ts_dead st1"
      by (auto simp: st1_def apply_round_def Let_def)
    have sub1: "ts_dead st1 \<subseteq> {..<tc_n cfg}" using accounted [OF inv1] by (simp add: accounts_def)
    then have fin1: "finite (ts_dead st1)" by (rule finite_subset) simp
    have less: "(tc_trials cfg - ts_ct st1) + (tc_n cfg - card (ts_dead st1)) < fuel"
    proof (cases "num = 0")
      case True
      then have "insert i (ts_dead st) \<subseteq> ts_dead st1" using dead by auto
      then have "Suc (card (ts_dead st)) \<le> card (ts_dead st1)"
        using card_mono [OF fin1, of "insert i (ts_dead st)"] i(3) fin by simp
      moreover have "card (ts_dead st1) \<le> tc_n cfg" using card_mono [OF _ sub1] by simp
      ultimately show ?thesis using Suc.prems(2) ct True by simp
    next
      case no: False
      moreover have "card (ts_dead st) \<le> card (ts_dead st1)" using card_mono [OF fin1 dead(1)] .
      ultimately show ?thesis using Suc.prems(2) ct True by linarith
    qed
    show ?thesis
    proof (cases "score_num (ts_score st1) < score_num (ts_best_score st1)")
      case improved: True
      define st2 where "st2 = st1\<lparr>ts_best_score := ts_score st1, ts_best_ct := ts_ct st1\<rparr>"
      have "sched_loop cfg policy sel (Suc fuel) t st = sched_loop cfg policy sel fuel (int i) st2"
        using True i(1) p(2) improved by (simp add: note_score_def st1_def [symmetric] st2_def)
      moreover have "inv (int i) st2" using noted [OF inv1] by (simp add: st2_def)
      moreover have "(tc_trials cfg - ts_ct st2) + (tc_n cfg - card (ts_dead st2)) < fuel"
        using less by (simp add: st2_def)
      ultimately show ?thesis using Suc.IH by simp
    next
      case no: False
      show ?thesis
      proof (cases "int (ts_ct st1) - int (ts_best_ct st1) \<ge> int (tc_early_all cfg) \<and> all_known (ts_best st1)")
        case stop: True
        then have "sched_loop cfg policy sel (Suc fuel) t st = Inr st1"
          using True i(1) p(2) no by (simp add: note_score_def st1_def [symmetric])
        moreover have "stopped cfg st1" using stop by (simp add: stopped_def)
          ultimately show ?thesis using inv1 by blast
      next
        case go: False
        have "note_score cfg st1 = (True, st1)" using no go by (auto simp: note_score_def)
        then have "sched_loop cfg policy sel (Suc fuel) t st = sched_loop cfg policy sel fuel (int i) st1"
          using True i(1) p(2) by (simp add: st1_def [symmetric])
        with Suc.IH [OF inv1 less] show ?thesis by simp
      qed
    qed
  qed
qed

end

section \<open>The warm-up\<close>

text \<open>Whatever the rounds keep holds after the warm-up, and then every task has had a round.\<close>

lemma warm_up_ok:
  assumes acc: "\<And>st. P st \<Longrightarrow> quiet cfg \<and> accounts cfg st"
    and step: "\<And>st i num lat. P st \<Longrightarrow> i < tc_n cfg \<Longrightarrow> policy i (ts_log st) = (num, lat) \<Longrightarrow>
      P (apply_round cfg i num lat st)"
    and "P st"
  shows "\<exists>st'. warm_up cfg policy st = Inr st' \<and> P st' \<and> (\<forall>i<tc_n cfg.
    ts_cts st' ! i = (if ts_cts st ! i = 0 then 1 else ts_cts st ! i))"
proof -
  let ?f = "\<lambda>idx st. if ts_cts st ! idx = 0 then tune_task cfg policy idx st else Inr st"
  have "\<exists>st'. foldR ?f [0..<k] st = Inr st' \<and> P st' \<and> (\<forall>i<tc_n cfg.
      ts_cts st' ! i = (if i < k \<and> ts_cts st ! i = 0 then 1 else ts_cts st ! i))" if "k \<le> tc_n cfg" for k
    using that
  proof (induction k)
    case 0
    then show ?case using assms(3) by simp
  next
    case (Suc k)
    then obtain st1 where s: "foldR ?f [0..<k] st = Inr st1" "P st1"
      "\<forall>i<tc_n cfg. ts_cts st1 ! i = (if i < k \<and> ts_cts st ! i = 0 then 1 else ts_cts st ! i)" by auto
    have k: "k < tc_n cfg" using Suc.prems by simp
    have ck: "ts_cts st1 ! k = ts_cts st ! k" using s(3) k by simp
    show ?case
    proof (cases "ts_cts st ! k = 0")
      case False
      then have "foldR ?f [0..<Suc k] st = Inr st1" using s(1) ck by (simp add: foldR_append)
      moreover have "\<forall>i<tc_n cfg. ts_cts st1 ! i = (if i < Suc k \<and> ts_cts st ! i = 0 then 1 else ts_cts st ! i)"
        using s(3) False by (metis less_Suc_eq)
      ultimately show ?thesis using s(2) by blast
    next
      case True
      obtain num lat where p: "policy k (ts_log st1) = (num, lat)"
        "tune_task cfg policy k st1 = Inr (apply_round cfg k num lat st1)"
        using tune_task_round acc [OF s(2)] k by blast
      have l: "length (ts_cts st1) = tc_n cfg" using acc [OF s(2)] by (simp add: accounts_def)
      have c: "ts_cts (apply_round cfg k num lat st1) = (ts_cts st1)[k := ts_cts st1 ! k + 1]"
        by (simp add: apply_round_def Let_def)
      have "foldR ?f [0..<Suc k] st = Inr (apply_round cfg k num lat st1)"
        using s(1) ck True p(2) by (simp add: foldR_append)
      moreover have "\<forall>i<tc_n cfg. ts_cts (apply_round cfg k num lat st1) ! i =
          (if i < Suc k \<and> ts_cts st ! i = 0 then 1 else ts_cts st ! i)"
        using s(3) True l by (simp add: c nth_list_update less_Suc_eq k)
      ultimately show ?thesis using step [OF s(2) k p(1)] by blast
    qed
  qed
  from this [OF order_refl] show ?thesis by (auto simp: warm_up_def)
qed

end
