(* ===== verification/Strategies.thy ===== *)
theory Strategies
  imports TaskScheduler
begin

text \<open>
  The two strategies of the task scheduler, round robin and gradient, as instances of the interface
  the scheduling loop needs, and what a whole \<open>tune\<close> of each does from a fresh scheduler.
\<close>

section \<open>Round robin\<close>

text \<open>The next live task in cyclic order is found, and the tasks passed over are dead.\<close>

lemma skip_dead_finds:
  assumes "j < n" "j \<notin> dead" "s < n" "(if s \<le> j then j - s else n - s + j) < fuel"
  shows "\<exists>k. skip_dead fuel n dead s = Inr k \<and> k < n \<and> k \<notin> dead \<and>
    (if s \<le> k then {s..<k} \<subseteq> dead else {s..<n} \<subseteq> dead \<and> {..<k} \<subseteq> dead)"
  using assms(3,4)
proof (induction fuel arbitrary: s)
  case (Suc fuel)
  show ?case
  proof (cases "s \<in> dead")
    case False
    with Suc.prems show ?thesis by simp
  next
    case True
    with assms(2) have "s \<noteq> j" by auto
    have less: "(if (s + 1) mod n \<le> j then j - (s + 1) mod n else n - (s + 1) mod n + j) < fuel"
    proof (cases "s + 1 < n")
      case True
      with Suc.prems \<open>s \<noteq> j\<close> show ?thesis by (auto split: if_splits)
    next
      case False
      then have "s + 1 = n" using Suc.prems(1) by simp
      with Suc.prems \<open>s \<noteq> j\<close> assms(1) show ?thesis by (auto split: if_splits)
    qed
    have "(s + 1) mod n < n" using assms(1) by simp
    from Suc.IH [OF this less] obtain k where k: "skip_dead fuel n dead ((s + 1) mod n) = Inr k"
      "k < n" "k \<notin> dead" "if (s + 1) mod n \<le> k then {(s + 1) mod n..<k} \<subseteq> dead
        else {(s + 1) mod n..<n} \<subseteq> dead \<and> {..<k} \<subseteq> dead" by blast
    have "k \<noteq> s" using k(3) True by auto
    have "if s \<le> k then {s..<k} \<subseteq> dead else {s..<n} \<subseteq> dead \<and> {..<k} \<subseteq> dead"
    proof (cases "s + 1 < n")
      case 1: True
      then have m: "(s + 1) mod n = s + 1" by simp
      have e: "{s..<x} = insert s {s + 1..<x}" if "s < x" for x using that by auto
      show ?thesis using k(4) True \<open>k \<noteq> s\<close> e [of k] e [of n] 1 by (auto simp: m split: if_splits)
    next
      case False
      then have n: "n = s + 1" using Suc.prems(1) by simp
      with k(2) \<open>k \<noteq> s\<close> have "k < s" by simp
      moreover have "{s..<n} = {s}" using n by auto
      moreover have "{..<k} \<subseteq> dead" using k(4) by (simp add: n atLeast0LessThan)
      ultimately show ?thesis using True by simp
    qed
    then show ?thesis using True k(1-3) by simp
  qed
qed simp

lemma some_live:
  assumes "accounts cfg st" "card (ts_dead st) < tc_n cfg"
  shows "\<exists>j<tc_n cfg. j \<notin> ts_dead st"
proof (rule ccontr)
  assume "\<not> ?thesis"
  then have "{..<tc_n cfg} \<subseteq> ts_dead st" by auto
  moreover have "ts_dead st \<subseteq> {..<tc_n cfg}" using assms(1) by (simp add: accounts_def)
  ultimately have "ts_dead st = {..<tc_n cfg}" by blast
  then show False using assms(2) by simp
qed

text \<open>
  The live tasks up to the last one tuned are one round ahead of the others.
\<close>

definition balanced :: "sched_cfg \<Rightarrow> int \<Rightarrow> sched \<Rightarrow> bool" where
  "balanced cfg t st \<longleftrightarrow> -1 \<le> t \<and> t < int (tc_n cfg) \<and>
     (\<exists>c. \<forall>j<tc_n cfg. j \<notin> ts_dead st \<longrightarrow> int (ts_cts st ! j) = c + (if int j \<le> t then 1 else 0))"

definition in_turn :: "sched_cfg \<Rightarrow> int \<Rightarrow> sched \<Rightarrow> bool" where
  "in_turn cfg t st \<longleftrightarrow> tc_n cfg \<noteq> 0 \<and> tc_strategy cfg = ''round-robin'' \<and> quiet cfg \<and>
     accounts cfg st \<and> balanced cfg t st \<and> (\<forall>i<tc_n cfg. 0 < ts_cts st ! i)"

lemma round_robin_next:
  assumes "in_turn cfg t st" "card (ts_dead st) < tc_n cfg"
  shows "\<exists>i. select_task choice cfg t st = Inr i \<and> i < tc_n cfg \<and> i \<notin> ts_dead st \<and>
    (if t < int i then \<forall>j. t < int j \<longrightarrow> j < i \<longrightarrow> j \<in> ts_dead st
     else (\<forall>j<tc_n cfg. t < int j \<longrightarrow> j \<in> ts_dead st) \<and> (\<forall>j<i. j \<in> ts_dead st))"
proof -
  define n where "n = tc_n cfg"
  define s where "s = nat ((t + 1) mod int n)"
  have n: "0 < n" "-1 \<le> t" "t < int n" using assms(1) by (simp_all add: in_turn_def balanced_def n_def)
  have s: "s < n" using n(1) by (simp add: s_def nat_less_iff)
  obtain j where j: "j < n" "j \<notin> ts_dead st" using some_live [of cfg st] assms by (auto simp: in_turn_def n_def)
  have "(if s \<le> j then j - s else n - s + j) < n" using s j(1) by auto
  from skip_dead_finds [OF j s this] obtain k where k: "skip_dead n n (ts_dead st) s = Inr k" "k < n"
    "k \<notin> ts_dead st" "if s \<le> k then {s..<k} \<subseteq> ts_dead st else {s..<n} \<subseteq> ts_dead st \<and> {..<k} \<subseteq> ts_dead st"
    by blast
  have sel: "select_task choice cfg t st = Inr k" using k(1) assms(1)
    by (simp add: select_task_def round_robin_def in_turn_def n_def s_def)
  have "if t < int k then \<forall>j. t < int j \<longrightarrow> j < k \<longrightarrow> j \<in> ts_dead st
     else (\<forall>j<n. t < int j \<longrightarrow> j \<in> ts_dead st) \<and> (\<forall>j<k. j \<in> ts_dead st)"
  proof (cases "t + 1 < int n")
    case True
    then have "int s = t + 1" using n by (simp add: s_def)
    then have *: "t < int j \<longleftrightarrow> s \<le> j" for j by linarith
    show ?thesis using k(4) by (auto simp: * subset_iff split: if_splits)
  next
    case False
    then have t: "t = int n - 1" using n by simp
    then have "s = 0" by (simp add: s_def)
    with k(2,4) show ?thesis using t by (auto simp: subset_iff)
  qed
  with sel k(2,3) show ?thesis by (auto simp: n_def)
qed

lemma in_turn_step:
  assumes "in_turn cfg t st" "card (ts_dead st) < tc_n cfg" "select_task choice cfg t st = Inr i"
  shows "in_turn cfg (int i) (apply_round cfg i num lat st)"
proof -
  define st' where "st' = apply_round cfg i num lat st"
  from round_robin_next [OF assms(1,2), of choice] assms(3)
  have i: "i < tc_n cfg" "i \<notin> ts_dead st"
    "if t < int i then \<forall>j. t < int j \<longrightarrow> j < i \<longrightarrow> j \<in> ts_dead st
     else (\<forall>j<tc_n cfg. t < int j \<longrightarrow> j \<in> ts_dead st) \<and> (\<forall>j<i. j \<in> ts_dead st)" by auto
  have cts: "ts_cts st' = (ts_cts st)[i := ts_cts st ! i + 1]" and dead: "ts_dead st \<subseteq> ts_dead st'"
    by (auto simp: st'_def apply_round_def Let_def)
  have acc: "accounts cfg st" using assms(1) by (simp add: in_turn_def)
  then have l: "length (ts_cts st) = tc_n cfg" by (simp add: accounts_def)
  obtain c where c: "\<And>j. j < tc_n cfg \<Longrightarrow> j \<notin> ts_dead st \<Longrightarrow> int (ts_cts st ! j) = c + (if int j \<le> t then 1 else 0)"
    using assms(1) by (auto simp: in_turn_def balanced_def)
  have "int (ts_cts st' ! j) = (if t < int i then c else c + 1) + (if int j \<le> int i then 1 else 0)"
    if j: "j < tc_n cfg" "j \<notin> ts_dead st'" for j
  proof -
    have jd: "j \<notin> ts_dead st" using j dead by auto
    show ?thesis
    proof (cases "j = i")
      case True
      then show ?thesis using c [OF i(1,2)] l i(1) by (auto simp: cts)
    next
      case False
      then have "ts_cts st' ! j = ts_cts st ! j" by (simp add: cts)
      moreover have "\<not> (t < int j \<and> j < i)" if "t < int i" using i(3) jd that by auto
      moreover have "\<not> t < int j \<and> \<not> j < i" if "\<not> t < int i" using i(3) jd j(1) that by auto
      ultimately show ?thesis using c [OF j(1) jd] False by (cases "t < int i") auto
    qed
  qed
  then have "balanced cfg (int i) st'" using i(1) unfolding balanced_def by auto
  moreover have "\<forall>j<tc_n cfg. 0 < ts_cts st' ! j" using assms(1) by (auto simp: in_turn_def cts nth_list_update l i(1))
  ultimately show ?thesis using assms(1) accounts_round [OF acc i(1)] by (simp add: in_turn_def st'_def)
qed

interpretation turns: task_strategy cfg policy "select_task choice cfg" "in_turn cfg"
  for cfg policy choice
proof unfold_locales
  fix t st
  assume inv: "in_turn cfg t st"
  then show "quiet cfg \<and> accounts cfg st" by (simp add: in_turn_def)
  show "in_turn cfg t (st\<lparr>ts_best_score := s, ts_best_ct := c\<rparr>)" for s c
    using inv by (simp add: in_turn_def balanced_def)
  assume card: "card (ts_dead st) < tc_n cfg"
  show "\<exists>i. select_task choice cfg t st = Inr i \<and> i < tc_n cfg \<and> i \<notin> ts_dead st"
    using round_robin_next [OF inv card, of choice] by blast
  show "in_turn cfg (int i) (apply_round cfg i num lat st)"
    if "select_task choice cfg t st = Inr i" "policy i (ts_log st) = (num, lat)" for i num lat
    using in_turn_step [OF inv card that(1)] .
qed

section \<open>Gradient\<close>

text \<open>
  The conditions under which a gradient is negative: an objective that falls when one of positive
  latencies falls by the step \<open>1e-4\<close> of the derivative, positive latencies, and the documented ranges
  of the parameters. A weighted sum with positive weights is such an objective, as long as the step is
  not lost in the rounding of a large sum.
\<close>

definition notices :: "sched_cfg \<Rightarrow> bool" where
  "notices cfg \<longleftrightarrow> (\<forall>best i. length best = tc_n cfg \<and> i < tc_n cfg \<and> (\<forall>b\<in>set best. 0 < b) \<longrightarrow>
     score_num (tc_objective cfg (best[i := best ! i - 1 / 10 ^ 4])) < score_num (tc_objective cfg best))"

definition weighted :: "sched_cfg \<Rightarrow> rat list \<Rightarrow> bool" where
  "weighted cfg ws \<longleftrightarrow> length ws = tc_n cfg \<and> (\<forall>w\<in>set ws. 0 < w) \<and>
     (\<forall>best. score_num (tc_objective cfg best) = weighted_sum best ws)"

definition measured :: "sched_cfg \<Rightarrow> sched \<Rightarrow> bool" where
  "measured cfg st \<longleftrightarrow> accounts cfg st \<and> (\<forall>r\<in>set (ts_log st). 0 < snd (snd r))"

definition descends :: "sched_cfg \<Rightarrow> sched \<Rightarrow> bool" where
  "descends cfg st \<longleftrightarrow> tc_n cfg \<noteq> 0 \<and> tc_strategy cfg = ''gradient'' \<and> quiet cfg \<and> notices cfg \<and>
     0 \<le> tc_alpha cfg \<and> tc_alpha cfg < 1 \<and> 0 < tc_window cfg \<and> measured cfg st \<and>
     (\<forall>i<tc_n cfg. 0 < ts_cts st ! i)"

lemma weighted_sum_update:
  "length costs = length ws \<Longrightarrow> i < length ws \<Longrightarrow>
   weighted_sum (costs[i := x]) ws = weighted_sum costs ws + (x - costs ! i) * ws ! i"
proof (induction costs ws arbitrary: i rule: list_induct2)
  case (Cons c costs w ws)
  then show ?case by (cases i) (simp_all add: weighted_sum_def algebra_simps)
qed simp

lemma weighted_notices: "weighted cfg ws \<Longrightarrow> notices cfg"
  by (auto simp: weighted_def notices_def weighted_sum_update)

lemma fold_min_pos: "0 < b \<Longrightarrow> \<forall>x\<in>set xs. 0 < x \<Longrightarrow> 0 < fold min xs (b :: rat)"
  by (induction xs arbitrary: b) auto

lemma lats_pos: "measured cfg st \<Longrightarrow> \<forall>x\<in>set (lats i (ts_log st)). 0 < x"
  by (auto simp: measured_def lats_def)

lemma gradient_negative:
  assumes "descends cfg st" "i < tc_n cfg" "i \<notin> ts_dead st"
  shows "\<exists>g<0. gradient cfg st i = Inr g"
proof -
  have acc: "accounts cfg st" using assms(1) by (simp add: descends_def measured_def)
  define ls where "ls = lats i (ts_log st)"
  define best where "best = ts_best st ! i"
  define k where "k = ts_cts st ! i"
  have f: "k = length ls" "ts_hist st ! i = mins (10 ^ 10) ls" "best = fold min ls (10 ^ 10)"
    using acc assms(2) by (simp_all add: accounts_def ls_def best_def k_def)
  have k0: "0 < k" using assms(1,2) by (simp add: descends_def k_def)
  have "0 < best" unfolding f(3) ls_def using assms(1) by (intro fold_min_pos lats_pos) (auto simp: descends_def)
  then have fwd: "min (best - best / of_nat k) x - best < 0" for x
    using k0 by (simp add: min.strict_coboundedI1)
  define win where "win = tc_window cfg"
  define bwd where "bwd = (if int k - 1 < int (length (ts_hist st ! i)) \<and> int k - 1 - int win \<ge> 0
    then (ts_hist st ! i ! nat (int k - 1) - ts_hist st ! i ! nat (int k - 1 - int win)) / of_nat win else 0)"
  have win0: "0 < win" using assms(1) by (simp add: descends_def win_def)
  have bwd: "bwd \<le> 0"
  proof -
    have "mins (10 ^ 10) ls ! nat (int k - 1) \<le> mins (10 ^ 10) ls ! nat (int k - 1 - int win)"
      by (rule mins_antimono) (use k0 f(1) in \<open>simp_all add: nat_less_iff\<close>)
    then show ?thesis using win0 by (simp add: bwd_def f(2) divide_nonpos_pos)
  qed
  have al: "0 \<le> tc_alpha cfg" "tc_alpha cfg < 1" using assms(1) by (simp_all add: descends_def)
  define chain where "chain = (score_num (tc_objective cfg (ts_best st)) -
    score_num (tc_objective cfg ((ts_best st)[i := best - 1 / 10 ^ 4]))) / (1 / 10 ^ 4)"
  have "length (ts_best st) = tc_n cfg" "\<forall>j<tc_n cfg. 0 < ts_best st ! j"
    using acc fold_min_pos [OF _ lats_pos, of "10 ^ 10" cfg st] assms(1) by (simp_all add: accounts_def descends_def)
  then have "length (ts_best st) = tc_n cfg" "\<forall>b\<in>set (ts_best st). 0 < b" by (auto simp: in_set_conv_nth)
  then have chain: "0 < chain"
    using assms(1,2) unfolding chain_def best_def descends_def notices_def by simp
  define grad where "grad = chain * (tc_alpha cfg * bwd +
    (1 - tc_alpha cfg) * (min (best - best / of_nat k) (tc_beta cfg * 10 ^ 30) - best))"
  have "tc_alpha cfg * bwd \<le> 0" using al(1) bwd by (rule mult_nonneg_nonpos)
  moreover have "(1 - tc_alpha cfg) * (min (best - best / of_nat k) (tc_beta cfg * 10 ^ 30) - best) < 0"
    using al(2) fwd by (intro mult_pos_neg) simp_all
  ultimately have g: "grad < 0" unfolding grad_def using chain by (intro mult_pos_neg) linarith+
  have "gradient cfg st i = bindR (guardR (grad \<le> 0) AssertionError) (\<lambda>_. Inr grad)"
    using assms(3) unfolding gradient_def Let_def grad_def chain_def bwd_def best_def k_def win_def by simp
  then show ?thesis using g by (simp add: guardR_def)
qed

text \<open>The strategy picks a live task: its gradient is the least one, or all are equal and alive.\<close>

lemma argmin_least:
  assumes "xs \<noteq> []"
  shows "argmin xs < length xs \<and> xs ! argmin xs = Min (set xs) \<and> (\<forall>j<argmin xs. xs ! j \<noteq> Min (set xs))"
proof -
  have "Min (set xs) \<in> set xs" using assms by simp
  then obtain i where i: "i < length xs" "xs ! i = Min (set xs)" by (auto simp: in_set_conv_nth)
  define hits where "hits = [i \<leftarrow> [0..<length xs]. xs ! i = Min (set xs)]"
  have "i \<in> set hits" using i by (simp add: hits_def)
  then obtain a as where a: "hits = a # as" by (cases "hits") auto
  have "a \<in> set hits" using a by simp
  then have a1: "a < length xs" "xs ! a = Min (set xs)" by (simp_all add: hits_def)
  have a2: "xs ! j \<noteq> Min (set xs)" if "j < a" for j
  proof
    assume "xs ! j = Min (set xs)"
    then have "j \<in> set hits" using that a1(1) by (simp add: hits_def)
    moreover have "sorted hits" by (simp add: hits_def sorted_wrt_filter)
    ultimately show False using a that by auto
  qed
  have "argmin xs = a" using a by (simp add: argmin_def hits_def)
  with a1 a2 show ?thesis by blast
qed

definition steepest_live :: "sched_cfg \<Rightarrow> sched \<Rightarrow> nat \<Rightarrow> bool" where
  "steepest_live cfg st i \<longleftrightarrow> i < tc_n cfg \<and> i \<notin> ts_dead st \<and>
     (\<exists>g<0. gradient cfg st i = Inr g \<and> (\<forall>j<tc_n cfg. \<exists>g'. gradient cfg st j = Inr g' \<and> g \<le> g'))"

lemma by_gradient_live:
  assumes "descends cfg st" "card (ts_dead st) < tc_n cfg"
  shows "\<exists>i. select_task choice cfg t st = Inr i \<and> steepest_live cfg st i"
proof -
  define n where "n = tc_n cfg"
  have acc: "accounts cfg st" using assms(1) by (simp add: descends_def measured_def)
  have dead: "gradient cfg st i = Inr 0" if "i \<in> ts_dead st" for i using that by (simp add: gradient_def)
  define f where "f i = (case gradient cfg st i of Inr g \<Rightarrow> g | Inl _ \<Rightarrow> 0)" for i
  have f: "gradient cfg st i = Inr (f i)" "f i \<le> 0" "f i < 0 \<longleftrightarrow> i \<notin> ts_dead st" if "i < n" for i
    using gradient_negative [OF assms(1), of i] dead [of i] that
    by (cases "i \<in> ts_dead st"; auto simp: f_def n_def)+
  obtain l where l: "l < n" "l \<notin> ts_dead st" using some_live [OF acc assms(2)] by (auto simp: n_def)
  define gs where "gs = map f [0..<n]"
  have run: "select_task choice cfg t st = Inr (if Max (set gs) = Min (set gs) then choice (ts_log st) mod length gs
      else argmin gs)"
    using mapR_total [of "[0..<n]" "gradient cfg st" f] f(1) assms(1)
    by (simp add: select_task_def by_gradient_def descends_def gs_def n_def)
  have len: "length gs = n" "0 < n" "gs \<noteq> []" and mem: "set gs = f ` {..<n}"
    using l(1) by (auto simp: gs_def atLeast0LessThan)
  have "Min (set gs) \<le> f l" using l(1) by (simp add: mem)
  then have neg: "Min (set gs) < 0" using f(3) [OF l(1)] l(2) by simp
  define i where "i = (if Max (set gs) = Min (set gs) then choice (ts_log st) mod length gs else argmin gs)"
  have i: "i < n \<and> f i = Min (set gs)"
  proof (cases "Max (set gs) = Min (set gs)")
    case True
    have "i < n" using len True by (simp add: i_def)
    then have "f i \<in> set gs" by (simp add: mem)
    then have "Min (set gs) \<le> f i" "f i \<le> Max (set gs)" by (simp_all add: mem)
    with True \<open>i < n\<close> show ?thesis by simp
  next
    case False
    with argmin_least [OF len(3)] len(1) show ?thesis by (auto simp: i_def gs_def)
  qed
  moreover have "f i \<le> f j" if "j < n" for j using i that by (simp add: mem)
  ultimately have "steepest_live cfg st i" using neg f(1,3) unfolding steepest_live_def n_def by metis
  then show ?thesis using run unfolding i_def by blast
qed

lemma measured_round:
  assumes "measured cfg st" "i < tc_n cfg" "policy i (ts_log st) = (num, lat)" "0 < lat"
  shows "measured cfg (apply_round cfg i num lat st)"
proof -
  have "ts_log (apply_round cfg i num lat st) = ts_log st @ [(i, num, lat)]"
    by (simp add: apply_round_def Let_def)
  then show ?thesis using assms accounts_round by (auto simp: measured_def)
qed

text \<open>The policies of the interpretation measure positive latencies only.\<close>

definition positive :: "policy \<Rightarrow> bool" where
  "positive policy \<longleftrightarrow> (\<forall>i rl. 0 < snd (policy i rl))"

text \<open>
  The rounds of a run, replayed: the state they lead to, and what the policies gave in them. The best
  score and its time, which the loop notes between rounds, do not matter to the strategy.
\<close>

definition played :: "sched_cfg \<Rightarrow> sched \<Rightarrow> round_log \<Rightarrow> sched" where
  "played cfg st rl = fold (\<lambda>(i, num, lat). apply_round cfg i num lat) rl st"

definition followed :: "sched_cfg \<Rightarrow> policy \<Rightarrow> sched \<Rightarrow> sched \<Rightarrow> bool" where
  "followed cfg policy st0 st \<longleftrightarrow>
     st = (played cfg st0 (ts_log st))\<lparr>ts_best_score := ts_best_score st, ts_best_ct := ts_best_ct st\<rparr> \<and>
     (\<forall>k<length (ts_log st). policy (fst (ts_log st ! k)) (take k (ts_log st)) = snd (ts_log st ! k))"

definition steepest :: "sched_cfg \<Rightarrow> sched \<Rightarrow> round_log \<Rightarrow> bool" where
  "steepest cfg st0 rl \<longleftrightarrow> tc_n cfg \<le> length rl \<and> {..<tc_n cfg} = fst ` set (take (tc_n cfg) rl) \<and>
     (\<forall>k<length rl. tc_n cfg \<le> k \<longrightarrow> steepest_live cfg (played cfg st0 (take k rl)) (fst (rl ! k)))"

lemma log_round [simp]: "ts_log (apply_round cfg i num lat st) = ts_log st @ [(i, num, lat)]"
  by (simp add: apply_round_def Let_def)

lemma noted_round:
  "apply_round cfg i num lat (st\<lparr>ts_best_score := s, ts_best_ct := c\<rparr>) =
   (apply_round cfg i num lat st)\<lparr>ts_best_score := s, ts_best_ct := c\<rparr>"
  "ts_best_score (apply_round cfg i num lat st) = ts_best_score st"
  "ts_best_ct (apply_round cfg i num lat st) = ts_best_ct st"
  by (simp_all add: apply_round_def Let_def)

lemma followed_round:
  assumes "followed cfg policy st0 st" "policy i (ts_log st) = (num, lat)"
  shows "followed cfg policy st0 (apply_round cfg i num lat st)"
proof -
  let ?s = "played cfg st0 (ts_log st)"
  have st: "st = ?s\<lparr>ts_best_score := ts_best_score st, ts_best_ct := ts_best_ct st\<rparr>"
    using assms(1) by (simp add: followed_def)
  have "apply_round cfg i num lat st = apply_round cfg i num lat
      (?s\<lparr>ts_best_score := ts_best_score st, ts_best_ct := ts_best_ct st\<rparr>)" using st by (rule arg_cong)
  also have "\<dots> = (played cfg st0 (ts_log st @ [(i, num, lat)]))
      \<lparr>ts_best_score := ts_best_score st, ts_best_ct := ts_best_ct st\<rparr>" by (simp add: noted_round(1) played_def)
  finally have new: "apply_round cfg i num lat st = (played cfg st0 (ts_log st @ [(i, num, lat)]))
      \<lparr>ts_best_score := ts_best_score st, ts_best_ct := ts_best_ct st\<rparr>" .
  have "\<forall>k<length (ts_log st). policy (fst (ts_log st ! k)) (take k (ts_log st)) = snd (ts_log st ! k)"
    using assms(1) by (simp add: followed_def)
  then have "\<forall>k<length (ts_log st @ [(i, num, lat)]). policy (fst ((ts_log st @ [(i, num, lat)]) ! k))
      (take k (ts_log st @ [(i, num, lat)])) = snd ((ts_log st @ [(i, num, lat)]) ! k)"
    using assms(2) by (auto simp: nth_append less_Suc_eq)
  then show ?thesis unfolding followed_def log_round noted_round(2,3) using new by (intro conjI)
qed

lemma steepest_round:
  assumes "steepest cfg st0 rl" "steepest_live cfg (played cfg st0 rl) i"
  shows "steepest cfg st0 (rl @ [(i, num, lat)])"
  using assms by (auto simp: steepest_def nth_append less_Suc_eq)

lemma steepest_live_noted:
  "steepest_live cfg (st\<lparr>ts_best_score := s, ts_best_ct := c\<rparr>) i \<longleftrightarrow> steepest_live cfg st i"
  by (simp add: steepest_live_def gradient_def)

lemma followed_steepest:
  "followed cfg policy st0 st \<Longrightarrow> steepest_live cfg st i \<Longrightarrow> steepest_live cfg (played cfg st0 (ts_log st)) i"
  unfolding followed_def by (metis steepest_live_noted)

lemma followed_noted:
  assumes "followed cfg policy st0 st"
  shows "followed cfg policy st0 (st\<lparr>ts_best_score := s, ts_best_ct := c\<rparr>)"
    "followed cfg policy st0 (st\<lparr>ts_best_ct := c, ts_best_score := s\<rparr>)"
proof -
  let ?s = "played cfg st0 (ts_log st)"
  define st1 where "st1 = st\<lparr>ts_best_score := s, ts_best_ct := c\<rparr>"
  have st: "st = ?s\<lparr>ts_best_score := ts_best_score st, ts_best_ct := ts_best_ct st\<rparr>"
    and answers: "\<forall>k<length (ts_log st). policy (fst (ts_log st ! k)) (take k (ts_log st)) = snd (ts_log st ! k)"
    using assms by (simp_all add: followed_def)
  have "st1 = ?s\<lparr>ts_best_score := ts_best_score st, ts_best_ct := ts_best_ct st\<rparr>\<lparr>ts_best_score := s, ts_best_ct := c\<rparr>"
    unfolding st1_def using st by (rule arg_cong)
  then have eq: "st1 = ?s\<lparr>ts_best_score := s, ts_best_ct := c\<rparr>" by simp
  have same: "ts_log st1 = ts_log st" "ts_best_score st1 = s" "ts_best_ct st1 = c" by (simp_all add: st1_def)
  have "followed cfg policy st0 st1" unfolding followed_def same using eq answers by (intro conjI)
  then show "followed cfg policy st0 (st\<lparr>ts_best_score := s, ts_best_ct := c\<rparr>)" by (simp add: st1_def)
  moreover have "st\<lparr>ts_best_ct := c, ts_best_score := s\<rparr> = st\<lparr>ts_best_score := s, ts_best_ct := c\<rparr>" by (cases st) simp
  ultimately show "followed cfg policy st0 (st\<lparr>ts_best_ct := c, ts_best_score := s\<rparr>)" by (simp only:)
qed

text \<open>After the warm-up every task has had one round.\<close>

lemma steepest_start:
  assumes "accounts cfg st" "\<forall>i<tc_n cfg. ts_cts st ! i = 1" "length (ts_log st) = sum_list (ts_cts st)"
  shows "steepest cfg st0 (ts_log st)"
proof -
  have l: "length (ts_cts st) = tc_n cfg" using assms(1) by (simp add: accounts_def)
  then have "ts_cts st = replicate (tc_n cfg) 1" using assms(2) by (intro nth_equalityI) simp_all
  then have n: "length (ts_log st) = tc_n cfg" using assms(3) by (simp add: sum_list_replicate)
  have "i \<in> fst ` set (ts_log st)" if "i < tc_n cfg" for i
  proof -
    have "length (lats i (ts_log st)) = 1" using assms(1,2) that by (simp add: accounts_def)
    then show ?thesis by (auto simp: lats_def length_Suc_conv filter_eq_Cons_iff)
  qed
  then have sub: "{..<tc_n cfg} \<subseteq> fst ` set (ts_log st)" by auto
  have "card (fst ` set (ts_log st)) \<le> tc_n cfg" using card_image_le [of "set (ts_log st)" fst] card_length [of "ts_log st"] n by simp
  then have "{..<tc_n cfg} = fst ` set (ts_log st)"
    using card_mono [OF _ sub] by (intro card_subset_eq [OF _ sub]) simp_all
  then show ?thesis using n by (simp add: steepest_def)
qed

lemma descends_round:
  assumes "descends cfg st" "i < tc_n cfg" "policy i (ts_log st) = (num, lat)" "positive policy"
  shows "descends cfg (apply_round cfg i num lat st)"
proof -
  have "0 < lat" using assms(3,4) unfolding positive_def by (metis snd_conv)
  then have m: "measured cfg (apply_round cfg i num lat st)"
    using assms by (intro measured_round [where policy = policy]) (simp_all add: descends_def)
  have "ts_cts (apply_round cfg i num lat st) = (ts_cts st)[i := ts_cts st ! i + 1]"
    by (simp add: apply_round_def Let_def)
  then have "\<forall>j<tc_n cfg. 0 < ts_cts (apply_round cfg i num lat st) ! j"
    using assms(1) by (cases "i < length (ts_cts st)") (simp_all add: descends_def nth_list_update list_update_beyond)
  with m assms(1) show ?thesis by (simp add: descends_def)
qed

interpretation grads: task_strategy cfg policy "select_task choice cfg"
    "\<lambda>t st. positive policy \<and> descends cfg st \<and> followed cfg policy st0 st \<and> steepest cfg st0 (ts_log st)"
  for cfg policy choice st0
proof unfold_locales
  fix t st
  assume inv: "positive policy \<and> descends cfg st \<and> followed cfg policy st0 st \<and> steepest cfg st0 (ts_log st)"
  then show "quiet cfg \<and> accounts cfg st" by (simp add: descends_def measured_def)
  let ?noted = "\<lambda>s c. st\<lparr>ts_best_score := s, ts_best_ct := c\<rparr>"
  have "followed cfg policy st0 (?noted s c)" for s c using inv followed_noted(1) by simp
  then show "positive policy \<and> descends cfg (?noted s c) \<and> followed cfg policy st0 (?noted s c) \<and>
      steepest cfg st0 (ts_log (?noted s c))" for s c
    using inv by (simp add: descends_def measured_def)
  assume card: "card (ts_dead st) < tc_n cfg"
  have ex: "\<exists>i. select_task choice cfg t st = Inr i \<and> steepest_live cfg st i"
    using by_gradient_live [of cfg st choice t] inv card by blast
  then show "\<exists>i. select_task choice cfg t st = Inr i \<and> i < tc_n cfg \<and> i \<notin> ts_dead st"
    by (auto simp: steepest_live_def)
  fix i num lat
  assume sel: "select_task choice cfg t st = Inr i" and p: "policy i (ts_log st) = (num, lat)"
  have live: "steepest_live cfg st i" using ex sel by auto
  then have "steepest cfg st0 (ts_log st @ [(i, num, lat)])"
    using inv by (intro steepest_round followed_steepest [where policy = policy]) simp_all
  moreover have "i < tc_n cfg" using live by (simp add: steepest_live_def)
  ultimately show "positive policy \<and> descends cfg (apply_round cfg i num lat st) \<and>
      followed cfg policy st0 (apply_round cfg i num lat st) \<and> steepest cfg st0 (ts_log (apply_round cfg i num lat st))"
    using inv p descends_round followed_round by simp
qed

section \<open>Tuning from a fresh scheduler\<close>

lemma fresh:
  assumes "new_sched cfg = Inr st"
  shows "tc_n cfg \<noteq> 0 \<and> measured cfg (st\<lparr>ts_ct := 0, ts_best_ct := 0, ts_nmeas := m\<rparr>) \<and>
    (\<forall>i<tc_n cfg. ts_cts st ! i = 0) \<and> length (ts_best st) = tc_n cfg"
  using assms
  by (auto simp: new_sched_def bindR_Inr_iff guardR_def Let_def measured_def accounts_def lats_def split: if_splits)

text \<open>\<open>tune\<close> is the warm-up and the loop when there are enough trials and the policies are made.\<close>

lemma tune_fresh:
  assumes "tc_n cfg \<le> tc_trials cfg" "0 < mpr" "tc_n cfg \<noteq> 0"
  shows "tune choice cfg mpr None (Inr ()) policy fuel st =
    bindR (warm_up cfg policy (st\<lparr>ts_ct := 0, ts_best_ct := 0, ts_nmeas := min mpr (tc_trials cfg div tc_n cfg)\<rparr>))
      (\<lambda>st2. sched_loop cfg policy (select_task choice cfg) fuel (-1)
         (st2\<lparr>ts_best_ct := ts_ct st2, ts_best_score := ts_score st2\<rparr>))"
proof -
  have "0 < min mpr (tc_trials cfg div tc_n cfg)" using assms by (simp add: div_greater_zero_iff)
  then show ?thesis by (simp add: tune_def Let_def guardR_def)
qed

text \<open>
  C5. Tuning a fresh scheduler round robin ends, whatever the rounds of the search policies give:
  with fuel for one round per trial and per task it returns a state in which the trials are used
  up, every task is dead or nothing has improved for long enough. Every task has had a round,
  the bookkeeping (rounds, best latencies, histories, trials) is that of the rounds made, and no
  live task is more than one round behind another.
\<close>

theorem round_robin_tunes_fairly:
  assumes "new_sched cfg = Inr st" "tc_strategy cfg = ''round-robin''" "quiet cfg"
    and "tc_n cfg \<le> tc_trials cfg" "0 < mpr" "tc_trials cfg + tc_n cfg < fuel"
  shows "\<exists>st'. tune choice cfg mpr None (Inr ()) policy fuel st = Inr st' \<and> stopped cfg st' \<and>
    accounts cfg st' \<and> (\<forall>i<tc_n cfg. 0 < ts_cts st' ! i) \<and>
    (\<forall>i<tc_n cfg. \<forall>j<tc_n cfg. i \<notin> ts_dead st' \<longrightarrow> j \<notin> ts_dead st' \<longrightarrow> ts_cts st' ! i \<le> ts_cts st' ! j + 1)"
proof -
  define st0 where "st0 = st\<lparr>ts_ct := 0, ts_best_ct := 0, ts_nmeas := min mpr (tc_trials cfg div tc_n cfg)\<rparr>"
  have f: "tc_n cfg \<noteq> 0" "accounts cfg st0" "\<forall>i<tc_n cfg. ts_cts st0 ! i = 0"
    using fresh [OF assms(1)] by (simp_all add: measured_def st0_def)
  have "\<exists>st2. warm_up cfg policy st0 = Inr st2 \<and> (quiet cfg \<and> accounts cfg st2) \<and>
      (\<forall>i<tc_n cfg. ts_cts st2 ! i = (if ts_cts st0 ! i = 0 then 1 else ts_cts st0 ! i))"
    by (rule warm_up_ok) (use assms(3) f(2) accounts_round in auto)
  then obtain st2 where w: "warm_up cfg policy st0 = Inr st2" "accounts cfg st2" "\<forall>i<tc_n cfg. ts_cts st2 ! i = 1"
    using f(3) by auto
  let ?st3 = "st2\<lparr>ts_best_ct := ts_ct st2, ts_best_score := ts_score st2\<rparr>"
  have "in_turn cfg (-1) ?st3" using f(1) assms(2,3) w(2,3)
    by (auto simp: in_turn_def balanced_def)
  moreover have "tc_trials cfg - ts_ct ?st3 + (tc_n cfg - card (ts_dead ?st3)) < fuel" using assms(6) by linarith
  ultimately obtain st' t' where
    "sched_loop cfg policy (select_task choice cfg) fuel (-1) ?st3 = Inr st'" "in_turn cfg t' st'" "stopped cfg st'"
    using turns.loop_ends [of cfg "-1" ?st3 fuel policy choice] by blast
  moreover from this(2) obtain c where
    c: "\<forall>j<tc_n cfg. j \<notin> ts_dead st' \<longrightarrow> int (ts_cts st' ! j) = c + (if int j \<le> t' then 1 else 0)"
    by (auto simp: in_turn_def balanced_def)
  then have "ts_cts st' ! i \<le> ts_cts st' ! j + 1"
    if "i < tc_n cfg" "j < tc_n cfg" "i \<notin> ts_dead st'" "j \<notin> ts_dead st'" for i j
  proof -
    have "int (ts_cts st' ! i) \<le> c + 1" "c \<le> int (ts_cts st' ! j)" using c that by simp_all
    then show ?thesis by linarith
  qed
  ultimately show ?thesis using w(1) tune_fresh [OF assms(4,5) f(1)] by (simp add: st0_def in_turn_def)
qed

definition two_tasks :: "string \<Rightarrow> callback list \<Rightarrow> weights \<Rightarrow> sched_cfg" where
  "two_tasks strategy cbs ws =
     \<lparr>tc_n = 2, tc_objective = make_objective None (Some ws), tc_strategy = strategy, tc_alpha = 1 / 5, tc_beta = 2,
      tc_window = 3, tc_callbacks = cbs, tc_verbose = 1, tc_trials = 10, tc_early_all = 100, tc_early_task = 100\<rparr>"

lemma round_robin_tunes_fairly_witness:
  "let cfg = two_tasks ''round-robin'' [LogEstimatedLatency] (ImmWeights [1, 2]);
      policy = (\<lambda>i rl. (2, if length rl < 4 then 3 else 1)) in
   \<exists>st st'. new_sched cfg = Inr st \<and> tune (\<lambda>_. 0) cfg 2 None (Inr ()) policy 13 st = Inr st' \<and>
     0 < ts_cts st' ! 0 \<and> 0 < ts_cts st' ! 1"
proof -
  let ?cfg = "two_tasks ''round-robin'' [LogEstimatedLatency] (ImmWeights [1, 2])"
  let ?policy = "\<lambda>(i :: nat) (rl :: round_log). (2 :: nat, if length rl < 4 then 3 else 1 :: rat)"
  obtain st where st: "new_sched ?cfg = Inr st" by (simp add: new_sched_def two_tasks_def Let_def)
  have "\<exists>st'. tune (\<lambda>_. 0) ?cfg 2 None (Inr ()) ?policy 13 st = Inr st' \<and> stopped ?cfg st' \<and>
    accounts ?cfg st' \<and> (\<forall>i<tc_n ?cfg. 0 < ts_cts st' ! i) \<and>
    (\<forall>i<tc_n ?cfg. \<forall>j<tc_n ?cfg. i \<notin> ts_dead st' \<longrightarrow> j \<notin> ts_dead st' \<longrightarrow> ts_cts st' ! i \<le> ts_cts st' ! j + 1)"
    by (rule round_robin_tunes_fairly [OF st]) (simp_all add: two_tasks_def quiet_def make_objective_def)
  moreover have "tc_n ?cfg = 2" by (simp add: two_tasks_def)
  ultimately show ?thesis using st unfolding Let_def by auto
qed

text \<open>
  C15. Tuning a fresh scheduler by gradient ends, in exact arithmetic, when the objective falls with
  every single latency, latencies are positive and the parameters are in their documented ranges: the
  assertion on the sign of a gradient never fails. Every round measures what the policy of its task
  gives, and the bookkeeping is that of the rounds made. Each task has a round in the warm-up; every
  later round goes to a task that is alive at that time and whose gradient is the least of all tasks.
  So no dead task is ever chosen. The state at the time of a round is that of replaying the rounds
  before it.
\<close>

theorem gradient_tunes:
  assumes "new_sched cfg = Inr st" "tc_strategy cfg = ''gradient''" "quiet cfg"
    and "tc_n cfg \<le> tc_trials cfg" "0 < mpr" "tc_trials cfg + tc_n cfg < fuel"
    and "notices cfg" "0 \<le> tc_alpha cfg" "tc_alpha cfg < 1" "0 < tc_window cfg" "positive policy"
    and "st0 = st\<lparr>ts_ct := 0, ts_best_ct := 0, ts_nmeas := min mpr (tc_trials cfg div tc_n cfg)\<rparr>"
  shows "\<exists>st'. tune choice cfg mpr None (Inr ()) policy fuel st = Inr st' \<and> stopped cfg st' \<and>
    accounts cfg st' \<and> (\<forall>i<tc_n cfg. 0 < ts_cts st' ! i) \<and>
    (\<forall>k<length (ts_log st'). policy (fst (ts_log st' ! k)) (take k (ts_log st')) = snd (ts_log st' ! k)) \<and>
    tc_n cfg \<le> length (ts_log st') \<and> {..<tc_n cfg} = fst ` set (take (tc_n cfg) (ts_log st')) \<and>
    (\<forall>k<length (ts_log st'). tc_n cfg \<le> k \<longrightarrow>
       (let s = played cfg st0 (take k (ts_log st')); i = fst (ts_log st' ! k) in
        i < tc_n cfg \<and> i \<notin> ts_dead s \<and>
        (\<exists>g<0. gradient cfg s i = Inr g \<and> (\<forall>j<tc_n cfg. \<exists>g'. gradient cfg s j = Inr g' \<and> g \<le> g'))))"
proof -
  have f: "tc_n cfg \<noteq> 0" "measured cfg st0" "\<forall>i<tc_n cfg. ts_cts st0 ! i = 0" "ts_log st0 = []"
    using fresh [OF assms(1)] assms(1,12)
    by (simp_all add: measured_def) (auto simp: new_sched_def bindR_Inr_iff guardR_def Let_def split: if_splits)
  define warm where "warm s \<longleftrightarrow> quiet cfg \<and> measured cfg s \<and> followed cfg policy st0 s \<and>
    length (ts_log s) = sum_list (ts_cts s)" for s
  have step: "warm (apply_round cfg i num lat s)"
    if "warm s" "i < tc_n cfg" "policy i (ts_log s) = (num, lat)" for s i num lat
  proof -
    have "0 < lat" using assms(11) that(3) unfolding positive_def by (metis snd_conv)
    moreover have "length (ts_cts s) = tc_n cfg" using that(1) by (simp add: warm_def measured_def accounts_def)
    then have "sum_list (ts_cts (apply_round cfg i num lat s)) = Suc (sum_list (ts_cts s))"
      using that(2) by (simp add: apply_round_def Let_def sum_list_update)
    ultimately show ?thesis using that measured_round followed_round by (auto simp: warm_def)
  qed
  have "sum_list (ts_cts st0) = 0"
    using f(2,3) by (auto simp: measured_def accounts_def in_set_conv_nth)
  then have "warm st0" using assms(3) f(2,4) by (simp add: warm_def followed_def played_def)
  then have "\<exists>st2. warm_up cfg policy st0 = Inr st2 \<and> warm st2 \<and>
      (\<forall>i<tc_n cfg. ts_cts st2 ! i = (if ts_cts st0 ! i = 0 then 1 else ts_cts st0 ! i))"
    by (intro warm_up_ok step) (auto simp: warm_def measured_def)
  then obtain st2 where w: "warm_up cfg policy st0 = Inr st2" "warm st2" "\<forall>i<tc_n cfg. ts_cts st2 ! i = 1"
    using f(3) by auto
  let ?st3 = "st2\<lparr>ts_best_ct := ts_ct st2, ts_best_score := ts_score st2\<rparr>"
  have "steepest cfg st0 (ts_log st2)" using w(2,3) by (intro steepest_start) (auto simp: warm_def measured_def)
  moreover have "followed cfg policy st0 ?st3" using w(2) followed_noted by (simp add: warm_def)
  moreover have "descends cfg ?st3"
    using w(2,3) f(1) assms(2,3,7-10) by (simp add: warm_def descends_def measured_def)
  ultimately have "positive policy \<and> descends cfg ?st3 \<and> followed cfg policy st0 ?st3 \<and> steepest cfg st0 (ts_log ?st3)"
    using assms(11) by simp
  moreover have "tc_trials cfg - ts_ct ?st3 + (tc_n cfg - card (ts_dead ?st3)) < fuel" using assms(6) by linarith
  ultimately obtain st' where
    "sched_loop cfg policy (select_task choice cfg) fuel (-1) ?st3 = Inr st'" "descends cfg st'"
    "followed cfg policy st0 st'" "steepest cfg st0 (ts_log st')" "stopped cfg st'"
    using grads.loop_ends [of policy cfg ?st3 st0 fuel choice "-1"] by blast
  then show ?thesis using w(1) tune_fresh [OF assms(4,5) f(1)]
    by (simp add: assms(12) descends_def measured_def followed_def steepest_def steepest_live_def Let_def)
qed

text \<open>A task that has measured nothing in some round is dead from then on.\<close>

lemma dead_after: "(i, 0, lat) \<in> set rl \<Longrightarrow> i \<in> ts_dead (played cfg st rl)"
  by (induction rl rule: rev_induct) (auto simp: played_def apply_round_def Let_def)

lemma gradient_tunes_witness:
  "let cfg = two_tasks ''gradient'' [LogEstimatedLatency] (ImmWeights [1, 2]);
      policy = (\<lambda>i rl. (if i = 0 then 0 else 2, if length rl < 4 then 3 else 1)) in
   \<exists>st st'. new_sched cfg = Inr st \<and> tune (\<lambda>_. 0) cfg 2 None (Inr ()) policy 13 st = Inr st' \<and>
     (\<forall>k<length (ts_log st'). 2 \<le> k \<longrightarrow> fst (ts_log st' ! k) = 1)"
proof -
  let ?cfg = "two_tasks ''gradient'' [LogEstimatedLatency] (ImmWeights [1, 2])"
  let ?policy = "\<lambda>(i :: nat) (rl :: round_log). (if i = 0 then 0 else 2 :: nat, if length rl < 4 then 3 else 1 :: rat)"
  obtain st where st: "new_sched ?cfg = Inr st" by (simp add: new_sched_def two_tasks_def Let_def)
  have n: "notices ?cfg"
    by (rule weighted_notices [of _ "[1, 2]"]) (simp add: two_tasks_def make_objective_def weighted_def)
  have p: "positive ?policy" by (simp add: positive_def)
  have q: "quiet ?cfg" by (simp add: two_tasks_def quiet_def make_objective_def)
  have c: "tc_n ?cfg = 2" "tc_trials ?cfg = 10" "tc_strategy ?cfg = ''gradient''" "0 \<le> tc_alpha ?cfg"
    "tc_alpha ?cfg < 1" "0 < tc_window ?cfg" by (simp_all add: two_tasks_def)
  define st0 where "st0 = st\<lparr>ts_ct := 0, ts_best_ct := 0, ts_nmeas := min 2 (tc_trials ?cfg div tc_n ?cfg)\<rparr>"
  have "tc_n ?cfg \<le> tc_trials ?cfg" "0 < (2 :: nat)" "tc_trials ?cfg + tc_n ?cfg < 13" by (simp_all add: c(1,2))
  note run = gradient_tunes [OF st c(3) q this n c(4-6) p st0_def, of "\<lambda>_. 0", unfolded Let_def c(1)]
  obtain st' where st': "tune (\<lambda>_. 0) ?cfg 2 None (Inr ()) ?policy 13 st = Inr st'"
    "\<forall>k<length (ts_log st'). ?policy (fst (ts_log st' ! k)) (take k (ts_log st')) = snd (ts_log st' ! k)"
    "2 \<le> length (ts_log st')" "{..<2} = fst ` set (take 2 (ts_log st'))"
    "\<forall>k<length (ts_log st'). 2 \<le> k \<longrightarrow> fst (ts_log st' ! k) < 2 \<and>
       fst (ts_log st' ! k) \<notin> ts_dead (played ?cfg st0 (take k (ts_log st')))"
    using run by (elim exE conjE) (rule that, assumption+, blast)
  have "0 \<in> fst ` set (take 2 (ts_log st'))" using st'(4) by (metis lessThan_iff zero_less_numeral)
  then obtain m where m: "m < 2" "fst (ts_log st' ! m) = 0" using st'(3) by (auto simp: in_set_conv_nth)
  have len: "m < length (ts_log st')" using m(1) st'(3) by simp
  have "?policy 0 (take m (ts_log st')) = snd (ts_log st' ! m)" using st'(2) [rule_format, OF len] unfolding m(2) .
  then have "fst (snd (ts_log st' ! m)) = 0" by (metis fst_conv)
  then obtain lat where e: "ts_log st' ! m = (0, 0, lat)" using m(2) by (metis prod.collapse)
  have "fst (ts_log st' ! k) = 1" if k: "k < length (ts_log st')" "2 \<le> k" for k
  proof -
    have "m < length (take k (ts_log st'))" "take k (ts_log st') ! m = ts_log st' ! m" using m(1) k by simp_all
    then have "(0, 0, lat) \<in> set (take k (ts_log st'))" using nth_mem [of m "take k (ts_log st')"] e by simp
    then have "0 \<in> ts_dead (played ?cfg st0 (take k (ts_log st')))" by (rule dead_after)
    moreover have later: "fst (ts_log st' ! k) < 2" "fst (ts_log st' ! k) \<notin> ts_dead (played ?cfg st0 (take k (ts_log st')))"
      using st'(5) k by blast+
    ultimately have "fst (ts_log st' ! k) \<noteq> 0" by metis
    then show ?thesis using later(1) by linarith
  qed
  with st st'(1) show ?thesis unfolding Let_def by blast
qed

section \<open>The callbacks and the objective\<close>

lemma pre_tune_error: "pre_tune cfg st = Inl e \<Longrightarrow> e = AttributeError"
proof -
  have "foldR (\<lambda>cb _. f cb) cbs () = Inl e \<Longrightarrow> \<exists>cb. f cb = Inl e" for f :: "callback \<Rightarrow> unit res" and cbs
    by (induction cbs) (auto simp: bindR_Inl_iff)
  then show "pre_tune cfg st = Inl e \<Longrightarrow> e = AttributeError"
    by (force simp: pre_tune_def read_value_def guardR_def split: callback.splits if_splits)
qed

lemma post_tune_raises:
  assumes "LogEstimatedLatency \<in> set (tc_callbacks cfg)" "\<not> has_value (ts_score st)"
  shows "post_tune cfg st = (if all_known (ts_best st) then Inl AttributeError else Inr ())"
proof -
  have "foldR (\<lambda>cb _. case cb of PrintTableInfo \<Rightarrow> Inr () | LogEstimatedLatency \<Rightarrow> read_value st
      | OtherCallback \<Rightarrow> Inr ()) cbs () =
    (if all_known (ts_best st) \<and> LogEstimatedLatency \<in> set cbs then Inl AttributeError else Inr ())" for cbs
    using assms(2) by (induction cbs) (auto simp: read_value_def guardR_def split: callback.split)
  then show ?thesis using assms(1) by (simp add: post_tune_def)
qed

text \<open>
  One task of the warm-up with a float objective: the callback raises as soon as every task has a
  cost, and before that the task's first round leaves it with one.
\<close>

lemma warm_up_turn:
  assumes "LogEstimatedLatency \<in> set (tc_callbacks cfg)" "\<And>best. \<not> has_value (tc_objective cfg best)"
    and "snd (policy k (ts_log s)) < 10 ^ 9" "k < length (ts_best s)"
  shows "case tune_task cfg policy k s of Inl e \<Rightarrow> e = AttributeError
    | Inr s' \<Rightarrow> length (ts_best s') = length (ts_best s) \<and> ts_best s' ! k < 10 ^ 9 \<and> \<not> all_known (ts_best s') \<and>
        (\<forall>i. i \<noteq> k \<longrightarrow> ts_best s' ! i = ts_best s ! i \<and> ts_cts s' ! i = ts_cts s ! i)"
proof -
  obtain num lat where p: "policy k (ts_log s) = (num, lat)" by fastforce
  then have lat: "lat < 10 ^ 9" using assms(3) by simp
  define s' where "s' = apply_round cfg k num lat s"
  have b: "ts_best s' = (ts_best s)[k := min lat (ts_best s ! k)]" "ts_score s' = tc_objective cfg (ts_best s')"
    "ts_cts s' = (ts_cts s)[k := ts_cts s ! k + 1]"
    by (auto simp: s'_def apply_round_def Let_def min_def)
  have "ts_best s' ! k < 10 ^ 9" using lat assms(4) by (simp add: b(1))
  moreover have "tune_task cfg policy k s =
      bindR (pre_tune cfg s) (\<lambda>_. if all_known (ts_best s') then Inl AttributeError else Inr s')"
    using post_tune_raises [OF assms(1), of s'] assms(2) b(2) by (simp add: tune_task_def p s'_def)
  ultimately show ?thesis using b(1,3) pre_tune_error [of cfg s] by (cases "pre_tune cfg s") auto
qed

text \<open>
  With an objective whose value is a Python number, as the default sum or weights given as
  floats are, and the default callback \<open>LogEstimatedLatency\<close>, tuning a fresh scheduler never gets
  through the warm-up: \<open>cur_score.value\<close> raises \<open>AttributeError\<close> at the latest when every task has
  a latency.
\<close>

lemma float_objective_raises:
  assumes "new_sched cfg = Inr st" "LogEstimatedLatency \<in> set (tc_callbacks cfg)"
    and "\<And>best. \<not> has_value (tc_objective cfg best)"
    and "\<And>i rl. snd (policy i rl) < 10 ^ 9" "tc_n cfg \<le> tc_trials cfg" "0 < mpr"
  shows "tune choice cfg mpr None (Inr ()) policy fuel st = Inl AttributeError"
proof -
  define st0 where "st0 = st\<lparr>ts_ct := 0, ts_best_ct := 0, ts_nmeas := min mpr (tc_trials cfg div tc_n cfg)\<rparr>"
  have f: "tc_n cfg \<noteq> 0" "\<forall>i<tc_n cfg. ts_cts st0 ! i = 0" "length (ts_best st0) = tc_n cfg"
    using fresh [OF assms(1)] by (simp_all add: st0_def)
  let ?f = "\<lambda>idx st. if ts_cts st ! idx = 0 then tune_task cfg policy idx st else Inr st"
  have "case foldR ?f [0..<k] st0 of Inl e \<Rightarrow> e = AttributeError
      | Inr s \<Rightarrow> length (ts_best s) = tc_n cfg \<and> (\<forall>i<k. ts_best s ! i < 10 ^ 9) \<and>
          (\<forall>i<tc_n cfg. k \<le> i \<longrightarrow> ts_cts s ! i = 0) \<and> (0 < k \<longrightarrow> \<not> all_known (ts_best s))"
    if "k \<le> tc_n cfg" for k
    using that
  proof (induction k)
    case 0
    then show ?case using f by simp
  next
    case (Suc k)
    show ?case
    proof (cases "foldR ?f [0..<k] st0")
      case (Inl e)
      with Suc show ?thesis by (simp add: foldR_append)
    next
      case (Inr s)
      with Suc have s: "length (ts_best s) = tc_n cfg" "\<forall>i<k. ts_best s ! i < 10 ^ 9"
        "\<forall>i<tc_n cfg. k \<le> i \<longrightarrow> ts_cts s ! i = 0" by simp_all
      have "foldR ?f [0..<Suc k] st0 = tune_task cfg policy k s"
        using Inr s(3) Suc.prems by (cases "tune_task cfg policy k s") (simp_all add: foldR_append)
      moreover note warm_up_turn [of cfg policy k s, OF assms(2,3,4)]
      ultimately show ?thesis using s Suc.prems
        by (cases "tune_task cfg policy k s") (simp_all add: less_Suc_eq del: upt_Suc)
    qed
  qed
  from this [OF order_refl] have "warm_up cfg policy st0 = Inl AttributeError"
    using f(1) by (auto simp: warm_up_def all_known_def in_set_conv_nth split: sum.splits)
  then show ?thesis using tune_fresh [OF assms(5,6) f(1)] by (simp add: st0_def)
qed

end
