(* ===== verification/StateExc.thy ===== *)
theory StateExc
  imports Prelude
begin

text \<open>
  Stateful code whose exceptions leave behind the changes made so far: a computation gives a
  result or an exception, and the new state in both cases.
\<close>

type_synonym ('s, 'a) sx = "'s \<Rightarrow> 'a res \<times> 's"

definition retS :: "'a \<Rightarrow> ('s, 'a) sx" where
  "retS x = (\<lambda>s. (Inr x, s))"

definition raiseS :: "exc \<Rightarrow> ('s, 'a) sx" where
  "raiseS e = (\<lambda>s. (Inl e, s))"

definition liftS :: "'a res \<Rightarrow> ('s, 'a) sx" where
  "liftS r = (\<lambda>s. (r, s))"

definition bindS :: "('s, 'a) sx \<Rightarrow> ('a \<Rightarrow> ('s, 'b) sx) \<Rightarrow> ('s, 'b) sx" where
  "bindS m f = (\<lambda>s. case m s of (Inl e, s') \<Rightarrow> (Inl e, s') | (Inr x, s') \<Rightarrow> f x s')"

definition thenS :: "('s, 'a) sx \<Rightarrow> ('s, 'b) sx \<Rightarrow> ('s, 'b) sx" where
  "thenS m n = bindS m (\<lambda>_. n)"

definition getS :: "('s \<Rightarrow> 'a) \<Rightarrow> ('s, 'a) sx" where
  "getS f = (\<lambda>s. (Inr (f s), s))"

definition modS :: "('s \<Rightarrow> 's) \<Rightarrow> ('s, unit) sx" where
  "modS f = (\<lambda>s. (Inr (), f s))"

definition guardS :: "bool \<Rightarrow> exc \<Rightarrow> ('s, unit) sx" where
  "guardS b e = (if b then retS () else raiseS e)"

text \<open>\<open>try: m; return True / except e: return False\<close>\<close>

definition tryS :: "exc \<Rightarrow> ('s, unit) sx \<Rightarrow> ('s, bool) sx" where
  "tryS e m = (\<lambda>s. case m s of
       (Inr _, s') \<Rightarrow> (Inr True, s')
     | (Inl e', s') \<Rightarrow> if e' = e then (Inr False, s') else (Inl e', s'))"

primrec forS :: "('a \<Rightarrow> ('s, unit) sx) \<Rightarrow> 'a list \<Rightarrow> ('s, unit) sx" where
  "forS f [] = retS ()"
| "forS f (x # xs) = thenS (f x) (forS f xs)"

section \<open>What every way out of a computation satisfies\<close>

text \<open>
  \<open>keeps P m\<close>: from a state with \<open>P\<close> the computation ends in one, whether it returns or raises.
\<close>

definition keeps :: "('s \<Rightarrow> bool) \<Rightarrow> ('s, 'a) sx \<Rightarrow> bool" where
  "keeps P m \<longleftrightarrow> (\<forall>s. P s \<longrightarrow> P (snd (m s)))"

lemma keepsD: "keeps P m \<Longrightarrow> P s \<Longrightarrow> P (snd (m s))"
  by (simp add: keeps_def)

named_theorems keeps_intros

lemma keeps_basic [keeps_intros, intro]:
  "keeps P (retS x)" "keeps P (raiseS e)" "keeps P (liftS r)" "keeps P (getS g)" "keeps P (guardS b e)"
  by (simp_all add: keeps_def retS_def raiseS_def liftS_def getS_def guardS_def)

lemma keeps_modS [keeps_intros]: "(\<And>s. P s \<Longrightarrow> P (f s)) \<Longrightarrow> keeps P (modS f)"
  by (simp add: keeps_def modS_def)

lemma keeps_bindS [keeps_intros]: "keeps P m \<Longrightarrow> (\<And>x. keeps P (f x)) \<Longrightarrow> keeps P (bindS m f)"
  unfolding keeps_def bindS_def by (auto split: prod.split sum.split; metis snd_conv)

lemma keeps_thenS [keeps_intros]: "keeps P m \<Longrightarrow> keeps P n \<Longrightarrow> keeps P (thenS m n)"
  by (simp add: thenS_def keeps_bindS)

lemma keeps_tryS [keeps_intros]: "keeps P m \<Longrightarrow> keeps P (tryS e m)"
  unfolding keeps_def tryS_def by (auto split: prod.split sum.split; metis snd_conv)

lemma keeps_forS [keeps_intros]: "(\<And>x. keeps P (f x)) \<Longrightarrow> keeps P (forS f xs)"
  by (induction xs) (auto intro: keeps_intros)

lemma keeps_if [keeps_intros]: "keeps P m \<Longrightarrow> keeps P n \<Longrightarrow> keeps P (if b then m else n)"
  by simp

text \<open>How a computation that returns was composed.\<close>

lemma bindS_Inr: "bindS m f s = (Inr y, t) \<longleftrightarrow> (\<exists>x u. m s = (Inr x, u) \<and> f x u = (Inr y, t))"
  by (auto simp: bindS_def split: prod.splits sum.splits)

lemma thenS_Inr: "thenS m n s = (Inr y, t) \<longleftrightarrow> (\<exists>x u. m s = (Inr x, u) \<and> n u = (Inr y, t))"
  by (simp add: thenS_def bindS_Inr)

lemma bindS_Inl: "bindS m f s = (Inl e, t) \<longleftrightarrow> m s = (Inl e, t) \<or> (\<exists>x u. m s = (Inr x, u) \<and> f x u = (Inl e, t))"
  by (auto simp: bindS_def split: prod.splits sum.splits)

lemma thenS_Inl: "thenS m n s = (Inl e, t) \<longleftrightarrow> m s = (Inl e, t) \<or> (\<exists>x u. m s = (Inr x, u) \<and> n u = (Inl e, t))"
  by (simp add: thenS_def bindS_Inl)

lemma basic_run [simp]:
  "retS x s = (Inr x, s)" "raiseS e s = (Inl e, s)" "liftS r s = (r, s)" "getS g s = (Inr (g s), s)"
  "modS h s = (Inr (), h s)" "guardS b e s = (if b then Inr () else Inl e, s)"
  by (simp_all add: retS_def raiseS_def liftS_def getS_def modS_def guardS_def)

lemma bindS_run: "m s = (Inr x, u) \<Longrightarrow> bindS m f s = f x u" "m s = (Inl e, u) \<Longrightarrow> bindS m f s = (Inl e, u)"
  by (simp_all add: bindS_def)

lemma thenS_run: "m s = (Inr x, u) \<Longrightarrow> thenS m n s = n u" "m s = (Inl e, u) \<Longrightarrow> thenS m n s = (Inl e, u)"
  by (simp_all add: thenS_def bindS_def)

text \<open>Exceptions that do not come out.\<close>

definition never :: "exc \<Rightarrow> ('s, 'a) sx \<Rightarrow> bool" where
  "never e m \<longleftrightarrow> (\<forall>s. fst (m s) \<noteq> Inl e)"

lemma never_basic:
  "never e (retS x)" "e' \<noteq> e \<Longrightarrow> never e (raiseS e')" "r \<noteq> Inl e \<Longrightarrow> never e (liftS r)" "never e (getS g)"
  "never e (modS h)" "e' \<noteq> e \<Longrightarrow> never e (guardS b e')" "never e (tryS e n)"
  by (auto simp: never_def tryS_def split: prod.split sum.split)

lemma never_bindS: "never e m \<Longrightarrow> (\<And>x. never e (f x)) \<Longrightarrow> never e (bindS m f)"
  by (auto simp: never_def bindS_def split: prod.split sum.split) (metis fst_conv)

lemma never_thenS: "never e m \<Longrightarrow> never e n \<Longrightarrow> never e (thenS m n)"
  by (simp add: thenS_def never_bindS)

lemma never_forS: "(\<And>x. never e (f x)) \<Longrightarrow> never e (forS f xs)"
  by (induction xs) (auto intro: never_thenS never_basic)

lemma never_tryS: "never e m \<Longrightarrow> never e (tryS e' m)"
  unfolding never_def tryS_def by (auto split: prod.split sum.split; metis fst_conv)

lemma never_read: "(\<And>s. g s \<noteq> Inl e) \<Longrightarrow> never e (\<lambda>s. (g s, s))"
  by (simp add: never_def)

lemma never_if: "never e m \<Longrightarrow> never e n \<Longrightarrow> never e (if b then m else n)"
  by simp

end
