(* ===== verification/Framing.thy ===== *)
theory Framing
  imports Prelude "HOL-Library.Word" "HOL-Library.Sublist"
begin

text \<open>
  The wire format of the RPC tracker: \<open>tvm/python/tvm/rpc/base.py\<close> and the framing loop
  \<open>TCPEventHandler.on_message\<close> of \<open>tvm/python/tvm/rpc/tracker.py\<close>. A message is its length as a
  little-endian signed 32-bit integer, then that many bytes. The JSON codec is a parameter.
\<close>

type_synonym bytes = "8 word list"

section \<open>\<open>struct.pack("<i", n)\<close> and \<open>struct.unpack("<i", b)\<close>\<close>

definition pack_i :: "int \<Rightarrow> bytes res" where
  "pack_i n =
     (if - (2 ^ 31) \<le> n \<and> n < 2 ^ 31
      then Inr [word_of_int n, word_of_int (n div 2 ^ 8), word_of_int (n div 2 ^ 16), word_of_int (n div 2 ^ 24)]
      else Inl StructError)"

fun unpack_i :: "bytes \<Rightarrow> int res" where
  "unpack_i [a, b, c, d] =
     (let n = uint a + 2 ^ 8 * uint b + 2 ^ 16 * uint c + 2 ^ 24 * uint d
      in Inr (if n < 2 ^ 31 then n else n - 2 ^ 32))"
| "unpack_i _ = Inl StructError"

section \<open>Receiving and sending\<close>

text \<open>
  The receiving side of a socket: the bytes that will still arrive before the peer closes, and how
  many of them each call of \<open>recv\<close> finds.
\<close>

record rx =
  rx_bytes :: bytes
  rx_sizes :: "nat \<Rightarrow> nat"
  rx_calls :: nat

definition recv :: "nat \<Rightarrow> rx \<Rightarrow> bytes \<times> rx" where
  "recv n s =
     (let k = min n (Suc (rx_sizes s (rx_calls s)))
      in (take k (rx_bytes s), s\<lparr>rx_bytes := drop k (rx_bytes s), rx_calls := Suc (rx_calls s)\<rparr>))"

text \<open>\<open>res\<close> is what was read so far; a negative \<open>nbytes\<close> reads nothing.\<close>

function recv_loop :: "int \<Rightarrow> bytes \<Rightarrow> rx \<Rightarrow> bytes res \<times> rx" where
  "recv_loop nbytes res s =
     (if int (length res) < nbytes then
        let (chunk, s') = recv (min (nat nbytes - length res) 1024) s in
        if chunk = [] then (Inl SocketError, s') else recv_loop nbytes (res @ chunk) s'
      else (Inr res, s))"
  by pat_completeness auto
termination
proof (relation "measure (\<lambda>(nbytes, res, s). nat nbytes - length res)")
  fix nbytes :: int and res chunk :: bytes and s s' x
  assume "int (length res) < nbytes" "x = recv (min (nat nbytes - length res) 1024) s" "(chunk, s') = x" "chunk \<noteq> []"
  then show "((nbytes, res @ chunk, s'), (nbytes, res, s)) \<in> measure (\<lambda>(nbytes, res, s). nat nbytes - length res)"
    by (cases chunk) auto
qed simp

declare recv_loop.simps [simp del]

definition recvall :: "int \<Rightarrow> rx \<Rightarrow> bytes res \<times> rx" where
  "recvall nbytes s = recv_loop nbytes [] s"

text \<open>
  UTF-8 of the characters that a \<open>string\<close> of this model holds, code points below 256. The length
  sent is that of the string.
\<close>

definition utf8 :: "string \<Rightarrow> bytes" where
  "utf8 s = concat (map (\<lambda>c. let n = of_char c :: int in
     if n < 128 then [word_of_int n] else [word_of_int (192 + n div 64), word_of_int (128 + n mod 64)]) s)"

definition sendjson :: "('v \<Rightarrow> string) \<Rightarrow> 'v \<Rightarrow> bytes res" where
  "sendjson dumps v =
     (let data = dumps v in bindR (pack_i (int (length data))) (\<lambda>hd. Inr (hd @ utf8 data)))"

text \<open>\<open>loads\<close> is \<open>json.loads\<close> after \<open>py_str\<close>.\<close>

definition recvjson :: "(bytes \<Rightarrow> 'v res) \<Rightarrow> rx \<Rightarrow> 'v res \<times> rx" where
  "recvjson loads s =
     (case recvall 4 s of
        (Inl e, s1) \<Rightarrow> (Inl e, s1)
      | (Inr b, s1) \<Rightarrow>
          (case unpack_i b of
             Inl e \<Rightarrow> (Inl e, s1)
           | Inr n \<Rightarrow>
               (case recvall n s1 of
                  (Inl e, s2) \<Rightarrow> (Inl e, s2)
                | (Inr d, s2) \<Rightarrow> (loads d, s2))))"

section \<open>The framing loop of the tracker\<close>

text \<open>\<open>_data\<close> and \<open>_msg_size\<close>; the size 0 stands for "not read yet".\<close>

record frame_st =
  fr_data :: bytes
  fr_size :: int

text \<open>Where a Python slice bound falls in a sequence of length \<open>n\<close>.\<close>

definition slice_bound :: "nat \<Rightarrow> int \<Rightarrow> nat" where
  "slice_bound n i = (if i < 0 then nat (int n + i) else min n (nat i))"

definition slice :: "'a list \<Rightarrow> int \<Rightarrow> int \<Rightarrow> 'a list" where
  "slice xs a b = drop (slice_bound (length xs) a) (take (slice_bound (length xs) b) xs)"

definition read_size :: "frame_st \<Rightarrow> int res option" where
  "read_size f =
     (if fr_size f = 0 then
        (if length (fr_data f) \<ge> 4 then Some (unpack_i (take 4 (fr_data f))) else None)
      else Some (Inr (fr_size f)))"

text \<open>
  One turn of \<open>while True\<close>: the payload that is complete, if any, and the state after it. A size of
  0 that was just read is still taken for "not read yet".
\<close>

definition next_frame :: "frame_st \<Rightarrow> bytes option \<times> frame_st" where
  "next_frame f =
     (case read_size f of
        None \<Rightarrow> (None, f)
      | Some (Inl e) \<Rightarrow> (None, f)
      | Some (Inr n) \<Rightarrow>
          if n \<noteq> 0 \<and> int (length (fr_data f)) \<ge> n + 4 then
            (Some (slice (fr_data f) 4 (4 + n)),
             \<lparr>fr_data = drop (slice_bound (length (fr_data f)) (4 + n)) (fr_data f), fr_size = 0\<rparr>)
          else (None, f\<lparr>fr_size := n\<rparr>))"

text \<open>All frames that are complete. Every turn but one of an empty payload consumes some bytes.\<close>

fun frames :: "nat \<Rightarrow> frame_st \<Rightarrow> bytes list \<times> frame_st" where
  "frames 0 f = ([], f)"
| "frames (Suc fuel) f =
     (case next_frame f of
        (None, f') \<Rightarrow> ([], f')
      | (Some p, f') \<Rightarrow> (let (ps, f'') = frames fuel f' in (p # ps, f'')))"

text \<open>A message arrives in pieces; each piece is appended and the complete frames are taken.\<close>

fun feed :: "bytes list \<Rightarrow> frame_st \<Rightarrow> bytes list \<times> frame_st" where
  "feed [] f = ([], f)"
| "feed (m # ms) f =
     (let data = fr_data f @ m;
          (ps, f1) = frames (Suc (length data)) (f\<lparr>fr_data := data\<rparr>);
          (qs, f2) = feed ms f1
      in (ps @ qs, f2))"

section \<open>The length header\<close>

lemma digits:
  fixes b n :: int
  assumes "0 < b"
  shows "n mod (b * (b * (b * b))) =
    n mod b + b * (n div b mod b) + b * b * (n div (b * b) mod b) + b * (b * b) * (n div (b * (b * b)) mod b)"
proof -
  have b: "0 \<le> b" "0 \<le> b * b" using assms by simp_all
  have d: "n div (b * b) = n div b div b" "n div (b * (b * b)) = n div b div b div b"
    by (simp_all only: zdiv_zmult2_eq [OF b(1)] zdiv_zmult2_eq [OF b(2)])
  have "n mod (b * (b * (b * b))) = b * (n div b mod (b * (b * b))) + n mod b"
    using assms by (intro zmod_zmult2_eq) simp
  also have "n div b mod (b * (b * b)) = b * (n div b div b mod (b * b)) + n div b mod b"
    using assms by (intro zmod_zmult2_eq) simp
  also have "n div b div b mod (b * b) = b * (n div b div b div b mod b) + n div b div b mod b"
    using assms by (intro zmod_zmult2_eq) simp
  finally show ?thesis unfolding d by (simp only: distrib_left mult.assoc add.commute add.left_commute)
qed

lemma unpack_pack:
  assumes "pack_i n = Inr h"
  shows "unpack_i h = Inr n \<and> length h = 4"
proof -
  have r: "- (2 ^ 31) \<le> n" "n < 2 ^ 31"
    and h: "h = [word_of_int n, word_of_int (n div 2 ^ 8), word_of_int (n div 2 ^ 16), word_of_int (n div 2 ^ 24)]"
    using assms by (auto simp: pack_i_def split: if_splits)
  have d: "n mod 2 ^ 32 = n mod 2 ^ 8 + 2 ^ 8 * (n div 2 ^ 8 mod 2 ^ 8) + 2 ^ 16 * (n div 2 ^ 16 mod 2 ^ 8) +
      2 ^ 24 * (n div 2 ^ 24 mod 2 ^ 8)"
  proof -
    have e: "(2 :: int) ^ 8 * 2 ^ 8 = 2 ^ 16" "(2 :: int) ^ 8 * 2 ^ 16 = 2 ^ 24" "(2 :: int) ^ 8 * 2 ^ 24 = 2 ^ 32"
      "(0 :: int) < 2 ^ 8" by simp_all
    from digits [OF e(4), of n] show ?thesis unfolding e .
  qed
  have u: "uint (word_of_int n :: 8 word) + 2 ^ 8 * uint (word_of_int (n div 2 ^ 8) :: 8 word) +
      2 ^ 16 * uint (word_of_int (n div 2 ^ 16) :: 8 word) + 2 ^ 24 * uint (word_of_int (n div 2 ^ 24) :: 8 word) =
      n mod 2 ^ 32"
    unfolding d by (simp only: uint_word_of_int take_bit_eq_mod len_num1 len_bit0 len_bit1 mult_1_right one_add_one) simp
  have v: "(if n mod 2 ^ 32 < 2 ^ 31 then n mod 2 ^ 32 else n mod 2 ^ 32 - 2 ^ 32) = n"
  proof (cases "0 \<le> n")
    case True
    have "n mod 2 ^ 32 = n" by (rule mod_pos_pos_trivial [OF True]) (use r(2) in simp)
    with r(2) show ?thesis by (simp only: if_True)
  next
    case False
    have "n mod 2 ^ 32 = (n + 2 ^ 32) mod 2 ^ 32" by (simp only: mod_add_self2)
    also have "\<dots> = n + 2 ^ 32" by (rule mod_pos_pos_trivial) (use r(1) False in simp_all)
    finally have m: "n mod 2 ^ 32 = n + 2 ^ 32" .
    have "\<not> n + 2 ^ 32 < 2 ^ 31" using r(1) by simp
    with m show ?thesis by (simp only: if_False add_diff_cancel_right')
  qed
  have "unpack_i h = Inr (if n mod 2 ^ 32 < 2 ^ 31 then n mod 2 ^ 32 else n mod 2 ^ 32 - 2 ^ 32)"
    unfolding h unpack_i.simps Let_def u ..
  with v h show ?thesis by (simp only: length_Cons list.size) simp
qed

lemma pack_Inr: "- (2 ^ 31) \<le> n \<Longrightarrow> n < 2 ^ 31 \<Longrightarrow> \<exists>h. pack_i n = Inr h"
  by (simp add: pack_i_def)

definition payload :: "bytes \<Rightarrow> bool" where
  "payload p \<longleftrightarrow> p \<noteq> [] \<and> int (length p) < 2 ^ 31"

definition header :: "bytes \<Rightarrow> bytes" where
  "header p = (case pack_i (int (length p)) of Inr h \<Rightarrow> h | Inl _ \<Rightarrow> [])"

definition wire :: "bytes \<Rightarrow> bytes" where
  "wire p = header p @ p"

lemma header: "payload p \<Longrightarrow> length (header p) = 4 \<and> unpack_i (header p) = Inr (int (length p))"
  using pack_Inr [of "int (length p)"] unpack_pack by (auto simp: header_def payload_def)

section \<open>Cutting a stream of frames\<close>

text \<open>A size that was read is that of the header, which stays at the front of the data.\<close>

definition frame_ok :: "frame_st \<Rightarrow> bool" where
  "frame_ok f \<longleftrightarrow> fr_size f = 0 \<or> length (fr_data f) \<ge> 4 \<and> unpack_i (take 4 (fr_data f)) = Inr (fr_size f)"

lemma next_frame_full:
  assumes "frame_ok f" "payload p" "fr_data f = wire p @ d"
  shows "next_frame f = (Some p, \<lparr>fr_data = d, fr_size = 0\<rparr>)"
proof -
  have h: "length (header p) = 4" "unpack_i (header p) = Inr (int (length p))" using header [OF assms(2)] by simp_all
  have p: "p \<noteq> []" using assms(2) by (simp add: payload_def)
  have "read_size f = Some (Inr (int (length p)))"
    using assms(1,3) h by (auto simp: read_size_def frame_ok_def wire_def)
  then show ?thesis using p h assms(3)
    by (simp add: next_frame_def slice_def slice_bound_def wire_def nat_add_distrib min_def)
qed

lemma next_frame_part:
  assumes "frame_ok f" "payload p" "strict_prefix (fr_data f) (wire p)"
  shows "\<exists>f'. next_frame f = (None, f') \<and> fr_data f' = fr_data f \<and> frame_ok f'"
proof (cases "length (fr_data f) \<ge> 4")
  case False
  then have "next_frame f = (None, f)" using assms(1) by (auto simp: next_frame_def read_size_def frame_ok_def)
  then show ?thesis using assms(1) by blast
next
  case True
  have h: "length (header p) = 4" "unpack_i (header p) = Inr (int (length p))" using header [OF assms(2)] by simp_all
  obtain d where d: "wire p = fr_data f @ d" "d \<noteq> []" using assms(3) by (auto simp: strict_prefix_def prefix_def)
  then have "take 4 (fr_data f) = take 4 (wire p)" using True by simp
  also have "\<dots> = header p" using h by (simp add: wire_def)
  finally have t: "unpack_i (take 4 (fr_data f)) = Inr (int (length p))" using h by simp
  have "length (fr_data f) + length d = length p + 4" using h arg_cong [OF d(1), of length]
    by (simp add: wire_def)
  then have "length (fr_data f) < length p + 4" using d(2) by (cases d) simp_all
  moreover have "read_size f = Some (Inr (int (length p)))"
    using assms(1) True t by (auto simp: read_size_def frame_ok_def)
  ultimately have "next_frame f = (None, f\<lparr>fr_size := int (length p)\<rparr>)"
    by (simp add: next_frame_def)
  then show ?thesis using True t by (simp add: frame_ok_def)
qed

lemma frames_stream:
  assumes "frame_ok f" "\<forall>p\<in>set ps. payload p" "fr_data f = concat (map wire ps) @ d"
    and "payload q" "strict_prefix d (wire q)" "length ps < fuel"
  shows "\<exists>f'. frames fuel f = (ps, f') \<and> fr_data f' = d \<and> frame_ok f'"
  using assms
proof (induction ps arbitrary: f fuel)
  case Nil
  then obtain n where "fuel = Suc n" by (cases fuel) auto
  with next_frame_part [of f q] Nil show ?case by auto
next
  case (Cons p ps)
  then obtain n where n: "fuel = Suc n" by (cases fuel) auto
  let ?f = "\<lparr>fr_data = concat (map wire ps) @ d, fr_size = 0\<rparr>"
  have nx: "next_frame f = (Some p, ?f)"
    using next_frame_full [OF Cons.prems(1), of p "concat (map wire ps) @ d"] Cons.prems(2,3) by simp
  have "frame_ok ?f" by (simp add: frame_ok_def)
  from Cons.IH [OF this, of n] obtain f' where "frames n ?f = (ps, f')" "fr_data f' = d" "frame_ok f'"
    using Cons.prems(2-) n by auto
  with nx n show ?case by simp
qed

lemma split_stream:
  assumes "prefix d (concat (map wire ps))"
  shows "\<exists>k e. d = concat (map wire (take k ps)) @ e \<and> k \<le> length ps \<and>
    (if k < length ps then strict_prefix e (wire (ps ! k)) else e = [])"
  using assms
proof (induction ps arbitrary: d)
  case Nil
  then show ?case by simp
next
  case (Cons p ps)
  show ?case
  proof (cases "prefix (wire p) d")
    case False
    have "prefix d (wire p @ concat (map wire ps))" using Cons.prems(1) by simp
    then have "strict_prefix d (wire p)" using False by (auto simp: prefix_append strict_prefix_def)
    then show ?thesis by (intro exI [of _ 0] exI [of _ d]) simp
  next
    case True
    then obtain d' where d: "d = wire p @ d'" by (auto simp: prefix_def)
    with Cons.prems have "prefix d' (concat (map wire ps))" by simp
    from Cons.IH [OF this] obtain k e where "d' = concat (map wire (take k ps)) @ e" "k \<le> length ps"
      "if k < length ps then strict_prefix e (wire (ps ! k)) else e = []" by blast
    then show ?thesis using d by (intro exI [of _ "Suc k"] exI [of _ e]) simp
  qed
qed

lemma length_wires: "\<forall>p\<in>set ps. payload p \<Longrightarrow> length ps \<le> length (concat (map wire ps))"
proof (induction ps)
  case (Cons p ps)
  then have "1 \<le> length (wire p)" by (cases p) (auto simp: payload_def wire_def)
  with Cons show ?case by simp
qed simp

lemma feed_stream:
  assumes "\<forall>p\<in>set ps. payload p" "frame_ok f" "prefix (fr_data f @ concat ms) (concat (map wire ps))"
    and "if ps \<noteq> [] then strict_prefix (fr_data f) (wire (hd ps)) else fr_data f = []"
  shows "\<exists>k f'. feed ms f = (take k ps, f') \<and> k \<le> length ps \<and>
    concat (map wire (take k ps)) @ fr_data f' = fr_data f @ concat ms \<and>
    (if k < length ps then strict_prefix (fr_data f') (wire (ps ! k)) else fr_data f' = [])"
  using assms
proof (induction ms arbitrary: f ps)
  case Nil
  then show ?case by (intro exI [of _ 0]) (auto simp: hd_conv_nth)
next
  case (Cons m ms)
  define data where "data = fr_data f @ m"
  have pre: "prefix (data @ concat ms) (concat (map wire ps))" using Cons.prems(3) by (simp add: data_def)
  then have "prefix data (concat (map wire ps))" by (rule append_prefixD)
  from split_stream [OF this] obtain k e where k: "data = concat (map wire (take k ps)) @ e" "k \<le> length ps"
    "if k < length ps then strict_prefix e (wire (ps ! k)) else e = []" by blast
  obtain q where q: "payload q" "strict_prefix e (wire q)"
  proof (cases "k < length ps")
    case True
    with k(3) Cons.prems(1) show ?thesis by (intro that [of "ps ! k"]) simp_all
  next
    case False
    have "payload [0]" by (simp add: payload_def)
    moreover have "strict_prefix e (wire [0])" using False k(3) by (simp add: wire_def strict_prefix_def)
    ultimately show ?thesis by (rule that)
  qed
  have "frame_ok (f\<lparr>fr_data := data\<rparr>)" using Cons.prems(2) by (auto simp: frame_ok_def data_def)
  moreover have ok: "\<forall>p\<in>set (take k ps). payload p" using Cons.prems(1) by (meson in_set_takeD)
  moreover have "length (take k ps) < Suc (length data)" using length_wires [OF ok] k(1) by simp
  ultimately obtain f1 where f1: "frames (Suc (length data)) (f\<lparr>fr_data := data\<rparr>) = (take k ps, f1)"
    "fr_data f1 = e" "frame_ok f1"
    using frames_stream [of "f\<lparr>fr_data := data\<rparr>" "take k ps" e q "Suc (length data)"] q k(1)
    by (simp del: frames.simps) blast
  have st: "concat (map wire ps) = concat (map wire (take k ps)) @ concat (map wire (drop k ps))"
    by (metis append_take_drop_id concat_append map_append)
  have "\<forall>p\<in>set (drop k ps). payload p" using Cons.prems(1) by (meson in_set_dropD)
  moreover have "prefix (fr_data f1 @ concat ms) (concat (map wire (drop k ps)))"
    using pre f1(2) unfolding st k(1) by simp
  moreover have "if drop k ps \<noteq> [] then strict_prefix (fr_data f1) (wire (hd (drop k ps))) else fr_data f1 = []"
    using k(3) f1(2) by (auto simp: hd_drop_conv_nth)
  ultimately obtain j f2 where j: "feed ms f1 = (take j (drop k ps), f2)" "j \<le> length (drop k ps)"
    "concat (map wire (take j (drop k ps))) @ fr_data f2 = fr_data f1 @ concat ms"
    "if j < length (drop k ps) then strict_prefix (fr_data f2) (wire (drop k ps ! j)) else fr_data f2 = []"
    using Cons.IH [of "drop k ps" f1] f1(3) by blast
  have t: "take k ps @ take j (drop k ps) = take (k + j) ps" by (simp add: take_add)
  then have "feed (m # ms) f = (take (k + j) ps, f2)"
    using f1(1) j(1) by (simp add: Let_def data_def del: frames.simps)
  moreover have "concat (map wire (take (k + j) ps)) @ fr_data f2 = fr_data f @ concat (m # ms)"
    using j(3) f1(2) k(1) by (simp add: t [symmetric] data_def)
  ultimately show ?case using j(2,4) k(2)
    by (intro exI [of _ "k + j"] exI [of _ f2]) (auto split: if_splits)
qed

section \<open>Properties\<close>

text \<open>
  C11. However the network cuts a stream of non-empty messages, taking frames piece by piece gives
  the messages in order: with the bytes that have arrived so far, the handler has been given
  exactly the messages that have arrived completely, and the buffer holds the beginning of the
  next one.
\<close>

theorem frames_any_cut:
  assumes "\<forall>p\<in>set ps. payload p" "prefix (concat ms) (concat (map wire ps))"
  shows "\<exists>k f. feed ms \<lparr>fr_data = [], fr_size = 0\<rparr> = (take k ps, f) \<and> k \<le> length ps \<and>
    concat (map wire (take k ps)) @ fr_data f = concat ms \<and>
    (if k < length ps then strict_prefix (fr_data f) (wire (ps ! k)) else fr_data f = [])"
proof -
  have "strict_prefix [] (wire p)" if "payload p" for p
    using that by (auto simp: wire_def payload_def strict_prefix_def)
  then have "if ps \<noteq> [] then strict_prefix [] (wire (hd ps)) else [] = ([] :: bytes)" using assms(1) by simp
  then show ?thesis using feed_stream [OF assms(1), of "\<lparr>fr_data = [], fr_size = 0\<rparr>" ms] assms(2)
    by (simp add: frame_ok_def)
qed

lemma frames_any_cut_witness:
  "\<exists>k f. feed [[2, 0], [0, 0, 7], [8, 1, 0, 0]] \<lparr>fr_data = [], fr_size = 0\<rparr> = (take k [[7, 8], [9]], f) \<and> k \<le> 2 \<and>
    concat (map wire (take k [[7, 8], [9]])) @ fr_data f = [2, 0, 0, 0, 7, 8, 1, 0, 0]"
proof -
  have w: "wire [7, 8] = [2, 0, 0, 0, 7, 8]" "wire [9] = [1, 0, 0, 0, 9]"
    by (simp_all add: wire_def header_def pack_i_def)
  have "\<forall>p\<in>set [[7, 8], [9 :: 8 word]]. payload p" by (simp add: payload_def)
  from frames_any_cut [OF this, of "[[2, 0], [0, 0, 7], [8, 1, 0, 0]]"]
  show ?thesis by (simp add: w numeral_2_eq_2 del: feed.simps) blast
qed

text \<open>
  A frame of length 0 is never taken: from then on the connection hands over no message, whatever
  arrives.
\<close>

lemma zero_frame_blocks:
  assumes "fr_data f = [0, 0, 0, 0] @ d" "fr_size f = 0"
  shows "\<exists>f'. feed ms f = ([], f')"
  using assms
proof (induction ms arbitrary: f d)
  case (Cons m ms)
  let ?f = "f\<lparr>fr_data := fr_data f @ m\<rparr>"
  have "read_size ?f = Some (Inr 0)" using Cons.prems by (simp add: read_size_def)
  then have "next_frame ?f = (None, ?f)" using Cons.prems(2) by (simp add: next_frame_def)
  then have "frames (Suc n) ?f = ([], ?f)" for n by simp
  moreover obtain f' where "feed ms ?f = ([], f')" using Cons.IH [of ?f "d @ m"] Cons.prems by auto
  ultimately show ?case by (simp add: Let_def del: frames.simps)
qed simp

lemma recv_loop_exact:
  assumes "int (length res) \<le> int n"
  shows "if n - length res \<le> length (rx_bytes s)
    then \<exists>s'. recv_loop (int n) res s = (Inr (res @ take (n - length res) (rx_bytes s)), s') \<and>
      rx_bytes s' = drop (n - length res) (rx_bytes s)
    else \<exists>s'. recv_loop (int n) res s = (Inl SocketError, s')"
  using assms
proof (induction "n - length res" arbitrary: res s rule: less_induct)
  case less
  show ?case
  proof (cases "length res < n")
    case False
    with less.prems show ?thesis by (simp add: recv_loop.simps)
  next
    case True
    define k where "k = min (min (n - length res) 1024) (Suc (rx_sizes s (rx_calls s)))"
    define s1 where "s1 = s\<lparr>rx_bytes := drop k (rx_bytes s), rx_calls := Suc (rx_calls s)\<rparr>"
    have k: "0 < k" "k \<le> n - length res" using True by (simp_all add: k_def)
    have r: "recv (min (n - length res) 1024) s = (take k (rx_bytes s), s1)"
      by (simp add: recv_def Let_def k_def s1_def)
    show ?thesis
    proof (cases "rx_bytes s = []")
      case empty: True
      then show ?thesis using True r by (auto simp: recv_loop.simps [of "int n" res s])
    next
      case False
      let ?res = "res @ take k (rx_bytes s)"
      have step: "recv_loop (int n) res s = recv_loop (int n) ?res s1"
        using True r False k(1) by (simp add: recv_loop.simps [of "int n" res s])
      have lr: "length ?res = length res + min k (length (rx_bytes s))" by simp
      have d: "n - length ?res < n - length res" "length ?res \<le> n" using True False k by (cases "rx_bytes s"; auto)+
      show ?thesis
      proof (cases "k \<le> length (rx_bytes s)")
        case enough: True
        then have "n - length ?res = n - length res - k" by simp
        moreover have "take k b @ take (n - (length res + k)) (drop k b) = take (n - length res) b" for b :: bytes
        proof -
          have "n - length res = k + (n - (length res + k))" using k(2) True by linarith
          then show ?thesis by (metis take_add)
        qed
        ultimately show ?thesis using less.hyps [OF d(1), of s1] d(2) enough k(2) step
          by (auto simp: s1_def le_diff_conv split: if_splits)
      next
        case short: False
        then have "rx_bytes s1 = []" by (simp add: s1_def)
        moreover have "n - length ?res > 0" using short k(2) True by simp
        ultimately show ?thesis using less.hyps [OF d(1), of s1] d(2) short k(2) step by auto
      qed
    qed
  qed
qed

lemma recvall_exact:
  "if n \<le> length (rx_bytes s)
   then \<exists>s'. recvall (int n) s = (Inr (take n (rx_bytes s)), s') \<and> rx_bytes s' = drop n (rx_bytes s)
   else \<exists>s'. recvall (int n) s = (Inl SocketError, s')"
  using recv_loop_exact [of "[]" n s] unfolding recvall_def by (simp del: split_paired_Ex split: if_splits)

lemma length_utf8_ascii: "\<forall>c\<in>set s. of_char c < (128 :: int) \<Longrightarrow> length (utf8 s) = length s"
  by (induction s) (auto simp: utf8_def Let_def)

text \<open>
  A value sent with \<open>sendjson\<close> is received by \<open>recvjson\<close>, however many bytes each \<open>recv\<close> finds,
  and nothing behind it is touched. \<open>json.dumps\<close> escapes what is not ASCII, and its result is
  loaded back.
\<close>

lemma json_over_socket:
  assumes "sendjson dumps v = Inr b" "\<forall>c\<in>set (dumps v). of_char c < (128 :: int)"
    and "loads (utf8 (dumps v)) = Inr v" "rx_bytes s = b @ rest"
  shows "\<exists>s'. recvjson loads s = (Inr v, s') \<and> rx_bytes s' = rest"
proof -
  obtain h where h: "pack_i (int (length (dumps v))) = Inr h" "b = h @ utf8 (dumps v)"
    using assms(1) by (auto simp: sendjson_def Let_def bindR_Inr_iff)
  have u: "unpack_i h = Inr (int (length (dumps v)))" "length h = 4" using unpack_pack [OF h(1)] by simp_all
  obtain s1 where s1: "recvall 4 s = (Inr h, s1)" "rx_bytes s1 = utf8 (dumps v) @ rest"
    using recvall_exact [of 4 s] assms(4) h(2) u(2) by auto
  obtain s2 where "recvall (int (length (dumps v))) s1 = (Inr (utf8 (dumps v)), s2)" "rx_bytes s2 = rest"
    using recvall_exact [of "length (dumps v)" s1] s1(2) length_utf8_ascii [OF assms(2)] by auto
  then show ?thesis using s1(1) u(1) assms(3) by (simp add: recvjson_def)
qed

end
