(* ===== verification/Tracker.thy ===== *)
theory Tracker
  imports StateExc Framing "HOL-Library.Product_Lexorder" "HOL-Library.Multiset"
begin

text \<open>
  The RPC tracker, \<open>tvm/python/tvm/rpc/tracker.py\<close>, with the socket handler it is built on,
  \<open>tvm/python/tvm/rpc/tornado_util.py\<close>. The event loop runs one handler at a time; closing a
  connection in the middle of a handler runs the scheduler again from inside, which is modelled.
  A connection whose sends fail is marked by the environment.
\<close>

section \<open>Values\<close>

text \<open>
  JSON values. Python's numbers and booleans compare by value, so they are one constructor.
\<close>

datatype json = JsNull | JsNum rat | JsStr string | JsArr "json list" | JsObj "(string \<times> json) list"

fun hashable :: "json \<Rightarrow> bool" where
  "hashable (JsArr _) = False"
| "hashable (JsObj _) = False"
| "hashable _ = True"

text \<open>\<open>v[i]\<close> for a position, and \<open>v[k]\<close> for a string.\<close>

fun js_at :: "json \<Rightarrow> nat \<Rightarrow> json res" where
  "js_at (JsArr xs) i = (if i < length xs then Inr (xs ! i) else Inl IndexError)"
| "js_at (JsStr s) i = (if i < length s then Inr (JsStr [s ! i]) else Inl IndexError)"
| "js_at (JsObj d) i = Inl KeyError"
| "js_at _ i = Inl TypeError"

text \<open>\<open>port, matchkey = v\<close>\<close>

fun js_pair :: "json \<Rightarrow> (json \<times> json) res" where
  "js_pair (JsArr [x, y]) = Inr (x, y)"
| "js_pair (JsArr _) = Inl ValueError"
| "js_pair (JsStr [c, d]) = Inr (JsStr [c], JsStr [d])"
| "js_pair (JsStr _) = Inl ValueError"
| "js_pair (JsObj [(k, _), (l, _)]) = Inr (JsStr k, JsStr l)"
| "js_pair (JsObj _) = Inl ValueError"
| "js_pair _ = Inl TypeError"

text \<open>A resource: the connection that offered it, address, port and match key.\<close>

type_synonym resource = "nat \<times> json \<times> json \<times> json"

text \<open>A request on the heap: the negated priority, its number, and the connection to answer.\<close>

type_synonym request = "rat \<times> nat \<times> nat"

record psched =
  ps_values :: "resource list"
  ps_requests :: "request list"  \<comment> \<open>the heap, as the sorted list of its items\<close>
  ps_cnt :: nat

datatype sent = Hello | Size json | Body json

record conn =
  cn_sock :: bool
  cn_broken :: bool
  cn_addr :: string
  cn_frame :: frame_st
  cn_init :: nat
  cn_info :: "(string, json) dict"
  cn_pending :: "json list"
  cn_puts :: "resource list"
  cn_out :: "sent list"

record tracker =
  tk_conns :: "nat \<Rightarrow> conn"
  tk_count :: nat  \<comment> \<open>connections accepted so far\<close>
  tk_connections :: "nat set"
  tk_scheds :: "(json, psched) dict"
  tk_stop_key :: json
  tk_running :: bool
  tk_offered :: "resource list"  \<comment> \<open>what was offered and what was handed out, for the properties\<close>
  tk_granted :: "(nat \<times> resource) list"

definition upd_conn :: "nat \<Rightarrow> (conn \<Rightarrow> conn) \<Rightarrow> tracker \<Rightarrow> tracker" where
  "upd_conn c f st = st\<lparr>tk_conns := (tk_conns st)(c := f (tk_conns st c))\<rparr>"

definition upd_sched :: "json \<Rightarrow> (psched \<Rightarrow> psched) \<Rightarrow> tracker \<Rightarrow> tracker" where
  "upd_sched k f st = (case map_of (tk_scheds st) k of
       None \<Rightarrow> st | Some p \<Rightarrow> st\<lparr>tk_scheds := AList.update k (f p) (tk_scheds st)\<rparr>)"

definition the_sched :: "json \<Rightarrow> tracker \<Rightarrow> psched res" where
  "the_sched k st = dict_get (tk_scheds st) k"

section \<open>\<open>heapq\<close> on requests\<close>

text \<open>
  The code pushes, pops the least item and asks for the length. A sorted list gives the same pops as
  the binary heap of \<open>heapq\<close>, since no two items are equal: the numbers differ, so the connections are
  never compared.
\<close>

definition heappush :: "request \<Rightarrow> request list \<Rightarrow> request list" where
  "heappush = insort"

section \<open>Closing and writing, over a scheduling function\<close>

type_synonym run_sched = "json \<Rightarrow> (tracker, unit) sx"

definition sched_remove :: "run_sched \<Rightarrow> json \<Rightarrow> resource \<Rightarrow> (tracker, unit) sx" where
  "sched_remove sched k v =
     bindS (\<lambda>st. (the_sched k st, st)) (\<lambda>p.
       if v \<in> set (ps_values p)
       then thenS (modS (upd_sched k (\<lambda>p. p\<lparr>ps_values := remove1 v (ps_values p)\<rparr>))) (sched k)
       else retS ())"

text \<open>\<open>s.split(":")[1]\<close>\<close>

definition after_colon :: "json \<Rightarrow> json res" where
  "after_colon j = (case j of
       JsStr s \<Rightarrow> (case dropWhile (\<lambda>c. c \<noteq> CHR '':'') s of
                    [] \<Rightarrow> Inl IndexError
                  | _ # r \<Rightarrow> Inr (JsStr (takeWhile (\<lambda>c. c \<noteq> CHR '':'') r)))
     | _ \<Rightarrow> Inl AttributeError)"

definition tracker_close :: "run_sched \<Rightarrow> nat \<Rightarrow> (tracker, unit) sx" where
  "tracker_close sched c =
     bindS (getS (\<lambda>st. c \<in> tk_connections st)) (\<lambda>there.
     thenS (guardS there KeyError)
    (thenS (modS (\<lambda>st. st\<lparr>tk_connections := tk_connections st - {c}\<rparr>))
    (bindS (getS (\<lambda>st. tk_conns st c)) (\<lambda>cn.
       case map_of (cn_info cn) ''key'' of
         None \<Rightarrow> retS ()
       | Some j \<Rightarrow> bindS (liftS (after_colon j)) (\<lambda>key. forS (sched_remove sched key) (cn_puts cn))))))"

text \<open>\<open>TCPHandler.close\<close> with \<open>on_close\<close>\<close>

definition close_conn :: "run_sched \<Rightarrow> nat \<Rightarrow> (tracker, unit) sx" where
  "close_conn sched c =
     bindS (getS (\<lambda>st. cn_sock (tk_conns st c))) (\<lambda>sock.
       if sock then thenS (modS (upd_conn c (\<lambda>cn. cn\<lparr>cn_sock := False\<rparr>))) (tracker_close sched c)
       else retS ())"

text \<open>
  \<open>write_message\<close>: on a closed socket it raises, on a broken one \<open>on_error\<close> closes the connection.
  What is accepted for sending counts as sent.
\<close>

definition write_message :: "run_sched \<Rightarrow> nat \<Rightarrow> sent \<Rightarrow> (tracker, unit) sx" where
  "write_message sched c m =
     bindS (getS (\<lambda>st. tk_conns st c)) (\<lambda>cn.
       if \<not> cn_sock cn then raiseS SocketError
       else if cn_broken cn then close_conn sched c
       else modS (upd_conn c (\<lambda>cn. cn\<lparr>cn_out := cn_out cn @ [m]\<rparr>)))"

definition ret_value :: "run_sched \<Rightarrow> nat \<Rightarrow> json \<Rightarrow> (tracker, unit) sx" where
  "ret_value sched c j = thenS (write_message sched c (Size j)) (write_message sched c (Body j))"

section \<open>\<open>PriorityScheduler\<close>\<close>

text \<open>The callback of a request: false when the client cannot be reached.\<close>

definition request_cb :: "run_sched \<Rightarrow> nat \<Rightarrow> resource \<Rightarrow> (tracker, bool) sx" where
  "request_cb sched c v =
     bindS (getS (\<lambda>st. cn_sock (tk_conns st c))) (\<lambda>sock.
       if \<not> sock then retS False
       else (case v of (_, url, port, matchkey) \<Rightarrow>
         tryS SocketError (ret_value sched c (JsArr [JsNum 0, JsArr [url, port, matchkey]]))))"

text \<open>\<open>set.remove\<close>\<close>

definition drop_matchkey :: "resource \<Rightarrow> (tracker, unit) sx" where
  "drop_matchkey v = (case v of (s, _, _, mk) \<Rightarrow>
     bindS (getS (\<lambda>st. mk \<in> set (cn_pending (tk_conns st s)))) (\<lambda>there.
     thenS (guardS there KeyError)
       (modS (upd_conn s (\<lambda>cn. cn\<lparr>cn_pending := removeAll mk (cn_pending cn)\<rparr>)))))"

text \<open>
  One turn of \<open>_schedule\<close> and what follows; \<open>sched\<close> stands for the rest of the loop and for the
  loops that a closing connection starts.
\<close>

definition serve :: "run_sched \<Rightarrow> json \<Rightarrow> nat \<Rightarrow> resource \<Rightarrow> (tracker, unit) sx" where
  "serve sched k c v =
     bindS (request_cb sched c v) (\<lambda>consumed.
     thenS (if consumed
            then thenS (modS (\<lambda>st. st\<lparr>tk_granted := tk_granted st @ [(c, v)]\<rparr>)) (drop_matchkey v)
            else modS (upd_sched k (\<lambda>p. p\<lparr>ps_values := ps_values p @ [v]\<rparr>)))
       (sched k))"

definition schedule_turn :: "run_sched \<Rightarrow> json \<Rightarrow> (tracker, unit) sx" where
  "schedule_turn sched k =
     bindS (\<lambda>st. (the_sched k st, st)) (\<lambda>p.
       case (ps_requests p, ps_values p) of
         ((_, _, c) # rs, v # vs) \<Rightarrow>
           thenS (modS (upd_sched k (\<lambda>p. p\<lparr>ps_requests := rs, ps_values := vs\<rparr>))) (serve sched k c v)
       | _ \<Rightarrow> retS ())"

primrec schedule :: "nat \<Rightarrow> run_sched" where
  "schedule 0 = (\<lambda>_. raiseS OutOfFuel)"
| "schedule (Suc fuel) = schedule_turn (schedule fuel)"

text \<open>Every turn takes a request, so their number is fuel enough.\<close>

definition waiting :: "tracker \<Rightarrow> nat" where
  "waiting st = sumlist (map (\<lambda>(k, p). length (ps_requests p)) (tk_scheds st))"

definition run :: run_sched where
  "run k = (\<lambda>st. schedule (Suc (waiting st)) k st)"

definition sched_put :: "json \<Rightarrow> resource \<Rightarrow> (tracker, unit) sx" where
  "sched_put k v = thenS (modS (upd_sched k (\<lambda>p. p\<lparr>ps_values := ps_values p @ [v]\<rparr>))) (run k)"

definition sched_request :: "json \<Rightarrow> json \<Rightarrow> nat \<Rightarrow> (tracker, unit) sx" where
  "sched_request k priority c = (case priority of
       JsNum q \<Rightarrow>
         thenS (modS (upd_sched k (\<lambda>p. p\<lparr>ps_requests := heappush (- q, ps_cnt p, c) (ps_requests p),
                                         ps_cnt := ps_cnt p + 1\<rparr>))) (run k)
     | _ \<Rightarrow> raiseS TypeError)"

definition sched_summary :: "psched \<Rightarrow> json" where
  "sched_summary p = JsObj [(''free'', JsNum (of_nat (length (ps_values p)))),
                            (''pending'', JsNum (of_nat (length (ps_requests p))))]"

section \<open>\<open>TrackerServerHandler\<close>\<close>

definition ensure_sched :: "json \<Rightarrow> (tracker, unit) sx" where
  "ensure_sched key =
     thenS (guardS (hashable key) TypeError)
       (modS (\<lambda>st. if key \<in> fst ` set (tk_scheds st) then st
          else st\<lparr>tk_scheds := AList.update key \<lparr>ps_values = [], ps_requests = [], ps_cnt = 0\<rparr> (tk_scheds st)\<rparr>))"

definition tracker_put :: "json \<Rightarrow> resource \<Rightarrow> (tracker, unit) sx" where
  "tracker_put key v = thenS (ensure_sched key) (sched_put key v)"

definition tracker_request :: "json \<Rightarrow> json \<Rightarrow> nat \<Rightarrow> (tracker, unit) sx" where
  "tracker_request key priority c = thenS (ensure_sched key) (sched_request key priority c)"

text \<open>The set of connections is iterated in the order of the list given.\<close>

definition tracker_stop :: "nat list \<Rightarrow> (tracker, unit) sx" where
  "tracker_stop order = thenS (forS (close_conn run) order) (modS (\<lambda>st. st\<lparr>tk_running := False\<rparr>))"

text \<open>\<open>res.get("key", "").startswith("server")\<close>\<close>

definition is_server :: "conn \<Rightarrow> bool res" where
  "is_server cn = (case map_of (cn_info cn) ''key'' of
       None \<Rightarrow> Inr False
     | Some (JsStr s) \<Rightarrow> Inr (take 6 s = ''server'')
     | Some _ \<Rightarrow> Inl AttributeError)"

definition tracker_summary :: "(json \<Rightarrow> string) \<Rightarrow> nat list \<Rightarrow> tracker \<Rightarrow> json res" where
  "tracker_summary show_key order st =
     bindR (foldR (\<lambda>c acc. bindR (is_server (tk_conns st c)) (\<lambda>b.
         Inr (if b then acc @ [JsObj (cn_info (tk_conns st c))] else acc))) order [])
       (\<lambda>cinfo. Inr (JsObj [
         (''queue_info'', JsObj (map (\<lambda>(k, p). (show_key k, sched_summary p)) (tk_scheds st))),
         (''server_info'', JsArr cinfo)]))"

section \<open>\<open>TCPEventHandler\<close>\<close>

definition tracker_magic :: int where
  "tracker_magic = 0x2F271"

definition new_conn :: "string \<Rightarrow> conn" where
  "new_conn addr =
     \<lparr>cn_sock = True, cn_broken = False, cn_addr = addr, cn_frame = \<lparr>fr_data = [], fr_size = 0\<rparr>, cn_init = 4,
      cn_info = [], cn_pending = [], cn_puts = [], cn_out = []\<rparr>"

definition init_conn :: "nat \<Rightarrow> bytes \<Rightarrow> (tracker, unit) sx" where
  "init_conn c message =
     thenS (if length message \<noteq> 4 then close_conn run c else retS ())
    (bindS (liftS (unpack_i message)) (\<lambda>magic.
     thenS (if magic \<noteq> tracker_magic then close_conn run c else retS ())
    (thenS (write_message run c Hello)
       (modS (upd_conn c (\<lambda>cn. cn\<lparr>cn_init := 0\<rparr>))))))"

definition set_add :: "json \<Rightarrow> json list \<Rightarrow> json list" where
  "set_add x xs = (if x \<in> set xs then xs else xs @ [x])"

fun js_len :: "json \<Rightarrow> nat" where
  "js_len (JsArr xs) = length xs"
| "js_len (JsStr s) = length s"
| "js_len (JsObj d) = length d"
| "js_len _ = 0"

definition handle_put :: "nat \<Rightarrow> json \<Rightarrow> (tracker, unit) sx" where
  "handle_put c args =
     bindS (liftS (js_at args 1)) (\<lambda>key.
     bindS (liftS (bindR (js_at args 2) js_pair)) (\<lambda>(port, matchkey).
     thenS (guardS (hashable matchkey) TypeError)
    (thenS (modS (upd_conn c (\<lambda>cn. cn\<lparr>cn_pending := set_add matchkey (cn_pending cn)\<rparr>)))
    (bindS (getS (\<lambda>st. cn_addr (tk_conns st c))) (\<lambda>addr.
     bindS (liftS (if js_len args \<ge> 4 then js_at args 3 else Inr JsNull)) (\<lambda>custom.
     let v = (c, if custom \<noteq> JsNull then custom else JsStr addr, port, matchkey) in
     thenS (modS (\<lambda>st. st\<lparr>tk_offered := tk_offered st @ [v]\<rparr>))
    (thenS (tracker_put key v)
    (thenS (modS (upd_conn c (\<lambda>cn. cn\<lparr>cn_puts := cn_puts cn @ [v]\<rparr>)))
       (ret_value run c (JsNum 0))))))))))"

definition handle_request :: "nat \<Rightarrow> json \<Rightarrow> (tracker, unit) sx" where
  "handle_request c args =
     bindS (liftS (js_at args 1)) (\<lambda>key.
     thenS (bindS (liftS (js_at args 2)) (\<lambda>user. retS ()))
    (bindS (liftS (js_at args 3)) (\<lambda>priority. tracker_request key priority c)))"

text \<open>\<open>if info["addr"][0] is None: info["addr"][0] = self._addr[0]\<close>\<close>

definition fill_addr :: "string \<Rightarrow> (string \<times> json) list \<Rightarrow> (string \<times> json) list res" where
  "fill_addr addr info =
     bindR (dict_get info ''addr'') (\<lambda>a.
     bindR (js_at a 0) (\<lambda>h.
       Inr (case a of
              JsArr xs \<Rightarrow> if h = JsNull then AList.update ''addr'' (JsArr (xs[0 := JsStr addr])) info else info
            | _ \<Rightarrow> info)))"

definition handle_update_info :: "nat \<Rightarrow> json \<Rightarrow> (tracker, unit) sx" where
  "handle_update_info c args =
     bindS (liftS (js_at args 1)) (\<lambda>j. case j of
       JsObj info \<Rightarrow>
         bindS (getS (\<lambda>st. cn_addr (tk_conns st c))) (\<lambda>addr.
         bindS (liftS (fill_addr addr info)) (\<lambda>info'.
         thenS (modS (upd_conn c (\<lambda>cn. cn\<lparr>cn_info := fold (\<lambda>(k, v). AList.update k v) info' (cn_info cn)\<rparr>)))
           (ret_value run c (JsNum 0))))
     | _ \<Rightarrow> raiseS AssertionError)"

text \<open>
  \<open>show_key\<close> is what \<open>json.dumps\<close> makes of a dictionary key, \<open>order\<close> the iteration order of the set
  of connections.
\<close>

definition call_handler :: "(json \<Rightarrow> string) \<Rightarrow> (nat set \<Rightarrow> nat list) \<Rightarrow> nat \<Rightarrow> json \<Rightarrow> (tracker, unit) sx" where
  "call_handler show_key order c args =
     bindS (liftS (js_at args 0)) (\<lambda>code.
       if code = JsNum 3 then handle_put c args
       else if code = JsNum 4 then handle_request c args
       else if code = JsNum 1 then ret_value run c (JsNum 0)
       else if code = JsNum 7 then
         bindS (getS (\<lambda>st. cn_pending (tk_conns st c))) (\<lambda>mks. ret_value run c (JsArr mks))
       else if code = JsNum 2 then
         bindS (liftS (js_at args 1)) (\<lambda>key.
         bindS (getS tk_stop_key) (\<lambda>stop_key.
           if stop_key = key then
             thenS (ret_value run c (JsNum 0))
               (bindS (getS (\<lambda>st. order (tk_connections st))) tracker_stop)
           else ret_value run c (JsNum (-1))))
       else if code = JsNum 5 then handle_update_info c args
       else if code = JsNum 6 then
         bindS (\<lambda>st. (tracker_summary show_key (order (tk_connections st)) st, st)) (\<lambda>status.
           ret_value run c (JsArr [JsNum 0, status]))
       else close_conn run c)"

text \<open>
  The framing loop over the buffer of the connection. A turn takes the frame out before the handler
  runs; every turn but one with an empty payload, which \<open>json.loads\<close> rejects, shortens the buffer.
\<close>

primrec drain :: "(nat \<Rightarrow> json \<Rightarrow> (tracker, unit) sx) \<Rightarrow> (bytes \<Rightarrow> json res) \<Rightarrow> nat \<Rightarrow> nat \<Rightarrow> (tracker, unit) sx" where
  "drain handler loads c 0 = raiseS OutOfFuel"
| "drain handler loads c (Suc fuel) =
     bindS (getS (\<lambda>st. next_frame (cn_frame (tk_conns st c)))) (\<lambda>(msg, f).
     thenS (modS (upd_conn c (\<lambda>cn. cn\<lparr>cn_frame := f\<rparr>)))
       (case msg of
          None \<Rightarrow> retS ()
        | Some p \<Rightarrow> bindS (liftS (loads p)) (\<lambda>args. thenS (handler c args) (drain handler loads c fuel))))"

definition on_message ::
  "(nat \<Rightarrow> json \<Rightarrow> (tracker, unit) sx) \<Rightarrow> (bytes \<Rightarrow> json res) \<Rightarrow> nat \<Rightarrow> bytes \<Rightarrow> (tracker, unit) sx" where
  "on_message handler loads c message =
     bindS (getS (\<lambda>st. tk_conns st c)) (\<lambda>cn.
       if cn_init cn \<noteq> 0 then init_conn c message
       else
         let data = fr_data (cn_frame cn) @ message in
         thenS (modS (upd_conn c (\<lambda>cn. cn\<lparr>cn_frame := (cn_frame cn)\<lparr>fr_data := data\<rparr>\<rparr>)))
           (drain handler loads c (Suc (length data))))"

section \<open>The event loop\<close>

text \<open>
  Events of the sockets: a new connection, bytes read, the end of a connection (or an error while
  reading), and a connection on which sending fails from now on. The loop logs an exception of a
  handler and goes on; a socket error of a reading handler closes the connection.
\<close>

datatype event = Accept string | Receive nat bytes | Hangup nat | Break nat

definition accept :: "string \<Rightarrow> tracker \<Rightarrow> tracker" where
  "accept addr st =
     st\<lparr>tk_conns := (tk_conns st)(tk_count st := new_conn addr), tk_count := tk_count st + 1,
        tk_connections := insert (tk_count st) (tk_connections st)\<rparr>"

definition update_read ::
  "(nat \<Rightarrow> json \<Rightarrow> (tracker, unit) sx) \<Rightarrow> (bytes \<Rightarrow> json res) \<Rightarrow> nat \<Rightarrow> bytes \<Rightarrow> (tracker, unit) sx" where
  "update_read handler loads c message =
     bindS (tryS SocketError (on_message handler loads c message)) (\<lambda>fine.
       if fine then retS () else close_conn run c)"

fun handle_event ::
  "(nat \<Rightarrow> json \<Rightarrow> (tracker, unit) sx) \<Rightarrow> (bytes \<Rightarrow> json res) \<Rightarrow> event \<Rightarrow> (tracker, unit) sx" where
  "handle_event handler loads (Accept addr) = modS (accept addr)"
| "handle_event handler loads (Receive c message) = update_read handler loads c message"
| "handle_event handler loads (Hangup c) = close_conn run c"
| "handle_event handler loads (Break c) = modS (upd_conn c (\<lambda>cn. cn\<lparr>cn_broken := True\<rparr>))"

text \<open>A step of the loop, labelled with the event and with how the handler ended.\<close>

inductive tstep ::
  "(nat \<Rightarrow> json \<Rightarrow> (tracker, unit) sx) \<Rightarrow> (bytes \<Rightarrow> json res) \<Rightarrow> tracker \<Rightarrow> event \<Rightarrow> unit res \<Rightarrow> tracker \<Rightarrow> bool"
  for handler loads where
  new: "tk_running st \<Longrightarrow> handle_event handler loads (Accept addr) st = (r, st') \<Longrightarrow>
    tstep handler loads st (Accept addr) r st'"
| bytes: "tk_running st \<Longrightarrow> c < tk_count st \<Longrightarrow> cn_sock (tk_conns st c) \<Longrightarrow> message \<noteq> [] \<Longrightarrow>
    handle_event handler loads (Receive c message) st = (r, st') \<Longrightarrow>
    tstep handler loads st (Receive c message) r st'"
| hangup: "tk_running st \<Longrightarrow> c < tk_count st \<Longrightarrow> cn_sock (tk_conns st c) \<Longrightarrow>
    handle_event handler loads (Hangup c) st = (r, st') \<Longrightarrow> tstep handler loads st (Hangup c) r st'"
| broken: "c < tk_count st \<Longrightarrow> handle_event handler loads (Break c) st = (r, st') \<Longrightarrow>
    tstep handler loads st (Break c) r st'"

inductive_simps tstep_Accept: "tstep handler loads st (Accept addr) r st'"
inductive_simps tstep_Receive: "tstep handler loads st (Receive c message) r st'"

definition init_tracker :: "json \<Rightarrow> tracker" where
  "init_tracker stop_key =
     \<lparr>tk_conns = (\<lambda>_. new_conn []), tk_count = 0, tk_connections = {}, tk_scheds = [], tk_stop_key = stop_key,
      tk_running = True, tk_offered = [], tk_granted = []\<rparr>"

text \<open>The states after a history of events, with how each ended.\<close>

inductive history ::
  "(nat \<Rightarrow> json \<Rightarrow> (tracker, unit) sx) \<Rightarrow> (bytes \<Rightarrow> json res) \<Rightarrow> json \<Rightarrow> (event \<times> unit res) list \<Rightarrow> tracker \<Rightarrow> bool"
  for handler loads stop_key where
  start: "history handler loads stop_key [] (init_tracker stop_key)"
| after: "history handler loads stop_key evs st \<Longrightarrow> tstep handler loads st ev r st' \<Longrightarrow>
    history handler loads stop_key (evs @ [(ev, r)]) st'"

end
