(* ===== verification/TrackerLaws.thy ===== *)
theory TrackerLaws
  imports Tracker
begin

text \<open>
  The laws of the RPC tracker: what every way through its handlers keeps, when the scheduling loop
  ends and what it leaves behind, and the queue that a scheduler implements.
\<close>

section \<open>Sums over the schedulers\<close>

definition total_of :: "('v \<Rightarrow> 'a::comm_monoid_add) \<Rightarrow> ('k, 'v) dict \<Rightarrow> 'a" where
  "total_of g d = sumlist (map (\<lambda>(k, v). g v) d)"

lemma total_update:
  "map_of d k = Some p \<Longrightarrow> total_of g (AList.update k q d) + g p = total_of g d + g q"
proof (induction d)
  case (Cons x d)
  obtain k' p' where x: "x = (k', p')" by fastforce
  show ?case
  proof (cases "k = k'")
    case True
    with Cons.prems x show ?thesis by (simp add: total_of_def ac_simps)
  next
    case False
    with Cons x have "total_of g (AList.update k q d) + g p = total_of g d + g q" by simp
    then have "g p' + (total_of g (AList.update k q d) + g p) = g p' + (total_of g d + g q)" by simp
    then show ?thesis using False x by (simp add: total_of_def add.assoc)
  qed
qed simp

lemma total_new: "k \<notin> fst ` set d \<Longrightarrow> total_of g (AList.update k q d) = total_of g d + g q"
  by (induction d) (auto simp: total_of_def ac_simps)

lemma waiting_total: "waiting st = total_of (\<lambda>p. length (ps_requests p)) (tk_scheds st)"
  by (simp add: waiting_def total_of_def)

lemma waiting_upd:
  "map_of (tk_scheds st) k = Some p \<Longrightarrow>
   waiting (upd_sched k f st) + length (ps_requests p) = waiting st + length (ps_requests (f p))"
  using total_update [of "tk_scheds st" k p "\<lambda>p. length (ps_requests p)" "f p"]
  by (simp add: waiting_total upd_sched_def)

lemma waiting_upd_same:
  assumes "\<And>p. length (ps_requests (f p)) = length (ps_requests p)"
  shows "waiting (upd_sched k f st) = waiting st"
  using waiting_upd [of st k _ f] assms by (cases "map_of (tk_scheds st) k") (auto simp: upd_sched_def)

definition free :: "tracker \<Rightarrow> resource multiset" where
  "free st = total_of (\<lambda>p. mset (ps_values p)) (tk_scheds st)"

section \<open>The invariant\<close>

definition heap_ok :: "psched \<Rightarrow> bool" where
  "heap_ok p \<longleftrightarrow> sorted (ps_requests p) \<and> distinct (map (fst \<circ> snd) (ps_requests p)) \<and>
     (\<forall>(_, i, _)\<in>set (ps_requests p). i < ps_cnt p)"

definition well_formed :: "tracker \<Rightarrow> bool" where
  "well_formed st \<longleftrightarrow> dict_ok (tk_scheds st) \<and> (\<forall>(k, p)\<in>set (tk_scheds st). heap_ok p) \<and>
     tk_connections st = {c. c < tk_count st \<and> cn_sock (tk_conns st c)}"

text \<open>
  \<open>X\<close> are the resources that the running code holds in local variables: neither free nor granted.
\<close>

definition sound :: "resource multiset \<Rightarrow> tracker \<Rightarrow> bool" where
  "sound X st \<longleftrightarrow> well_formed st \<and> mset (map snd (tk_granted st)) + free st + X \<subseteq># mset (tk_offered st)"

lemma sound_mono: "sound (X + Y) st \<Longrightarrow> sound X st"
  by (auto simp: sound_def add.assoc [symmetric] intro: subset_mset.order_trans [rotated])

lemma sound_conn [simp]:
  assumes "cn_sock (f (tk_conns st c)) = cn_sock (tk_conns st c)"
  shows "sound X (upd_conn c f st) = sound X st"
proof -
  have "(((tk_conns st)(c := f (tk_conns st c))) i) = (if i = c then f (tk_conns st c) else tk_conns st i)" for i by simp
  then have "{i. i < tk_count st \<and> cn_sock (((tk_conns st)(c := f (tk_conns st c))) i)} =
      {i. i < tk_count st \<and> cn_sock (tk_conns st i)}" using assms by auto
  then show ?thesis by (simp add: sound_def well_formed_def upd_conn_def free_def)
qed

lemma sched_values: "well_formed st \<Longrightarrow> map_of (tk_scheds st) k = Some p \<Longrightarrow> heap_ok p"
  by (auto simp: well_formed_def dest: map_of_SomeD)

lemma well_formed_upd:
  assumes "well_formed st" "\<And>p. map_of (tk_scheds st) k = Some p \<Longrightarrow> heap_ok (f p)"
  shows "well_formed (upd_sched k f st)"
proof (cases "map_of (tk_scheds st) k")
  case None
  then show ?thesis using assms(1) by (simp add: upd_sched_def)
next
  case (Some p)
  have "dict_ok (AList.update k (f p) (tk_scheds st))" using assms(1) by (simp add: well_formed_def distinct_update)
  moreover have "heap_ok q" if "(j, q) \<in> set (AList.update k (f p) (tk_scheds st))" for j q
  proof -
    have "map_of (AList.update k (f p) (tk_scheds st)) j = Some q"
      using that calculation by (simp add: map_of_dict_iff)
    then have "((map_of (tk_scheds st))(k \<mapsto> f p)) j = Some q" by (simp add: update_conv)
    then show ?thesis using assms Some sched_values [OF assms(1)] by (cases "j = k") auto
  qed
  ultimately show ?thesis using assms(1) Some by (auto simp: well_formed_def upd_sched_def)
qed

lemma free_upd:
  assumes "well_formed st" "map_of (tk_scheds st) k = Some p"
  shows "free (upd_sched k f st) + mset (ps_values p) = free st + mset (ps_values (f p))"
  using assms total_update [of "tk_scheds st" k p "\<lambda>p. mset (ps_values p)" "f p"]
  by (simp add: free_def upd_sched_def well_formed_def)

lemma upd_sched_frame [simp]:
  "tk_granted (upd_sched k f st) = tk_granted st" "tk_offered (upd_sched k f st) = tk_offered st"
  "tk_conns (upd_sched k f st) = tk_conns st" "tk_count (upd_sched k f st) = tk_count st"
  "tk_connections (upd_sched k f st) = tk_connections st"
  by (simp_all add: upd_sched_def split: option.split)

text \<open>A resource moves between the free ones of a scheduler and the hands of the code.\<close>

lemma sound_upd:
  assumes "sound X st" "\<And>p. map_of (tk_scheds st) k = Some p \<Longrightarrow> heap_ok p \<Longrightarrow> heap_ok (f p)"
    and "\<And>p. map_of (tk_scheds st) k = Some p \<Longrightarrow> mset (ps_values (f p)) + Y \<subseteq># mset (ps_values p) + X"
    and "map_of (tk_scheds st) k = None \<Longrightarrow> Y \<subseteq># X"
  shows "sound Y (upd_sched k f st)"
proof -
  have wf: "well_formed st" and le: "mset (map snd (tk_granted st)) + free st + X \<subseteq># mset (tk_offered st)"
    using assms(1) by (simp_all add: sound_def)
  have "well_formed (upd_sched k f st)" using well_formed_upd [OF wf] assms(2) sched_values [OF wf] by blast
  moreover have "free (upd_sched k f st) + Y \<subseteq># free st + X"
  proof (cases "map_of (tk_scheds st) k")
    case None
    then show ?thesis using assms(4) by (simp add: upd_sched_def)
  next
    case (Some p)
    have "free (upd_sched k f st) + Y + mset (ps_values p) = free st + (mset (ps_values (f p)) + Y)"
      using free_upd [OF wf Some, of f] by (metis add.assoc add.commute)
    also have "\<dots> \<subseteq># free st + X + mset (ps_values p)"
      using assms(3) [OF Some] by (metis add.assoc add.commute subset_mset.add_left_mono)
    finally show ?thesis by (simp add: subset_mset.add_le_cancel_right)
  qed
  then have "mset (map snd (tk_granted st)) + (free (upd_sched k f st) + Y) \<subseteq># mset (map snd (tk_granted st)) + (free st + X)"
    by (rule subset_mset.add_left_mono)
  then have "mset (map snd (tk_granted st)) + (free (upd_sched k f st) + Y) \<subseteq># mset (tk_offered st)"
    using le unfolding add.assoc by (rule subset_mset.order_trans)
  ultimately show ?thesis by (simp add: sound_def add.assoc)
qed

section \<open>Which schedulers are idle\<close>

text \<open>No request waits while a resource is free.\<close>

definition idle :: "json \<Rightarrow> tracker \<Rightarrow> bool" where
  "idle k st = (case map_of (tk_scheds st) k of None \<Rightarrow> True | Some p \<Rightarrow> ps_values p = [] \<or> ps_requests p = [])"

definition calm :: "(tracker, 'a) sx \<Rightarrow> bool" where
  "calm m \<longleftrightarrow> (\<forall>st r st'. m st = (r, st') \<longrightarrow> (\<forall>e. r = Inl e \<longrightarrow> e = SocketError) \<longrightarrow>
     (\<forall>k. idle k st \<longrightarrow> idle k st'))"

lemma calmD: "calm m \<Longrightarrow> m st = (r, st') \<Longrightarrow> (\<And>e. r = Inl e \<Longrightarrow> e = SocketError) \<Longrightarrow> idle k st \<Longrightarrow> idle k st'"
  by (auto simp: calm_def)

named_theorems calm_intros

lemma calm_basic [calm_intros]:
  "calm (retS x)" "calm (raiseS e)" "calm (liftS r)" "calm (getS g)" "calm (guardS b e)"
  by (simp_all add: calm_def)

lemma calm_read [calm_intros]: "calm (\<lambda>st. (g st, st))"
  by (simp add: calm_def)

lemma calm_modS [calm_intros]: "(\<And>st. tk_scheds (f st) = tk_scheds st) \<Longrightarrow> calm (modS f)"
  by (simp add: calm_def idle_def)

lemma calm_bindS [calm_intros]:
  assumes "calm m" "\<And>x. calm (f x)"
  shows "calm (bindS m f)"
  unfolding calm_def
proof (intro allI impI)
  fix st r st' k
  assume b: "bindS m f st = (r, st')" and e: "\<forall>e. r = Inl e \<longrightarrow> e = SocketError" and i: "idle k st"
  obtain r1 st1 where m: "m st = (r1, st1)" by fastforce
  show "idle k st'"
  proof (cases r1)
    case (Inl e1)
    then have "r = Inl e1" "st' = st1" using b m by (simp_all add: bindS_run)
    then show ?thesis using calmD [OF assms(1) m] Inl e i by auto
  next
    case (Inr x)
    then have "f x st1 = (r, st')" using b m by (simp add: bindS_run)
    moreover have "idle k st1" using calmD [OF assms(1) m] Inr i by auto
    ultimately show ?thesis using calmD [OF assms(2) [of x]] e by auto
  qed
qed

lemma calm_thenS [calm_intros]: "calm m \<Longrightarrow> calm n \<Longrightarrow> calm (thenS m n)"
  by (simp add: thenS_def calm_bindS)

lemma calm_tryS [calm_intros]:
  assumes "calm m"
  shows "calm (tryS SocketError m)"
  unfolding calm_def
proof (intro allI impI)
  fix st r st' k
  assume b: "tryS SocketError m st = (r, st')" and e: "\<forall>e. r = Inl e \<longrightarrow> e = SocketError" and i: "idle k st"
  obtain r1 st1 where m: "m st = (r1, st1)" by fastforce
  have "st' = st1 \<and> (\<forall>e. r1 = Inl e \<longrightarrow> e = SocketError)" using b e m
    by (cases r1) (auto simp: tryS_def split: if_splits)
  then show "idle k st'" using calmD [OF assms m] i by auto
qed

lemma calm_forS [calm_intros]: "(\<And>x. calm (f x)) \<Longrightarrow> calm (forS f xs)"
  by (induction xs) (auto intro: calm_intros)

lemma calm_if [calm_intros]: "calm m \<Longrightarrow> calm n \<Longrightarrow> calm (if b then m else n)"
  by simp

section \<open>Which computations end\<close>

text \<open>With fewer requests waiting than \<open>n\<close> the fuel is enough, and no request is added.\<close>

definition ends_within :: "nat \<Rightarrow> (tracker, 'a) sx \<Rightarrow> bool" where
  "ends_within n m \<longleftrightarrow> (\<forall>st. waiting st < n \<longrightarrow> fst (m st) \<noteq> Inl OutOfFuel \<and> waiting (snd (m st)) \<le> waiting st)"

named_theorems within_intros

lemma within_basic [within_intros]:
  "ends_within n (retS x)" "e \<noteq> OutOfFuel \<Longrightarrow> ends_within n (raiseS e)" "r \<noteq> Inl OutOfFuel \<Longrightarrow> ends_within n (liftS r)"
  "ends_within n (getS g)" "e \<noteq> OutOfFuel \<Longrightarrow> ends_within n (guardS b e)"
  by (simp_all add: ends_within_def)

lemma within_modS [within_intros]: "(\<And>st. waiting (f st) \<le> waiting st) \<Longrightarrow> ends_within n (modS f)"
  by (simp add: ends_within_def)

lemma within_bindS [within_intros]:
  assumes "ends_within n m" "\<And>x. ends_within n (f x)"
  shows "ends_within n (bindS m f)"
  unfolding ends_within_def
proof (intro allI impI)
  fix st
  assume n: "waiting st < n"
  obtain r st1 where m: "m st = (r, st1)" by fastforce
  with assms(1) n have "r \<noteq> Inl OutOfFuel" "waiting st1 \<le> waiting st" unfolding ends_within_def by (metis fst_conv snd_conv)+
  with assms(2) n m show "fst (bindS m f st) \<noteq> Inl OutOfFuel \<and> waiting (snd (bindS m f st)) \<le> waiting st"
    unfolding ends_within_def
    by (cases r) (auto simp: bindS_run, metis le_less_trans order_trans)
qed

lemma within_thenS [within_intros]: "ends_within n m \<Longrightarrow> ends_within n k \<Longrightarrow> ends_within n (thenS m k)"
  by (simp add: thenS_def within_bindS)

lemma within_tryS [within_intros]: "ends_within n m \<Longrightarrow> ends_within n (tryS e m)"
  unfolding ends_within_def tryS_def by (auto split: prod.split sum.split; metis fst_conv snd_conv)

lemma within_forS [within_intros]: "(\<And>x. ends_within n (f x)) \<Longrightarrow> ends_within n (forS f xs)"
  by (induction xs) (auto intro: within_intros)

lemma within_if [within_intros]: "ends_within n m \<Longrightarrow> ends_within n k \<Longrightarrow> ends_within n (if b then m else k)"
  by simp

lemma calm_conn [calm_intros]: "calm (modS (upd_conn c f))"
  by (rule calm_modS) (simp add: upd_conn_def)

lemma waiting_conn [simp]: "waiting (upd_conn c f st) = waiting st"
  by (simp add: waiting_def upd_conn_def)

lemma ends_read [within_intros]: "(\<And>st. g st \<noteq> Inl OutOfFuel) \<Longrightarrow> ends_within n (\<lambda>st. (g st, st))"
  by (simp add: ends_within_def)

lemma keeps_read [keeps_intros]: "keeps P (\<lambda>st. (g st, st))"
  by (simp add: keeps_def)

lemma keeps_conn [keeps_intros]:
  "(\<And>cn. cn_sock (f cn) = cn_sock cn) \<Longrightarrow> keeps (sound X) (modS (upd_conn c f))"
  by (rule keeps_modS) simp

lemma the_sched_error: "the_sched k st \<noteq> Inl OutOfFuel" "the_sched k st \<noteq> Inl SocketError"
  by (simp_all add: the_sched_def dict_get_def split: option.split)

lemma after_colon_error: "after_colon j \<noteq> Inl OutOfFuel"
  by (auto simp: after_colon_def split: json.split list.split)

text \<open>Closing a registered connection takes it out of the set of connections.\<close>

lemma sound_close:
  assumes "sound X st" "cn_sock (tk_conns st c)"
  shows "if c \<in> tk_connections st
    then sound X (upd_conn c (\<lambda>cn. cn\<lparr>cn_sock := False\<rparr>) st\<lparr>tk_connections := tk_connections st - {c}\<rparr>)
    else sound X (upd_conn c (\<lambda>cn. cn\<lparr>cn_sock := False\<rparr>) st)"
  using assms by (auto simp: sound_def well_formed_def upd_conn_def free_def)

lemma sound_grant:
  "sound (add_mset v X) st \<Longrightarrow> sound X (st\<lparr>tk_granted := tk_granted st @ [(c, v)]\<rparr>)"
  by (simp add: sound_def well_formed_def free_def)

lemma heap_tail: "ps_requests p = r # rs \<Longrightarrow> heap_ok p \<Longrightarrow> heap_ok (p\<lparr>ps_requests := rs, ps_values := vs\<rparr>)"
  by (auto simp: heap_ok_def)

text \<open>The receive buffers are not touched by scheduling, writing or closing.\<close>

definition buffers :: "(nat \<Rightarrow> frame_st) \<Rightarrow> tracker \<Rightarrow> bool" where
  "buffers F st \<longleftrightarrow> (\<forall>c. cn_frame (tk_conns st c) = F c)"

lemma keeps_buffers_conn: "(\<And>cn. cn_frame (f cn) = cn_frame cn) \<Longrightarrow> keeps (buffers F) (modS (upd_conn c f))"
  by (rule keeps_modS) (simp add: buffers_def upd_conn_def)

lemma keeps_buffers_mod:
  "(\<And>st i. cn_frame (tk_conns (g st) i) = cn_frame (tk_conns st i)) \<Longrightarrow> keeps (buffers F) (modS g)"
  by (rule keeps_modS) (simp add: buffers_def)

lemma keeps_buffers_other: "(\<And>st. tk_conns (g st) = tk_conns st) \<Longrightarrow> keeps (buffers F) (modS g)"
  by (rule keeps_modS) (simp add: buffers_def)

section \<open>The scheduling loop as an interface\<close>

text \<open>
  What closing, writing and the loop itself rely on when they start the loop again from inside: the
  invariant, that no socket error comes out, that the scheduler is idle afterwards and no other one
  has stopped being idle, and that it ends when fewer than \<open>n\<close> requests wait.
\<close>

locale rescheduling =
  fixes sched :: run_sched
    and n :: nat
  assumes keeps_sound: "keeps (sound X) (sched k)"
    and no_socket_error: "never SocketError (sched k)"
    and settles: "sched k st = (Inr u, st') \<Longrightarrow> idle k st'"
    and stays: "sched k st = (Inr u, st') \<Longrightarrow> idle j st \<Longrightarrow> idle j st'"
    and ends: "ends_within n (sched k)"
    and keeps_buffers: "keeps (buffers F) (sched k)"
begin

lemma calm_sched [calm_intros]: "calm (sched k)"
  unfolding calm_def
proof (intro allI impI)
  fix st r st' j
  assume "sched k st = (r, st')" "\<forall>e. r = Inl e \<longrightarrow> e = SocketError" "idle j st"
  with no_socket_error [of k] stays show "idle j st'" by (cases r) (auto simp: never_def dest: spec [of _ st])
qed

lemma remove_laws: "keeps (sound X) (sched_remove sched k v)" "calm (sched_remove sched k v)"
  "ends_within n (sched_remove sched k v)"
proof -
  let ?f = "\<lambda>p :: psched. p\<lparr>ps_values := remove1 v (ps_values p)\<rparr>"
  have "sound X (upd_sched k ?f st)" if "sound X st" for st
    by (rule sound_upd [OF that]) (auto simp: heap_ok_def diff_subset_eq_self)
  then show "keeps (sound X) (sched_remove sched k v)" unfolding sched_remove_def
    by (intro keeps_intros keeps_sound) (auto simp: keeps_def)
  have "idle j (upd_sched k ?f st)" if "idle j st" for j st
    using that by (auto simp: idle_def upd_sched_def update_conv split: option.splits)
  then have "calm (modS (upd_sched k ?f))" by (simp add: calm_def)
  then show "calm (sched_remove sched k v)" unfolding sched_remove_def
    by (intro calm_bindS calm_read calm_if calm_thenS calm_sched calm_basic)
  have "waiting (upd_sched k ?f st) = waiting st" for st by (rule waiting_upd_same) simp
  then show "ends_within n (sched_remove sched k v)" unfolding sched_remove_def
    by (intro within_intros ends) (simp_all add: ends_within_def the_sched_def dict_get_def split: option.split)
qed

lemma tracker_close_laws: "calm (tracker_close sched c)" "ends_within n (tracker_close sched c)"
proof -
  have "calm (modS (\<lambda>st. st\<lparr>tk_connections := tk_connections st - {c}\<rparr>))" by (rule calm_modS) simp
  then show "calm (tracker_close sched c)" unfolding tracker_close_def
    by (intro calm_bindS calm_thenS calm_basic) (auto split: option.split intro!: calm_basic calm_bindS calm_forS remove_laws)
  have "ends_within n (modS (\<lambda>st. st\<lparr>tk_connections := tk_connections st - {c}\<rparr>))"
    by (rule within_modS) (simp add: waiting_def)
  then show "ends_within n (tracker_close sched c)" unfolding tracker_close_def
    by (intro within_bindS within_thenS within_basic)
       (auto split: option.split intro!: within_basic within_bindS within_forS remove_laws after_colon_error)
qed

lemma close_laws: "keeps (sound X) (close_conn sched c)" "calm (close_conn sched c)" "ends_within n (close_conn sched c)"
proof -
  show "calm (close_conn sched c)" unfolding close_conn_def
    by (intro calm_bindS calm_if calm_thenS calm_basic calm_conn tracker_close_laws)
  show "ends_within n (close_conn sched c)" unfolding close_conn_def
    by (intro within_bindS within_if within_thenS within_basic tracker_close_laws within_modS) simp
  show "keeps (sound X) (close_conn sched c)" unfolding keeps_def
  proof (intro allI impI)
    fix st
    assume st: "sound X st"
    let ?s1 = "upd_conn c (\<lambda>cn. cn\<lparr>cn_sock := False\<rparr>) st"
    let ?s2 = "?s1\<lparr>tk_connections := tk_connections ?s1 - {c}\<rparr>"
    let ?rest = "bindS (getS (\<lambda>st. tk_conns st c)) (\<lambda>cn.
       case map_of (cn_info cn) ''key'' of
         None \<Rightarrow> retS ()
       | Some j \<Rightarrow> bindS (liftS (after_colon j)) (\<lambda>key. forS (sched_remove sched key) (cn_puts cn)))"
    have rest: "keeps (sound X) ?rest"
      by (intro keeps_bindS keeps_basic)
         (auto split: option.split intro!: keeps_basic keeps_bindS keeps_forS remove_laws)
    have t: "tk_connections ?s1 = tk_connections st" by (simp add: upd_conn_def)
    show "sound X (snd (close_conn sched c st))"
    proof (cases "cn_sock (tk_conns st c)")
      case False
      then show ?thesis using st by (simp add: close_conn_def bindS_run(1) [where m = "getS _"])
    next
      case True
      have run: "close_conn sched c st = (if c \<in> tk_connections ?s1 then ?rest ?s2 else (Inl KeyError, ?s1))"
        using True by (simp add: close_conn_def tracker_close_def bindS_def thenS_def)
      show ?thesis using sound_close [OF st True] keepsD [OF rest] unfolding run t by (auto split: if_splits)
    qed
  qed
qed

lemma write_laws: "keeps (sound X) (write_message sched c m)" "calm (write_message sched c m)"
  "ends_within n (write_message sched c m)"
proof -
  show "keeps (sound X) (write_message sched c m)" unfolding write_message_def
    by (intro keeps_bindS keeps_if keeps_basic close_laws keeps_conn) simp
  show "calm (write_message sched c m)" unfolding write_message_def
    by (intro calm_bindS calm_if calm_basic close_laws calm_conn)
  show "ends_within n (write_message sched c m)" unfolding write_message_def
    by (intro within_bindS within_if within_basic close_laws within_modS) simp_all
qed

lemma ret_value_laws: "keeps (sound X) (ret_value sched c j)" "calm (ret_value sched c j)"
  "ends_within n (ret_value sched c j)"
proof -
  show "keeps (sound X) (ret_value sched c j)" unfolding ret_value_def by (intro keeps_thenS write_laws)
  show "calm (ret_value sched c j)" unfolding ret_value_def by (intro calm_thenS write_laws)
  show "ends_within n (ret_value sched c j)" unfolding ret_value_def by (intro within_thenS write_laws)
qed

lemma request_cb_laws: "keeps (sound X) (request_cb sched c v)" "calm (request_cb sched c v)"
  "ends_within n (request_cb sched c v)"
proof -
  obtain a b d e where v: "v = (a, b, d, e)" by (cases v)
  show "keeps (sound X) (request_cb sched c v)" unfolding request_cb_def v prod.case
    by (intro keeps_bindS keeps_if keeps_basic keeps_tryS ret_value_laws)
  show "calm (request_cb sched c v)" unfolding request_cb_def v prod.case
    by (intro calm_bindS calm_if calm_basic calm_tryS ret_value_laws)
  show "ends_within n (request_cb sched c v)" unfolding request_cb_def v prod.case
    by (intro within_bindS within_if within_basic within_tryS ret_value_laws)
qed

lemma request_cb_error: "never SocketError (request_cb sched c v)"
  unfolding request_cb_def
  by (cases v) (auto intro!: never_bindS never_basic)

lemma drop_laws: "keeps (sound X) (drop_matchkey v)" "calm (drop_matchkey v)" "ends_within m (drop_matchkey v)"
proof -
  obtain a b d e where v: "v = (a, b, d, e)" by (cases v)
  show "keeps (sound X) (drop_matchkey v)" unfolding drop_matchkey_def v prod.case
    by (intro keeps_bindS keeps_thenS keeps_basic keeps_conn) simp
  show "calm (drop_matchkey v)" unfolding drop_matchkey_def v prod.case
    by (intro calm_bindS calm_thenS calm_basic calm_conn)
  show "ends_within m (drop_matchkey v)" unfolding drop_matchkey_def v prod.case
    by (intro within_bindS within_thenS within_basic within_modS) simp_all
qed

lemma drop_error: "never SocketError (drop_matchkey v)"
  unfolding drop_matchkey_def by (cases v) (auto intro!: never_bindS never_thenS never_basic)

text \<open>Serving a request that was taken, with the resource in hand.\<close>

lemma serve_sound:
  assumes "sound (add_mset v X) st"
  shows "sound X (snd (serve sched k c v st))"
proof -
  obtain r st1 where cb: "request_cb sched c v st = (r, st1)" by fastforce
  have s1: "sound (add_mset v X) st1" using keepsD [OF request_cb_laws(1) assms] cb by (metis snd_conv)
  show ?thesis
  proof (cases r)
    case (Inl e)
    have "sound X st1" using s1 sound_mono [of X "{#v#}"] by simp
    then show ?thesis using Inl cb by (simp add: serve_def bindS_def)
  next
    case (Inr consumed)
    have "keeps (sound X) (thenS (drop_matchkey v) (sched k))" by (intro keeps_thenS drop_laws keeps_sound)
    moreover have "sound X (upd_sched k (\<lambda>p. p\<lparr>ps_values := ps_values p @ [v]\<rparr>) st1)"
      by (rule sound_upd [OF s1]) (auto simp: heap_ok_def)
    ultimately show ?thesis using Inr cb sound_grant [OF s1] keepsD [OF keeps_sound [of X k]]
      by (simp add: serve_def bindS_def thenS_def keeps_def)
  qed
qed

lemma serve_error: "never SocketError (serve sched k c v)"
  unfolding serve_def
  by (intro never_bindS never_thenS never_if never_basic request_cb_error drop_error no_socket_error)

lemma serve_settles: "serve sched k c v st = (Inr u, st') \<Longrightarrow> idle k st'"
  by (auto simp: serve_def bindS_Inr thenS_Inr dest: settles)

lemma idle_other: "j \<noteq> k \<Longrightarrow> idle j (upd_sched k f st) = idle j st"
  by (simp add: idle_def upd_sched_def update_conv split: option.split)

lemma serve_stays:
  assumes "serve sched k c v st = (Inr u, st')" "idle j st" "j \<noteq> k"
  shows "idle j st'"
proof -
  obtain consumed st1 st2 where r: "request_cb sched c v st = (Inr consumed, st1)"
    "(if consumed then thenS (modS (\<lambda>st. st\<lparr>tk_granted := tk_granted st @ [(c, v)]\<rparr>)) (drop_matchkey v)
      else modS (upd_sched k (\<lambda>p. p\<lparr>ps_values := ps_values p @ [v]\<rparr>))) st1 = (Inr (), st2)"
    "sched k st2 = (Inr u, st')"
    using assms(1) by (auto simp: serve_def bindS_Inr thenS_Inr)
  have i1: "idle j st1" using calmD [OF request_cb_laws(2) r(1)] assms(2) by simp
  have "calm (thenS (modS (\<lambda>st. st\<lparr>tk_granted := tk_granted st @ [(c, v)]\<rparr>)) (drop_matchkey v))"
    by (intro calm_thenS calm_modS drop_laws) simp
  then have "idle j st2" using r(2) i1 idle_other [OF assms(3)] calmD by (cases consumed) fastforce+
  with stays [OF r(3)] show ?thesis by blast
qed

lemma serve_ends: "ends_within n (serve sched k c v)"
proof -
  have "waiting (upd_sched k (\<lambda>p. p\<lparr>ps_values := ps_values p @ [v]\<rparr>) st) = waiting st" for st
    by (rule waiting_upd_same) simp
  then show ?thesis unfolding serve_def
    by (intro within_bindS within_thenS within_if within_modS request_cb_laws drop_laws ends) (simp_all add: waiting_def)
qed

text \<open>One more turn obeys the laws again, with one more request.\<close>

lemma turn_run:
  "schedule_turn sched k st =
     (case the_sched k st of
        Inl e \<Rightarrow> (Inl e, st)
      | Inr p \<Rightarrow> (case (ps_requests p, ps_values p) of
            ((_, _, c) # rs, v # vs) \<Rightarrow>
              serve sched k c v (upd_sched k (\<lambda>p. p\<lparr>ps_requests := rs, ps_values := vs\<rparr>) st)
          | _ \<Rightarrow> (Inr (), st)))"
  by (auto simp: schedule_turn_def bindS_def thenS_def split: sum.split list.split)

lemma the_sched_Inr: "the_sched k st = Inr p \<longleftrightarrow> map_of (tk_scheds st) k = Some p"
  by (simp add: the_sched_def dict_get_Inr)

lemma close_buffers: "keeps (buffers F) (close_conn sched c)"
proof -
  have "keeps (buffers F) (sched_remove sched k v)" for k v unfolding sched_remove_def
    by (intro keeps_bindS keeps_read keeps_if keeps_thenS keeps_buffers_other keeps_buffers keeps_basic) simp
  then show ?thesis unfolding close_conn_def tracker_close_def
    by (auto intro!: keeps_bindS keeps_if keeps_thenS keeps_basic keeps_buffers_mod keeps_forS
        split: option.split simp: upd_conn_def)
qed

lemma ret_value_buffers: "keeps (buffers F) (ret_value sched c j)"
  unfolding ret_value_def write_message_def
  by (intro keeps_thenS keeps_bindS keeps_if keeps_basic close_buffers keeps_buffers_conn) simp_all

text \<open>Without a bound on the fuel of the loop the other operations do not run out of it.\<close>

lemma never_writes:
  assumes "\<And>k. never OutOfFuel (sched k)"
  shows "never OutOfFuel (close_conn sched c)" "never OutOfFuel (ret_value sched c j)"
    "never OutOfFuel (write_message sched c m)"
proof -
  have "never OutOfFuel (sched_remove sched k v)" for k v unfolding sched_remove_def
    by (auto intro!: never_bindS never_read never_thenS never_basic assms simp: the_sched_error)
  then show c: "never OutOfFuel (close_conn sched c)" for c unfolding close_conn_def tracker_close_def
    by (auto intro!: never_bindS never_thenS never_basic never_forS after_colon_error split: option.split)
  show w: "never OutOfFuel (write_message sched c m)" for c m unfolding write_message_def
    by (auto intro!: never_bindS never_basic c)
  show "never OutOfFuel (ret_value sched c j)" unfolding ret_value_def by (intro never_thenS w)
qed

lemma turn_buffers: "keeps (buffers F) (schedule_turn sched k)"
proof -
  have "keeps (buffers F) (request_cb sched c v)" for c v unfolding request_cb_def
    by (cases v) (auto intro!: keeps_bindS keeps_basic keeps_tryS ret_value_buffers)
  moreover have "keeps (buffers F) (drop_matchkey v)" for v unfolding drop_matchkey_def
    by (cases v) (auto intro!: keeps_bindS keeps_thenS keeps_basic keeps_buffers_conn)
  ultimately show ?thesis unfolding schedule_turn_def serve_def
    by (auto intro!: keeps_bindS keeps_thenS keeps_basic keeps_read keeps_buffers_other keeps_buffers split: list.split)
qed

lemma turn_laws: "rescheduling (schedule_turn sched) (Suc n)"
proof
  fix X k st u st' j
  consider (stuck) e where "the_sched k st = Inl e"
    | (rest) p where "the_sched k st = Inr p" "ps_requests p = [] \<or> ps_values p = []"
    | (go) p a b c rs v vs where "the_sched k st = Inr p" "ps_requests p = (a, b, c) # rs" "ps_values p = v # vs"
    by (cases "the_sched k st") (auto, metis list.exhaust prod_cases3)
  note cases = this
  show "never SocketError (schedule_turn sched k)" unfolding schedule_turn_def
    by (auto intro!: never_bindS never_thenS never_basic serve_error split: list.split)
       (simp add: never_def the_sched_error)
  show "idle k st'" if "schedule_turn sched k st = (Inr u, st')"
    using that serve_settles the_sched_Inr
    by (cases rule: cases) (auto simp: turn_run idle_def split: list.splits)
  show "idle j st'" if t: "schedule_turn sched k st = (Inr u, st')" "idle j st"
  proof (cases rule: cases)
    case stuck
    with t show ?thesis by (simp add: turn_run)
  next
    case rest
    with t show ?thesis by (auto simp: turn_run split: list.splits)
  next
    case go
    with t show ?thesis using serve_settles serve_stays idle_other
      by (cases "j = k") (auto simp: turn_run)
  qed
  show "keeps (sound X) (schedule_turn sched k)" for X k unfolding keeps_def
  proof (intro allI impI)
    fix st
    assume s: "sound X st"
    show "sound X (snd (schedule_turn sched k st))"
    proof (cases "\<exists>p a b c rs v vs. the_sched k st = Inr p \<and> ps_requests p = (a, b, c) # rs \<and> ps_values p = v # vs")
      case False
      then have "snd (schedule_turn sched k st) = st"
        by (auto simp: turn_run split: sum.split list.split)
      then show ?thesis using s by simp
    next
      case True
      then obtain p a b c rs v vs where p: "the_sched k st = Inr p" "ps_requests p = (a, b, c) # rs" "ps_values p = v # vs"
        by blast
      have "sound (add_mset v X) (upd_sched k (\<lambda>p. p\<lparr>ps_requests := rs, ps_values := vs\<rparr>) st)"
        by (rule sound_upd [OF s]) (use p heap_tail in \<open>auto simp: the_sched_Inr\<close>)
      from serve_sound [OF this] show ?thesis using p by (simp add: turn_run)
    qed
  qed
  show "keeps (buffers F) (schedule_turn sched k)" for F k by (rule turn_buffers)
  show "ends_within (Suc n) (schedule_turn sched k)" for k unfolding ends_within_def
  proof (intro allI impI)
    fix st
    assume w: "waiting st < Suc n"
    show "fst (schedule_turn sched k st) \<noteq> Inl OutOfFuel \<and> waiting (snd (schedule_turn sched k st)) \<le> waiting st"
    proof (cases "\<exists>p a b c rs v vs. the_sched k st = Inr p \<and> ps_requests p = (a, b, c) # rs \<and> ps_values p = v # vs")
      case False
      then show ?thesis using the_sched_error [of k st]
        by (auto simp: turn_run split: sum.split list.split)
    next
      case True
      then obtain p a b c rs v vs where p: "the_sched k st = Inr p" "ps_requests p = (a, b, c) # rs" "ps_values p = v # vs"
        by blast
      let ?st = "upd_sched k (\<lambda>p. p\<lparr>ps_requests := rs, ps_values := vs\<rparr>) st"
      have "waiting ?st + 1 = waiting st"
        using waiting_upd [of st k p "\<lambda>p. p\<lparr>ps_requests := rs, ps_values := vs\<rparr>"] p by (simp add: the_sched_Inr)
      moreover from this have "waiting ?st < n" using w by simp
      then have "fst (serve sched k c v ?st) \<noteq> Inl OutOfFuel \<and> waiting (snd (serve sched k c v ?st)) \<le> waiting ?st"
        using serve_ends [of k c v] by (simp add: ends_within_def)
      ultimately show ?thesis using p by (simp add: turn_run)
    qed
  qed
qed

end

text \<open>The loop of the tracker is an instance, with any fuel.\<close>

lemma schedule_laws: "rescheduling (schedule n) n"
proof (induction n)
  case 0
  then show ?case by unfold_locales (simp_all add: ends_within_def keeps_def never_def)
next
  case (Suc n)
  then show ?case using rescheduling.turn_laws by simp
qed

interpretation loop: rescheduling "schedule n" n for n
  by (rule schedule_laws)

interpretation tracker: rescheduling run n for n
proof
  fix X k st u st' j
  show "keeps (sound X) (run k)"
    using loop.keeps_sound by (simp add: keeps_def run_def del: schedule.simps)
  show "never SocketError (run k)" using loop.no_socket_error by (simp add: never_def run_def del: schedule.simps)
  show "idle k st'" if "run k st = (Inr u, st')" using that loop.settles by (simp add: run_def del: schedule.simps)
  show "idle j st'" if "run k st = (Inr u, st')" "idle j st" using that loop.stays by (simp add: run_def del: schedule.simps)
  show "keeps (buffers F) (run k)" for F
    using loop.keeps_buffers by (simp add: keeps_def run_def del: schedule.simps)
  show "ends_within n (run k)" using loop.ends by (simp add: ends_within_def run_def del: schedule.simps)
qed

end
