(* ===== verification/TrackerRuns.thy ===== *)
theory TrackerRuns
  imports TrackerLaws
begin

text \<open>
  The laws lifted to the handlers and to whole histories of the tracker, the queue that a scheduler
  implements, and the properties.
\<close>

section \<open>The handlers keep the invariant\<close>

lemma ensure_laws: "keeps (sound X) (ensure_sched key)" "calm (ensure_sched key)" "keeps (buffers F) (ensure_sched key)"
  "never OutOfFuel (ensure_sched key)"
proof -
  let ?new = "\<lparr>ps_values = [], ps_requests = [], ps_cnt = 0\<rparr>"
  let ?f = "\<lambda>st. if key \<in> fst ` set (tk_scheds st) then st
          else st\<lparr>tk_scheds := AList.update key ?new (tk_scheds st)\<rparr>"
  have "sound X (?f st)" if s: "sound X st" for st
  proof (cases "key \<in> fst ` set (tk_scheds st)")
    case False
    have d: "dict_ok (AList.update key ?new (tk_scheds st))" using s
      by (simp add: sound_def well_formed_def distinct_update)
    have "heap_ok p" if "(j, p) \<in> set (AList.update key ?new (tk_scheds st))" for j p
    proof -
      have "((map_of (tk_scheds st))(key \<mapsto> ?new)) j = Some p"
        using that d by (simp add: map_of_dict_iff [symmetric] update_conv)
      then show ?thesis using s sched_values [of st j]
        by (cases "j = key") (auto simp: sound_def heap_ok_def)
    qed
    moreover have "free (?f st) = free st" 
      using False total_new [of key "tk_scheds st" "\<lambda>p. mset (ps_values p)" ?new] by (simp add: free_def)
    ultimately show ?thesis using False s d by (auto simp: sound_def well_formed_def)
  qed (use s in simp)
  then show "keeps (sound X) (ensure_sched key)" unfolding ensure_sched_def
    by (intro keeps_thenS keeps_basic keeps_modS)
  have "idle j (?f st)" if "idle j st" for j st
    using that by (auto simp: idle_def update_conv)
  then have "calm (modS ?f)" by (simp add: calm_def)
  then show "calm (ensure_sched key)" unfolding ensure_sched_def by (intro calm_thenS calm_basic)
  show "keeps (buffers F) (ensure_sched key)" unfolding ensure_sched_def
    by (intro keeps_thenS keeps_basic keeps_buffers_other) simp
  show "never OutOfFuel (ensure_sched key)" unfolding ensure_sched_def
    by (intro never_thenS never_basic) simp
qed

text \<open>A change of one scheduler followed by its loop.\<close>

lemma calm_upd_run: "calm (thenS (modS (upd_sched k f)) (run k))"
  unfolding calm_def
proof (intro allI impI)
  fix st r st' j
  assume t: "thenS (modS (upd_sched k f)) (run k) st = (r, st')" and e: "\<forall>e. r = Inl e \<longrightarrow> e = SocketError"
    and i: "idle j st"
  have r: "run k (upd_sched k f st) = (r, st')" using t by (simp add: thenS_def bindS_def)
  moreover have "r \<noteq> Inl SocketError" using tracker.no_socket_error [of k] r by (metis fst_conv never_def)
  ultimately obtain u where u: "run k (upd_sched k f st) = (Inr u, st')" using e by (cases r) auto
  show "idle j st'"
  proof (cases "j = k")
    case True
    with u tracker.settles show ?thesis by blast
  next
    case False
    with u i tracker.stays tracker.idle_other show ?thesis by blast
  qed
qed

lemma never_run: "never OutOfFuel (run k)"
  using tracker.ends by (simp add: never_def ends_within_def) blast

lemma put_laws: "keeps (buffers F) (tracker_put key v)" "calm (tracker_put key v)" "never OutOfFuel (tracker_put key v)"
  unfolding tracker_put_def sched_put_def
  by (auto intro!: keeps_thenS keeps_buffers_other tracker.keeps_buffers ensure_laws calm_thenS [OF _ calm_upd_run]
      never_thenS never_basic never_run)

lemma put_sound:
  assumes "sound (add_mset v X) st"
  shows "sound X (snd (tracker_put key v st))"
proof -
  obtain r st1 where e: "ensure_sched key st = (r, st1)" by fastforce
  have s1: "sound (add_mset v X) st1" using keepsD [OF ensure_laws(1) assms] e by (metis snd_conv)
  show ?thesis
  proof (cases r)
    case (Inl x)
    then show ?thesis using e s1 sound_mono [of X "{#v#}"] by (simp add: tracker_put_def thenS_def bindS_def)
  next
    case (Inr x)
    have "sound X (upd_sched key (\<lambda>p. p\<lparr>ps_values := ps_values p @ [v]\<rparr>) st1)"
      by (rule sound_upd [OF s1]) (auto simp: heap_ok_def)
    then show ?thesis using e Inr keepsD [OF tracker.keeps_sound]
      by (simp add: tracker_put_def sched_put_def thenS_def bindS_def)
  qed
qed

lemma heap_push:
  assumes "heap_ok p"
  shows "heap_ok (p\<lparr>ps_requests := heappush (q, ps_cnt p, c) (ps_requests p), ps_cnt := ps_cnt p + 1\<rparr>)"
proof -
  let ?x = "(q, ps_cnt p, c)" and ?id = "fst \<circ> snd :: request \<Rightarrow> nat"
  have "mset (map ?id (insort ?x (ps_requests p))) = mset (map ?id (?x # ps_requests p))" by simp
  then have "distinct (map ?id (insort ?x (ps_requests p))) = distinct (map ?id (?x # ps_requests p))"
    by (rule mset_eq_imp_distinct_iff)
  moreover have "ps_cnt p \<notin> ?id ` set (ps_requests p)" using assms by (force simp: heap_ok_def)
  ultimately show ?thesis using assms
    by (auto simp: heap_ok_def heappush_def sorted_insort set_insort_key less_Suc_eq)
qed

lemma request_laws: "keeps (sound X) (tracker_request key pr c)" "calm (tracker_request key pr c)"
  "keeps (buffers F) (tracker_request key pr c)" "never OutOfFuel (tracker_request key pr c)"
proof -
  have "sound X (upd_sched key (\<lambda>p. p\<lparr>ps_requests := heappush (- q, ps_cnt p, c) (ps_requests p), ps_cnt := ps_cnt p + 1\<rparr>) st)"
    if "sound X st" for st q
    by (rule sound_upd [OF that]) (auto intro: heap_push [simplified])
  then have "keeps (sound X) (sched_request key pr c)" unfolding sched_request_def
    by (cases pr) (auto intro!: keeps_thenS keeps_basic keeps_modS tracker.keeps_sound)
  then show "keeps (sound X) (tracker_request key pr c)" unfolding tracker_request_def
    by (intro keeps_thenS ensure_laws)
  show "calm (tracker_request key pr c)" unfolding tracker_request_def sched_request_def
    by (cases pr) (auto intro!: calm_thenS [OF ensure_laws(2)] calm_upd_run calm_basic)
  show "keeps (buffers F) (tracker_request key pr c)" unfolding tracker_request_def sched_request_def
    by (cases pr) (auto intro!: keeps_thenS ensure_laws keeps_buffers_other tracker.keeps_buffers keeps_basic)
  show "never OutOfFuel (tracker_request key pr c)" unfolding tracker_request_def sched_request_def
    by (cases pr) (auto intro!: never_thenS ensure_laws never_basic never_run)
qed

lemma offer_put:
  assumes "keeps (sound X) m"
  shows "keeps (sound X) (thenS (modS (\<lambda>st. st\<lparr>tk_offered := tk_offered st @ [v]\<rparr>)) (thenS (tracker_put key v) m))"
  unfolding keeps_def
proof (intro allI impI)
  fix st
  assume "sound X st"
  then have "sound (add_mset v X) (st\<lparr>tk_offered := tk_offered st @ [v]\<rparr>)"
    by (simp add: sound_def well_formed_def free_def add.assoc)
  then have "sound X (snd (tracker_put key v (st\<lparr>tk_offered := tk_offered st @ [v]\<rparr>)))" by (rule put_sound)
  then show "sound X (snd (thenS (modS (\<lambda>st. st\<lparr>tk_offered := tk_offered st @ [v]\<rparr>)) (thenS (tracker_put key v) m) st))"
    using keepsD [OF assms] by (auto simp: thenS_def bindS_def split: prod.split sum.split)
qed

lemma js_at_error: "js_at a i \<noteq> Inl OutOfFuel"
  by (cases "(a, i)" rule: js_at.cases) simp_all

lemma handle_put_laws: "keeps (sound X) (handle_put c args)" "calm (handle_put c args)"
  "keeps (buffers F) (handle_put c args)" "never OutOfFuel (handle_put c args)"
proof -
  show "keeps (sound X) (handle_put c args)" unfolding handle_put_def Let_def
    by (auto intro!: keeps_bindS keeps_thenS [OF keeps_basic(5)] keeps_thenS [OF keeps_conn] offer_put
        keeps_basic keeps_thenS [OF keeps_conn tracker.ret_value_laws(1)])
  show "calm (handle_put c args)" unfolding handle_put_def Let_def
    by (auto intro!: calm_bindS calm_thenS calm_basic calm_modS put_laws tracker.ret_value_laws simp: upd_conn_def)
  show "keeps (buffers F) (handle_put c args)" unfolding handle_put_def Let_def
    by (auto intro!: keeps_bindS keeps_thenS keeps_basic keeps_buffers_mod put_laws tracker.ret_value_buffers
        simp: upd_conn_def)
  have "js_pair a \<noteq> Inl OutOfFuel" for a by (cases a rule: js_pair.cases) simp_all
  with js_at_error show "never OutOfFuel (handle_put c args)" unfolding handle_put_def Let_def
    by (auto intro!: never_bindS never_thenS never_basic put_laws tracker.never_writes never_run simp: bindR_Inl_iff)
qed

lemma handle_request_laws: "keeps (sound X) (handle_request c args)" "calm (handle_request c args)"
  "keeps (buffers F) (handle_request c args)" "never OutOfFuel (handle_request c args)"
proof -
  show "keeps (sound X) (handle_request c args)" "keeps (buffers F) (handle_request c args)"
    unfolding handle_request_def by (intro keeps_bindS keeps_thenS keeps_basic request_laws)+
  show "calm (handle_request c args)" unfolding handle_request_def
    by (intro calm_bindS calm_thenS calm_basic request_laws)
  show "never OutOfFuel (handle_request c args)" unfolding handle_request_def
    by (intro never_bindS never_thenS never_basic request_laws js_at_error)
qed

lemma fill_addr_error: "fill_addr addr info \<noteq> Inl OutOfFuel"
  using js_at_error by (auto simp: fill_addr_def bindR_Inl_iff dict_get_Inl)

lemma handle_info_laws: "keeps (sound X) (handle_update_info c args)" "calm (handle_update_info c args)"
  "keeps (buffers F) (handle_update_info c args)" "never OutOfFuel (handle_update_info c args)"
proof -
  show "keeps (sound X) (handle_update_info c args)" unfolding handle_update_info_def
    by (auto intro!: keeps_bindS keeps_thenS [OF keeps_conn tracker.ret_value_laws(1)] keeps_basic split: json.split)
  show "keeps (buffers F) (handle_update_info c args)" unfolding handle_update_info_def
    by (auto intro!: keeps_bindS keeps_thenS [OF keeps_buffers_conn tracker.ret_value_buffers] keeps_basic split: json.split)
  show "calm (handle_update_info c args)" unfolding handle_update_info_def
    by (auto intro!: calm_bindS calm_thenS [OF calm_conn] tracker.ret_value_laws calm_basic split: json.split)
  show "never OutOfFuel (handle_update_info c args)" unfolding handle_update_info_def
    by (auto intro!: never_bindS never_thenS never_basic js_at_error fill_addr_error tracker.never_writes never_run
        split: json.split)
qed

lemma stop_laws: "keeps (sound X) (tracker_stop order)" "calm (tracker_stop order)"
  "keeps (buffers F) (tracker_stop order)" "never OutOfFuel (tracker_stop order)"
proof -
  have "sound X (st\<lparr>tk_running := False\<rparr>)" if "sound X st" for st
    using that by (simp add: sound_def well_formed_def free_def)
  then show "keeps (sound X) (tracker_stop order)" unfolding tracker_stop_def
    by (intro keeps_thenS keeps_forS tracker.close_laws keeps_modS)
  show "calm (tracker_stop order)" unfolding tracker_stop_def
    by (intro calm_thenS calm_forS tracker.close_laws calm_modS) simp
  show "keeps (buffers F) (tracker_stop order)" unfolding tracker_stop_def
    by (intro keeps_thenS keeps_forS tracker.close_buffers keeps_buffers_other) simp
  show "never OutOfFuel (tracker_stop order)" unfolding tracker_stop_def
    by (intro never_thenS never_forS tracker.never_writes never_run never_basic)
qed

lemma summary_error: "tracker_summary show_key order st \<noteq> Inl OutOfFuel"
proof -
  have "is_server cn \<noteq> Inl OutOfFuel" for cn by (simp add: is_server_def split: option.split json.split)
  then have "foldR (\<lambda>c acc. bindR (is_server (tk_conns st c)) (\<lambda>b.
      Inr (if b then acc @ [JsObj (cn_info (tk_conns st c))] else acc))) order acc \<noteq> Inl OutOfFuel" for acc
    by (induction order arbitrary: acc) (auto simp: bindR_Inl_iff)
  then show ?thesis by (auto simp: tracker_summary_def bindR_Inl_iff)
qed

lemma call_handler_laws: "keeps (sound X) (call_handler show_key order c args)" "calm (call_handler show_key order c args)"
  "keeps (buffers F) (call_handler show_key order c args)" "never OutOfFuel (call_handler show_key order c args)"
proof -
  show "keeps (sound X) (call_handler show_key order c args)" unfolding call_handler_def
    by (intro keeps_bindS keeps_if keeps_thenS keeps_basic keeps_read handle_put_laws handle_request_laws handle_info_laws
        stop_laws tracker.ret_value_laws tracker.close_laws)
  show "calm (call_handler show_key order c args)" unfolding call_handler_def
    by (intro calm_bindS calm_if calm_thenS calm_basic calm_read handle_put_laws handle_request_laws handle_info_laws
        stop_laws tracker.ret_value_laws tracker.close_laws)
  show "keeps (buffers F) (call_handler show_key order c args)" unfolding call_handler_def
    by (intro keeps_bindS keeps_if keeps_thenS keeps_basic keeps_read handle_put_laws handle_request_laws handle_info_laws
        stop_laws tracker.ret_value_buffers tracker.close_buffers)
  show "never OutOfFuel (call_handler show_key order c args)" unfolding call_handler_def
    by (intro never_bindS never_if never_thenS never_basic never_read js_at_error summary_error handle_put_laws
        handle_request_laws handle_info_laws stop_laws tracker.never_writes never_run)
qed

section \<open>Receiving\<close>

text \<open>What the receiving code needs of the handler of a decoded message.\<close>

locale message_handler =
  fixes handler :: "nat \<Rightarrow> json \<Rightarrow> (tracker, unit) sx"
    and loads :: "bytes \<Rightarrow> json res"
  assumes handler_sound: "keeps (sound {#}) (handler c args)"
    and handler_calm: "calm (handler c args)"
    and handler_buffers: "keeps (buffers F) (handler c args)"
    and handler_ends: "never OutOfFuel (handler c args)"
begin

lemma drain_laws: "keeps (sound {#}) (drain handler loads c fuel)" "calm (drain handler loads c fuel)"
proof -
  show "keeps (sound {#}) (drain handler loads c fuel)"
    by (induction fuel) (auto intro!: keeps_bindS keeps_thenS [OF keeps_conn] keeps_thenS [OF handler_sound] keeps_basic
        split: option.split simp del: basic_run)
  show "calm (drain handler loads c fuel)"
    by (induction fuel) (auto intro!: calm_bindS calm_thenS [OF calm_conn] calm_thenS [OF handler_calm] calm_basic
        split: option.split simp del: basic_run)
qed

lemma message_laws: "keeps (sound {#}) (update_read handler loads c m)" "calm (update_read handler loads c m)"
proof -
  have i: "keeps (sound {#}) (init_conn c m)" "calm (init_conn c m)" unfolding init_conn_def
    by (intro keeps_bindS keeps_if keeps_thenS keeps_basic keeps_conn tracker.close_laws tracker.write_laws, simp)
       (intro calm_bindS calm_if calm_thenS calm_basic calm_conn tracker.close_laws tracker.write_laws)
  have "keeps (sound {#}) (on_message handler loads c m)" unfolding on_message_def Let_def
    by (intro keeps_bindS keeps_if keeps_basic i keeps_thenS [OF keeps_conn] drain_laws) simp
  then show "keeps (sound {#}) (update_read handler loads c m)" unfolding update_read_def
    by (intro keeps_bindS keeps_if keeps_tryS keeps_basic tracker.close_laws)
  have "calm (on_message handler loads c m)" unfolding on_message_def Let_def
    by (intro calm_bindS calm_if calm_basic i calm_thenS [OF calm_conn] drain_laws)
  then show "calm (update_read handler loads c m)" unfolding update_read_def
    by (intro calm_bindS calm_if calm_tryS calm_basic tracker.close_laws)
qed

lemma event_sound:
  assumes "tstep handler loads st ev r st'" "sound {#} st"
  shows "sound {#} st'"
  using assms(1)
proof (cases rule: tstep.cases)
  case (new addr)
  with assms(2) show ?thesis by (auto simp: accept_def sound_def well_formed_def free_def new_conn_def)
next
  case (bytes c m)
  with keepsD [OF message_laws(1) assms(2), of c m] show ?thesis by simp
next
  case (hangup c)
  with keepsD [OF tracker.close_laws(1) assms(2), of c] show ?thesis by simp
next
  case (broken c)
  with assms(2) show ?thesis by auto
qed

lemma event_calm:
  assumes "tstep handler loads st ev (Inr u) st'" "idle k st"
  shows "idle k st'"
  using assms(1)
proof (cases rule: tstep.cases)
  case (new addr)
  with assms(2) show ?thesis by (auto simp: idle_def accept_def)
next
  case (bytes c m)
  then have "update_read handler loads c m st = (Inr u, st')" by simp
  from calmD [OF message_laws(2) this _ assms(2)] show ?thesis by simp
next
  case (hangup c)
  then have "close_conn run c st = (Inr u, st')" by simp
  from calmD [OF tracker.close_laws(2) this _ assms(2)] show ?thesis by simp
next
  case (broken c)
  with assms(2) show ?thesis by (auto simp: idle_def upd_conn_def)
qed

text \<open>Every frame taken shortens the buffer, unless its payload is empty.\<close>

lemma next_frame_shorter:
  assumes "next_frame f = (Some p, f')"
  shows "p = [] \<or> length (fr_data f') < length (fr_data f)"
proof -
  define d where "d = fr_data f"
  obtain n where p: "p = slice d 4 (4 + n)" "fr_data f' = drop (slice_bound (length d) (4 + n)) d"
    using assms by (auto simp: next_frame_def d_def split: option.splits sum.splits if_splits)
  have "p = []" if "slice_bound (length d) (4 + n) = 0" using that p(1) by (simp add: slice_def)
  moreover have "length (fr_data f') < length d" if "0 < slice_bound (length d) (4 + n)" "d \<noteq> []"
    using that p(2) by simp
  moreover have "p = []" if "d = []" using that p(1) by (simp add: slice_def)
  ultimately show ?thesis unfolding d_def by blast
qed

lemma drain_ends:
  assumes "\<And>b. loads b \<noteq> Inl OutOfFuel" "\<And>v. loads [] \<noteq> Inr v"
    and "length (fr_data (cn_frame (tk_conns st c))) < fuel"
  shows "fst (drain handler loads c fuel st) \<noteq> Inl OutOfFuel"
  using assms(3)
proof (induction fuel arbitrary: st)
  case (Suc fuel)
  obtain msg f where nf: "next_frame (cn_frame (tk_conns st c)) = (msg, f)" by fastforce
  let ?st = "upd_conn c (\<lambda>cn. cn\<lparr>cn_frame := f\<rparr>) st"
  show ?case
  proof (cases msg)
    case None
    with nf show ?thesis by (simp add: bindS_def thenS_def)
  next
    case (Some p)
    show ?thesis
    proof (cases "loads p")
      case (Inl e)
      with nf Some assms(1) [of p] show ?thesis by (simp add: bindS_def thenS_def)
    next
      case (Inr args)
      then have "p \<noteq> []" using assms(2) by auto
      then have short: "length (fr_data f) < fuel" using next_frame_shorter [of "cn_frame (tk_conns st c)"] nf Some Suc.prems by fastforce
      obtain r st2 where h: "handler c args ?st = (r, st2)" by fastforce
      have "buffers (\<lambda>i. cn_frame (tk_conns ?st i)) ?st" by (simp add: buffers_def)
      from keepsD [OF handler_buffers this, of c args] have "cn_frame (tk_conns st2 c) = cn_frame (tk_conns ?st c)"
        using h by (simp add: buffers_def)
      then have "cn_frame (tk_conns st2 c) = f" by (simp add: upd_conn_def)
      then have "fst (drain handler loads c fuel st2) \<noteq> Inl OutOfFuel" using Suc.IH short by simp
      moreover have "r \<noteq> Inl OutOfFuel" using handler_ends [of c args] h by (metis fst_conv never_def)
      ultimately show ?thesis using nf Some Inr h by (cases r) (simp_all add: bindS_def thenS_def)
    qed
  qed
qed simp

lemma event_ends:
  assumes "\<And>b. loads b \<noteq> Inl OutOfFuel" "\<And>v. loads [] \<noteq> Inr v"
  shows "never OutOfFuel (handle_event handler loads ev)"
proof -
  have "unpack_i b \<noteq> Inl OutOfFuel" for b by (cases b rule: unpack_i.cases) (simp_all add: Let_def)
  then have "never OutOfFuel (init_conn c m)" for c m unfolding init_conn_def
    by (intro never_bindS never_thenS never_if never_basic tracker.never_writes never_run)
  moreover have "never OutOfFuel (thenS (modS (upd_conn c (\<lambda>cn. cn\<lparr>cn_frame := (cn_frame cn)\<lparr>fr_data := data\<rparr>\<rparr>)))
      (drain handler loads c (Suc (length data))))" for c data
    unfolding never_def
  proof
    fix st
    show "fst (thenS (modS (upd_conn c (\<lambda>cn. cn\<lparr>cn_frame := (cn_frame cn)\<lparr>fr_data := data\<rparr>\<rparr>)))
      (drain handler loads c (Suc (length data))) st) \<noteq> Inl OutOfFuel"
    using drain_ends [OF assms, of "upd_conn c (\<lambda>cn. cn\<lparr>cn_frame := (cn_frame cn)\<lparr>fr_data := data\<rparr>\<rparr>) st" c "Suc (length data)"]
    by (simp add: thenS_def bindS_def upd_conn_def del: drain.simps)
  qed
  ultimately have "never OutOfFuel (on_message handler loads c m)" for c m unfolding on_message_def Let_def
    by (intro never_bindS never_basic never_if)
  then have "never OutOfFuel (update_read handler loads c m)" for c m unfolding update_read_def
    by (intro never_bindS never_tryS never_if never_basic tracker.never_writes never_run)
  then show ?thesis by (cases ev) (auto intro!: never_basic tracker.never_writes never_run)
qed

lemma history_sound: "history handler loads key evs st \<Longrightarrow> sound {#} st"
proof (induction rule: history.induct)
  case start
  show ?case by (simp add: init_tracker_def sound_def well_formed_def free_def total_of_def)
next
  case after
  then show ?case using event_sound by blast
qed

lemma history_calm: "history handler loads key evs st \<Longrightarrow> \<forall>(ev, r)\<in>set evs. r = Inr () \<Longrightarrow> idle k st"
proof (induction rule: history.induct)
  case start
  show ?case by (simp add: init_tracker_def idle_def)
next
  case (after evs st ev r st')
  then show ?case using event_calm by auto
qed

end

interpretation rpc: message_handler "call_handler show_key order" loads for show_key order loads
  by unfold_locales (rule call_handler_laws)+

section \<open>The queue that a scheduler implements\<close>

text \<open>
  The abstract queue has no heap and no numbers: free resources in the order they came, and requests,
  as priority and client, in the order in which they arrived. A resource goes to the earliest of the
  requests of greatest priority. An operation may grant one resource.
\<close>

type_synonym queue = "resource list \<times> (rat \<times> nat) list"

definition next_served :: "(rat \<times> nat) list \<Rightarrow> rat \<times> nat" where
  "next_served ws = hd (filter (\<lambda>w. fst w = Max (fst ` set ws)) ws)"

fun q_put :: "resource \<Rightarrow> queue \<Rightarrow> queue \<times> (nat \<times> resource) option" where
  "q_put v (fs, []) = ((fs @ [v], []), None)"
| "q_put v (fs, ws) = (let w = next_served ws in ((fs, remove1 w ws), Some (snd w, v)))"

fun q_request :: "rat \<times> nat \<Rightarrow> queue \<Rightarrow> queue \<times> (nat \<times> resource) option" where
  "q_request w ([], ws) = (([], ws @ [w]), None)"
| "q_request w (v # fs, ws) = ((fs, ws), Some (snd w, v))"

text \<open>
  A scheduler at rest that represents a queue: the numbers of the waiting requests follow their order
  of arrival, the heap is sorted, and all numbers are below the counter.
\<close>

abbreviation number_of :: "request \<Rightarrow> nat" where
  "number_of \<equiv> fst \<circ> snd"

definition waiter :: "request \<Rightarrow> rat \<times> nat" where
  "waiter w = (case w of (a, _, c) \<Rightarrow> (- a, c))"

definition arrivals :: "request list \<Rightarrow> (rat \<times> nat) list" where
  "arrivals rs = map waiter (sort_key number_of rs)"

definition represents :: "psched \<Rightarrow> queue \<Rightarrow> bool" where
  "represents p q \<longleftrightarrow>
     heap_ok p \<and> (ps_values p = [] \<or> ps_requests p = []) \<and> q = (ps_values p, arrivals (ps_requests p))"

lemma arrivals_Nil [simp]: "arrivals [] = []"
  by (simp add: arrivals_def)

lemma arrivals_Nil_iff [simp]: "arrivals rs = [] \<longleftrightarrow> rs = []"
  by (simp add: arrivals_def flip: length_0_conv)

lemma sort_key_unique:
  "mset ys = mset xs \<Longrightarrow> distinct (map f xs) \<Longrightarrow> sorted (map f ys) \<Longrightarrow> sort_key f xs = ys"
  by (metis distinct_map sort_key_inj_key_eq)

lemma arrivals_push:
  assumes "distinct (map number_of rs)" "\<forall>(_, i, _)\<in>set rs. i < n"
  shows "arrivals (heappush (a, n, c) rs) = arrivals rs @ [(- a, c)]"
proof -
  have "n \<notin> number_of ` set rs" using assms(2) by force
  moreover have "mset (map number_of (insort (a, n, c) rs)) = mset (map number_of ((a, n, c) # rs))" by simp
  then have "distinct (map number_of (insort (a, n, c) rs)) = distinct (map number_of ((a, n, c) # rs))"
    by (rule mset_eq_imp_distinct_iff)
  ultimately have "distinct (map number_of (insort (a, n, c) rs))" using assms(1) by simp
  then have "sort_key number_of (insort (a, n, c) rs) = sort_key number_of rs @ [(a, n, c)]"
    by (intro sort_key_unique) (use assms(2) in \<open>auto simp: sorted_append\<close>)
  then show ?thesis by (simp add: arrivals_def heappush_def waiter_def)
qed

lemma arrivals_pop:
  assumes "sorted (r # rs)" "distinct (map number_of (r # rs))"
  shows "next_served (arrivals (r # rs)) = waiter r" "remove1 (waiter r) (arrivals (r # rs)) = arrivals rs"
proof -
  let ?l = "sort_key number_of (r # rs)"
  have m: "mset ?l = mset (r # rs)" by simp
  obtain us vs where l: "?l = us @ r # vs" using split_list [of r ?l] by (metis list.set_intros(1) set_sort)
  have sr: "sorted (map number_of (us @ r # vs))" using sorted_sort_key [of number_of "r # rs"] l by simp
  have d: "distinct (map number_of (us @ r # vs))"
    using assms(2) m l mset_eq_imp_distinct_iff by (metis mset_map)
  have "mset (us @ r # vs) = mset (r # rs)" using m l by metis
  then have mr: "mset (us @ vs) = mset rs" by simp
  have "sort_key number_of rs = us @ vs"
    using mr assms(2) sr by (intro sort_key_unique) (auto simp: sorted_append)
  then have rest: "arrivals rs = map waiter us @ map waiter vs" and all: "arrivals (r # rs) = map waiter us @ waiter r # map waiter vs"
    unfolding arrivals_def l by simp_all
  have le: "fst (waiter u) \<le> fst (waiter r)" if "u \<in> set (us @ vs)" for u
  proof -
    have "u \<in> set rs" using that mr by (metis set_mset_mset)
    then have "r \<le> u" using assms(1) by simp
    then show ?thesis by (cases r; cases u) (auto simp: waiter_def less_eq_prod_def)
  qed
  have less: "fst (waiter u) < fst (waiter r)" if "u \<in> set us" for u
  proof -
    have "u \<in> set rs" using that mr by (metis UnI1 set_append set_mset_mset)
    then have "r \<le> u" using assms(1) by simp
    moreover have "number_of u < number_of r"
      using sr d that by (auto simp: sorted_append order_less_le image_iff)
    ultimately show ?thesis by (cases r; cases u) (auto simp: waiter_def less_eq_prod_def)
  qed
  have "Max (fst ` set (arrivals (r # rs))) = fst (waiter r)"
    by (rule Max_eqI) (use le in \<open>auto simp: all\<close>)
  moreover have "filter (\<lambda>w. fst w = fst (waiter r)) (map waiter us) = []"
    using less by (force simp: filter_empty_conv)
  ultimately show "next_served (arrivals (r # rs)) = waiter r"
    unfolding next_served_def by (simp add: all)
  have "waiter r \<notin> set (map waiter us)" using less by force
  then show "remove1 (waiter r) (arrivals (r # rs)) = arrivals rs" by (simp add: all rest remove1_append)
qed
definition granted :: "(nat \<times> resource) option \<Rightarrow> (nat \<times> resource) list" where
  "granted g = (case g of None \<Rightarrow> [] | Some x \<Rightarrow> [x])"

text \<open>A client that can be reached, and a resource whose match key its owner still has.\<close>

definition reachable :: "tracker \<Rightarrow> request \<Rightarrow> bool" where
  "reachable st w \<longleftrightarrow> (case w of (_, _, c) \<Rightarrow> cn_sock (tk_conns st c) \<and> \<not> cn_broken (tk_conns st c))"

definition keyed :: "tracker \<Rightarrow> resource \<Rightarrow> bool" where
  "keyed st v \<longleftrightarrow> (case v of (s, _, _, mk) \<Rightarrow> mk \<in> set (cn_pending (tk_conns st s)))"

lemma serve_reachable:
  assumes "reachable st (a, b, c)" "keyed st v"
  shows "\<exists>st2. serve sched k c v st = sched k st2 \<and> tk_scheds st2 = tk_scheds st \<and>
    tk_granted st2 = tk_granted st @ [(c, v)]"
proof -
  obtain s url port mk where v: "v = (s, url, port, mk)" by (cases v)
  define reply where "reply = JsArr [JsNum 0, JsArr [url, port, mk]]"
  define st1 where "st1 = upd_conn c (\<lambda>cn. cn\<lparr>cn_out := cn_out cn @ [Body reply]\<rparr>)
    (upd_conn c (\<lambda>cn. cn\<lparr>cn_out := cn_out cn @ [Size reply]\<rparr>) st)"
  have r: "cn_sock (tk_conns st c)" "\<not> cn_broken (tk_conns st c)" using assms(1) by (simp_all add: reachable_def)
  have cb: "request_cb sched c v st = (Inr True, st1)"
    using r by (simp add: request_cb_def v tryS_def ret_value_def write_message_def bindS_def thenS_def upd_conn_def
        reply_def st1_def)
  have "mk \<in> set (cn_pending (tk_conns st1 s))"
    using assms(2) by (auto simp: keyed_def v st1_def upd_conn_def)
  then have "serve sched k c v st =
      sched k (upd_conn s (\<lambda>cn. cn\<lparr>cn_pending := removeAll mk (cn_pending cn)\<rparr>) (st1\<lparr>tk_granted := tk_granted st1 @ [(c, v)]\<rparr>))"
    using cb by (simp add: serve_def drop_matchkey_def v bindS_def thenS_def upd_conn_def)
  then show ?thesis by (intro exI conjI) (assumption, simp_all add: upd_conn_def st1_def)
qed

lemma schedule_idle:
  "map_of (tk_scheds st) k = Some p \<Longrightarrow> ps_requests p = [] \<or> ps_values p = [] \<Longrightarrow> schedule (Suc m) k st = (Inr (), st)"
  by (auto simp: loop.turn_run loop.the_sched_Inr [THEN iffD2] split: list.split)

lemma run_idle:
  "map_of (tk_scheds st) k = Some p \<Longrightarrow> ps_requests p = [] \<or> ps_values p = [] \<Longrightarrow> run k st = (Inr (), st)"
  unfolding run_def by (rule schedule_idle)

lemma schedule_serves:
  "map_of (tk_scheds st) k = Some p \<Longrightarrow> ps_requests p = (a, b, c) # rs \<Longrightarrow> ps_values p = v # vs \<Longrightarrow>
   schedule (Suc m) k st = serve (schedule m) k c v (upd_sched k (\<lambda>p. p\<lparr>ps_requests := rs, ps_values := vs\<rparr>) st)"
  by (simp add: loop.turn_run loop.the_sched_Inr [THEN iffD2])

text \<open>One grant empties one of the two sides when it held one item.\<close>

lemma run_grants:
  assumes "map_of (tk_scheds st) k = Some p" "ps_requests p = (a, b, c) # rs" "ps_values p = v # vs"
    and "rs = [] \<or> vs = []" "reachable st (a, b, c)" "keyed st v"
  shows "\<exists>st'. run k st = (Inr (), st') \<and> tk_granted st' = tk_granted st @ [(c, v)] \<and>
    map_of (tk_scheds st') = (map_of (tk_scheds st))(k \<mapsto> p\<lparr>ps_requests := rs, ps_values := vs\<rparr>)"
proof -
  let ?f = "\<lambda>p :: psched. p\<lparr>ps_requests := rs, ps_values := vs\<rparr>"
  define st1 where "st1 = upd_sched k ?f st"
  have m1: "map_of (tk_scheds st1) = (map_of (tk_scheds st))(k \<mapsto> ?f p)"
    using assms(1) by (simp add: st1_def upd_sched_def update_conv')
  have "waiting st = Suc (waiting st1 + 0)" using waiting_upd [OF assms(1), of ?f] assms(2) by (simp add: st1_def)
  then obtain w where w: "waiting st = Suc w" by blast
  have "reachable st1 (a, b, c)" "keyed st1 v" using assms(5,6) by (simp_all add: st1_def reachable_def keyed_def)
  from serve_reachable [OF this, of "schedule (Suc w)" k] obtain st2 where
    s2: "serve (schedule (Suc w)) k c v st1 = schedule (Suc w) k st2" "tk_scheds st2 = tk_scheds st1"
    "tk_granted st2 = tk_granted st1 @ [(c, v)]" by blast
  have "run k st = serve (schedule (Suc w)) k c v st1"
    unfolding run_def w st1_def using assms(1-3) by (rule schedule_serves)
  moreover have "map_of (tk_scheds st2) k = Some (?f p)" using m1 s2(2) by simp
  then have "schedule (Suc w) k st2 = (Inr (), st2)"
    by (rule schedule_idle) (use assms(4) in simp)
  ultimately show ?thesis using s2 m1 by (simp add: st1_def)
qed

section \<open>A concrete history\<close>

text \<open>Playing a list of events, as far as they are possible.\<close>

fun enabled :: "tracker \<Rightarrow> event \<Rightarrow> bool" where
  "enabled st (Accept _) = tk_running st"
| "enabled st (Receive c m) = (tk_running st \<and> c < tk_count st \<and> cn_sock (tk_conns st c) \<and> m \<noteq> [])"
| "enabled st (Hangup c) = (tk_running st \<and> c < tk_count st \<and> cn_sock (tk_conns st c))"
| "enabled st (Break c) = (c < tk_count st)"

lemma tstep_iff: "tstep handler loads st ev r st' \<longleftrightarrow> enabled st ev \<and> handle_event handler loads ev st = (r, st')"
  by (cases ev) (auto elim: tstep.cases intro: tstep.intros)

fun play :: "(nat \<Rightarrow> json \<Rightarrow> (tracker, unit) sx) \<Rightarrow> (bytes \<Rightarrow> json res) \<Rightarrow> event list \<Rightarrow> tracker \<Rightarrow>
    ((event \<times> unit res) list \<times> tracker) option" where
  "play handler loads [] st = Some ([], st)"
| "play handler loads (ev # evs) st =
     (if enabled st ev then
        (case handle_event handler loads ev st of
           (r, st') \<Rightarrow> (case play handler loads evs st' of None \<Rightarrow> None | Some (rs, st'') \<Rightarrow> Some ((ev, r) # rs, st'')))
      else None)"

lemma play_history:
  "history handler loads key hs st \<Longrightarrow> play handler loads evs st = Some (rs, st') \<Longrightarrow>
   history handler loads key (hs @ rs) st'"
proof (induction evs arbitrary: hs st rs)
  case (Cons ev evs)
  obtain r st1 rs1 where s: "enabled st ev" "handle_event handler loads ev st = (r, st1)"
    "play handler loads evs st1 = Some (rs1, st')" "rs = (ev, r) # rs1"
    using Cons.prems(2) by (auto split: if_splits prod.splits option.splits)
  have "history handler loads key (hs @ [(ev, r)]) st1"
    using history.after [OF Cons.prems(1)] s(1,2) by (simp add: tstep_iff)
  from Cons.IH [OF this s(3)] s(4) show ?case by simp
qed simp

definition demo_loads :: "bytes \<Rightarrow> json res" where
  "demo_loads b =
     (if b = [1] then Inr (JsArr [JsNum 3, JsStr ''k'', JsArr [JsNum 9000, JsStr ''m''], JsNull])
      else if b = [2] then Inr (JsArr [JsNum 4, JsStr ''k'', JsStr ''u'', JsNum 1])
      else Inl JSONDecodeError)"

definition demo_events :: "event list" where
  "demo_events = [Accept ''a'', Accept ''b'', Receive 0 [0x71, 0xF2, 0x02, 0x00], Receive 1 [0x71, 0xF2, 0x02, 0x00],
     Receive 1 [1, 0, 0, 0, 2], Receive 0 [1, 0], Receive 0 [0, 0, 1]]"

abbreviation demo_handler :: "nat \<Rightarrow> json \<Rightarrow> (tracker, unit) sx" where
  "demo_handler \<equiv> call_handler (\<lambda>_. ''key'') sorted_list_of_set"

lemmas run_defs = accept_def update_read_def on_message_def init_conn_def bindS_def thenS_def new_conn_def tryS_def
  write_message_def upd_conn_def tracker_magic_def Let_def next_frame_def read_size_def call_handler_def handle_put_def
  handle_request_def set_add_def tracker_put_def tracker_request_def ensure_sched_def sched_put_def sched_request_def
  upd_sched_def run_def waiting_def schedule_turn_def the_sched_def dict_get_def serve_def request_cb_def ret_value_def
  drop_matchkey_def heappush_def slice_def slice_bound_def

lemma demo_play:
  "\<exists>rs st. play demo_handler demo_loads demo_events (init_tracker (JsStr ''s'')) = Some (rs, st) \<and>
     (\<forall>(ev, r)\<in>set rs. r = Inr ()) \<and> length rs = 7 \<and> tk_granted st = [(1, (0, JsStr ''a'', JsNum 9000, JsStr ''m''))] \<and>
     map_of (tk_scheds st) (JsStr ''k'') = Some \<lparr>ps_values = [], ps_requests = [], ps_cnt = 1\<rparr>"
  by (simp add: demo_events_def demo_loads_def init_tracker_def run_defs)

lemma demo_history:
  "\<exists>rs st. history demo_handler demo_loads (JsStr ''s'') rs st \<and> (\<forall>(ev, r)\<in>set rs. r = Inr ()) \<and> length rs = 7 \<and>
     tk_granted st = [(1, (0, JsStr ''a'', JsNum 9000, JsStr ''m''))] \<and>
     map_of (tk_scheds st) (JsStr ''k'') = Some \<lparr>ps_values = [], ps_requests = [], ps_cnt = 1\<rparr>"
  using demo_play play_history [OF history.start] by fastforce

section \<open>Properties\<close>

text \<open>
  The two operations of the scheduler against the queue, each from a scheduler at rest.
\<close>

lemma put_implements_queue:
  assumes "map_of (tk_scheds st) k = Some p" "represents p q"
    and "\<forall>w\<in>set (ps_requests p). reachable st w" "keyed st v"
  shows "\<exists>st' p'. sched_put k v st = (Inr (), st') \<and>
      map_of (tk_scheds st') = (map_of (tk_scheds st))(k \<mapsto> p') \<and> represents p' (fst (q_put v q)) \<and>
      tk_granted st' = tk_granted st @ granted (snd (q_put v q))"
proof -
  let ?f = "\<lambda>p :: psched. p\<lparr>ps_values := ps_values p @ [v]\<rparr>"
  let ?st = "upd_sched k ?f st"
  have m: "map_of (tk_scheds ?st) = (map_of (tk_scheds st))(k \<mapsto> ?f p)"
    using assms(1) by (simp add: upd_sched_def update_conv')
  have put: "sched_put k v st = run k ?st" by (simp add: sched_put_def thenS_def bindS_def)
  have h: "heap_ok p" and q: "q = (ps_values p, arrivals (ps_requests p))" using assms(2) by (simp_all add: represents_def)
  show ?thesis
  proof (cases "ps_requests p")
    case Nil
    then have "run k ?st = (Inr (), ?st)" using m by (intro run_idle [of _ _ "?f p"]) simp_all
    moreover have "represents (?f p) (fst (q_put v q))" using h Nil by (simp add: represents_def heap_ok_def q)
    ultimately show ?thesis using m Nil by (auto simp: put granted_def q intro!: exI [of _ ?st])
  next
    case (Cons w ws)
    obtain a b d where w: "w = (a, b, d)" by (cases w)
    let ?p = "(?f p)\<lparr>ps_requests := ws, ps_values := []\<rparr>"
    have e: "ps_values p = []" using assms(2) Cons by (simp add: represents_def)
    have "reachable ?st (a, b, d)" "keyed ?st v" using assms(3,4) Cons w by (simp_all add: reachable_def keyed_def)
    from run_grants [of ?st k "?f p" a b d ws v "[]", OF _ _ _ _ this] m Cons w e
    obtain st' where st': "run k ?st = (Inr (), st')" "tk_granted st' = tk_granted st @ [(d, v)]"
      "map_of (tk_scheds st') = (map_of (tk_scheds st))(k \<mapsto> ?p)" by auto
    obtain x xs where x: "arrivals (w # ws) = x # xs" by (cases "arrivals (w # ws)") simp_all
    have "next_served (arrivals (w # ws)) = waiter w" "remove1 (waiter w) (arrivals (w # ws)) = arrivals ws"
      using h Cons by (intro arrivals_pop; simp add: heap_ok_def)+
    then have "q_put v q = (([], arrivals ws), Some (d, v))"
      using Cons e w x by (simp add: q Let_def waiter_def)
    moreover have "represents ?p ([], arrivals ws)"
      using h Cons by (auto simp: represents_def heap_ok_def)
    ultimately show ?thesis using st' by (auto simp: put granted_def intro!: exI [of _ st'])
  qed
qed

lemma request_implements_queue:
  assumes "map_of (tk_scheds st) k = Some p" "represents p q"
    and "\<forall>v\<in>set (ps_values p). keyed st v" "reachable st (- pr, ps_cnt p, c)"
  shows "\<exists>st' p'. sched_request k (JsNum pr) c st = (Inr (), st') \<and>
      map_of (tk_scheds st') = (map_of (tk_scheds st))(k \<mapsto> p') \<and> represents p' (fst (q_request (pr, c) q)) \<and>
      tk_granted st' = tk_granted st @ granted (snd (q_request (pr, c) q))"
proof -
  let ?w = "(- pr, ps_cnt p, c)"
  let ?f = "\<lambda>p :: psched. p\<lparr>ps_requests := heappush (- pr, ps_cnt p, c) (ps_requests p), ps_cnt := ps_cnt p + 1\<rparr>"
  let ?st = "upd_sched k ?f st"
  have m: "map_of (tk_scheds ?st) = (map_of (tk_scheds st))(k \<mapsto> ?f p)"
    using assms(1) by (simp add: upd_sched_def update_conv')
  have req: "sched_request k (JsNum pr) c st = run k ?st" by (simp add: sched_request_def thenS_def bindS_def)
  have h: "heap_ok p" and q: "q = (ps_values p, arrivals (ps_requests p))" using assms(2) by (simp_all add: represents_def)
  have h': "heap_ok (?f p)" using h by (rule heap_push)
  show ?thesis
  proof (cases "ps_values p")
    case Nil
    then have "run k ?st = (Inr (), ?st)" using m by (intro run_idle [of _ _ "?f p"]) simp_all
    moreover have "arrivals (heappush ?w (ps_requests p)) = arrivals (ps_requests p) @ [(pr, c)]"
      using h by (subst arrivals_push) (simp_all add: heap_ok_def)
    then have "represents (?f p) (fst (q_request (pr, c) q))"
      using h' Nil by (simp add: represents_def q)
    ultimately show ?thesis using m Nil by (auto simp: req granted_def q intro!: exI [of _ ?st])
  next
    case (Cons u us)
    let ?p = "(?f p)\<lparr>ps_requests := [], ps_values := us\<rparr>"
    have e: "ps_requests p = []" using assms(2) Cons by (simp add: represents_def)
    have "reachable ?st ?w" "keyed ?st u" using assms(3,4) Cons by (simp_all add: reachable_def keyed_def)
    from run_grants [of ?st k "?f p" "- pr" "ps_cnt p" c "[]" u us, OF _ _ _ _ this] m Cons e
    obtain st' where "run k ?st = (Inr (), st')" "tk_granted st' = tk_granted st @ [(c, u)]"
      "map_of (tk_scheds st') = (map_of (tk_scheds st))(k \<mapsto> ?p)" by (auto simp: heappush_def)
    moreover have "represents ?p (us, [])" by (simp add: represents_def heap_ok_def arrivals_def)
    ultimately show ?thesis using Cons e by (auto simp: req granted_def q arrivals_def intro!: exI [of _ st'])
  qed
qed

text \<open>
  C4. A scheduler of the tracker implements a queue that knows neither heap nor numbers. Let it be at
  rest and represent a queue, that is the free resources and the waiting requests in their order of
  arrival, and let the clients and owners concerned be reachable. Then offering a resource and
  requesting one leave it at rest and representing the queue after the abstract operation, hand out
  exactly what that operation grants (a resource goes to the earliest request of greatest priority, a
  request gets the oldest free resource), and touch no other scheduler.
\<close>

theorem scheduler_implements_queue:
  assumes "map_of (tk_scheds st) k = Some p" "represents p q"
    and "\<forall>w\<in>set (ps_requests p). reachable st w" "\<forall>v\<in>set (ps_values p). keyed st v" "keyed st v"
    and "reachable st (- pr, ps_cnt p, c)"
  shows "(\<exists>st' p'. sched_put k v st = (Inr (), st') \<and>
      map_of (tk_scheds st') = (map_of (tk_scheds st))(k \<mapsto> p') \<and> represents p' (fst (q_put v q)) \<and>
      tk_granted st' = tk_granted st @ granted (snd (q_put v q))) \<and>
    (\<exists>st' p'. sched_request k (JsNum pr) c st = (Inr (), st') \<and>
      map_of (tk_scheds st') = (map_of (tk_scheds st))(k \<mapsto> p') \<and> represents p' (fst (q_request (pr, c) q)) \<and>
      tk_granted st' = tk_granted st @ granted (snd (q_request (pr, c) q)))"
  using put_implements_queue [OF assms(1,2,3,5)] request_implements_queue [OF assms(1,2,4,6)]
  by (rule conjI)

lemma scheduler_implements_queue_witness:
  "let p = \<lparr>ps_values = [], ps_requests = [(-7, 1, 8), (-2, 0, 5), (-2, 2, 6)], ps_cnt = 3\<rparr>;
      st = (init_tracker JsNull)\<lparr>tk_conns := \<lambda>_. (new_conn [])\<lparr>cn_pending := [JsStr ''m'']\<rparr>, tk_scheds := [(JsStr ''k'', p)]\<rparr>;
      v = (3, JsStr ''a'', JsNum 9000, JsStr ''m'')
   in represents p ([], [(2, 5), (7, 8), (2, 6)]) \<and>
      (\<exists>st' p'. sched_put (JsStr ''k'') v st = (Inr (), st') \<and> tk_granted st' = [(8, v)] \<and>
         map_of (tk_scheds st') (JsStr ''k'') = Some p' \<and> represents p' ([], [(2, 5), (2, 6)])) \<and>
      (\<exists>st' p'. sched_request (JsStr ''k'') (JsNum 7) 6 st = (Inr (), st') \<and> tk_granted st' = [] \<and>
         map_of (tk_scheds st') (JsStr ''k'') = Some p' \<and> represents p' ([], [(2, 5), (7, 8), (2, 6), (7, 6)]))"
proof -
  let ?p = "\<lparr>ps_values = [], ps_requests = [(-7, 1, 8), (-2, 0, 5), (-2, 2, 6)], ps_cnt = 3\<rparr>"
  let ?st = "(init_tracker JsNull)\<lparr>tk_conns := \<lambda>_. (new_conn [])\<lparr>cn_pending := [JsStr ''m'']\<rparr>, tk_scheds := [(JsStr ''k'', ?p)]\<rparr>"
  let ?v = "(3 :: nat, JsStr ''a'', JsNum 9000, JsStr ''m'')"
  have r: "represents ?p ([], [(2, 5), (7, 8), (2, 6)])"
    by (simp add: represents_def heap_ok_def arrivals_def waiter_def)
  have m: "map_of (tk_scheds ?st) (JsStr ''k'') = Some ?p" by simp
  have q: "q_put ?v ([], [(2, 5), (7, 8), (2, 6)]) = (([], [(2, 5), (2, 6)]), Some (8, ?v))"
    by (simp add: next_served_def Let_def)
  have a: "\<forall>w\<in>set (ps_requests ?p). reachable ?st w" "\<forall>u\<in>set (ps_values ?p). keyed ?st u" "keyed ?st ?v"
    "reachable ?st (- 7, ps_cnt ?p, 6)" by (simp_all add: reachable_def keyed_def new_conn_def)
  have g: "tk_granted ?st = []" by (simp add: init_tracker_def)
  note two = scheduler_implements_queue [OF m r a, unfolded q q_request.simps fst_conv snd_conv append_Cons append_Nil g
      granted_def option.case]
  have "\<exists>st' p'. sched_put (JsStr ''k'') ?v ?st = (Inr (), st') \<and> tk_granted st' = [(8, ?v)] \<and>
      map_of (tk_scheds st') (JsStr ''k'') = Some p' \<and> represents p' ([], [(2, 5), (2, 6)])"
    using conjunct1 [OF two] by (elim exE conjE) (intro exI conjI, assumption+, simp, assumption)
  moreover have "\<exists>st' p'. sched_request (JsStr ''k'') (JsNum 7) 6 ?st = (Inr (), st') \<and> tk_granted st' = [] \<and>
      map_of (tk_scheds st') (JsStr ''k'') = Some p' \<and> represents p' ([], [(2, 5), (7, 8), (2, 6), (7, 6)])"
    using conjunct2 [OF two] by (elim exE conjE) (intro exI conjI, assumption+, simp, assumption)
  ultimately show ?thesis using r by (simp only: Let_def)
qed

text \<open>
  C35. After any history of connections, messages, broken and closed sockets: the schedulers are a
  dictionary, every heap is sorted with distinct numbers below its counter, and the set of
  connections is exactly that of the open sockets.
\<close>

theorem tracker_stays_well_formed:
  assumes "history (call_handler show_key order) loads stop_key evs st"
  shows "dict_ok (tk_scheds st) \<and>
    (\<forall>(k, p)\<in>set (tk_scheds st). sorted (ps_requests p) \<and> distinct (map (fst \<circ> snd) (ps_requests p)) \<and>
       (\<forall>(_, i, _)\<in>set (ps_requests p). i < ps_cnt p)) \<and>
    tk_connections st = {c. c < tk_count st \<and> cn_sock (tk_conns st c)}"
  using rpc.history_sound [OF assms] by (simp add: sound_def well_formed_def heap_ok_def)

lemma tracker_stays_well_formed_witness:
  "\<exists>evs st. history demo_handler demo_loads (JsStr ''s'') evs st \<and> length evs = 7 \<and> dict_ok (tk_scheds st) \<and>
     tk_connections st = {c. c < tk_count st \<and> cn_sock (tk_conns st c)}"
  using demo_history tracker_stays_well_formed by blast

text \<open>
  C13. After any history no resource has been handed out more often than it was offered: what was
  handed out and what is still free are together among what was offered, counted with repetitions.
\<close>

theorem nothing_granted_twice:
  assumes "history (call_handler show_key order) loads stop_key evs st"
  shows "mset (map snd (tk_granted st)) + mset (concat (map (\<lambda>(k, p). ps_values p) (tk_scheds st))) \<subseteq># mset (tk_offered st)"
proof -
  have "total_of (\<lambda>p. mset (ps_values p)) d = mset (concat (map (\<lambda>(k, p). ps_values p) d))" for d :: "(json, psched) dict"
    by (induction d) (auto simp: total_of_def)
  then show ?thesis using rpc.history_sound [OF assms] by (simp add: sound_def free_def)
qed

lemma nothing_granted_twice_witness:
  "\<exists>evs st. history demo_handler demo_loads (JsStr ''s'') evs st \<and>
     {#(0, JsStr ''a'', JsNum 9000, JsStr ''m'')#} + mset (concat (map (\<lambda>(k, p). ps_values p) (tk_scheds st))) \<subseteq># mset (tk_offered st)"
proof -
  obtain evs st where h: "history demo_handler demo_loads (JsStr ''s'') evs st"
    "tk_granted st = [(1, (0, JsStr ''a'', JsNum 9000, JsStr ''m''))]" using demo_history by blast
  from nothing_granted_twice [OF h(1)] h show ?thesis by auto
qed

text \<open>
  C12. When no handler of the history was stopped by an exception, no scheduler has a waiting request
  and a free resource at the same time, also where clients vanished while they were being served.
\<close>

theorem no_request_waits_for_free_resource:
  assumes "history (call_handler show_key order) loads stop_key evs st" "\<forall>(ev, r)\<in>set evs. r = Inr ()"
    and "map_of (tk_scheds st) k = Some p"
  shows "ps_values p = [] \<or> ps_requests p = []"
  using rpc.history_calm [OF assms(1,2), of k] assms(3) by (simp add: idle_def)

lemma no_request_waits_for_free_resource_witness:
  "\<exists>evs st p. history demo_handler demo_loads (JsStr ''s'') evs st \<and> length evs = 7 \<and>
     map_of (tk_scheds st) (JsStr ''k'') = Some p \<and> (ps_values p = [] \<or> ps_requests p = [])"
proof -
  obtain evs st where h: "history demo_handler demo_loads (JsStr ''s'') evs st" "\<forall>(ev, r)\<in>set evs. r = Inr ()" "length evs = 7"
    "map_of (tk_scheds st) (JsStr ''k'') = Some \<lparr>ps_values = [], ps_requests = [], ps_cnt = 1\<rparr>"
    using demo_history by blast
  from no_request_waits_for_free_resource [OF h(1,2,4)] h show ?thesis by blast
qed

text \<open>
  C36. Every event is handled in finitely many turns: the scheduling loop, which closing connections
  start again from inside, and the framing loop both end, whatever the state.
\<close>

theorem events_are_handled:
  assumes "\<And>b. loads b \<noteq> Inl OutOfFuel" "\<And>v. loads [] \<noteq> Inr v"
  shows "fst (handle_event (call_handler show_key order) loads ev st) \<noteq> Inl OutOfFuel"
  using rpc.event_ends [where loads = loads] assms by (simp add: never_def)

lemma events_are_handled_witness:
  "fst (handle_event demo_handler demo_loads (Receive 0 [1, 0, 0, 0, 2]) (init_tracker (JsStr ''s''))) \<noteq> Inl OutOfFuel"
  by (rule events_are_handled) (simp_all add: demo_loads_def)

end
