(* ===== verification/Connecting.thy ===== *)
theory Connecting
  imports Prelude
begin

text \<open>
  Setting up a connection to the tracker: \<open>connect_with_retry\<close> and \<open>random_key\<close> of
  \<open>tvm/python/tvm/rpc/base.py\<close>, the search for a free port in \<open>PopenTrackerServerState\<close> of
  \<open>tvm/python/tvm/rpc/tracker.py\<close>. Clock, sockets and random numbers are streams given from
  outside; the endless loops run on fuel.
\<close>

section \<open>Connecting with retries\<close>

text \<open>The outcome of one attempt, and the time that has passed since the start after it.\<close>

datatype attempt = Connected | Refused rat | Failed

text \<open>The result is the number of the attempt that succeeded.\<close>

fun connect_with_retry :: "nat \<Rightarrow> (nat \<Rightarrow> attempt) \<Rightarrow> rat \<Rightarrow> nat \<Rightarrow> nat res" where
  "connect_with_retry 0 attempts timeout k = Inl OutOfFuel"
| "connect_with_retry (Suc fuel) attempts timeout k =
     (case attempts k of
        Connected \<Rightarrow> Inr k
      | Failed \<Rightarrow> Inl SocketError
      | Refused period \<Rightarrow>
          if period > timeout then Inl RuntimeError else connect_with_retry fuel attempts timeout (Suc k))"

text \<open>
  When every retry waits for \<open>retry_period\<close>, the attempts end soon after the time-out, with the
  outcome of the first attempt that was not refused, or an error when all were refused in time.
\<close>

lemma connect_refused:
  assumes "connect_with_retry fuel attempts timeout k = Inr j"
  shows "k \<le> j \<and> attempts j = Connected \<and> (\<forall>i. k \<le> i \<longrightarrow> i < j \<longrightarrow> (\<exists>t\<le>timeout. attempts i = Refused t))"
  using assms
proof (induction fuel arbitrary: k)
  case (Suc fuel)
  show ?case
  proof (cases "attempts k")
    case (Refused t)
    with Suc.prems have t: "t \<le> timeout" "connect_with_retry fuel attempts timeout (Suc k) = Inr j"
      by (auto split: if_splits)
    have "k < j" using Suc.IH [OF t(2)] by simp
    moreover have "\<exists>t\<le>timeout. attempts i = Refused t" if "k \<le> i" "i < j" for i
      using Suc.IH [OF t(2)] that Refused t(1) by (cases "i = k") auto
    ultimately show ?thesis using Suc.IH [OF t(2)] by auto
  qed (use Suc.prems in auto)
qed simp

lemma connect_ends:
  assumes "0 < retry_period" "\<And>i t. attempts i = Refused t \<Longrightarrow> of_nat i * retry_period \<le> t"
    and "timeout < of_nat (k + fuel) * retry_period" "0 < fuel"
  shows "connect_with_retry (Suc fuel) attempts timeout k \<noteq> Inl OutOfFuel"
  using assms(3,4)
proof (induction fuel arbitrary: k)
  case (Suc fuel)
  show ?case
  proof (cases "attempts k")
    case (Refused t)
    show ?thesis
    proof (cases "fuel = 0")
      case True
      show ?thesis
      proof (cases "attempts (Suc k)")
        case (Refused t')
        then have "of_nat (Suc k) * retry_period \<le> t'" by (rule assms(2))
        then have "timeout < t'" using Suc.prems(1) True by simp
        with Refused True \<open>attempts k = Refused t\<close> show ?thesis by simp
      qed (use True Refused in simp_all)
    next
      case False
      with Suc.IH [of "Suc k"] Suc.prems Refused show ?thesis by simp
    qed
  qed simp_all
qed simp

section \<open>Keys and ports\<close>

text \<open>\<open>draws k\<close> is \<open>str(random.random())\<close> at the k-th call; an empty dictionary counts as none.\<close>

fun random_key_loop :: "nat \<Rightarrow> string \<Rightarrow> string set \<Rightarrow> (nat \<Rightarrow> string) \<Rightarrow> nat \<Rightarrow> string res" where
  "random_key_loop 0 pre cmap draws k = Inl OutOfFuel"
| "random_key_loop (Suc fuel) pre cmap draws k =
     (let key = pre @ draws k in
      if key \<notin> cmap then Inr key else random_key_loop fuel pre cmap draws (Suc k))"

definition random_key :: "nat \<Rightarrow> string \<Rightarrow> string set option \<Rightarrow> (nat \<Rightarrow> string) \<Rightarrow> string res" where
  "random_key fuel pre cmap draws =
     (case cmap of
        None \<Rightarrow> Inr (pre @ draws 0)
      | Some m \<Rightarrow> if m = {} then Inr (pre @ draws 0) else random_key_loop fuel pre m draws 0)"

lemma random_key_fresh:
  assumes "random_key_loop fuel pre cmap draws k = Inr key"
  shows "key \<notin> cmap \<and> (\<exists>j\<ge>k. key = pre @ draws j)"
  using assms
proof (induction fuel arbitrary: k)
  case (Suc fuel)
  show ?case
  proof (cases "pre @ draws k \<in> cmap")
    case True
    with Suc.IH [of "Suc k"] Suc.prems obtain j where "key \<notin> cmap" "Suc k \<le> j" "key = pre @ draws j"
      by (auto simp: Let_def)
    then show ?thesis using Suc_leD by blast
  next
    case False
    with Suc.prems show ?thesis by (auto simp: Let_def)
  qed
qed simp

datatype bind_result = Bound | AddrInUse | BindError

text \<open>The port found, as \<open>self.port\<close>: \<open>None\<close> when every port is in use.\<close>

fun search_port :: "(int \<Rightarrow> bind_result) \<Rightarrow> int list \<Rightarrow> int option res" where
  "search_port bind [] = Inr None"
| "search_port bind (p # ps) =
     (case bind p of
        Bound \<Rightarrow> Inr (Some p)
      | AddrInUse \<Rightarrow> search_port bind ps
      | BindError \<Rightarrow> Inl SocketError)"

definition tracker_port :: "(int \<Rightarrow> bind_result) \<Rightarrow> int \<Rightarrow> int \<Rightarrow> int res" where
  "tracker_port bind port port_end =
     bindR (search_port bind (py_range port port_end 1)) (\<lambda>found.
       case found of None \<Rightarrow> Inl ValueError | Some p \<Rightarrow> if p = 0 then Inl ValueError else Inr p)"

lemma search_port_finds:
  "search_port bind ps = Inr (Some p) \<Longrightarrow>
   \<exists>us vs. ps = us @ p # vs \<and> bind p = Bound \<and> (\<forall>u\<in>set us. bind u = AddrInUse)"
proof (induction ps)
  case (Cons q ps)
  show ?case
  proof (cases "bind q")
    case Bound
    with Cons.prems show ?thesis by (intro exI [of _ "[]"] exI [of _ ps]) simp
  next
    case AddrInUse
    with Cons obtain us vs where "ps = us @ p # vs" "bind p = Bound" "\<forall>u\<in>set us. bind u = AddrInUse" by auto
    with AddrInUse show ?thesis by (intro exI [of _ "q # us"] exI [of _ vs]) simp
  qed (use Cons.prems in simp)
qed simp

text \<open>The port 0, which the system would replace by a free one, is bound and then refused.\<close>

lemma port_zero_refused: "bind 0 = Bound \<Longrightarrow> 0 < port_end \<Longrightarrow> tracker_port bind 0 port_end = Inl ValueError"
proof -
  assume b: "bind 0 = Bound" "0 < port_end"
  have "nat port_end = Suc (nat (port_end - 1))" using b(2) by simp
  then have "\<exists>ps. py_range 0 port_end 1 = 0 # ps" by (simp add: py_range_def upt_conv_Cons del: upt_Suc)
  with b(1) show ?thesis by (auto simp: tracker_port_def)
qed

end
