(* ===== verification/Arrays.thy ===== *)
theory Arrays
  imports Prelude
begin

text \<open>
  What the graph tuner uses of NumPy. An array is what its \<open>shape\<close> and \<open>flatten()\<close> show of it: its
  extents and its entries with the last axis running fastest. The operations of the library are a
  parameter of the model, a record of functions; the locale \<open>numpy\<close> states their documented
  behaviour on legal arguments, and says nothing of others.
\<close>

section \<open>Arrays\<close>

record 'a nd =
  nd_shape :: "nat list"
  nd_data :: "'a list"

definition nd_ok :: "'a nd \<Rightarrow> bool" where
  "nd_ok a \<longleftrightarrow> length (nd_data a) = prodlist (nd_shape a)"

text \<open>The index tuples of a shape in the order of the entries, and the place of a tuple in it.\<close>

definition positions :: "nat list \<Rightarrow> nat list list" where
  "positions sh = product_lists (map (\<lambda>d. [0..<d]) sh)"

fun ravel :: "nat list \<Rightarrow> nat list \<Rightarrow> nat" where
  "ravel (d # ds) (i # is) = i * prodlist ds + ravel ds is"
| "ravel _ _ = 0"

definition entry :: "'a nd \<Rightarrow> nat list \<Rightarrow> 'a" where
  "entry a idx = nd_data a ! ravel (nd_shape a) idx"

definition nd_build :: "nat list \<Rightarrow> (nat list \<Rightarrow> 'a) \<Rightarrow> 'a nd" where
  "nd_build sh f = \<lparr>nd_shape = sh, nd_data = map f (positions sh)\<rparr>"

lemma positions_simps [simp]:
  "positions [] = [[]]"
  "positions (d # ds) = concat (map (\<lambda>i. map ((#) i) (positions ds)) [0..<d])"
  by (simp_all add: positions_def)

lemma in_positions: "idx \<in> set (positions sh) \<longleftrightarrow> list_all2 (<) idx sh"
proof (induction sh arbitrary: idx)
  case (Cons d ds)
  then show ?case by (cases idx) (auto simp: image_iff)
qed simp

lemma length_positions [simp]: "length (positions sh) = prodlist sh"
  by (induction sh) (simp_all add: length_concat o_def sum_list_triv)

lemma nd_build_shape [simp]: "nd_shape (nd_build sh f) = sh"
  by (simp add: nd_build_def)

lemma nd_build_ok [simp]: "nd_ok (nd_build sh f)"
  by (simp add: nd_ok_def nd_build_def)

lemma ravel_less: "list_all2 (<) idx sh \<Longrightarrow> ravel sh idx < prodlist sh"
proof (induction idx sh rule: list_all2_induct)
  case (Cons i idx d sh)
  then have "i * prodlist sh + ravel sh idx < Suc i * prodlist sh" by simp
  also have "\<dots> \<le> d * prodlist sh" using Cons by (intro mult_le_mono1) simp
  finally show ?case by simp
qed simp

lemma nth_concat_blocks:
  assumes "\<And>i. i < n \<Longrightarrow> length (f i) = m" "i < n" "k < m"
  shows "concat (map f [0..<n]) ! (i * m + k) = f i ! k"
  using assms
proof (induction n)
  case (Suc n)
  have "(\<Sum>i\<leftarrow>[0..<n]. length (f i)) = (\<Sum>i\<leftarrow>[0..<n]. m)"
    by (rule arg_cong [where f = sum_list], rule map_cong) (use Suc.prems(1) in simp_all)
  then have l: "length (concat (map f [0..<n])) = n * m"
    by (simp add: length_concat o_def sum_list_triv)
  show ?case
  proof (cases "i < n")
    case True
    have "i * m + k < Suc i * m" using Suc.prems(3) by simp
    also have "\<dots> \<le> n * m" using True by (intro mult_le_mono1) simp
    finally show ?thesis using Suc True l by (simp add: nth_append)
  next
    case False
    then have "i = n" using Suc.prems(2) by simp
    then show ?thesis using l by (simp add: nth_append)
  qed
qed simp

lemma positions_ravel: "list_all2 (<) idx sh \<Longrightarrow> positions sh ! ravel sh idx = idx"
proof (induction idx sh rule: list_all2_induct)
  case (Cons i idx d sh)
  then show ?case using ravel_less [of idx sh]
    by (simp add: nth_concat_blocks [of _ "\<lambda>i. map ((#) i) (positions sh)" "prodlist sh"])
qed simp

lemma entry_build [simp]: "list_all2 (<) idx sh \<Longrightarrow> entry (nd_build sh f) idx = f idx"
  using ravel_less [of idx sh] by (simp add: entry_def nd_build_def positions_ravel)

lemma nd_build_cong:
  "(\<And>idx. list_all2 (<) idx sh \<Longrightarrow> f idx = g idx) \<Longrightarrow> nd_build sh f = nd_build sh g"
  by (simp add: nd_build_def in_positions)

lemma ravel_positions: "k < prodlist sh \<Longrightarrow> ravel sh (positions sh ! k) = k"
proof (induction sh arbitrary: k)
  case (Cons d ds)
  define p where "p = prodlist ds"
  have p: "0 < p" using Cons.prems by (cases p) (simp_all add: p_def)
  have q: "k div p < d" "k mod p < p" using Cons.prems p by (simp_all add: p_def div_less_iff_less_mult)
  have "positions (d # ds) ! (k div p * p + k mod p) = (k div p) # positions ds ! (k mod p)"
    using q nth_concat_blocks [of d "\<lambda>i. map ((#) i) (positions ds)" p "k div p" "k mod p"]
    by (simp add: p_def)
  then show ?case using Cons.IH [of "k mod p"] q by (simp add: p_def)
qed simp

lemma nd_build_entry:
  assumes "nd_ok a"
  shows "nd_build (nd_shape a) (entry a) = a"
proof -
  have "map (entry a) (positions (nd_shape a)) = nd_data a"
    by (rule nth_equalityI) (use assms in \<open>simp_all add: nd_ok_def entry_def ravel_positions\<close>)
  then show ?thesis by (simp add: nd_build_def)
qed

lemma nd_eqI:
  assumes "nd_ok a" "nd_ok b" "nd_shape a = nd_shape b"
    and "\<And>idx. list_all2 (<) idx (nd_shape a) \<Longrightarrow> entry a idx = entry b idx"
  shows "a = b"
  using nd_build_entry [OF assms(1)] nd_build_entry [OF assms(2)] assms(3,4)
    nd_build_cong [of "nd_shape a" "entry a" "entry b"] by metis

section \<open>The library\<close>

text \<open>The first position of the least entry, as \<open>argmin\<close> counts it.\<close>

definition first_min :: "rat list \<Rightarrow> nat" where
  "first_min xs = length (takeWhile (\<lambda>x. x \<noteq> Min (set xs)) xs)"

lemma first_min:
  assumes "xs \<noteq> []"
  shows "first_min xs < length xs" "xs ! first_min xs = Min (set xs)"
proof -
  have "Min (set xs) \<in> set xs" using assms by simp
  then have "takeWhile (\<lambda>x. x \<noteq> Min (set xs)) xs \<noteq> xs" by (auto simp: takeWhile_eq_all_conv)
  then show l: "first_min xs < length xs" unfolding first_min_def
    by (metis length_takeWhile_le le_neq_implies_less order_refl take_all takeWhile_eq_take)
  then show "xs ! first_min xs = Min (set xs)"
    unfolding first_min_def using nth_length_takeWhile by blast
qed

text \<open>The arrays that the operations return, on legal arguments.\<close>

definition transposed :: "nat list \<Rightarrow> 'a nd \<Rightarrow> 'a nd" where
  "transposed axes a = nd_build (map ((!) (nd_shape a)) axes)
     (\<lambda>idx. entry a (map (\<lambda>k. the (map_of (zip axes idx) k)) [0..<length axes]))"

definition broadcasted :: "nat list \<Rightarrow> 'a nd \<Rightarrow> 'a nd" where
  "broadcasted sh a = nd_build sh (\<lambda>idx. entry a (map2 (\<lambda>d i. if d = 1 then 0 else i) (nd_shape a) idx))"

definition along :: "nat \<Rightarrow> 'a nd \<Rightarrow> nat list \<Rightarrow> 'a list" where
  "along ax a idx = map (\<lambda>j. entry a (take ax idx @ j # drop ax idx)) [0..<nd_shape a ! ax]"

definition reduced :: "('a list \<Rightarrow> 'b) \<Rightarrow> nat \<Rightarrow> 'a nd \<Rightarrow> 'b nd" where
  "reduced f ax a = nd_build (take ax (nd_shape a) @ drop (Suc ax) (nd_shape a)) (\<lambda>idx. f (along ax a idx))"

record numpy =
  np_transpose :: "nat list \<Rightarrow> rat nd \<Rightarrow> rat nd res"
  np_reshape :: "nat list \<Rightarrow> rat nd \<Rightarrow> rat nd res"
  np_broadcast_to :: "nat list \<Rightarrow> rat nd \<Rightarrow> rat nd res"
  np_amin :: "nat \<Rightarrow> rat nd \<Rightarrow> rat nd res"
  np_amax :: "rat nd \<Rightarrow> rat res"
  np_argmin :: "rat nd \<Rightarrow> nat res"
  np_argmin_axis :: "nat \<Rightarrow> rat nd \<Rightarrow> nat nd res"
  np_index :: "nat list \<Rightarrow> rat nd \<Rightarrow> rat nd res"  \<comment> \<open>\<open>a[t]\<close> for a tuple \<open>t\<close> of integers\<close>
  np_item :: "nat list \<Rightarrow> nat nd \<Rightarrow> nat res"  \<comment> \<open>\<open>a[t]\<close> for an array of integers and a tuple for every axis\<close>
  np_float32 :: "rat \<Rightarrow> rat"  \<comment> \<open>what a \<open>float32\<close> array stores of a number\<close>

locale numpy =
  fixes np :: numpy
  assumes transpose: "nd_ok a \<Longrightarrow> distinct axes \<Longrightarrow> set axes = {..<length (nd_shape a)} \<Longrightarrow>
      np_transpose np axes a = Inr (transposed axes a)"
    and reshape: "nd_ok a \<Longrightarrow> prodlist sh = prodlist (nd_shape a) \<Longrightarrow>
      np_reshape np sh a = Inr (a\<lparr>nd_shape := sh\<rparr>)"
    and broadcast_to: "nd_ok a \<Longrightarrow> list_all2 (\<lambda>d e. d = e \<or> d = 1) (nd_shape a) sh \<Longrightarrow>
      np_broadcast_to np sh a = Inr (broadcasted sh a)"
    and amin: "nd_ok a \<Longrightarrow> ax < length (nd_shape a) \<Longrightarrow> 0 < nd_shape a ! ax \<Longrightarrow>
      np_amin np ax a = Inr (reduced (\<lambda>xs. Min (set xs)) ax a)"
    and amax: "nd_data a \<noteq> [] \<Longrightarrow> np_amax np a = Inr (Max (set (nd_data a)))"
    and argmin: "nd_data a \<noteq> [] \<Longrightarrow> np_argmin np a = Inr (first_min (nd_data a))"
    and argmin_axis: "nd_ok a \<Longrightarrow> ax < length (nd_shape a) \<Longrightarrow> 0 < nd_shape a ! ax \<Longrightarrow>
      np_argmin_axis np ax a = Inr (reduced first_min ax a)"
    and index: "nd_ok a \<Longrightarrow> list_all2 (<) t (take (length t) (nd_shape a)) \<Longrightarrow>
      np_index np t a = Inr (nd_build (drop (length t) (nd_shape a)) (\<lambda>idx. entry a (t @ idx)))"
    and item: "nd_ok b \<Longrightarrow> list_all2 (<) t (nd_shape b) \<Longrightarrow> np_item np t b = Inr (entry b t)"
    and float32: "m \<le> 2 ^ 24 \<Longrightarrow> - 149 \<le> e \<Longrightarrow> e \<le> 103 \<Longrightarrow>
      np_float32 np (of_nat m * power_int 2 e) = of_nat m * power_int 2 e"
begin

text \<open>On an array of one axis the alignment of the graph tuner changes nothing.\<close>

lemma transpose_1:
  assumes "nd_ok a" "nd_shape a = [n]"
  shows "np_transpose np [0] a = Inr a"
proof -
  have "transposed [0] a = a"
    by (rule nd_eqI) (use assms in \<open>auto simp: transposed_def list_all2_Cons2\<close>)
  moreover have "{0} = {..<length (nd_shape a)}" using assms(2) by auto
  ultimately show ?thesis using assms by (simp add: transpose)
qed

lemma reshape_same: "nd_ok a \<Longrightarrow> np_reshape np (nd_shape a) a = Inr a"
  by (simp add: reshape)

lemma broadcast_same:
  assumes "nd_ok a"
  shows "np_broadcast_to np (nd_shape a) a = Inr a"
proof -
  have *: "map2 (\<lambda>d i. if d = 1 then 0 else i) sh idx = idx" if "list_all2 (<) idx sh" for idx sh :: "nat list"
    using that by (induction idx sh rule: list_all2_induct) (auto simp: less_Suc_eq)
  have "broadcasted (nd_shape a) a = a"
    by (rule nd_eqI) (use assms in \<open>simp_all add: broadcasted_def * del: One_nat_def\<close>)
  then show ?thesis using assms by (simp add: broadcast_to list_all2_same)
qed

end

section \<open>A model of the laws\<close>

definition documented :: numpy where
  "documented = \<lparr>
     np_transpose = (\<lambda>axes a. Inr (transposed axes a)),
     np_reshape = (\<lambda>sh a. if prodlist sh = length (nd_data a) then Inr (a\<lparr>nd_shape := sh\<rparr>) else Inl ValueError),
     np_broadcast_to = (\<lambda>sh a. Inr (broadcasted sh a)),
     np_amin = (\<lambda>ax a. Inr (reduced (\<lambda>xs. Min (set xs)) ax a)),
     np_amax = (\<lambda>a. if nd_data a = [] then Inl ValueError else Inr (Max (set (nd_data a)))),
     np_argmin = (\<lambda>a. if nd_data a = [] then Inl ValueError else Inr (first_min (nd_data a))),
     np_argmin_axis = (\<lambda>ax a. Inr (reduced first_min ax a)),
     np_index = (\<lambda>t a. if list_all2 (<) t (take (length t) (nd_shape a))
       then Inr (nd_build (drop (length t) (nd_shape a)) (\<lambda>idx. entry a (t @ idx))) else Inl IndexError),
     np_item = (\<lambda>t a. if list_all2 (<) t (nd_shape a) then Inr (entry a t) else Inl IndexError),
     np_float32 = (\<lambda>x. x)\<rparr>"

interpretation documented: numpy documented
  by unfold_locales (simp_all add: documented_def nd_ok_def)

end
