(* ===== verification/GraphTraversal.thy ===== *)
theory GraphTraversal
  imports Prelude
begin

text \<open>
  The graph the graph tuner works on: the node entries that \<open>expr2graph\<close> leaves behind, and the
  dictionaries of closest ancestors and consumers computed from them
  (\<open>tvm/python/tvm/autotvm/graph_tuner/utils/\<close>). Operators are given by name; a key that an entry may
  lack is an option. The recursions run down the inputs and take fuel; \<open>ancestors_found\<close> shows how
  much is enough.
\<close>

section \<open>Node entries\<close>

record ('w, 'c) trecord =
  rc_workload :: 'w
  rc_config :: 'c
  rc_costs :: "rat list"

record ('w, 'c) node =
  n_op :: "string option"
  n_inputs :: "nat list"  \<comment> \<open>the first components of the triples in \<open>inputs\<close>\<close>
  n_name :: "string option"
  n_is_tuple :: bool
  n_topi_op :: "string option list option"
  n_workloads :: "'w option list option"
  n_cands :: "('w, 'c) trecord list option"  \<comment> \<open>\<open>record_candidates\<close>\<close>

definition layout_fixed_op :: "string list" where
  "layout_fixed_op = [''nn.batch_flatten'', ''transpose'', ''reshape'', ''vision.multibox_prior'',
     ''vision.multibox_transform_loc'', ''where'', ''vision.non_max_suppression'', ''strided_slice'']"

definition opt_out_op :: "string list" where
  "opt_out_op = [''layout_transform'']"

definition op_in :: "('w, 'c) node \<Rightarrow> string list \<Rightarrow> bool" where
  "op_in node ops = (case n_op node of None \<Rightarrow> False | Some op \<Rightarrow> op \<in> set ops)"

definition named_in :: "('w, 'c) node \<Rightarrow> string list \<Rightarrow> bool" where
  "named_in node names = (case n_name node of None \<Rightarrow> False | Some nm \<Rightarrow> nm \<in> set names)"

definition is_boundary_node :: "('w, 'c) node \<Rightarrow> string list \<Rightarrow> bool" where
  "is_boundary_node node names = (op_in node layout_fixed_op \<or> named_in node names)"

definition is_skipped_node :: "('w, 'c) node \<Rightarrow> bool" where
  "is_skipped_node node = n_is_tuple node"

text \<open>
  \<open>has_multiple_inputs\<close>: below a layout transformation only the verdict of the last input counts,
  because \<open>increase\<close> is assigned, not accumulated.
\<close>

fun has_multiple_inputs :: "nat \<Rightarrow> ('w, 'c) node list \<Rightarrow> nat \<Rightarrow> string list \<Rightarrow> bool res" where
  "has_multiple_inputs 0 nl i names = Inl OutOfFuel"
| "has_multiple_inputs (Suc fuel) nl i names =
     bindR (py_get nl (int i)) (\<lambda>node.
     bindR (foldR (\<lambda>in_idx n. bindR (py_get nl (int in_idx)) (\<lambda>in_node.
         if op_in in_node opt_out_op then
           bindR (foldR (\<lambda>t _. has_multiple_inputs fuel nl t names) (n_inputs in_node) False) (\<lambda>increase.
             Inr (if increase then n + 1 else n))
         else if n_op in_node \<noteq> None \<or> named_in in_node names then Inr (n + 1)
         else Inr n)) (n_inputs node) (0 :: nat)) (\<lambda>num_inputs.
     Inr (num_inputs > 1)))"

declare has_multiple_inputs.simps [simp del]

section \<open>Closest ancestors\<close>

type_synonym edges = "(nat, nat list) dict"

definition add_new :: "nat list \<Rightarrow> nat list \<Rightarrow> nat list" where
  "add_new = foldl (\<lambda>anc t. if t \<in> set anc then anc else anc @ [t])"

fun get_direct_ancestor ::
  "nat \<Rightarrow> ('w, 'c) node list \<Rightarrow> string list \<Rightarrow> string list \<Rightarrow> nat \<Rightarrow> edges \<Rightarrow> (nat list \<times> edges) res" where
  "get_direct_ancestor 0 nl target_ops names i visited = Inl OutOfFuel"
| "get_direct_ancestor (Suc fuel) nl target_ops names i visited =
     (case map_of visited i of
        Some anc \<Rightarrow> Inr (anc, visited)
      | None \<Rightarrow>
          bindR (py_get nl (int i)) (\<lambda>node.
          if is_boundary_node node names then Inr ([i], visited)
          else
            bindR (foldR (\<lambda>j (anc, visited).
                bindR (py_get nl (int j)) (\<lambda>item.
                bindR (has_multiple_inputs fuel nl j names) (\<lambda>multi.
                if op_in item target_ops \<or> multi then Inr (anc @ [j], visited)
                else bindR (get_direct_ancestor fuel nl target_ops names j visited) (\<lambda>(tmp, visited).
                  Inr (add_new anc tmp, visited)))))
              (n_inputs node) ([], visited)) (\<lambda>(anc, visited).
            Inr (anc, AList.update i anc visited))))"

definition add_consumer :: "nat \<Rightarrow> edges \<Rightarrow> nat \<Rightarrow> edges" where
  "add_consumer key out item = (case map_of out item of
       Some ks \<Rightarrow> AList.update item (ks @ [key]) out
     | None \<Rightarrow> AList.update item [key] out)"

definition get_out_nodes :: "edges \<Rightarrow> edges" where
  "get_out_nodes ins =
     foldl (\<lambda>out (key, vs). foldl (add_consumer key) out vs) (map (\<lambda>(key, _). (key, [])) ins) ins"

section \<open>The dictionary of input nodes\<close>

text \<open>
  The loop over the inputs of a node that removes from the very list it runs over: the iterator
  counts positions, so the input after a removed one is skipped. \<open>marked\<close> says whether the node was
  appended to \<open>boundary_nodes\<close>, which happens as soon as an input is removed while \<open>is_boundary\<close>
  still holds.
\<close>

function reduce_inputs :: "(nat \<Rightarrow> bool res) \<Rightarrow> nat \<Rightarrow> nat list \<Rightarrow> bool \<Rightarrow> bool \<Rightarrow> (nat list \<times> bool) res" where
  "reduce_inputs keep i vs is_boundary marked =
     (if i < length vs then
        bindR (keep (vs ! i)) (\<lambda>k.
          if k then reduce_inputs keep (Suc i) vs False marked
          else reduce_inputs keep (Suc i) (remove1 (vs ! i) vs) is_boundary (marked \<or> is_boundary))
      else Inr (vs, marked))"
  by pat_completeness auto
termination
  by (relation "measure (\<lambda>(_, i, vs, _). length vs - i)") (auto simp: length_remove1)

declare reduce_inputs.simps [simp del]

text \<open>Inputs that stay: not a boundary node, and a key of the dictionary.\<close>

definition kept_input :: "('w, 'c) node list \<Rightarrow> string list \<Rightarrow> edges \<Rightarrow> nat \<Rightarrow> bool res" where
  "kept_input nl names ins j =
     bindR (py_get nl (int j)) (\<lambda>node. Inr (\<not> is_boundary_node node names \<and> j \<in> fst ` set ins))"

text \<open>One round over the dictionary; target operators are left alone.\<close>

definition reduce_node ::
  "('w, 'c) node list \<Rightarrow> string list \<Rightarrow> string list \<Rightarrow> edges \<Rightarrow> nat \<times> nat list \<Rightarrow> ((nat \<times> nat list) \<times> bool) res" where
  "reduce_node nl target_ops names ins = (\<lambda>(key, vs).
     bindR (py_get nl (int key)) (\<lambda>node.
       if op_in node target_ops then Inr ((key, vs), False)
       else bindR (reduce_inputs (kept_input nl names ins) 0 vs True False) (\<lambda>(vs', marked).
         Inr ((key, vs'), marked))))"

function reduce_boundary ::
  "('w, 'c) node list \<Rightarrow> string list \<Rightarrow> string list \<Rightarrow> edges \<Rightarrow> edges res" where
  "reduce_boundary nl target_ops names ins =
     bindR (mapR (reduce_node nl target_ops names ins) ins) (\<lambda>rs.
       if list_ex snd rs then reduce_boundary nl target_ops names (map fst (filter (\<lambda>r. \<not> snd r) rs))
       else Inr (map fst rs))"
  by pat_completeness auto
termination
proof (relation "measure (\<lambda>(_, _, _, ins). length ins)")
  fix nl target_ops names and ins :: edges and rs
  assume "mapR (reduce_node nl target_ops names ins) ins = Inr rs" "list_ex snd rs"
  then have "length rs = length ins" "\<exists>r\<in>set rs. snd r" by (auto simp: mapR_length list_ex_iff)
  then have "length (filter (\<lambda>r. \<not> snd r) rs) < length ins" by (metis length_filter_less)
  then show "((nl, target_ops, names, map fst (filter (\<lambda>r. \<not> snd r) rs)), nl, target_ops, names, ins)
      \<in> measure (\<lambda>(_, _, _, ins). length ins)" by simp
qed simp

declare reduce_boundary.simps [simp del]

text \<open>
  Removing the nodes without input, and what they feed: the consumers are those recorded before
  the reduction, so a consumer may be gone (\<open>KeyError\<close>) or not hold the node (\<open>ValueError\<close>).
\<close>

definition drop_input :: "nat \<Rightarrow> nat \<Rightarrow> edges \<Rightarrow> edges res" where
  "drop_input node out_node ins =
     bindR (dict_get ins out_node) (\<lambda>vs. bindR (py_remove node vs) (\<lambda>vs'.
       Inr (AList.update out_node vs' ins)))"

definition drop_node :: "edges \<Rightarrow> nat \<Rightarrow> edges \<Rightarrow> edges res" where
  "drop_node out node ins =
     bindR (dict_get ins node) (\<lambda>_.
     foldR (drop_input node) (case map_of out node of None \<Rightarrow> [] | Some ks \<Rightarrow> ks) (AList.delete node ins))"

lemma drop_input_keys: "drop_input n k ins = Inr ins' \<Longrightarrow> map fst ins' = map fst ins"
  by (force simp: drop_input_def py_remove_def bindR_Inr_iff dict_get_Inr keys_update split: if_splits
      dest: map_of_SomeD)

lemma drop_node_keys:
  assumes "drop_node out n ins = Inr ins'"
  shows "map fst ins' = filter (\<lambda>k. k \<noteq> n) (map fst ins)" and "n \<in> set (map fst ins)"
proof -
  obtain vs where v: "map_of ins n = Some vs"
    and f: "foldR (drop_input n) (case map_of out n of None \<Rightarrow> [] | Some ks \<Rightarrow> ks) (AList.delete n ins) = Inr ins'"
    using assms by (auto simp: drop_node_def bindR_Inr_iff dict_get_Inr)
  have "map fst ins' = map fst (AList.delete n ins)"
    by (rule foldR_inv [OF f]) (simp_all add: drop_input_keys)
  then show "map fst ins' = filter (\<lambda>k. k \<noteq> n) (map fst ins)"
    by (simp add: delete_keys removeAll_filter_not_eq eq_commute)
  show "n \<in> set (map fst ins)" using v by (force dest: map_of_SomeD)
qed

lemma drop_nodes_keys:
  assumes "foldR (drop_node out) ns ins = Inr ins'"
  shows "map fst ins' = filter (\<lambda>k. k \<notin> set ns) (map fst ins)" and "set ns \<subseteq> set (map fst ins)"
proof -
  have "map fst ins' = filter (\<lambda>k. k \<notin> set ns) (map fst ins) \<and> set ns \<subseteq> set (map fst ins)"
    using assms
  proof (induction ns arbitrary: ins)
    case (Cons n ns)
    then obtain ins1 where 1: "drop_node out n ins = Inr ins1" "foldR (drop_node out) ns ins1 = Inr ins'"
      by (auto simp: bindR_Inr_iff)
    from Cons.IH [OF 1(2)] drop_node_keys [OF 1(1)] show ?case by (auto intro: filter_cong)
  qed simp
  then show "map fst ins' = filter (\<lambda>k. k \<notin> set ns) (map fst ins)" "set ns \<subseteq> set (map fst ins)" by simp_all
qed

function remove_empty :: "edges \<Rightarrow> edges \<Rightarrow> edges res" where
  "remove_empty out ins =
     (let empty_nodes = map fst (filter (\<lambda>(_, vs). vs = []) ins) in
      if empty_nodes = [] then Inr ins
      else bindR (foldR (drop_node out) empty_nodes ins) (remove_empty out))"
  by pat_completeness auto
termination
proof (relation "measure (\<lambda>(_, ins). length ins)")
  fix out ins ns ins'
  assume ns: "ns = map fst (filter (\<lambda>(_, vs). vs = []) ins)" "ns \<noteq> []"
    and f: "foldR (drop_node out) ns ins = Inr ins'"
  obtain n where "n \<in> set ns" using ns(2) by (cases ns) auto
  then have "n \<in> set (map fst ins)" using ns(1) by auto
  then have "length (filter (\<lambda>k. k \<notin> set ns) (map fst ins)) < length (map fst ins)"
    using \<open>n \<in> set ns\<close> by (intro length_filter_less) auto
  then show "((out, ins'), out, ins) \<in> measure (\<lambda>(_, ins). length ins)"
    using drop_nodes_keys(1) [OF f] by (metis in_measure length_map old.prod.case)
qed simp

declare remove_empty.simps [simp del]

definition visit_nodes :: "nat \<Rightarrow> ('w, 'c) node list \<Rightarrow> string list \<Rightarrow> string list \<Rightarrow> edges res" where
  "visit_nodes fuel nl target_ops names =
     foldR (\<lambda>(i, node) visited.
         if is_boundary_node node names \<or> is_skipped_node node then Inr visited
         else bindR (get_direct_ancestor fuel nl target_ops names i visited) (\<lambda>(_, visited). Inr visited))
       (zip [0..<length nl] nl) []"

definition select_nodes ::
  "nat \<Rightarrow> ('w, 'c) node list \<Rightarrow> string list \<Rightarrow> string list \<Rightarrow> edges \<Rightarrow> edges res" where
  "select_nodes fuel nl target_ops names visited =
     foldR (\<lambda>(key, vs) ins.
         bindR (py_get nl (int key)) (\<lambda>node.
         bindR (has_multiple_inputs fuel nl key names) (\<lambda>multi.
           Inr (if op_in node target_ops \<or> multi then AList.update key vs ins else ins))))
       visited []"

definition get_in_nodes :: "nat \<Rightarrow> ('w, 'c) node list \<Rightarrow> string list \<Rightarrow> string list \<Rightarrow> edges res" where
  "get_in_nodes fuel nl target_ops names =
     bindR (visit_nodes fuel nl target_ops names) (\<lambda>visited.
     bindR (select_nodes fuel nl target_ops names visited) (\<lambda>ins.
     bindR (reduce_boundary nl target_ops names ins) (\<lambda>reduced.
     remove_empty (get_out_nodes ins) reduced)))"

section \<open>The consumers of a node\<close>

text \<open>Every key that has the node among its inputs, as often as it has it, in the order of the dictionary.\<close>

definition consumers :: "edges \<Rightarrow> nat \<Rightarrow> nat list" where
  "consumers ins i = concat (map (\<lambda>(key, vs). replicate (count_list vs i) key) ins)"

lemma consumers_Cons: "consumers ((key, vs) # ins) i = replicate (count_list vs i) key @ consumers ins i"
  by (simp add: consumers_def)

lemma consumers_none: "\<forall>vs\<in>snd ` set ins. i \<notin> set vs \<Longrightarrow> consumers ins i = []"
  by (auto simp: consumers_def count_list_0_iff)

lemma add_consumer:
  "map_of (foldl (add_consumer key) out vs) i =
   (case map_of out i of
      Some ks \<Rightarrow> Some (ks @ replicate (count_list vs i) key)
    | None \<Rightarrow> if i \<in> set vs then Some (replicate (count_list vs i) key) else None)"
proof (induction vs arbitrary: out)
  case Nil
  then show ?case by (simp split: option.split)
next
  case (Cons v vs)
  have "map_of (add_consumer key out v) i = (if i = v then
      Some (case map_of out i of None \<Rightarrow> [key] | Some ks \<Rightarrow> ks @ [key]) else map_of out i)"
    by (simp add: add_consumer_def update_conv split: option.split)
  then show ?case using Cons [of "add_consumer key out v"]
    by (cases "i = v"; cases "map_of out i") auto
qed

lemma add_consumers:
  "map_of (foldl (\<lambda>out (key, vs). foldl (add_consumer key) out vs) out ins) i =
   (case map_of out i of
      Some ks \<Rightarrow> Some (ks @ consumers ins i)
    | None \<Rightarrow> if \<exists>vs\<in>snd ` set ins. i \<in> set vs then Some (consumers ins i) else None)"
proof (induction ins arbitrary: out)
  case Nil
  then show ?case by (simp add: consumers_def split: option.split)
next
  case (Cons x ins)
  obtain key vs where x: "x = (key, vs)" by (cases x)
  show ?case using Cons [of "foldl (add_consumer key) out vs"] consumers_none [of ins i]
    by (cases "map_of out i"; cases "i \<in> set vs") (auto simp: x add_consumer consumers_Cons)
qed

text \<open>
  \<open>get_out_nodes\<close> turns the dictionary of inputs around: a node that is a key or an input has an
  entry, which lists every key it feeds, as often as it feeds it and in the order of the
  dictionary; any other node has none.
\<close>

lemma out_nodes_are_consumers:
  "map_of (get_out_nodes ins) i =
     (if i \<in> fst ` set ins \<or> (\<exists>vs\<in>snd ` set ins. i \<in> set vs) then Some (consumers ins i) else None)"
proof -
  have "map_of (map (\<lambda>(key, _). (key, [] :: nat list)) ins) i = (if i \<in> fst ` set ins then Some [] else None)"
    by (induction ins) auto
  then show ?thesis unfolding get_out_nodes_def add_consumers by simp
qed

section \<open>The closest ancestors\<close>

text \<open>Nodes come after their inputs, as the post-order of \<open>expr2graph\<close> lists them.\<close>

definition in_order :: "('w, 'c) node list \<Rightarrow> bool" where
  "in_order nl \<longleftrightarrow> (\<forall>i<length nl. \<forall>j\<in>set (n_inputs (nl ! i)). j < i)"

definition multi :: "('w, 'c) node list \<Rightarrow> string list \<Rightarrow> nat \<Rightarrow> bool" where
  "multi nl names i = (has_multiple_inputs (Suc i) nl i names = Inr True)"

definition stops :: "('w, 'c) node list \<Rightarrow> string list \<Rightarrow> string list \<Rightarrow> nat \<Rightarrow> bool" where
  "stops nl target_ops names j \<longleftrightarrow> op_in (nl ! j) target_ops \<or> multi nl names j"

text \<open>
  The closest ancestors of a node: a boundary node itself; otherwise what is met first on the way
  up through the inputs, a target operator, a node with several inputs or a boundary node.
\<close>

inductive closest :: "('w, 'c) node list \<Rightarrow> string list \<Rightarrow> string list \<Rightarrow> nat \<Rightarrow> nat \<Rightarrow> bool"
  for nl target_ops names where
  itself: "is_boundary_node (nl ! i) names \<Longrightarrow> closest nl target_ops names i i"
| input: "\<not> is_boundary_node (nl ! i) names \<Longrightarrow> j \<in> set (n_inputs (nl ! i)) \<Longrightarrow>
    stops nl target_ops names j \<Longrightarrow> closest nl target_ops names i j"
| beyond: "\<not> is_boundary_node (nl ! i) names \<Longrightarrow> j \<in> set (n_inputs (nl ! i)) \<Longrightarrow>
    \<not> stops nl target_ops names j \<Longrightarrow> closest nl target_ops names j a \<Longrightarrow> closest nl target_ops names i a"

lemma closest_eq:
  "closest nl target_ops names i a \<longleftrightarrow>
     (if is_boundary_node (nl ! i) names then a = i
      else \<exists>j\<in>set (n_inputs (nl ! i)). if stops nl target_ops names j then a = j
        else closest nl target_ops names j a)"
  by (subst closest.simps) auto

lemma below:
  assumes "in_order nl" "i < length nl" "j \<in> set (n_inputs (nl ! i))"
  shows "j < i" "j < length nl" "py_get nl (int j) = Inr (nl ! j)"
proof -
  show "j < i" using assms by (simp add: in_order_def)
  with assms(2) show "j < length nl" "py_get nl (int j) = Inr (nl ! j)" by simp_all
qed

lemma multi_returns:
  assumes "in_order nl" "i < length nl" "i < fuel"
  shows "\<exists>b. has_multiple_inputs fuel nl i names = Inr b"
  using assms(2,3)
proof (induction fuel arbitrary: i)
  case (Suc fuel)
  have "\<exists>b. foldR (\<lambda>t _. has_multiple_inputs fuel nl t names) (n_inputs (nl ! j)) False = Inr b \<and> True"
    if "j \<in> set (n_inputs (nl ! i))" for j
  proof (rule foldR_total)
    fix t and s :: bool
    assume t: "t \<in> set (n_inputs (nl ! j))"
    note j = below [OF assms(1) Suc.prems(1) that]
    from below [OF assms(1) j(2) t] j(1) Suc.prems(2) Suc.IH [of t]
    show "\<exists>b. has_multiple_inputs fuel nl t names = Inr b \<and> True" by simp
  qed simp
  then have "\<exists>n. foldR (\<lambda>in_idx n. bindR (py_get nl (int in_idx)) (\<lambda>in_node.
         if op_in in_node opt_out_op then
           bindR (foldR (\<lambda>t _. has_multiple_inputs fuel nl t names) (n_inputs in_node) False) (\<lambda>increase.
             Inr (if increase then n + 1 else n))
         else if n_op in_node \<noteq> None \<or> named_in in_node names then Inr (n + 1)
         else Inr n)) (n_inputs (nl ! i)) (0 :: nat) = Inr n \<and> True"
    using below [OF assms(1) Suc.prems(1)] by (intro foldR_total) force+
  then show ?case using Suc.prems(1) by (auto simp: has_multiple_inputs.simps)
qed simp

lemma multi_any_fuel:
  assumes "in_order nl"
  shows "i < length nl \<Longrightarrow> i < f \<Longrightarrow> i < g \<Longrightarrow>
    has_multiple_inputs f nl i names = has_multiple_inputs g nl i names"
proof (induction i arbitrary: f g rule: less_induct)
  case (less i)
  obtain f' g' where fg: "f = Suc f'" "g = Suc g'" using less.prems by (cases f; cases g) auto
  have "has_multiple_inputs f' nl t names = has_multiple_inputs g' nl t names"
    if "j \<in> set (n_inputs (nl ! i))" "t \<in> set (n_inputs (nl ! j))" for j t
  proof -
    note j = below [OF assms less.prems(1) that(1)]
    note t = below [OF assms j(2) that(2)]
    show ?thesis using j(1) t(1,2) less.prems(2,3) by (intro less.IH) (simp_all add: fg)
  qed
  then show ?case unfolding fg has_multiple_inputs.simps
    using below [OF assms less.prems(1)] less.prems(1)
    by (intro bindR_cong refl foldR_cong if_cong) auto
qed

lemma multi_eq:
  assumes "in_order nl" "i < length nl" "i < fuel"
  shows "has_multiple_inputs fuel nl i names = Inr (multi nl names i)"
proof -
  obtain b where "has_multiple_inputs (Suc i) nl i names = Inr b" using multi_returns [OF assms(1,2)] by blast
  moreover have "has_multiple_inputs fuel nl i names = has_multiple_inputs (Suc i) nl i names"
    using multi_any_fuel [OF assms] by simp
  ultimately show ?thesis by (cases b) (simp_all add: multi_def)
qed

lemma set_add_new: "set (add_new anc xs) = set anc \<union> set xs"
  by (induction xs arbitrary: anc) (auto simp: add_new_def)

text \<open>What \<open>visited_dict\<close> remembers is right.\<close>

definition visited_ok ::
  "('w, 'c) node list \<Rightarrow> string list \<Rightarrow> string list \<Rightarrow> edges \<Rightarrow> bool" where
  "visited_ok nl target_ops names visited \<longleftrightarrow>
     (\<forall>i anc. map_of visited i = Some anc \<longrightarrow>
        i < length nl \<and> \<not> is_boundary_node (nl ! i) names \<and> set anc = {a. closest nl target_ops names i a})"

text \<open>The loop over the inputs, when the recursive calls do what is expected of them.\<close>

lemma ancestor_loop:
  assumes "in_order nl" "i < length nl" "i < Suc fuel"
    and IH: "\<And>j v. j < length nl \<Longrightarrow> j < fuel \<Longrightarrow> visited_ok nl target_ops names v \<Longrightarrow>
      \<exists>anc v'. get_direct_ancestor fuel nl target_ops names j v = Inr (anc, v') \<and>
        set anc = {a. closest nl target_ops names j a} \<and> visited_ok nl target_ops names v'"
    and "visited_ok nl target_ops names v" "set js \<subseteq> set (n_inputs (nl ! i))"
  shows "\<exists>anc' v'. foldR (\<lambda>j (anc, visited).
        bindR (py_get nl (int j)) (\<lambda>item.
        bindR (has_multiple_inputs fuel nl j names) (\<lambda>multi.
        if op_in item target_ops \<or> multi then Inr (anc @ [j], visited)
        else bindR (get_direct_ancestor fuel nl target_ops names j visited) (\<lambda>(tmp, visited).
          Inr (add_new anc tmp, visited))))) js (anc, v) = Inr (anc', v') \<and>
      visited_ok nl target_ops names v' \<and>
      set anc' = set anc \<union> {a. \<exists>j\<in>set js. if stops nl target_ops names j then a = j
        else closest nl target_ops names j a}"
  using assms(5,6)
proof (induction js arbitrary: anc v)
  case (Cons j js)
  have j: "py_get nl (int j) = Inr (nl ! j)" "j < length nl" "j < fuel"
    using below [OF assms(1,2), of j] Cons.prems(2) assms(3) by auto
  have m: "has_multiple_inputs fuel nl j names = Inr (multi nl names j)"
    using j by (intro multi_eq [OF assms(1)])
  show ?case
  proof (cases "stops nl target_ops names j")
    case True
    then show ?thesis using Cons.IH [OF Cons.prems(1), of "anc @ [j]"] Cons.prems(2) j m
      by (fastforce simp: stops_def)
  next
    case False
    obtain tmp v1 where "get_direct_ancestor fuel nl target_ops names j v = Inr (tmp, v1)"
      "set tmp = {a. closest nl target_ops names j a}" "visited_ok nl target_ops names v1"
      using IH [OF j(2,3) Cons.prems(1)] by blast
    then show ?thesis using Cons.IH [of v1 "add_new anc tmp"] False Cons.prems(2) j m
      by (fastforce simp: stops_def set_add_new)
  qed
qed simp

text \<open>
  On a graph whose nodes come after their inputs, \<open>get_direct_ancestor\<close> returns, with fuel above
  the node's index, exactly the closest ancestors of the node, and leaves the dictionary of visited
  nodes right.
\<close>

lemma ancestors_found:
  assumes "in_order nl" "i < length nl" "i < fuel" "visited_ok nl target_ops names visited"
  shows "\<exists>anc visited'. get_direct_ancestor fuel nl target_ops names i visited = Inr (anc, visited') \<and>
    set anc = {a. closest nl target_ops names i a} \<and> visited_ok nl target_ops names visited'"
  using assms(2-)
proof (induction fuel arbitrary: i visited)
  case (Suc fuel)
  note c = closest_eq [of nl target_ops names i]
  show ?case
  proof (cases "map_of visited i = None \<and> \<not> is_boundary_node (nl ! i) names")
    case False
    then show ?thesis using Suc.prems(1,3) by (cases "map_of visited i") (auto simp: visited_ok_def c)
  next
    case True
    from ancestor_loop [OF assms(1) Suc.prems(1,2) Suc.IH Suc.prems(3) order_refl, of "[]"] True
    obtain anc v where "foldR (\<lambda>j (anc, visited).
        bindR (py_get nl (int j)) (\<lambda>item.
        bindR (has_multiple_inputs fuel nl j names) (\<lambda>multi.
        if op_in item target_ops \<or> multi then Inr (anc @ [j], visited)
        else bindR (get_direct_ancestor fuel nl target_ops names j visited) (\<lambda>(tmp, visited).
          Inr (add_new anc tmp, visited))))) (n_inputs (nl ! i)) ([], visited) = Inr (anc, v)"
      and ok: "visited_ok nl target_ops names v" "set anc = {a. closest nl target_ops names i a}"
      by (auto simp: c)
    moreover have "visited_ok nl target_ops names (AList.update i anc v)"
      using ok True Suc.prems(1) by (auto simp: visited_ok_def update_conv')
    ultimately show ?thesis using True Suc.prems(1) by (simp del: foldR.simps)
  qed
qed simp

definition conv_graph :: "(unit, unit) node list" where
  "conv_graph = (let v = \<lparr>n_op = None, n_inputs = [], n_name = Some ''data'', n_is_tuple = False,
       n_topi_op = None, n_workloads = None, n_cands = None\<rparr>;
     call = (\<lambda>op ins. v\<lparr>n_op := Some op, n_inputs := ins, n_name := None\<rparr>) in
     [v, v\<lparr>n_name := Some ''w''\<rparr>, call ''nn.conv2d'' [0, 1], call ''nn.relu'' [2], call ''add'' [3, 0]])"

section \<open>The reduction of boundary nodes\<close>

lemma reduce_inputs_marked:
  "reduce_inputs keep i vs b m = Inr (vs', m') \<Longrightarrow> m \<Longrightarrow> m'"
proof (induction keep i vs b m rule: reduce_inputs.induct)
  case (1 keep i vs b m)
  then show ?case by (subst (asm) (3) reduce_inputs.simps)
      (auto simp: bindR_Inr_iff split: if_splits)
qed

lemma reduce_inputs_unmarked:
  "reduce_inputs keep i vs False m = Inr (vs', m') \<Longrightarrow> m' = m"
proof (induction keep i vs False m rule: reduce_inputs.induct)
  case (1 keep i vs m)
  then show ?case by (subst (asm) (3) reduce_inputs.simps)
      (auto simp: bindR_Inr_iff split: if_splits)
qed

text \<open>Only the first input decides whether a node is taken for a boundary node.\<close>

lemma marked_iff_first:
  assumes "reduce_inputs keep 0 vs True False = Inr (vs', m)"
  shows "m \<longleftrightarrow> vs \<noteq> [] \<and> keep (hd vs) = Inr False"
proof (cases vs)
  case Nil
  with assms show ?thesis by (simp add: reduce_inputs.simps)
next
  case (Cons j js)
  with assms obtain k where k: "keep j = Inr k"
    "(if k then reduce_inputs keep 1 vs False False else reduce_inputs keep 1 js True True) = Inr (vs', m)"
    by (subst (asm) reduce_inputs.simps) (auto simp: bindR_Inr_iff split: if_splits)
  then show ?thesis using Cons by (cases k) (auto dest: reduce_inputs_marked reduce_inputs_unmarked)
qed

definition drops ::
  "('w, 'c) node list \<Rightarrow> string list \<Rightarrow> string list \<Rightarrow> edges \<Rightarrow> nat \<times> nat list \<Rightarrow> bool" where
  "drops nl target_ops names ins = (\<lambda>(key, vs). \<not> op_in (nl ! key) target_ops \<and> vs \<noteq> [] \<and>
     kept_input nl names ins (hd vs) = Inr False)"

lemma reduce_node_result:
  assumes "reduce_node nl target_ops names ins e = Inr ((key, vs), m)"
  shows "key = fst e" "m \<longleftrightarrow> drops nl target_ops names ins e"
proof -
  obtain k vs0 node where e: "e = (k, vs0)" and n: "py_get nl (int k) = Inr node"
    using assms by (cases e) (auto simp: reduce_node_def bindR_Inr_iff)
  then have "node = nl ! k" by (auto simp: py_get_def split: if_splits)
  then show "key = fst e" "m \<longleftrightarrow> drops nl target_ops names ins e"
    using assms e n marked_iff_first
    by (auto simp: reduce_node_def drops_def bindR_Inr_iff split: if_splits)
qed

lemma reduce_round:
  assumes "mapR (reduce_node nl target_ops names ins) ins = Inr rs"
  shows "map (fst \<circ> fst) rs = map fst ins" "map snd rs = map (drops nl target_ops names ins) ins"
    "map (fst \<circ> fst) (filter (\<lambda>r. \<not> snd r) rs) = map fst (filter (\<lambda>e. \<not> drops nl target_ops names ins e) ins)"
proof -
  define D where "D = drops nl target_ops names ins"
  have "list_all2 (\<lambda>e r. fst (fst r) = fst e \<and> snd r = D e) ins rs"
    using assms unfolding mapR_Inr_iff D_def by (rule list_all2_mono) (use reduce_node_result in fastforce)
  then have "map (fst \<circ> fst) rs = map fst ins \<and> map snd rs = map D ins \<and>
      map (fst \<circ> fst) (filter (\<lambda>r. \<not> snd r) rs) = map fst (filter (\<lambda>e. \<not> D e) ins)"
    by (induction rule: list_all2_induct) simp_all
  then show "map (fst \<circ> fst) rs = map fst ins" "map snd rs = map (drops nl target_ops names ins) ins"
    "map (fst \<circ> fst) (filter (\<lambda>r. \<not> snd r) rs) = map fst (filter (\<lambda>e. \<not> drops nl target_ops names ins e) ins)"
    by (simp_all add: D_def)
qed

lemma reduce_boundary_keys:
  "reduce_boundary nl target_ops names ins = Inr ins' \<Longrightarrow> fst ` set ins' \<subseteq> fst ` set ins"
proof (induction nl target_ops names ins rule: reduce_boundary.induct)
  case (1 nl target_ops names ins)
  then obtain rs where rs: "mapR (reduce_node nl target_ops names ins) ins = Inr rs"
    "(if list_ex snd rs then reduce_boundary nl target_ops names (map fst (filter (\<lambda>r. \<not> snd r) rs))
      else Inr (map fst rs)) = Inr ins'"
    by (subst (asm) (2) reduce_boundary.simps) (auto simp: bindR_Inr_iff)
  have k: "fst ` fst ` set rs = fst ` set ins"
    using arg_cong [OF reduce_round(1) [OF rs(1)], of set] by (simp add: image_comp)
  show ?case
  proof (cases "list_ex snd rs")
    case True
    with rs(2) "1.IH" [OF rs(1)] have "fst ` set ins' \<subseteq> fst ` fst ` set (filter (\<lambda>r. \<not> snd r) rs)" by simp
    also have "\<dots> \<subseteq> fst ` fst ` set rs" by auto
    finally show ?thesis by (simp only: k)
  next
    case False
    with rs(2) have "ins' = map fst rs" by simp
    then show ?thesis by (simp only: set_map k order_refl)
  qed
qed

text \<open>
  Which nodes the reduction of boundary nodes takes out is decided by their first input alone: a
  node other than a target operator goes when its first input is a boundary node or no key, even
  if all its other inputs stay; when no node has such a first input, all keys stay.
\<close>

lemma first_input_decides:
  assumes "reduce_boundary nl target_ops names ins = Inr ins'" "dict_ok ins"
  shows "(\<forall>e\<in>set ins. drops nl target_ops names ins e \<longrightarrow> fst e \<notin> fst ` set ins') \<and>
    ((\<forall>e\<in>set ins. \<not> drops nl target_ops names ins e) \<longrightarrow> map fst ins' = map fst ins)"
proof -
  obtain rs where rs: "mapR (reduce_node nl target_ops names ins) ins = Inr rs"
    "(if list_ex snd rs then reduce_boundary nl target_ops names (map fst (filter (\<lambda>r. \<not> snd r) rs))
      else Inr (map fst rs)) = Inr ins'"
    using assms(1) by (subst (asm) reduce_boundary.simps) (auto simp: bindR_Inr_iff)
  note r = reduce_round [OF rs(1)]
  have any: "list_ex snd rs \<longleftrightarrow> (\<exists>e\<in>set ins. drops nl target_ops names ins e)"
    using arg_cong [OF r(2), of set] by (auto simp: list_ex_iff image_iff set_eq_iff)
  have "fst e \<notin> fst ` set ins'" if e: "e \<in> set ins" "drops nl target_ops names ins e" for e
  proof -
    have "fst ` set ins' \<subseteq> fst ` fst ` set (filter (\<lambda>r. \<not> snd r) rs)"
    proof -
      have "reduce_boundary nl target_ops names (map fst (filter (\<lambda>r. \<not> snd r) rs)) = Inr ins'"
        using rs(2) e any by (simp split: if_splits)
      from reduce_boundary_keys [OF this] show ?thesis by simp
    qed
    also have "\<dots> = fst ` set (filter (\<lambda>e. \<not> drops nl target_ops names ins e) ins)"
      using arg_cong [OF r(3), of set] by (simp only: set_map image_comp)
    finally show ?thesis using e assms(2) by (auto simp: distinct_map inj_on_def)
  qed
  moreover have "map fst ins' = map fst ins" if "\<forall>e\<in>set ins. \<not> drops nl target_ops names ins e"
    using that any rs(2) r(1) by (auto simp: o_def)
  ultimately show ?thesis by blast
qed

lemma remove_empty_none: "remove_empty out ins = Inr ins' \<Longrightarrow> [] \<notin> snd ` set ins'"
proof (induction out ins rule: remove_empty.induct)
  case (1 out ins)
  show ?case
  proof (cases "map fst (filter (\<lambda>(_, vs). vs = []) ins) = []")
    case True
    then have "ins' = ins" using "1.prems" by (simp add: remove_empty.simps [of out ins])
    then show ?thesis using True by (auto simp: filter_empty_conv)
  next
    case False
    then show ?thesis using 1 by (auto simp: remove_empty.simps [of out ins] Let_def bindR_Inr_iff)
  qed
qed

end
