(* ===== verification/DPStages.thy ===== *)
theory DPStages
  imports Arrays GraphTraversal
begin

text \<open>
  The stages of the dynamic programming over layouts, \<open>DPStage\<close> of
  \<open>tvm/python/tvm/autotvm/graph_tuner/dynamic_programming_stage.py\<close>. The dictionaries every stage shares
  with the tuner are split in two: those that are only read are \<open>tuner_graph\<close>, those that the
  stages change are \<open>dp_state\<close>, passed along. Times are rationals, rounded where the code stores
  them in a \<open>float32\<close> array.
\<close>

record ('w, 'c) tuner_graph =
  tg_nodes :: "('w, 'c) node list"  \<comment> \<open>\<open>node_list\<close>\<close>
  tg_names :: "string list"  \<comment> \<open>the keys of \<open>input_shapes\<close>\<close>
  tg_targets :: "string list"  \<comment> \<open>\<open>target_ops\<close>\<close>
  tg_ins :: edges
  tg_outs :: edges
  tg_cost :: "(nat \<times> nat, rat list list) dict"  \<comment> \<open>\<open>layout_transform_interlayer_cost\<close>\<close>

record stage =
  sg_dep :: "nat list"
  sg_states :: "rat nd"
  sg_full :: "rat nd"
  sg_full_idx :: "nat list option"

record dp_state =
  dp_stages :: "(nat, stage) dict"
  dp_deps :: "nat \<rightharpoonup> nat set"
  dp_counted :: "nat set"

section \<open>Reading the shared dictionaries\<close>

definition node_at :: "('w, 'c) tuner_graph \<Rightarrow> nat \<Rightarrow> ('w, 'c) node res" where
  "node_at g i = py_get (tg_nodes g) (int i)"

definition cands :: "('w, 'c) tuner_graph \<Rightarrow> nat \<Rightarrow> ('w, 'c) trecord list res" where
  "cands g i = bindR (node_at g i) (\<lambda>node. case n_cands node of None \<Rightarrow> Inl KeyError | Some rs \<Rightarrow> Inr rs)"

definition cand_cost :: "('w, 'c) trecord list \<Rightarrow> nat \<Rightarrow> rat res" where
  "cand_cost rs i = bindR (py_get rs (int i)) (\<lambda>r. py_get (rc_costs r) 0)"

definition layout_time :: "('w, 'c) tuner_graph \<Rightarrow> nat \<Rightarrow> nat \<Rightarrow> nat \<Rightarrow> nat \<Rightarrow> rat res" where
  "layout_time g a b i j =
     bindR (dict_get (tg_cost g) (a, b)) (\<lambda>m. bindR (py_get m (int i)) (\<lambda>row. py_get row (int j)))"

text \<open>Assigning to an entry of a flat array.\<close>

definition nd_set :: "nat \<Rightarrow> 'a \<Rightarrow> 'a list \<Rightarrow> 'a list res" where
  "nd_set k v xs = (if k < length xs then Inr (xs[k := v]) else Inl IndexError)"

section \<open>Dependencies\<close>

text \<open>
  The node hands every dependency it still has on to its consumers, and becomes one itself when it
  has several.
\<close>

definition hand_on :: "('w, 'c) tuner_graph \<Rightarrow> nat \<Rightarrow> nat list \<Rightarrow> (nat \<rightharpoonup> nat set) \<Rightarrow> (nat \<rightharpoonup> nat set) res" where
  "hand_on g idx dep deps =
     bindR (foldR (\<lambda>d deps. case deps d of
           None \<Rightarrow> Inl KeyError
         | Some s \<Rightarrow>
             if idx \<in> s
             then bindR (dict_get (tg_outs g) idx) (\<lambda>children. Inr (deps(d \<mapsto> (s - {idx}) \<union> set children)))
             else Inl KeyError) dep deps) (\<lambda>deps.
     bindR (dict_get (tg_outs g) idx) (\<lambda>children.
       Inr (if length children > 1 then deps(idx \<mapsto> set children) else deps)))"

section \<open>Target operators\<close>

definition op_full ::
  "numpy \<Rightarrow> ('w, 'c) tuner_graph \<Rightarrow> nat \<Rightarrow> nat \<Rightarrow> ('w, 'c) trecord list \<Rightarrow> nat \<Rightarrow> rat list \<Rightarrow> bool \<Rightarrow>
     rat list \<Rightarrow> rat list res" where
  "op_full np g idx input_idx recs dep_multiplier input_flatten counted full =
     foldR (\<lambda>i full.
         bindR (cand_cost recs i) (\<lambda>current_sch_time.
         foldR (\<lambda>j full.
             bindR (guardR (dep_multiplier \<noteq> 0) ZeroDivisionError) (\<lambda>_.
             bindR (layout_time g input_idx idx (j div dep_multiplier) i) (\<lambda>layout_transform_time.
               nd_set (i * length input_flatten + j)
                 (np_float32 np
                   (if counted then current_sch_time + layout_transform_time
                    else current_sch_time + layout_transform_time + input_flatten ! j)) full)))
           [0..<length input_flatten] full))
       [0..<length recs] full"

definition create_op_states ::
  "numpy \<Rightarrow> ('w, 'c) tuner_graph \<Rightarrow> nat \<Rightarrow> ('w, 'c) trecord list \<Rightarrow> dp_state \<Rightarrow> (stage \<times> dp_state) res" where
  "create_op_states np g idx recs st =
     bindR (bindR (dict_get (tg_ins g) idx) (\<lambda>vs. py_get vs 0)) (\<lambda>input_idx.
     bindR (node_at g input_idx) (\<lambda>input_node.
     bindR
       (if is_boundary_node input_node (tg_names g) then
          bindR (mapR (\<lambda>r. py_get (rc_costs r) 0) recs) (\<lambda>costs.
            let full = \<lparr>nd_shape = [length recs], nd_data = costs\<rparr> in
            Inr (\<lparr>sg_dep = [], sg_states = full, sg_full = full, sg_full_idx = None\<rparr>, dp_counted st))
        else
          bindR (dict_get (dp_stages st) input_idx) (\<lambda>input_stage.
          bindR (cands g input_idx) (\<lambda>input_recs.
          bindR (mapR (\<lambda>d. bindR (cands g d) (\<lambda>rs. Inr (length rs))) (sg_dep input_stage)) (\<lambda>dep_shape.
            let shape = length recs # length input_recs # dep_shape;
                dep = sg_dep input_stage in
            bindR (op_full np g idx input_idx recs (prodlist dep_shape) (nd_data (sg_states input_stage))
                     (input_idx \<in> dp_counted st) (replicate (prodlist shape) 0)) (\<lambda>flat.
            bindR (np_reshape np shape \<lparr>nd_shape = [prodlist shape], nd_data = flat\<rparr>) (\<lambda>full.
            bindR (dict_get (tg_outs g) input_idx) (\<lambda>consumers.
            bindR (if length consumers = 1
                   then bindR (np_amin np 1 full) (\<lambda>states. Inr (states, dep))
                   else Inr (full, input_idx # dep)) (\<lambda>(states, dep').
              Inr (\<lparr>sg_dep = dep', sg_states = states, sg_full = full,
                     sg_full_idx = Some (idx # input_idx # dep)\<rparr>, insert input_idx (dp_counted st))))))))))
       (\<lambda>(stage, counted).
     bindR (hand_on g idx (sg_dep stage) (dp_deps st)) (\<lambda>deps.
       Inr (stage, st\<lparr>dp_deps := deps, dp_counted := counted\<rparr>)))))"

section \<open>Operators with several inputs\<close>

text \<open>A state array brought to the common shape: the input, its axis there, the step of that axis, the array.\<close>

type_synonym aligned = "nat \<times> int \<times> nat \<times> rat nd"

definition major_axis :: "nat \<Rightarrow> nat list \<Rightarrow> int" where
  "major_axis i nodes = foldl (\<lambda>m (k, idx). if i = idx then int k else m) (- 1) (zip [0..<length nodes] nodes)"

definition align_one ::
  "numpy \<Rightarrow> (nat, stage) dict \<Rightarrow> nat list \<Rightarrow> nat list \<Rightarrow> nat \<Rightarrow> aligned res" where
  "align_one np stages nodes shape i =
     bindR (dict_get stages i) (\<lambda>stage.
       let own = i # sg_dep stage;
           major = major_axis i nodes in
       bindR (mapR (\<lambda>idx. py_index idx own) (filter (\<lambda>idx. idx \<in> set own) nodes)) (\<lambda>axes.
       bindR (np_transpose np axes (sg_states stage)) (\<lambda>a.
       bindR (np_reshape np (map2 (\<lambda>idx d. if idx \<in> set own then d else 1) nodes shape) a) (\<lambda>a.
       bindR (np_broadcast_to np shape a) (\<lambda>a.
         Inr (i, major, prodlist (drop (nat (major + 1)) shape), a))))))"

definition align_states ::
  "numpy \<Rightarrow> ('w, 'c) tuner_graph \<Rightarrow> (nat, stage) dict \<Rightarrow> nat list \<Rightarrow> (aligned list \<times> nat list) res" where
  "align_states np g stages inputs =
     bindR (foldR (\<lambda>i nodes. bindR (dict_get stages i) (\<lambda>stage. Inr (add_new nodes (sg_dep stage)))) inputs inputs)
       (\<lambda>nodes.
     bindR (mapR (\<lambda>i. bindR (cands g i) (\<lambda>rs. Inr (length rs))) nodes) (\<lambda>shape.
     bindR (mapR (align_one np stages nodes shape) inputs) (\<lambda>states_list.
       Inr (states_list, nodes))))"

text \<open>The schedule of an input at a position of the flat array: \<open>(i % (mult * extent)) // mult\<close>.\<close>

definition sched_at :: "nat list \<Rightarrow> aligned \<Rightarrow> nat \<Rightarrow> nat" where
  "sched_at shape = (\<lambda>(_, major, mult, _) i. (i mod (mult * shape ! nat major)) div mult)"

text \<open>
  The loop over all states. The entry is stored inside the loop over the other inputs, so with no
  other input it keeps the zero it was created with.
\<close>

definition multi_full ::
  "numpy \<Rightarrow> ('w, 'c) tuner_graph \<Rightarrow> nat list \<Rightarrow> aligned \<Rightarrow> aligned list \<Rightarrow> nat set \<Rightarrow> rat list \<Rightarrow> rat list res" where
  "multi_full np g shape target others counted full =
     foldR (\<lambda>i full.
         bindR (foldR (\<lambda>src (new_state, full).
               bindR (layout_time g (fst src) (fst target) (sched_at shape src i) (sched_at shape target i)) (\<lambda>t.
                 let new_state = (if fst src \<in> counted then new_state + t
                                  else new_state + (t + nd_data (snd (snd (snd src))) ! i)) in
                 bindR (nd_set i (np_float32 np new_state) full) (\<lambda>full. Inr (new_state, full))))
             others
             (if fst target \<in> counted then 0 else nd_data (snd (snd (snd target))) ! i, full)) (\<lambda>(_, full).
         Inr full))
       [0..<length full] full"

text \<open>
  Dropping dependencies that no later node needs: \<open>i\<close> counts the axes after the first, \<open>shift\<close> those
  already gone.
\<close>

definition drop_deps ::
  "numpy \<Rightarrow> nat list \<Rightarrow> rat nd \<Rightarrow> (nat \<rightharpoonup> nat set) \<Rightarrow> (rat nd \<times> nat list \<times> (nat \<rightharpoonup> nat set)) res" where
  "drop_deps np dep_list states deps =
     bindR (foldR (\<lambda>(i, d) (shift, states, dep, deps).
         if (case deps d of None \<Rightarrow> True | Some s \<Rightarrow> card s = 1)
         then bindR (np_amin np (i + 1 - shift) states) (\<lambda>states. Inr (shift + 1, states, dep, deps(d := None)))
         else Inr (shift, states, dep @ [d], deps))
       (zip [0..<length dep_list] dep_list) (0, states, [], deps)) (\<lambda>(_, states, dep, deps).
     Inr (states, dep, deps))"

definition create_multi_inputs_states ::
  "numpy \<Rightarrow> ('w, 'c) tuner_graph \<Rightarrow> nat \<Rightarrow> dp_state \<Rightarrow> (stage \<times> dp_state) res" where
  "create_multi_inputs_states np g idx st =
     bindR (dict_get (tg_ins g) idx) (\<lambda>all_inputs.
     bindR (mapR (\<lambda>i. bindR (node_at g i) (\<lambda>node. Inr (i, is_boundary_node node (tg_names g)))) all_inputs)
       (\<lambda>marked.
     bindR (align_states np g (dp_stages st) (map fst (filter (\<lambda>m. \<not> snd m) marked))) (\<lambda>(states_list, nodes).
     bindR (py_get states_list 0) (\<lambda>target.
       let shape = nd_shape (snd (snd (snd target)));
           axis = nat (fst (snd target)) in
       bindR (multi_full np g shape target (drop 1 states_list) (dp_counted st) (replicate (prodlist shape) 0))
         (\<lambda>flat.
       bindR (np_reshape np shape \<lparr>nd_shape = [prodlist shape], nd_data = flat\<rparr>) (\<lambda>full.
         let rest = filter (\<lambda>i. i \<noteq> axis) [0..<length shape] in
         bindR (np_transpose np (axis # rest) full) (\<lambda>reduced.
         bindR (drop_deps np (map ((!) nodes) rest) reduced (dp_deps st)) (\<lambda>(states, dep, deps).
         bindR (hand_on g idx dep deps) (\<lambda>deps.
           Inr (\<lparr>sg_dep = dep, sg_states = states, sg_full = full, sg_full_idx = Some nodes\<rparr>,
                st\<lparr>dp_deps := deps, dp_counted := dp_counted st \<union> set (map fst states_list)\<rparr>))))))))))"

section \<open>Creating a stage\<close>

definition first_workload :: "('w, 'c) node \<Rightarrow> 'w option res" where
  "first_workload node = (case n_workloads node of None \<Rightarrow> Inl KeyError | Some ws \<Rightarrow> py_get ws 0)"

definition new_stage ::
  "numpy \<Rightarrow> ('w, 'c) tuner_graph \<Rightarrow> nat \<Rightarrow> dp_state \<Rightarrow> (stage \<times> dp_state) res" where
  "new_stage np g idx st =
     bindR (node_at g idx) (\<lambda>node.
     bindR (first_workload node) (\<lambda>_.
     bindR (cands g idx) (\<lambda>recs.
       if op_in node (tg_targets g) then create_op_states np g idx recs st
       else create_multi_inputs_states np g idx st)))"

end
