(* ===== verification/DPTuning.thy ===== *)
theory DPTuning
  imports DPStages
begin

text \<open>
  The dynamic programming tuner, \<open>DPTuner\<close> of
  \<open>tvm/python/tvm/autotvm/graph_tuner/dynamic_programming_tuner.py\<close>, and the choice of records of
  \<open>base_graph_tuner.py\<close>. The breadth-first walk of the backward pass takes fuel, one unit per node
  taken from the queue.
\<close>

section \<open>Forward\<close>

definition check_num_states :: "nat option \<Rightarrow> nat \<Rightarrow> nat \<Rightarrow> nat res" where
  "check_num_states max_num num_states num =
     (case max_num of
        None \<Rightarrow> Inr (num_states + num)
      | Some m \<Rightarrow> if num_states + num > m then Inl RuntimeError else Inr (num_states + num))"

definition init_dp :: dp_state where
  "init_dp = \<lparr>dp_stages = [], dp_deps = Map.empty, dp_counted = {}\<rparr>"

definition forward_step ::
  "numpy \<Rightarrow> ('w, 'c) tuner_graph \<Rightarrow> nat option \<Rightarrow> nat \<Rightarrow> nat \<times> dp_state \<Rightarrow> (nat \<times> dp_state) res" where
  "forward_step np g max_num idx = (\<lambda>(num, st).
     bindR (new_stage np g idx st) (\<lambda>(stage, st).
     bindR (check_num_states max_num num (length (nd_data (sg_full stage)))) (\<lambda>num.
       Inr (num, st\<lparr>dp_stages := AList.update idx stage (dp_stages st)\<rparr>))))"

definition forward ::
  "numpy \<Rightarrow> ('w, 'c) tuner_graph \<Rightarrow> nat option \<Rightarrow> (nat \<times> dp_state) res" where
  "forward np g max_num = foldR (forward_step np g max_num) (sort (map fst (tg_ins g))) (0, init_dp)"

section \<open>Backward\<close>

definition max_output_nodes :: nat where
  "max_output_nodes = 16"

text \<open>The search for the best common state of the output nodes; \<open>min_pos\<close> starts at -1.\<close>

definition best_output :: "rat list list \<Rightarrow> nat \<Rightarrow> rat \<Rightarrow> rat \<times> int" where
  "best_output flats num_states start =
     foldl (\<lambda>(min_time, min_pos) i.
         let current_time = sumlist (map (\<lambda>flat. flat ! i) flats) in
         if min_time > current_time then (current_time, int i) else (min_time, min_pos))
       (start, - 1) [0..<num_states]"

text \<open>\<open>optimal_record_dict\<close> for the output nodes and for the dependencies of theirs.\<close>

definition output_scheds :: "nat list \<Rightarrow> nat list \<Rightarrow> aligned list \<Rightarrow> int \<Rightarrow> (nat, nat) dict" where
  "output_scheds nodes shape states_list min_pos =
     foldl (\<lambda>opt i. AList.update (nodes ! i)
         (nat ((min_pos div int (prodlist (drop (i + 1) shape))) mod int (shape ! i))) opt)
       (foldl (\<lambda>opt (i, (_, major, mult, _)). AList.update (nodes ! i)
           (nat ((min_pos mod int (mult * shape ! nat major)) div int mult)) opt)
         [] (zip [0..<length states_list] states_list))
       [length states_list..<length nodes]"

text \<open>Putting the unvisited inputs in the queue.\<close>

definition enqueue :: "nat set \<Rightarrow> nat list \<Rightarrow> nat list \<Rightarrow> nat list" where
  "enqueue visited inputs q = q @ filter (\<lambda>i. i \<notin> visited) inputs"

definition back_single ::
  "numpy \<Rightarrow> ('w, 'c) tuner_graph \<Rightarrow> stage \<Rightarrow> nat \<Rightarrow> nat \<Rightarrow> nat set \<Rightarrow> nat list \<times> (nat, nat) dict \<Rightarrow>
     (nat list \<times> (nat, nat) dict) res" where
  "back_single np g stage node_idx opt_sch visited = (\<lambda>(q, opt).
     bindR (bindR (dict_get (tg_ins g) node_idx) (\<lambda>vs. py_get vs 0)) (\<lambda>input_idx.
     bindR (node_at g input_idx) (\<lambda>input_node.
       if is_boundary_node input_node (tg_names g) \<or> input_idx \<in> visited then Inr (q, opt)
       else if input_idx \<in> fst ` set opt then Inr (q @ [input_idx], opt)
       else
         bindR (mapR (dict_get opt) (sg_dep stage)) (\<lambda>dep_idx.
         bindR (np_argmin_axis np 1 (sg_full stage)) (\<lambda>tmp.
         bindR (np_item np (opt_sch # dep_idx) tmp) (\<lambda>v.
           Inr (q @ [input_idx], AList.update input_idx v opt)))))))"

text \<open>The schedules of the nodes that are still open, read off a flat position; \<open>//=\<close> and \<open>%=\<close> in turn.\<close>

fun spread :: "nat list \<Rightarrow> (nat \<times> nat) list \<Rightarrow> nat \<Rightarrow> nat \<Rightarrow> (nat, nat) dict \<Rightarrow> (nat, nat) dict" where
  "spread shape [] mult min_pos opt = opt"
| "spread shape ((pos, idx) # rest) mult min_pos opt =
     (let mult = mult div shape ! (pos + 1) in
      spread shape rest mult (min_pos mod mult) (AList.update idx (min_pos div mult) opt))"

definition back_multi ::
  "numpy \<Rightarrow> ('w, 'c) tuner_graph \<Rightarrow> stage \<Rightarrow> nat \<Rightarrow> nat \<Rightarrow> nat set \<Rightarrow> nat list \<times> (nat, nat) dict \<Rightarrow>
     (nat list \<times> (nat, nat) dict) res" where
  "back_multi np g stage node_idx opt_sch visited = (\<lambda>(q, opt).
     bindR (dict_get (tg_ins g) node_idx) (\<lambda>inputs.
     bindR (py_get inputs 0) (\<lambda>first_input.
       let opt = AList.update first_input opt_sch opt in
       case sg_full_idx stage of
         None \<Rightarrow> Inl TypeError
       | Some nodes \<Rightarrow>
           bindR (np_index np [opt_sch] (sg_full stage)) (\<lambda>tmp.
             let open_axes = zip [0..<length nodes - 1] (drop 1 nodes);
                 done = filter (\<lambda>(_, idx). idx \<in> fst ` set opt) open_axes;
                 fresh = filter (\<lambda>(_, idx). idx \<notin> fst ` set opt) open_axes in
             bindR (if done = [] then Inr tmp
                    else bindR (np_transpose np (map fst done @ map fst fresh) tmp) (\<lambda>tmp.
                         bindR (mapR (\<lambda>(_, idx). dict_get opt idx) done) (\<lambda>t. np_index np t tmp))) (\<lambda>tmp.
             bindR (np_argmin np tmp) (\<lambda>min_pos.
               let shape = nd_shape (sg_full stage) in
               Inr (enqueue visited inputs q,
                    spread shape fresh (prodlist (map (\<lambda>(pos, _). shape ! (pos + 1)) fresh)) min_pos opt)))))))"

fun back_walk ::
  "nat \<Rightarrow> numpy \<Rightarrow> ('w, 'c) tuner_graph \<Rightarrow> (nat, stage) dict \<Rightarrow> nat set \<Rightarrow> nat list \<Rightarrow> (nat, nat) dict \<Rightarrow>
     (nat, nat) dict res" where
  "back_walk fuel np g stages visited [] opt = Inr opt"
| "back_walk 0 np g stages visited (node_idx # q) opt = Inl OutOfFuel"
| "back_walk (Suc fuel) np g stages visited (node_idx # q) opt =
     (let visited = insert node_idx visited in
      bindR (node_at g node_idx) (\<lambda>node.
      if is_boundary_node node (tg_names g) then back_walk fuel np g stages visited q opt
      else
        bindR (dict_get opt node_idx) (\<lambda>opt_sch.
        bindR (dict_get stages node_idx) (\<lambda>stage.
        bindR (has_multiple_inputs (Suc node_idx) (tg_nodes g) node_idx (tg_names g)) (\<lambda>multi.
        bindR ((if multi then back_multi else back_single) np g stage node_idx opt_sch visited (q, opt)) (\<lambda>(q, opt).
          back_walk fuel np g stages visited q opt))))))"

definition backward ::
  "nat \<Rightarrow> numpy \<Rightarrow> ('w, 'c) tuner_graph \<Rightarrow> nat option \<Rightarrow> nat \<times> dp_state \<Rightarrow> (nat, nat) dict res" where
  "backward fuel np g max_num = (\<lambda>(num, st).
     let outputs = map fst (filter (\<lambda>(_, ks). ks = []) (tg_outs g)) in
     if length outputs > max_output_nodes then Inr (map (\<lambda>(key, _). (key, 0)) (tg_ins g))
     else
       bindR (align_states np g (dp_stages st) outputs) (\<lambda>(states_list, nodes).
       bindR (py_get states_list 0) (\<lambda>first.
         let array = (\<lambda>s :: aligned. snd (snd (snd s)));
             num_states = length (nd_data (array first));
             shape = nd_shape (array first) in
         bindR (check_num_states max_num num (num_states * length outputs)) (\<lambda>_.
         bindR (mapR (\<lambda>s. np_amax np (array s)) states_list) (\<lambda>maxima.
           let (min_time, min_pos) = best_output (map (nd_data \<circ> array) states_list) num_states (sumlist maxima) in
           back_walk fuel np g (dp_stages st) {} outputs (output_scheds nodes shape states_list min_pos))))))"

definition run_dp ::
  "nat \<Rightarrow> numpy \<Rightarrow> ('w, 'c) tuner_graph \<Rightarrow> nat option \<Rightarrow> (nat, nat) dict res" where
  "run_dp fuel np g max_num = bindR (forward np g max_num) (backward fuel np g max_num)"

section \<open>The chosen records\<close>

text \<open>\<open>get_optimal_records\<close>: those of the target operators, by ascending node index.\<close>

definition get_optimal_records ::
  "('w, 'c) tuner_graph \<Rightarrow> (nat, nat) dict \<Rightarrow> ('w, 'c) trecord list res" where
  "get_optimal_records g opt =
     foldR (\<lambda>i ret. bindR (node_at g i) (\<lambda>node.
         if op_in node (tg_targets g)
         then bindR (dict_get opt i) (\<lambda>k. bindR (cands g i) (\<lambda>rs. bindR (py_get rs (int k)) (\<lambda>r. Inr (ret @ [r]))))
         else Inr ret))
       (sort (map fst opt)) []"

end
