(* ===== verification/ChainOptimum.thy ===== *)
theory ChainOptimum
  imports DPTuning
begin

text \<open>
  The dynamic programming tuner on a chain of target operators, each fed by the one before and the
  first by a boundary node: it finds a fastest choice of schedules, or stops because of the limit on
  the number of states. The specification is the total time of a choice; the link to the code is
  the table of least times up to a node, which the forward pass computes and the backward pass
  walks down.
\<close>

section \<open>Chains and their times\<close>

fun chain_ins :: "nat \<Rightarrow> nat list \<Rightarrow> edges" where
  "chain_ins b [] = []"
| "chain_ins b (v # vs) = (v, [b]) # chain_ins v vs"

definition num_cands :: "('w, 'c) tuner_graph \<Rightarrow> nat \<Rightarrow> nat" where
  "num_cands g v = length (the (n_cands (tg_nodes g ! v)))"

definition cost_of :: "('w, 'c) tuner_graph \<Rightarrow> nat \<Rightarrow> nat \<Rightarrow> rat" where
  "cost_of g v i = hd (rc_costs (the (n_cands (tg_nodes g ! v)) ! i))"

definition trans_of :: "('w, 'c) tuner_graph \<Rightarrow> nat \<Rightarrow> nat \<Rightarrow> nat \<Rightarrow> nat \<Rightarrow> rat" where
  "trans_of g a b i j = the (map_of (tg_cost g) (a, b)) ! i ! j"

text \<open>A node that can be tuned: a target operator with candidates, each of which has a time.\<close>

definition tunable :: "('w, 'c) tuner_graph \<Rightarrow> nat \<Rightarrow> bool" where
  "tunable g v \<longleftrightarrow> v < length (tg_nodes g) \<and> op_in (tg_nodes g ! v) (tg_targets g) \<and>
     \<not> is_boundary_node (tg_nodes g ! v) (tg_names g) \<and>
     has_multiple_inputs (Suc v) (tg_nodes g) v (tg_names g) = Inr False \<and>
     (\<exists>w ws. n_workloads (tg_nodes g ! v) = Some (w # ws)) \<and>
     (\<exists>rs. n_cands (tg_nodes g ! v) = Some rs \<and> rs \<noteq> [] \<and> (\<forall>r\<in>set rs. rc_costs r \<noteq> []))"

definition chain :: "('w, 'c) tuner_graph \<Rightarrow> nat \<Rightarrow> nat list \<Rightarrow> bool" where
  "chain g b vs \<longleftrightarrow> vs \<noteq> [] \<and> sorted_wrt (<) vs \<and> b \<notin> set vs \<and> (\<forall>v\<in>set vs. tunable g v) \<and>
     b < length (tg_nodes g) \<and> is_boundary_node (tg_nodes g ! b) (tg_names g) \<and>
     tg_ins g = chain_ins b vs \<and> tg_outs g = get_out_nodes (tg_ins g) \<and>
     (\<forall>k. Suc k < length vs \<longrightarrow>
        (\<exists>m. map_of (tg_cost g) (vs ! k, vs ! Suc k) = Some m \<and> length m = num_cands g (vs ! k) \<and>
           (\<forall>row\<in>set m. length row = num_cands g (vs ! Suc k))))"

text \<open>The time of the first \<open>k + 1\<close> operators and of the layout transformations between them.\<close>

fun time_to :: "('w, 'c) tuner_graph \<Rightarrow> nat list \<Rightarrow> nat \<Rightarrow> (nat \<Rightarrow> nat) \<Rightarrow> rat" where
  "time_to g vs 0 s = cost_of g (vs ! 0) (s 0)"
| "time_to g vs (Suc k) s = cost_of g (vs ! Suc k) (s (Suc k)) +
     trans_of g (vs ! k) (vs ! Suc k) (s k) (s (Suc k)) + time_to g vs k s"

fun least_to :: "('w, 'c) tuner_graph \<Rightarrow> nat list \<Rightarrow> nat \<Rightarrow> nat \<Rightarrow> rat" where
  "least_to g vs 0 i = cost_of g (vs ! 0) i"
| "least_to g vs (Suc k) i = Min (set (map (\<lambda>j. cost_of g (vs ! Suc k) i +
     trans_of g (vs ! k) (vs ! Suc k) j i + least_to g vs k j) [0..<num_cands g (vs ! k)]))"

text \<open>Times that fill whole units of a power of two, as \<open>float32\<close> stores without rounding.\<close>

definition in_units :: "int \<Rightarrow> nat \<Rightarrow> rat \<Rightarrow> bool" where
  "in_units e B x \<longleftrightarrow> (\<exists>m\<le>B. x = of_nat m * power_int 2 e)"

definition chain_in_units :: "('w, 'c) tuner_graph \<Rightarrow> nat list \<Rightarrow> int \<Rightarrow> nat \<Rightarrow> bool" where
  "chain_in_units g vs e B \<longleftrightarrow>
     (\<forall>k<length vs. \<forall>i<num_cands g (vs ! k). in_units e B (cost_of g (vs ! k) i)) \<and>
     (\<forall>k. Suc k < length vs \<longrightarrow> (\<forall>j<num_cands g (vs ! k). \<forall>i<num_cands g (vs ! Suc k).
        in_units e B (trans_of g (vs ! k) (vs ! Suc k) j i)))"

lemma in_units_add: "in_units e A x \<Longrightarrow> in_units e B y \<Longrightarrow> in_units e (A + B) (x + y)"
  unfolding in_units_def by (metis add_mono of_nat_add distrib_right)

lemma in_units_mono: "in_units e A x \<Longrightarrow> A \<le> B \<Longrightarrow> in_units e B x"
  by (auto simp: in_units_def intro: order_trans)

section \<open>The table of least times\<close>

lemma least_below:
  assumes "\<And>l. l \<le> k \<Longrightarrow> s l < num_cands g (vs ! l)"
  shows "least_to g vs k (s k) \<le> time_to g vs k s"
  using assms
proof (induction k)
  case (Suc k)
  have "least_to g vs (Suc k) (s (Suc k)) \<le> cost_of g (vs ! Suc k) (s (Suc k)) +
      trans_of g (vs ! k) (vs ! Suc k) (s k) (s (Suc k)) + least_to g vs k (s k)"
    using Suc.prems [of k] by (auto intro!: Min_le)
  also have "\<dots> \<le> time_to g vs (Suc k) s" using Suc by simp
  finally show ?case .
qed simp

text \<open>The predecessor the backward pass picks.\<close>

definition pick_before :: "('w, 'c) tuner_graph \<Rightarrow> nat list \<Rightarrow> nat \<Rightarrow> nat \<Rightarrow> nat" where
  "pick_before g vs k i = first_min (map (\<lambda>j. cost_of g (vs ! Suc k) i +
     trans_of g (vs ! k) (vs ! Suc k) j i + least_to g vs k j) [0..<num_cands g (vs ! k)])"

lemma pick_before:
  assumes "0 < num_cands g (vs ! k)"
  shows "pick_before g vs k i < num_cands g (vs ! k)"
    and "least_to g vs (Suc k) i = cost_of g (vs ! Suc k) i +
      trans_of g (vs ! k) (vs ! Suc k) (pick_before g vs k i) i + least_to g vs k (pick_before g vs k i)"
proof -
  let ?xs = "map (\<lambda>j. cost_of g (vs ! Suc k) i +
     trans_of g (vs ! k) (vs ! Suc k) j i + least_to g vs k j) [0..<num_cands g (vs ! k)]"
  have ne: "?xs \<noteq> []" using assms by simp
  show l: "pick_before g vs k i < num_cands g (vs ! k)"
    using first_min(1) [OF ne] by (simp add: pick_before_def)
  then show "least_to g vs (Suc k) i = cost_of g (vs ! Suc k) i +
      trans_of g (vs ! k) (vs ! Suc k) (pick_before g vs k i) i + least_to g vs k (pick_before g vs k i)"
    using first_min(2) [OF ne] by (simp add: pick_before_def)
qed

lemma picked_time:
  assumes "\<And>l. l < k \<Longrightarrow> 0 < num_cands g (vs ! l) \<and> s l = pick_before g vs l (s (Suc l))"
  shows "time_to g vs k s = least_to g vs k (s k)"
  using assms
proof (induction k)
  case (Suc k)
  then have "s k = pick_before g vs k (s (Suc k))" "0 < num_cands g (vs ! k)" by simp_all
  then show ?case using Suc pick_before(2) [of g vs k "s (Suc k)"] by (simp del: least_to.simps(2))
qed simp

lemma least_units:
  assumes "chain_in_units g vs e B" "\<And>l. l < length vs \<Longrightarrow> 0 < num_cands g (vs ! l)"
  shows "k < length vs \<Longrightarrow> i < num_cands g (vs ! k) \<Longrightarrow> in_units e ((2 * k + 1) * B) (least_to g vs k i)"
proof (induction k arbitrary: i)
  case 0
  then show ?case using assms(1) by (simp add: chain_in_units_def)
next
  case (Suc k)
  define p where "p = pick_before g vs k i"
  have p: "p < num_cands g (vs ! k)" "least_to g vs (Suc k) i = cost_of g (vs ! Suc k) i +
      trans_of g (vs ! k) (vs ! Suc k) p i + least_to g vs k p"
    using pick_before [of g vs k i] assms(2) [of k] Suc.prems unfolding p_def by simp_all
  have "in_units e B (cost_of g (vs ! Suc k) i)" "in_units e B (trans_of g (vs ! k) (vs ! Suc k) p i)"
    using assms(1) Suc.prems p(1) by (simp_all add: chain_in_units_def)
  moreover have "in_units e ((2 * k + 1) * B) (least_to g vs k p)" using Suc p(1) by simp
  ultimately have "in_units e (B + B + (2 * k + 1) * B) (least_to g vs (Suc k) i)"
    unfolding p(2) by (intro in_units_add)
  then show ?case by (simp add: algebra_simps)
qed

section \<open>The dictionaries of a chain\<close>

lemma chain_ins_keys [simp]: "map fst (chain_ins b vs) = vs"
  by (induction b vs rule: chain_ins.induct) simp_all

lemma chain_ins_at:
  "distinct vs \<Longrightarrow> k < length vs \<Longrightarrow> map_of (chain_ins b vs) (vs ! k) = Some [(b # vs) ! k]"
proof (induction b vs arbitrary: k rule: chain_ins.induct)
  case (2 b v vs)
  then show ?case by (cases k) auto
qed simp

lemma chain_ins_inputs: "(\<exists>us\<in>snd ` set (chain_ins b vs). i \<in> set us) \<longleftrightarrow> vs \<noteq> [] \<and> i \<in> set (b # butlast vs)"
  by (induction b vs rule: chain_ins.induct) auto

lemma chain_consumers:
  "distinct (b # vs) \<Longrightarrow> k \<le> length vs \<Longrightarrow>
     consumers (chain_ins b vs) ((b # vs) ! k) = (if k < length vs then [vs ! k] else [])"
proof (induction b vs arbitrary: k rule: chain_ins.induct)
  case (1 b)
  then show ?case by (simp add: consumers_def)
next
  case (2 b v vs)
  show ?case
  proof (cases k)
    case 0
    have "consumers (chain_ins v vs) b = []"
      using 2 chain_ins_inputs [of v vs b] by (intro consumers_none) (auto dest: in_set_butlastD)
    then show ?thesis using 0 by (simp add: consumers_Cons)
  next
    case (Suc l)
    have "(v # vs) ! l \<noteq> b" using 2(2,3) Suc by (metis distinct.simps(2) nth_mem length_Cons less_Suc_eq_le Suc_le_mono)
    then show ?thesis using 2 Suc by (simp add: consumers_Cons)
  qed
qed

lemma add_consumer_ok: "dict_ok out \<Longrightarrow> dict_ok (add_consumer key out i)"
  by (auto simp: add_consumer_def distinct_update split: option.split)

lemma out_nodes_ok:
  assumes "dict_ok ins"
  shows "dict_ok (get_out_nodes ins)"
proof -
  have 1: "dict_ok out \<Longrightarrow> dict_ok (foldl (add_consumer key) out vs)" for key vs out
    by (induction vs arbitrary: out) (simp_all add: add_consumer_ok)
  have 2: "dict_ok out \<Longrightarrow> dict_ok (foldl (\<lambda>out (key, vs). foldl (add_consumer key) out vs) out es)" for es out
    by (induction es arbitrary: out) (auto simp: 1)
  have "map fst (map (\<lambda>(key, _). (key, [] :: nat list)) ins) = map fst ins" by (simp add: case_prod_beta' o_def)
  with assms have "dict_ok (map (\<lambda>(key, _). (key, [] :: nat list)) ins)" by (simp only:)
  then show ?thesis unfolding get_out_nodes_def by (rule 2)
qed

lemma single_filter:
  assumes "dict_ok d" "\<And>k. P k (the (map_of d k)) \<and> k \<in> fst ` set d \<longleftrightarrow> k = k0"
  shows "map fst (filter (\<lambda>(k, v). P k v) d) = [k0]"
proof -
  have "set (map fst (filter (\<lambda>(k, v). P k v) d)) = {k0}"
    using assms by (force simp: map_of_dict_iff intro: rev_image_eqI)
  moreover have "distinct (map fst (filter (\<lambda>(k, v). P k v) d))"
    using assms(1) by (simp add: distinct_map_filter)
  ultimately show ?thesis
    by (metis distinct_card length_Suc_conv card.empty card_insert_disjoint finite.emptyI empty_iff length_0_conv list.set_intros(1) singletonD One_nat_def)
qed

lemma chain_facts:
  assumes "chain g b vs"
  shows "distinct (b # vs)" "sort vs = vs"
    and "k < length vs \<Longrightarrow> dict_get (tg_ins g) (vs ! k) = Inr [(b # vs) ! k]"
    and "k < length vs \<Longrightarrow> dict_get (tg_outs g) (vs ! k) = Inr (if Suc k < length vs then [vs ! Suc k] else [])"
    and "map fst (filter (\<lambda>(_, ks). ks = []) (tg_outs g)) = [last vs]"
proof -
  have sw: "sorted_wrt (<) vs" using assms by (simp add: chain_def)
  then show d: "distinct (b # vs)" using assms by (auto simp: chain_def strict_sorted_iff)
  from sw show "sort vs = vs" by (simp add: strict_sorted_iff sorted_sort_id)
  show "k < length vs \<Longrightarrow> dict_get (tg_ins g) (vs ! k) = Inr [(b # vs) ! k]"
    using chain_ins_at [of vs k b] d assms by (simp add: dict_get_def chain_def)
  have o: "tg_outs g = get_out_nodes (chain_ins b vs)" "vs \<noteq> []" using assms by (simp_all add: chain_def)
  have keys: "fst ` set (chain_ins b vs) = set vs" by (metis chain_ins_keys set_map)
  have at: "map_of (tg_outs g) ((b # vs) ! k) = Some (if k < length vs then [vs ! k] else [])"
    if "k \<le> length vs" for k
  proof -
    have "(b # vs) ! k \<in> set vs \<or> (b # vs) ! k \<in> set (b # butlast vs)" using that by (cases k) auto
    then show ?thesis using chain_consumers [OF d that] o(2)
      unfolding o(1) out_nodes_are_consumers keys chain_ins_inputs by simp
  qed
  from at [of "Suc k" for k] show
    "k < length vs \<Longrightarrow> dict_get (tg_outs g) (vs ! k) = Inr (if Suc k < length vs then [vs ! Suc k] else [])"
    by (simp add: dict_get_def)
  have dk: "dict_ok (tg_outs g)" unfolding o(1) by (rule out_nodes_ok) (use d in simp)
  have "the (map_of (tg_outs g) i) = [] \<and> i \<in> fst ` set (tg_outs g) \<longleftrightarrow> i = last vs" for i
  proof -
    have "i \<in> fst ` set (tg_outs g) \<longleftrightarrow> map_of (tg_outs g) i \<noteq> None" by (simp add: map_of_eq_None_iff)
    also have "\<dots> \<longleftrightarrow> i \<in> set (b # vs)"
      using o(2) unfolding o(1) out_nodes_are_consumers keys chain_ins_inputs
      by (auto dest: in_set_butlastD)
    also have "\<dots> \<longleftrightarrow> (\<exists>k\<le>length vs. i = (b # vs) ! k)"
      by (metis in_set_conv_nth length_Cons less_Suc_eq_le)
    finally have e: "i \<in> fst ` set (tg_outs g) \<longleftrightarrow> (\<exists>k\<le>length vs. i = (b # vs) ! k)" .
    have l: "last vs = (b # vs) ! length vs" using o(2) by (simp add: last_conv_nth nth_Cons')
    show ?thesis
    proof
      assume "the (map_of (tg_outs g) i) = [] \<and> i \<in> fst ` set (tg_outs g)"
      with e at obtain k where "k \<le> length vs" "i = (b # vs) ! k" "\<not> k < length vs"
        by (metis list.discI option.sel)
      then show "i = last vs" using l by simp
    next
      assume "i = last vs"
      then show "the (map_of (tg_outs g) i) = [] \<and> i \<in> fst ` set (tg_outs g)"
        using e l at [of "length vs"] by auto
    qed
  qed
  from single_filter [OF dk, of "\<lambda>_ ks. ks = []", OF this]
  show "map fst (filter (\<lambda>(_, ks). ks = []) (tg_outs g)) = [last vs]" .
qed

section \<open>Filling an array row by row\<close>

lemma fill_row:
  assumes "\<And>j xs. j < n \<Longrightarrow> f j xs = nd_set (off + j) (v j) xs" "off + n \<le> length xs"
  shows "foldR f [0..<n] xs = Inr (take off xs @ map v [0..<n] @ drop (off + n) xs)"
  using assms
proof (induction n)
  case (Suc n)
  then have "foldR f [0..<n] xs = Inr (take off xs @ map v [0..<n] @ drop (off + n) xs)" by simp
  moreover have "drop (off + n) xs = xs ! (off + n) # drop (off + Suc n) xs"
    using Suc.prems(2) by (simp add: Cons_nth_drop_Suc)
  ultimately show ?case using Suc.prems
    by (simp add: foldR_append nd_set_def list_update_append)
qed simp

lemma fill_rows:
  assumes "\<And>i xs. i < m \<Longrightarrow> length xs = m * n \<Longrightarrow> f i xs = Inr (take (i * n) xs @ row i @ drop (i * n + n) xs)"
    and "\<And>i. i < m \<Longrightarrow> length (row i) = n" "length xs = m * n"
  shows "foldR f [0..<m] xs = Inr (concat (map row [0..<m]))"
proof -
  have "foldR f [0..<k] xs = Inr (concat (map row [0..<k]) @ drop (k * n) xs)" if "k \<le> m" for k
    using that
  proof (induction k)
    case (Suc k)
    have "(\<Sum>i\<leftarrow>[0..<k]. length (row i)) = (\<Sum>i\<leftarrow>[0..<k]. n)"
      by (rule arg_cong [where f = sum_list], rule map_cong) (use assms(2) Suc.prems in simp_all)
    then have l: "length (concat (map row [0..<k])) = k * n"
      by (simp add: length_concat o_def sum_list_triv)
    have "k * n \<le> m * n" using Suc.prems by (intro mult_le_mono1) simp
    then have "length (concat (map row [0..<k]) @ drop (k * n) xs) = m * n" using l assms(3) by simp
    then show ?case using Suc assms(1) [of k "concat (map row [0..<k]) @ drop (k * n) xs"] l
      by (simp add: foldR_append add.commute)
  qed simp
  from this [of m] show ?thesis using assms(3) by simp
qed

definition table :: "nat \<Rightarrow> (nat \<Rightarrow> 'a) \<Rightarrow> 'a nd" where
  "table n f = nd_build [n] (\<lambda>idx. f (hd idx))"

definition table2 :: "nat \<Rightarrow> nat \<Rightarrow> (nat \<Rightarrow> nat \<Rightarrow> 'a) \<Rightarrow> 'a nd" where
  "table2 m n f = nd_build [m, n] (\<lambda>idx. f (idx ! 0) (idx ! 1))"

lemma table_simps [simp]:
  "nd_shape (table n f) = [n]" "nd_data (table n f) = map f [0..<n]" "nd_ok (table n f)"
  by (simp_all add: table_def nd_build_def nd_ok_def map_concat o_def)

lemma table2_simps [simp]:
  "nd_shape (table2 m n f) = [m, n]" "nd_data (table2 m n f) = concat (map (\<lambda>i. map (f i) [0..<n]) [0..<m])"
  "nd_ok (table2 m n f)"
  by (simp_all add: table2_def nd_build_def nd_ok_def map_concat o_def length_concat sum_list_triv)

lemma table2_entry: "i < m \<Longrightarrow> j < n \<Longrightarrow> entry (table2 m n f) [i, j] = f i j"
  by (simp add: table2_def)

lemma table_cong: "(\<And>i. i < n \<Longrightarrow> f i = g i) \<Longrightarrow> table n f = table n g"
  unfolding table_def by (rule nd_build_cong) (auto simp: list_all2_Cons2)

lemma table2_cong: "(\<And>i j. i < m \<Longrightarrow> j < n \<Longrightarrow> f i j = g i j) \<Longrightarrow> table2 m n f = table2 m n g"
  unfolding table2_def by (rule nd_build_cong) (auto simp: list_all2_Cons2)

lemma table_list: "\<lparr>nd_shape = [length xs], nd_data = xs\<rparr> = table (length xs) ((!) xs)"
proof -
  have "nd_data (table (length xs) ((!) xs)) = xs" by (simp add: map_nth)
  moreover have "nd_shape (table (length xs) ((!) xs)) = [length xs]" by simp
  ultimately show ?thesis by (metis nd.surjective old.unit.exhaust)
qed

lemma reduced_table2: "reduced F 1 (table2 m n f) = table m (\<lambda>i. F (map (f i) [0..<n]))"
proof -
  have "along 1 (table2 m n f) [i] = map (f i) [0..<n]" if "i < m" for i
    using that by (simp add: along_def table2_entry)
  note * = this
  have "reduced F 1 (table2 m n f) = nd_build [m] (\<lambda>idx. F (along 1 (table2 m n f) idx))"
    by (simp add: reduced_def)
  also have "\<dots> = nd_build [m] (\<lambda>idx. F (map (f (hd idx)) [0..<n]))"
    by (rule nd_build_cong) (use * in \<open>auto simp: list_all2_Cons2\<close>)
  finally show ?thesis by (simp add: table_def)
qed

lemma op_full_eq:
  assumes "\<And>i. i < length recs \<Longrightarrow> cand_cost recs i = Inr (c i)"
    and "\<And>i j. i < length recs \<Longrightarrow> j < length fl \<Longrightarrow> layout_time g a idx j i = Inr (t j i)"
  shows "op_full np g idx a recs 1 fl counted (replicate (length recs * length fl) 0) =
    Inr (nd_data (table2 (length recs) (length fl)
      (\<lambda>i j. np_float32 np (if counted then c i + t j i else c i + t j i + fl ! j))))"
  unfolding op_full_def table2_simps
proof (rule fill_rows [where n = "length fl"])
  fix i and xs :: "rat list"
  assume i: "i < length recs" and l: "length xs = length recs * length fl"
  have "Suc i * length fl \<le> length recs * length fl" using i by (intro mult_le_mono1) simp
  with i l assms show "bindR (cand_cost recs i) (\<lambda>cur. foldR (\<lambda>j full. bindR (guardR (1 \<noteq> (0 :: nat)) ZeroDivisionError) (\<lambda>_.
      bindR (layout_time g a idx (j div 1) i) (\<lambda>lt. nd_set (i * length fl + j)
        (np_float32 np (if counted then cur + lt else cur + lt + fl ! j)) full))) [0..<length fl] xs) =
    Inr (take (i * length fl) xs @ map (\<lambda>j. np_float32 np (if counted then c i + t j i else c i + t j i + fl ! j))
      [0..<length fl] @ drop (i * length fl + length fl) xs)"
    by (simp add: fill_row [where v = "\<lambda>j. np_float32 np (if counted then c i + t j i else c i + t j i + fl ! j)"])
qed simp_all

section \<open>The forward pass\<close>

fun stage_at :: "('w, 'c) tuner_graph \<Rightarrow> nat list \<Rightarrow> nat \<Rightarrow> stage" where
  "stage_at g vs 0 =
     (let t = table (num_cands g (vs ! 0)) (least_to g vs 0) in
      \<lparr>sg_dep = [], sg_states = t, sg_full = t, sg_full_idx = None\<rparr>)"
| "stage_at g vs (Suc k) =
     \<lparr>sg_dep = [], sg_states = table (num_cands g (vs ! Suc k)) (least_to g vs (Suc k)),
      sg_full = table2 (num_cands g (vs ! Suc k)) (num_cands g (vs ! k)) (\<lambda>i j. cost_of g (vs ! Suc k) i +
        trans_of g (vs ! k) (vs ! Suc k) j i + least_to g vs k j),
      sg_full_idx = Some [vs ! Suc k, vs ! k]\<rparr>"

lemma stage_at_simps [simp]:
  "sg_dep (stage_at g vs k) = []"
  "sg_states (stage_at g vs k) = table (num_cands g (vs ! k)) (least_to g vs k)"
  by (cases k; simp add: Let_def)+

lemma tunable_facts:
  assumes "tunable g v"
  obtains w rs where "node_at g v = Inr (tg_nodes g ! v)" "op_in (tg_nodes g ! v) (tg_targets g)"
    "\<not> is_boundary_node (tg_nodes g ! v) (tg_names g)" "first_workload (tg_nodes g ! v) = Inr w"
    "cands g v = Inr rs" "length rs = num_cands g v" "0 < num_cands g v"
    "mapR (\<lambda>r. py_get (rc_costs r) 0) rs = Inr (map (cost_of g v) [0..<num_cands g v])"
    "\<And>i. i < num_cands g v \<Longrightarrow> cand_cost rs i = Inr (cost_of g v i)"
proof -
  obtain w ws rs where n: "v < length (tg_nodes g)" "n_workloads (tg_nodes g ! v) = Some (w # ws)"
    "n_cands (tg_nodes g ! v) = Some rs" "rs \<noteq> []" "\<forall>r\<in>set rs. rc_costs r \<noteq> []"
    using assms by (auto simp: tunable_def)
  have hd: "py_get (rc_costs r) 0 = Inr (hd (rc_costs r))" if "r \<in> set rs" for r
    using n(5) that by (cases "rc_costs r") auto
  have "map (\<lambda>r. hd (rc_costs r)) rs = map (cost_of g v) [0..<num_cands g v]"
    using n(3) by (intro nth_equalityI) (simp_all add: cost_of_def num_cands_def)
  then have m: "mapR (\<lambda>r. py_get (rc_costs r) 0) rs = Inr (map (cost_of g v) [0..<num_cands g v])"
    using mapR_total [of rs "\<lambda>r. py_get (rc_costs r) 0" "\<lambda>r. hd (rc_costs r)"] hd by simp
  have c: "cand_cost rs i = Inr (cost_of g v i)" if "i < num_cands g v" for i
    using that n(3) hd by (simp add: cand_cost_def cost_of_def num_cands_def)
  have i: "node_at g v = Inr (tg_nodes g ! v)" "first_workload (tg_nodes g ! v) = Inr w" "cands g v = Inr rs"
    "length rs = num_cands g v" "0 < num_cands g v"
    using n by (simp_all add: node_at_def first_workload_def cands_def num_cands_def)
  show ?thesis by (rule that [OF i(1) _ _ i(2-5) m c]) (use assms in \<open>simp_all add: tunable_def\<close>)
qed

lemma chain_layout:
  assumes "chain g b vs" "Suc k < length vs" "j < num_cands g (vs ! k)" "i < num_cands g (vs ! Suc k)"
  shows "layout_time g (vs ! k) (vs ! Suc k) j i = Inr (trans_of g (vs ! k) (vs ! Suc k) j i)"
proof -
  obtain m where m: "map_of (tg_cost g) (vs ! k, vs ! Suc k) = Some m" "length m = num_cands g (vs ! k)"
    "\<forall>row\<in>set m. length row = num_cands g (vs ! Suc k)" using assms(1,2) by (auto simp: chain_def)
  then have "length (m ! j) = num_cands g (vs ! Suc k)" using assms(3) by simp
  with m assms(3,4) show ?thesis by (simp add: layout_time_def dict_get_def trans_of_def)
qed

definition chain_ok :: "('w, 'c) tuner_graph \<Rightarrow> nat \<Rightarrow> nat list \<Rightarrow> int \<Rightarrow> nat \<Rightarrow> bool" where
  "chain_ok g b vs e B \<longleftrightarrow> chain g b vs \<and> chain_in_units g vs e B \<and>
     2 * length vs * B \<le> 2 ^ 24 \<and> - 149 \<le> e \<and> e \<le> 103"

lemma chain_tunable: "chain_ok g b vs e B \<Longrightarrow> k < length vs \<Longrightarrow> tunable g (vs ! k)"
  by (simp add: chain_ok_def chain_def)

lemma chain_cands_pos: "chain_ok g b vs e B \<Longrightarrow> k < length vs \<Longrightarrow> 0 < num_cands g (vs ! k)"
  by (rule tunable_facts [OF chain_tunable])

lemma hand_on_none:
  "dict_get (tg_outs g) v = Inr ks \<Longrightarrow> length ks \<le> 1 \<Longrightarrow> hand_on g v [] deps = Inr deps"
  by (simp add: hand_on_def)

text \<open>The number of states created for the first \<open>k\<close> operators, and whether a limit allows a number.\<close>

definition states_to :: "('w, 'c) tuner_graph \<Rightarrow> nat list \<Rightarrow> nat \<Rightarrow> nat" where
  "states_to g vs k = sumlist (map (\<lambda>l. length (nd_data (sg_full (stage_at g vs l)))) [0..<k])"

definition allows :: "nat option \<Rightarrow> nat \<Rightarrow> bool" where
  "allows max_num n \<longleftrightarrow> (case max_num of None \<Rightarrow> True | Some m \<Rightarrow> n \<le> m)"

lemma states_to_Suc: "states_to g vs (Suc k) = states_to g vs k + length (nd_data (sg_full (stage_at g vs k)))"
  by (simp add: states_to_def)

lemma check_allows: "check_num_states max_num n k = (if allows max_num (n + k) then Inr (n + k) else Inl RuntimeError)"
  by (simp add: check_num_states_def allows_def split: option.split)

lemma allows_less: "allows max_num (n + k) \<Longrightarrow> allows max_num n"
  by (auto simp: allows_def split: option.splits)

definition forward_inv :: "('w, 'c) tuner_graph \<Rightarrow> nat list \<Rightarrow> nat \<Rightarrow> dp_state \<Rightarrow> bool" where
  "forward_inv g vs k st \<longleftrightarrow> (\<forall>l<k. dict_get (dp_stages st) (vs ! l) = Inr (stage_at g vs l)) \<and>
     dp_counted st \<subseteq> set (take (k - 1) vs)"

context numpy
begin

lemma float32_units: "in_units e N x \<Longrightarrow> N \<le> 2 ^ 24 \<Longrightarrow> - 149 \<le> e \<Longrightarrow> e \<le> 103 \<Longrightarrow> np_float32 np x = x"
  using float32 by (auto simp: in_units_def)

lemma chain_exact:
  assumes "chain_ok g b vs e B" "Suc k < length vs" "j < num_cands g (vs ! k)" "i < num_cands g (vs ! Suc k)"
  shows "np_float32 np (cost_of g (vs ! Suc k) i + trans_of g (vs ! k) (vs ! Suc k) j i + least_to g vs k j) =
    cost_of g (vs ! Suc k) i + trans_of g (vs ! k) (vs ! Suc k) j i + least_to g vs k j"
proof -
  have u: "chain_in_units g vs e B" using assms(1) by (simp add: chain_ok_def)
  have "in_units e B (cost_of g (vs ! Suc k) i)" "in_units e B (trans_of g (vs ! k) (vs ! Suc k) j i)"
    using u assms(2-4) by (simp_all add: chain_in_units_def)
  moreover have "in_units e ((2 * k + 1) * B) (least_to g vs k j)"
    by (rule least_units [OF u chain_cands_pos [OF assms(1)]]) (use assms(2,3) in simp_all)
  ultimately have "in_units e (B + B + (2 * k + 1) * B) (cost_of g (vs ! Suc k) i +
      trans_of g (vs ! k) (vs ! Suc k) j i + least_to g vs k j)" by (intro in_units_add)
  moreover have "B + B + (2 * k + 1) * B \<le> 2 ^ 24"
  proof -
    have "B + B + (2 * k + 1) * B = (2 * k + 3) * B" by (simp add: algebra_simps)
    also have "\<dots> \<le> (2 * length vs) * B" using assms(2) by (intro mult_le_mono1) simp
    also have "\<dots> \<le> 2 ^ 24" using assms(1) by (simp only: chain_ok_def)
    finally show ?thesis .
  qed
  ultimately show ?thesis by (rule float32_units) (use assms(1) in \<open>simp_all add: chain_ok_def\<close>)
qed

lemma first_stage:
  assumes "chain_ok g b vs e B"
  shows "new_stage np g (vs ! 0) st = Inr (stage_at g vs 0, st)"
proof -
  have c: "chain g b vs" "0 < length vs" using assms by (simp_all add: chain_ok_def chain_def)
  note f = chain_facts [OF c(1)]
  obtain w rs where v: "node_at g (vs ! 0) = Inr (tg_nodes g ! (vs ! 0))"
    "op_in (tg_nodes g ! (vs ! 0)) (tg_targets g)" "first_workload (tg_nodes g ! (vs ! 0)) = Inr w"
    "cands g (vs ! 0) = Inr rs" "length rs = num_cands g (vs ! 0)"
    "mapR (\<lambda>r. py_get (rc_costs r) 0) rs = Inr (map (cost_of g (vs ! 0)) [0..<num_cands g (vs ! 0)])"
    using tunable_facts [OF chain_tunable [OF assms c(2)]] by metis
  have "node_at g b = Inr (tg_nodes g ! b)" "is_boundary_node (tg_nodes g ! b) (tg_names g)"
    using c(1) by (simp_all add: node_at_def chain_def)
  moreover have "\<lparr>nd_shape = [num_cands g (vs ! 0)], nd_data = map (cost_of g (vs ! 0)) [0..<num_cands g (vs ! 0)]\<rparr> =
      table (num_cands g (vs ! 0)) (least_to g vs 0)"
    by (simp add: table_def nd_build_def map_concat o_def)
  moreover have "hand_on g (vs ! 0) [] (dp_deps st) = Inr (dp_deps st)"
    by (rule hand_on_none [OF f(4) [OF c(2)]]) simp
  ultimately show ?thesis using v f(3) [OF c(2)]
    by (simp add: new_stage_def create_op_states_def Let_def)
qed

lemma later_stage:
  assumes "chain_ok g b vs e B" "Suc k < length vs"
    and "dict_get (dp_stages st) (vs ! k) = Inr (stage_at g vs k)" "vs ! k \<notin> dp_counted st"
  shows "new_stage np g (vs ! Suc k) st = Inr (stage_at g vs (Suc k), st\<lparr>dp_counted := insert (vs ! k) (dp_counted st)\<rparr>)"
proof -
  have c: "chain g b vs" "k < length vs" using assms by (simp_all add: chain_ok_def)
  note f = chain_facts [OF c(1)]
  define v where "v = vs ! Suc k"
  define a where "a = vs ! k"
  obtain w rs where v: "node_at g v = Inr (tg_nodes g ! v)" "op_in (tg_nodes g ! v) (tg_targets g)"
    "first_workload (tg_nodes g ! v) = Inr w" "cands g v = Inr rs" "length rs = num_cands g v"
    "\<And>i. i < num_cands g v \<Longrightarrow> cand_cost rs i = Inr (cost_of g v i)"
    using tunable_facts [OF chain_tunable [OF assms(1,2)]] unfolding v_def by metis
  obtain rs' where a: "node_at g a = Inr (tg_nodes g ! a)" "\<not> is_boundary_node (tg_nodes g ! a) (tg_names g)"
    "cands g a = Inr rs'" "length rs' = num_cands g a" "0 < num_cands g a"
    using tunable_facts [OF chain_tunable [OF assms(1) c(2)]] unfolding a_def by metis
  let ?F = "\<lambda>i j. cost_of g v i + trans_of g a v j i + least_to g vs k j"
  let ?flat = "nd_data (table2 (num_cands g v) (num_cands g a) ?F)"
  let ?fl = "map (least_to g vs k) [0..<num_cands g a]"
  have "op_full np g v a rs 1 ?fl False (replicate (length rs * length ?fl) 0) =
      Inr (nd_data (table2 (length rs) (length ?fl) (\<lambda>i j. np_float32 np
        (if False then cost_of g v i + trans_of g a v j i else cost_of g v i + trans_of g a v j i + ?fl ! j))))"
    by (rule op_full_eq) (use v(5,6) chain_layout [OF c(1) assms(2)] in \<open>simp_all add: v_def a_def\<close>)
  also have "table2 (length rs) (length ?fl) (\<lambda>i j. np_float32 np
        (if False then cost_of g v i + trans_of g a v j i else cost_of g v i + trans_of g a v j i + ?fl ! j)) =
      table2 (length rs) (length ?fl) ?F"
    by (rule table2_cong) (use v(5) chain_exact [OF assms(1,2)] in \<open>simp add: v_def a_def\<close>)
  finally have full: "op_full np g v a rs 1 ?fl False (replicate (num_cands g v * num_cands g a) 0) = Inr ?flat"
    using v(5) by simp
  have re: "np_reshape np [num_cands g v, num_cands g a] \<lparr>nd_shape = [num_cands g v * num_cands g a], nd_data = ?flat\<rparr> =
      Inr (table2 (num_cands g v) (num_cands g a) ?F)"
    using reshape [of "\<lparr>nd_shape = [num_cands g v * num_cands g a], nd_data = ?flat\<rparr>" "[num_cands g v, num_cands g a]"]
    by (simp add: nd_ok_def length_concat sum_list_triv o_def table2_def nd_build_def map_concat)
  have am: "np_amin np 1 (table2 (num_cands g v) (num_cands g a) ?F) =
      Inr (table (num_cands g v) (least_to g vs (Suc k)))"
  proof -
    have "reduced (\<lambda>xs. Min (set xs)) 1 (table2 (num_cands g v) (num_cands g a) ?F) =
        table (num_cands g v) (least_to g vs (Suc k))"
      unfolding reduced_table2 by (rule table_cong) (simp add: v_def a_def)
    moreover have "np_amin np 1 (table2 (num_cands g v) (num_cands g a) ?F) =
        Inr (reduced (\<lambda>xs. Min (set xs)) 1 (table2 (num_cands g v) (num_cands g a) ?F))"
      using a(5) by (intro amin) simp_all
    ultimately show ?thesis by simp
  qed
  have "hand_on g v [] (dp_deps st) = Inr (dp_deps st)" unfolding v_def
    by (rule hand_on_none [OF f(4) [OF assms(2)]]) simp
  then show ?thesis using v a full re am f(3) [OF assms(2)] f(4) [OF c(2)] assms(2-4)
    by (simp add: new_stage_def create_op_states_def Let_def v_def a_def del: table2_simps(2) One_nat_def)
qed

lemma any_stage:
  assumes "chain_ok g b vs e B" "k < length vs" "forward_inv g vs k st"
  shows "\<exists>st'. new_stage np g (vs ! k) st = Inr (stage_at g vs k, st') \<and> dp_stages st' = dp_stages st \<and>
    dp_counted st' \<subseteq> set (take k vs)"
proof (cases k)
  case 0
  then show ?thesis using first_stage [OF assms(1)] assms(3) by (simp add: forward_inv_def)
next
  case (Suc l)
  have d: "distinct vs" using chain_facts(1) [of g b vs] assms(1) by (simp add: chain_ok_def)
  have "vs ! l \<notin> set (take l vs)"
    using d assms(2) Suc by (metis Suc_lessD id_take_nth_drop distinct_append not_distinct_conv_prefix append_take_drop_id take_Suc_conv_app_nth)
  then have "vs ! l \<notin> dp_counted st" using assms(3) Suc by (auto simp: forward_inv_def)
  with later_stage [OF assms(1), of l st] assms(2,3) Suc show ?thesis
    by (auto simp: forward_inv_def take_Suc_conv_app_nth)
qed

lemma forward_chain:
  assumes "chain_ok g b vs e B" "k \<le> length vs"
  shows "if allows max_num (states_to g vs k)
    then \<exists>st. foldR (forward_step np g max_num) (take k vs) (0, init_dp) = Inr (states_to g vs k, st) \<and> forward_inv g vs k st
    else foldR (forward_step np g max_num) (take k vs) (0, init_dp) = Inl RuntimeError"
  using assms(2)
proof (induction k)
  case 0
  then show ?case by (simp add: states_to_def allows_def forward_inv_def init_dp_def split: option.split)
next
  case (Suc k)
  have t: "take (Suc k) vs = take k vs @ [vs ! k]" using Suc.prems by (simp add: take_Suc_conv_app_nth)
  show ?case
  proof (cases "allows max_num (states_to g vs k)")
    case False
    then have "\<not> allows max_num (states_to g vs (Suc k))" unfolding states_to_Suc using allows_less by blast
    with False Suc show ?thesis by (simp add: t foldR_append)
  next
    case True
    with Suc obtain st where st: "foldR (forward_step np g max_num) (take k vs) (0, init_dp) = Inr (states_to g vs k, st)"
      "forward_inv g vs k st" by auto
    obtain st' where st': "new_stage np g (vs ! k) st = Inr (stage_at g vs k, st')" "dp_stages st' = dp_stages st"
      "dp_counted st' \<subseteq> set (take k vs)" using any_stage [OF assms(1) _ st(2)] Suc.prems by auto
    have d: "distinct vs" using chain_facts(1) [of g b vs] assms(1) by (simp add: chain_ok_def)
    have "forward_inv g vs (Suc k) (st'\<lparr>dp_stages := AList.update (vs ! k) (stage_at g vs k) (dp_stages st')\<rparr>)"
      using st(2) st'(2,3) d Suc.prems
      by (auto simp: forward_inv_def less_Suc_eq nth_eq_iff_index_eq)
    moreover have "forward_step np g max_num (vs ! k) (states_to g vs k, st) =
        (if allows max_num (states_to g vs (Suc k))
         then Inr (states_to g vs (Suc k), st'\<lparr>dp_stages := AList.update (vs ! k) (stage_at g vs k) (dp_stages st')\<rparr>)
         else Inl RuntimeError)"
      using st'(1) by (simp add: forward_step_def check_allows states_to_Suc)
    ultimately show ?thesis using st(1) by (simp add: t foldR_append)
  qed
qed

end

section \<open>The backward pass\<close>

lemma best_output_inv:
  assumes "k \<le> length xs" "best_output [xs] k start = (min_time, min_pos)"
  shows "(min_pos = - 1 \<and> (\<forall>j<k. start \<le> xs ! j)) \<or>
    (0 \<le> min_pos \<and> nat min_pos < k \<and> min_time = xs ! nat min_pos \<and> (\<forall>j<k. min_time \<le> xs ! j))"
proof -
  have "case best_output [xs] k start of (mt, mp) \<Rightarrow>
      (mp = - 1 \<and> mt = start \<and> (\<forall>j<k. start \<le> xs ! j)) \<or>
      (0 \<le> mp \<and> nat mp < k \<and> mt = xs ! nat mp \<and> (\<forall>j<k. mt \<le> xs ! j))"
    by (induction k) (auto simp: best_output_def Let_def less_Suc_eq split: prod.splits)
  with assms(2) show ?thesis by auto
qed

lemma best_output:
  assumes "xs \<noteq> []" "best_output [xs] (length xs) (Max (set xs)) = (min_time, min_pos)"
  defines "i \<equiv> nat (min_pos mod int (length xs))"
  shows "i < length xs" "\<And>j. j < length xs \<Longrightarrow> xs ! i \<le> xs ! j"
proof -
  have n: "0 < length xs" using assms(1) by simp
  then show l: "i < length xs" by (simp add: i_def nat_less_iff)
  fix j assume j: "j < length xs"
  from best_output_inv [OF order_refl assms(2)] show "xs ! i \<le> xs ! j"
  proof
    assume "min_pos = - 1 \<and> (\<forall>j<length xs. Max (set xs) \<le> xs ! j)"
    moreover have "xs ! i \<le> Max (set xs)" using l by simp
    ultimately show ?thesis using j by (meson order_trans)
  next
    assume a: "0 \<le> min_pos \<and> nat min_pos < length xs \<and> min_time = xs ! nat min_pos \<and> (\<forall>j<length xs. min_time \<le> xs ! j)"
    then have "0 \<le> min_pos" "min_pos < int (length xs)" by auto
    then have "i = nat min_pos" by (simp add: i_def)
    with a j show ?thesis by auto
  qed
qed

context numpy
begin

lemma align_single:
  assumes "dict_get stages v = Inr stage" "sg_dep stage = []" "sg_states stage = table n f"
    and "cands g v = Inr rs" "length rs = n"
  shows "align_states np g stages [v] = Inr ([(v, 0, 1, table n f)], [v])"
proof -
  have "np_transpose np [0] (table n f) = Inr (table n f)" by (rule transpose_1) simp_all
  moreover have "np_reshape np [n] (table n f) = Inr (table n f)" using reshape_same [of "table n f"] by simp
  moreover have "np_broadcast_to np [n] (table n f) = Inr (table n f)" using broadcast_same [of "table n f"] by simp
  ultimately show ?thesis using assms
    by (simp add: align_states_def align_one_def add_new_def major_axis_def Let_def)
qed

lemma back_step:
  assumes "chain_ok g b vs e B" "Suc k < length vs" "i < num_cands g (vs ! Suc k)"
    and "vs ! k \<notin> visited" "vs ! k \<notin> fst ` set opt"
  shows "back_single np g (stage_at g vs (Suc k)) (vs ! Suc k) i visited (q, opt) =
    Inr (q @ [vs ! k], AList.update (vs ! k) (pick_before g vs k i) opt)"
proof -
  have c: "chain g b vs" using assms(1) by (simp add: chain_ok_def)
  let ?F = "\<lambda>i j. cost_of g (vs ! Suc k) i + trans_of g (vs ! k) (vs ! Suc k) j i + least_to g vs k j"
  let ?full = "table2 (num_cands g (vs ! Suc k)) (num_cands g (vs ! k)) ?F"
  have "0 < num_cands g (vs ! k)" using assms(1,2) by (intro chain_cands_pos) simp_all
  then have "np_argmin_axis np 1 ?full = Inr (reduced first_min 1 ?full)" by (intro argmin_axis) simp_all
  then have am: "np_argmin_axis np 1 ?full = Inr (table (num_cands g (vs ! Suc k)) (pick_before g vs k))"
    unfolding reduced_table2 by (simp add: pick_before_def [abs_def])
  have it: "np_item np [i] (table (num_cands g (vs ! Suc k)) (pick_before g vs k)) = Inr (pick_before g vs k i)"
    using assms(3) by (subst item) (simp_all add: table_def)
  have "tunable g (vs ! k)" using assms(1,2) by (intro chain_tunable) simp_all
  then have "node_at g (vs ! k) = Inr (tg_nodes g ! (vs ! k))" "\<not> is_boundary_node (tg_nodes g ! (vs ! k)) (tg_names g)"
    by (auto elim: tunable_facts)
  then show ?thesis using chain_facts(3) [OF c assms(2)] assms(4,5) am it
    by (simp add: back_single_def del: One_nat_def)
qed

lemma walk_turn:
  assumes "chain_ok g b vs e B" "forward_inv g vs (length vs) st" "k < length vs" "map_of opt (vs ! k) = Some i"
    and "back_single np g (stage_at g vs k) (vs ! k) i (insert (vs ! k) visited) (q, opt) = Inr (q', opt')"
  shows "back_walk (Suc fuel) np g (dp_stages st) visited (vs ! k # q) opt =
    back_walk fuel np g (dp_stages st) (insert (vs ! k) visited) q' opt'"
proof -
  have t: "tunable g (vs ! k)" using assms(1,3) by (rule chain_tunable)
  then have "node_at g (vs ! k) = Inr (tg_nodes g ! (vs ! k))" "\<not> is_boundary_node (tg_nodes g ! (vs ! k)) (tg_names g)"
    by (auto elim: tunable_facts)
  moreover have "has_multiple_inputs (Suc (vs ! k)) (tg_nodes g) (vs ! k) (tg_names g) = Inr False"
    using t by (simp add: tunable_def)
  moreover have "dict_get (dp_stages st) (vs ! k) = Inr (stage_at g vs k)"
    using assms(2,3) by (simp add: forward_inv_def)
  ultimately show ?thesis using assms(4,5) by (simp add: Let_def dict_get_def)
qed

lemma walk_chain:
  assumes "chain_ok g b vs e B" "forward_inv g vs (length vs) st"
  shows "k < length vs \<Longrightarrow> k < fuel \<Longrightarrow> map_of opt (vs ! k) = Some i \<Longrightarrow> i < num_cands g (vs ! k) \<Longrightarrow>
    visited \<inter> set (take k vs) = {} \<Longrightarrow> fst ` set opt \<inter> set (take k vs) = {} \<Longrightarrow>
    \<exists>opt'. back_walk fuel np g (dp_stages st) visited [vs ! k] opt = Inr opt' \<and>
      (\<forall>v. v \<notin> set (take k vs) \<longrightarrow> map_of opt' v = map_of opt v) \<and>
      (\<forall>l<k. map_of opt' (vs ! l) = Some (pick_before g vs l (the (map_of opt' (vs ! Suc l)))))"
proof (induction k arbitrary: fuel opt i visited)
  case 0
  have c: "chain g b vs" using assms(1) by (simp add: chain_ok_def)
  then have "node_at g b = Inr (tg_nodes g ! b)" "is_boundary_node (tg_nodes g ! b) (tg_names g)"
    by (simp_all add: node_at_def chain_def)
  then have "back_single np g (stage_at g vs 0) (vs ! 0) i (insert (vs ! 0) visited) ([], opt) = Inr ([], opt)"
    using chain_facts(3) [OF c "0.prems"(1)] by (simp add: back_single_def)
  from walk_turn [OF assms "0.prems"(1,3) this, of "fuel - 1"] show ?case using "0.prems"(2)
    by (cases fuel) auto
next
  case (Suc k)
  define p where "p = pick_before g vs k i"
  define opt1 where "opt1 = AList.update (vs ! k) p opt"
  have d: "distinct vs" using chain_facts(1) [of g b vs] assms(1) by (simp add: chain_ok_def)
  have t: "take (Suc k) vs = take k vs @ [vs ! k]" using Suc.prems(1) by (simp add: take_Suc_conv_app_nth)
  have n: "vs ! k \<notin> set (take k vs)" "vs ! Suc k \<notin> set (take (Suc k) vs)"
    using d Suc.prems(1) by (auto simp: in_set_conv_nth nth_eq_iff_index_eq)
  obtain f where f: "fuel = Suc f" using Suc.prems(2) by (cases fuel) auto
  have ne: "vs ! k \<noteq> vs ! Suc k" using d Suc.prems(1) by (simp add: nth_eq_iff_index_eq)
  have "back_single np g (stage_at g vs (Suc k)) (vs ! Suc k) i (insert (vs ! Suc k) visited) ([], opt) =
      Inr ([] @ [vs ! k], opt1)"
    unfolding opt1_def p_def by (rule back_step [OF assms(1) Suc.prems(1,4)]) (use Suc.prems t ne in auto)
  then have w: "back_walk fuel np g (dp_stages st) visited [vs ! Suc k] opt =
      back_walk f np g (dp_stages st) (insert (vs ! Suc k) visited) [vs ! k] opt1"
    unfolding f using walk_turn [OF assms Suc.prems(1,3)] by simp
  have "p < num_cands g (vs ! k)" unfolding p_def
    by (rule pick_before(1), rule chain_cands_pos [OF assms(1)]) (use Suc.prems(1) in simp)
  then have "\<exists>opt'. back_walk f np g (dp_stages st) (insert (vs ! Suc k) visited) [vs ! k] opt1 = Inr opt' \<and>
      (\<forall>v. v \<notin> set (take k vs) \<longrightarrow> map_of opt' v = map_of opt1 v) \<and>
      (\<forall>l<k. map_of opt' (vs ! l) = Some (pick_before g vs l (the (map_of opt' (vs ! Suc l)))))"
    using Suc.prems t n f by (intro Suc.IH [of _ _ p]) (auto simp: opt1_def update_conv' dom_update)
  then obtain opt' where o: "back_walk f np g (dp_stages st) (insert (vs ! Suc k) visited) [vs ! k] opt1 = Inr opt'"
    "\<forall>v. v \<notin> set (take k vs) \<longrightarrow> map_of opt' v = map_of opt1 v"
    "\<forall>l<k. map_of opt' (vs ! l) = Some (pick_before g vs l (the (map_of opt' (vs ! Suc l))))" by blast
  have "map_of opt' (vs ! k) = Some p" "map_of opt' (vs ! Suc k) = Some i"
    using o(2) n t ne Suc.prems(3) by (simp_all add: opt1_def update_conv')
  then have "\<forall>l<Suc k. map_of opt' (vs ! l) = Some (pick_before g vs l (the (map_of opt' (vs ! Suc l))))"
    using o(3) by (simp add: less_Suc_eq p_def)
  moreover have "\<forall>v. v \<notin> set (take (Suc k) vs) \<longrightarrow> map_of opt' v = map_of opt v"
    using o(2) t by (auto simp: opt1_def update_conv')
  ultimately show ?case using w o(1) by auto
qed

lemma backward_chain:
  assumes "chain_ok g b vs e B" "forward_inv g vs (length vs) st" "length vs \<le> fuel"
    and "allows max_num (num + num_cands g (last vs))"
  shows "\<exists>opt i. backward fuel np g max_num (num, st) = Inr opt \<and> i < num_cands g (last vs) \<and>
    map_of opt (last vs) = Some i \<and>
    (\<forall>j<num_cands g (last vs). least_to g vs (length vs - 1) i \<le> least_to g vs (length vs - 1) j) \<and>
    (\<forall>l<length vs - 1. map_of opt (vs ! l) = Some (pick_before g vs l (the (map_of opt (vs ! Suc l)))))"
proof -
  have c: "chain g b vs" "vs \<noteq> []" using assms(1) by (simp_all add: chain_ok_def chain_def)
  define k where "k = length vs - 1"
  have k: "k < length vs" "last vs = vs ! k" "length vs = Suc k" using c(2) by (simp_all add: k_def last_conv_nth)
  define n where "n = num_cands g (vs ! k)"
  have n: "0 < n" using chain_cands_pos [OF assms(1) k(1)] by (simp add: n_def)
  obtain rs where rs: "cands g (vs ! k) = Inr rs" "length rs = n"
    using chain_tunable [OF assms(1) k(1)] by (auto simp: n_def elim: tunable_facts)
  have sg: "dict_get (dp_stages st) (vs ! k) = Inr (stage_at g vs k)" using assms(2) k(1) by (simp add: forward_inv_def)
  have al: "align_states np g (dp_stages st) [vs ! k] = Inr ([(vs ! k, 0, 1, table n (least_to g vs k))], [vs ! k])"
    by (rule align_single [OF sg _ _ rs]) (simp_all add: n_def)
  define xs where "xs = map (least_to g vs k) [0..<n]"
  have xs: "xs \<noteq> []" "length xs = n" using n by (simp_all add: xs_def)
  have am: "np_amax np (table n (least_to g vs k)) = Inr (Max (set xs))"
    using amax [of "table n (least_to g vs k)"] xs(1) unfolding table_simps(2) xs_def by simp
  obtain mt mp where bo: "best_output [xs] (length xs) (Max (set xs)) = (mt, mp)" by fastforce
  define i where "i = nat (mp mod int n)"
  have i: "i < n" "\<forall>j<n. least_to g vs k i \<le> least_to g vs k j"
    using best_output [OF xs(1) bo] xs(2) by (auto simp: i_def xs_def)
  have "fst ` set [(vs ! k, i)] \<inter> set (take k vs) = {}"
    using chain_facts(1) [OF c(1)] k(1) by (auto simp: in_set_conv_nth nth_eq_iff_index_eq)
  from walk_chain [OF assms(1,2) k(1) _ _ _ _ this, of fuel i "{}"] obtain opt where
    w: "back_walk fuel np g (dp_stages st) {} [vs ! k] [(vs ! k, i)] = Inr opt"
    "\<forall>v. v \<notin> set (take k vs) \<longrightarrow> map_of opt v = map_of [(vs ! k, i)] v"
    "\<forall>l<k. map_of opt (vs ! l) = Some (pick_before g vs l (the (map_of opt (vs ! Suc l))))"
    using assms(3) k(3) i(1) by (auto simp: n_def)
  have os: "output_scheds [vs ! k] [n] [(vs ! k, 0, 1, table n (least_to g vs k))] mp = [(vs ! k, i)]"
    by (simp add: output_scheds_def i_def)
  have "backward fuel np g max_num (num, st) =
      back_walk fuel np g (dp_stages st) {} [vs ! k] (output_scheds [vs ! k] [n] [(vs ! k, 0, 1, table n (least_to g vs k))] mp)"
    using chain_facts(5) [OF c(1)] al am bo assms(4) k(2) xs_def xs(2)
    by (simp add: backward_def Let_def max_output_nodes_def check_allows n_def)
  then have "backward fuel np g max_num (num, st) = Inr opt" unfolding os using w(1) by simp
  moreover have "vs ! k \<notin> set (take k vs)"
    using chain_facts(1) [OF c(1)] k(1) by (auto simp: in_set_conv_nth nth_eq_iff_index_eq)
  then have "map_of opt (vs ! k) = Some i" using w(2) by simp
  ultimately show ?thesis using i w(3) unfolding k(2) k_def [symmetric] n_def by blast
qed

lemma backward_refused:
  assumes "chain_ok g b vs e B" "forward_inv g vs (length vs) st"
    and "\<not> allows max_num (num + num_cands g (last vs))"
  shows "backward fuel np g max_num (num, st) = Inl RuntimeError"
proof -
  have c: "chain g b vs" "vs \<noteq> []" using assms(1) by (simp_all add: chain_ok_def chain_def)
  define k where "k = length vs - 1"
  have k: "k < length vs" "last vs = vs ! k" using c(2) by (simp_all add: k_def last_conv_nth)
  obtain rs where rs: "cands g (vs ! k) = Inr rs" "length rs = num_cands g (vs ! k)"
    using chain_tunable [OF assms(1) k(1)] by (auto elim: tunable_facts)
  have sg: "dict_get (dp_stages st) (vs ! k) = Inr (stage_at g vs k)" using assms(2) k(1) by (simp add: forward_inv_def)
  have "align_states np g (dp_stages st) [vs ! k] =
      Inr ([(vs ! k, 0, 1, table (num_cands g (vs ! k)) (least_to g vs k))], [vs ! k])"
    by (rule align_single [OF sg _ _ rs]) simp_all
  then show ?thesis using chain_facts(5) [OF c(1)] assms(3) k(2)
    by (simp add: backward_def Let_def max_output_nodes_def check_allows)
qed

lemma picked_fastest:
  assumes "chain_ok g b vs e B" "k < length vs" "map_of opt (vs ! k) = Some i" "i < num_cands g (vs ! k)"
    and "\<forall>l<k. map_of opt (vs ! l) = Some (pick_before g vs l (the (map_of opt (vs ! Suc l))))"
    and "\<forall>j<num_cands g (vs ! k). least_to g vs k i \<le> least_to g vs k j"
  shows "l \<le> k \<Longrightarrow> \<exists>i<num_cands g (vs ! l). map_of opt (vs ! l) = Some i"
    and "\<forall>l\<le>k. s l < num_cands g (vs ! l) \<Longrightarrow>
      time_to g vs k (\<lambda>l. the (map_of opt (vs ! l))) \<le> time_to g vs k s"
proof -
  have pos: "0 < num_cands g (vs ! l)" if "l \<le> k" for l
    using that assms(2) by (intro chain_cands_pos [OF assms(1)]) simp
  show "\<exists>i<num_cands g (vs ! l). map_of opt (vs ! l) = Some i" if "l \<le> k" for l
    using that assms(3-5) pos pick_before(1) by (metis le_neq_implies_less)
  assume s: "\<forall>l\<le>k. s l < num_cands g (vs ! l)"
  have "time_to g vs k (\<lambda>l. the (map_of opt (vs ! l))) = least_to g vs k i"
    using picked_time [of k g vs "\<lambda>l. the (map_of opt (vs ! l))"] pos assms(3,5) by simp
  also have "\<dots> \<le> least_to g vs k (s k)" using assms(6) s by simp
  also have "\<dots> \<le> time_to g vs k s" using s by (intro least_below) simp
  finally show "time_to g vs k (\<lambda>l. the (map_of opt (vs ! l))) \<le> time_to g vs k s" .
qed

lemma run_chain:
  assumes "chain_ok g b vs e B" "length vs \<le> fuel"
  shows "if allows max_num (states_to g vs (length vs) + num_cands g (last vs)) then
      \<exists>opt. run_dp fuel np g max_num = Inr opt \<and>
        (\<forall>k<length vs. \<exists>i<num_cands g (vs ! k). map_of opt (vs ! k) = Some i) \<and>
        (\<forall>s. (\<forall>k<length vs. s k < num_cands g (vs ! k)) \<longrightarrow>
           time_to g vs (length vs - 1) (\<lambda>k. the (map_of opt (vs ! k))) \<le> time_to g vs (length vs - 1) s)
    else run_dp fuel np g max_num = Inl RuntimeError"
proof -
  have c: "chain g b vs" "vs \<noteq> []" using assms(1) by (simp_all add: chain_ok_def chain_def)
  have "tg_ins g = chain_ins b vs" using c(1) by (simp add: chain_def)
  then have f: "forward np g max_num = foldR (forward_step np g max_num) (take (length vs) vs) (0, init_dp)"
    using chain_facts(2) [OF c(1)] by (simp add: forward_def)
  note fc = forward_chain [OF assms(1) order_refl, of max_num]
  show ?thesis
  proof (cases "allows max_num (states_to g vs (length vs))")
    case False
    then have "run_dp fuel np g max_num = Inl RuntimeError" using fc f by (simp add: run_dp_def)
    then show ?thesis using False allows_less by auto
  next
    case True
    then obtain st where st: "forward np g max_num = Inr (states_to g vs (length vs), st)"
      "forward_inv g vs (length vs) st" using fc f by auto
    show ?thesis
    proof (cases "allows max_num (states_to g vs (length vs) + num_cands g (last vs))")
      case False
      then show ?thesis using backward_refused [OF assms(1) st(2) False] st(1) by (simp add: run_dp_def)
    next
      case ok: True
      define k where "k = length vs - 1"
      have k: "k < length vs" "last vs = vs ! k" "\<And>l. l < length vs \<longleftrightarrow> l \<le> k"
        using c(2) by (cases vs; auto simp: k_def last_conv_nth)+
      from backward_chain [OF assms(1) st(2) assms(2) ok] obtain opt i where
        o: "backward fuel np g max_num (states_to g vs (length vs), st) = Inr opt" "i < num_cands g (vs ! k)"
        "map_of opt (vs ! k) = Some i"
        "\<forall>j<num_cands g (vs ! k). least_to g vs k i \<le> least_to g vs k j"
        "\<forall>l<k. map_of opt (vs ! l) = Some (pick_before g vs l (the (map_of opt (vs ! Suc l))))"
        unfolding k(2) k_def [symmetric] by blast
      from picked_fastest [OF assms(1) k(1) o(3,2,5,4)] st(1) o(1) ok show ?thesis
        unfolding k(3) k_def [symmetric] by (auto simp: run_dp_def)
    qed
  qed
qed

end

section \<open>Property\<close>

text \<open>
  C6. On a chain of target operators whose times \<open>float32\<close> stores exactly, with NumPy as documented and
  one unit of fuel per operator: if the limit allows the states (one per pair of neighbouring
  schedules, and the candidates of the first and of the last operator), \<open>DPTuner.run\<close> returns a
  candidate for every operator, and no other choice of candidates takes less time in total, layout
  transformations included. Otherwise it raises \<open>RuntimeError\<close>.
\<close>

theorem chain_tuned_optimally:
  assumes "numpy np" "chain_ok g b vs e B" "length vs \<le> fuel"
  shows "if allows max_num (states_to g vs (length vs) + num_cands g (last vs)) then
      \<exists>opt. run_dp fuel np g max_num = Inr opt \<and>
        (\<forall>k<length vs. \<exists>i<num_cands g (vs ! k). map_of opt (vs ! k) = Some i) \<and>
        (\<forall>s. (\<forall>k<length vs. s k < num_cands g (vs ! k)) \<longrightarrow>
           time_to g vs (length vs - 1) (\<lambda>k. the (map_of opt (vs ! k))) \<le> time_to g vs (length vs - 1) s)
    else run_dp fuel np g max_num = Inl RuntimeError"
  using assms(2,3) by (rule numpy.run_chain [OF assms(1)])

definition two_convs :: "(unit, nat) tuner_graph" where
  "two_convs = (let r = (\<lambda>k c. \<lparr>rc_workload = (), rc_config = k, rc_costs = [c]\<rparr>);
     v = \<lparr>n_op = None, n_inputs = [], n_name = Some ''data'', n_is_tuple = False,
       n_topi_op = None, n_workloads = None, n_cands = None\<rparr>;
     conv = (\<lambda>ins rs. \<lparr>n_op = Some ''nn.conv2d'', n_inputs = ins, n_name = None, n_is_tuple = False,
       n_topi_op = Some [Some ''conv2d''], n_workloads = Some [Some ()], n_cands = Some rs\<rparr>);
     ins = [(1, [0]), (2, [1])] in
     \<lparr>tg_nodes = [v, conv [0] [r 0 2, r 1 3], conv [1] [r 2 4, r 3 1]], tg_names = [''data''],
      tg_targets = [''nn.conv2d''], tg_ins = ins, tg_outs = get_out_nodes ins,
      tg_cost = [((1, 2), [[0, 7], [5, 1]])]\<rparr>)"

lemma two_convs_ok: "chain_ok two_convs 0 [1, 2] 0 7"
proof -
  have h: "has_multiple_inputs (Suc 1) (tg_nodes two_convs) 1 (tg_names two_convs) = Inr False"
    "has_multiple_inputs (Suc 2) (tg_nodes two_convs) 2 (tg_names two_convs) = Inr False" by code_simp+
  have "tunable two_convs 1" "tunable two_convs 2"
    using h by (simp_all add: tunable_def two_convs_def Let_def op_in_def is_boundary_node_def
        named_in_def layout_fixed_op_def)
  moreover have "map_of (tg_cost two_convs) (1, 2) = Some [[0, 7], [5, 1]]"
    "num_cands two_convs 1 = 2" "num_cands two_convs 2 = 2" "length (tg_nodes two_convs) = 3"
    "is_boundary_node (tg_nodes two_convs ! 0) (tg_names two_convs)"
    "tg_ins two_convs = chain_ins 0 [1, 2]" "tg_outs two_convs = get_out_nodes (tg_ins two_convs)"
    by (simp_all add: two_convs_def Let_def num_cands_def is_boundary_node_def named_in_def)
  ultimately have "chain two_convs 0 [1, 2]" by (simp add: chain_def)
  moreover have "chain_in_units two_convs [1, 2] 0 7"
  proof -
    have "in_units 0 7 (of_nat m)" if "m \<le> 7" for m using that by (auto simp: in_units_def)
    from this [of 0] this [of 1] this [of 2] this [of 3] this [of 4] this [of 5] this [of 7] show ?thesis
      by (simp add: chain_in_units_def two_convs_def Let_def num_cands_def cost_of_def trans_of_def
          less_Suc_eq numeral_2_eq_2)
  qed
  ultimately show ?thesis by (simp add: chain_ok_def)
qed

lemma chain_tuned_optimally_witness:
  "(\<exists>opt. run_dp 2 documented two_convs None = Inr opt \<and>
      time_to two_convs [1, 2] 1 (\<lambda>k. the (map_of opt ([1, 2] ! k))) \<le> 5) \<and>
   run_dp 2 documented two_convs (Some 7) = Inl RuntimeError"
proof -
  have t: "time_to two_convs [1, 2] 1 (\<lambda>_. 1) = 5" "num_cands two_convs 1 = 2" "num_cands two_convs 2 = 2"
    by (simp_all add: two_convs_def Let_def num_cands_def cost_of_def trans_of_def)
  then have n: "\<forall>k<2. 1 < num_cands two_convs ([1, 2] ! k)" by (auto simp: less_2_cases_iff)
  have s: "states_to two_convs [1, 2] 2 = 6"
    by code_simp
  note r = chain_tuned_optimally [OF documented.numpy_axioms two_convs_ok, of 2]
  from r [of None] n t(1) have "\<exists>opt. run_dp 2 documented two_convs None = Inr opt \<and>
      time_to two_convs [1, 2] 1 (\<lambda>k. the (map_of opt ([1, 2] ! k))) \<le> 5"
    by (fastforce simp: allows_def dest: spec [where x = "\<lambda>_. 1"])
  moreover have "run_dp 2 documented two_convs (Some 7) = Inl RuntimeError"
    using r [of "Some 7"] s t by (simp add: allows_def numeral_2_eq_2)
  ultimately show ?thesis by blast
qed

end
