(* ===== verification/JoinStates.thy ===== *)
theory JoinStates
  imports ChainOptimum
begin

text \<open>
  What \<open>DPStage\<close> computes for a node with several inputs, when the inputs depend on no earlier node:
  for every schedule of the first input the least sum of times over the schedules of the others;
  and the zeros it is left with when only one of the inputs counts.
\<close>

section \<open>Positions in the common shape\<close>

lemma ravel_decode:
  assumes "list_all2 (<) idx sh" "p < length sh"
  shows "(ravel sh idx mod (prodlist (drop (Suc p) sh) * sh ! p)) div prodlist (drop (Suc p) sh) = idx ! p"
  using assms
proof (induction idx sh arbitrary: p rule: list_all2_induct)
  case (Cons i idx d sh)
  have r: "ravel sh idx < prodlist sh" using Cons(2) by (rule ravel_less)
  show ?case
  proof (cases p)
    case 0
    have "i * prodlist sh + ravel sh idx < Suc i * prodlist sh" using r by simp
    also have "\<dots> \<le> d * prodlist sh" using Cons(1) by (intro mult_le_mono1) simp
    finally have "(i * prodlist sh + ravel sh idx) mod (prodlist sh * d) = i * prodlist sh + ravel sh idx"
      by (simp add: mult.commute)
    then show ?thesis using 0 r by simp
  next
    case (Suc q)
    then have q: "q < length sh" using Cons.prems by simp
    have "sh = take q sh @ sh ! q # drop (Suc q) sh" using q by (simp add: id_take_nth_drop)
    define M where "M = prodlist (drop (Suc q) sh) * sh ! q"
    from \<open>sh = _\<close> have "prodlist sh = prodlist (take q sh) * M" unfolding M_def
      by (metis prodlist_append prodlist_simps(2) mult.commute)
    then have "(i * prodlist sh + ravel sh idx) mod M = (i * prodlist (take q sh) * M + ravel sh idx) mod M"
      by (simp only: mult.assoc)
    then have "(i * prodlist sh + ravel sh idx) mod M = ravel sh idx mod M" by (simp only: mod_mult_self3)
    then show ?thesis using Suc Cons.IH [OF q] by (simp add: M_def)
  qed
qed simp

text \<open>The extents of an input in the common shape: its own at its axis, 1 at the others.\<close>

definition extents :: "nat \<Rightarrow> nat list \<Rightarrow> nat list \<Rightarrow> nat list" where
  "extents a nodes sh = map2 (\<lambda>idx d. if idx = a then d else 1) nodes sh"

definition clip :: "nat list \<Rightarrow> nat list \<Rightarrow> nat list" where
  "clip sh idx = map2 (\<lambda>d i. if d = 1 then 0 else i) sh idx"

lemma extents_simps [simp]:
  "extents a [] sh = []"
  "extents a (x # nodes) (d # sh) = (if x = a then d else 1) # extents a nodes sh"
  by (simp_all add: extents_def)

lemma clip_simps [simp]:
  "clip [] idx = []"
  "clip (d # sh) (i # idx) = (if d = 1 then 0 else i) # clip sh idx"
  by (simp_all add: clip_def)

lemma extents_ones:
  "a \<notin> set nodes \<Longrightarrow> length nodes = length sh \<Longrightarrow> list_all2 (<) idx sh \<Longrightarrow>
     prodlist (extents a nodes sh) = 1 \<and> ravel (extents a nodes sh) (clip (extents a nodes sh) idx) = 0"
proof (induction nodes arbitrary: sh idx)
  case (Cons x nodes)
  then obtain d sh' i idx' where "sh = d # sh'" "idx = i # idx'" "length nodes = length sh'" "list_all2 (<) idx' sh'"
    by (cases sh; cases idx) auto
  with Cons show ?case by (auto simp del: One_nat_def)
qed simp

lemma extents_one:
  "distinct nodes \<Longrightarrow> p < length nodes \<Longrightarrow> length nodes = length sh \<Longrightarrow> list_all2 (<) idx sh \<Longrightarrow>
     prodlist (extents (nodes ! p) nodes sh) = sh ! p \<and>
     ravel (extents (nodes ! p) nodes sh) (clip (extents (nodes ! p) nodes sh) idx) = idx ! p"
proof (induction nodes arbitrary: sh idx p)
  case (Cons x nodes)
  then obtain d sh' i idx' where s: "sh = d # sh'" "idx = i # idx'" "i < d" "length nodes = length sh'"
    "list_all2 (<) idx' sh'" by (cases sh; cases idx) auto
  show ?case
  proof (cases p)
    case 0
    with s Cons.prems(1) extents_ones [of x nodes sh' idx'] show ?thesis by (auto simp del: One_nat_def)
  next
    case (Suc q)
    then have "nodes ! q \<noteq> x" using Cons.prems by auto
    with Suc s Cons.IH [of q sh' idx'] Cons.prems show ?thesis by (auto simp del: One_nat_def)
  qed
qed simp

lemma extents_le: "length nodes = length sh \<Longrightarrow> list_all2 (\<lambda>d e. d = e \<or> d = 1) (extents a nodes sh) sh"
proof (induction nodes arbitrary: sh)
  case (Cons x nodes)
  then show ?case by (cases sh) auto
qed simp

lemma filter_one: "distinct xs \<Longrightarrow> a \<in> set xs \<Longrightarrow> filter (\<lambda>x. x = a) xs = [a]"
  by (induction xs) (auto simp: filter_empty_conv)

lemma major_axis_distinct:
  assumes "distinct nodes" "p < length nodes"
  shows "major_axis (nodes ! p) nodes = int p"
proof -
  have step: "foldl (\<lambda>m (k, idx). if a = idx then int k else m) m (zip [b..<b + length xs] xs) =
      (case py_index a xs of Inl _ \<Rightarrow> m | Inr q \<Rightarrow> int (b + q))" if "distinct xs" for a m b and xs :: "nat list"
    using that
  proof (induction xs arbitrary: b m)
    case (Cons x xs)
    have z: "zip [b..<Suc (b + length xs)] (x # xs) = (b, x) # zip [Suc b..<Suc b + length xs] xs"
      by (simp add: upt_conv_Cons del: upt_Suc)
    show ?case
    proof (cases "a = x")
      case True
      then have "py_index a xs = Inl ValueError" using Cons.prems by (simp add: py_index_Inl)
      then show ?thesis using True Cons.prems Cons.IH [of "int b" "Suc b"] by (simp add: z del: upt_Suc)
    next
      case False
      then show ?thesis using Cons.prems Cons.IH [of m "Suc b"]
        by (cases "py_index a xs") (simp_all add: z del: upt_Suc)
    qed
  qed simp
  have "py_index (nodes ! p) nodes = Inr p" using assms by (auto simp: py_index_Inr nth_eq_iff_index_eq)
  with step [OF assms(1), of "nodes ! p" "- 1" 0] show ?thesis by (simp add: major_axis_def)
qed

section \<open>Aligning inputs that depend on no earlier node\<close>

definition free_stage :: "('w, 'c) tuner_graph \<Rightarrow> (nat, stage) dict \<Rightarrow> (nat \<Rightarrow> nat) \<Rightarrow> (nat \<Rightarrow> nat \<Rightarrow> rat) \<Rightarrow> nat \<Rightarrow> bool" where
  "free_stage g stages n f a \<longleftrightarrow>
     (\<exists>s. dict_get stages a = Inr s \<and> sg_dep s = [] \<and> sg_states s = table (n a) (f a)) \<and>
     (\<exists>rs. cands g a = Inr rs \<and> length rs = n a) \<and> 0 < n a"

definition aligned_input :: "(nat \<Rightarrow> nat) \<Rightarrow> (nat \<Rightarrow> nat \<Rightarrow> rat) \<Rightarrow> nat list \<Rightarrow> nat \<Rightarrow> aligned" where
  "aligned_input n f nodes p = (nodes ! p, int p, prodlist (drop (Suc p) (map n nodes)),
     nd_build (map n nodes) (\<lambda>idx. f (nodes ! p) (idx ! p)))"

context numpy
begin

lemma align_one_free:
  assumes "distinct nodes" "p < length nodes" "free_stage g stages n f (nodes ! p)"
  shows "align_one np stages nodes (map n nodes) (nodes ! p) = Inr (aligned_input n f nodes p)"
proof -
  define a where "a = nodes ! p"
  define R where "R = extents a nodes (map n nodes)"
  obtain s where s: "dict_get stages a = Inr s" "sg_dep s = []" "sg_states s = table (n a) (f a)"
    using assms(3) by (auto simp: free_stage_def a_def)
  have one: "filter (\<lambda>idx. idx = a) nodes = [a]"
    using assms(1,2) by (intro filter_one) (simp_all add: a_def)
  have tr: "np_transpose np [0] (table (n a) (f a)) = Inr (table (n a) (f a))" by (rule transpose_1) simp_all
  have valid: "prodlist R = n a \<and> ravel R (clip R idx) = idx ! p" if "list_all2 (<) idx (map n nodes)" for idx
    using extents_one [OF assms(1,2) _ that] assms(2) by (simp add: R_def a_def)
  have pos: "prodlist R = n a"
  proof -
    have "prodlist (extents (nodes ! q) xs (map n xs)) = (if nodes ! q \<in> set xs then n (nodes ! q) else 1)"
      if "distinct xs" for q xs using that by (induction xs) auto
    then show ?thesis using assms(1,2) by (simp add: R_def a_def)
  qed
  have re: "np_reshape np R (table (n a) (f a)) = Inr ((table (n a) (f a))\<lparr>nd_shape := R\<rparr>)"
    using pos by (intro reshape) simp_all
  have ok: "nd_ok ((table (n a) (f a))\<lparr>nd_shape := R\<rparr>)" using pos by (simp add: nd_ok_def)
  have "broadcasted (map n nodes) ((table (n a) (f a))\<lparr>nd_shape := R\<rparr>) = nd_build (map n nodes) (\<lambda>idx. f a (idx ! p))"
    unfolding broadcasted_def
  proof (rule nd_build_cong)
    fix idx assume i: "list_all2 (<) idx (map n nodes)"
    then have "idx ! p < n a" using assms(2) by (auto simp: list_all2_conv_all_nth a_def)
    then show "entry ((table (n a) (f a))\<lparr>nd_shape := R\<rparr>)
        (map2 (\<lambda>d i. if d = 1 then 0 else i) (nd_shape ((table (n a) (f a))\<lparr>nd_shape := R\<rparr>)) idx) = f a (idx ! p)"
      using valid [OF i] by (simp add: entry_def clip_def)
  qed
  then have br: "np_broadcast_to np (map n nodes) ((table (n a) (f a))\<lparr>nd_shape := R\<rparr>) =
      Inr (nd_build (map n nodes) (\<lambda>idx. f a (idx ! p)))"
    using broadcast_to [OF ok, of "map n nodes"] extents_le [of nodes "map n nodes" a] by (simp add: R_def)
  have "map2 (\<lambda>idx d. if idx \<in> set [a] then d else 1) nodes (map n nodes) = R" by (simp add: R_def extents_def)
  then show ?thesis using s one tr re br major_axis_distinct [OF assms(1,2)]
    unfolding a_def [symmetric]
    by (simp add: align_one_def aligned_input_def Let_def a_def [symmetric] nat_add_distrib del: upt_Suc)
qed

lemma align_free:
  assumes "distinct nodes" "\<And>a. a \<in> set nodes \<Longrightarrow> free_stage g stages n f a"
  shows "align_states np g stages nodes = Inr (map (aligned_input n f nodes) [0..<length nodes], nodes)"
proof -
  have "foldR (\<lambda>i al. bindR (dict_get stages i) (\<lambda>stage. Inr (add_new al (sg_dep stage)))) xs al = Inr al"
    if "set xs \<subseteq> set nodes" for xs al
    using that
  proof (induction xs)
    case (Cons x xs)
    then obtain s where "dict_get stages x = Inr s" "sg_dep s = []"
      using assms(2) [of x] by (auto simp: free_stage_def)
    with Cons show ?case by (simp add: add_new_def)
  qed simp
  moreover have "mapR (\<lambda>i. bindR (cands g i) (\<lambda>rs. Inr (length rs))) nodes = Inr (map n nodes)"
  proof (rule mapR_total)
    fix a assume "a \<in> set nodes"
    then show "bindR (cands g a) (\<lambda>rs. Inr (length rs)) = Inr (n a)"
      using assms(2) [of a] by (auto simp: free_stage_def)
  qed
  moreover have "mapR (align_one np stages nodes (map n nodes)) nodes = Inr (map (aligned_input n f nodes) [0..<length nodes])"
  proof -
    have "mapR (align_one np stages nodes (map n nodes)) (map ((!) nodes) [0..<length nodes]) =
        Inr (map (aligned_input n f nodes) [0..<length nodes])"
      unfolding mapR_Inr_iff list_all2_conv_all_nth
      by (auto intro!: align_one_free [OF assms(1)] assms(2))
    then show ?thesis by (simp add: map_nth)
  qed
  ultimately show ?thesis by (simp add: align_states_def)
qed

end

section \<open>Filling the common array\<close>

lemma inner_fill:
  assumes "\<And>src. src \<in> set others \<Longrightarrow>
      layout_time g (fst src) (fst target) (sched_at shape src i) (sched_at shape target i) = Inr (t src)"
    and "i < length full"
  shows "foldR (\<lambda>src (new_state, full).
      bindR (layout_time g (fst src) (fst target) (sched_at shape src i) (sched_at shape target i)) (\<lambda>t.
        let new_state = (if fst src \<in> counted then new_state + t
                         else new_state + (t + nd_data (snd (snd (snd src))) ! i)) in
        bindR (nd_set i (np_float32 np new_state) full) (\<lambda>full. Inr (new_state, full)))) others (acc, full) =
    (let s = acc + sumlist (map (\<lambda>src. t src + (if fst src \<in> counted then 0 else nd_data (snd (snd (snd src))) ! i)) others)
     in Inr (s, if others = [] then full else full[i := np_float32 np s]))"
  using assms
proof (induction others arbitrary: acc full)
  case (Cons src others)
  then show ?case by (simp add: nd_set_def Let_def add.assoc)
qed simp

lemma multi_full_eq:
  assumes "\<And>src i. src \<in> set others \<Longrightarrow> i < N \<Longrightarrow>
      layout_time g (fst src) (fst target) (sched_at shape src i) (sched_at shape target i) = Inr (t src i)"
    and "others \<noteq> []"
  shows "multi_full np g shape target others counted (replicate N 0) = Inr (map (\<lambda>i. np_float32 np
      ((if fst target \<in> counted then 0 else nd_data (snd (snd (snd target))) ! i) +
       sumlist (map (\<lambda>src. t src i + (if fst src \<in> counted then 0 else nd_data (snd (snd (snd src))) ! i)) others)))
    [0..<N])"
proof -
  let ?v = "\<lambda>i. np_float32 np ((if fst target \<in> counted then 0 else nd_data (snd (snd (snd target))) ! i) +
       sumlist (map (\<lambda>src. t src i + (if fst src \<in> counted then 0 else nd_data (snd (snd (snd src))) ! i)) others))"
  let ?body = "\<lambda>i full.
         bindR (foldR (\<lambda>src (new_state, full).
               bindR (layout_time g (fst src) (fst target) (sched_at shape src i) (sched_at shape target i)) (\<lambda>t.
                 let new_state = (if fst src \<in> counted then new_state + t
                                  else new_state + (t + nd_data (snd (snd (snd src))) ! i)) in
                 bindR (nd_set i (np_float32 np new_state) full) (\<lambda>full. Inr (new_state, full))))
             others
             (if fst target \<in> counted then 0 else nd_data (snd (snd (snd target))) ! i, full)) (\<lambda>(_, full). Inr full)"
  have "?body i full = nd_set (0 + i) (?v i) full" if "i < N" for i full
  proof (cases "i < length full")
    case True
    then show ?thesis using inner_fill [of others g target shape i "\<lambda>src. t src i" full counted np] assms that
      by (simp add: nd_set_def Let_def)
  next
    case False
    obtain src rest where "others = src # rest" using assms(2) by (cases others) auto
    then show ?thesis using False assms(1) that by (simp add: nd_set_def Let_def)
  qed
  from fill_row [of N ?body 0 ?v "replicate N 0", OF this] show ?thesis
    by (simp add: multi_full_def)
qed

lemma multi_full_alone: "multi_full np g shape target [] counted full = Inr full"
proof -
  have "foldR (\<lambda>i full. Inr full) is full = Inr full" for "is" :: "nat list" by (induction "is") simp_all
  then show ?thesis by (simp add: multi_full_def)
qed

lemma build_of_flat:
  "\<lparr>nd_shape = sh, nd_data = map v [0..<prodlist sh]\<rparr> = nd_build sh (\<lambda>idx. v (ravel sh idx))"
proof -
  have "map v [0..<prodlist sh] = map (\<lambda>idx. v (ravel sh idx)) (positions sh)"
    by (rule nth_equalityI) (simp_all add: ravel_positions)
  then show ?thesis by (simp add: nd_build_def)
qed

section \<open>Dropping all other inputs\<close>

lemma Min_nested:
  assumes "finite A" "A \<noteq> {}" "finite B" "B \<noteq> {}"
  shows "Min ((\<lambda>b. Min ((\<lambda>a. G a b) ` A)) ` B) = Min ((\<lambda>(a, b). G a b) ` (A \<times> B))" (is "?l = ?r")
proof (rule antisym)
  have "(\<lambda>(a, b). G a b) ` (A \<times> B) \<noteq> {}" using assms by simp
  then have "?r \<in> (\<lambda>(a, b). G a b) ` (A \<times> B)" using assms by (intro Min_in) simp_all
  then obtain a b where ab: "a \<in> A" "b \<in> B" "?r = G a b" by auto
  have "?l \<le> Min ((\<lambda>a. G a b) ` A)" using ab assms by (intro Min_le) auto
  also have "\<dots> \<le> ?r" using ab assms by (auto intro!: Min_le)
  finally show "?l \<le> ?r" .
  have "?l \<in> (\<lambda>b. Min ((\<lambda>a. G a b) ` A)) ` B" using assms by (intro Min_in) simp_all
  then obtain b where b: "b \<in> B" "?l = Min ((\<lambda>a. G a b) ` A)" by auto
  have "Min ((\<lambda>a. G a b) ` A) \<in> (\<lambda>a. G a b) ` A" using assms by (intro Min_in) simp_all
  then obtain a where a: "a \<in> A" "?l = G a b" using b by auto
  show "?r \<le> ?l" unfolding a(2) using a(1) b(1) assms by (intro Min_le) auto
qed

definition least_over :: "nat list \<Rightarrow> (nat list \<Rightarrow> rat) \<Rightarrow> rat" where
  "least_over sh F = Min (set (map F (positions sh)))"

lemma positions_ne: "\<forall>e\<in>set sh. 0 < e \<Longrightarrow> positions sh \<noteq> []"
  by (metis length_0_conv length_positions less_numeral_extra(3) prodlist_pos)

lemma least_over_Cons:
  assumes "0 < e" "\<forall>e\<in>set es. 0 < e"
  shows "least_over es (\<lambda>js. Min (set (map (\<lambda>j. F (j # js)) [0..<e]))) = least_over (e # es) F"
proof -
  have "set (map F (positions (e # es))) = (\<lambda>(j, js). F (j # js)) ` ({0..<e} \<times> set (positions es))"
    by (auto simp: image_iff)
  moreover have "{0..<e} \<noteq> {}" using assms(1) by simp
  moreover have "set (positions es) \<noteq> {}" using positions_ne [OF assms(2)] by simp
  ultimately show ?thesis
    using Min_nested [of "{0..<e}" "set (positions es)" "\<lambda>j js. F (j # js)"]
    by (simp add: least_over_def del: positions_simps)
qed

definition droppable :: "(nat \<rightharpoonup> nat set) \<Rightarrow> nat \<Rightarrow> bool" where
  "droppable deps d \<longleftrightarrow> (case deps d of None \<Rightarrow> True | Some s \<Rightarrow> card s = 1)"

context numpy
begin

lemma amin_axis1:
  assumes "0 < e"
  shows "np_amin np 1 (nd_build (d # e # es) F) =
    Inr (nd_build (d # es) (\<lambda>idx. Min (set (map (\<lambda>j. F (hd idx # j # tl idx)) [0..<e]))))"
proof -
  have "along 1 (nd_build (d # e # es) F) idx = map (\<lambda>j. F (hd idx # j # tl idx)) [0..<e]"
    if "list_all2 (<) idx (d # es)" for idx
    using that by (cases idx) (auto simp: along_def)
  then have "reduced (\<lambda>xs. Min (set xs)) 1 (nd_build (d # e # es) F) =
      nd_build (d # es) (\<lambda>idx. Min (set (map (\<lambda>j. F (hd idx # j # tl idx)) [0..<e])))"
    unfolding reduced_def by (simp, intro nd_build_cong) simp
  moreover have "np_amin np 1 (nd_build (d # e # es) F) =
      Inr (reduced (\<lambda>xs. Min (set xs)) 1 (nd_build (d # e # es) F))"
    by (rule amin) (use assms in simp_all)
  ultimately show ?thesis by simp
qed

lemma drop_all:
  assumes "length ds = length es" "\<forall>e\<in>set es. 0 < e" "\<forall>x\<in>set ds. droppable deps x"
  shows "\<exists>deps'. drop_deps np ds (nd_build (d # es) F) deps =
    Inr (table d (\<lambda>i. least_over es (\<lambda>js. F (i # js))), [], deps')"
proof -
  define f where "f = (\<lambda>(i, d) (shift, states, dep, deps :: nat \<rightharpoonup> nat set).
      if (case deps d of None \<Rightarrow> True | Some s \<Rightarrow> card s = 1)
      then bindR (np_amin np (i + 1 - shift) states) (\<lambda>states. Inr (shift + 1, states, dep, deps(d := None)))
      else Inr (shift, states, dep @ [d], deps))"
  have "\<exists>deps'. foldR f (zip [b..<b + length ds] ds) (b, nd_build (d # es) F, [], deps) =
    Inr (b + length ds, table d (\<lambda>i. least_over es (\<lambda>js. F (i # js))), [], deps')" for b
    using assms
  proof (induction ds es arbitrary: b F deps rule: list_induct2)
    case Nil
    have "nd_build [d] F = table d (\<lambda>i. F [i])" unfolding table_def
      by (rule nd_build_cong) (auto simp: list_all2_Cons2)
    then show ?case by (simp add: least_over_def)
  next
    case (Cons x xs e es)
    let ?F = "\<lambda>idx. Min (set (map (\<lambda>j. F (hd idx # j # tl idx)) [0..<e]))"
    have z: "zip [b..<b + length (x # xs)] (x # xs) = (b, x) # zip [Suc b..<Suc b + length xs] xs"
      by (simp add: upt_conv_Cons del: upt_Suc)
    have "np_amin np (b + 1 - b) (nd_build (d # e # es) F) = Inr (nd_build (d # es) ?F)"
      using amin_axis1 [of e d es F] Cons.prems(1) by simp
    then have step: "f (b, x) (b, nd_build (d # e # es) F, [], deps) = Inr (Suc b, nd_build (d # es) ?F, [], deps(x := None))"
      using Cons.prems(2) by (simp add: f_def droppable_def)
    have l: "(\<lambda>i. least_over es (\<lambda>js. ?F (i # js))) = (\<lambda>i. least_over (e # es) (\<lambda>js. F (i # js)))"
    proof
      show "least_over es (\<lambda>js. ?F (i # js)) = least_over (e # es) (\<lambda>js. F (i # js))" for i
        using least_over_Cons [of e es "\<lambda>js. F (i # js)"] Cons.prems(1) by simp
    qed
    have "\<forall>y\<in>set xs. droppable (deps(x := None)) y" using Cons.prems(2) by (simp add: droppable_def)
    moreover have "\<forall>e\<in>set es. 0 < e" using Cons.prems(1) by simp
    ultimately obtain deps' where
      "foldR f (zip [Suc b..<Suc b + length xs] xs) (Suc b, nd_build (d # es) ?F, [], deps(x := None)) =
        Inr (Suc b + length xs, table d (\<lambda>i. least_over (e # es) (\<lambda>js. F (i # js))), [], deps')"
      using Cons.IH [of "deps(x := None)" "Suc b" ?F] unfolding l by blast
    then show ?case unfolding z foldR.simps step by simp
  qed
  from this [of 0] show ?thesis by (auto simp: drop_deps_def f_def)
qed

lemma transpose_id:
  assumes "nd_ok a" "length (nd_shape a) = r"
  shows "np_transpose np [0..<r] a = Inr a"
proof -
  have "transposed [0..<r] a = a"
  proof (rule nd_eqI)
    show "nd_shape (transposed [0..<r] a) = nd_shape a"
      using assms(2) by (auto simp: transposed_def map_nth)
    fix idx assume "list_all2 (<) idx (nd_shape (transposed [0..<r] a))"
    then have i: "list_all2 (<) idx (nd_shape a)" "length idx = r"
      using assms(2) by (auto simp: transposed_def map_nth dest: list_all2_lengthD)
    have "the (map_of (zip [0..<r] idx) k) = idx ! k" if "k < r" for k
    proof -
      have "map_of (zip [0..<r] idx) ([0..<r] ! k) = Some (idx ! k)"
        by (rule map_of_zip_nth) (use i(2) that in simp_all)
      then show ?thesis using that by (simp only: nth_upt add_0 option.sel)
    qed
    then have "map (\<lambda>k. the (map_of (zip [0..<r] idx) k)) [0..<r] = idx"
      by (intro nth_equalityI) (simp_all add: i(2))
    moreover have "map ((!) (nd_shape a)) [0..<r] = nd_shape a" using assms(2) by (auto simp: map_nth)
    ultimately show "entry (transposed [0..<r] a) idx = entry a idx"
      using i(1) by (simp add: transposed_def)
  qed (use assms(1) in \<open>simp_all add: transposed_def\<close>)
  moreover have "set [0..<r] = {..<length (nd_shape a)}" using assms(2) by auto
  ultimately show ?thesis using assms(1) by (simp add: transpose)
qed

end

section \<open>The states of a node with several inputs\<close>

text \<open>
  A node whose inputs, boundary nodes apart, are \<open>inputs\<close>: each depends on no earlier node, has \<open>n\<close>
  candidates and takes time \<open>f\<close>; from the others to the first the layout transformations take \<open>t\<close>,
  and no later node needs them.
\<close>

definition joins ::
  "('w, 'c) tuner_graph \<Rightarrow> nat \<Rightarrow> dp_state \<Rightarrow> nat list \<Rightarrow> (nat \<Rightarrow> nat) \<Rightarrow> (nat \<Rightarrow> nat \<Rightarrow> rat) \<Rightarrow>
     (nat \<Rightarrow> nat \<Rightarrow> nat \<Rightarrow> rat) \<Rightarrow> bool" where
  "joins g idx st inputs n f t \<longleftrightarrow> distinct inputs \<and>
     (\<exists>ins. dict_get (tg_ins g) idx = Inr ins \<and> (\<forall>i\<in>set ins. i < length (tg_nodes g)) \<and>
        inputs = filter (\<lambda>i. \<not> is_boundary_node (tg_nodes g ! i) (tg_names g)) ins) \<and>
     (\<forall>a\<in>set inputs. free_stage g (dp_stages st) n f a) \<and>
     (\<forall>a\<in>set (tl inputs). droppable (dp_deps st) a \<and>
        (\<forall>j<n a. \<forall>i<n (hd inputs). layout_time g a (hd inputs) j i = Inr (t a j i))) \<and>
     idx \<in> fst ` set (tg_outs g)"

definition join_time ::
  "nat set \<Rightarrow> (nat \<Rightarrow> nat \<Rightarrow> rat) \<Rightarrow> (nat \<Rightarrow> nat \<Rightarrow> nat \<Rightarrow> rat) \<Rightarrow> nat list \<Rightarrow> nat list \<Rightarrow> rat" where
  "join_time counted f t inputs idx =
     (if inputs ! 0 \<in> counted then 0 else f (inputs ! 0) (idx ! 0)) +
     sumlist (map (\<lambda>p. t (inputs ! p) (idx ! p) (idx ! 0) +
       (if inputs ! p \<in> counted then 0 else f (inputs ! p) (idx ! p))) [1..<length inputs])"

lemma fst_aligned [simp]: "fst (aligned_input n f inputs p) = inputs ! p"
  by (simp add: aligned_input_def)

lemma sched_aligned:
  "list_all2 (<) idx (map n inputs) \<Longrightarrow> p < length inputs \<Longrightarrow>
     sched_at (map n inputs) (aligned_input n f inputs p) (ravel (map n inputs) idx) = idx ! p"
  using ravel_decode [of idx "map n inputs" p] by (simp add: sched_at_def aligned_input_def)

lemma data_aligned:
  assumes "list_all2 (<) idx (map n inputs)"
  shows "nd_data (snd (snd (snd (aligned_input n f inputs p)))) ! ravel (map n inputs) idx = f (inputs ! p) (idx ! p)"
proof -
  have "entry (nd_build (map n inputs) (\<lambda>idx. f (inputs ! p) (idx ! p))) idx = f (inputs ! p) (idx ! p)"
    using assms by simp
  then show ?thesis by (simp add: aligned_input_def entry_def)
qed

lemma join_full:
  assumes "joins g idx st inputs n f t" "2 \<le> length inputs"
  defines "sh \<equiv> map n inputs"
  shows "multi_full np g sh (aligned_input n f inputs 0) (map (aligned_input n f inputs) [1..<length inputs])
      (dp_counted st) (replicate (prodlist sh) 0) =
    Inr (nd_data (nd_build sh (\<lambda>idx. np_float32 np (join_time (dp_counted st) f t inputs idx))))"
proof -
  let ?al = "aligned_input n f inputs"
  let ?t = "\<lambda>src i. t (fst src) (sched_at sh src i) (sched_at sh (?al 0) i)"
  let ?v = "\<lambda>i. np_float32 np
      ((if fst (?al 0) \<in> dp_counted st then 0 else nd_data (snd (snd (snd (?al 0)))) ! i) +
       sumlist (map (\<lambda>src. ?t src i + (if fst src \<in> dp_counted st then 0 else nd_data (snd (snd (snd src))) ! i))
         (map ?al [1..<length inputs])))"
  have len: "0 < length inputs" using assms(2) by linarith
  have lay: "layout_time g (fst src) (fst (?al 0)) (sched_at sh src i) (sched_at sh (?al 0) i) = Inr (?t src i)"
    if src: "src \<in> set (map ?al [1..<length inputs])" and i: "i < prodlist sh" for src i
  proof -
    obtain p where p: "src = ?al p" "1 \<le> p" "p < length inputs" using src by auto
    define idx where "idx = positions sh ! i"
    have v: "list_all2 (<) idx sh" "ravel sh idx = i"
      using i by (simp_all add: idx_def ravel_positions in_positions [symmetric])
    have s: "sched_at sh src i = idx ! p" "sched_at sh (?al 0) i = idx ! 0"
      using sched_aligned [of idx n inputs p f] sched_aligned [of idx n inputs 0 f] v p len by (simp_all add: sh_def)
    have "inputs ! p \<in> set (tl inputs)" using p(2,3) by (cases inputs; cases p) auto
    moreover have "idx ! p < n (inputs ! p)" "idx ! 0 < n (hd inputs)"
      using v(1) p len by (auto simp: sh_def list_all2_conv_all_nth hd_conv_nth)
    ultimately have "layout_time g (inputs ! p) (hd inputs) (idx ! p) (idx ! 0) = Inr (t (inputs ! p) (idx ! p) (idx ! 0))"
      using assms(1) by (auto simp: joins_def)
    moreover have "hd inputs = inputs ! 0" using len by (simp add: hd_conv_nth)
    ultimately show ?thesis unfolding s by (simp add: p(1) aligned_input_def)
  qed
  have "map ?al [1..<length inputs] \<noteq> []" using assms(2) by auto
  from multi_full_eq [of "map ?al [1..<length inputs]" "prodlist sh" g "?al 0" sh ?t np, OF lay this]
  have "multi_full np g sh (?al 0) (map ?al [1..<length inputs]) (dp_counted st) (replicate (prodlist sh) 0) =
      Inr (map ?v [0..<prodlist sh])" .
  also have "map ?v [0..<prodlist sh] = nd_data (nd_build sh (\<lambda>idx. ?v (ravel sh idx)))"
    using build_of_flat [of sh ?v] by (metis nd.select_convs(2))
  also have "nd_build sh (\<lambda>idx. ?v (ravel sh idx)) = nd_build sh (\<lambda>idx. np_float32 np (join_time (dp_counted st) f t inputs idx))"
  proof (rule nd_build_cong)
    fix idx assume v: "list_all2 (<) idx sh"
    have "map (\<lambda>src. ?t src (ravel sh idx) + (if fst src \<in> dp_counted st then 0
          else nd_data (snd (snd (snd src))) ! ravel sh idx)) (map ?al [1..<length inputs]) =
        map (\<lambda>p. t (inputs ! p) (idx ! p) (idx ! 0) +
          (if inputs ! p \<in> dp_counted st then 0 else f (inputs ! p) (idx ! p))) [1..<length inputs]"
      unfolding map_map
    proof (rule map_cong [OF refl])
      fix p assume "p \<in> set [1..<length inputs]"
      then have "p < length inputs" by simp
      with v len show "((\<lambda>src. ?t src (ravel sh idx) + (if fst src \<in> dp_counted st then 0
            else nd_data (snd (snd (snd src))) ! ravel sh idx)) \<circ> ?al) p =
          t (inputs ! p) (idx ! p) (idx ! 0) + (if inputs ! p \<in> dp_counted st then 0 else f (inputs ! p) (idx ! p))"
        unfolding sh_def by (simp add: data_aligned sched_aligned)
    qed
    moreover have "nd_data (snd (snd (snd (?al 0)))) ! ravel sh idx = f (inputs ! 0) (idx ! 0)"
      using v unfolding sh_def by (rule data_aligned)
    ultimately have "?v (ravel sh idx) = np_float32 np ((if inputs ! 0 \<in> dp_counted st then 0 else f (inputs ! 0) (idx ! 0)) +
        sumlist (map (\<lambda>p. t (inputs ! p) (idx ! p) (idx ! 0) +
          (if inputs ! p \<in> dp_counted st then 0 else f (inputs ! p) (idx ! p))) [1..<length inputs]))"
      by (simp only: fst_aligned)
    then show "?v (ravel sh idx) = np_float32 np (join_time (dp_counted st) f t inputs idx)"
      by (simp only: join_time_def)
  qed
  finally show ?thesis .
qed

lemma filter_marked:
  "\<forall>i\<in>set xs. i < length (tg_nodes g) \<Longrightarrow>
     bindR (mapR (\<lambda>i. bindR (node_at g i) (\<lambda>node. Inr (i, is_boundary_node node (tg_names g)))) xs) k =
     k (map (\<lambda>i. (i, is_boundary_node (tg_nodes g ! i) (tg_names g))) xs)"
  by (subst mapR_total [where g = "\<lambda>i. (i, is_boundary_node (tg_nodes g ! i) (tg_names g))"])
    (simp_all add: node_at_def)

context numpy
begin

lemma join_stage:
  assumes "joins g idx st inputs n f t" "inputs \<noteq> []"
    and "multi_full np g (map n inputs) (aligned_input n f inputs 0) (map (aligned_input n f inputs) [1..<length inputs])
      (dp_counted st) (replicate (prodlist (map n inputs)) 0) = Inr (nd_data (nd_build (map n inputs) G))"
  shows "\<exists>stage st'. create_multi_inputs_states np g idx st = Inr (stage, st') \<and> sg_dep stage = [] \<and>
    sg_full_idx stage = Some inputs \<and>
    sg_states stage = table (n (hd inputs)) (\<lambda>i. least_over (map n (tl inputs)) (\<lambda>js. G (i # js))) \<and>
    dp_counted st' = dp_counted st \<union> set inputs"
proof -
  define sh where "sh = map n inputs"
  let ?al = "aligned_input n f inputs"
  obtain ins where ins: "dict_get (tg_ins g) idx = Inr ins" "\<forall>i\<in>set ins. i < length (tg_nodes g)"
    "inputs = filter (\<lambda>i. \<not> is_boundary_node (tg_nodes g ! i) (tg_names g)) ins"
    using assms(1) by (auto simp: joins_def)
  have flt: "map fst (filter (\<lambda>m. \<not> snd m) (map (\<lambda>i. (i, is_boundary_node (tg_nodes g ! i) (tg_names g))) ins)) = inputs"
    unfolding ins(3) by (simp add: filter_map o_def)
  have free: "\<And>a. a \<in> set inputs \<Longrightarrow> free_stage g (dp_stages st) n f a" and d: "distinct inputs"
    using assms(1) by (simp_all add: joins_def)
  have al: "align_states np g (dp_stages st) inputs = Inr (map (aligned_input n f inputs) [0..<length inputs], inputs)"
    by (rule align_free [OF d free])
  have len: "[0..<length inputs] = 0 # [1..<length inputs]" using assms(2) by (simp add: upt_conv_Cons)
  have shape: "nd_shape (snd (snd (snd (?al 0)))) = sh" "fst (snd (?al 0)) = 0"
    by (simp_all add: aligned_input_def sh_def)
  have re: "np_reshape np sh \<lparr>nd_shape = [prodlist sh], nd_data = nd_data (nd_build sh G)\<rparr> = Inr (nd_build sh G)"
    using reshape [of "\<lparr>nd_shape = [prodlist sh], nd_data = nd_data (nd_build sh G)\<rparr>" sh]
    by (simp add: nd_ok_def nd_build_def)
  have rest: "filter (\<lambda>i. i \<noteq> 0) [0..<length sh] = [1..<length sh]"
    using len by (simp add: sh_def filter_id_conv)
  have tr: "np_transpose np (0 # [1..<length sh]) (nd_build sh G) = Inr (nd_build sh G)"
    using transpose_id [of "nd_build sh G" "length sh"] len by (simp add: sh_def)
  have tl: "map ((!) inputs) [1..<length sh] = tl inputs"
    by (rule nth_equalityI) (simp_all add: sh_def nth_tl)
  have sc: "sh = n (hd inputs) # map n (tl inputs)" using assms(2) by (cases inputs) (simp_all add: sh_def)
  have pos: "\<forall>e\<in>set (map n (tl inputs)). 0 < e"
    using free by (auto simp: free_stage_def dest: list.set_sel(2) [OF assms(2)])
  have dr: "\<forall>x\<in>set (tl inputs). droppable (dp_deps st) x" using assms(1) by (simp add: joins_def)
  from drop_all [of "tl inputs" "map n (tl inputs)", OF _ pos dr, of "n (hd inputs)" G] obtain deps' where
    drop: "drop_deps np (tl inputs) (nd_build sh G) (dp_deps st) =
      Inr (table (n (hd inputs)) (\<lambda>i. least_over (map n (tl inputs)) (\<lambda>js. G (i # js))), [], deps')"
    unfolding sc by auto
  obtain deps'' where hand: "hand_on g idx [] deps' = Inr deps''"
  proof -
    have "\<exists>ks. dict_get (tg_outs g) idx = Inr ks"
      using assms(1) by (cases "dict_get (tg_outs g) idx") (auto simp: joins_def dict_get_Inl)
    then show ?thesis using that by (auto simp: hand_on_def)
  qed
  have drop1: "drop 1 (map ?al [0..<length inputs]) = map ?al [1..<length inputs]" unfolding len by simp
  have get0: "py_get (map ?al [0..<length inputs]) 0 = Inr (?al 0)" unfolding len by simp
  have fsts: "set (map fst (map ?al [0..<length inputs])) = set inputs"
  proof -
    have "map fst (map ?al [0..<length inputs]) = inputs" by (rule nth_equalityI) simp_all
    then show ?thesis by simp
  qed
  show ?thesis
    unfolding create_multi_inputs_states_def ins(1) bindR_simps filter_marked [OF ins(2)] flt al prod.case get0 Let_def
      shape nat_0 drop1 assms(3) [folded sh_def] re rest tr tl drop hand fsts
    by simp
qed

lemma join_states:
  assumes "joins g idx st inputs n f t" "2 \<le> length inputs"
  shows "\<exists>stage st'. create_multi_inputs_states np g idx st = Inr (stage, st') \<and> sg_dep stage = [] \<and>
    sg_full_idx stage = Some inputs \<and>
    sg_states stage = table (n (hd inputs)) (\<lambda>i. least_over (map n (tl inputs))
      (\<lambda>js. np_float32 np (join_time (dp_counted st) f t inputs (i # js)))) \<and>
    dp_counted st' = dp_counted st \<union> set inputs"
proof (rule join_stage [OF assms(1)])
  show "inputs \<noteq> []" using assms(2) by auto
qed (rule join_full [OF assms])

lemma alone_states:
  assumes "joins g idx st [a] n f t"
  shows "\<exists>stage st'. create_multi_inputs_states np g idx st = Inr (stage, st') \<and>
    sg_states stage = table (n a) (\<lambda>_. 0) \<and> a \<in> dp_counted st'"
proof -
  have "replicate (n a) 0 = nd_data (nd_build [n a] (\<lambda>_. 0 :: rat))"
    by (simp add: nd_build_def map_replicate_const length_concat o_def sum_list_triv)
  then have "multi_full np g (map n [a]) (aligned_input n f [a] 0) (map (aligned_input n f [a]) [1..<length [a]])
      (dp_counted st) (replicate (prodlist (map n [a])) 0) = Inr (nd_data (nd_build (map n [a]) (\<lambda>_. 0)))"
    by (simp add: multi_full_alone)
  from join_stage [OF assms _ this] show ?thesis by (fastforce simp: least_over_def)
qed

end

section \<open>Properties\<close>

text \<open>
  C28. A node with two or more inputs that depend on no earlier node gets, for every schedule of its
  first input, the least time over all schedules of the others: the times of those inputs that no
  stage has counted yet plus the layout transformations to the first input, as stored in \<open>float32\<close>.
  From then on all its inputs are counted, and no dependency is left.
\<close>

theorem join_takes_least:
  assumes "numpy np" "joins g idx st inputs n f t" "2 \<le> length inputs"
  shows "\<exists>stage st'. create_multi_inputs_states np g idx st = Inr (stage, st') \<and> sg_dep stage = [] \<and>
    sg_full_idx stage = Some inputs \<and>
    sg_states stage = table (n (hd inputs)) (\<lambda>i. least_over (map n (tl inputs))
      (\<lambda>js. np_float32 np (join_time (dp_counted st) f t inputs (i # js)))) \<and>
    dp_counted st' = dp_counted st \<union> set inputs"
  using assms(2,3) by (rule numpy.join_states [OF assms(1)])

text \<open>
  A node with several inputs of which only one is not a boundary node, such as the sum of an
  operator and a network input, forgets the time of that operator: its states are all zero, while
  the operator is from then on taken for counted.
\<close>

lemma alone_loses_time:
  assumes "numpy np" "joins g idx st [a] n f t"
  shows "\<exists>stage st'. create_multi_inputs_states np g idx st = Inr (stage, st') \<and>
    sg_states stage = table (n a) (\<lambda>_. 0) \<and> a \<in> dp_counted st'"
  using assms(2) by (rule numpy.alone_states [OF assms(1)])

section \<open>Witnesses\<close>

definition add_graph :: "nat list \<Rightarrow> (unit, nat) tuner_graph" where
  "add_graph inputs = (let g = two_convs; conv = tg_nodes g ! 1 in
     g\<lparr>tg_nodes := [tg_nodes g ! 0, conv, conv, conv\<lparr>n_op := Some ''add'', n_inputs := inputs\<rparr>],
       tg_ins := [(1, [0]), (2, [0]), (3, inputs)], tg_outs := [(1, [3]), (2, [3]), (3, [])],
       tg_cost := [((2, 1), [[0, 5], [7, 0]])]\<rparr>)"

definition conv_times :: "nat \<Rightarrow> nat \<Rightarrow> rat" where
  "conv_times a i = (if a = 1 then [4, 1] else [2, 6]) ! i"

definition conv_stages :: dp_state where
  "conv_stages = (let s = (\<lambda>a. (a, \<lparr>sg_dep = [], sg_states = table 2 (conv_times a),
       sg_full = table 2 (conv_times a), sg_full_idx = None\<rparr>)) in
     \<lparr>dp_stages = [s 1, s 2], dp_deps = Map.empty, dp_counted = {}\<rparr>)"

lemma add_graph_free: "a \<in> {1, 2} \<Longrightarrow> free_stage (add_graph inputs) (dp_stages conv_stages) (\<lambda>_. 2) conv_times a"
  by (auto simp: free_stage_def conv_stages_def add_graph_def two_convs_def Let_def dict_get_def cands_def
      node_at_def py_get_def)

lemma add_graph_nodes: "length (tg_nodes (add_graph inputs)) = 4"
    "is_boundary_node (tg_nodes (add_graph inputs) ! 0) (tg_names (add_graph inputs))"
    "\<not> is_boundary_node (tg_nodes (add_graph inputs) ! 1) (tg_names (add_graph inputs))"
    "\<not> is_boundary_node (tg_nodes (add_graph inputs) ! 2) (tg_names (add_graph inputs))"
  by (simp_all add: add_graph_def two_convs_def Let_def is_boundary_node_def op_in_def named_in_def
      layout_fixed_op_def)

lemma add_graph_joins:
  assumes "inputs = filter (\<lambda>i. i \<noteq> 0) ins" "ins = [1, 2] \<or> ins = [1, 0]"
  shows "joins (add_graph ins) 3 conv_stages inputs (\<lambda>_. 2) conv_times
    (\<lambda>_ j i. [[0, 5], [7, 0]] ! j ! i)"
proof -
  have "layout_time (add_graph ins) 2 1 j i = Inr ([[0, 5], [7, 0]] ! j ! i)" if "j < 2" "i < 2" for i j
    using that by (auto simp: layout_time_def add_graph_def Let_def dict_get_def less_2_cases_iff py_get_def)
  moreover have "droppable (dp_deps conv_stages) 2" by (simp add: droppable_def conv_stages_def Let_def)
  moreover have "dict_get (tg_ins (add_graph ins)) 3 = Inr ins" "3 \<in> fst ` set (tg_outs (add_graph ins))"
    by (simp_all add: add_graph_def dict_get_def Let_def)
  ultimately show ?thesis
    using assms add_graph_free [of 1 ins] add_graph_free [of 2 ins] add_graph_nodes [of ins]
    by (auto simp: joins_def)
qed

lemma join_takes_least_witness:
  "\<exists>stage st'. create_multi_inputs_states documented (add_graph [1, 2]) 3 conv_stages = Inr (stage, st') \<and>
     nd_data (sg_states stage) = [6, 7] \<and> dp_counted st' = {1, 2}"
proof -
  have j: "joins (add_graph [1, 2]) 3 conv_stages [1, 2] (\<lambda>_. 2) conv_times (\<lambda>_ j i. [[0, 5], [7, 0]] ! j ! i)"
    by (rule add_graph_joins) simp_all
  have "map (\<lambda>i. least_over [2] (\<lambda>js. np_float32 documented
      (join_time (dp_counted conv_stages) conv_times (\<lambda>_ j i. [[0, 5], [7, 0]] ! j ! i) [1, 2] (i # js)))) [0..<2] = [6, 7]"
    by code_simp
  moreover have "dp_counted conv_stages = {}" by (simp add: conv_stages_def Let_def)
  ultimately show ?thesis using join_takes_least [OF documented.numpy_axioms j] by fastforce
qed

end
