(* ===== verification/PBQP.thy ===== *)
theory PBQP
  imports DPTuning
begin

text \<open>
  The heuristic graph tuner, \<open>PBQPTuner\<close> of \<open>tvm/python/tvm/autotvm/graph_tuner/pbqp_tuner.py\<close>: a
  partitioned boolean quadratic problem, reduced node by node. Matrices of layout transformation
  times live on a heap, because \<open>run\<close> enters one matrix under two keys; adjacency lists and cost
  vectors are never shared. The loop of the forward pass takes fuel, one unit per node and one to
  see that none is left.
\<close>

section \<open>State\<close>

record pbqp =
  pb_adj :: edges  \<comment> \<open>\<open>_adj_dict\<close>\<close>
  pb_rec :: "(nat, rat list) dict"  \<comment> \<open>\<open>_record_cost_dict\<close>\<close>
  pb_ltf :: "(nat \<times> nat, nat) dict"  \<comment> \<open>\<open>_layout_transform_interlayer_cost\<close>, to positions of the heap\<close>
  pb_heap :: "rat list list list"
  pb_degree :: "(nat, nat) dict"
  pb_max :: int
  pb_buckets :: "nat list list"
  pb_stack :: "nat list"
  pb_opt :: "(nat, nat) dict"  \<comment> \<open>\<open>_optimal_record_dict\<close>\<close>
  pb_is_optimal :: bool

definition invalid_layout_time :: rat where
  "invalid_layout_time = 10 * 10 ^ 9"

definition ltf_of :: "pbqp \<Rightarrow> nat \<Rightarrow> nat \<Rightarrow> rat list list res" where
  "ltf_of s a b = bindR (dict_get (pb_ltf s) (a, b)) (\<lambda>r. Inr (pb_heap s ! r))"

definition rec_of :: "pbqp \<Rightarrow> nat \<Rightarrow> rat list res" where
  "rec_of s v = dict_get (pb_rec s) v"

text \<open>\<open>+=\<close> on an entry of a list, of a cost vector and of a matrix.\<close>

definition add_at :: "nat \<Rightarrow> rat \<Rightarrow> rat list \<Rightarrow> rat list res" where
  "add_at i d xs = (if i < length xs then Inr (xs[i := xs ! i + d]) else Inl IndexError)"

definition add_rec :: "nat \<Rightarrow> nat \<Rightarrow> rat \<Rightarrow> pbqp \<Rightarrow> pbqp res" where
  "add_rec v i d s = bindR (rec_of s v) (\<lambda>cs. bindR (add_at i d cs) (\<lambda>cs'.
     Inr (s\<lparr>pb_rec := AList.update v cs' (pb_rec s)\<rparr>)))"

definition add_ltf :: "nat \<Rightarrow> nat \<Rightarrow> nat \<Rightarrow> nat \<Rightarrow> rat \<Rightarrow> pbqp \<Rightarrow> pbqp res" where
  "add_ltf a b i j d s = bindR (dict_get (pb_ltf s) (a, b)) (\<lambda>r.
     bindR (py_get (pb_heap s ! r) (int i)) (\<lambda>row. bindR (add_at j d row) (\<lambda>row'.
       Inr (s\<lparr>pb_heap := (pb_heap s)[r := (pb_heap s ! r)[i := row']]\<rparr>))))"

definition py_min :: "rat list \<Rightarrow> rat res" where
  "py_min xs = (if xs = [] then Inl ValueError else Inr (Min (set xs)))"

section \<open>Adjacency and buckets\<close>

definition get_degree :: "pbqp \<Rightarrow> nat \<Rightarrow> nat res" where
  "get_degree s v = bindR (dict_get (pb_adj s) v) (\<lambda>vs. Inr (length vs))"

definition bucket_remove :: "nat \<Rightarrow> nat \<Rightarrow> nat list list \<Rightarrow> nat list list res" where
  "bucket_remove d v bs = bindR (py_get bs (int d)) (\<lambda>b. bindR (py_remove v b) (\<lambda>b'. Inr (bs[d := b'])))"

definition bucket_insert :: "nat \<Rightarrow> nat \<Rightarrow> nat list list \<Rightarrow> nat list list res" where
  "bucket_insert d v bs = bindR (py_get bs (int d)) (\<lambda>b. Inr (bs[d := v # b]))"

definition reorder_one :: "nat \<Rightarrow> pbqp \<Rightarrow> pbqp res" where
  "reorder_one a s =
     bindR (get_degree s a) (\<lambda>current_degree.
     bindR (dict_get (pb_degree s) a) (\<lambda>prev_degree.
       if prev_degree \<noteq> current_degree then
         bindR (bucket_remove prev_degree a (pb_buckets s)) (\<lambda>bs.
         bindR (bucket_insert current_degree a bs) (\<lambda>bs.
           Inr (s\<lparr>pb_buckets := bs, pb_degree := AList.update a current_degree (pb_degree s)\<rparr>)))
       else Inr s))"

definition reorder_adj_nodes :: "nat \<Rightarrow> pbqp \<Rightarrow> pbqp res" where
  "reorder_adj_nodes n s = bindR (dict_get (pb_adj s) n) (\<lambda>vs. foldR reorder_one vs s)"

text \<open>No node is its own neighbour, so the list that is iterated is not the one that is changed.\<close>

definition remove_node :: "nat \<Rightarrow> pbqp \<Rightarrow> pbqp res" where
  "remove_node n s =
     bindR (dict_get (pb_adj s) n) (\<lambda>vs.
     bindR (bucket_remove (length vs) n (pb_buckets s)) (\<lambda>bs.
     bindR (foldR (drop_input n) vs (pb_adj s)) (\<lambda>adj.
       Inr (s\<lparr>pb_buckets := bs, pb_adj := adj\<rparr>))))"

definition append_adj :: "nat \<Rightarrow> nat \<Rightarrow> edges \<Rightarrow> edges res" where
  "append_adj a b adj = bindR (dict_get adj a) (\<lambda>vs. Inr (AList.update a (vs @ [b]) adj))"

definition insert_edge :: "nat \<Rightarrow> nat \<Rightarrow> rat list list \<Rightarrow> pbqp \<Rightarrow> pbqp res" where
  "insert_edge x y m s =
     bindR (py_get m 0) (\<lambda>row.
     bindR (mapR (\<lambda>i. mapR (\<lambda>cost_vec. py_get cost_vec (int i)) m) [0..<length row]) (\<lambda>m'.
     bindR (append_adj x y (pb_adj s)) (\<lambda>adj.
     bindR (append_adj y x adj) (\<lambda>adj.
       Inr (s\<lparr>pb_ltf := AList.update (y, x) (length (pb_heap s) + 1) (AList.update (x, y) (length (pb_heap s)) (pb_ltf s)),
              pb_heap := pb_heap s @ [m, m'], pb_adj := adj\<rparr>)))))"

definition backward_insert_node :: "nat \<Rightarrow> edges \<Rightarrow> edges res" where
  "backward_insert_node n adj = bindR (dict_get adj n) (\<lambda>vs. foldR (\<lambda>a. append_adj a n) vs adj)"

section \<open>Reductions\<close>

definition finish_node :: "nat \<Rightarrow> pbqp \<Rightarrow> pbqp res" where
  "finish_node n s = bindR (remove_node n s) (\<lambda>s. bindR (reorder_adj_nodes n s) (\<lambda>s.
     Inr (s\<lparr>pb_stack := pb_stack s @ [n]\<rparr>)))"

definition RI_reduction :: "nat \<Rightarrow> pbqp \<Rightarrow> pbqp res" where
  "RI_reduction n s =
     bindR (dict_get (pb_adj s) n) (\<lambda>vs. bindR (py_get vs 0) (\<lambda>adj_node.
     bindR (ltf_of s adj_node n) (\<lambda>m.
     bindR (foldR (\<lambda>(i, cost_vec) s.
         bindR (foldR (\<lambda>(j, cost) min_cost. bindR (rec_of s n) (\<lambda>cs. bindR (py_get cs (int j)) (\<lambda>c.
             Inr (min min_cost (cost + c))))) (enumerate 0 cost_vec) invalid_layout_time) (\<lambda>min_cost.
           add_rec adj_node i min_cost s)) (enumerate 0 m) s) (\<lambda>s.
       finish_node n s))))"

definition delta_entry :: "pbqp \<Rightarrow> nat \<Rightarrow> rat list \<Rightarrow> rat list \<Rightarrow> rat res" where
  "delta_entry s n cost_vec_x cost_vec_y =
     bindR (rec_of s n) (\<lambda>cs. foldR (\<lambda>k min_cost.
         bindR (py_get cost_vec_x (int k)) (\<lambda>x. bindR (py_get cost_vec_y (int k)) (\<lambda>y.
           Inr (min min_cost (x + y + cs ! k))))) [0..<length cs] invalid_layout_time)"

definition RII_reduction :: "nat \<Rightarrow> pbqp \<Rightarrow> pbqp res" where
  "RII_reduction n s =
     bindR (dict_get (pb_adj s) n) (\<lambda>vs. case vs of
       [x, y] \<Rightarrow>
         bindR (ltf_of s x n) (\<lambda>mx. bindR (ltf_of s y n) (\<lambda>my.
         bindR (mapR (\<lambda>vx. mapR (delta_entry s n vx) my) mx) (\<lambda>delta.
         bindR (dict_get (pb_adj s) y) (\<lambda>ys.
         bindR
           (if x = y then
              foldR (\<lambda>(i, delta_row) s. bindR (py_get delta_row (int i)) (\<lambda>d. add_rec x i d s)) (enumerate 0 delta) s
            else if x \<in> set ys then
              foldR (\<lambda>(i, delta_row) s. foldR (\<lambda>(j, d) s.
                  bindR (add_ltf x y i j d s) (add_ltf y x j i d)) (enumerate 0 delta_row) s) (enumerate 0 delta) s
            else insert_edge x y delta s) (\<lambda>s.
           finish_node n s)))))
     | _ \<Rightarrow> Inl ValueError)"

text \<open>What a schedule of the node costs at once: its own time and, per neighbour, the best answer to it.\<close>

definition rn_cost :: "pbqp \<Rightarrow> nat \<Rightarrow> nat list \<Rightarrow> nat \<Rightarrow> rat \<Rightarrow> rat res" where
  "rn_cost s n vs i record_cost =
     foldR (\<lambda>a current_cost.
         bindR (ltf_of s n a) (\<lambda>m. bindR (rec_of s a) (\<lambda>cs. bindR (py_get m (int i)) (\<lambda>row.
         bindR (foldR (\<lambda>(j, ltf_cost). add_at j ltf_cost) (enumerate 0 row) cs) (\<lambda>cs.
         bindR (py_min cs) (\<lambda>best. Inr (current_cost + best))))))) vs record_cost"

definition RN_reduction :: "nat \<Rightarrow> pbqp \<Rightarrow> pbqp res" where
  "RN_reduction n s =
     bindR (rec_of s n) (\<lambda>record_costs. bindR (dict_get (pb_adj s) n) (\<lambda>vs.
     bindR (foldR (\<lambda>(i, record_cost) (min_cost, record_idx).
         bindR (rn_cost s n vs i record_cost) (\<lambda>current_cost.
           Inr (if current_cost < min_cost then (current_cost, int i) else (min_cost, record_idx))))
       (enumerate 0 record_costs) (invalid_layout_time, - 1)) (\<lambda>(_, record_idx).
     if record_idx < 0 then Inl RuntimeError
     else
       bindR (foldR (\<lambda>a s.
           bindR (ltf_of s n a) (\<lambda>m. bindR (py_get m record_idx) (\<lambda>row.
             foldR (\<lambda>(i, ltf_cost). add_rec a i ltf_cost) (enumerate 0 row) s)))
         vs (s\<lparr>pb_opt := AList.update n (nat record_idx) (pb_opt s), pb_is_optimal := False\<rparr>)) (\<lambda>s.
       finish_node n s))))"

section \<open>Forward and backward\<close>

fun first_full :: "nat list list \<Rightarrow> nat list \<Rightarrow> nat option res" where
  "first_full bs [] = Inr None"
| "first_full bs (i # is) = bindR (py_get bs (int i)) (\<lambda>b. case b of [] \<Rightarrow> first_full bs is | n # _ \<Rightarrow> Inr (Some n))"

text \<open>One turn of the loop; \<open>None\<close> is \<open>break\<close>.\<close>

definition forward_turn :: "pbqp \<Rightarrow> pbqp option res" where
  "forward_turn s =
     bindR (py_get (pb_buckets s) 1) (\<lambda>b1.
     if b1 \<noteq> [] then bindR (RI_reduction (hd b1) s) (Inr \<circ> Some)
     else bindR (if pb_max s \<ge> 2 then py_get (pb_buckets s) 2 else Inr []) (\<lambda>b2.
     if b2 \<noteq> [] then bindR (RII_reduction (hd b2) s) (Inr \<circ> Some)
     else if pb_max s \<ge> 3 then
       bindR (first_full (pb_buckets s) (rev [3..<nat (pb_max s) + 1])) (\<lambda>found. case found of
           None \<Rightarrow> Inr None
         | Some n \<Rightarrow> bindR (RN_reduction n s) (Inr \<circ> Some))
     else Inr None))"

fun pbqp_forward :: "nat \<Rightarrow> pbqp \<Rightarrow> pbqp res" where
  "pbqp_forward 0 s = Inl OutOfFuel"
| "pbqp_forward (Suc fuel) s =
     bindR (forward_turn s) (\<lambda>r. case r of None \<Rightarrow> Inr s | Some s \<Rightarrow> pbqp_forward fuel s)"

definition settle :: "nat \<Rightarrow> rat list \<Rightarrow> (nat, nat) dict \<Rightarrow> (nat, nat) dict res" where
  "settle v costs opt = bindR (py_min costs) (\<lambda>min_cost. bindR (py_index min_cost costs) (\<lambda>i.
     Inr (AList.update v i opt)))"

definition back_costs :: "pbqp \<Rightarrow> nat \<Rightarrow> (nat, nat) dict \<Rightarrow> nat list \<Rightarrow> rat list \<Rightarrow> rat list res" where
  "back_costs s v opt vs costs =
     foldR (\<lambda>a costs. bindR (dict_get opt a) (\<lambda>k.
         foldR (\<lambda>i costs. bindR (ltf_of s v a) (\<lambda>m. bindR (py_get m (int i)) (\<lambda>row. bindR (py_get row (int k)) (\<lambda>c.
             add_at i c costs)))) [0..<length costs] costs)) vs costs"

definition back_node :: "pbqp \<Rightarrow> nat \<Rightarrow> edges \<times> (nat, nat) dict \<Rightarrow> (edges \<times> (nat, nat) dict) res" where
  "back_node s v = (\<lambda>(adj, opt).
     bindR (backward_insert_node v adj) (\<lambda>adj.
     if v \<in> fst ` set opt then Inr (adj, opt)
     else bindR (rec_of s v) (\<lambda>costs. bindR (dict_get adj v) (\<lambda>vs.
       bindR (back_costs s v opt vs costs) (\<lambda>costs. bindR (settle v costs opt) (\<lambda>opt. Inr (adj, opt)))))))"

definition pbqp_backward :: "pbqp \<Rightarrow> (nat, nat) dict res" where
  "pbqp_backward s =
     bindR (py_get (pb_buckets s) 0) (\<lambda>b0.
     bindR (foldR (\<lambda>v opt. bindR (rec_of s v) (\<lambda>costs. settle v costs opt)) b0 (pb_opt s)) (\<lambda>opt.
     bindR (foldR (back_node s) (rev (pb_stack s)) (pb_adj s, opt)) (\<lambda>(_, opt). Inr opt)))"

section \<open>Creating and running the tuner\<close>

definition drop_boundary_inputs :: "('w, 'c) tuner_graph \<Rightarrow> edges res" where
  "drop_boundary_inputs g =
     foldR (\<lambda>(i, outs) ins. bindR (node_at g i) (\<lambda>node.
         if is_boundary_node node (tg_names g) then foldR (drop_input i) outs ins else Inr ins))
       (tg_outs g) (tg_ins g)"

definition bucket_append :: "nat \<Rightarrow> nat \<Rightarrow> nat list list \<Rightarrow> nat list list res" where
  "bucket_append d v bs = bindR (py_get bs (int d)) (\<lambda>b. Inr (bs[d := b @ [v]]))"

text \<open>The constructor; with the state comes the dictionary of inputs without boundary nodes.\<close>

definition new_pbqp :: "('w, 'c) tuner_graph \<Rightarrow> (edges \<times> pbqp) res" where
  "new_pbqp g =
     bindR (drop_boundary_inputs g) (\<lambda>ins.
     bindR (mapR (\<lambda>(v, vs). bindR (dict_get (tg_outs g) v) (\<lambda>outs. Inr (v, vs @ outs))) ins) (\<lambda>adj.
     bindR (mapR (\<lambda>(v, _). bindR (cands g v) (\<lambda>rs.
         bindR (mapR (\<lambda>r. py_get (rc_costs r) 0) rs) (\<lambda>costs. Inr (v, costs)))) ins) (\<lambda>recs.
     let degree = map (\<lambda>(v, vs). (v, length vs)) adj;
         max_degree = foldl max (- 1) (map (\<lambda>(_, d). int d) degree) in
     bindR (foldR (\<lambda>v bs. bindR (dict_get degree v) (\<lambda>d. bucket_append d v bs))
         (sort (map fst ins)) (replicate (nat (max_degree + 2)) [])) (\<lambda>buckets.
       Inr (ins, \<lparr>pb_adj = adj, pb_rec = recs, pb_ltf = [], pb_heap = [], pb_degree = degree,
         pb_max = max_degree, pb_buckets = buckets, pb_stack = [], pb_opt = [], pb_is_optimal = True\<rparr>)))))"

text \<open>The matrices that the benchmark of layout transformations has left.\<close>

definition load_costs :: "('w, 'c) tuner_graph \<Rightarrow> pbqp \<Rightarrow> pbqp" where
  "load_costs g s = s\<lparr>pb_ltf := zip (map fst (tg_cost g)) [0..<length (tg_cost g)], pb_heap := map snd (tg_cost g)\<rparr>"

fun first_inner :: "('w, 'c) tuner_graph \<Rightarrow> nat \<Rightarrow> nat list \<Rightarrow> (nat \<times> nat) option res" where
  "first_inner g i [] = Inr None"
| "first_inner g i (v # vs) = bindR (node_at g v) (\<lambda>node.
     if is_boundary_node node (tg_names g) then first_inner g (Suc i) vs else Inr (Some (i, v)))"

definition virtual_matrix :: "nat \<Rightarrow> rat list list" where
  "virtual_matrix n = map (\<lambda>j. map (\<lambda>k. if j = k then 0 else invalid_layout_time) [0..<n]) [0..<n]"

text \<open>
  Matrices for the edges into a node with several inputs: an identity for its first input, and for
  the others the very matrices of the transformations to the first.
\<close>

definition virtual_edges ::
  "('w, 'c) tuner_graph \<Rightarrow> pbqp \<Rightarrow> nat \<times> nat list \<Rightarrow> (nat \<times> nat, nat) dict \<times> rat list list list \<Rightarrow>
     ((nat \<times> nat, nat) dict \<times> rat list list list) res" where
  "virtual_edges g s = (\<lambda>(key, vs) (temp, heap).
     bindR (has_multiple_inputs (Suc key) (tg_nodes g) key (tg_names g)) (\<lambda>multi.
     if \<not> multi then Inr (temp, heap)
     else bindR (first_inner g 0 vs) (\<lambda>found. case found of
         None \<Rightarrow> Inr (temp, heap)
       | Some (pos, target) \<Rightarrow>
           bindR (cands g target) (\<lambda>rs.
           bindR (foldR (\<lambda>i temp. bindR (node_at g i) (\<lambda>node.
               if is_boundary_node node (tg_names g) then Inr temp
               else bindR (dict_get (pb_ltf s) (i, target)) (\<lambda>r. Inr (AList.update (i, key) r temp))))
             (drop (pos + 1) vs) (AList.update (target, key) (length heap) temp)) (\<lambda>temp.
             Inr (temp, heap @ [virtual_matrix (length rs)]))))))"

definition transposed_rows :: "rat list list \<Rightarrow> rat list list res" where
  "transposed_rows m = bindR (py_get m 0) (\<lambda>row.
     if \<exists>r\<in>set m. length r > length row then Inl IndexError
     else Inr (map (\<lambda>j. map (\<lambda>r. r ! j) (filter (\<lambda>r. j < length r) m)) [0..<length row]))"

definition dict_merge :: "('k, 'v) dict \<Rightarrow> ('k, 'v) dict \<Rightarrow> ('k, 'v) dict" where
  "dict_merge temp d = foldl (\<lambda>d (k, v). AList.update k v d) d temp"

definition reverse_edges :: "pbqp \<Rightarrow> pbqp res" where
  "reverse_edges s =
     bindR (foldR (\<lambda>((a, b), r) (temp, heap). bindR (transposed_rows (heap ! r)) (\<lambda>m.
         Inr (AList.update (b, a) (length heap) temp, heap @ [m]))) (pb_ltf s) ([], pb_heap s)) (\<lambda>(temp, heap).
       Inr (s\<lparr>pb_ltf := dict_merge temp (pb_ltf s), pb_heap := heap\<rparr>))"

definition prepare :: "('w, 'c) tuner_graph \<Rightarrow> edges \<Rightarrow> pbqp \<Rightarrow> pbqp res" where
  "prepare g ins s =
     bindR (foldR (virtual_edges g s) ins ([], pb_heap s)) (\<lambda>(temp, heap).
       reverse_edges (s\<lparr>pb_ltf := dict_merge temp (pb_ltf s), pb_heap := heap\<rparr>))"

definition solve_pbqp :: "nat \<Rightarrow> pbqp \<Rightarrow> (nat, nat) dict res" where
  "solve_pbqp fuel s = bindR (pbqp_forward fuel s) pbqp_backward"

definition run_pbqp :: "nat \<Rightarrow> ('w, 'c) tuner_graph \<Rightarrow> edges \<times> pbqp \<Rightarrow> (nat, nat) dict res" where
  "run_pbqp fuel g = (\<lambda>(ins, s). bindR (prepare g ins (load_costs g s)) (solve_pbqp fuel))"

end
