(* ===== verification/PBQPReduction.thy ===== *)
theory PBQPReduction
  imports PBQP
begin

text \<open>
  What the reductions of the PBQP tuner are worth: as long as only nodes with one or two neighbours
  are reduced, the backward pass finds a choice of schedules of least total time. The state of the
  tuner is read as a graph with a cost vector per node and a matrix per edge; a reduction takes one
  node out and adds what the node costs at best to what is left.
\<close>

section \<open>The problem a state stands for\<close>

definition live :: "pbqp \<Rightarrow> nat set" where
  "live s = set (concat (pb_buckets s))"

definition nbs :: "pbqp \<Rightarrow> nat \<Rightarrow> nat list" where
  "nbs s v = the (map_of (pb_adj s) v)"

definition costs_of :: "pbqp \<Rightarrow> nat \<Rightarrow> rat list" where
  "costs_of s v = the (map_of (pb_rec s) v)"

definition times :: "pbqp \<Rightarrow> nat \<Rightarrow> nat \<Rightarrow> rat list list" where
  "times s u v = pb_heap s ! the (map_of (pb_ltf s) (u, v))"

abbreviation choices :: "pbqp \<Rightarrow> nat \<Rightarrow> nat" where
  "choices s v \<equiv> length (costs_of s v)"

definition valid_choice :: "pbqp \<Rightarrow> (nat \<Rightarrow> nat) \<Rightarrow> bool" where
  "valid_choice s x \<longleftrightarrow> (\<forall>v\<in>live s. x v < choices s v)"

text \<open>The total time of a choice; an edge is met from both ends, hence the half.\<close>

definition total_time :: "pbqp \<Rightarrow> (nat \<Rightarrow> nat) \<Rightarrow> rat" where
  "total_time s x = (\<Sum>v\<in>live s. costs_of s v ! x v) +
     (\<Sum>v\<in>live s. \<Sum>u\<in>set (nbs s v). times s v u ! x v ! x u) / 2"

definition least_choice :: "pbqp \<Rightarrow> (nat \<Rightarrow> nat) \<Rightarrow> bool" where
  "least_choice s x \<longleftrightarrow> valid_choice s x \<and> (\<forall>y. valid_choice s y \<longrightarrow> total_time s x \<le> total_time s y)"

text \<open>Times are not negative, and some choice avoids the invalid transformations.\<close>

definition nonneg :: "pbqp \<Rightarrow> bool" where
  "nonneg s \<longleftrightarrow> (\<forall>v\<in>live s. \<forall>i<choices s v. 0 \<le> costs_of s v ! i) \<and>
     (\<forall>v\<in>live s. \<forall>u\<in>set (nbs s v). \<forall>i<choices s v. \<forall>j<choices s u. 0 \<le> times s v u ! i ! j)"

definition feasible :: "pbqp \<Rightarrow> bool" where
  "feasible s \<longleftrightarrow> nonneg s \<and> (\<exists>x. valid_choice s x \<and> total_time s x < invalid_layout_time)"

section \<open>Well-formed states\<close>

definition bucketed :: "nat list list \<Rightarrow> (nat \<Rightarrow> nat) \<Rightarrow> nat set \<Rightarrow> bool" where
  "bucketed bs d L \<longleftrightarrow> (\<forall>k<length bs. distinct (bs ! k) \<and> set (bs ! k) = {v \<in> L. d v = k}) \<and>
     (\<forall>v\<in>L. d v < length bs)"

definition edge_set :: "pbqp \<Rightarrow> (nat \<times> nat) set" where
  "edge_set s = {(u, v). u \<in> fst ` set (pb_adj s) \<and> v \<in> set (nbs s u)}"

definition graph_ok :: "pbqp \<Rightarrow> bool" where
  "graph_ok s \<longleftrightarrow> (\<forall>v\<in>live s. v \<in> fst ` set (pb_adj s) \<and> distinct (nbs s v) \<and>
     set (nbs s v) \<subseteq> live s - {v} \<and> (\<forall>u\<in>set (nbs s v). v \<in> set (nbs s u)))"

definition degrees_ok :: "pbqp \<Rightarrow> bool" where
  "degrees_ok s \<longleftrightarrow> bucketed (pb_buckets s) (\<lambda>v. length (nbs s v)) (live s) \<and>
     int (length (pb_buckets s)) = pb_max s + 2 \<and> 0 \<le> pb_max s \<and>
     (\<forall>v\<in>live s. int (length (nbs s v)) \<le> pb_max s \<and> map_of (pb_degree s) v = Some (length (nbs s v)))"

definition matrix_ok :: "nat \<Rightarrow> nat \<Rightarrow> rat list list \<Rightarrow> bool" where
  "matrix_ok k l m \<longleftrightarrow> length m = k \<and> (\<forall>row\<in>set m. length row = l)"

definition costs_ok :: "pbqp \<Rightarrow> bool" where
  "costs_ok s \<longleftrightarrow>
     (\<forall>v\<in>live s. v \<in> fst ` set (pb_rec s) \<and> costs_of s v \<noteq> []) \<and>
     (\<forall>v\<in>live s. \<forall>u\<in>set (nbs s v). matrix_ok (choices s v) (choices s u) (times s v u) \<and>
        (\<forall>i<choices s v. \<forall>j<choices s u. times s v u ! i ! j = times s u v ! j ! i))"

text \<open>Every edge has a matrix of its own, those of the removed nodes included.\<close>

definition unshared :: "pbqp \<Rightarrow> bool" where
  "unshared s \<longleftrightarrow> inj_on (\<lambda>e. the (map_of (pb_ltf s) e)) (edge_set s) \<and>
     (\<forall>e\<in>edge_set s. e \<in> fst ` set (pb_ltf s) \<and> the (map_of (pb_ltf s) e) < length (pb_heap s))"

definition pbqp_ok :: "pbqp \<Rightarrow> bool" where
  "pbqp_ok s \<longleftrightarrow> graph_ok s \<and> degrees_ok s \<and> costs_ok s \<and> unshared s"

lemma finite_live [simp, intro]: "finite (live s)"
  by (simp add: live_def)

lemma adj_entry: "v \<in> fst ` set (pb_adj s) \<longleftrightarrow> map_of (pb_adj s) v = Some (nbs s v)"
  by (cases "map_of (pb_adj s) v") (auto simp: nbs_def map_of_eq_None_iff dest: map_of_SomeD intro: rev_image_eqI)

lemma rec_entry: "v \<in> fst ` set (pb_rec s) \<longleftrightarrow> map_of (pb_rec s) v = Some (costs_of s v)"
  by (cases "map_of (pb_rec s) v") (auto simp: costs_of_def map_of_eq_None_iff dest: map_of_SomeD intro: rev_image_eqI)

lemma ltf_entry:
  "e \<in> fst ` set (pb_ltf s) \<longleftrightarrow> map_of (pb_ltf s) e = Some (the (map_of (pb_ltf s) e))"
  by (cases "map_of (pb_ltf s) e") (auto simp: map_of_eq_None_iff dest: map_of_SomeD intro: rev_image_eqI)

lemma graph_okD:
  assumes "graph_ok s" "v \<in> live s"
  shows "map_of (pb_adj s) v = Some (nbs s v)" "distinct (nbs s v)" "set (nbs s v) \<subseteq> live s" "v \<notin> set (nbs s v)"
    and "u \<in> set (nbs s v) \<longleftrightarrow> u \<in> live s \<and> v \<in> set (nbs s u)"
  using assms unfolding graph_ok_def adj_entry by blast+

lemma ltf_of_edge:
  assumes "unshared s" "(u, v) \<in> edge_set s"
  shows "ltf_of s u v = Inr (times s u v)"
proof -
  have "(u, v) \<in> fst ` set (pb_ltf s)" using assms by (simp add: unshared_def)
  then obtain r where "map_of (pb_ltf s) (u, v) = Some r" unfolding ltf_entry by blast
  then show ?thesis by (simp add: ltf_of_def dict_get_def times_def)
qed

lemma rec_of_live:
  assumes "costs_ok s" "v \<in> live s"
  shows "rec_of s v = Inr (costs_of s v)"
proof -
  have "v \<in> fst ` set (pb_rec s)" using assms by (simp add: costs_ok_def)
  then show ?thesis unfolding rec_entry by (simp add: rec_of_def dict_get_def)
qed

lemma live_edge: "graph_ok s \<Longrightarrow> v \<in> live s \<Longrightarrow> u \<in> set (nbs s v) \<Longrightarrow> (u, v) \<in> edge_set s \<and> (v, u) \<in> edge_set s"
  by (simp add: graph_ok_def edge_set_def) blast

section \<open>Taking a node out of the sum\<close>

definition rest_time :: "pbqp \<Rightarrow> nat \<Rightarrow> (nat \<Rightarrow> nat) \<Rightarrow> rat" where
  "rest_time s n x = (\<Sum>v\<in>live s - {n}. costs_of s v ! x v) +
     (\<Sum>v\<in>live s - {n}. \<Sum>u\<in>set (nbs s v) - {n}. times s v u ! x v ! x u) / 2"

definition node_time :: "pbqp \<Rightarrow> nat \<Rightarrow> (nat \<Rightarrow> nat) \<Rightarrow> nat \<Rightarrow> rat" where
  "node_time s n x k = costs_of s n ! k + (\<Sum>u\<in>set (nbs s n). times s n u ! k ! x u)"

definition best_time :: "pbqp \<Rightarrow> nat \<Rightarrow> (nat \<Rightarrow> nat) \<Rightarrow> rat" where
  "best_time s n x = min invalid_layout_time (Min (node_time s n x ` {..<choices s n}))"

lemma total_split:
  assumes "graph_ok s" "costs_ok s" "n \<in> live s" "valid_choice s x"
  shows "total_time s x = rest_time s n x + node_time s n x (x n)"
proof -
  let ?t = "\<lambda>v u. times s v u ! x v ! x u"
  let ?L = "live s - {n}"
  have sym: "?t v n = ?t n v" if "v \<in> set (nbs s n)" for v
  proof -
    have "v \<in> live s" "n \<in> set (nbs s v)" using graph_okD(5) [OF assms(1,3)] that by auto
    then show ?thesis using assms(2-4) by (simp add: costs_ok_def valid_choice_def)
  qed
  have "(\<Sum>v\<in>?L. \<Sum>u\<in>set (nbs s v). ?t v u) =
      (\<Sum>v\<in>?L. (\<Sum>u\<in>set (nbs s v) - {n}. ?t v u) + (if n \<in> set (nbs s v) then ?t v n else 0))"
    by (intro sum.cong refl) (auto simp: sum.remove)
  also have "\<dots> = (\<Sum>v\<in>?L. \<Sum>u\<in>set (nbs s v) - {n}. ?t v u) + (\<Sum>v\<in>?L. if n \<in> set (nbs s v) then ?t v n else 0)"
    by (rule sum.distrib)
  also have "(\<Sum>v\<in>?L. if n \<in> set (nbs s v) then ?t v n else 0) = (\<Sum>v\<in>{v\<in>?L. n \<in> set (nbs s v)}. ?t v n)"
    by (rule sum.inter_filter [symmetric]) simp
  also have "{v\<in>?L. n \<in> set (nbs s v)} = set (nbs s n)"
    using graph_okD(3-5) [OF assms(1,3)] by blast
  also have "(\<Sum>v\<in>set (nbs s n). ?t v n) = (\<Sum>v\<in>set (nbs s n). ?t n v)"
    by (intro sum.cong refl sym)
  finally have "(\<Sum>v\<in>live s. \<Sum>u\<in>set (nbs s v). ?t v u) =
      (\<Sum>v\<in>?L. \<Sum>u\<in>set (nbs s v) - {n}. ?t v u) + 2 * (\<Sum>v\<in>set (nbs s n). ?t n v)"
    using assms(3) by (simp add: sum.remove [of "live s" n])
  then show ?thesis using assms(3)
    by (simp add: total_time_def rest_time_def node_time_def sum.remove [of "live s" n] add_divide_distrib)
qed

lemma node_time_cong: "(\<And>u. u \<in> set (nbs s n) \<Longrightarrow> x u = y u) \<Longrightarrow> node_time s n x k = node_time s n y k"
  unfolding node_time_def by (intro arg_cong2 [where f = "(+)"] refl sum.cong) auto

lemma rest_time_cong:
  assumes "graph_ok s" "\<And>v. v \<in> live s \<Longrightarrow> v \<noteq> n \<Longrightarrow> x v = y v"
  shows "rest_time s n x = rest_time s n y"
proof -
  have "x u = y u" if "v \<in> live s" "u \<in> set (nbs s v) - {n}" for u v
    using assms graph_okD(3) [OF assms(1) that(1)] that(2) by blast
  then show ?thesis using assms(2) unfolding rest_time_def
    by (intro arg_cong2 [where f = "(+)"] arg_cong2 [where f = "(/)"] sum.cong refl) auto
qed

section \<open>What a reduction does\<close>

text \<open>Nodes that are gone keep their neighbours, their costs and their matrices.\<close>

definition frozen :: "pbqp \<Rightarrow> pbqp \<Rightarrow> nat set \<Rightarrow> bool" where
  "frozen s s' L \<longleftrightarrow> (\<forall>v. v \<notin> L \<longrightarrow> map_of (pb_adj s') v = map_of (pb_adj s) v \<and>
     map_of (pb_rec s') v = map_of (pb_rec s) v \<and>
     (\<forall>u. (v, u) \<in> edge_set s \<longrightarrow> map_of (pb_ltf s') (v, u) = map_of (pb_ltf s) (v, u) \<and> times s' v u = times s v u))"

text \<open>\<open>s'\<close> is \<open>s\<close> without the node, and its total times leave out all of it but \<open>e\<close>.\<close>

definition shrunk :: "pbqp \<Rightarrow> nat \<Rightarrow> ((nat \<Rightarrow> nat) \<Rightarrow> rat) \<Rightarrow> pbqp \<Rightarrow> bool" where
  "shrunk s n e s' \<longleftrightarrow> n \<in> live s \<and> pbqp_ok s' \<and> live s' = live s - {n} \<and>
     (\<forall>v\<in>live s'. choices s' v = choices s v) \<and>
     (\<forall>x. valid_choice s x \<longrightarrow> total_time s' x = rest_time s n x + e x) \<and>
     (nonneg s \<longrightarrow> nonneg s') \<and> frozen s s' (live s') \<and> pb_stack s' = pb_stack s @ [n] \<and> pb_max s' = pb_max s"

definition reduced :: "pbqp \<Rightarrow> nat \<Rightarrow> pbqp \<Rightarrow> bool" where
  "reduced s n s' \<longleftrightarrow> shrunk s n (best_time s n) s' \<and> pb_opt s' = pb_opt s \<and> pb_is_optimal s' = pb_is_optimal s"

lemma valid_shrunk:
  assumes "shrunk s n e s'"
  shows "valid_choice s x \<longleftrightarrow> valid_choice s' x \<and> x n < choices s n"
  using assms by (auto simp: shrunk_def valid_choice_def)

lemma valid_reduced:
  assumes "reduced s n s'"
  shows "valid_choice s x \<longleftrightarrow> valid_choice s' x \<and> x n < choices s n"
  by (rule valid_shrunk [OF conjunct1 [OF assms [unfolded reduced_def]]])

lemma rest_nonneg:
  assumes "graph_ok s" "nonneg s" "valid_choice s x"
  shows "0 \<le> rest_time s n x"
proof -
  have "0 \<le> times s v u ! x v ! x u" if "v \<in> live s" "u \<in> set (nbs s v)" for v u
    using assms that graph_okD(3) [OF assms(1) that(1)] by (auto simp: nonneg_def valid_choice_def)
  then show ?thesis using assms(2,3) unfolding rest_time_def
    by (intro add_nonneg_nonneg divide_nonneg_pos sum_nonneg) (auto simp: nonneg_def valid_choice_def)
qed

lemma best_le: "k < choices s n \<Longrightarrow> best_time s n x \<le> node_time s n x k"
  unfolding best_time_def by (intro min.coboundedI2 Min_le) auto

lemma reduced_le:
  assumes "pbqp_ok s" "reduced s n s'" "valid_choice s x"
  shows "total_time s' x \<le> total_time s x"
proof -
  have "n \<in> live s" "total_time s' x = rest_time s n x + best_time s n x"
    using assms by (simp_all add: reduced_def shrunk_def)
  moreover have "best_time s n x \<le> node_time s n x (x n)"
    using assms(3) \<open>n \<in> live s\<close> by (intro best_le) (simp add: valid_choice_def)
  ultimately show ?thesis using assms by (simp add: pbqp_ok_def total_split)
qed

lemma reduced_feasible:
  assumes "pbqp_ok s" "reduced s n s'" "feasible s"
  shows "feasible s'"
proof -
  obtain x where x: "valid_choice s x" "total_time s x < invalid_layout_time"
    using assms(3) by (auto simp: feasible_def)
  then have "total_time s' x < invalid_layout_time" using reduced_le [OF assms(1,2)] by fastforce
  then show ?thesis using assms x by (auto simp: feasible_def reduced_def shrunk_def valid_reduced [OF assms(2)])
qed

lemma reduced_least:
  assumes "pbqp_ok s" "feasible s" "reduced s n s'" "least_choice s' x"
    and "k < choices s n" "node_time s n x k = Min (node_time s n x ` {..<choices s n})"
  shows "least_choice s (x(n := k))"
proof -
  have g: "graph_ok s" "costs_ok s" "n \<in> live s" using assms by (simp_all add: pbqp_ok_def reduced_def shrunk_def)
  have v: "valid_choice s (x(n := k))"
    using assms(3-5) by (simp add: valid_reduced [OF assms(3)] least_choice_def valid_choice_def reduced_def shrunk_def)
  have node: "node_time s n (x(n := k)) i = node_time s n x i" for i
    using graph_okD(4) [OF g(1,3)] by (intro node_time_cong) auto
  have rest: "rest_time s n (x(n := k)) = rest_time s n x" by (intro rest_time_cong [OF g(1)]) simp
  have cut: "total_time s' (x(n := k)) = rest_time s n x + best_time s n x"
    using assms(3) v rest node by (simp add: reduced_def shrunk_def best_time_def)
  have same: "total_time s' (x(n := k)) = total_time s' x"
  proof -
    have "graph_ok s'" "n \<notin> live s'" using assms(3) by (auto simp: reduced_def shrunk_def pbqp_ok_def)
    then show ?thesis unfolding total_time_def
      by (intro arg_cong2 [where f = "(+)"] arg_cong2 [where f = "(/)"] sum.cong refl)
        (auto dest: graph_okD(3) [THEN subsetD])
  qed
  obtain y where y: "valid_choice s y" "total_time s y < invalid_layout_time"
    using assms(2) by (auto simp: feasible_def)
  have "total_time s' x \<le> total_time s' y"
    using assms(4) y(1) by (simp add: least_choice_def valid_reduced [OF assms(3)])
  also have "\<dots> < invalid_layout_time" using reduced_le [OF assms(1,3) y(1)] y(2) by simp
  finally have "rest_time s n x + best_time s n x < invalid_layout_time" using cut same by simp
  moreover have "0 \<le> rest_time s n x"
    using rest_nonneg [OF g(1) _ v, of n] assms(2) rest by (simp add: feasible_def)
  ultimately have "best_time s n x = node_time s n x k"
    using assms(6) unfolding best_time_def by linarith
  then have t: "total_time s (x(n := k)) = total_time s' x"
    using cut same rest node total_split [OF g v] by simp
  have "total_time s (x(n := k)) \<le> total_time s z" if "valid_choice s z" for z
    using that assms(4) reduced_le [OF assms(1,3) that] t
    by (fastforce simp: least_choice_def valid_reduced [OF assms(3)])
  with v show ?thesis by (simp add: least_choice_def)
qed

section \<open>Buckets\<close>

lemma bucketed_cong:
  assumes "bucketed bs d L" "\<And>v. v \<in> L \<Longrightarrow> d v = d' v"
  shows "bucketed bs d' L"
proof -
  have "{v \<in> L. d v = k} = {v \<in> L. d' v = k}" for k using assms(2) by auto
  then show ?thesis using assms by (simp add: bucketed_def)
qed

lemma bucketed_live:
  assumes "bucketed bs d L"
  shows "set (concat bs) = L"
proof -
  have "(\<exists>b\<in>set bs. v \<in> set b) \<longleftrightarrow> v \<in> L" for v
  proof
    assume "\<exists>b\<in>set bs. v \<in> set b"
    then obtain k where "k < length bs" "v \<in> set (bs ! k)" by (metis in_set_conv_nth)
    then show "v \<in> L" using assms by (auto simp: bucketed_def)
  next
    assume "v \<in> L"
    then have "d v < length bs" "v \<in> set (bs ! d v)" using assms by (auto simp: bucketed_def)
    then show "\<exists>b\<in>set bs. v \<in> set b" by (meson nth_mem)
  qed
  then show ?thesis by auto
qed

lemma bucket_remove_ok:
  assumes "bucketed bs d L" "v \<in> L"
  shows "\<exists>bs'. bucket_remove (d v) v bs = Inr bs' \<and> length bs' = length bs \<and> bucketed bs' d (L - {v})"
proof -
  have "d v < length bs" "v \<in> set (bs ! d v)" using assms by (auto simp: bucketed_def)
  then have "bucket_remove (d v) v bs = Inr (bs[d v := remove1 v (bs ! d v)])"
    by (simp add: bucket_remove_def py_remove_def)
  moreover have "bucketed (bs[d v := remove1 v (bs ! d v)]) d (L - {v})"
    using assms by (auto simp: bucketed_def nth_list_update distinct_remove1)
  ultimately show ?thesis by simp
qed

lemma bucket_insert_ok:
  assumes "bucketed bs d L" "v \<notin> L" "k < length bs"
  shows "\<exists>bs'. bucket_insert k v bs = Inr bs' \<and> length bs' = length bs \<and> bucketed bs' (d(v := k)) (insert v L)"
  using assms by (auto simp: bucket_insert_def bucketed_def nth_list_update)

definition degrees_at :: "pbqp \<Rightarrow> (nat \<Rightarrow> nat) \<Rightarrow> nat set \<Rightarrow> bool" where
  "degrees_at s d L \<longleftrightarrow> bucketed (pb_buckets s) d L \<and> (\<forall>v\<in>L. map_of (pb_degree s) v = Some (d v))"

lemma degrees_at_cong: "degrees_at s d L \<Longrightarrow> (\<And>v. v \<in> L \<Longrightarrow> d v = d' v) \<Longrightarrow> degrees_at s d' L"
  unfolding degrees_at_def using bucketed_cong by fastforce

text \<open>States that differ in their buckets only.\<close>

definition same_graph :: "pbqp \<Rightarrow> pbqp \<Rightarrow> bool" where
  "same_graph s s' \<longleftrightarrow> pb_adj s' = pb_adj s \<and> pb_rec s' = pb_rec s \<and> pb_ltf s' = pb_ltf s \<and>
     pb_heap s' = pb_heap s \<and> pb_max s' = pb_max s \<and> pb_stack s' = pb_stack s \<and> pb_opt s' = pb_opt s \<and>
     pb_is_optimal s' = pb_is_optimal s \<and> length (pb_buckets s') = length (pb_buckets s)"

lemma same_graph_nbs: "same_graph s s' \<Longrightarrow> nbs s' = nbs s"
  by (simp add: same_graph_def nbs_def fun_eq_iff)

lemma reorder_one_ok:
  assumes "degrees_at s d L" "a \<in> L" "map_of (pb_adj s) a = Some (nbs s a)" "length (nbs s a) < length (pb_buckets s)"
  shows "\<exists>s'. reorder_one a s = Inr s' \<and> same_graph s s' \<and> degrees_at s' (d(a := length (nbs s a))) L"
proof (cases "d a = length (nbs s a)")
  case True
  then have "map_of (pb_degree s) a = Some (length (nbs s a))" "d(a := length (nbs s a)) = d"
    using assms(1,2) by (auto simp: degrees_at_def)
  then show ?thesis using assms by (simp add: reorder_one_def get_degree_def dict_get_def same_graph_def)
next
  case False
  have b: "bucketed (pb_buckets s) d L" "map_of (pb_degree s) a = Some (d a)"
    using assms(1,2) by (simp_all add: degrees_at_def)
  obtain bs1 where 1: "bucket_remove (d a) a (pb_buckets s) = Inr bs1"
    "length bs1 = length (pb_buckets s)" "bucketed bs1 d (L - {a})"
    using bucket_remove_ok [OF b(1) assms(2)] by blast
  obtain bs2 where 2: "bucket_insert (length (nbs s a)) a bs1 = Inr bs2" "length bs2 = length bs1"
    "bucketed bs2 (d(a := length (nbs s a))) (insert a (L - {a}))"
    using bucket_insert_ok [OF 1(3), of a "length (nbs s a)"] assms(4) 1(2) by auto
  then show ?thesis using assms False b(2) 1
    by (auto simp: reorder_one_def get_degree_def dict_get_def degrees_at_def same_graph_def insert_absorb update_conv)
qed

lemma reorder_all_ok:
  assumes "degrees_at s d L" "set vs \<subseteq> L"
    and "\<And>a. a \<in> set vs \<Longrightarrow> map_of (pb_adj s) a = Some (nbs s a) \<and> length (nbs s a) < length (pb_buckets s)"
  shows "\<exists>s'. foldR reorder_one vs s = Inr s' \<and> same_graph s s' \<and>
    degrees_at s' (\<lambda>v. if v \<in> set vs then length (nbs s v) else d v) L"
  using assms
proof (induction vs arbitrary: s d)
  case Nil
  then show ?case by (simp add: same_graph_def)
next
  case (Cons a vs)
  obtain s1 where 1: "reorder_one a s = Inr s1" "same_graph s s1" "degrees_at s1 (d(a := length (nbs s a))) L"
    using reorder_one_ok [OF Cons.prems(1), of a] Cons.prems(2,3) by auto
  note e = 1(2) [unfolded same_graph_def] same_graph_nbs [OF 1(2)]
  obtain s2 where 2: "foldR reorder_one vs s1 = Inr s2" "same_graph s1 s2"
    "degrees_at s2 (\<lambda>v. if v \<in> set vs then length (nbs s1 v) else (d(a := length (nbs s a))) v) L"
    using Cons.IH [OF 1(3)] Cons.prems(2,3) e by auto
  have "degrees_at s2 (\<lambda>v. if v \<in> set (a # vs) then length (nbs s v) else d v) L"
    by (rule degrees_at_cong [OF 2(3)]) (simp add: e)
  then show ?case using 1(1,2) 2(1,2) by (simp add: same_graph_def)
qed

section \<open>Finishing a node\<close>

lemma drop_inputs_ok:
  assumes "distinct vs" "\<And>a. a \<in> set vs \<Longrightarrow> \<exists>as. map_of adj a = Some as \<and> n \<in> set as"
  shows "\<exists>adj'. foldR (drop_input n) vs adj = Inr adj' \<and>
    map_of adj' = (\<lambda>v. if v \<in> set vs then Some (remove1 n (the (map_of adj v))) else map_of adj v)"
  using assms
proof (induction vs arbitrary: adj)
  case (Cons a vs)
  obtain as where a: "map_of adj a = Some as" "n \<in> set as" using Cons.prems(2) by auto
  let ?adj = "AList.update a (remove1 n as) adj"
  have d: "drop_input n a adj = Inr ?adj" using a by (simp add: drop_input_def dict_get_def py_remove_def)
  have "\<exists>bs. map_of ?adj b = Some bs \<and> n \<in> set bs" if "b \<in> set vs" for b
    using Cons.prems that by (auto simp: update_conv)
  from Cons.IH [OF _ this] Cons.prems(1) obtain adj' where "foldR (drop_input n) vs ?adj = Inr adj'"
    "map_of adj' = (\<lambda>v. if v \<in> set vs then Some (remove1 n (the (map_of ?adj v))) else map_of ?adj v)" by auto
  then show ?case using d a Cons.prems(1) by (auto simp: update_conv fun_eq_iff)
qed (simp add: fun_eq_iff)

lemma finish_ok:
  assumes "degrees_at s d L" "n \<in> L" "d n = length (nbs s n)"
    and "map_of (pb_adj s) n = Some (nbs s n)" "distinct (nbs s n)" "set (nbs s n) \<subseteq> L - {n}"
    and "\<And>a. a \<in> set (nbs s n) \<Longrightarrow> map_of (pb_adj s) a = Some (nbs s a) \<and> n \<in> set (nbs s a) \<and>
      length (nbs s a) \<le> length (pb_buckets s)"
  shows "\<exists>s' adj'. finish_node n s = Inr s' \<and>
    map_of adj' = (\<lambda>v. if v \<in> set (nbs s n) then Some (remove1 n (nbs s v)) else map_of (pb_adj s) v) \<and>
    same_graph (s\<lparr>pb_adj := adj', pb_stack := pb_stack s @ [n]\<rparr>) s' \<and>
    degrees_at s' (\<lambda>v. if v \<in> set (nbs s n) then length (nbs s v) - 1 else d v) (L - {n})"
proof -
  obtain bs where bs: "bucket_remove (length (nbs s n)) n (pb_buckets s) = Inr bs"
    "length bs = length (pb_buckets s)" "bucketed bs d (L - {n})"
    using bucket_remove_ok [of "pb_buckets s" d L n] assms(1-3) by (auto simp: degrees_at_def)
  have "\<exists>as. map_of (pb_adj s) a = Some as \<and> n \<in> set as" if "a \<in> set (nbs s n)" for a
    using assms(7) [OF that] by blast
  from drop_inputs_ok [OF assms(5) this] obtain adj' where
    adj: "foldR (drop_input n) (nbs s n) (pb_adj s) = Inr adj'"
    "map_of adj' = (\<lambda>v. if v \<in> set (nbs s n) then Some (remove1 n (nbs s v)) else map_of (pb_adj s) v)"
    unfolding nbs_def [symmetric] by blast
  define s1 where "s1 = s\<lparr>pb_buckets := bs, pb_adj := adj'\<rparr>"
  have rm: "remove_node n s = Inr s1" using assms(4) bs(1) adj(1) by (simp add: remove_node_def dict_get_def s1_def)
  have n1: "nbs s1 a = remove1 n (nbs s a) \<and> map_of (pb_adj s1) a = Some (nbs s1 a)" if "a \<in> set (nbs s n)" for a
    using that adj(2) by (simp add: s1_def nbs_def)
  have len: "length (remove1 n (nbs s a)) = length (nbs s a) - 1 \<and> length (nbs s a) - 1 < length bs" if "a \<in> set (nbs s n)" for a
  proof -
    have n: "n \<in> set (nbs s a)" "length (nbs s a) \<le> length bs" using assms(7) [OF that] bs(2) by simp_all
    then have "0 < length (nbs s a)" by (intro length_pos_if_in_set)
    with n show ?thesis by (intro conjI, simp add: length_remove1, linarith)
  qed
  have "degrees_at s1 d (L - {n})" using assms(1) bs(3) by (simp add: degrees_at_def s1_def)
  then obtain s2 where s2: "foldR reorder_one (nbs s n) s1 = Inr s2" "same_graph s1 s2"
    "degrees_at s2 (\<lambda>v. if v \<in> set (nbs s n) then length (nbs s1 v) else d v) (L - {n})"
    using reorder_all_ok [of s1 d "L - {n}" "nbs s n"] assms(6) n1 len by (auto simp: s1_def)
  have "map_of (pb_adj s1) n = Some (nbs s n)" using assms(4,6) adj(2) by (auto simp: s1_def)
  then have re: "reorder_adj_nodes n s1 = Inr s2" using s2(1) by (simp add: reorder_adj_nodes_def dict_get_def)
  define s' where "s' = s2\<lparr>pb_stack := pb_stack s2 @ [n]\<rparr>"
  have "finish_node n s = Inr s'" by (simp add: finish_node_def rm re s'_def)
  moreover have "same_graph (s\<lparr>pb_adj := adj', pb_stack := pb_stack s @ [n]\<rparr>) s'"
    using s2(2) bs(2) by (simp add: same_graph_def s'_def s1_def)
  moreover have "degrees_at s' (\<lambda>v. if v \<in> set (nbs s n) then length (nbs s v) - 1 else d v) (L - {n})"
    using degrees_at_cong [OF s2(3), of "\<lambda>v. if v \<in> set (nbs s n) then length (nbs s v) - 1 else d v"] n1 len
    by (simp add: s'_def degrees_at_def)
  moreover have "map_of adj' = (\<lambda>v. if v \<in> set (nbs s n) then Some (remove1 n (nbs s v)) else map_of (pb_adj s) v)"
    using adj(2) .
  ultimately show ?thesis by blast
qed

text \<open>
  The part that all reductions share: once the costs of the others account for the node at its best,
  finishing it is a reduction.
\<close>

definition accounted :: "pbqp \<Rightarrow> nat \<Rightarrow> ((nat \<Rightarrow> nat) \<Rightarrow> rat) \<Rightarrow> pbqp \<Rightarrow> bool" where
  "accounted s n e t \<longleftrightarrow>
     pb_buckets t = pb_buckets s \<and> pb_degree t = pb_degree s \<and> pb_max t = pb_max s \<and>
     pb_stack t = pb_stack s \<and>
     graph_ok t \<and> costs_ok t \<and> unshared t \<and> frozen s t (live s - {n}) \<and>
     (\<forall>v. v \<notin> set (nbs s n) \<longrightarrow> nbs t v = nbs s v) \<and>
     (\<forall>v\<in>set (nbs s n). length (nbs t v) \<le> Suc (length (nbs s v))) \<and>
     (\<forall>v\<in>live s. choices t v = choices s v) \<and> (nonneg s \<longrightarrow> nonneg t) \<and>
     (\<forall>x. valid_choice s x \<longrightarrow> rest_time t n x = rest_time s n x + e x)"

lemma finished_graph:
  assumes "graph_ok t" "n \<in> live t" "live s' = live t - {n}"
    and "map_of (pb_adj s') = (\<lambda>v. if v \<in> set (nbs t n) then Some (remove1 n (nbs t v)) else map_of (pb_adj t) v)"
  shows "v \<in> live s' \<Longrightarrow> set (nbs s' v) = set (nbs t v) - {n}"
    and "graph_ok s'" and "edge_set s' \<subseteq> edge_set t"
proof -
  have n: "nbs s' v = (if v \<in> set (nbs t n) then remove1 n (nbs t v) else nbs t v)" for v
    using assms(4) by (simp add: nbs_def)
  show nb: "set (nbs s' v) = set (nbs t v) - {n}" if "v \<in> live s'" for v
  proof -
    have v: "v \<in> live t" using that assms(3) by simp
    from n graph_okD(2) [OF assms(1) v] graph_okD(5) [OF assms(1) v, of n] graph_okD(5) [OF assms(1,2), of v] v
    show ?thesis by (auto simp: set_remove1_eq)
  qed
  have "v \<in> fst ` set (pb_adj s') \<longleftrightarrow> v \<in> fst ` set (pb_adj t)" for v
  proof -
    have "map_of (pb_adj s') v = None \<longleftrightarrow> map_of (pb_adj t) v = None"
      using assms(4) graph_okD(3) [OF assms(1,2)] graph_okD(1) [OF assms(1)] by (auto simp: fun_eq_iff)
    then show ?thesis by (simp add: map_of_eq_None_iff)
  qed
  note keys = this
  show "edge_set s' \<subseteq> edge_set t"
    using keys n set_remove1_subset [of n] by (fastforce simp: edge_set_def split: if_splits)
  show "graph_ok s'"
    using assms(1,3) nb n keys by (auto simp: graph_ok_def intro: distinct_remove1)
qed

lemma finish_accounted:
  assumes ok: "pbqp_ok s" and n: "n \<in> live s" and acc: "accounted s n e t"
  shows "\<exists>s'. finish_node n t = Inr s' \<and>
    map_of (pb_adj s') = (\<lambda>v. if v \<in> set (nbs t n) then Some (remove1 n (nbs t v)) else map_of (pb_adj t) v) \<and>
    (\<exists>adj. same_graph (t\<lparr>pb_adj := adj, pb_stack := pb_stack t @ [n]\<rparr>) s') \<and>
    degrees_at s' (\<lambda>v. if v \<in> set (nbs t n) then length (nbs t v) - 1 else length (nbs s v)) (live s - {n})"
proof -
  have g: "graph_ok s" and deg: "degrees_ok s" using ok by (simp_all add: pbqp_ok_def)
  have gt: "graph_ok t" and lt: "live t = live s" and nn: "nbs t n = nbs s n"
    and eq: "pb_buckets t = pb_buckets s" "pb_degree t = pb_degree s"
    using acc graph_okD(4) [OF g n] by (auto simp: accounted_def live_def)
  have at: "degrees_at t (\<lambda>v. length (nbs s v)) (live s)"
    using deg eq by (simp add: degrees_at_def degrees_ok_def)
  have nb: "map_of (pb_adj t) a = Some (nbs t a) \<and> n \<in> set (nbs t a) \<and> length (nbs t a) \<le> length (pb_buckets t)"
    if a: "a \<in> set (nbs t n)" for a
  proof -
    have l: "a \<in> live s" "n \<in> set (nbs t a)" using graph_okD(5) [OF gt, of n a] n a lt by simp_all
    then have "int (length (nbs s a)) \<le> pb_max s" "int (length (pb_buckets s)) = pb_max s + 2"
      using deg by (simp_all add: degrees_ok_def)
    moreover have "length (nbs t a) \<le> Suc (length (nbs s a))" using acc a nn by (simp add: accounted_def)
    ultimately show ?thesis using l graph_okD(1) [OF gt] lt eq by auto
  qed
  have "map_of (pb_adj t) n = Some (nbs t n)" "distinct (nbs t n)" "set (nbs t n) \<subseteq> live s - {n}"
    using graph_okD(1-4) [OF gt, of n] n lt by auto
  from finish_ok [OF at n _ this nb] nn obtain s' adj where f: "finish_node n t = Inr s'"
    "map_of adj = (\<lambda>v. if v \<in> set (nbs t n) then Some (remove1 n (nbs t v)) else map_of (pb_adj t) v)"
    "same_graph (t\<lparr>pb_adj := adj, pb_stack := pb_stack t @ [n]\<rparr>) s'"
    "degrees_at s' (\<lambda>v. if v \<in> set (nbs t n) then length (nbs t v) - 1 else length (nbs s v)) (live s - {n})"
    by auto
  moreover from f(3) have "pb_adj s' = adj" by (simp add: same_graph_def)
  ultimately show ?thesis by blast
qed

lemma reduction_step:
  assumes ok: "pbqp_ok s" and n: "n \<in> live s" and acc: "accounted s n e t"
  shows "\<exists>s'. finish_node n t = Inr s' \<and> shrunk s n e s' \<and> pb_opt s' = pb_opt t \<and> pb_is_optimal s' = pb_is_optimal t"
proof -
  let ?L = "live s - {n}"
  have deg: "degrees_ok s" using ok by (simp add: pbqp_ok_def)
  have gt: "graph_ok t" and lt: "live t = live s" and nn: "nbs t n = nbs s n"
    using acc ok graph_okD(4) [OF _ n] by (auto simp: accounted_def live_def pbqp_ok_def)
  obtain s' adj where f: "finish_node n t = Inr s'"
    and m: "map_of (pb_adj s') = (\<lambda>v. if v \<in> set (nbs t n) then Some (remove1 n (nbs t v)) else map_of (pb_adj t) v)"
    and sg: "same_graph (t\<lparr>pb_adj := adj, pb_stack := pb_stack t @ [n]\<rparr>) s'"
    and at: "degrees_at s' (\<lambda>v. if v \<in> set (nbs t n) then length (nbs t v) - 1 else length (nbs s v)) ?L"
    using finish_accounted [OF ok n acc] by blast
  have same: "pb_rec s' = pb_rec t" "pb_ltf s' = pb_ltf t" "pb_heap s' = pb_heap t" "pb_max s' = pb_max s"
    "length (pb_buckets s') = length (pb_buckets s)" "pb_stack s' = pb_stack s @ [n]"
    "pb_opt s' = pb_opt t" "pb_is_optimal s' = pb_is_optimal t"
    using sg acc by (simp_all add: same_graph_def accounted_def)
  have live': "live s' = ?L"
    using bucketed_live [OF at [unfolded degrees_at_def, THEN conjunct1]] by (simp only: live_def [symmetric])
  have fin: "\<And>v. v \<in> ?L \<Longrightarrow> set (nbs s' v) = set (nbs t v) - {n}" "graph_ok s'" "edge_set s' \<subseteq> edge_set t"
    using finished_graph [OF gt _ _ m] n lt live' by simp_all
  have t': "times s' = times t" "costs_of s' = costs_of t" using same by (simp_all add: times_def costs_of_def fun_eq_iff)
  have "degrees_ok s'"
  proof -
    have len: "length (nbs s' v) = (if v \<in> set (nbs t n) then length (nbs t v) - 1 else length (nbs s v))"
      if "v \<in> ?L" for v
    proof -
      have "n \<in> set (nbs t v)" if "v \<in> set (nbs t n)" using graph_okD(5) [OF gt, of n v] n lt that by simp
      moreover have "nbs s' v = (if v \<in> set (nbs t n) then remove1 n (nbs t v) else nbs t v)" using m by (simp add: nbs_def)
      ultimately show ?thesis using acc nn by (auto simp: length_remove1 accounted_def)
    qed
    have "degrees_at s' (\<lambda>v. length (nbs s' v)) ?L" by (rule degrees_at_cong [OF at]) (simp add: len)
    moreover have "length (nbs s' v) \<le> length (nbs s v)" if "v \<in> ?L" for v
      using len [OF that] acc nn by (auto simp: accounted_def)
    ultimately show ?thesis using deg same(4,5) live' by (fastforce simp: degrees_ok_def degrees_at_def)
  qed
  moreover have "costs_ok s'"
    using acc live' lt fin(1) same(1) by (auto simp: costs_ok_def accounted_def t')
  moreover have "unshared s'"
    using acc same(2,3) fin(3) by (auto simp: unshared_def accounted_def intro: inj_on_subset)
  moreover have "total_time s' x = rest_time t n x" for x
    unfolding total_time_def rest_time_def using live' lt fin(1) by (simp add: t')
  moreover have "frozen s s' ?L"
  proof -
    have "map_of (pb_adj s') v = map_of (pb_adj t) v" if "v \<notin> ?L" for v
      using that m graph_okD(3,4) [OF gt, of n] n lt by auto
    then show ?thesis using acc same(1,2) by (simp add: frozen_def accounted_def t')
  qed
  moreover have "nonneg s \<longrightarrow> nonneg s'"
    using acc live' lt fin(1) by (auto simp: nonneg_def accounted_def t')
  ultimately have "shrunk s n e s'"
    using n live' same acc t' fin(2) by (auto simp: shrunk_def pbqp_ok_def accounted_def)
  with f same(7,8) show ?thesis by blast
qed

section \<open>Loops over cost vectors\<close>

lemma min_loop:
  assumes "\<And>x m. x \<in> set xs \<Longrightarrow> f x m = Inr (min m (g x))" "xs \<noteq> []"
  shows "foldR f xs m = Inr (min m (Min (g ` set xs)))"
  using assms
proof (induction xs arbitrary: m)
  case (Cons x xs)
  show ?case
  proof (cases "xs = []")
    case True
    then show ?thesis using Cons.prems(1) by simp
  next
    case False
    then show ?thesis using Cons.IH [of "min m (g x)"] Cons.prems(1) by (simp add: min.assoc)
  qed
qed simp

lemma add_at_loop:
  assumes "length ds = length cs"
  shows "foldR (\<lambda>(i, d). add_at i d) (enumerate (length ps) ds) (ps @ cs) = Inr (ps @ map2 (+) cs ds)"
  using assms
proof (induction ds arbitrary: ps cs)
  case (Cons d ds)
  then obtain c cs' where cs: "cs = c # cs'" by (cases cs) auto
  then show ?case using Cons.IH [of cs' "ps @ [c + d]"] Cons.prems by (simp add: add_at_def)
qed simp

lemma add_rec_loop:
  assumes "map_of (pb_rec s) v = Some cs"
  shows "foldR (\<lambda>(i, d). add_rec v i d) xs s =
    bindR (foldR (\<lambda>(i, d). add_at i d) xs cs) (\<lambda>cs'. Inr (s\<lparr>pb_rec := AList.update v cs' (pb_rec s)\<rparr>))"
  using assms
proof (induction xs arbitrary: s cs)
  case Nil
  then show ?case by (simp add: update_triv)
next
  case (Cons x xs)
  obtain i d where x: "x = (i, d)" by force
  have r: "add_rec v i d s = bindR (add_at i d cs) (\<lambda>cs'. Inr (s\<lparr>pb_rec := AList.update v cs' (pb_rec s)\<rparr>))"
    using Cons.prems by (simp add: add_rec_def rec_of_def dict_get_def)
  show ?case
  proof (cases "add_at i d cs")
    case (Inl e)
    then show ?thesis by (simp add: x r)
  next
    case (Inr cs1)
    have "map_of (pb_rec (s\<lparr>pb_rec := AList.update v cs1 (pb_rec s)\<rparr>)) v = Some cs1" by (simp add: update_conv)
    from Cons.IH [OF this] Inr show ?thesis by (simp add: x r)
  qed
qed

lemma enumerate_image: "f ` set (enumerate 0 xs) = (\<lambda>i. f (i, xs ! i)) ` {..<length xs}"
  by (force simp: in_set_enumerate_eq)

lemma enumerate_map: "enumerate i (map c xs) = map (\<lambda>(i, x). (i, c x)) (enumerate i xs)"
  by (induction xs arbitrary: i) simp_all

section \<open>One neighbour\<close>

text \<open>What the node costs at best when its neighbour takes its \<open>i\<close>-th schedule.\<close>

definition best_leaf :: "pbqp \<Rightarrow> nat \<Rightarrow> rat list \<Rightarrow> rat" where
  "best_leaf s n vec = min invalid_layout_time (Min ((\<lambda>j. vec ! j + costs_of s n ! j) ` {..<choices s n}))"

lemma RI_inner:
  assumes "rec_of t n = Inr (costs_of s n)" "length vec = choices s n" "costs_of s n \<noteq> []"
  shows "foldR (\<lambda>(j, cost) min_cost. bindR (rec_of t n) (\<lambda>cs. bindR (py_get cs (int j)) (\<lambda>c.
             Inr (min min_cost (cost + c))))) (enumerate 0 vec) invalid_layout_time = Inr (best_leaf s n vec)"
proof -
  have "vec \<noteq> []" using assms(2,3) by auto
  have "foldR (\<lambda>(j, cost) min_cost. bindR (rec_of t n) (\<lambda>cs. bindR (py_get cs (int j)) (\<lambda>c.
             Inr (min min_cost (cost + c))))) (enumerate 0 vec) invalid_layout_time =
      Inr (min invalid_layout_time (Min ((\<lambda>(j, cost). cost + costs_of s n ! j) ` set (enumerate 0 vec))))"
  proof (intro min_loop)
    show "enumerate 0 vec \<noteq> []" using \<open>vec \<noteq> []\<close> by (cases vec) simp_all
  qed (use assms(1,2) in \<open>auto simp: in_set_enumerate_eq\<close>)
  then show ?thesis using assms(2) by (simp add: enumerate_image best_leaf_def)
qed

definition leaf_costs :: "pbqp \<Rightarrow> nat \<Rightarrow> nat \<Rightarrow> rat list" where
  "leaf_costs s n a = map2 (+) (costs_of s a) (map (best_leaf s n) (times s a n))"

lemma RI_loop:
  assumes "pbqp_ok s" "n \<in> live s" "nbs s n = [a]"
  shows "foldR (\<lambda>(i, cost_vec) s.
         bindR (foldR (\<lambda>(j, cost) min_cost. bindR (rec_of s n) (\<lambda>cs. bindR (py_get cs (int j)) (\<lambda>c.
             Inr (min min_cost (cost + c))))) (enumerate 0 cost_vec) invalid_layout_time) (\<lambda>min_cost.
           add_rec a i min_cost s)) (enumerate 0 (times s a n)) s =
    Inr (s\<lparr>pb_rec := AList.update a (leaf_costs s n a) (pb_rec s)\<rparr>)"
    (is "foldR ?f _ s = _")
proof -
  have g: "graph_ok s" "costs_ok s" using assms(1) by (simp_all add: pbqp_ok_def)
  have a: "a \<in> live s" "a \<noteq> n" "n \<in> set (nbs s a)"
    using graph_okD(4) [OF g(1) assms(2)] graph_okD(5) [OF g(1) assms(2), of a] assms(3) by simp_all
  have c: "map_of (pb_rec s) a = Some (costs_of s a)" "map_of (pb_rec s) n = Some (costs_of s n)" "costs_of s n \<noteq> []"
    and m: "matrix_ok (choices s a) (choices s n) (times s a n)"
    using g(2) a assms(2) unfolding costs_ok_def rec_entry by blast+
  have "foldR ?f (enumerate 0 (times s a n)) s =
      foldR (\<lambda>(i, vec). add_rec a i (best_leaf s n vec)) (enumerate 0 (times s a n)) s"
  proof (rule foldR_agree [where P = "\<lambda>t. rec_of t n = Inr (costs_of s n)"])
    show "rec_of s n = Inr (costs_of s n)" using c(2) by (simp add: rec_of_def dict_get_def)
  next
    fix x :: "nat \<times> rat list" and t
    assume x: "x \<in> set (enumerate 0 (times s a n))" and t: "rec_of t n = Inr (costs_of s n)"
    obtain i vec where v: "x = (i, vec)" by force
    with x have "vec \<in> set (times s a n)" by (auto simp: in_set_enumerate_eq)
    with m have len: "length vec = choices s n" by (simp add: matrix_ok_def)
    with v RI_inner [OF t len c(3)] show "?f x t = (case x of (i, vec) \<Rightarrow> add_rec a i (best_leaf s n vec)) t" by simp
    show "rec_of t' n = Inr (costs_of s n)"
      if "(case x of (i, vec) \<Rightarrow> add_rec a i (best_leaf s n vec)) t = Inr t'" for t'
      using that t a(2) v by (auto simp: add_rec_def bindR_Inr_iff rec_of_def)
  qed
  also have "\<dots> = foldR (\<lambda>(i, d). add_rec a i d) (enumerate 0 (map (best_leaf s n) (times s a n))) s"
    by (simp add: enumerate_map foldR_map case_prod_unfold)
  also have "\<dots> = Inr (s\<lparr>pb_rec := AList.update a (leaf_costs s n a) (pb_rec s)\<rparr>)"
    using add_at_loop [of "map (best_leaf s n) (times s a n)" "costs_of s a" "[]"] m
    by (simp add: add_rec_loop [OF c(1)] matrix_ok_def leaf_costs_def)
  finally show ?thesis .
qed

lemma best_time_leaf:
  assumes "graph_ok s" "costs_ok s" "n \<in> live s" "nbs s n = [a]" "x a < choices s a"
  shows "best_time s n x = best_leaf s n (times s a n ! x a)"
proof -
  have "a \<in> live s" "n \<in> set (nbs s a)" using graph_okD(5) [OF assms(1,3), of a] assms(4) by simp_all
  then have "times s n a ! j ! x a = times s a n ! x a ! j" if "j < choices s n" for j
    using assms(2,5) that by (simp add: costs_ok_def)
  then have "node_time s n x ` {..<choices s n} = (\<lambda>j. times s a n ! x a ! j + costs_of s n ! j) ` {..<choices s n}"
    using assms(4) by (intro image_cong refl) (simp add: node_time_def)
  then show ?thesis by (simp add: best_time_def best_leaf_def)
qed

lemma best_leaf_nonneg:
  assumes "nonneg s" "n \<in> live s" "costs_of s n \<noteq> []" "\<And>j. j < choices s n \<Longrightarrow> 0 \<le> vec ! j"
  shows "0 \<le> best_leaf s n vec"
proof -
  have "0 \<le> vec ! j + costs_of s n ! j" if "j < choices s n" for j
    using assms that by (simp add: nonneg_def)
  moreover have "{..<choices s n} \<noteq> {}" using assms(3) by (simp add: lessThan_empty_iff)
  ultimately show ?thesis by (simp add: best_leaf_def invalid_layout_time_def)
qed

lemma leaf_entry:
  assumes "matrix_ok (choices s a) (choices s n) (times s a n)"
  shows "length (leaf_costs s n a) = choices s a"
    and "i < choices s a \<Longrightarrow> leaf_costs s n a ! i = costs_of s a ! i + best_leaf s n (times s a n ! i)"
  using assms by (simp_all add: leaf_costs_def matrix_ok_def)

text \<open>Reductions that change the cost vectors of the neighbours only.\<close>

lemma costs_accounted:
  assumes ok: "pbqp_ok s" and n: "n \<in> live s"
    and eq: "pb_adj t = pb_adj s" "pb_ltf t = pb_ltf s" "pb_heap t = pb_heap s" "pb_buckets t = pb_buckets s"
      "pb_degree t = pb_degree s" "pb_max t = pb_max s" "pb_stack t = pb_stack s"
    and old: "\<And>v. v \<notin> set (nbs s n) \<Longrightarrow> map_of (pb_rec t) v = map_of (pb_rec s) v"
    and new: "\<And>v. v \<in> set (nbs s n) \<Longrightarrow> map_of (pb_rec t) v = Some (costs_of t v) \<and> choices t v = choices s v \<and>
      (\<forall>i<choices s v. costs_of t v ! i = costs_of s v ! i + d v i)"
    and pos: "nonneg s \<Longrightarrow> \<forall>v\<in>set (nbs s n). \<forall>i<choices s v. 0 \<le> d v i"
    and e: "\<And>x. valid_choice s x \<Longrightarrow> e x = (\<Sum>v\<in>set (nbs s n). d v (x v))"
  shows "accounted s n e t"
  unfolding accounted_def
proof (intro conjI allI impI ballI)
  have g: "graph_ok s" "costs_ok s" using ok by (simp_all add: pbqp_ok_def)
  have sub: "set (nbs s n) \<subseteq> live s - {n}" using graph_okD(3,4) [OF g(1) n] by blast
  have same: "live t = live s" "nbs t = nbs s" "times t = times s" "edge_set t = edge_set s"
    by (simp_all add: eq live_def nbs_def times_def edge_set_def fun_eq_iff)
  have c: "costs_of t v = costs_of s v" if "v \<notin> set (nbs s n)" for v using old [OF that] by (simp add: costs_of_def)
  have ch: "choices t v = choices s v" for v using c new by (cases "v \<in> set (nbs s n)") simp_all
  have "\<forall>v\<in>live t. v \<in> fst ` set (pb_rec t) \<and> costs_of t v \<noteq> []"
  proof
    fix v
    assume v: "v \<in> live t"
    have "v \<in> fst ` set (pb_rec s)" "costs_of s v \<noteq> []" using g(2) v by (simp_all add: costs_ok_def same)
    then have "map_of (pb_rec t) v = Some (costs_of t v)"
      using old [of v] new [of v] by (cases "v \<in> set (nbs s n)") (simp_all add: rec_entry c)
    moreover have "costs_of t v \<noteq> []" using ch [of v] \<open>costs_of s v \<noteq> []\<close> by (metis length_0_conv)
    ultimately show "v \<in> fst ` set (pb_rec t) \<and> costs_of t v \<noteq> []" by (simp add: rec_entry)
  qed
  moreover have "\<forall>v\<in>live t. \<forall>u\<in>set (nbs t v). matrix_ok (choices t v) (choices t u) (times t v u) \<and>
      (\<forall>i<choices t v. \<forall>j<choices t u. times t v u ! i ! j = times t u v ! j ! i)"
    unfolding same ch by (rule conjunct2 [OF g(2) [unfolded costs_ok_def]])
  ultimately show "costs_ok t" unfolding costs_ok_def by (rule conjI)
  show "nonneg t" if nn: "nonneg s"
  proof -
    have "0 \<le> costs_of t v ! i" if "v \<in> live s" "i < choices s v" for v i
      using nn new [of v] pos [OF nn] that by (cases "v \<in> set (nbs s n)") (simp_all add: nonneg_def c)
    then show ?thesis using nn by (simp add: nonneg_def same ch)
  qed
  show "rest_time t n x = rest_time s n x + e x" if x: "valid_choice s x" for x
  proof -
    have "costs_of t v ! x v = costs_of s v ! x v + (if v \<in> set (nbs s n) then d v (x v) else 0)" if "v \<in> live s - {n}" for v
      using that x new [of v] by (auto simp: c valid_choice_def)
    then have "(\<Sum>v\<in>live s - {n}. costs_of t v ! x v) = (\<Sum>v\<in>live s - {n}. costs_of s v ! x v) +
        (\<Sum>v\<in>live s - {n}. if v \<in> set (nbs s n) then d v (x v) else 0)"
      by (simp add: sum.distrib)
    also have "(\<Sum>v\<in>live s - {n}. if v \<in> set (nbs s n) then d v (x v) else 0) = e x"
      using e [OF x] sub by (simp add: sum.inter_restrict [symmetric] inf.absorb2)
    finally show ?thesis by (simp add: rest_time_def same)
  qed
  show "frozen s t (live s - {n})" using sub old by (auto simp: frozen_def same eq)
  show "graph_ok t" using g(1) by (simp add: graph_ok_def same eq)
  show "unshared t" using ok by (simp add: pbqp_ok_def unshared_def same eq)
  show "choices t v = choices s v" if "v \<in> live s" for v by (rule ch)
qed (simp_all add: eq nbs_def)

lemma leaf_accounted:
  assumes ok: "pbqp_ok s" and n: "n \<in> live s" and a: "nbs s n = [a]"
  shows "accounted s n (best_time s n) (s\<lparr>pb_rec := AList.update a (leaf_costs s n a) (pb_rec s)\<rparr>)"
proof (rule costs_accounted [OF ok n, where d = "\<lambda>v i. best_leaf s n (times s v n ! i)"])
  have g: "graph_ok s" "costs_ok s" using ok by (simp_all add: pbqp_ok_def)
  have al: "a \<in> live s" "n \<in> set (nbs s a)" using graph_okD(5) [OF g(1) n, of a] a by simp_all
  then have m: "matrix_ok (choices s a) (choices s n) (times s a n)" using g(2) by (simp add: costs_ok_def)
  show "map_of (pb_rec (s\<lparr>pb_rec := AList.update a (leaf_costs s n a) (pb_rec s)\<rparr>)) v =
      Some (costs_of (s\<lparr>pb_rec := AList.update a (leaf_costs s n a) (pb_rec s)\<rparr>) v) \<and>
    choices (s\<lparr>pb_rec := AList.update a (leaf_costs s n a) (pb_rec s)\<rparr>) v = choices s v \<and>
    (\<forall>i<choices s v. costs_of (s\<lparr>pb_rec := AList.update a (leaf_costs s n a) (pb_rec s)\<rparr>) v ! i =
      costs_of s v ! i + best_leaf s n (times s v n ! i))" if "v \<in> set (nbs s n)" for v
    using that a leaf_entry [OF m] by (simp add: update_conv costs_of_def)
  show "\<forall>v\<in>set (nbs s n). \<forall>i<choices s v. 0 \<le> best_leaf s n (times s v n ! i)" if nn: "nonneg s"
  proof (intro ballI allI impI)
    fix v i
    assume "v \<in> set (nbs s n)" "i < choices s v"
    moreover have "costs_of s n \<noteq> []" using g(2) n by (simp add: costs_ok_def)
    ultimately show "0 \<le> best_leaf s n (times s v n ! i)"
      using nn al a by (intro best_leaf_nonneg [OF nn n]) (simp_all add: nonneg_def)
  qed
  show "best_time s n x = (\<Sum>v\<in>set (nbs s n). best_leaf s n (times s v n ! x v))" if "valid_choice s x" for x
    using best_time_leaf [OF g n a, of x] that al a by (simp add: valid_choice_def)
qed (use a in \<open>simp_all add: update_conv\<close>)

lemma RI_reduced:
  assumes ok: "pbqp_ok s" and n: "n \<in> live s" and "length (nbs s n) = 1"
  shows "\<exists>s'. RI_reduction n s = Inr s' \<and> reduced s n s'"
proof -
  obtain a where a: "nbs s n = [a]" using assms(3) by (auto simp: length_Suc_conv)
  have g: "graph_ok s" using ok by (simp add: pbqp_ok_def)
  have "ltf_of s a n = Inr (times s a n)"
    using ok live_edge [OF g n, of a] a by (simp add: pbqp_ok_def ltf_of_edge)
  then have "RI_reduction n s = finish_node n (s\<lparr>pb_rec := AList.update a (leaf_costs s n a) (pb_rec s)\<rparr>)"
    using RI_loop [OF ok n a] graph_okD(1) [OF g n] a by (simp add: RI_reduction_def dict_get_def)
  with reduction_step [OF ok n leaf_accounted [OF ok n a]] show ?thesis by (auto simp: reduced_def)
qed

end
