(* ===== verification/PBQPMerge.thy ===== *)
theory PBQPMerge
  imports PBQPReduction
begin

text \<open>
  The reduction of a node with two neighbours in \<open>pbqp_tuner.py\<close>: what the node costs at best goes to
  the matrices between its neighbours, which are created when there are none.
\<close>

section \<open>More time between two nodes\<close>

text \<open>\<open>t\<close> is \<open>s\<close> with \<open>d i j\<close> more between \<open>x\<close> and \<open>y\<close>, neighbours from now on.\<close>

definition between :: "pbqp \<Rightarrow> nat \<Rightarrow> nat \<Rightarrow> nat \<Rightarrow> nat \<Rightarrow> rat" where
  "between s x y i j = (if y \<in> set (nbs s x) then times s x y ! i ! j else 0)"

definition joined_nbs :: "pbqp \<Rightarrow> nat \<Rightarrow> nat \<Rightarrow> pbqp \<Rightarrow> bool" where
  "joined_nbs s x y t \<longleftrightarrow> fst ` set (pb_adj t) = fst ` set (pb_adj s) \<and>
     (\<forall>v. v \<noteq> x \<longrightarrow> v \<noteq> y \<longrightarrow> map_of (pb_adj t) v = map_of (pb_adj s) v) \<and>
     set (nbs t x) = insert y (set (nbs s x)) \<and> set (nbs t y) = insert x (set (nbs s y)) \<and>
     distinct (nbs t x) \<and> distinct (nbs t y) \<and>
     length (nbs t x) \<le> Suc (length (nbs s x)) \<and> length (nbs t y) \<le> Suc (length (nbs s y))"

definition joined :: "pbqp \<Rightarrow> nat \<Rightarrow> nat \<Rightarrow> (nat \<Rightarrow> nat \<Rightarrow> rat) \<Rightarrow> pbqp \<Rightarrow> bool" where
  "joined s x y d t \<longleftrightarrow> joined_nbs s x y t \<and> unshared t \<and>
     pb_rec t = pb_rec s \<and> pb_buckets t = pb_buckets s \<and> pb_degree t = pb_degree s \<and> pb_max t = pb_max s \<and>
     pb_stack t = pb_stack s \<and> pb_opt t = pb_opt s \<and> pb_is_optimal t = pb_is_optimal s \<and>
     (\<forall>u v. (u, v) \<in> edge_set s \<longrightarrow> {u, v} \<noteq> {x, y} \<longrightarrow>
        map_of (pb_ltf t) (u, v) = map_of (pb_ltf s) (u, v) \<and> times t u v = times s u v) \<and>
     matrix_ok (choices s x) (choices s y) (times t x y) \<and> matrix_ok (choices s y) (choices s x) (times t y x) \<and>
     (\<forall>i<choices s x. \<forall>j<choices s y.
        times t x y ! i ! j = between s x y i j + d i j \<and> times t y x ! j ! i = between s x y i j + d i j)"

lemma joined_set:
  assumes "joined_nbs s x y t" "x \<noteq> y"
  shows "u \<in> set (nbs t v) \<longleftrightarrow> u \<in> set (nbs s v) \<or> (v = x \<and> u = y) \<or> (v = y \<and> u = x)"
proof -
  have "nbs t v = nbs s v" if "v \<noteq> x" "v \<noteq> y"
    using assms(1) that by (simp add: joined_nbs_def nbs_def)
  then show ?thesis using assms by (cases "v = x"; cases "v = y") (auto simp: joined_nbs_def)
qed

text \<open>A sum over neighbours to which two of them add \<open>d\<close> each.\<close>

lemma pair_sum:
  assumes "finite V" "x \<in> V" "y \<in> V" "x \<noteq> y" "\<And>v. finite (N v)" "y \<in> N x" "x \<in> N y"
  shows "(\<Sum>v\<in>V. \<Sum>u\<in>N v. f v u + (if (v = x \<and> u = y) \<or> (v = y \<and> u = x) then d else 0)) =
    (\<Sum>v\<in>V. \<Sum>u\<in>N v. f v u) + 2 * (d :: rat)"
proof -
  have "(\<Sum>u\<in>N v. if (v = x \<and> u = y) \<or> (v = y \<and> u = x) then d else 0) =
      (if v = x then d else if v = y then d else 0)" for v
    using assms(4-7) by (auto simp: sum.delta)
  then have "(\<Sum>v\<in>V. \<Sum>u\<in>N v. if (v = x \<and> u = y) \<or> (v = y \<and> u = x) then d else 0) =
      (\<Sum>v\<in>V. if v = x then d else if v = y then d else 0)" by simp
  also have "\<dots> = (\<Sum>v\<in>V. (if v = x then d else 0) + (if v = y then d else 0))"
    using assms(4) by (intro sum.cong) auto
  also have "\<dots> = 2 * d" using assms(1-3) by (simp add: sum.distrib sum.delta)
  finally show ?thesis by (simp add: sum.distrib)
qed

lemma joined_time:
  assumes g: "graph_ok s" "costs_ok s" and j: "joined s x y d t" "x \<noteq> y" "x \<in> live s" "y \<in> live s"
    and z: "valid_choice s z" and v: "v \<in> live s" "u \<in> set (nbs t v)"
  shows "times t v u ! z v ! z u = (if u \<in> set (nbs s v) then times s v u ! z v ! z u else 0) +
    (if (v = x \<and> u = y) \<or> (v = y \<and> u = x) then d (z x) (z y) else 0)"
proof -
  have jn: "joined_nbs s x y t" using j(1) by (simp add: joined_def)
  have zz: "z x < choices s x" "z y < choices s y" using z j by (simp_all add: valid_choice_def)
  have flip: "between s x y (z x) (z y) = (if x \<in> set (nbs s y) then times s y x ! z y ! z x else 0)"
  proof (cases "y \<in> set (nbs s x)")
    case True
    then have "x \<in> set (nbs s y)" "times s x y ! z x ! z y = times s y x ! z y ! z x"
      using g j(3) zz unfolding graph_ok_def costs_ok_def by blast+
    with True show ?thesis by (simp add: between_def)
  next
    case False
    then have "x \<notin> set (nbs s y)" using graph_okD(5) [OF g(1) j(4), of x] by blast
    with False show ?thesis by (simp add: between_def)
  qed
  consider "v = x" "u = y" | "v = y" "u = x" | "{v, u} \<noteq> {x, y}" by (auto simp: doubleton_eq_iff)
  then show ?thesis
  proof cases
    case 1
    then show ?thesis using j(1,2) zz by (simp add: joined_def between_def)
  next
    case 2
    then show ?thesis using j(1,2) zz flip by (simp add: joined_def)
  next
    case 3
    then have u: "u \<in> set (nbs s v)" using v(2) joined_set [OF jn j(2), of u v] by auto
    then have "(v, u) \<in> edge_set s" using live_edge [OF g(1) v(1)] by simp
    then show ?thesis using j(1) 3 u by (auto simp: joined_def)
  qed
qed

lemma joined_rest:
  assumes g: "graph_ok s" "costs_ok s" and j: "joined s x y d t" "x \<noteq> y" "x \<in> live s - {n}" "y \<in> live s - {n}"
    and z: "valid_choice s z"
  shows "rest_time t n z = rest_time s n z + d (z x) (z y)"
proof -
  let ?V = "live s - {n}"
  let ?N = "\<lambda>v. set (nbs t v) - {n}"
  let ?f = "\<lambda>v u. if u \<in> set (nbs s v) then times s v u ! z v ! z u else 0"
  have nb: "u \<in> set (nbs t v) \<longleftrightarrow> u \<in> set (nbs s v) \<or> (v = x \<and> u = y) \<or> (v = y \<and> u = x)" for u v
    using j(1,2) by (simp add: joined_def joined_set)
  have "(\<Sum>v\<in>?V. \<Sum>u\<in>?N v. times t v u ! z v ! z u) =
      (\<Sum>v\<in>?V. \<Sum>u\<in>?N v. ?f v u + (if (v = x \<and> u = y) \<or> (v = y \<and> u = x) then d (z x) (z y) else 0))"
    by (intro sum.cong refl joined_time [OF g j(1,2) _ _ z]) (use j in auto)
  also have "\<dots> = (\<Sum>v\<in>?V. \<Sum>u\<in>?N v. ?f v u) + 2 * d (z x) (z y)"
    using j by (intro pair_sum) (auto simp: nb)
  also have "(\<Sum>v\<in>?V. \<Sum>u\<in>?N v. ?f v u) = (\<Sum>v\<in>?V. \<Sum>u\<in>set (nbs s v) - {n}. times s v u ! z v ! z u)"
    by (intro sum.cong refl sum.mono_neutral_cong_right) (auto simp: nb)
  finally show ?thesis using j(1)
    by (simp add: rest_time_def joined_def live_def costs_of_def add_divide_distrib)
qed

lemma joined_costs:
  assumes g: "graph_ok s" "costs_ok s" and j: "joined s x y d t" "x \<noteq> y" "x \<in> live s" "y \<in> live s"
  shows "costs_ok t"
    and "nonneg s \<Longrightarrow> \<forall>i<choices s x. \<forall>j<choices s y. 0 \<le> d i j \<Longrightarrow> nonneg t"
proof -
  have same: "live t = live s" "costs_of t = costs_of s" "pb_rec t = pb_rec s"
    using j(1) by (simp_all add: joined_def live_def costs_of_def fun_eq_iff)
  have kinds: "u \<in> set (nbs s v) \<and> {v, u} \<noteq> {x, y} \<and> times t v u = times s v u \<and> times t u v = times s u v \<or>
      v = x \<and> u = y \<or> v = y \<and> u = x" if "v \<in> live s" "u \<in> set (nbs t v)" for u v
  proof (cases "{v, u} = {x, y}")
    case False
    then have u: "u \<in> set (nbs s v)" using that(2) joined_set [of s x y t u v] j by (auto simp: joined_def)
    with live_edge [OF g(1) that(1)] have "(v, u) \<in> edge_set s" "(u, v) \<in> edge_set s" by simp_all
    with u False j(1) show ?thesis by (simp add: joined_def insert_commute)
  qed (auto simp: doubleton_eq_iff)
  have "\<forall>v\<in>live s. \<forall>u\<in>set (nbs t v). matrix_ok (choices s v) (choices s u) (times t v u) \<and>
      (\<forall>i<choices s v. \<forall>j<choices s u. times t v u ! i ! j = times t u v ! j ! i)"
  proof (intro ballI)
    fix v u
    assume v: "v \<in> live s" "u \<in> set (nbs t v)"
    from kinds [OF v] show "matrix_ok (choices s v) (choices s u) (times t v u) \<and>
        (\<forall>i<choices s v. \<forall>j<choices s u. times t v u ! i ! j = times t u v ! j ! i)"
    proof (elim disjE conjE)
      assume e: "u \<in> set (nbs s v)" "times t v u = times s v u" "times t u v = times s u v"
      show ?thesis unfolding e(2,3) using g(2) v(1) e(1) unfolding costs_ok_def by blast
    qed (use j(1) in \<open>simp_all add: joined_def\<close>)
  qed
  then show "costs_ok t" using g(2) unfolding costs_ok_def same by blast
  assume nn: "nonneg s" "\<forall>i<choices s x. \<forall>j<choices s y. 0 \<le> d i j"
  have base: "0 \<le> between s x y i k" if "i < choices s x" "k < choices s y" for i k
    using nn(1) j(3) that by (simp add: between_def nonneg_def)
  have "0 \<le> times t v u ! i ! k" if v: "v \<in> live s" "u \<in> set (nbs t v)" "i < choices s v" "k < choices s u" for v u i k
    using kinds [OF v(1,2)]
  proof (elim disjE conjE)
    assume "u \<in> set (nbs s v)" "times t v u = times s v u"
    then show ?thesis using nn(1) v by (simp add: nonneg_def)
  qed (use j(1) base nn(2) v in \<open>simp_all add: joined_def\<close>)
  then show "nonneg t" using nn(1) by (simp add: nonneg_def same)
qed

lemma joined_graph:
  assumes g: "graph_ok s" and jn: "joined_nbs s x y t" and l: "x \<noteq> y" "x \<in> live s" "y \<in> live s"
    and "live t = live s"
  shows "graph_ok t"
proof -
  note nb = joined_set [OF jn l(1)]
  have "distinct (nbs t v)" if "v \<in> live s" for v
    using jn graph_okD(2) [OF g that] by (cases "v = x"; cases "v = y") (auto simp: joined_nbs_def nbs_def)
  moreover have "set (nbs t v) \<subseteq> live s - {v}" if "v \<in> live s" for v
    using graph_okD(3,4) [OF g that] l by (auto simp: nb)
  moreover have "v \<in> set (nbs t u)" if "v \<in> live s" "u \<in> set (nbs t v)" for u v
    using g that unfolding nb graph_ok_def by blast
  ultimately show ?thesis using g jn assms(6) by (simp add: graph_ok_def joined_nbs_def)
qed

lemma joined_accounted:
  assumes ok: "pbqp_ok s" and n: "n \<in> live s" and xy: "set (nbs s n) = {x, y}" "x \<noteq> y"
    and j: "joined s x y d t"
    and pos: "nonneg s \<Longrightarrow> \<forall>i<choices s x. \<forall>j<choices s y. 0 \<le> d i j"
    and best: "\<And>z. valid_choice s z \<Longrightarrow> best_time s n z = d (z x) (z y)"
  shows "accounted s n (best_time s n) t"
  unfolding accounted_def
proof (intro conjI allI impI ballI)
  have g: "graph_ok s" "costs_ok s" using ok by (simp_all add: pbqp_ok_def)
  have l: "x \<in> live s - {n}" "y \<in> live s - {n}" using graph_okD(3,4) [OF g(1) n] xy by auto
  have jn: "joined_nbs s x y t" and same: "live t = live s" using j by (simp_all add: joined_def live_def)
  show "graph_ok t" using joined_graph [OF g(1) jn xy(2) _ _ same] l by simp
  show "costs_ok t" using joined_costs(1) [OF g j xy(2)] l by simp
  show "nonneg t" if "nonneg s" using joined_costs(2) [OF g j xy(2) _ _ that pos [OF that]] l by simp
  show "rest_time t n z = rest_time s n z + best_time s n z" if "valid_choice s z" for z
    using joined_rest [OF g j xy(2) l that] best [OF that] by simp
  show "unshared t" using j by (simp add: joined_def)
  show "frozen s t (live s - {n})"
  proof -
    have "v \<noteq> x \<and> v \<noteq> y \<and> {v, u} \<noteq> {x, y}" if "v \<notin> live s - {n}" for u v
      using that l by (auto simp: doubleton_eq_iff)
    then show ?thesis using j jn unfolding frozen_def joined_def joined_nbs_def by metis
  qed
  show "nbs t v = nbs s v" if "v \<notin> set (nbs s n)" for v
    using that xy jn by (simp add: joined_nbs_def nbs_def)
  show "length (nbs t v) \<le> Suc (length (nbs s v))" if "v \<in> set (nbs s n)" for v
    using that xy jn by (auto simp: joined_nbs_def)
qed (use j in \<open>simp_all add: joined_def costs_of_def\<close>)

section \<open>New edges\<close>

definition best_pair :: "pbqp \<Rightarrow> nat \<Rightarrow> rat list \<Rightarrow> rat list \<Rightarrow> rat" where
  "best_pair s n vx vy = min invalid_layout_time (Min ((\<lambda>k. vx ! k + vy ! k + costs_of s n ! k) ` {..<choices s n}))"

definition pair_time :: "pbqp \<Rightarrow> nat \<Rightarrow> nat \<Rightarrow> nat \<Rightarrow> nat \<Rightarrow> nat \<Rightarrow> rat" where
  "pair_time s n x y i j = best_pair s n (times s x n ! i) (times s y n ! j)"

definition pair_matrix :: "pbqp \<Rightarrow> nat \<Rightarrow> nat \<Rightarrow> nat \<Rightarrow> rat list list" where
  "pair_matrix s n x y = map (\<lambda>vx. map (best_pair s n vx) (times s y n)) (times s x n)"

lemma delta_entry_eq:
  assumes "rec_of s n = Inr (costs_of s n)" "costs_of s n \<noteq> []" "length vx = choices s n" "length vy = choices s n"
  shows "delta_entry s n vx vy = Inr (best_pair s n vx vy)"
proof -
  have "foldR (\<lambda>k min_cost. bindR (py_get vx (int k)) (\<lambda>x. bindR (py_get vy (int k)) (\<lambda>y.
           Inr (min min_cost (x + y + costs_of s n ! k))))) [0..<choices s n] invalid_layout_time =
      Inr (min invalid_layout_time (Min ((\<lambda>k. vx ! k + vy ! k + costs_of s n ! k) ` set [0..<choices s n])))"
    using assms by (intro min_loop) simp_all
  then show ?thesis using assms(1) by (simp add: delta_entry_def best_pair_def atLeast0LessThan)
qed

lemma delta_eq:
  assumes "rec_of s n = Inr (costs_of s n)" "costs_of s n \<noteq> []"
    "matrix_ok k (choices s n) (times s x n)" "matrix_ok l (choices s n) (times s y n)"
  shows "mapR (\<lambda>vx. mapR (delta_entry s n vx) (times s y n)) (times s x n) = Inr (pair_matrix s n x y)"
  unfolding pair_matrix_def
  by (intro mapR_total) (use assms in \<open>auto simp: matrix_ok_def intro!: mapR_total delta_entry_eq\<close>)

lemma pair_matrix:
  assumes "matrix_ok k c (times s x n)" "matrix_ok l c (times s y n)"
  shows "matrix_ok k l (pair_matrix s n x y)"
    and "i < k \<Longrightarrow> j < l \<Longrightarrow> pair_matrix s n x y ! i ! j = pair_time s n x y i j"
  using assms by (auto simp: matrix_ok_def pair_matrix_def pair_time_def)

lemma best_time_pair:
  assumes "graph_ok s" "costs_ok s" "n \<in> live s" "nbs s n = [x, y]" "x \<noteq> y" "valid_choice s z"
  shows "best_time s n z = pair_time s n x y (z x) (z y)"
proof -
  have flip: "times s n u ! k ! z u = times s u n ! z u ! k" if "u \<in> {x, y}" "k < choices s n" for u k
  proof -
    have "u \<in> live s" "n \<in> set (nbs s u)" using graph_okD(5) [OF assms(1,3), of u] assms(4) that by auto
    then show ?thesis using assms(2,3,6) that(2) by (simp add: costs_ok_def valid_choice_def)
  qed
  have "node_time s n z ` {..<choices s n} =
      (\<lambda>k. times s x n ! z x ! k + times s y n ! z y ! k + costs_of s n ! k) ` {..<choices s n}"
    using assms(4,5) flip by (intro image_cong refl) (simp add: node_time_def)
  then show ?thesis by (simp add: best_time_def pair_time_def best_pair_def)
qed

lemma pair_time_nonneg:
  assumes "graph_ok s" "nonneg s" "n \<in> live s" "set (nbs s n) = {x, y}" "costs_of s n \<noteq> []"
  shows "\<forall>i<choices s x. \<forall>j<choices s y. 0 \<le> pair_time s n x y i j"
proof (intro allI impI)
  fix i j
  assume ij: "i < choices s x" "j < choices s y"
  have "x \<in> live s" "n \<in> set (nbs s x)" "y \<in> live s" "n \<in> set (nbs s y)"
    using graph_okD(5) [OF assms(1,3), of x] graph_okD(5) [OF assms(1,3), of y] assms(4) by auto
  then have "0 \<le> times s x n ! i ! k + times s y n ! j ! k + costs_of s n ! k" if "k < choices s n" for k
    using assms(2,3) ij that by (simp add: nonneg_def)
  moreover have "{..<choices s n} \<noteq> {}" using assms(5) by (simp add: lessThan_empty_iff)
  ultimately show "0 \<le> pair_time s n x y i j"
    by (simp add: pair_time_def best_pair_def invalid_layout_time_def)
qed

lemma inj_on_two:
  assumes "inj_on f E" "f a = h" "f b = Suc h" "\<And>e. e \<in> E \<Longrightarrow> f e < h"
  shows "inj_on f (insert a (insert b E))"
proof (rule inj_onI)
  fix e e'
  assume e: "e \<in> insert a (insert b E)" "e' \<in> insert a (insert b E)" "f e = f e'"
  then show "e = e'" using assms(2,3) assms(4) [of e] assms(4) [of e'] inj_onD [OF assms(1), of e e'] by auto
qed

definition with_edge :: "nat \<Rightarrow> nat \<Rightarrow> rat list list \<Rightarrow> rat list list \<Rightarrow> pbqp \<Rightarrow> pbqp" where
  "with_edge x y m m' s = s\<lparr>
     pb_ltf := AList.update (y, x) (length (pb_heap s) + 1) (AList.update (x, y) (length (pb_heap s)) (pb_ltf s)),
     pb_heap := pb_heap s @ [m, m'],
     pb_adj := AList.update y (nbs s y @ [x]) (AList.update x (nbs s x @ [y]) (pb_adj s))\<rparr>"

lemma insert_edge_eq:
  assumes "map_of (pb_adj s) x = Some (nbs s x)" "map_of (pb_adj s) y = Some (nbs s y)" "x \<noteq> y"
    and "matrix_ok k l m" "0 < k"
  shows "insert_edge x y m s = Inr (with_edge x y m (map (\<lambda>i. map (\<lambda>row. row ! i) m) [0..<l]) s)"
proof -
  obtain row rows where "m = row # rows" "length row = l"
    using assms(4,5) by (cases m) (auto simp: matrix_ok_def)
  moreover have "mapR (\<lambda>i. mapR (\<lambda>cost_vec. py_get cost_vec (int i)) m) [0..<l] = Inr (map (\<lambda>i. map (\<lambda>row. row ! i) m) [0..<l])"
    using assms(4) by (intro mapR_total) (auto simp: matrix_ok_def)
  ultimately show ?thesis using assms(1-3)
    by (simp add: insert_edge_def append_adj_def dict_get_def update_conv with_edge_def)
qed

lemma with_edge_ltf:
  "map_of (pb_ltf (with_edge x y m m' s)) e = (if e = (y, x) then Some (Suc (length (pb_heap s)))
     else if e = (x, y) then Some (length (pb_heap s)) else map_of (pb_ltf s) e)"
  by (simp add: with_edge_def update_conv)

lemma with_edge_nbs:
  "nbs (with_edge x y m m' s) v = (if v = y then nbs s y @ [x] else if v = x then nbs s x @ [y] else nbs s v)"
  by (simp add: nbs_def with_edge_def update_conv)

lemma with_edge_keys:
  assumes "x \<in> fst ` set (pb_adj s)" "y \<in> fst ` set (pb_adj s)"
  shows "fst ` set (pb_adj (with_edge x y m m' s)) = fst ` set (pb_adj s)"
  using assms by (simp add: with_edge_def dom_update insert_absorb)

lemma with_edge_set:
  assumes "x \<in> fst ` set (pb_adj s)" "y \<in> fst ` set (pb_adj s)" "x \<noteq> y"
  shows "e \<in> edge_set (with_edge x y m m' s) \<longleftrightarrow> e = (x, y) \<or> e = (y, x) \<or> e \<in> edge_set s"
  using assms by (cases e) (auto simp: edge_set_def with_edge_nbs with_edge_keys)

lemma with_edge_old:
  assumes "unshared s" "(u, v) \<in> edge_set s" "y \<notin> set (nbs s x)" "x \<notin> set (nbs s y)"
  shows "map_of (pb_ltf (with_edge x y m m' s)) (u, v) = map_of (pb_ltf s) (u, v)"
    and "times (with_edge x y m m' s) u v = times s u v"
proof -
  have "(u, v) \<noteq> (x, y)" "(u, v) \<noteq> (y, x)" using assms(2-4) by (auto simp: edge_set_def)
  then show l: "map_of (pb_ltf (with_edge x y m m' s)) (u, v) = map_of (pb_ltf s) (u, v)"
    by (simp only: with_edge_ltf if_False)
  have "the (map_of (pb_ltf s) (u, v)) < length (pb_heap s)" using assms(1,2) by (simp add: unshared_def)
  then show "times (with_edge x y m m' s) u v = times s u v"
    unfolding times_def l by (simp add: with_edge_def nth_append)
qed

lemma with_edge_unshared:
  assumes "unshared s" "x \<in> fst ` set (pb_adj s)" "y \<in> fst ` set (pb_adj s)" "x \<noteq> y"
    and "y \<notin> set (nbs s x)" "x \<notin> set (nbs s y)"
  shows "unshared (with_edge x y m m' s)" (is "unshared ?t")
proof -
  let ?r = "\<lambda>e. the (map_of (pb_ltf ?t) e)"
  have old: "map_of (pb_ltf ?t) e = map_of (pb_ltf s) e" if "e \<in> edge_set s" for e
    using with_edge_old(1) [OF assms(1) _ assms(5,6)] that by (cases e) simp
  have refs: "?r e < length (pb_heap s)" if "e \<in> edge_set s" for e
    using assms(1) that by (simp add: old unshared_def)
  have es: "edge_set ?t = insert (x, y) (insert (y, x) (edge_set s))" using with_edge_set [OF assms(2-4)] by blast
  have "inj_on (\<lambda>e. the (map_of (pb_ltf s) e)) (edge_set s)" using assms(1) by (simp add: unshared_def)
  then have "inj_on ?r (edge_set s)" by (simp add: old cong: inj_on_cong)
  then have "inj_on ?r (edge_set ?t)" unfolding es
  proof (rule inj_on_two)
    show "?r (x, y) = length (pb_heap s)" "?r (y, x) = Suc (length (pb_heap s))"
      using assms(4) by (simp_all add: with_edge_ltf)
  qed (rule refs)
  moreover have "e \<in> fst ` set (pb_ltf ?t) \<and> ?r e < length (pb_heap ?t)" if e: "e \<in> edge_set ?t" for e
  proof -
    have k: "fst ` set (pb_ltf ?t) = insert (x, y) (insert (y, x) (fst ` set (pb_ltf s)))"
      "length (pb_heap ?t) = Suc (Suc (length (pb_heap s)))"
      by (simp_all add: with_edge_def dom_update insert_commute)
    from e consider "e = (x, y)" | "e = (y, x)" | "e \<in> edge_set s" unfolding es by blast
    then show ?thesis
    proof cases
      case 3
      then have "e \<in> fst ` set (pb_ltf s)" using assms(1) by (simp add: unshared_def)
      then show ?thesis using k refs [OF 3] by simp
    qed (simp_all add: k with_edge_ltf)
  qed
  ultimately show ?thesis unfolding unshared_def by blast
qed

lemma insert_edge_joined:
  assumes ok: "pbqp_ok s" and l: "x \<in> live s" "y \<in> live s" "x \<noteq> y" "y \<notin> set (nbs s x)"
    and m: "matrix_ok (choices s x) (choices s y) m"
  shows "\<exists>t. insert_edge x y m s = Inr t \<and> joined s x y (\<lambda>i j. m ! i ! j) t"
proof -
  have g: "graph_ok s" "costs_ok s" "unshared s" using ok by (simp_all add: pbqp_ok_def)
  have x: "x \<notin> set (nbs s y)" using graph_okD(5) [OF g(1) l(2), of x] l by simp
  have k: "x \<in> fst ` set (pb_adj s)" "y \<in> fst ` set (pb_adj s)" using g(1) l by (simp_all add: graph_ok_def)
  define m' where "m' = map (\<lambda>i. map (\<lambda>row. row ! i) m) [0..<choices s y]"
  let ?t = "with_edge x y m m' s"
  have "0 < choices s x" using g(2) l(1) by (simp add: costs_ok_def)
  from insert_edge_eq [OF _ _ l(3) m this] graph_okD(1) [OF g(1)] l
  have "insert_edge x y m s = Inr ?t" by (simp add: m'_def)
  moreover have "joined_nbs s x y ?t"
  proof -
    have "map_of (pb_adj ?t) v = map_of (pb_adj s) v" if "v \<noteq> x" "v \<noteq> y" for v
      using that by (simp add: with_edge_def update_conv)
    then show ?thesis using graph_okD(2) [OF g(1)] l x
      by (simp add: joined_nbs_def with_edge_nbs with_edge_keys [OF k])
  qed
  moreover have "times ?t x y = m" "times ?t y x = m'"
    using l(3) by (simp_all add: times_def with_edge_ltf) (simp_all add: with_edge_def nth_append)
  moreover have "unshared ?t" by (rule with_edge_unshared [OF g(3) k l(3,4) x])
  ultimately show ?thesis using with_edge_old [OF g(3) _ l(4) x] m l(4)
    by (auto simp: joined_def between_def matrix_ok_def m'_def) (simp_all add: with_edge_def)
qed

section \<open>Edges that are there\<close>

definition bump :: "nat \<Rightarrow> nat \<Rightarrow> rat \<Rightarrow> rat list list \<Rightarrow> rat list list" where
  "bump i j d m = m[i := (m ! i)[j := m ! i ! j + d]]"

lemma bump_ok: "matrix_ok k l m \<Longrightarrow> i < k \<Longrightarrow> matrix_ok k l (bump i j d m)"
  by (auto simp: matrix_ok_def bump_def dest!: set_update_subset_insert [THEN subsetD])

lemma bump_nth:
  assumes "matrix_ok k l m" "i < k" "j < l" "a < k" "b < l"
  shows "bump i j d m ! a ! b = m ! a ! b + (if i = a \<and> j = b then d else 0)"
  using assms by (auto simp: matrix_ok_def bump_def nth_list_update)

lemma add_ltf_bump:
  assumes "map_of (pb_ltf s) (a, b) = Some r" "matrix_ok k l (pb_heap s ! r)" "i < k" "j < l"
  shows "add_ltf a b i j d s = Inr (s\<lparr>pb_heap := (pb_heap s)[r := bump i j d (pb_heap s ! r)]\<rparr>)"
  using assms by (simp add: add_ltf_def dict_get_def matrix_ok_def add_at_def bump_def)

definition added :: "(nat \<times> nat \<times> rat) list \<Rightarrow> nat \<Rightarrow> nat \<Rightarrow> rat" where
  "added ts a b = sumlist (map (\<lambda>(i, j, d). if i = a \<and> j = b then d else 0) ts)"

definition add_both :: "nat \<Rightarrow> nat \<Rightarrow> nat \<times> nat \<times> rat \<Rightarrow> pbqp \<Rightarrow> pbqp res" where
  "add_both x y = (\<lambda>(i, j, d) s. bindR (add_ltf x y i j d s) (add_ltf y x j i d))"

lemma add_both_loop:
  assumes "map_of (pb_ltf s) (x, y) = Some r" "map_of (pb_ltf s) (y, x) = Some q" "r \<noteq> q"
    and "r < length (pb_heap s)" "q < length (pb_heap s)"
    and "matrix_ok k l (pb_heap s ! r)" "matrix_ok l k (pb_heap s ! q)" "\<forall>(i, j, d)\<in>set ts. i < k \<and> j < l"
  shows "\<exists>h. foldR (add_both x y) ts s = Inr (s\<lparr>pb_heap := h\<rparr>) \<and> length h = length (pb_heap s) \<and>
    (\<forall>p. p \<noteq> r \<longrightarrow> p \<noteq> q \<longrightarrow> h ! p = pb_heap s ! p) \<and> matrix_ok k l (h ! r) \<and> matrix_ok l k (h ! q) \<and>
    (\<forall>a<k. \<forall>b<l. h ! r ! a ! b = pb_heap s ! r ! a ! b + added ts a b \<and>
       h ! q ! b ! a = pb_heap s ! q ! b ! a + added ts a b)"
  using assms
proof (induction ts arbitrary: s)
  case Nil
  show ?case by (rule exI [of _ "pb_heap s"]) (use Nil in \<open>simp add: added_def\<close>)
next
  case (Cons e ts)
  obtain i j d where e: "e = (i, j, d)" by (cases e)
  have ij: "i < k" "j < l" using Cons.prems(8) e by simp_all
  let ?h = "(pb_heap s)[r := bump i j d (pb_heap s ! r), q := bump j i d (pb_heap s ! q)]"
  let ?s = "s\<lparr>pb_heap := ?h\<rparr>"
  have "add_ltf x y i j d s = Inr (s\<lparr>pb_heap := (pb_heap s)[r := bump i j d (pb_heap s ! r)]\<rparr>)"
    by (rule add_ltf_bump [OF Cons.prems(1,6) ij])
  moreover have "add_ltf y x j i d (s\<lparr>pb_heap := (pb_heap s)[r := bump i j d (pb_heap s ! r)]\<rparr>) = Inr ?s"
    using add_ltf_bump [of "s\<lparr>pb_heap := (pb_heap s)[r := bump i j d (pb_heap s ! r)]\<rparr>" y x q l k j i d] Cons.prems ij
    by simp
  ultimately have step: "add_both x y e s = Inr ?s" by (simp add: add_both_def e)
  have m: "pb_heap ?s ! r = bump i j d (pb_heap s ! r)" "pb_heap ?s ! q = bump j i d (pb_heap s ! q)"
    using Cons.prems by simp_all
  then have ok: "matrix_ok k l (pb_heap ?s ! r)" "matrix_ok l k (pb_heap ?s ! q)"
    using bump_ok Cons.prems(6,7) ij by simp_all
  from Cons.IH [of ?s] obtain h where h: "foldR (add_both x y) ts ?s = Inr (?s\<lparr>pb_heap := h\<rparr>)" "length h = length ?h"
    "\<forall>p. p \<noteq> r \<longrightarrow> p \<noteq> q \<longrightarrow> h ! p = ?h ! p" "matrix_ok k l (h ! r)" "matrix_ok l k (h ! q)"
    "\<forall>a<k. \<forall>b<l. h ! r ! a ! b = pb_heap ?s ! r ! a ! b + added ts a b \<and>
       h ! q ! b ! a = pb_heap ?s ! q ! b ! a + added ts a b"
    using Cons.prems ok by auto
  have "added (e # ts) a b = (if i = a \<and> j = b then d else 0) + added ts a b" for a b
    by (simp add: added_def e)
  with h(6) have "\<forall>a<k. \<forall>b<l. h ! r ! a ! b = pb_heap s ! r ! a ! b + added (e # ts) a b \<and>
       h ! q ! b ! a = pb_heap s ! q ! b ! a + added (e # ts) a b"
    using bump_nth [OF Cons.prems(6) ij] bump_nth [OF Cons.prems(7) ij(2,1)] unfolding m by auto
  with h step show ?case by auto
qed

lemma pick_row:
  "sumlist (map (\<lambda>(i, x). if i = a then f x else 0) (enumerate n xs)) =
     (if n \<le> a \<and> a < n + length xs then f (xs ! (a - n)) else (0 :: rat))"
proof (induction xs arbitrary: n)
  case (Cons x xs)
  show ?case using Cons.IH [of "Suc n"] by (cases "a = n") (auto simp: Suc_le_eq nth_Cons')
qed simp

text \<open>The entries of a matrix with their positions, row by row.\<close>

definition entries :: "rat list list \<Rightarrow> (nat \<times> nat \<times> rat) list" where
  "entries m = concat (map (\<lambda>(i, row). map (Pair i) (enumerate 0 row)) (enumerate 0 m))"

lemma added_concat: "added (concat tss) a b = sumlist (map (\<lambda>ts. added ts a b) tss)"
  by (induction tss) (simp_all add: added_def)

lemma added_row:
  "added (map (Pair i) es) a b = (if i = a then sumlist (map (\<lambda>(j, d). if j = b then d else 0) es) else 0)"
  by (induction es) (auto simp: added_def)

lemma added_entries:
  assumes "matrix_ok k l m" "a < k" "b < l"
  shows "added (entries m) a b = m ! a ! b"
proof -
  have "added (map (Pair i) (enumerate 0 row)) a b = (if i = a then if b < length row then row ! b else 0 else 0)" for i row
    using pick_row [of b "\<lambda>d. d" 0 row] by (simp add: added_row)
  then have "added (entries m) a b =
      sumlist (map (\<lambda>(i, row). if i = a then if b < length row then row ! b else 0 else 0) (enumerate 0 m))"
    by (simp add: entries_def added_concat o_def case_prod_unfold)
  also have "\<dots> = m ! a ! b" using assms by (simp add: pick_row [of a "\<lambda>row. if b < length row then row ! b else 0"] matrix_ok_def)
  finally show ?thesis .
qed

lemma entries_range: "matrix_ok k l m \<Longrightarrow> \<forall>(i, j, d)\<in>set (entries m). i < k \<and> j < l"
  by (auto simp: entries_def matrix_ok_def in_set_enumerate_eq)

lemma entries_loop:
  "foldR (\<lambda>(i, row) s. foldR (\<lambda>(j, d) s. bindR (add_ltf x y i j d s) (add_ltf y x j i d)) (enumerate 0 row) s)
     (enumerate 0 m) s = foldR (add_both x y) (entries m) s"
proof -
  have "foldR (add_both x y) (map (Pair i) es) =
      foldR (\<lambda>(j, d) s. bindR (add_ltf x y i j d s) (add_ltf y x j i d)) es" for i es
    by (rule ext) (simp add: foldR_map add_both_def case_prod_beta')
  then show ?thesis by (simp add: entries_def foldR_concat foldR_map case_prod_beta')
qed

lemma add_edge_joined:
  assumes ok: "pbqp_ok s" and l: "x \<in> live s" "y \<in> live s" "x \<noteq> y" "y \<in> set (nbs s x)"
    and m: "matrix_ok (choices s x) (choices s y) m"
  shows "\<exists>t. foldR (add_both x y) (entries m) s = Inr t \<and> joined s x y (\<lambda>i j. m ! i ! j) t"
proof -
  have g: "graph_ok s" "costs_ok s" "unshared s" using ok by (simp_all add: pbqp_ok_def)
  have e: "(x, y) \<in> edge_set s" "(y, x) \<in> edge_set s" using live_edge [OF g(1) l(1,4)] by simp_all
  then obtain r q where rq: "map_of (pb_ltf s) (x, y) = Some r" "map_of (pb_ltf s) (y, x) = Some q"
    using g(3) unfolding unshared_def ltf_entry by metis
  have inj: "inj_on (\<lambda>e. the (map_of (pb_ltf s) e)) (edge_set s)" using g(3) by (simp add: unshared_def)
  have other: "the (map_of (pb_ltf s) (u, v)) \<noteq> r \<and> the (map_of (pb_ltf s) (u, v)) \<noteq> q"
    if "(u, v) \<in> edge_set s" "{u, v} \<noteq> {x, y}" for u v
  proof
    have "(u, v) = (x, y)" if "the (map_of (pb_ltf s) (u, v)) = r"
      by (rule inj_onD [OF inj _ \<open>(u, v) \<in> edge_set s\<close> e(1)]) (simp add: that rq)
    then show "the (map_of (pb_ltf s) (u, v)) \<noteq> r" using that(2) by blast
    have "(u, v) = (y, x)" if "the (map_of (pb_ltf s) (u, v)) = q"
      by (rule inj_onD [OF inj _ \<open>(u, v) \<in> edge_set s\<close> e(2)]) (simp add: that rq)
    then show "the (map_of (pb_ltf s) (u, v)) \<noteq> q" using that(2) by blast
  qed
  have d: "r \<noteq> q"
  proof
    assume "r = q"
    then have "(x, y) = (y, x)" by (intro inj_onD [OF inj _ e]) (simp add: rq)
    with l(3) show False by simp
  qed
  have len: "r < length (pb_heap s)" "q < length (pb_heap s)"
  proof -
    have "the (map_of (pb_ltf s) (x, y)) < length (pb_heap s)" "the (map_of (pb_ltf s) (y, x)) < length (pb_heap s)"
      using g(3) e by (simp_all add: unshared_def)
    then show "r < length (pb_heap s)" "q < length (pb_heap s)" by (simp_all add: rq)
  qed
  have t: "pb_heap s ! r = times s x y" "pb_heap s ! q = times s y x" using rq by (simp_all add: times_def)
  have yx: "x \<in> set (nbs s y)" using graph_okD(5) [OF g(1) l(2), of x] l by simp
  then have mm: "matrix_ok (choices s x) (choices s y) (times s x y)" "matrix_ok (choices s y) (choices s x) (times s y x)"
    and sym: "\<forall>i<choices s x. \<forall>j<choices s y. times s x y ! i ! j = times s y x ! j ! i"
    using g(2) l unfolding costs_ok_def by blast+
  from add_both_loop [OF rq d len, of "choices s x" "choices s y" "entries m"] mm entries_range [OF m]
  obtain h where h: "foldR (add_both x y) (entries m) s = Inr (s\<lparr>pb_heap := h\<rparr>)" "length h = length (pb_heap s)"
    "\<forall>p. p \<noteq> r \<longrightarrow> p \<noteq> q \<longrightarrow> h ! p = pb_heap s ! p"
    "matrix_ok (choices s x) (choices s y) (h ! r)" "matrix_ok (choices s y) (choices s x) (h ! q)"
    "\<forall>a<choices s x. \<forall>b<choices s y. h ! r ! a ! b = times s x y ! a ! b + added (entries m) a b \<and>
       h ! q ! b ! a = times s y x ! b ! a + added (entries m) a b"
    unfolding t by blast
  let ?t = "s\<lparr>pb_heap := h\<rparr>"
  have same: "nbs ?t = nbs s" "edge_set ?t = edge_set s" by (simp_all add: nbs_def edge_set_def fun_eq_iff)
  have "joined_nbs s x y ?t" using l(4) yx graph_okD(2) [OF g(1)] l(1,2)
    by (simp add: joined_nbs_def same insert_absorb)
  moreover have "unshared ?t" using g(3) h(2) by (simp add: unshared_def same)
  moreover have "times ?t u v = times s u v" if "(u, v) \<in> edge_set s" "{u, v} \<noteq> {x, y}" for u v
    using h(3) other [OF that] by (simp add: times_def)
  moreover have "times ?t x y = h ! r" "times ?t y x = h ! q" using rq by (simp_all add: times_def)
  ultimately have "joined s x y (\<lambda>i j. m ! i ! j) ?t"
    using h(4-6) sym added_entries [OF m] l(4) by (simp add: joined_def between_def)
  with h(1) show ?thesis by blast
qed

section \<open>Two neighbours\<close>

lemma RII_reduced:
  assumes ok: "pbqp_ok s" and n: "n \<in> live s" and "length (nbs s n) = 2"
  shows "\<exists>s'. RII_reduction n s = Inr s' \<and> reduced s n s'"
proof -
  have g: "graph_ok s" "costs_ok s" "unshared s" using ok by (simp_all add: pbqp_ok_def)
  obtain x y where xy: "nbs s n = [x, y]" using assms(3) by (auto simp: length_Suc_conv numeral_2_eq_2)
  then have d: "x \<noteq> y" using graph_okD(2) [OF g(1) n] by simp
  have l: "x \<in> live s" "y \<in> live s" "n \<in> set (nbs s x)" "n \<in> set (nbs s y)"
    using graph_okD(5) [OF g(1) n, of x] graph_okD(5) [OF g(1) n, of y] xy by simp_all
  let ?m = "pair_matrix s n x y"
  have mm: "matrix_ok (choices s x) (choices s n) (times s x n)" "matrix_ok (choices s y) (choices s n) (times s y n)"
    and ne: "costs_of s n \<noteq> []"
    using g(2) l n by (simp_all add: costs_ok_def)
  note pm = pair_matrix [OF mm]
  have x: "x \<in> set (nbs s y) \<longleftrightarrow> y \<in> set (nbs s x)" using graph_okD(5) [OF g(1) l(1), of y] l(2) by simp
  obtain t where t: "(if x \<in> set (nbs s y) then foldR (add_both x y) (entries ?m) s else insert_edge x y ?m s) = Inr t"
    "joined s x y (\<lambda>i j. ?m ! i ! j) t"
    using add_edge_joined [OF ok l(1,2) d _ pm(1)] insert_edge_joined [OF ok l(1,2) d _ pm(1)] x by auto
  have "RII_reduction n s = finish_node n t"
    using t(1) d graph_okD(1) [OF g(1) n] graph_okD(1) [OF g(1) l(2)] xy
      ltf_of_edge [OF g(3)] live_edge [OF g(1) n] delta_eq [OF rec_of_live [OF g(2) n] ne mm]
    by (simp add: RII_reduction_def dict_get_def entries_loop split: if_splits)
  moreover have "accounted s n (best_time s n) t"
  proof (rule joined_accounted [OF ok n _ d t(2)])
    show "\<forall>i<choices s x. \<forall>j<choices s y. 0 \<le> ?m ! i ! j" if "nonneg s"
      using pair_time_nonneg [OF g(1) that n _ ne, of x y] xy pm(2) by simp
    show "best_time s n z = ?m ! z x ! z y" if "valid_choice s z" for z
      using best_time_pair [OF g(1,2) n xy d that] pm(2) that l by (simp add: valid_choice_def)
  qed (simp add: xy)
  ultimately show ?thesis using reduction_step [OF ok n] t(2) by (fastforce simp: reduced_def joined_def)
qed

end
