(* ===== verification/PBQPRun.thy ===== *)
theory PBQPRun
  imports PBQPMerge
begin

text \<open>
  Running the PBQP tuner: reducing a node with many neighbours, the forward pass as a sequence of
  reductions, and the backward pass that puts the nodes back and chooses their schedules.
\<close>

section \<open>Many neighbours\<close>

text \<open>The node keeps its \<open>k\<close>-th schedule, and its neighbours pay for the transformations.\<close>

definition picked_time :: "pbqp \<Rightarrow> nat \<Rightarrow> nat \<Rightarrow> (nat \<Rightarrow> nat) \<Rightarrow> rat" where
  "picked_time s n k x = (\<Sum>a\<in>set (nbs s n). times s n a ! k ! x a)"

lemma rn_cost_total:
  assumes ok: "pbqp_ok s" and n: "n \<in> live s" and i: "i < choices s n"
  shows "\<exists>c. rn_cost s n (nbs s n) i r = Inr c"
proof -
  have g: "graph_ok s" "costs_ok s" "unshared s" using ok by (simp_all add: pbqp_ok_def)
  have "\<exists>c. rn_cost s n (nbs s n) i r = Inr c \<and> True" unfolding rn_cost_def
  proof (rule foldR_total)
    fix a c
    assume a: "a \<in> set (nbs s n)"
    then have l: "a \<in> live s" using graph_okD(3) [OF g(1) n] by blast
    have m: "matrix_ok (choices s n) (choices s a) (times s n a)" and ne: "costs_of s a \<noteq> []"
      using g(2) n a l by (simp_all add: costs_ok_def)
    then have len: "length (times s n a ! i) = choices s a" using i by (simp add: matrix_ok_def)
    have "map2 (+) (costs_of s a) (times s n a ! i) \<noteq> []" using ne len by (metis length_map length_zip list.size(3) min.idem length_0_conv)
    then show "\<exists>c'. bindR (ltf_of s n a) (\<lambda>m. bindR (rec_of s a) (\<lambda>cs. bindR (py_get m (int i)) (\<lambda>row.
         bindR (foldR (\<lambda>(j, ltf_cost). add_at j ltf_cost) (enumerate 0 row) cs) (\<lambda>cs.
         bindR (py_min cs) (\<lambda>best. Inr (c + best)))))) = Inr c' \<and> True"
      using ltf_of_edge [OF g(3)] live_edge [OF g(1) n a] rec_of_live [OF g(2) l] m i
        add_at_loop [OF len, of "[]"] by (simp add: matrix_ok_def py_min_def)
  qed simp
  then show ?thesis by simp
qed

lemma rn_choice:
  assumes ok: "pbqp_ok s" and n: "n \<in> live s"
  shows "\<exists>mc k. foldR (\<lambda>(i, record_cost) (min_cost, record_idx).
         bindR (rn_cost s n (nbs s n) i record_cost) (\<lambda>current_cost.
           Inr (if current_cost < min_cost then (current_cost, int i) else (min_cost, record_idx))))
       (enumerate 0 (costs_of s n)) (invalid_layout_time, - 1) = Inr (mc, k) \<and> (k = - 1 \<or> 0 \<le> k \<and> nat k < choices s n)"
    (is "\<exists>mc k. foldR ?f ?xs ?s = _ \<and> _")
proof -
  have "\<exists>t. foldR ?f ?xs ?s = Inr t \<and> (snd t = - 1 \<or> 0 \<le> snd t \<and> nat (snd t) < choices s n)"
  proof (rule foldR_total)
    fix x :: "nat \<times> rat" and t :: "rat \<times> int"
    assume x: "x \<in> set ?xs" and t: "snd t = - 1 \<or> 0 \<le> snd t \<and> nat (snd t) < choices s n"
    obtain i r where ir: "x = (i, r)" by force
    with x have "i < choices s n" by (auto simp: in_set_enumerate_eq)
    with rn_cost_total [OF ok n this, of r] t ir
    show "\<exists>t'. ?f x t = Inr t' \<and> (snd t' = - 1 \<or> 0 \<le> snd t' \<and> nat (snd t') < choices s n)"
      by (cases t) auto
  qed simp
  then show ?thesis by (metis prod.collapse)
qed

lemma rn_loop:
  assumes "\<And>a. a \<in> set vs \<Longrightarrow> ltf_of t n a = Inr (times t n a) \<and> int (length (times t n a)) > k \<and>
      map_of (pb_rec t) a = Some (costs_of t a) \<and> length (times t n a ! nat k) = choices t a"
    and "distinct vs" "0 \<le> k"
  shows "\<exists>R. foldR (\<lambda>a s. bindR (ltf_of s n a) (\<lambda>m. bindR (py_get m k) (\<lambda>row.
             foldR (\<lambda>(i, ltf_cost). add_rec a i ltf_cost) (enumerate 0 row) s))) vs t = Inr (t\<lparr>pb_rec := R\<rparr>) \<and>
    (\<forall>v. map_of R v = (if v \<in> set vs then Some (map2 (+) (costs_of t v) (times t n v ! nat k)) else map_of (pb_rec t) v))"
  using assms
proof (induction vs arbitrary: t)
  case Nil
  show ?case by (rule exI [of _ "pb_rec t"]) simp
next
  case (Cons a vs)
  let ?cs = "map2 (+) (costs_of t a) (times t n a ! nat k)"
  let ?t = "t\<lparr>pb_rec := AList.update a ?cs (pb_rec t)\<rparr>"
  have a: "ltf_of t n a = Inr (times t n a)" "int (length (times t n a)) > k"
    "map_of (pb_rec t) a = Some (costs_of t a)" "length (times t n a ! nat k) = choices t a"
    using Cons.prems(1) [of a] by simp_all
  have row: "py_get (times t n a) k = Inr (times t n a ! nat k)" using a(2) Cons.prems(3) by (simp add: py_get_def)
  have same: "times ?t = times t" "ltf_of ?t = ltf_of t" by (simp_all add: times_def ltf_of_def fun_eq_iff)
  have c: "costs_of ?t v = costs_of t v" if "v \<in> set vs" for v
    using that Cons.prems(2) by (auto simp: costs_of_def update_conv)
  have "foldR (\<lambda>(i, c). add_rec a i c) (enumerate 0 (times t n a ! nat k)) t = Inr ?t"
    using add_at_loop [OF a(4), of "[]"] by (simp add: add_rec_loop [OF a(3)])
  then have step: "bindR (ltf_of t n a) (\<lambda>m. bindR (py_get m k) (\<lambda>row.
      foldR (\<lambda>(i, ltf_cost). add_rec a i ltf_cost) (enumerate 0 row) t)) = Inr ?t" using a(1) row by simp
  have "ltf_of ?t n b = Inr (times ?t n b) \<and> int (length (times ?t n b)) > k \<and>
      map_of (pb_rec ?t) b = Some (costs_of ?t b) \<and> length (times ?t n b ! nat k) = choices ?t b" if "b \<in> set vs" for b
    using Cons.prems(1) [of b] Cons.prems(2) that unfolding same c [OF that] by (auto simp: update_conv)
  from Cons.IH [OF this] Cons.prems(2,3) obtain R where
    R: "foldR (\<lambda>a s. bindR (ltf_of s n a) (\<lambda>m. bindR (py_get m k) (\<lambda>row.
             foldR (\<lambda>(i, ltf_cost). add_rec a i ltf_cost) (enumerate 0 row) s))) vs ?t = Inr (?t\<lparr>pb_rec := R\<rparr>)"
    "\<forall>v. map_of R v = (if v \<in> set vs then Some (map2 (+) (costs_of ?t v) (times ?t n v ! nat k)) else map_of (pb_rec ?t) v)"
    by auto
  from R(2) have "\<forall>v. map_of R v = (if v \<in> set (a # vs) then Some (map2 (+) (costs_of t v) (times t n v ! nat k)) else map_of (pb_rec t) v)"
    using Cons.prems(2) unfolding same by (auto simp: update_conv c)
  with R(1) step show ?case by auto
qed

lemma RN_shrunk:
  assumes ok: "pbqp_ok s" and n: "n \<in> live s"
  shows "RN_reduction n s = Inl RuntimeError \<or>
    (\<exists>s' k. RN_reduction n s = Inr s' \<and> k < choices s n \<and> shrunk s n (picked_time s n k) s' \<and>
       pb_opt s' = AList.update n k (pb_opt s) \<and> \<not> pb_is_optimal s')"
proof -
  have g: "graph_ok s" "costs_ok s" "unshared s" using ok by (simp_all add: pbqp_ok_def)
  obtain mc i where choice: "foldR (\<lambda>(i, record_cost) (min_cost, record_idx).
         bindR (rn_cost s n (nbs s n) i record_cost) (\<lambda>current_cost.
           Inr (if current_cost < min_cost then (current_cost, int i) else (min_cost, record_idx))))
       (enumerate 0 (costs_of s n)) (invalid_layout_time, - 1) = Inr (mc, i)"
    and i: "i = - 1 \<or> 0 \<le> i \<and> nat i < choices s n"
    using rn_choice [OF ok n] by blast
  note start = rec_of_live [OF g(2) n] graph_okD(1) [OF g(1) n] choice
  show ?thesis
  proof (cases "i = - 1")
    case True
    then show ?thesis using start by (simp add: RN_reduction_def dict_get_def)
  next
    case False
    then have i: "0 \<le> i" "nat i < choices s n" using i by simp_all
    define t where "t = s\<lparr>pb_opt := AList.update n (nat i) (pb_opt s), pb_is_optimal := False\<rparr>"
    have same: "times t = times s" "ltf_of t = ltf_of s" "costs_of t = costs_of s" "pb_rec t = pb_rec s"
      by (simp_all add: t_def times_def ltf_of_def costs_of_def fun_eq_iff)
    have nb: "ltf_of s n a = Inr (times s n a) \<and> matrix_ok (choices s n) (choices s a) (times s n a) \<and>
        map_of (pb_rec s) a = Some (costs_of s a)" if a: "a \<in> set (nbs s n)" for a
    proof -
      have "a \<in> live s" using graph_okD(3) [OF g(1) n] a by blast
      then show ?thesis using g(2) n a ltf_of_edge [OF g(3)] live_edge [OF g(1) n a] unfolding costs_ok_def rec_entry by blast
    qed
    have "ltf_of t n a = Inr (times t n a) \<and> int (length (times t n a)) > i \<and>
        map_of (pb_rec t) a = Some (costs_of t a) \<and> length (times t n a ! nat i) = choices t a"
      if "a \<in> set (nbs s n)" for a using nb [OF that] i by (auto simp: same matrix_ok_def)
    from rn_loop [OF this graph_okD(2) [OF g(1) n] i(1)] obtain R where
      R: "foldR (\<lambda>a s. bindR (ltf_of s n a) (\<lambda>m. bindR (py_get m i) (\<lambda>row.
             foldR (\<lambda>(i, ltf_cost). add_rec a i ltf_cost) (enumerate 0 row) s))) (nbs s n) t = Inr (t\<lparr>pb_rec := R\<rparr>)"
      "\<And>v. map_of R v = (if v \<in> set (nbs s n) then Some (map2 (+) (costs_of s v) (times s n v ! nat i)) else map_of (pb_rec s) v)"
      by (auto simp: same)
    have c: "costs_of (t\<lparr>pb_rec := R\<rparr>) v = map2 (+) (costs_of s v) (times s n v ! nat i)" if "v \<in> set (nbs s n)" for v
      using that R(2) by (simp add: costs_of_def)
    have "accounted s n (picked_time s n (nat i)) (t\<lparr>pb_rec := R\<rparr>)"
    proof (rule costs_accounted [OF ok n, where d = "\<lambda>v j. times s n v ! nat i ! j"])
      show "map_of (pb_rec (t\<lparr>pb_rec := R\<rparr>)) v = Some (costs_of (t\<lparr>pb_rec := R\<rparr>) v) \<and>
          choices (t\<lparr>pb_rec := R\<rparr>) v = choices s v \<and> (\<forall>j<choices s v. costs_of (t\<lparr>pb_rec := R\<rparr>) v ! j =
            costs_of s v ! j + times s n v ! nat i ! j)" if "v \<in> set (nbs s n)" for v
        using that nb [OF that] i(2) R(2) by (simp add: c matrix_ok_def)
      show "\<forall>v\<in>set (nbs s n). \<forall>j<choices s v. 0 \<le> times s n v ! nat i ! j" if "nonneg s"
        using that n i(2) by (simp add: nonneg_def)
    qed (simp_all add: R(2) t_def picked_time_def)
    from reduction_step [OF ok n this] obtain s' where "finish_node n (t\<lparr>pb_rec := R\<rparr>) = Inr s'"
      "shrunk s n (picked_time s n (nat i)) s'" "pb_opt s' = pb_opt t" "\<not> pb_is_optimal s'" by (auto simp: t_def)
    moreover have "RN_reduction n s = finish_node n (t\<lparr>pb_rec := R\<rparr>)"
      using start R(1) i(1) by (simp add: RN_reduction_def dict_get_def t_def)
    ultimately show ?thesis using i(2) by (auto simp: t_def)
  qed
qed

section \<open>The forward pass\<close>

text \<open>Sequences of reductions down to a state without edges.\<close>

inductive reduces_to :: "pbqp \<Rightarrow> pbqp \<Rightarrow> bool" where
  isolated: "\<forall>v\<in>live s. nbs s v = [] \<Longrightarrow> reduces_to s s"
| reduce: "reduced s n s' \<Longrightarrow> reduces_to s' t \<Longrightarrow> reduces_to s t"
| pick: "3 \<le> pb_max s \<Longrightarrow> shrunk s n (picked_time s n k) s' \<Longrightarrow> k < choices s n \<Longrightarrow> pb_opt s' = AList.update n k (pb_opt s) \<Longrightarrow>
    \<not> pb_is_optimal s' \<Longrightarrow> reduces_to s' t \<Longrightarrow> reduces_to s t"

lemma bucket_node:
  assumes "degrees_ok s" "k < length (pb_buckets s)" "v \<in> set (pb_buckets s ! k)"
  shows "v \<in> live s" "length (nbs s v) = k"
  using assms by (auto simp: degrees_ok_def bucketed_def)

lemma first_full_result:
  "(\<forall>i\<in>set is. i < length bs) \<Longrightarrow>
    (case first_full bs is of
       Inr None \<Rightarrow> \<forall>i\<in>set is. bs ! i = []
     | Inr (Some n) \<Rightarrow> \<exists>i\<in>set is. n \<in> set (bs ! i)
     | Inl e \<Rightarrow> False)"
proof (induction "is")
  case (Cons i "is")
  then show ?case by (cases "bs ! i") (auto split: sum.splits option.splits)
qed simp

lemma buckets_bounds:
  assumes "degrees_ok s"
  shows "int (length (pb_buckets s)) = pb_max s + 2" "0 \<le> pb_max s"
    and "v \<in> live s \<Longrightarrow> int (length (nbs s v)) \<le> pb_max s \<and> length (nbs s v) < length (pb_buckets s) \<and>
      v \<in> set (pb_buckets s ! length (nbs s v))"
  using assms by (auto simp: degrees_ok_def bucketed_def)

text \<open>Without nodes of one or two neighbours, the search for a node with more.\<close>

lemma many_neighbours:
  assumes ok: "pbqp_ok s" and low: "pb_buckets s ! 1 = []" "2 \<le> pb_max s \<Longrightarrow> pb_buckets s ! 2 = []"
  shows "if 3 \<le> pb_max s then
      first_full (pb_buckets s) (rev [3..<nat (pb_max s) + 1]) = Inr None \<and> (\<forall>v\<in>live s. nbs s v = []) \<or>
      (\<exists>n\<in>live s. first_full (pb_buckets s) (rev [3..<nat (pb_max s) + 1]) = Inr (Some n))
    else \<forall>v\<in>live s. nbs s v = []"
proof -
  let ?is = "rev [3..<nat (pb_max s) + 1]"
  have d: "degrees_ok s" using ok by (simp add: pbqp_ok_def)
  note deg = buckets_bounds(3) [OF d]
  have gap: "length (nbs s v) = 0 \<or> 3 \<le> length (nbs s v)" if "v \<in> live s" for v
  proof -
    have "length (nbs s v) \<noteq> 1" using deg [OF that] low(1) by auto
    moreover have "length (nbs s v) \<noteq> 2" using deg [OF that] low(2) by auto
    ultimately show ?thesis by linarith
  qed
  show ?thesis
  proof (cases "3 \<le> pb_max s")
    case False
    then show ?thesis using gap deg by fastforce
  next
    case True
    have r: "\<forall>i\<in>set ?is. i < length (pb_buckets s)" using buckets_bounds(1) [OF d] by auto
    from first_full_result [OF this] consider
        "first_full (pb_buckets s) ?is = Inr None" "\<forall>i\<in>set ?is. pb_buckets s ! i = []"
      | n i where "first_full (pb_buckets s) ?is = Inr (Some n)" "i \<in> set ?is" "n \<in> set (pb_buckets s ! i)"
      by (auto split: sum.splits option.splits)
    then show ?thesis
    proof cases
      case 1
      have "nbs s v = []" if v: "v \<in> live s" for v
      proof (rule ccontr)
        assume "nbs s v \<noteq> []"
        then have "length (nbs s v) \<in> set ?is" using gap [OF v] deg [OF v] by auto
        then show False using 1(2) deg [OF v] by auto
      qed
      then show ?thesis using 1(1) True by simp
    next
      case 2
      then have "n \<in> live s" using bucket_node(1) [OF d] r by blast
      with 2(1) True show ?thesis by simp
    qed
  qed
qed

text \<open>A turn ends the loop without edges, reduces a node, picks a schedule, or finds none to pick.\<close>

lemma forward_turn_cases:
  assumes ok: "pbqp_ok s"
  shows "forward_turn s = Inr None \<and> (\<forall>v\<in>live s. nbs s v = []) \<or>
    (\<exists>n s'. forward_turn s = Inr (Some s') \<and> reduced s n s') \<or>
    3 \<le> pb_max s \<and> (forward_turn s = Inl RuntimeError \<or>
      (\<exists>n k s'. forward_turn s = Inr (Some s') \<and> shrunk s n (picked_time s n k) s' \<and> k < choices s n \<and>
        pb_opt s' = AList.update n k (pb_opt s) \<and> \<not> pb_is_optimal s'))"
proof -
  have d: "degrees_ok s" using ok by (simp add: pbqp_ok_def)
  note len = buckets_bounds(1,2) [OF d]
  have b1: "py_get (pb_buckets s) 1 = Inr (pb_buckets s ! 1)" using len by (simp add: py_get_def)
  define b2 where "b2 = (if pb_max s \<ge> 2 then pb_buckets s ! 2 else [])"
  have b2: "(if pb_max s \<ge> 2 then py_get (pb_buckets s) 2 else Inr []) = Inr b2"
    using len by (simp add: py_get_def b2_def)
  consider (one) "pb_buckets s ! 1 \<noteq> []" | (two) "pb_buckets s ! 1 = []" "b2 \<noteq> []" | (more) "pb_buckets s ! 1 = []" "b2 = []"
    by blast
  then show ?thesis
  proof cases
    case one
    then have "hd (pb_buckets s ! 1) \<in> set (pb_buckets s ! 1)" by simp
    with bucket_node [OF d, of 1] len have "hd (pb_buckets s ! 1) \<in> live s" "length (nbs s (hd (pb_buckets s ! 1))) = 1" by auto
    from RI_reduced [OF ok this] one b1 show ?thesis by (auto simp: forward_turn_def)
  next
    case two
    then have "hd b2 \<in> set (pb_buckets s ! 2)" "pb_max s \<ge> 2" by (auto simp: b2_def split: if_splits)
    with bucket_node [OF d, of 2] len have "hd b2 \<in> live s" "length (nbs s (hd b2)) = 2" by auto
    from RII_reduced [OF ok this] two b1 b2 show ?thesis by (auto simp: forward_turn_def)
  next
    case more
    then have f: "forward_turn s = (if pb_max s \<ge> 3 then
       bindR (first_full (pb_buckets s) (rev [3..<nat (pb_max s) + 1])) (\<lambda>found. case found of
           None \<Rightarrow> Inr None
         | Some n \<Rightarrow> bindR (RN_reduction n s) (Inr \<circ> Some))
       else Inr None)" using b1 b2 by (simp add: forward_turn_def)
    have "2 \<le> pb_max s \<Longrightarrow> pb_buckets s ! 2 = []" using more(2) by (simp add: b2_def)
    from many_neighbours [OF ok more(1) this] show ?thesis
      using RN_shrunk [OF ok] by (fastforce simp: f split: if_splits)
  qed
qed

lemma forward_reduces:
  assumes "pbqp_ok s" "card (live s) < fuel"
  shows "(\<exists>t. pbqp_forward fuel s = Inr t \<and> reduces_to s t) \<or> 3 \<le> pb_max s \<and> pbqp_forward fuel s = Inl RuntimeError"
  using assms
proof (induction fuel arbitrary: s)
  case (Suc fuel)
  have smaller: "pbqp_ok s' \<and> card (live s') < fuel \<and> pb_max s' = pb_max s" if "shrunk s n e s'" for n e s'
  proof -
    have "n \<in> live s" "live s' = live s - {n}" "pbqp_ok s'" "pb_max s' = pb_max s" using that by (simp_all add: shrunk_def)
    moreover from this(1) have "0 < card (live s)" by (auto simp: card_gt_0_iff)
    ultimately show ?thesis using Suc.prems(2) by simp
  qed
  from forward_turn_cases [OF Suc.prems(1)] show ?case
  proof (elim disjE conjE exE)
    fix n s'
    assume r: "forward_turn s = Inr (Some s')" "reduced s n s'"
    then show ?thesis using Suc.IH [of s'] smaller [of n "best_time s n" s'] reduces_to.reduce [OF r(2)]
      by (auto simp: reduced_def)
  next
    fix n k s'
    assume m: "3 \<le> pb_max s" and r: "forward_turn s = Inr (Some s')" "shrunk s n (picked_time s n k) s'" "k < choices s n"
      "pb_opt s' = AList.update n k (pb_opt s)" "\<not> pb_is_optimal s'"
    then show ?thesis using Suc.IH [of s'] smaller [OF r(2)] reduces_to.pick [OF m r(2-5)] by auto
  qed (auto intro: reduces_to.isolated)
qed simp

section \<open>The backward pass\<close>

lemma settle_least:
  assumes "costs \<noteq> []"
  shows "\<exists>k. settle v costs opt = Inr (AList.update v k opt) \<and> k < length costs \<and> costs ! k = Min (set costs)"
proof -
  obtain k where k: "py_index (Min (set costs)) costs = Inr k"
    using assms py_index_Inl [of "Min (set costs)" costs] Min_in [of "set costs"] by (cases "py_index (Min (set costs)) costs") auto
  then have "k < length costs \<and> costs ! k = Min (set costs)" by (simp add: py_index_Inr)
  then show ?thesis using assms k by (auto simp: settle_def py_min_def)
qed

lemma append_adj_total:
  assumes "\<And>a. a \<in> set vs \<Longrightarrow> map_of adj a \<noteq> None"
  shows "\<exists>adj'. foldR (\<lambda>a. append_adj a n) vs adj = Inr adj' \<and>
    (\<forall>v. v \<notin> set vs \<longrightarrow> map_of adj' v = map_of adj v) \<and> (\<forall>v. map_of adj' v = None \<longleftrightarrow> map_of adj v = None)"
  using assms
proof (induction vs arbitrary: adj)
  case (Cons a vs)
  then obtain as where a: "map_of adj a = Some as" by fastforce
  let ?adj = "AList.update a (as @ [n]) adj"
  have none: "map_of ?adj v = None \<longleftrightarrow> map_of adj v = None" for v using a by (simp add: update_conv)
  from Cons.IH [of ?adj] Cons.prems none obtain adj' where "foldR (\<lambda>a. append_adj a n) vs ?adj = Inr adj'"
    "\<forall>v. v \<notin> set vs \<longrightarrow> map_of adj' v = map_of ?adj v" "\<forall>v. map_of adj' v = None \<longleftrightarrow> map_of ?adj v = None" by auto
  moreover have "append_adj a n adj = Inr ?adj" using a by (simp add: append_adj_def dict_get_def)
  ultimately show ?case using none by (auto simp: update_conv)
qed simp

lemma add_column:
  "foldR (\<lambda>i. add_at i (g i)) [0..<length cs] cs = Inr (map2 (+) cs (map g [0..<length cs]))"
proof -
  have "enumerate 0 (map g [0..<length cs]) = map (\<lambda>i. (i, g i)) [0..<length cs]"
    by (simp add: enumerate_eq_zip zip_map2 zip_same_conv_map)
  then show ?thesis using add_at_loop [of "map g [0..<length cs]" cs "[]"] by (simp add: foldR_map)
qed

lemma back_costs_eq:
  assumes "\<And>a. a \<in> set vs \<Longrightarrow> \<exists>k<l a. map_of opt a = Some k \<and> ltf_of t n a = Inr (m a) \<and> matrix_ok (length cs) (l a) (m a)"
  shows "back_costs t n opt vs cs = Inr (map (\<lambda>i. cs ! i + sumlist (map (\<lambda>a. m a ! i ! the (map_of opt a)) vs)) [0..<length cs])"
  using assms
proof (induction vs arbitrary: cs)
  case Nil
  then show ?case by (simp add: back_costs_def map_nth)
next
  case (Cons a vs)
  obtain k where k: "k < l a" "map_of opt a = Some k" "ltf_of t n a = Inr (m a)" "matrix_ok (length cs) (l a) (m a)"
    using Cons.prems [of a] by auto
  let ?cs = "map2 (+) cs (map (\<lambda>i. m a ! i ! k) [0..<length cs])"
  have "foldR (\<lambda>i costs. bindR (ltf_of t n a) (\<lambda>m. bindR (py_get m (int i)) (\<lambda>row. bindR (py_get row (int k)) (\<lambda>c.
             add_at i c costs)))) [0..<length cs] cs = foldR (\<lambda>i. add_at i (m a ! i ! k)) [0..<length cs] cs"
    using k by (intro foldR_cong) (simp_all add: matrix_ok_def)
  then have "back_costs t n opt (a # vs) cs = back_costs t n opt vs ?cs"
    by (simp add: back_costs_def k dict_get_def add_column)
  also have "\<dots> = Inr (map (\<lambda>i. ?cs ! i + sumlist (map (\<lambda>a. m a ! i ! the (map_of opt a)) vs)) [0..<length ?cs])"
    using Cons.prems by (intro Cons.IH) auto
  finally show ?case by (simp add: k add.assoc)
qed

text \<open>What the backward pass has reached when all nodes of \<open>s\<close> have a schedule.\<close>

definition chosen :: "(nat, nat) dict \<Rightarrow> nat \<Rightarrow> nat" where
  "chosen opt v = the (map_of opt v)"

definition put_back :: "pbqp \<Rightarrow> pbqp \<Rightarrow> (nat, nat) dict \<Rightarrow> edges \<Rightarrow> (nat, nat) dict \<Rightarrow> bool" where
  "put_back s t opt0 adj opt \<longleftrightarrow> (\<forall>v\<in>live s. map_of opt v \<noteq> None) \<and> valid_choice s (chosen opt) \<and>
     (\<forall>v. v \<notin> live s \<longrightarrow> map_of opt v = map_of opt0 v \<and> map_of adj v = map_of (pb_adj s) v) \<and>
     (\<forall>v\<in>live s. map_of adj v \<noteq> None) \<and> (feasible s \<longrightarrow> pb_is_optimal t \<longrightarrow> least_choice s (chosen opt))"

lemma key_iff: "k \<in> fst ` set d \<longleftrightarrow> map_of d k \<noteq> None"
  by (simp add: map_of_eq_None_iff)

lemma frozen_trans: "frozen s s' L \<Longrightarrow> frozen s' t L' \<Longrightarrow> L' \<subseteq> L \<Longrightarrow> frozen s t L"
proof -
  assume f: "frozen s s' L" "frozen s' t L'" "L' \<subseteq> L"
  have "(v, u) \<in> edge_set s'" if "v \<notin> L" "(v, u) \<in> edge_set s" for v u
    using f(1) that by (simp add: frozen_def edge_set_def key_iff nbs_def)
  then show "frozen s t L" using f by (auto simp: frozen_def)
qed

lemma frozen_mono: "frozen s t L \<Longrightarrow> L \<subseteq> L' \<Longrightarrow> frozen s t L'"
  by (auto simp: frozen_def)

lemma reduces_frozen: "reduces_to s t \<Longrightarrow> frozen s t (live s)"
proof (induction rule: reduces_to.induct)
  case (isolated s)
  then show ?case by (simp add: frozen_def)
next
  case (reduce s n s' t)
  then have "live s' \<subseteq> live s" "frozen s s' (live s')" by (auto simp: reduced_def shrunk_def)
  then show ?case using reduce.IH frozen_trans frozen_mono by blast
next
  case (pick s n k s' t)
  then have "live s' \<subseteq> live s" "frozen s s' (live s')" by (auto simp: shrunk_def)
  then show ?case using pick.IH frozen_trans frozen_mono by blast
qed

lemma reduces_not_optimal: "reduces_to s t \<Longrightarrow> \<not> pb_is_optimal s \<Longrightarrow> \<not> pb_is_optimal t"
  by (induction rule: reduces_to.induct) (auto simp: reduced_def)

text \<open>The choices that were fixed on the way are those of nodes that are gone.\<close>

lemma reduces_opt:
  "reduces_to s t \<Longrightarrow> v \<notin> live s \<Longrightarrow> map_of (pb_opt t) v = map_of (pb_opt s) v"
  by (induction rule: reduces_to.induct) (auto simp: reduced_def shrunk_def update_conv)

lemma reduces_optimal: "reduces_to s t \<Longrightarrow> pb_max s \<le> 2 \<Longrightarrow> pb_is_optimal t = pb_is_optimal s"
  by (induction rule: reduces_to.induct) (auto simp: reduced_def shrunk_def)

lemma settle_all:
  assumes "\<And>v. v \<in> set vs \<Longrightarrow> rec_of t v = Inr (costs_of t v) \<and> costs_of t v \<noteq> []" "distinct vs"
  shows "\<exists>opt'. foldR (\<lambda>v opt. bindR (rec_of t v) (\<lambda>costs. settle v costs opt)) vs opt = Inr opt' \<and>
    (\<forall>v\<in>set vs. \<exists>k<choices t v. map_of opt' v = Some k \<and> costs_of t v ! k = Min (set (costs_of t v))) \<and>
    (\<forall>v. v \<notin> set vs \<longrightarrow> map_of opt' v = map_of opt v)"
  using assms
proof (induction vs arbitrary: opt)
  case (Cons v vs)
  obtain k where k: "settle v (costs_of t v) opt = Inr (AList.update v k opt)" "k < choices t v"
    "costs_of t v ! k = Min (set (costs_of t v))"
    using settle_least [of "costs_of t v" v opt] Cons.prems(1) [of v] by auto
  obtain opt' where "foldR (\<lambda>v opt. bindR (rec_of t v) (\<lambda>costs. settle v costs opt)) vs (AList.update v k opt) = Inr opt'"
    "\<forall>v\<in>set vs. \<exists>k<choices t v. map_of opt' v = Some k \<and> costs_of t v ! k = Min (set (costs_of t v))"
    "\<forall>u. u \<notin> set vs \<longrightarrow> map_of opt' u = map_of (AList.update v k opt) u"
    using Cons.IH [of "AList.update v k opt"] Cons.prems by auto
  then show ?case using Cons.prems k by (auto simp: update_conv)
qed simp

lemma back_start:
  assumes ok: "pbqp_ok t" and iso: "\<forall>v\<in>live t. nbs t v = []"
  shows "\<exists>opt0. foldR (\<lambda>v opt. bindR (rec_of t v) (\<lambda>costs. settle v costs opt)) (pb_buckets t ! 0) (pb_opt t) = Inr opt0 \<and>
    put_back t t opt0 (pb_adj t) opt0 \<and> (\<forall>v. v \<notin> live t \<longrightarrow> map_of opt0 v = map_of (pb_opt t) v)"
proof -
  have g: "graph_ok t" "costs_ok t" and d: "degrees_ok t" using ok by (simp_all add: pbqp_ok_def)
  have "0 < length (pb_buckets t)" using buckets_bounds(1,2) [OF d] by linarith
  then have b0: "set (pb_buckets t ! 0) = live t" "distinct (pb_buckets t ! 0)"
    using d iso by (auto simp: degrees_ok_def bucketed_def)
  have "rec_of t v = Inr (costs_of t v) \<and> costs_of t v \<noteq> []" if "v \<in> set (pb_buckets t ! 0)" for v
    using that g(2) rec_of_live [OF g(2)] b0(1) by (simp add: costs_ok_def)
  from settle_all [OF this b0(2)] obtain opt0 where
    f: "foldR (\<lambda>v opt. bindR (rec_of t v) (\<lambda>costs. settle v costs opt)) (pb_buckets t ! 0) (pb_opt t) = Inr opt0"
    and k: "\<And>v. v \<in> live t \<Longrightarrow> \<exists>k<choices t v. map_of opt0 v = Some k \<and> costs_of t v ! k = Min (set (costs_of t v))"
    and old: "\<And>v. v \<notin> live t \<Longrightarrow> map_of opt0 v = map_of (pb_opt t) v"
    unfolding b0(1) by metis
  have valid: "valid_choice t (chosen opt0)" unfolding valid_choice_def chosen_def using k by fastforce
  have "total_time t (chosen opt0) \<le> total_time t x" if "valid_choice t x" for x
  proof -
    have "costs_of t v ! chosen opt0 v \<le> costs_of t v ! x v" if v: "v \<in> live t" for v
    proof -
      have "x v < choices t v" using v \<open>valid_choice t x\<close> by (simp add: valid_choice_def)
      then have "Min (set (costs_of t v)) \<le> costs_of t v ! x v" by simp
      then show ?thesis using k [OF v] by (auto simp: chosen_def)
    qed
    then show ?thesis using iso by (auto simp: total_time_def intro!: sum_mono)
  qed
  then have "least_choice t (chosen opt0)" using valid by (simp add: least_choice_def)
  moreover have "map_of opt0 v \<noteq> None" if "v \<in> live t" for v using k [OF that] by auto
  moreover have "map_of (pb_adj t) v \<noteq> None" if "v \<in> live t" for v using graph_okD(1) [OF g(1) that] by simp
  ultimately show ?thesis using f old valid by (auto simp: put_back_def)
qed

lemma back_insert:
  assumes ok: "pbqp_ok s" and sh: "shrunk s n e s'" and pb: "put_back s' t opt0 adj opt"
  shows "\<exists>adj'. backward_insert_node n adj = Inr adj' \<and> map_of adj' n = Some (nbs s n) \<and>
    (\<forall>v. v \<notin> live s \<longrightarrow> map_of adj' v = map_of (pb_adj s) v) \<and> (\<forall>v\<in>live s. map_of adj' v \<noteq> None)"
proof -
  have g: "graph_ok s" using ok by (simp add: pbqp_ok_def)
  have n: "n \<in> live s" and l: "live s' = live s - {n}" and fr: "frozen s s' (live s')"
    using sh unfolding shrunk_def by blast+
  have old: "map_of adj v = map_of (pb_adj s) v" if "v \<notin> live s'" for v
    using pb fr that by (simp add: put_back_def frozen_def)
  then have a: "map_of adj n = Some (nbs s n)" using graph_okD(1) [OF g n] l by simp
  have sub: "set (nbs s n) \<subseteq> live s'" using graph_okD(3,4) [OF g n] l by blast
  have live: "map_of adj v \<noteq> None" if "v \<in> live s" for v
    using that pb a l by (cases "v = n") (auto simp: put_back_def)
  have "map_of adj v \<noteq> None" if "v \<in> set (nbs s n)" for v using live sub l that by blast
  from append_adj_total [OF this] obtain adj' where
    f: "foldR (\<lambda>a. append_adj a n) (nbs s n) adj = Inr adj'" "\<forall>v. v \<notin> set (nbs s n) \<longrightarrow> map_of adj' v = map_of adj v"
    "\<forall>v. map_of adj' v = None \<longleftrightarrow> map_of adj v = None" by blast
  have "\<forall>v\<in>live s. map_of adj' v \<noteq> None" using f(3) live by blast
  moreover have "map_of adj' n = Some (nbs s n)" using f(2) a sub l by auto
  moreover have "\<forall>v. v \<notin> live s \<longrightarrow> map_of adj' v = map_of (pb_adj s) v" using f(2) sub l old by auto
  ultimately show ?thesis using f(1) a by (simp add: backward_insert_node_def dict_get_def)
qed

lemma node_facts:
  assumes ok: "pbqp_ok s" and sh: "shrunk s n e s'" and fr: "frozen s' t (live s')"
  shows "rec_of t n = Inr (costs_of s n)" and "a \<in> set (nbs s n) \<Longrightarrow> ltf_of t n a = Inr (times s n a)"
proof -
  have g: "graph_ok s" "costs_ok s" "unshared s" using ok by (simp_all add: pbqp_ok_def)
  have n: "n \<in> live s" "n \<notin> live s'" and "frozen s s' (live s')" using sh unfolding shrunk_def by blast+
  then have st: "frozen s t (live s')" using fr frozen_trans by blast
  have "map_of (pb_rec t) n = map_of (pb_rec s) n" using st n(2) by (simp add: frozen_def)
  then show "rec_of t n = Inr (costs_of s n)" using rec_of_live [OF g(2) n(1)] by (simp add: rec_of_def dict_get_def)
  assume "a \<in> set (nbs s n)"
  then have e: "(n, a) \<in> edge_set s" using live_edge [OF g(1) n(1)] by simp
  then have "map_of (pb_ltf t) (n, a) = map_of (pb_ltf s) (n, a)" "times t n a = times s n a"
    using st n(2) by (simp_all add: frozen_def)
  then show "ltf_of t n a = Inr (times s n a)" using ltf_of_edge [OF g(3) e]
    by (auto simp: ltf_of_def dict_get_def times_def split: option.splits)
qed

lemma back_reduced:
  assumes ok: "pbqp_ok s" and red: "reduced s n s'" and fr: "frozen s' t (live s')"
    and pb: "put_back s' t opt0 adj opt" and fresh: "map_of opt0 n = None"
  shows "\<exists>adj' opt'. back_node t n (adj, opt) = Inr (adj', opt') \<and> put_back s t opt0 adj' opt'"
proof -
  have sh: "shrunk s n (best_time s n) s'" using red by (simp add: reduced_def)
  have g: "graph_ok s" "costs_ok s" using ok by (simp_all add: pbqp_ok_def)
  have n: "n \<in> live s" and l: "live s' = live s - {n}" and ch: "\<forall>v\<in>live s'. choices s' v = choices s v"
    using sh unfolding shrunk_def by blast+
  obtain adj' where adj: "backward_insert_node n adj = Inr adj'" "map_of adj' n = Some (nbs s n)"
    "\<forall>v. v \<notin> live s \<longrightarrow> map_of adj' v = map_of (pb_adj s) v" "\<forall>v\<in>live s. map_of adj' v \<noteq> None"
    using back_insert [OF ok sh pb] by blast
  have ne: "costs_of s n \<noteq> []" using g(2) n by (simp add: costs_ok_def)
  have x: "valid_choice s' (chosen opt)" "\<forall>v\<in>live s'. map_of opt v \<noteq> None" "map_of opt n = None"
    using pb fresh l by (simp_all add: put_back_def)
  let ?costs = "map (node_time s n (chosen opt)) [0..<choices s n]"
  have "back_costs t n opt (nbs s n) (costs_of s n) = Inr ?costs"
  proof -
    have "\<exists>k<choices s a. map_of opt a = Some k \<and> ltf_of t n a = Inr (times s n a) \<and>
        matrix_ok (choices s n) (choices s a) (times s n a)" if a: "a \<in> set (nbs s n)" for a
    proof -
      have "a \<in> live s'" using graph_okD(3,4) [OF g(1) n] l a by blast
      moreover obtain k where "map_of opt a = Some k" using x(2) calculation by blast
      moreover have "k < choices s a" using x(1) calculation ch by (fastforce simp: valid_choice_def chosen_def)
      ultimately show ?thesis using node_facts(2) [OF ok sh fr a] g(2) n a by (simp add: costs_ok_def)
    qed
    from back_costs_eq [OF this] show ?thesis
      using graph_okD(2) [OF g(1) n]
      by (simp add: node_time_def chosen_def sumlist_def sum_list.eq_foldr [symmetric] sum_list_distinct_conv_sum_set)
  qed
  moreover obtain k where k: "settle n ?costs opt = Inr (AList.update n k opt)" "k < choices s n"
    "node_time s n (chosen opt) k = Min (node_time s n (chosen opt) ` {..<choices s n})"
    using settle_least [of ?costs n opt] ne by (auto simp: atLeast0LessThan)
  moreover have "n \<notin> fst ` set opt" using x(3) by (simp add: key_iff)
  ultimately have "back_node t n (adj, opt) = Inr (adj', AList.update n k opt)"
    using adj(1,2) node_facts(1) [OF ok sh fr] by (simp add: back_node_def dict_get_def)
  moreover have "put_back s t opt0 adj' (AList.update n k opt)"
  proof -
    have c: "chosen (AList.update n k opt) = (chosen opt)(n := k)" by (simp add: chosen_def fun_eq_iff update_conv)
    have "valid_choice s (chosen (AList.update n k opt))"
      using x(1) k(2) l ch unfolding c by (simp add: valid_choice_def)
    moreover have "least_choice s (chosen (AList.update n k opt))" if "feasible s" "pb_is_optimal t"
      unfolding c using pb that reduced_feasible [OF ok red]
      by (intro reduced_least [OF ok that(1) red _ k(2,3)]) (simp add: put_back_def)
    moreover have "map_of (AList.update n k opt) v = map_of opt0 v" if "v \<notin> live s" for v
      using pb that n l by (auto simp: put_back_def update_conv)
    ultimately show ?thesis using adj(3,4) x(2) l by (auto simp: put_back_def update_conv)
  qed
  ultimately show ?thesis by blast
qed

lemma back_picked:
  assumes ok: "pbqp_ok s" and sh: "shrunk s n e s'" and k: "k < choices s n" and no: "\<not> pb_is_optimal t"
    and pb: "put_back s' t opt0 adj opt" and fixed: "map_of opt0 n = Some k"
  shows "\<exists>adj'. back_node t n (adj, opt) = Inr (adj', opt) \<and> put_back s t opt0 adj' opt"
proof -
  have n: "n \<in> live s" and l: "live s' = live s - {n}" and ch: "\<forall>v\<in>live s'. choices s' v = choices s v"
    using sh unfolding shrunk_def by blast+
  obtain adj' where adj: "backward_insert_node n adj = Inr adj'"
    "\<forall>v. v \<notin> live s \<longrightarrow> map_of adj' v = map_of (pb_adj s) v" "\<forall>v\<in>live s. map_of adj' v \<noteq> None"
    using back_insert [OF ok sh pb] by blast
  have o: "map_of opt n = Some k" using pb fixed l by (simp add: put_back_def)
  then have "n \<in> fst ` set opt" by (simp add: key_iff)
  then have "back_node t n (adj, opt) = Inr (adj', opt)" using adj(1) by (simp add: back_node_def)
  moreover have "put_back s t opt0 adj' opt"
  proof -
    have "chosen opt v < choices s v \<and> map_of opt v \<noteq> None" if "v \<in> live s" for v
      using pb o k l ch that by (cases "v = n") (auto simp: put_back_def valid_choice_def chosen_def)
    then show ?thesis using pb adj(2,3) no l by (auto simp: put_back_def valid_choice_def)
  qed
  ultimately show ?thesis by blast
qed

lemma put_back_all:
  assumes "reduces_to s t" "pbqp_ok s" "\<forall>v\<in>live s. map_of (pb_opt s) v = None"
  shows "\<exists>ns. pb_stack t = pb_stack s @ ns \<and> pbqp_ok t \<and> (\<forall>v\<in>live t. nbs t v = []) \<and> live t \<subseteq> live s \<and>
    (\<forall>opt0. put_back t t opt0 (pb_adj t) opt0 \<longrightarrow> (\<forall>v. v \<notin> live t \<longrightarrow> map_of opt0 v = map_of (pb_opt t) v) \<longrightarrow>
      (\<exists>adj opt. foldR (back_node t) (rev ns) (pb_adj t, opt0) = Inr (adj, opt) \<and> put_back s t opt0 adj opt))"
  using assms
proof (induction rule: reduces_to.induct)
  case (isolated s)
  then show ?case by simp
next
  case (reduce s n s' t)
  have sh: "n \<in> live s" "live s' = live s - {n}" "pbqp_ok s'" "pb_stack s' = pb_stack s @ [n]" "pb_opt s' = pb_opt s"
    using reduce.hyps(1) by (simp_all add: reduced_def shrunk_def)
  obtain ns where ns: "pb_stack t = pb_stack s' @ ns" "pbqp_ok t" "\<forall>v\<in>live t. nbs t v = []" "live t \<subseteq> live s'"
    "\<forall>opt0. put_back t t opt0 (pb_adj t) opt0 \<longrightarrow> (\<forall>v. v \<notin> live t \<longrightarrow> map_of opt0 v = map_of (pb_opt t) v) \<longrightarrow>
      (\<exists>adj opt. foldR (back_node t) (rev ns) (pb_adj t, opt0) = Inr (adj, opt) \<and> put_back s' t opt0 adj opt)"
    using reduce.IH reduce.prems sh by auto
  have "\<exists>adj opt. foldR (back_node t) (rev (n # ns)) (pb_adj t, opt0) = Inr (adj, opt) \<and> put_back s t opt0 adj opt"
    if o: "put_back t t opt0 (pb_adj t) opt0" "\<forall>v. v \<notin> live t \<longrightarrow> map_of opt0 v = map_of (pb_opt t) v" for opt0
  proof -
    obtain adj opt where p: "foldR (back_node t) (rev ns) (pb_adj t, opt0) = Inr (adj, opt)" "put_back s' t opt0 adj opt"
      using ns(5) o by blast
    have "n \<notin> live t" using ns(4) sh(2) by blast
    then have "map_of opt0 n = None"
      using o(2) reduces_opt [OF reduce.hyps(2), of n] sh reduce.prems(2) by simp
    from back_reduced [OF reduce.prems(1) reduce.hyps(1) reduces_frozen [OF reduce.hyps(2)] p(2) this] p(1)
    show ?thesis by (auto simp: foldR_append)
  qed
  moreover have "pb_stack t = pb_stack s @ (n # ns)" using ns(1) sh(4) by simp
  ultimately show ?case using ns(2-4) sh(2) by blast
next
  case (pick s n k s' t)
  have sh: "n \<in> live s" "live s' = live s - {n}" "pbqp_ok s'" "pb_stack s' = pb_stack s @ [n]"
    using pick.hyps(2) by (simp_all add: shrunk_def)
  obtain ns where ns: "pb_stack t = pb_stack s' @ ns" "pbqp_ok t" "\<forall>v\<in>live t. nbs t v = []" "live t \<subseteq> live s'"
    "\<forall>opt0. put_back t t opt0 (pb_adj t) opt0 \<longrightarrow> (\<forall>v. v \<notin> live t \<longrightarrow> map_of opt0 v = map_of (pb_opt t) v) \<longrightarrow>
      (\<exists>adj opt. foldR (back_node t) (rev ns) (pb_adj t, opt0) = Inr (adj, opt) \<and> put_back s' t opt0 adj opt)"
    using pick.IH pick.prems sh pick.hyps(4) by (auto simp: update_conv)
  have "\<exists>adj opt. foldR (back_node t) (rev (n # ns)) (pb_adj t, opt0) = Inr (adj, opt) \<and> put_back s t opt0 adj opt"
    if o: "put_back t t opt0 (pb_adj t) opt0" "\<forall>v. v \<notin> live t \<longrightarrow> map_of opt0 v = map_of (pb_opt t) v" for opt0
  proof -
    obtain adj opt where p: "foldR (back_node t) (rev ns) (pb_adj t, opt0) = Inr (adj, opt)" "put_back s' t opt0 adj opt"
      using ns(5) o by blast
    have "n \<notin> live t" using ns(4) sh(2) by blast
    then have "map_of opt0 n = Some k"
      using o(2) reduces_opt [OF pick.hyps(6), of n] sh pick.hyps(4) by (simp add: update_conv)
    from back_picked [OF pick.prems(1) pick.hyps(2,3) reduces_not_optimal [OF pick.hyps(6,5)] p(2) this] p(1)
    show ?thesis by (auto simp: foldR_append)
  qed
  moreover have "pb_stack t = pb_stack s @ (n # ns)" using ns(1) sh(4) by simp
  ultimately show ?case using ns(2-4) sh(2) by blast
qed

end
