(* ===== verification/PBQPResult.thy ===== *)
theory PBQPResult
  imports PBQPRun
begin

text \<open>
  What a run of the PBQP tuner is worth as a whole: both passes together, the conditions of the
  reductions as tests that can be evaluated, and the tuner on concrete graphs, one of them with a
  matrix that two edges share.
\<close>

section \<open>Both passes\<close>

lemma backward_total:
  assumes "reduces_to s t" "pbqp_ok s" "pb_opt s = []" "pb_stack s = []"
  shows "\<exists>opt. pbqp_backward t = Inr opt \<and> valid_choice s (chosen opt) \<and> (\<forall>v\<in>live s. map_of opt v \<noteq> None) \<and>
    (feasible s \<and> pb_is_optimal t \<longrightarrow> least_choice s (chosen opt))"
proof -
  obtain ns where ns: "pb_stack t = ns" "pbqp_ok t" "\<forall>v\<in>live t. nbs t v = []"
    and undo: "\<And>opt0. put_back t t opt0 (pb_adj t) opt0 \<Longrightarrow> \<forall>v. v \<notin> live t \<longrightarrow> map_of opt0 v = map_of (pb_opt t) v \<Longrightarrow>
      \<exists>adj opt. foldR (back_node t) (rev ns) (pb_adj t, opt0) = Inr (adj, opt) \<and> put_back s t opt0 adj opt"
    using put_back_all [OF assms(1,2)] assms(3,4) by auto
  obtain opt0 where o: "foldR (\<lambda>v opt. bindR (rec_of t v) (\<lambda>costs. settle v costs opt)) (pb_buckets t ! 0) (pb_opt t) = Inr opt0"
    "put_back t t opt0 (pb_adj t) opt0" "\<forall>v. v \<notin> live t \<longrightarrow> map_of opt0 v = map_of (pb_opt t) v"
    using back_start [OF ns(2,3)] by blast
  obtain adj opt where p: "foldR (back_node t) (rev ns) (pb_adj t, opt0) = Inr (adj, opt)" "put_back s t opt0 adj opt"
    using undo [OF o(2,3)] by blast
  have "degrees_ok t" using ns(2) by (simp add: pbqp_ok_def)
  then have "0 < length (pb_buckets t)" using buckets_bounds(1,2) [of t] by linarith
  then have "py_get (pb_buckets t) 0 = Inr (pb_buckets t ! 0)" by (simp add: py_get_def)
  then show ?thesis using o(1) p ns(1) by (auto simp: pbqp_backward_def put_back_def)
qed

text \<open>
  C7. On a well-formed graph and with fuel for one turn more than nodes, the forward pass of the
  PBQP tuner ends, and only a node with three or more neighbours can make it raise its error. After
  it the backward pass raises nothing and gives every node one of its schedules; and when the tuner
  still calls its result optimal, which it does whenever no node has more than two neighbours, no
  choice of schedules has a smaller total of execution and transformation times.
\<close>

theorem pbqp_solves:
  assumes "pbqp_ok s" "card (live s) < fuel" "pb_opt s = []" "pb_stack s = []"
  shows "case pbqp_forward fuel s of
      Inl e \<Rightarrow> e = RuntimeError \<and> 3 \<le> pb_max s
    | Inr t \<Rightarrow> (pb_max s \<le> 2 \<longrightarrow> pb_is_optimal t = pb_is_optimal s) \<and>
        (\<exists>opt. pbqp_backward t = Inr opt \<and> valid_choice s (chosen opt) \<and> (\<forall>v\<in>live s. map_of opt v \<noteq> None) \<and>
          (feasible s \<and> pb_is_optimal t \<longrightarrow> least_choice s (chosen opt)))"
  using forward_reduces [OF assms(1,2)]
proof (elim disjE exE conjE)
  fix t assume t: "pbqp_forward fuel s = Inr t" "reduces_to s t"
  then show ?thesis using backward_total [OF t(2) assms(1,3,4)] reduces_optimal [OF t(2)] by simp
qed simp

section \<open>Well-formedness as a test\<close>

lemma edge_set_list [code]: "edge_set s = set (concat (map (\<lambda>(u, _). map (Pair u) (nbs s u)) (pb_adj s)))"
  by (force simp: edge_set_def)

lemma bucketed_filter [code]: "bucketed bs d L \<longleftrightarrow>
    (\<forall>k<length bs. distinct (bs ! k) \<and> set (bs ! k) = Set.filter (\<lambda>v. d v = k) L) \<and> (\<forall>v\<in>L. d v < length bs)"
  by (auto simp: bucketed_def)

lemma unshared_card [code]: "unshared s \<longleftrightarrow>
    card ((\<lambda>e. the (map_of (pb_ltf s) e)) ` edge_set s) = card (edge_set s) \<and>
    (\<forall>e\<in>edge_set s. e \<in> fst ` set (pb_ltf s) \<and> the (map_of (pb_ltf s) e) < length (pb_heap s))"
proof -
  have "finite (edge_set s)" unfolding edge_set_list by (rule finite_set)
  then show ?thesis by (simp add: unshared_def inj_on_iff_eq_card)
qed

section \<open>A square of convolutions\<close>

text \<open>Four nodes: one convolution, two that read it, and an addition of both.\<close>

definition square :: "(unit, nat) tuner_graph" where
  "square = (let r = (\<lambda>k c. \<lparr>rc_workload = (), rc_config = k, rc_costs = [c]\<rparr>);
     v = \<lparr>n_op = None, n_inputs = [], n_name = Some ''data'', n_is_tuple = False,
       n_topi_op = None, n_workloads = None, n_cands = None\<rparr>;
     conv = (\<lambda>ins rs. v\<lparr>n_op := Some ''nn.conv2d'', n_inputs := ins, n_name := None, n_cands := Some rs\<rparr>);
     ins = [(1, [0]), (2, [1]), (3, [1]), (4, [2, 3])] in
     \<lparr>tg_nodes = [v, conv [0] [r 0 2, r 1 3], conv [1] [r 0 4, r 1 1], conv [1] [r 0 1, r 1 6],
        (conv [2, 3] [r 0 4, r 1 1])\<lparr>n_op := Some ''add''\<rparr>],
      tg_names = [''data''], tg_targets = [''nn.conv2d''], tg_ins = ins, tg_outs = get_out_nodes ins,
      tg_cost = [((1, 2), [[0, 7], [5, 1]]), ((1, 3), [[0, 7], [5, 1]]), ((3, 2), [[0, 4], [6, 0]])]\<rparr>)"

definition prepared :: "(unit, nat) tuner_graph \<Rightarrow> pbqp" where
  "prepared g = (case bindR (new_pbqp g) (\<lambda>(ins, s). prepare g ins (load_costs g s)) of Inr s \<Rightarrow> s)"

lemma square_ok:
  "pbqp_ok (prepared square) \<and> card (live (prepared square)) < 5 \<and> pb_opt (prepared square) = [] \<and>
     pb_stack (prepared square) = [] \<and> pb_max (prepared square) = 2 \<and> pb_is_optimal (prepared square)"
  by code_simp

lemma square_feasible: "feasible (prepared square)"
proof -
  have "nonneg (prepared square) \<and> valid_choice (prepared square) (\<lambda>_. 0) \<and>
      total_time (prepared square) (\<lambda>_. 0) < invalid_layout_time"
    by code_simp
  then show ?thesis unfolding feasible_def by blast
qed

lemma pbqp_solves_witness:
  "\<exists>t opt. pbqp_forward 5 (prepared square) = Inr t \<and> pbqp_backward t = Inr opt \<and>
     least_choice (prepared square) (chosen opt)"
  using pbqp_solves [of "prepared square" 5] square_ok square_feasible
  by (auto split: sum.splits)

section \<open>A matrix under two keys\<close>

text \<open>
  A convolution, two that read it, and a concatenation of the second, the first convolution and the
  first reader, in this order. The matrix of the edge from the first convolution to the second
  reader is also that of its edge to the concatenation.
\<close>

definition concat_graph :: "(unit, nat) tuner_graph" where
  "concat_graph = (let r = (\<lambda>k c. \<lparr>rc_workload = (), rc_config = k, rc_costs = [c]\<rparr>);
     v = \<lparr>n_op = None, n_inputs = [], n_name = Some ''data'', n_is_tuple = False,
       n_topi_op = None, n_workloads = None, n_cands = None\<rparr>;
     conv = (\<lambda>ins rs. v\<lparr>n_op := Some ''nn.conv2d'', n_inputs := ins, n_name := None, n_cands := Some rs\<rparr>);
     ins = [(1, [0]), (2, [1]), (3, [1]), (4, [3, 1, 2])] in
     \<lparr>tg_nodes = [v, conv [0] [r 0 2, r 1 0], conv [1] [r 0 0, r 1 2], conv [1] [r 0 0, r 1 0],
        (conv [3, 1, 2] [r 0 0, r 1 0])\<lparr>n_op := Some ''concatenate''\<rparr>],
      tg_names = [''data''], tg_targets = [''nn.conv2d''], tg_ins = ins, tg_outs = get_out_nodes ins,
      tg_cost = [((1, 2), [[0, 1], [1, 0]]), ((1, 3), [[0, 1], [0, 0]]), ((2, 3), [[0, 1], [1, 0]])]\<rparr>)"

text \<open>
  The condition of the previous result that every edge has a matrix of its own is needed, and
  the tuner itself breaks it: for this graph \<open>run\<close> gives two edges the same matrix, and although
  all the other conditions hold and the tuner calls its result optimal, there is a choice of
  schedules that takes less time.
\<close>

lemma shared_matrix_suboptimal:
  "let s = prepared concat_graph in
     graph_ok s \<and> degrees_ok s \<and> costs_ok s \<and> feasible s \<and> \<not> unshared s \<and>
     (\<exists>t opt. pbqp_forward 5 s = Inr t \<and> pb_is_optimal t \<and> pbqp_backward t = Inr opt \<and>
        valid_choice s (chosen opt) \<and> \<not> least_choice s (chosen opt))"
proof -
  let ?s = "prepared concat_graph"
  let ?y = "\<lambda>v. if v = 1 then 1 else 0 :: nat"
  have ok: "graph_ok ?s \<and> degrees_ok ?s \<and> costs_ok ?s \<and> nonneg ?s \<and> \<not> unshared ?s" by code_simp
  have y: "valid_choice ?s ?y \<and> total_time ?s ?y = 1" by code_simp
  have "case pbqp_forward 5 ?s of Inl e \<Rightarrow> False | Inr t \<Rightarrow> pb_is_optimal t \<and>
      (case pbqp_backward t of Inl e \<Rightarrow> False | Inr opt \<Rightarrow>
         valid_choice ?s (chosen opt) \<and> 1 < total_time ?s (chosen opt))"
    by code_simp
  then obtain t opt where "pbqp_forward 5 ?s = Inr t" "pb_is_optimal t" "pbqp_backward t = Inr opt"
    "valid_choice ?s (chosen opt)" "1 < total_time ?s (chosen opt)"
    by (auto split: sum.splits)
  moreover have "\<not> least_choice ?s (chosen opt)" if "1 < total_time ?s (chosen opt)" for opt
    using that y by (auto simp: least_choice_def)
  moreover have "feasible ?s" using ok y by (auto simp: feasible_def invalid_layout_time_def)
  ultimately show ?thesis using ok by (auto simp: Let_def)
qed

end
