(* ===== verification/TensorTraversal.thy ===== *)
theory TensorTraversal
  imports WorkloadKeys
begin

text \<open>
  The traversal of a tensor expression in \<open>tvm/python/tvm/auto_scheduler/relay_integration.py\<close>,
  \<open>traverse_to_get_io_tensors\<close>, with the recording of convolutions that it calls and
  \<open>prepare_input_map\<close> of \<open>measure.py\<close>. Tensors are handles into a list; the inputs of an operation
  are older tensors.
\<close>

section \<open>Tensor expressions\<close>

text \<open>A compute operation has a name, a tag, the flag for layout-free placeholders, and inputs.\<close>

datatype tensor_op = Placeholder string | Compute string string bool "nat list" | OtherOp "nat list"

record tensor =
  tn_shape :: "pyval list"
  tn_op :: tensor_op

fun op_inputs :: "tensor_op \<Rightarrow> nat list" where
  "op_inputs (Placeholder _) = []"
| "op_inputs (Compute _ _ _ ts) = ts"
| "op_inputs (OtherOp ts) = ts"

text \<open>\<open>pat in s\<close> on strings.\<close>

definition str_in :: "string \<Rightarrow> string \<Rightarrow> bool" where
  "str_in pat s = list_ex (\<lambda>i. take (length pat) (drop i s) = pat) [0..<length s + 1]"

record walk =
  wk_inputs :: "nat list"
  wk_layout_free :: "nat list"
  wk_complex :: bool
  wk_visited :: "nat set"

definition const_shape :: "(pyval \<Rightarrow> pyval) \<Rightarrow> tensor list \<Rightarrow> nat \<Rightarrow> pyval res" where
  "const_shape simplify g t = get_const_tuple simplify (tn_shape (g ! t))"

text \<open>
  What is recorded of a convolution is only printed; the method is looked up on the tracing
  environment, which is \<open>None\<close> outside task extraction and layout rewriting.
\<close>

definition gather_all_conv2d_workloads :: "(pyval \<Rightarrow> pyval) \<Rightarrow> bool \<Rightarrow> tensor list \<Rightarrow> nat \<Rightarrow> unit res" where
  "gather_all_conv2d_workloads simplify has_env g t =
     (if \<not> has_env then Inl AttributeError
      else bindR (py_get (op_inputs (tn_op (g ! t))) 0) (\<lambda>padded_tensor.
        bindR (py_get (op_inputs (tn_op (g ! padded_tensor))) 0) (\<lambda>x.
        bindR (py_get (op_inputs (tn_op (g ! t))) 1) (\<lambda>w.
        bindR (const_shape simplify g x) (\<lambda>_. bindR (const_shape simplify g w) (\<lambda>_.
        bindR (const_shape simplify g t) (\<lambda>_. Inr ())))))))"

text \<open>The first argument is what is left of the recursion limit.\<close>

fun traverse :: "nat \<Rightarrow> (pyval \<Rightarrow> pyval) \<Rightarrow> bool \<Rightarrow> tensor list \<Rightarrow> nat \<Rightarrow> walk \<Rightarrow> walk res" where
  "traverse 0 simplify has_env g t w = Inl RecursionError"
| "traverse (Suc depth) simplify has_env g t w =
     (if t \<in> wk_visited w then Inr w
      else bindR (case tn_op (g ! t) of
          Placeholder _ \<Rightarrow> Inr (w\<lparr>wk_inputs := wk_inputs w @ [t]\<rparr>)
        | Compute name tag layout_free ts \<Rightarrow>
            let w1 = w\<lparr>wk_complex := wk_complex w \<or> str_in ''matmul'' name \<or> str_in ''conv'' name\<rparr> in
            bindR (if str_in ''conv2d'' tag then gather_all_conv2d_workloads simplify has_env g t else Inr ()) (\<lambda>_.
              let w2 = (if layout_free then w1\<lparr>wk_layout_free := wk_layout_free w1 @ [t]\<rparr> else w1) in
              foldR (traverse depth simplify has_env g) ts w2)
        | OtherOp _ \<Rightarrow> Inr w)
        (\<lambda>w. Inr (w\<lparr>wk_visited := insert t (wk_visited w)\<rparr>)))"

text \<open>The check for dynamic shapes, which stops at the first one.\<close>

fun all_static :: "(pyval \<Rightarrow> pyval) \<Rightarrow> tensor list \<Rightarrow> nat list \<Rightarrow> bool res" where
  "all_static simplify g [] = Inr True"
| "all_static simplify g (t # ts) = bindR (const_shape simplify g t) (\<lambda>shape.
     if (case shape of VTuple vs \<Rightarrow> list_all (\<lambda>v. case v of VInt _ \<Rightarrow> True | _ \<Rightarrow> False) vs | _ \<Rightarrow> False)
     then all_static simplify g ts else Inr False)"

definition traverse_to_get_io_tensors ::
  "nat \<Rightarrow> (pyval \<Rightarrow> pyval) \<Rightarrow> bool \<Rightarrow> tensor list \<Rightarrow> nat list \<Rightarrow> (nat list \<times> bool \<times> bool) res" where
  "traverse_to_get_io_tensors depth simplify has_env g outs =
     bindR (foldR (traverse depth simplify has_env g) outs
         \<lparr>wk_inputs = [], wk_layout_free = [], wk_complex = False, wk_visited = {}\<rparr>) (\<lambda>w.
       let io_tensors = wk_inputs w @ outs in
       bindR (all_static simplify g io_tensors) (\<lambda>static.
         Inr (if static then (io_tensors, wk_layout_free w \<noteq> [], wk_complex w) else ([], False, False))))"

text \<open>
  \<open>prepare_input_map\<close>: placeholders with a name of their own, then what the registered functions
  find (\<open>checked\<close>).
\<close>

definition prepare_input_map :: "tensor list \<Rightarrow> (nat list \<Rightarrow> (nat, string) dict) \<Rightarrow> nat list \<Rightarrow> (nat, string) dict" where
  "prepare_input_map g checked args =
     fold (\<lambda>(t, name). AList.update t name) (checked args)
       (fold (\<lambda>t d. case tn_op (g ! t) of
           Placeholder name \<Rightarrow> if name \<noteq> ''placeholder'' then AList.update t name d else d
         | _ \<Rightarrow> d) args [])"

section \<open>What is reached\<close>

fun walked :: "tensor_op \<Rightarrow> nat list" where
  "walked (Compute _ _ _ ts) = ts"
| "walked _ = []"

inductive reaches :: "tensor list \<Rightarrow> nat \<Rightarrow> nat \<Rightarrow> bool" for g :: "tensor list" where
  here: "reaches g t t"
| input: "u \<in> set (walked (tn_op (g ! t))) \<Longrightarrow> reaches g u v \<Longrightarrow> reaches g t v"

definition older_inputs :: "tensor list \<Rightarrow> bool" where
  "older_inputs g \<longleftrightarrow> (\<forall>t<length g. \<forall>u\<in>set (op_inputs (tn_op (g ! t))). u < t)"

abbreviation reach :: "tensor list \<Rightarrow> nat \<Rightarrow> nat set" where
  "reach g t \<equiv> {u. reaches g t u}"

fun is_placeholder :: "tensor_op \<Rightarrow> bool" where
  "is_placeholder (Placeholder _) = True"
| "is_placeholder _ = False"

fun complex_op :: "tensor_op \<Rightarrow> bool" where
  "complex_op (Compute name _ _ _) = (str_in ''matmul'' name \<or> str_in ''conv'' name)"
| "complex_op _ = False"

fun layout_free_op :: "tensor_op \<Rightarrow> bool" where
  "layout_free_op (Compute _ _ layout_free _) = layout_free"
| "layout_free_op _ = False"

fun conv2d_op :: "tensor_op \<Rightarrow> bool" where
  "conv2d_op (Compute _ tag _ _) = str_in ''conv2d'' tag"
| "conv2d_op _ = False"

lemma reach_unfold: "reach g t = insert t (\<Union>u\<in>set (walked (tn_op (g ! t))). reach g u)"
  by (auto intro: reaches.intros elim: reaches.cases)

definition closed :: "tensor list \<Rightarrow> nat set \<Rightarrow> bool" where
  "closed g V \<longleftrightarrow> (\<forall>t\<in>V. reach g t \<subseteq> V)"

text \<open>A walk has gone on by a set of tensors that it had not seen.\<close>

definition went_on :: "tensor list \<Rightarrow> nat set \<Rightarrow> walk \<Rightarrow> walk \<Rightarrow> bool" where
  "went_on g R w w' \<longleftrightarrow> wk_visited w' = wk_visited w \<union> R \<and>
     (\<exists>ts. wk_inputs w' = wk_inputs w @ ts \<and> distinct ts \<and>
        set ts = {u \<in> R - wk_visited w. is_placeholder (tn_op (g ! u))}) \<and>
     (wk_complex w' \<longleftrightarrow> wk_complex w \<or> (\<exists>u\<in>R - wk_visited w. complex_op (tn_op (g ! u)))) \<and>
     (wk_layout_free w' \<noteq> [] \<longleftrightarrow> wk_layout_free w \<noteq> [] \<or> (\<exists>u\<in>R - wk_visited w. layout_free_op (tn_op (g ! u))))"

lemma went_on_trans:
  assumes "went_on g R w w'" "went_on g S w' w''"
  shows "went_on g (R \<union> S) w w''"
proof -
  obtain ts where ts: "wk_inputs w' = wk_inputs w @ ts" "distinct ts"
    "set ts = {u \<in> R - wk_visited w. is_placeholder (tn_op (g ! u))}"
    using assms(1) unfolding went_on_def by blast
  obtain us where us: "wk_inputs w'' = wk_inputs w' @ us" "distinct us"
    "set us = {u \<in> S - wk_visited w'. is_placeholder (tn_op (g ! u))}"
    using assms(2) unfolding went_on_def by blast
  have v: "wk_visited w' = wk_visited w \<union> R" using assms(1) by (simp add: went_on_def)
  have "wk_inputs w'' = wk_inputs w @ (ts @ us)" "distinct (ts @ us)"
    "set (ts @ us) = {u \<in> (R \<union> S) - wk_visited w. is_placeholder (tn_op (g ! u))}"
    using ts us v by auto
  moreover have "wk_visited w'' = wk_visited w \<union> (R \<union> S)" using assms by (auto simp: went_on_def)
  moreover have "wk_complex w'' \<longleftrightarrow> wk_complex w \<or> (\<exists>u\<in>(R \<union> S) - wk_visited w. complex_op (tn_op (g ! u)))"
    using assms unfolding went_on_def by blast
  moreover have "wk_layout_free w'' \<noteq> [] \<longleftrightarrow>
      wk_layout_free w \<noteq> [] \<or> (\<exists>u\<in>(R \<union> S) - wk_visited w. layout_free_op (tn_op (g ! u)))"
    using assms unfolding went_on_def by blast
  ultimately show ?thesis unfolding went_on_def by blast
qed

lemma reaches_trans: "reaches g t u \<Longrightarrow> reaches g u v \<Longrightarrow> reaches g t v"
  by (induction rule: reaches.induct) (auto intro: reaches.intros)

lemma closed_union: "closed g V \<Longrightarrow> closed g (V \<union> reach g t)"
  by (auto simp: closed_def intro: reaches_trans)

lemma walked_older: "older_inputs g \<Longrightarrow> t < length g \<Longrightarrow> u \<in> set (walked (tn_op (g ! t))) \<Longrightarrow> u < t"
  by (cases "tn_op (g ! t)") (auto simp: older_inputs_def dest!: spec [of _ t])

lemma reach_older: "reaches g t u \<Longrightarrow> older_inputs g \<Longrightarrow> t < length g \<Longrightarrow> u \<le> t"
proof (induction rule: reaches.induct)
  case (input u t v)
  then have "u < t" by (simp add: walked_older)
  then show ?case using input by simp
qed simp

definition conv2d_fine :: "(pyval \<Rightarrow> pyval) \<Rightarrow> bool \<Rightarrow> tensor list \<Rightarrow> nat \<Rightarrow> bool" where
  "conv2d_fine simplify has_env g t \<longleftrightarrow>
     (conv2d_op (tn_op (g ! t)) \<longrightarrow> gather_all_conv2d_workloads simplify has_env g t = Inr ())"

lemma traverse_all:
  assumes "\<And>t w. t \<in> set ts \<Longrightarrow> closed g (wk_visited w) \<Longrightarrow>
      \<exists>w'. traverse depth simplify has_env g t w = Inr w' \<and> went_on g (reach g t) w w'"
    and "closed g (wk_visited w)"
  shows "\<exists>w'. foldR (traverse depth simplify has_env g) ts w = Inr w' \<and> went_on g (\<Union>t\<in>set ts. reach g t) w w'"
  using assms
proof (induction ts arbitrary: w)
  case Nil
  then show ?case by (simp add: went_on_def)
next
  case (Cons t ts)
  obtain w1 where w1: "traverse depth simplify has_env g t w = Inr w1" "went_on g (reach g t) w w1"
    using Cons.prems by auto
  have "closed g (wk_visited w1)" using Cons.prems(2) w1(2) by (simp add: went_on_def closed_union)
  then obtain w2 where "foldR (traverse depth simplify has_env g) ts w1 = Inr w2"
    "went_on g (\<Union>t\<in>set ts. reach g t) w1 w2"
    using Cons.IH [of w1] Cons.prems(1) by auto
  then show ?case using w1(1) went_on_trans [OF w1(2)] by fastforce
qed

lemma traverse_goes_on:
  assumes "older_inputs g" "t < length g" "t < depth" "closed g (wk_visited w)"
    and "\<forall>u\<in>reach g t. conv2d_fine simplify has_env g u"
  shows "\<exists>w'. traverse depth simplify has_env g t w = Inr w' \<and> went_on g (reach g t) w w'"
  using assms
proof (induction depth arbitrary: t w)
  case (Suc depth)
  note older = walked_older [OF Suc.prems(1,2)]
  show ?case
  proof (cases "t \<in> wk_visited w")
    case True
    then have "reach g t \<subseteq> wk_visited w" using Suc.prems(4) by (simp add: closed_def)
    then have "wk_visited w \<union> reach g t = wk_visited w" "reach g t - wk_visited w = {}" by blast+
    then show ?thesis using True by (auto simp: went_on_def)
  next
    case new: False
    show ?thesis
    proof (cases "tn_op (g ! t)")
      case (Compute name tag layout_free ts)
      define w2 where "w2 = (let w1 = w\<lparr>wk_complex := wk_complex w \<or> str_in ''matmul'' name \<or> str_in ''conv'' name\<rparr>
        in if layout_free then w1\<lparr>wk_layout_free := wk_layout_free w1 @ [t]\<rparr> else w1)"
      have v: "wk_visited w2 = wk_visited w" "wk_inputs w2 = wk_inputs w"
        "wk_complex w2 \<longleftrightarrow> wk_complex w \<or> complex_op (tn_op (g ! t))"
        "wk_layout_free w2 \<noteq> [] \<longleftrightarrow> wk_layout_free w \<noteq> [] \<or> layout_free_op (tn_op (g ! t))"
        by (simp_all add: w2_def Compute Let_def)
      have step: "\<exists>w'. traverse depth simplify has_env g u w = Inr w' \<and> went_on g (reach g u) w w'"
        if u: "u \<in> set ts" and c: "closed g (wk_visited w)" for u w
      proof (rule Suc.IH [OF Suc.prems(1) _ _ c])
        have "u < t" using older u Compute by simp
        then show "u < length g" "u < depth" using Suc.prems(2,3) by simp_all
        show "\<forall>v\<in>reach g u. conv2d_fine simplify has_env g v"
          using Suc.prems(5) u Compute reaches.input [of u g t] by auto
      qed
      have "closed g (wk_visited w2)" using v(1) Suc.prems(4) by simp
      then obtain w3 where w3: "foldR (traverse depth simplify has_env g) ts w2 = Inr w3"
        "went_on g (\<Union>u\<in>set ts. reach g u) w2 w3" using traverse_all [OF step] by blast
      let ?R = "\<Union>u\<in>set ts. reach g u"
      have t: "t \<notin> ?R" using older Compute reach_older Suc.prems(1,2) by fastforce
      have R: "reach g t = insert t ?R" using reach_unfold [of g t] Compute by simp
      have "conv2d_fine simplify has_env g t" using Suc.prems(5) by (auto intro: reaches.here)
      then have "traverse (Suc depth) simplify has_env g t w = Inr (w3\<lparr>wk_visited := insert t (wk_visited w3)\<rparr>)"
        using new w3(1) by (simp add: Compute conv2d_fine_def w2_def Let_def)
      moreover have "went_on g (reach g t) w (w3\<lparr>wk_visited := insert t (wk_visited w3)\<rparr>)"
      proof -
        have "?R - wk_visited w2 = ?R - wk_visited w" "insert t ?R - wk_visited w = insert t (?R - wk_visited w)"
          using v(1) new by auto
        then show ?thesis using w3(2) t new unfolding R went_on_def v by (auto simp: Compute)
      qed
      ultimately show ?thesis by blast
    qed (use new in \<open>auto simp: went_on_def reach_unfold [of g t]\<close>)
  qed
qed simp

text \<open>Without a tracing environment the first convolution with its tag ends the traversal.\<close>

lemma traverse_stops:
  assumes "older_inputs g" "t < length g" "t < depth" "closed g (wk_visited w)"
    and "\<exists>u\<in>reach g t. conv2d_op (tn_op (g ! u))" "\<forall>u\<in>wk_visited w. \<not> conv2d_op (tn_op (g ! u))"
  shows "traverse depth simplify False g t w = Inl AttributeError"
  using assms
proof (induction depth arbitrary: t w)
  case (Suc depth)
  note older = walked_older [OF Suc.prems(1,2)]
  obtain u where u: "reaches g t u" "conv2d_op (tn_op (g ! u))" using Suc.prems(5) by blast
  have new: "t \<notin> wk_visited w" using u Suc.prems(4,6) by (auto simp: closed_def)
  have "\<exists>name tag layout_free ts. tn_op (g ! t) = Compute name tag layout_free ts"
    using u by (cases "tn_op (g ! t)") (auto elim: reaches.cases)
  then obtain name tag layout_free ts where op: "tn_op (g ! t) = Compute name tag layout_free ts" by blast
  show ?case
  proof (cases "str_in ''conv2d'' tag")
    case True
    then show ?thesis using new by (simp add: op gather_all_conv2d_workloads_def Let_def)
  next
    case False
    have "\<exists>v\<in>set ts. \<exists>u\<in>reach g v. conv2d_op (tn_op (g ! u))"
      using u(1)
    proof cases
      case here
      then show ?thesis using u(2) op False by simp
    next
      case (input v)
      then show ?thesis using u(2) op by auto
    qed
    moreover have "foldR (traverse depth simplify False g) ts w = Inl AttributeError"
      if "\<exists>v\<in>set ts. \<exists>u\<in>reach g v. conv2d_op (tn_op (g ! u))" "\<forall>v\<in>set ts. v < t"
        "closed g (wk_visited w)" "\<forall>u\<in>wk_visited w. \<not> conv2d_op (tn_op (g ! u))" for ts w
      using that
    proof (induction ts arbitrary: w)
      case (Cons v ts)
      have v: "v < length g" "v < depth" using Cons.prems(2) Suc.prems(2,3) by simp_all
      show ?case
      proof (cases "\<exists>u\<in>reach g v. conv2d_op (tn_op (g ! u))")
        case True
        then show ?thesis using Suc.IH [OF Suc.prems(1) v Cons.prems(3) True Cons.prems(4)] by simp
      next
        case False
        then have "\<forall>u\<in>reach g v. conv2d_fine simplify False g u" by (simp add: conv2d_fine_def)
        from traverse_goes_on [OF Suc.prems(1) v Cons.prems(3) this] obtain w' where
          w': "traverse depth simplify False g v w = Inr w'" "went_on g (reach g v) w w'" by blast
        then have "wk_visited w' = wk_visited w \<union> reach g v" by (simp add: went_on_def)
        then have "closed g (wk_visited w')" "\<forall>u\<in>wk_visited w'. \<not> conv2d_op (tn_op (g ! u))"
          using Cons.prems(3,4) False by (auto simp: closed_union)
        then have "foldR (traverse depth simplify False g) ts w' = Inl AttributeError"
          using Cons.IH Cons.prems(1,2) False by auto
        then show ?thesis using w'(1) by simp
      qed
    qed simp
    ultimately show ?thesis using new False Suc.prems(4,6) older op
      by (simp add: Let_def)
  qed
qed simp

lemma outs_stop:
  assumes "older_inputs g" "\<forall>t\<in>set outs. t < length g" "length g \<le> depth" "closed g (wk_visited w)"
    and "\<exists>t\<in>set outs. \<exists>u\<in>reach g t. conv2d_op (tn_op (g ! u))"
    and "\<forall>u\<in>wk_visited w. \<not> conv2d_op (tn_op (g ! u))"
  shows "foldR (traverse depth simplify False g) outs w = Inl AttributeError"
  using assms
proof (induction outs arbitrary: w)
  case (Cons t outs)
  have t: "t < length g" "t < depth" using Cons.prems(2,3) by simp_all
  show ?case
  proof (cases "\<exists>u\<in>reach g t. conv2d_op (tn_op (g ! u))")
    case True
    then show ?thesis using traverse_stops [OF Cons.prems(1) t Cons.prems(4) True Cons.prems(6)] by simp
  next
    case False
    then have "\<forall>u\<in>reach g t. conv2d_fine simplify False g u" by (simp add: conv2d_fine_def)
    from traverse_goes_on [OF Cons.prems(1) t Cons.prems(4) this] obtain w' where
      w': "traverse depth simplify False g t w = Inr w'" "went_on g (reach g t) w w'" by blast
    then have "wk_visited w' = wk_visited w \<union> reach g t" by (simp add: went_on_def)
    then have "closed g (wk_visited w')" "\<forall>u\<in>wk_visited w'. \<not> conv2d_op (tn_op (g ! u))"
      using Cons.prems(4,6) False by (auto simp: closed_union)
    then show ?thesis using Cons.IH [of w'] Cons.prems False w'(1) by auto
  qed
qed simp

definition static_tensor :: "(pyval \<Rightarrow> pyval) \<Rightarrow> tensor list \<Rightarrow> nat \<Rightarrow> bool" where
  "static_tensor simplify g t \<longleftrightarrow> (\<exists>ns. const_shape simplify g t = Inr (VTuple (map VInt ns)))"

lemma all_static_iff: "all_static simplify g ts = Inr True \<longleftrightarrow> (\<forall>t\<in>set ts. static_tensor simplify g t)"
proof (induction ts)
  case (Cons t ts)
  have ints: "list_all (\<lambda>v. case v of VInt _ \<Rightarrow> True | _ \<Rightarrow> False) vs \<longleftrightarrow> (\<exists>ns. vs = map VInt ns)" for vs
  proof (induction vs)
    case (Cons v vs)
    then show ?case by (cases v) (auto simp: Cons_eq_map_conv)
  qed simp
  show ?case
    using Cons by (cases "const_shape simplify g t") (auto simp: static_tensor_def ints split: pyval.splits)
qed simp

abbreviation reach_all :: "tensor list \<Rightarrow> nat list \<Rightarrow> nat set" where
  "reach_all g outs \<equiv> \<Union>t\<in>set outs. reach g t"

text \<open>
  C32. \<open>traverse_to_get_io_tensors\<close> on a tensor expression whose inputs are older than what reads them.
  Outside task extraction and layout rewriting it raises \<open>AttributeError\<close> as soon as some reachable
  operation is tagged as a two-dimensional convolution, because it records the convolution in an
  environment that is \<open>None\<close>. Otherwise, if no shape has to be simplified in vain, it lists each
  reachable placeholder once and then the outputs, and says whether a layout-free placeholder is
  reachable, and whether an operation is whose name contains ''matmul'' or ''conv''; it gives nothing
  at all when one of these tensors has a dynamic shape. The documentation describes the second flag
  as that of an operation that reduces; the code decides by the name alone, so a reduction under
  another name does not count, and a padding called after its convolution does.
\<close>

theorem io_tensors_found:
  assumes "older_inputs g" "\<forall>t\<in>set outs. t < length g" "length g \<le> depth"
    and "has_env \<longrightarrow> (\<forall>u\<in>reach_all g outs. conv2d_fine simplify True g u)"
  shows "if \<not> has_env \<and> (\<exists>u\<in>reach_all g outs. conv2d_op (tn_op (g ! u)))
    then traverse_to_get_io_tensors depth simplify has_env g outs = Inl AttributeError
    else \<exists>ins. distinct ins \<and> set ins = {u \<in> reach_all g outs. is_placeholder (tn_op (g ! u))} \<and>
      traverse_to_get_io_tensors depth simplify has_env g outs =
        bindR (all_static simplify g (ins @ outs)) (\<lambda>static. Inr (if static
          then (ins @ outs, \<exists>u\<in>reach_all g outs. layout_free_op (tn_op (g ! u)),
            \<exists>u\<in>reach_all g outs. complex_op (tn_op (g ! u)))
          else ([], False, False)))"
proof -
  let ?w = "\<lparr>wk_inputs = [], wk_layout_free = [], wk_complex = False, wk_visited = {}\<rparr>"
  have closed: "closed g (wk_visited ?w)" by (simp add: closed_def)
  show ?thesis
  proof (cases "\<not> has_env \<and> (\<exists>u\<in>reach_all g outs. conv2d_op (tn_op (g ! u)))")
    case True
    then have "foldR (traverse depth simplify has_env g) outs ?w = Inl AttributeError"
      using outs_stop [OF assms(1-3) closed] by auto
    then show ?thesis using True by (simp add: traverse_to_get_io_tensors_def)
  next
    case False
    then have "\<forall>u\<in>reach_all g outs. conv2d_fine simplify has_env g u"
      using assms(4) by (cases has_env) (auto simp: conv2d_fine_def)
    then have "\<exists>w'. traverse depth simplify has_env g t w = Inr w' \<and> went_on g (reach g t) w w'"
      if "t \<in> set outs" "closed g (wk_visited w)" for t w
      using that assms(2,3) by (intro traverse_goes_on [OF assms(1)]) (auto dest: bspec)
    from traverse_all [OF this closed] obtain w' where
      w': "foldR (traverse depth simplify has_env g) outs ?w = Inr w'" "went_on g (reach_all g outs) ?w w'" by blast
    then obtain ins where ins: "wk_inputs w' = ins" "distinct ins"
      "set ins = {u \<in> reach_all g outs. is_placeholder (tn_op (g ! u))}"
      by (auto simp: went_on_def)
    have flags: "(wk_layout_free w' \<noteq> []) = (\<exists>u\<in>reach_all g outs. layout_free_op (tn_op (g ! u)))"
      "wk_complex w' = (\<exists>u\<in>reach_all g outs. complex_op (tn_op (g ! u)))"
      using w'(2) by (simp_all add: went_on_def)
    have "traverse_to_get_io_tensors depth simplify has_env g outs =
        bindR (all_static simplify g (ins @ outs)) (\<lambda>static. Inr (if static
          then (ins @ outs, \<exists>u\<in>reach_all g outs. layout_free_op (tn_op (g ! u)),
            \<exists>u\<in>reach_all g outs. complex_op (tn_op (g ! u)))
          else ([], False, False)))"
      by (simp only: traverse_to_get_io_tensors_def w'(1) bindR_simps Let_def ins(1) flags)
    then show ?thesis using False ins(2,3) by (simp only: if_False) blast
  qed
qed

definition dense_graph :: "tensor list" where
  "dense_graph = (let t = (\<lambda>ns op. \<lparr>tn_shape = map VInt ns, tn_op = op\<rparr>) in
     [t [16, 8] (Placeholder ''X''), t [4, 8] (Placeholder ''placeholder''),
      t [16, 4] (Compute ''T_matmul_NT'' ''matmul'' False [0, 1]), t [16, 4] (Compute ''T_relu'' ''elemwise'' False [2])])"

lemma dense_graph_fine:
  "older_inputs dense_graph" "reaches dense_graph 3 u \<Longrightarrow> \<not> conv2d_op (tn_op (dense_graph ! u))"
proof -
  have all: "\<forall>t<length dense_graph. (\<forall>u\<in>set (op_inputs (tn_op (dense_graph ! t))). u < t) \<and>
      \<not> conv2d_op (tn_op (dense_graph ! t))" by code_simp
  then show "older_inputs dense_graph" by (simp add: older_inputs_def)
  moreover have "3 < length dense_graph" by code_simp
  moreover assume "reaches dense_graph 3 u"
  ultimately have "u < length dense_graph" using reach_older by fastforce
  then show "\<not> conv2d_op (tn_op (dense_graph ! u))" using all by blast
qed

lemma io_tensors_found_witness:
  "\<exists>ins. distinct ins \<and> set ins = {u \<in> reach_all dense_graph [3]. is_placeholder (tn_op (dense_graph ! u))} \<and>
     traverse_to_get_io_tensors 4 id False dense_graph [3] = Inr (ins @ [3], False, True)"
proof -
  have g: "length dense_graph = 4" by code_simp
  have n: "\<not> (\<exists>u\<in>reach_all dense_graph [3]. conv2d_op (tn_op (dense_graph ! u)))"
    using dense_graph_fine(2) by auto
  have v: "traverse_to_get_io_tensors 4 id False dense_graph [3] = Inr ([0, 1] @ [3], False, True)" by code_simp
  obtain ins where i: "distinct ins"
    "set ins = {u \<in> reach_all dense_graph [3]. is_placeholder (tn_op (dense_graph ! u))}"
    "\<exists>a b. traverse_to_get_io_tensors 4 id False dense_graph [3] =
      bindR (all_static id dense_graph (ins @ [3])) (\<lambda>static. Inr (if static then (ins @ [3], a, b) else ([], False, False)))"
  proof -
    have p: "\<forall>t\<in>set [3]. t < length dense_graph" "length dense_graph \<le> 4"
      "False \<longrightarrow> (\<forall>u\<in>reach_all dense_graph [3]. conv2d_fine id True dense_graph u)" using g by simp_all
    have e: "(\<not> False \<and> (\<exists>u\<in>reach_all dense_graph [3]. conv2d_op (tn_op (dense_graph ! u)))) = False"
      using n by simp
    show thesis using io_tensors_found [OF dense_graph_fine(1) p, unfolded e if_False]
    proof (elim exE conjE)
      fix ins assume i: "distinct ins"
        "set ins = {u \<in> reach_all dense_graph [3]. is_placeholder (tn_op (dense_graph ! u))}"
        "traverse_to_get_io_tensors 4 id False dense_graph [3] =
          bindR (all_static id dense_graph (ins @ [3])) (\<lambda>static. Inr (if static
            then (ins @ [3], \<exists>u\<in>reach_all dense_graph [3]. layout_free_op (tn_op (dense_graph ! u)),
              \<exists>u\<in>reach_all dense_graph [3]. complex_op (tn_op (dense_graph ! u)))
            else ([], False, False)))"
      show thesis by (rule that [OF i(1,2)]) (intro exI, rule i(3))
    qed
  qed
  have "ins = [0, 1]" using i(3) unfolding v by (cases "all_static id dense_graph (ins @ [3])") (simp_all split: if_splits)
  then show ?thesis using i(1,2) v by (intro exI [of _ ins] conjI) simp_all
qed

end
