(* ===== verification/TaskInputs.thy ===== *)
theory TaskInputs
  imports TensorTraversal StateExc
begin

text \<open>
  Special input buffers of the measurements: the module variable \<open>TASK_INPUT_BUFFER_TABLE\<close> of
  \<open>tvm/python/tvm/auto_scheduler/search_task.py\<close>, its registration, look-up and files, and
  \<open>prepare_runner_args\<close> of \<open>measure.py\<close>, which picks the buffers for the arguments of a built
  program. NumPy's text files are a parameter (\<open>tofile\<close>, \<open>fromfile\<close>), and so is the order of
  \<open>os.listdir\<close>.
\<close>

section \<open>Strings\<close>

text \<open>\<open>s.split(c)\<close> for one character.\<close>

fun split_on_char :: "char \<Rightarrow> string \<Rightarrow> string list" where
  "split_on_char d [] = [[]]"
| "split_on_char d (c # s) =
     (if c = d then [] # split_on_char d s
      else (case split_on_char d s of [] \<Rightarrow> [[c]] | w # ws \<Rightarrow> (c # w) # ws))"

text \<open>\<open>s.startswith(p)\<close>\<close>

fun starts_with :: "string \<Rightarrow> string \<Rightarrow> bool" where
  "starts_with [] s = True"
| "starts_with (p # ps) [] = False"
| "starts_with (p # ps) (c # s) = (p = c \<and> starts_with ps s)"

text \<open>\<open>"%d" % n\<close> of a dimension, and \<open>int(s)\<close>; a piece between underscores has none in it.\<close>

fun show_dim :: "nat \<Rightarrow> string" where
  "show_dim n = (if n < 10 then [char_of (48 + n)] else show_dim (n div 10) @ [char_of (48 + n mod 10)])"

declare show_dim.simps [simp del]

definition digit_value :: "char \<Rightarrow> int" where
  "digit_value c = int (of_char c) - 48"

definition decimal :: "string \<Rightarrow> int res" where
  "decimal s =
     (if s \<noteq> [] \<and> list_all (\<lambda>c. 0 \<le> digit_value c \<and> digit_value c \<le> 9) s
      then Inr (foldl (\<lambda>n c. 10 * n + digit_value c) 0 s) else Inl ValueError)"

definition blank :: "char \<Rightarrow> bool" where
  "blank c = (c \<in> {CHR '' '', CHR 0x09, CHR 0x0A, CHR 0x0B, CHR 0x0C, CHR 0x0D})"

definition int_of_string :: "string \<Rightarrow> int res" where
  "int_of_string s = (case dropWhile blank (rev (dropWhile blank (rev s))) of
       [] \<Rightarrow> Inl ValueError
     | c # ds \<Rightarrow>
         if c = CHR ''-'' then bindR (decimal ds) (\<lambda>n. Inr (- n))
         else if c = CHR ''+'' then decimal ds
         else decimal (c # ds))"

section \<open>State\<close>

text \<open>An array is its shape, the name of its type of numbers, and its numbers in order.\<close>

record 'n buffer =
  bf_shape :: "nat list"
  bf_dtype :: string
  bf_data :: "'n list"

text \<open>The table, and the text files of the working directory.\<close>

record ('n, 't) input_env =
  ie_table :: "(string, (string, 'n buffer) dict) dict"
  ie_files :: "string \<rightharpoonup> 't"

text \<open>NumPy and the directory listing.\<close>

record ('n, 't) array_files =
  af_tofile :: "'n list \<Rightarrow> 't"
  af_fromfile :: "string \<Rightarrow> 't \<Rightarrow> 'n list res"
  af_listdir :: "(string \<rightharpoonup> 't) \<Rightarrow> string list"

section \<open>Files\<close>

definition buffer_filename :: "string \<Rightarrow> 'n buffer \<Rightarrow> string" where
  "buffer_filename buffer_name b =
     buffer_name @ ''.'' @ concat (map (\<lambda>i. show_dim i @ ''_'') (bf_shape b)) @ bf_dtype b @ ''.npy''"

definition save_buffer_to_file ::
  "('n, 't) array_files \<Rightarrow> string \<Rightarrow> 'n buffer \<Rightarrow> (('n, 't) input_env, unit) sx" where
  "save_buffer_to_file af buffer_name b = modS (\<lambda>s.
     s\<lparr>ie_files := (ie_files s)(buffer_filename buffer_name b \<mapsto> af_tofile af (bf_data b))\<rparr>)"

text \<open>\<open>reshape\<close>: one dimension may be -1, the others must multiply to the rest.\<close>

definition reshape :: "int list \<Rightarrow> 'n list \<Rightarrow> nat list res" where
  "reshape shape data =
     (let known = prodlist (filter (\<lambda>i. i \<noteq> - 1) shape); n = int (length data) in
      if list_all (\<lambda>i. i \<ge> 0) shape then (if known = n then Inr (map nat shape) else Inl ValueError)
      else if list_all (\<lambda>i. i \<ge> - 1) shape \<and> length (filter (\<lambda>i. i = - 1) shape) = 1 \<and> known \<noteq> 0 \<and> known dvd n
      then Inr (map (\<lambda>i. if i = - 1 then nat (n div known) else nat i) shape)
      else Inl ValueError)"

definition read_buffer :: "('n, 't) array_files \<Rightarrow> string \<Rightarrow> 't \<Rightarrow> 'n buffer res" where
  "read_buffer af file content =
     bindR (py_get (split_on_char (CHR ''.'') file) (- 2)) (\<lambda>meta.
       let meta_info = split_on_char (CHR ''_'') meta; dtype = last meta_info in
       bindR (mapR int_of_string (butlast meta_info)) (\<lambda>shape.
       bindR (af_fromfile af dtype content) (\<lambda>data.
       bindR (reshape shape data) (\<lambda>dims.
         Inr \<lparr>bf_shape = dims, bf_dtype = dtype, bf_data = data\<rparr>))))"

text \<open>The first listed file whose name begins with the name of the buffer and a dot is taken.\<close>

fun load_first :: "('n, 't) array_files \<Rightarrow> string \<Rightarrow> (string \<rightharpoonup> 't) \<Rightarrow> string list \<Rightarrow> 'n buffer option res" where
  "load_first af buffer_name files [] = Inr None"
| "load_first af buffer_name files (file # filelist) =
     (if starts_with (buffer_name @ ''.'') file
      then bindR (case files file of None \<Rightarrow> Inl FileNotFoundError | Some content \<Rightarrow> read_buffer af file content)
             (\<lambda>b. Inr (Some b))
      else load_first af buffer_name files filelist)"

definition try_load_buffer_from_file ::
  "('n, 't) array_files \<Rightarrow> string \<Rightarrow> (('n, 't) input_env, 'n buffer option) sx" where
  "try_load_buffer_from_file af buffer_name =
     (\<lambda>s. (load_first af buffer_name (ie_files s) (af_listdir af (ie_files s)), s))"

section \<open>The table\<close>

definition ensure_table :: "string \<Rightarrow> (('n, 't) input_env, unit) sx" where
  "ensure_table workload_key = modS (\<lambda>s.
     if workload_key \<in> fst ` set (ie_table s) then s
     else s\<lparr>ie_table := AList.update workload_key [] (ie_table s)\<rparr>)"

definition input_table :: "string \<Rightarrow> ('n, 't) input_env \<Rightarrow> (string, 'n buffer) dict" where
  "input_table workload_key s = (case map_of (ie_table s) workload_key of None \<Rightarrow> [] | Some d \<Rightarrow> d)"

definition put_buffer :: "string \<Rightarrow> string \<Rightarrow> 'n buffer \<Rightarrow> (('n, 't) input_env, unit) sx" where
  "put_buffer workload_key input_name b = modS (\<lambda>s. s\<lparr>ie_table :=
     AList.update workload_key (AList.update input_name b (input_table workload_key s)) (ie_table s)\<rparr>)"

text \<open>What a file offers goes into the table.\<close>

definition load_into_table :: "('n, 't) array_files \<Rightarrow> string \<Rightarrow> string \<Rightarrow> (('n, 't) input_env, unit) sx" where
  "load_into_table af workload_key input_name =
     bindS (try_load_buffer_from_file af input_name) (\<lambda>tensor_from_file.
       case tensor_from_file of None \<Rightarrow> retS () | Some b \<Rightarrow> put_buffer workload_key input_name b)"

definition register_task_input_buffer ::
  "('n, 't) array_files \<Rightarrow> string \<Rightarrow> string \<Rightarrow> 'n buffer \<Rightarrow> bool \<Rightarrow> bool \<Rightarrow> (('n, 't) input_env, 'n buffer) sx" where
  "register_task_input_buffer af workload_key input_name input_data overwrite save_to_file =
     thenS (ensure_table workload_key)
       (bindS (getS (input_table workload_key)) (\<lambda>table.
          thenS
            (if \<not> overwrite
             then (if input_name \<notin> fst ` set table then load_into_table af workload_key input_name
                   else raiseS RuntimeError)
             else retS ())
            (thenS (put_buffer workload_key input_name input_data)
               (thenS (if save_to_file then save_buffer_to_file af input_name input_data else retS ())
                  (retS input_data)))))"

definition get_task_input_buffer ::
  "('n, 't) array_files \<Rightarrow> string \<Rightarrow> string \<Rightarrow> (('n, 't) input_env, 'n buffer) sx" where
  "get_task_input_buffer af workload_key input_name =
     thenS (ensure_table workload_key)
       (bindS (getS (input_table workload_key)) (\<lambda>table.
          thenS (if input_name \<notin> fst ` set table then load_into_table af workload_key input_name else retS ())
            (bindS (getS (input_table workload_key)) (\<lambda>table.
               bindS (if input_name \<in> fst ` set table then retS table
                      else bindS (getS ie_table) (\<lambda>all. liftS (dict_get all ''default'')))
                 (\<lambda>table. case map_of table input_name of
                    Some b \<Rightarrow> retS b
                  | None \<Rightarrow> raiseS ValueError)))))"

section \<open>The arguments of a run\<close>

text \<open>
  One argument of the built program, and how many special inputs there have been; \<open>None\<close> stands for
  a buffer to be filled at random.
\<close>

definition runner_arg ::
  "('n, 't) array_files \<Rightarrow> string \<Rightarrow> string list \<Rightarrow> (nat, string) dict \<Rightarrow> nat \<Rightarrow>
     (('n, 't) input_env, 'n buffer option) sx" where
  "runner_arg af workload_key task_input_names tensor_input_map arg =
     (case map_of tensor_input_map arg of
        None \<Rightarrow> retS None
      | Some tensor_name \<Rightarrow>
          if tensor_name \<in> set task_input_names
          then bindS (get_task_input_buffer af workload_key tensor_name) (\<lambda>b. retS (Some b))
          else raiseS ValueError)"

primrec runner_args ::
  "('n, 't) array_files \<Rightarrow> string \<Rightarrow> string list \<Rightarrow> (nat, string) dict \<Rightarrow> nat list \<Rightarrow>
     (('n, 't) input_env, 'n buffer option list) sx" where
  "runner_args af wkey names tmap [] = retS []"
| "runner_args af wkey names tmap (arg # args) =
     bindS (runner_arg af wkey names tmap arg) (\<lambda>b.
       bindS (runner_args af wkey names tmap args) (\<lambda>bs. retS (b # bs)))"

definition prepare_runner_args ::
  "('n, 't) array_files \<Rightarrow> tensor list \<Rightarrow> (nat list \<Rightarrow> (nat, string) dict) \<Rightarrow> string \<Rightarrow> string list \<Rightarrow> nat list \<Rightarrow>
     (('n, 't) input_env, 'n buffer option list) sx" where
  "prepare_runner_args af g checked workload_key task_input_names res_args =
     (let tensor_input_map = (if task_input_names = [] then [] else prepare_input_map g checked res_args) in
      bindS (runner_args af workload_key task_input_names tensor_input_map res_args) (\<lambda>args.
        if length (filter (\<lambda>b. b \<noteq> None) args) \<noteq> length task_input_names then raiseS RuntimeError
        else retS args))"

text \<open>\<open>SearchTask.__init__\<close> registers the dictionary it is given, entry by entry.\<close>

primrec register_task_inputs ::
  "('n, 't) array_files \<Rightarrow> string \<Rightarrow> bool \<Rightarrow> bool \<Rightarrow> (string \<times> 'n buffer) list \<Rightarrow> (('n, 't) input_env, string list) sx" where
  "register_task_inputs af wkey overwrite save_to_file [] = retS []"
| "register_task_inputs af wkey overwrite save_to_file (nb # task_inputs) =
     thenS (register_task_input_buffer af wkey (fst nb) (snd nb) overwrite save_to_file)
       (bindS (register_task_inputs af wkey overwrite save_to_file task_inputs) (\<lambda>names. retS (fst nb # names)))"

section \<open>Names of files\<close>

lemma digit_value_of [simp]: "n < 10 \<Longrightarrow> digit_value (char_of (48 + n)) = int n"
  by (simp add: digit_value_def of_char_of)

lemma digit_char: "(n :: nat) < 10 \<Longrightarrow> 48 \<le> (of_char (char_of (48 + n) :: char) :: nat) \<and> (of_char (char_of (48 + n) :: char) :: nat) < 58"
  by (simp add: of_char_of)

lemma show_dim_digits: "c \<in> set (show_dim n) \<Longrightarrow> 48 \<le> (of_char c :: nat) \<and> (of_char c :: nat) < 58"
proof (induction n rule: show_dim.induct)
  case (1 n)
  show ?case
  proof (cases "n < 10")
    case True
    with 1(2) show ?thesis using digit_char [of n] by (simp add: show_dim.simps [of n])
  next
    case False
    then have "c \<in> set (show_dim (n div 10)) \<or> c = char_of (48 + n mod 10)"
      using 1(2) by (auto simp: show_dim.simps [of n])
    then show ?thesis using 1(1) [OF False] digit_char [of "n mod 10"] by auto
  qed
qed

lemma show_dim_not_Nil [simp]: "show_dim n \<noteq> []"
  by (simp add: show_dim.simps [of n])

lemma decimal_fold: "foldl (\<lambda>k c. 10 * k + digit_value c) 0 (show_dim n) = int n"
proof (induction n rule: show_dim.induct)
  case (1 n)
  show ?case
  proof (cases "n < 10")
    case True
    then show ?thesis by (simp add: show_dim.simps [of n])
  next
    case False
    then have "foldl (\<lambda>k c. 10 * k + digit_value c) 0 (show_dim n) = 10 * int (n div 10) + int (n mod 10)"
      using 1 by (simp add: show_dim.simps [of n])
    also have "\<dots> = int n" by (metis mult_div_mod_eq of_nat_add of_nat_mult of_nat_numeral)
    finally show ?thesis .
  qed
qed

lemma decimal_show: "decimal (show_dim n) = Inr (int n)"
proof -
  have "list_all (\<lambda>c. 0 \<le> digit_value c \<and> digit_value c \<le> 9) (show_dim n)"
    using show_dim_digits by (fastforce simp: list_all_iff digit_value_def)
  then show ?thesis by (simp add: decimal_def decimal_fold)
qed

lemma digit_is_plain:
  assumes "48 \<le> (of_char c :: nat)" "(of_char c :: nat) < 58"
  shows "\<not> blank c" "c \<noteq> CHR ''-''" "c \<noteq> CHR ''+''" "c \<noteq> CHR ''.''" "c \<noteq> CHR ''_''"
  using assms by (auto simp: blank_def)

lemma dropWhile_no: "xs \<noteq> [] \<Longrightarrow> (\<And>x. x \<in> set xs \<Longrightarrow> \<not> P x) \<Longrightarrow> dropWhile P xs = xs"
  by (cases xs) auto

lemma int_of_show [simp]: "int_of_string (show_dim n) = Inr (int n)"
proof -
  have nb: "\<And>c. c \<in> set (show_dim n) \<Longrightarrow> \<not> blank c" by (blast dest: show_dim_digits digit_is_plain)
  obtain c ds where c: "show_dim n = c # ds" by (cases "show_dim n") auto
  have "c \<noteq> CHR ''-''" "c \<noteq> CHR ''+''"
    using show_dim_digits [of c n] digit_is_plain [of c] c by auto
  moreover have "dropWhile blank (rev (dropWhile blank (rev (show_dim n)))) = show_dim n"
    using dropWhile_no [of "rev (show_dim n)" blank] dropWhile_no [of "show_dim n" blank] nb by simp
  ultimately show ?thesis using decimal_show [of n] by (simp add: int_of_string_def c)
qed

lemma split_on_char_not_Nil [simp]: "split_on_char d s \<noteq> []"
  by (induction s) (auto split: list.split)

lemma split_on_char_no: "d \<notin> set w \<Longrightarrow> split_on_char d w = [w]"
  by (induction w) auto

lemma split_on_char_app: "d \<notin> set w \<Longrightarrow> split_on_char d (w @ d # s) = w # split_on_char d s"
  by (induction w) auto

lemma split_on_char_join: "split_on_char d (u @ d # s) = split_on_char d u @ split_on_char d s"
  by (induction u) (auto split: list.split)

text \<open>The name of the file gives back the shape and the type of numbers.\<close>

definition dtype_ok :: "string \<Rightarrow> bool" where
  "dtype_ok dtype \<longleftrightarrow> CHR ''.'' \<notin> set dtype \<and> CHR ''_'' \<notin> set dtype"

lemma split_meta:
  "dtype_ok dtype \<Longrightarrow>
     split_on_char (CHR ''_'') (concat (map (\<lambda>i. show_dim i @ ''_'') dims) @ dtype) = map show_dim dims @ [dtype]"
proof (induction dims)
  case Nil
  then show ?case by (simp add: dtype_ok_def split_on_char_no)
next
  case (Cons n dims)
  have "CHR ''_'' \<notin> set (show_dim n)" using show_dim_digits digit_is_plain(5) by blast
  then show ?case using Cons by (simp add: split_on_char_app)
qed

lemma split_name:
  assumes "dtype_ok (bf_dtype b)"
  shows "split_on_char (CHR ''.'') (buffer_filename name b) =
     split_on_char (CHR ''.'') name @ [concat (map (\<lambda>i. show_dim i @ ''_'') (bf_shape b)) @ bf_dtype b, ''npy'']"
proof -
  have "CHR ''.'' \<notin> set (show_dim n)" for n using show_dim_digits digit_is_plain(4) by blast
  then have "CHR ''.'' \<notin> set (concat (map (\<lambda>i. show_dim i @ ''_'') (bf_shape b)) @ bf_dtype b)"
    using assms by (auto simp: dtype_ok_def)
  then have "split_on_char (CHR ''.'') ((concat (map (\<lambda>i. show_dim i @ ''_'') (bf_shape b)) @ bf_dtype b) @ CHR ''.'' # ''npy'') =
      [concat (map (\<lambda>i. show_dim i @ ''_'') (bf_shape b)) @ bf_dtype b, ''npy'']"
    by (subst split_on_char_app) simp_all
  then show ?thesis unfolding buffer_filename_def by (simp add: split_on_char_join)
qed

lemma prodlist_int: "prodlist (map int ns) = int (prodlist ns)"
  by (induction ns) simp_all

lemma reshape_back: "prodlist dims = length data \<Longrightarrow> reshape (map int dims) data = Inr dims"
  by (auto simp: reshape_def Let_def filter_map o_def list_all_iff prodlist_int map_idI)

lemma py_get_back: "py_get (xs @ [a, b]) (- 2) = Inr a"
  by (simp add: py_get_def nth_append)

lemma read_saved:
  assumes "dtype_ok (bf_dtype b)" "prodlist (bf_shape b) = length (bf_data b)"
    and "af_fromfile af (bf_dtype b) content = Inr (bf_data b)"
  shows "read_buffer af (buffer_filename name b) content = Inr b"
proof -
  have "mapR int_of_string (map show_dim dims) = Inr (map int dims)" for dims
    by (induction dims) simp_all
  then show ?thesis using assms
    by (simp add: read_buffer_def split_name py_get_back split_meta reshape_back Let_def)
qed

lemma starts_with_app [simp]: "starts_with p (p @ s)"
  by (induction p) simp_all

lemma buffer_filename_starts: "starts_with (name @ ''.'') (buffer_filename name b)"
  using starts_with_app [of "name @ ''.''"] by (simp add: buffer_filename_def)

lemma load_first_only:
  assumes "f \<in> set fs" "starts_with (name @ ''.'') f" "\<forall>f'\<in>set fs. starts_with (name @ ''.'') f' \<longrightarrow> f' = f"
    and "files f = Some content"
  shows "load_first af name files fs = bindR (read_buffer af f content) (\<lambda>b. Inr (Some b))"
  using assms(1,3)
proof (induction fs)
  case Nil
  then show ?case by simp
next
  case (Cons f' fs)
  show ?case
  proof (cases "starts_with (name @ ''.'') f'")
    case True
    with Cons.prems(2) have "f' = f" by (meson list.set_intros(1))
    with True assms(4) show ?thesis by (simp only: load_first.simps if_True option.case)
  next
    case False
    then have "f \<in> set fs" using Cons.prems(1) assms(2) by (cases "f = f'") auto
    moreover have "\<forall>f'\<in>set fs. starts_with (name @ ''.'') f' \<longrightarrow> f' = f" using Cons.prems(2) by simp
    ultimately show ?thesis using Cons.IH False by simp
  qed
qed

text \<open>
  C40. A buffer written with \<open>save_to_file\<close> and read back by name, as a later process does, is the
  buffer, shape and type included: its file name carries both. NumPy reads back the numbers that it
  wrote, the directory listing is complete, and no other file begins with the name and a dot.
\<close>

theorem buffer_file_roundtrip:
  assumes "dtype_ok (bf_dtype b)" "prodlist (bf_shape b) = length (bf_data b)"
    and "af_fromfile af (bf_dtype b) (af_tofile af (bf_data b)) = Inr (bf_data b)"
    and "save_buffer_to_file af name b s = (Inr (), s')"
    and "set (af_listdir af (ie_files s')) = dom (ie_files s')"
    and "\<forall>f\<in>dom (ie_files s). starts_with (name @ ''.'') f \<longrightarrow> f = buffer_filename name b"
  shows "try_load_buffer_from_file af name s' = (Inr (Some b), s')"
proof -
  let ?f = "buffer_filename name b"
  have files: "ie_files s' = (ie_files s)(?f \<mapsto> af_tofile af (bf_data b))"
    using assms(4) by (auto simp: save_buffer_to_file_def)
  have "\<forall>f'\<in>set (af_listdir af (ie_files s')). starts_with (name @ ''.'') f' \<longrightarrow> f' = ?f"
    using assms(5,6) by (auto simp: files)
  moreover have "?f \<in> set (af_listdir af (ie_files s'))" using assms(5) by (simp add: files)
  ultimately have "load_first af name (ie_files s') (af_listdir af (ie_files s')) =
      bindR (read_buffer af ?f (af_tofile af (bf_data b))) (\<lambda>b. Inr (Some b))"
    by (intro load_first_only buffer_filename_starts) (simp_all add: files)
  then show ?thesis by (simp add: try_load_buffer_from_file_def read_saved assms(1-3))
qed

text \<open>Without that, another buffer's file is read: this one belongs to the buffer \<open>w.mask\<close>.\<close>

lemma other_buffer_loaded:
  "let mask = \<lparr>bf_shape = [2], bf_dtype = ''bool'', bf_data = [1, 0 :: int]\<rparr>;
       af = \<lparr>af_tofile = id, af_fromfile = (\<lambda>_. Inr), af_listdir = (\<lambda>_. [buffer_filename ''w.mask'' mask])\<rparr>;
       s = \<lparr>ie_table = [], ie_files = [buffer_filename ''w.mask'' mask \<mapsto> bf_data mask]\<rparr>
   in fst (try_load_buffer_from_file af ''w'' s) = Inr (Some mask)"
  by code_simp

section \<open>The table\<close>

lemma input_table_ensure [simp]: "input_table k (snd (ensure_table wkey s)) = input_table k s"
proof (cases "wkey \<in> fst ` set (ie_table s)")
  case False
  then have "map_of (ie_table s) wkey = None" by (simp add: map_of_eq_None_iff)
  then show ?thesis by (simp add: ensure_table_def input_table_def update_conv)
qed (simp add: ensure_table_def)

lemma ensure_table_run: "\<exists>t. ensure_table wkey s = (Inr (), t) \<and> input_table k t = input_table k s"
  using input_table_ensure [of k wkey s] by (auto simp: ensure_table_def)

lemma input_table_put [simp]:
  "input_table k (snd (put_buffer wkey name b s)) =
     (if k = wkey then AList.update name b (input_table wkey s) else input_table k s)"
  by (simp add: put_buffer_def input_table_def update_conv)

lemma input_table_save [simp]: "input_table k (snd (save_buffer_to_file af name b s)) = input_table k s"
  by (simp add: save_buffer_to_file_def input_table_def)

lemma load_into_table_run:
  assumes "load_into_table af wkey name s = (Inr u, t)"
  shows "map_of (input_table k t) n = map_of (input_table k s) n \<or> (k = wkey \<and> n = name)"
  using assms
proof (cases "fst (try_load_buffer_from_file af name s)")
  case (Inl e)
  with assms show ?thesis
    by (simp add: load_into_table_def try_load_buffer_from_file_def bindS_def)
next
  case (Inr l)
  have s: "snd (try_load_buffer_from_file af name s) = s" by (simp add: try_load_buffer_from_file_def)
  show ?thesis
  proof (cases l)
    case None
    with Inr s assms show ?thesis
      by (cases "try_load_buffer_from_file af name s") (simp add: load_into_table_def bindS_def)
  next
    case (Some b)
    with Inr s assms have "put_buffer wkey name b s = (Inr u, t)"
      by (cases "try_load_buffer_from_file af name s") (simp add: load_into_table_def bindS_def)
    then have "t = snd (put_buffer wkey name b s)" by simp
    then show ?thesis by (simp add: update_conv)
  qed
qed

text \<open>
  Registering, when it succeeds, puts the given buffer in the table, whatever a file holds under
  its name, and leaves the other entries.
\<close>

lemma registered_buffer:
  assumes "register_task_input_buffer af wkey name b ov save s = (Inr r, t)"
  shows "r = b" "map_of (input_table wkey t) name = Some b"
    and "n \<noteq> name \<or> k \<noteq> wkey \<Longrightarrow> map_of (input_table k t) n = map_of (input_table k s) n"
proof -
  obtain s1 where s1: "ensure_table wkey s = (Inr (), s1)" by (simp add: ensure_table_def)
  then have tab1: "input_table k s1 = input_table k s" for k
    using input_table_ensure [of k wkey s] by simp
  have "\<exists>s2. (\<forall>k n. map_of (input_table k s2) n = map_of (input_table k s1) n \<or> (k = wkey \<and> n = name)) \<and>
      t = (if save then snd (save_buffer_to_file af name b (snd (put_buffer wkey name b s2)))
           else snd (put_buffer wkey name b s2)) \<and> r = b"
    using assms load_into_table_run [of af wkey name s1]
    by (auto simp: register_task_input_buffer_def thenS_run(1) [of "ensure_table wkey", OF s1] bindS_Inr thenS_Inr put_buffer_def
        save_buffer_to_file_def split: if_splits; metis)
  then obtain s2 where s2: "\<And>k n. map_of (input_table k s2) n = map_of (input_table k s1) n \<or> (k = wkey \<and> n = name)"
    and t: "t = (if save then snd (save_buffer_to_file af name b (snd (put_buffer wkey name b s2)))
           else snd (put_buffer wkey name b s2))" and "r = b" by blast
  then show "r = b" by simp
  have tab: "input_table k t = input_table k (snd (put_buffer wkey name b s2))" for k
    by (simp add: t)
  show "map_of (input_table wkey t) name = Some b" by (simp add: tab update_conv)
  show "map_of (input_table k t) n = map_of (input_table k s) n" if "n \<noteq> name \<or> k \<noteq> wkey"
    using that s2 [of k n] by (auto simp: tab update_conv tab1 split: if_splits)
qed

text \<open>A second registration without \<open>overwrite\<close> raises; it does not give the first buffer.\<close>

lemma register_again_refused:
  assumes "name \<in> fst ` set (input_table wkey s)"
  shows "fst (register_task_input_buffer af wkey name b False save s) = Inl RuntimeError"
proof -
  obtain s1 where s1: "ensure_table wkey s = (Inr (), s1)" by (simp add: ensure_table_def)
  then have "input_table wkey s1 = input_table wkey s"
    using input_table_ensure [of wkey wkey s] by simp
  with s1 assms show ?thesis by (simp add: register_task_input_buffer_def thenS_def bindS_def)
qed

lemma get_registered:
  assumes "map_of (input_table wkey s) name = Some b"
  shows "\<exists>t. get_task_input_buffer af wkey name s = (Inr b, t) \<and> (\<forall>k. input_table k t = input_table k s)"
proof -
  obtain t where t: "ensure_table wkey s = (Inr (), t)" by (simp add: ensure_table_def)
  then have tab: "input_table k t = input_table k s" for k
    using input_table_ensure [of k wkey s] by simp
  have "name \<in> fst ` set (input_table wkey s)" using assms by (force dest: map_of_SomeD)
  then show ?thesis using assms
    by (simp add: get_task_input_buffer_def t bindS_def thenS_def tab)
qed

text \<open>
  A name that is nowhere raises \<open>KeyError\<close> instead of the \<open>ValueError\<close> with advice, unless there is
  a table \<open>default\<close>.
\<close>

lemma get_missing:
  assumes "map_of (input_table wkey s) name = None" "wkey \<noteq> ''default''"
    and "\<forall>f\<in>set (af_listdir af (ie_files s)). \<not> starts_with (name @ ''.'') f"
  shows "fst (get_task_input_buffer af wkey name s) = (case map_of (ie_table s) ''default'' of
     None \<Rightarrow> Inl KeyError
   | Some d \<Rightarrow> (case map_of d name of None \<Rightarrow> Inl ValueError | Some b \<Rightarrow> Inr b))"
proof -
  obtain t where t: "ensure_table wkey s = (Inr (), t)" by (simp add: ensure_table_def)
  then have tab: "input_table wkey t = input_table wkey s" "ie_files t = ie_files s"
    "map_of (ie_table t) ''default'' = map_of (ie_table s) ''default''"
    using input_table_ensure [of wkey wkey s] assms(2) by (auto simp: ensure_table_def update_conv split: if_splits)
  have none: "load_first af name fs fl = Inr None" if "\<forall>f\<in>set fl. \<not> starts_with (name @ ''.'') f" for fs fl
    using that by (induction fl) auto
  have ld: "load_into_table af wkey name t = (Inr (), t)"
    using none [OF assms(3)] by (simp add: load_into_table_def try_load_buffer_from_file_def bindS_def tab)
  have "name \<notin> fst ` set (input_table wkey s)" using assms(1) by (simp add: map_of_eq_None_iff)
  then show ?thesis
    by (simp add: get_task_input_buffer_def thenS_run(1) [of "ensure_table wkey", OF t] thenS_run(1) [of "load_into_table af wkey name", OF ld] bindS_def tab dict_get_def
        split: option.split)
qed

section \<open>The arguments of a run\<close>

lemma registered_inputs:
  assumes "register_task_inputs af wkey ov save inputs s = (Inr names, t)" "dict_ok inputs"
  shows "names = map fst inputs" "n \<in> set names \<Longrightarrow> map_of (input_table wkey t) n = map_of inputs n"
    and "k \<noteq> wkey \<or> n \<notin> set names \<Longrightarrow> map_of (input_table k t) n = map_of (input_table k s) n"
  using assms
proof (induction inputs arbitrary: s names n k)
  case Nil
  { case 1 then show ?case by simp }
  { case 2 then show ?case by simp }
  { case 3 then show ?case by simp }
next
  case (Cons nb inputs)
  have split: "\<exists>r s1 ns. register_task_input_buffer af wkey (fst nb) (snd nb) ov save s = (Inr r, s1) \<and>
      register_task_inputs af wkey ov save inputs s1 = (Inr ns, t) \<and> names = fst nb # ns"
    if "register_task_inputs af wkey ov save (nb # inputs) s = (Inr names, t)" for s names
    using that by (auto simp: thenS_Inr bindS_Inr)
  {
    case 1
    from split [OF 1(1)] obtain r s1 ns where "register_task_inputs af wkey ov save inputs s1 = (Inr ns, t)"
      "names = fst nb # ns" by blast
    with Cons.IH(1) [of s1 ns] 1(2) show ?case by simp
  next
    case 2
    from split [OF 2(2)] obtain r s1 ns where
      s1: "register_task_input_buffer af wkey (fst nb) (snd nb) ov save s = (Inr r, s1)" and
      ns: "register_task_inputs af wkey ov save inputs s1 = (Inr ns, t)" "names = fst nb # ns" by blast
    have d: "dict_ok inputs" "fst nb \<notin> fst ` set inputs" using 2(3) by auto
    have names: "ns = map fst inputs" using Cons.IH(1) [OF ns(1) d(1)] .
    show ?case
    proof (cases "n = fst nb")
      case True
      then have "map_of (input_table wkey t) n = map_of (input_table wkey s1) n"
        using Cons.IH(3) [OF _ ns(1) d(1), of wkey n] d names by simp
      then show ?thesis using registered_buffer(2) [OF s1] True by (cases nb) simp
    next
      case False
      then show ?thesis using Cons.IH(2) [OF _ ns(1) d(1), of n] 2(1) ns(2) by (cases nb) simp
    qed
  next
    case 3
    from split [OF 3(2)] obtain r s1 ns where
      s1: "register_task_input_buffer af wkey (fst nb) (snd nb) ov save s = (Inr r, s1)" and
      ns: "register_task_inputs af wkey ov save inputs s1 = (Inr ns, t)" "names = fst nb # ns" by blast
    have "map_of (input_table k t) n = map_of (input_table k s1) n"
      using Cons.IH(3) [OF _ ns(1), of k n] ns(2) 3(1,3) by auto
    also have "\<dots> = map_of (input_table k s) n"
      using registered_buffer(3) [OF s1] 3(1) ns(2) by auto
    finally show ?case .
  }
qed

text \<open>The buffers that the arguments get, out of a table.\<close>

definition given_buffers ::
  "(nat, string) dict \<Rightarrow> (string, 'n buffer) dict \<Rightarrow> nat list \<Rightarrow> 'n buffer option list" where
  "given_buffers tmap table args =
     map (\<lambda>arg. case map_of tmap arg of None \<Rightarrow> None | Some name \<Rightarrow> map_of table name) args"

lemma runner_args_given:
  assumes "\<forall>n\<in>set names. map_of (input_table wkey s) n \<noteq> None"
    and "\<forall>arg\<in>set args. \<forall>n. map_of tmap arg = Some n \<longrightarrow> n \<in> set names"
  shows "\<exists>t. runner_args af wkey names tmap args s = (Inr (given_buffers tmap (input_table wkey s) args), t) \<and>
    (\<forall>k. input_table k t = input_table k s)"
  using assms
proof (induction args arbitrary: s)
  case Nil
  then show ?case by (simp add: given_buffers_def)
next
  case (Cons arg args)
  have "\<exists>t. runner_arg af wkey names tmap arg s = (Inr (case map_of tmap arg of None \<Rightarrow> None
        | Some name \<Rightarrow> map_of (input_table wkey s) name), t) \<and> (\<forall>k. input_table k t = input_table k s)"
  proof (cases "map_of tmap arg")
    case None
    then show ?thesis by (simp add: runner_arg_def)
  next
    case (Some n)
    with Cons.prems have n: "n \<in> set names" by simp
    with Cons.prems(1) obtain b where b: "map_of (input_table wkey s) n = Some b" by blast
    from get_registered [OF b, of af] Some n b show ?thesis by (auto simp: runner_arg_def bindS_run)
  qed
  then obtain t where t: "runner_arg af wkey names tmap arg s = (Inr (case map_of tmap arg of None \<Rightarrow> None
        | Some name \<Rightarrow> map_of (input_table wkey s) name), t)" and same: "\<And>k. input_table k t = input_table k s"
    by blast
  have "\<exists>u. runner_args af wkey names tmap args t = (Inr (given_buffers tmap (input_table wkey t) args), u) \<and>
    (\<forall>k. input_table k u = input_table k t)"
    using Cons.prems by (intro Cons.IH) (auto simp: same)
  then show ?case using t by (auto simp: bindS_run given_buffers_def same)
qed

lemma given_count:
  assumes "\<forall>n\<in>set names. map_of table n \<noteq> None"
    and "\<forall>arg\<in>set args. \<forall>n. map_of tmap arg = Some n \<longrightarrow> n \<in> set names"
  shows "length (filter (\<lambda>b. b \<noteq> None) (given_buffers tmap table args)) =
    length (filter (\<lambda>arg. map_of tmap arg \<noteq> None) args)"
  using assms(2) by (induction args) (use assms(1) in \<open>auto simp: given_buffers_def split: option.split\<close>)

text \<open>
  The buffers that a search task is given reach the measurement: the arguments of the built
  program that the input map names get the buffers registered for the task, in place, and the
  others are left to be filled at random. This holds when the named arguments are the names of the
  task, as many as there are of them.
\<close>

lemma registered_inputs_reach:
  fixes inputs :: "(string \<times> 'n buffer) list"
  assumes "register_task_inputs af wkey ov save inputs s = (Inr names, s1)" "dict_ok inputs" "inputs \<noteq> []"
    and "tmap = prepare_input_map g checked args"
    and "\<forall>arg\<in>set args. \<forall>n. map_of tmap arg = Some n \<longrightarrow> n \<in> fst ` set inputs"
    and "length (filter (\<lambda>arg. map_of tmap arg \<noteq> None) args) = length inputs"
  shows "fst (prepare_runner_args af g checked wkey names args s1) = Inr (map (\<lambda>arg.
    case map_of tmap arg of None \<Rightarrow> None | Some name \<Rightarrow> map_of inputs name) args)"
proof -
  have names: "names = map fst inputs" using registered_inputs(1) [OF assms(1,2)] .
  have tab: "map_of (input_table wkey s1) n = map_of inputs n" if "n \<in> set names" for n
    using registered_inputs(2) [OF assms(1,2) that] .
  have some: "\<forall>n\<in>set names. map_of (input_table wkey s1) n \<noteq> None"
    using tab by (auto simp: names map_of_eq_None_iff)
  have in_names: "\<forall>arg\<in>set args. \<forall>n. map_of tmap arg = Some n \<longrightarrow> n \<in> set names"
    using assms(5) by (simp add: names)
  have same: "given_buffers tmap (input_table wkey s1) args =
      map (\<lambda>arg. case map_of tmap arg of None \<Rightarrow> None | Some name \<Rightarrow> map_of inputs name) args"
    using in_names by (auto simp: given_buffers_def tab split: option.split)
  obtain t where t: "runner_args af wkey names tmap args s1 =
      (Inr (given_buffers tmap (input_table wkey s1) args), t)"
    using runner_args_given [OF some in_names, of af] by blast
  have "names \<noteq> []" using assms(3) by (simp add: names)
  then show ?thesis using t given_count [OF some in_names] assms(6)
    by (simp add: prepare_runner_args_def assms(4) [symmetric] bindS_run same names)
qed

text \<open>A name that the task was not given stops the measurement.\<close>

lemma unknown_input_refused:
  assumes "arg \<in> set args" "map_of tmap arg = Some n" "n \<notin> set names"
  shows "\<exists>e. fst (runner_args af wkey names tmap args s) = Inl e"
  using assms(1)
proof (induction args arbitrary: s)
  case Nil
  then show ?case by simp
next
  case (Cons a args)
  show ?case
  proof (cases "runner_arg af wkey names tmap a s")
    case (Pair r t)
    show ?thesis
    proof (cases r)
      case (Inl e)
      then show ?thesis using Pair by (simp add: bindS_def)
    next
      case (Inr b)
      then have "a \<noteq> arg" using Pair assms(2,3) by (auto simp: runner_arg_def)
      with Cons obtain e where "fst (runner_args af wkey names tmap args t) = Inl e" by fastforce
      then show ?thesis using Pair Inr by (cases "runner_args af wkey names tmap args t") (simp add: bindS_def)
    qed
  qed
qed

section \<open>Instances\<close>

definition demo_files :: "(int, int list) array_files" where
  "demo_files = \<lparr>af_tofile = id, af_fromfile = (\<lambda>_. Inr),
     af_listdir = (\<lambda>fs. if fs ''w.2_2_int32.npy'' = None then [] else [''w.2_2_int32.npy''])\<rparr>"

definition demo_buffer :: "int buffer" where
  "demo_buffer = \<lparr>bf_shape = [2, 2], bf_dtype = ''int32'', bf_data = [1, 0, 0, 1]\<rparr>"

definition sparse_graph :: "tensor list" where
  "sparse_graph = [\<lparr>tn_shape = [], tn_op = Placeholder ''placeholder''\<rparr>, \<lparr>tn_shape = [], tn_op = Placeholder ''w''\<rparr>,
     \<lparr>tn_shape = [], tn_op = Compute ''c'' '''' False [0, 1]\<rparr>]"

lemma buffer_file_roundtrip_witness:
  "let s = \<lparr>ie_table = [], ie_files = Map.empty\<rparr> :: (int, int list) input_env;
       s' = snd (save_buffer_to_file demo_files ''w'' demo_buffer s)
   in try_load_buffer_from_file demo_files ''w'' s' = (Inr (Some demo_buffer), s')"
proof -
  let ?s = "\<lparr>ie_table = [], ie_files = Map.empty\<rparr> :: (int, int list) input_env"
  have f: "buffer_filename ''w'' demo_buffer = ''w.2_2_int32.npy''" by code_simp
  let ?s' = "snd (save_buffer_to_file demo_files ''w'' demo_buffer ?s)"
  have fs: "ie_files ?s' = [''w.2_2_int32.npy'' \<mapsto> [1, 0, 0, 1]]"
    by (simp add: save_buffer_to_file_def f) (simp add: demo_files_def demo_buffer_def)
  have "try_load_buffer_from_file demo_files ''w'' ?s' = (Inr (Some demo_buffer), ?s')"
  proof (rule buffer_file_roundtrip)
    show "dtype_ok (bf_dtype demo_buffer)" "prodlist (bf_shape demo_buffer) = length (bf_data demo_buffer)"
      by (simp_all add: demo_buffer_def dtype_ok_def)
    show "af_fromfile demo_files (bf_dtype demo_buffer) (af_tofile demo_files (bf_data demo_buffer)) =
        Inr (bf_data demo_buffer)" by (simp add: demo_files_def)
    show "save_buffer_to_file demo_files ''w'' demo_buffer ?s = (Inr (), ?s')"
      by (simp add: save_buffer_to_file_def)
    show "set (af_listdir demo_files (ie_files ?s')) = dom (ie_files ?s')"
      unfolding fs by (simp add: demo_files_def)
    show "\<forall>f\<in>dom (ie_files ?s). starts_with (''w'' @ ''.'') f \<longrightarrow> f = buffer_filename ''w'' demo_buffer" by simp
  qed
  then show ?thesis by simp
qed

end
