(* ===== verification/MeasureRecords.thy ===== *)
theory MeasureRecords
  imports Dispatch
begin

text \<open>
  Measurement records of the template-free tuner: \<open>tvm/python/tvm/auto_scheduler/measure_record.py\<close>
  with the reader of a log, the search for its best record and the distillation of logs. A log is
  the list of what the native reader returns, line by line; the native serialization of a
  measurement input is a parameter, and so is the decoder of workload keys (\<open>WorkloadKeys\<close>).
\<close>

section \<open>Records\<close>

datatype cost_imm = FloatImm rat | IntImm int

record 's minput =
  mi_kind :: string  \<comment> \<open>\<open>task.target.kind.name\<close>\<close>
  mi_keys :: "string list"  \<comment> \<open>\<open>task.target.keys\<close>\<close>
  mi_wkey :: string
  mi_state :: 's

record mresult =
  mr_error_no :: int
  mr_costs :: "cost_imm list"

type_synonym 's mpair = "'s minput \<times> mresult"

text \<open>A line of a log: a pair of input and result, or a dispatcher of a dynamic workload.\<close>

datatype ('s, 'd) log_item = Measured "'s minput" mresult | Dispatched 'd

fun imm_value :: "cost_imm \<Rightarrow> rat" where
  "imm_value (FloatImm x) = x"
| "imm_value (IntImm n) = of_int n"

text \<open>\<open>np.mean\<close>; the mean of nothing is \<open>nan\<close>, which is \<open>None\<close> here.\<close>

definition np_mean :: "rat list \<Rightarrow> cost" where
  "np_mean xs = (if xs = [] then None else Some (sumlist xs / of_nat (length xs)))"

lemma np_mean_Nil [simp]: "np_mean [] = None"
  by (simp add: np_mean_def)

section \<open>The reader\<close>

definition old_format_msg :: "string \<Rightarrow> string" where
  "old_format_msg wkey = ''MeasureInput with old format workload key '' @ wkey @
     '' should be updated using the script from https://github.com/apache/tvm/pull/7317.''"

text \<open>The reader remembers the warnings it has given.\<close>

definition check_workload_key :: "decoder \<Rightarrow> 's minput list \<Rightarrow> string set \<Rightarrow> string set res" where
  "check_workload_key decode =
     foldR (\<lambda>inp messages. bindR (decode (mi_wkey inp)) (\<lambda>(_, args).
       Inr (if args = Some [] then insert (old_format_msg (mi_wkey inp)) messages else messages)))"

text \<open>One turn of \<open>__iter__\<close>: a dispatcher is subscripted before it is recognised.\<close>

fun read_item :: "decoder \<Rightarrow> ('s, 'd) log_item \<Rightarrow> string set \<Rightarrow> ('s mpair \<times> string set) res" where
  "read_item decode (Measured inp res) messages =
     bindR (check_workload_key decode [inp] messages) (\<lambda>messages. Inr ((inp, res), messages))"
| "read_item decode (Dispatched d) messages = Inl TypeError"

text \<open>\<open>None\<close> and 0 both read all lines; \<open>read_native\<close> is the native reader.\<close>

definition read_lines ::
  "decoder \<Rightarrow> (int \<Rightarrow> int \<Rightarrow> 's minput list \<times> mresult list \<times> 'd list) \<Rightarrow> int option \<Rightarrow> int \<Rightarrow>
     string set \<Rightarrow> (('s minput list \<times> mresult list \<times> 'd list) \<times> string set) res" where
  "read_lines decode read_native max_lines skip_lines messages =
     (let n = (case max_lines of None \<Rightarrow> - 1 | Some n \<Rightarrow> if n = 0 then - 1 else n);
          (inputs, results, dispatchers) = read_native n skip_lines
      in bindR (check_workload_key decode inputs messages) (\<lambda>messages.
           Inr ((inputs, results, dispatchers), messages)))"

section \<open>The best record of a log\<close>

text \<open>The cost that a record competes with, \<open>None\<close> when it is passed over.\<close>

definition record_cost ::
  "decoder \<Rightarrow> string option \<Rightarrow> string option \<Rightarrow> bool \<Rightarrow> 's mpair \<Rightarrow> cost option res" where
  "record_cost decode workload_key kind include_compatible = (\<lambda>(inp, res).
     if mr_error_no res \<noteq> 0 then Inr None
     else if (case kind of None \<Rightarrow> False | Some k \<Rightarrow> mi_kind inp \<noteq> k) then Inr None
     else let cost = np_mean (map imm_value (mr_costs res)) in
       case workload_key of
         None \<Rightarrow> Inr (Some cost)
       | Some wk \<Rightarrow> bindR (decode wk) (\<lambda>target. bindR (decode (mi_wkey inp)) (\<lambda>this.
           bindR (calc_workload_dis_factor target this) (\<lambda>dis_f. Inr (case dis_f of
               None \<Rightarrow> None
             | Some f \<Rightarrow> if \<not> include_compatible \<and> f \<noteq> 1 then None else Some (map_option (\<lambda>c. c * f) cost))))))"

definition offer_best :: "cost option \<Rightarrow> 's mpair \<Rightarrow> rat \<times> 's mpair option \<Rightarrow> rat \<times> 's mpair option" where
  "offer_best c pair = (\<lambda>(best_cost, best). case c of
       Some (Some cost) \<Rightarrow> if cost < best_cost then (cost, Some pair) else (best_cost, best)
     | _ \<Rightarrow> (best_cost, best))"

definition best_step ::
  "decoder \<Rightarrow> string option \<Rightarrow> string option \<Rightarrow> bool \<Rightarrow> ('s, 'd) log_item \<Rightarrow>
     string set \<times> rat \<times> 's mpair option \<Rightarrow> (string set \<times> rat \<times> 's mpair option) res" where
  "best_step decode workload_key kind include_compatible item = (\<lambda>(messages, best).
     bindR (read_item decode item messages) (\<lambda>(pair, messages).
     bindR (record_cost decode workload_key kind include_compatible pair) (\<lambda>c.
       Inr (messages, offer_best c pair best))))"

definition load_best_record ::
  "decoder \<Rightarrow> ('s, 'd) log_item list \<Rightarrow> string option \<Rightarrow> string option \<Rightarrow> bool \<Rightarrow> 's mpair option res" where
  "load_best_record decode log_reader workload_key kind include_compatible =
     bindR (foldR (best_step decode workload_key kind include_compatible) log_reader ({}, 10 ^ 30, None))
       (\<lambda>(_, _, best). Inr best)"

section \<open>Distilling a log\<close>

text \<open>
  What \<open>load_records\<close> returns is a tuple of two objects, the pairs zipped together and the
  dispatchers. Iterating over it meets these objects, not the pairs.
\<close>

datatype ('s, 'd) element = EZip "'s mpair list" | EDispatchers "'d list" | EPair "'s mpair"

definition load_records ::
  "decoder \<Rightarrow> (int \<Rightarrow> int \<Rightarrow> 's minput list \<times> mresult list \<times> 'd list) \<Rightarrow> ('s, 'd) element list res" where
  "load_records decode read_native =
     bindR (read_lines decode read_native None 0 {}) (\<lambda>((inputs, results, dispatchers), _).
       Inr [EZip (zip inputs results), EDispatchers dispatchers])"

text \<open>
  \<open>for inp, res in context\<close> unpacks an element, and \<open>res.error_no\<close> is the first thing asked of it:
  neither a pair nor a dispatcher has it.
\<close>

fun unpack_pair :: "('s, 'd) element \<Rightarrow> 's mpair res" where
  "unpack_pair (EPair p) = Inr p"
| "unpack_pair (EZip ps) = Inl (if length ps = 2 then AttributeError else ValueError)"
| "unpack_pair (EDispatchers ds) = Inl (if length ds = 2 then AttributeError else ValueError)"

type_synonym 's best_records =
  "(string, (jval, (jval list option, cost \<times> 's mpair) dict) dict) dict"

text \<open>The two levels of the table, created when they are missing, and the entry below them.\<close>

definition sub_dict :: "('a, ('b, 'c) dict) dict \<Rightarrow> 'a \<Rightarrow> ('b, 'c) dict" where
  "sub_dict d k = (case map_of d k of None \<Rightarrow> [] | Some e \<Rightarrow> e)"

definition entry_of :: "'s best_records \<Rightarrow> string \<Rightarrow> jval \<Rightarrow> (jval list option, cost \<times> 's mpair) dict" where
  "entry_of best_records k h = sub_dict (sub_dict best_records k) h"

definition put_entry ::
  "string \<Rightarrow> jval \<Rightarrow> (jval list option, cost \<times> 's mpair) dict \<Rightarrow> 's best_records \<Rightarrow> 's best_records" where
  "put_entry k h e best_records =
     AList.update k (AList.update h e (sub_dict best_records k)) best_records"

fun cost_lt :: "cost \<Rightarrow> cost \<Rightarrow> bool" where
  "cost_lt (Some a) (Some b) = (a < b)"
| "cost_lt _ _ = False"

definition distill_key ::
  "decoder \<Rightarrow> cost \<Rightarrow> 's mpair \<Rightarrow> string \<Rightarrow> 's best_records \<Rightarrow> 's best_records res" where
  "distill_key decode cost pair k best_records =
     bindR (decode (mi_wkey (fst pair))) (\<lambda>(h, args).
     bindR (guardR (\<not> (\<exists>xs. h = JList xs)) TypeError) (\<lambda>_.
       let entry = entry_of best_records k h in
       Inr (put_entry k h (case map_of entry args of
           None \<Rightarrow> AList.update args (cost, pair) entry
         | Some (c, _) \<Rightarrow> if cost_lt cost c then AList.update args (cost, pair) entry else entry) best_records)))"

definition float_costs :: "mresult \<Rightarrow> rat list" where
  "float_costs res = [x. FloatImm x \<leftarrow> mr_costs res]"

definition distill_pair :: "decoder \<Rightarrow> 's mpair \<Rightarrow> 's best_records \<Rightarrow> 's best_records res" where
  "distill_pair decode pair best_records =
     (if mr_error_no (snd pair) \<noteq> 0 then Inr best_records
      else foldR (distill_key decode (np_mean (float_costs (snd pair))) pair) (mi_keys (fst pair)) best_records)"

text \<open>Records that several target keys share are kept once, by their serialized input.\<close>

definition dedup_records :: "('s minput \<Rightarrow> string) \<Rightarrow> 's best_records \<Rightarrow> 's mpair list" where
  "dedup_records ser best_records =
     map snd (fold (\<lambda>pair. AList.update (ser (fst pair)) pair)
       [pair. (_, te) \<leftarrow> best_records, (_, we) \<leftarrow> te, (_, _, pair) \<leftarrow> we] [])"

text \<open>\<open>out_log\<close> is the reader of the output file, when that file exists.\<close>

definition distill_record_file ::
  "decoder \<Rightarrow> ('s minput \<Rightarrow> string) \<Rightarrow> (int \<Rightarrow> int \<Rightarrow> 's minput list \<times> mresult list \<times> 'd list) \<Rightarrow>
     (int \<Rightarrow> int \<Rightarrow> 's minput list \<times> mresult list \<times> 'd list) option \<Rightarrow> 's mpair list res" where
  "distill_record_file decode ser in_log out_log =
     bindR (load_records decode in_log) (\<lambda>context.
     bindR (case out_log of None \<Rightarrow> Inr context
            | Some out \<Rightarrow> bindR (load_records decode out) (\<lambda>out_context. Inr (context @ out_context))) (\<lambda>context.
     bindR (foldR (\<lambda>el best_records. bindR (unpack_pair el) (\<lambda>pair. distill_pair decode pair best_records)) context [])
       (\<lambda>best_records. Inr (dedup_records ser best_records))))"

section \<open>Which record is best\<close>

definition mean_time :: "mresult \<Rightarrow> rat" where
  "mean_time res = sumlist (map imm_value (mr_costs res)) / of_nat (length (mr_costs res))"

text \<open>A record that can be the answer: it ran, on the target and the workload asked for, in time.\<close>

definition usable :: "string option \<Rightarrow> string option \<Rightarrow> 's mpair \<Rightarrow> bool" where
  "usable workload_key kind = (\<lambda>(inp, res). mr_error_no res = 0 \<and> (\<forall>k. kind = Some k \<longrightarrow> mi_kind inp = k) \<and>
     (\<forall>wk. workload_key = Some wk \<longrightarrow> mi_wkey inp = wk) \<and> mr_costs res \<noteq> [] \<and> mean_time res < 10 ^ 30)"

definition earliest_best :: "('a \<Rightarrow> rat) \<Rightarrow> 'a list \<Rightarrow> 'a option \<Rightarrow> bool" where
  "earliest_best c xs r \<longleftrightarrow> (case r of
       None \<Rightarrow> xs = []
     | Some x \<Rightarrow> \<exists>i<length xs. xs ! i = x \<and> (\<forall>y\<in>set xs. c x \<le> c y) \<and> (\<forall>j<i. c x < c (xs ! j)))"

context best_table
begin

lemma keep1_earliest: "earliest_best c xs (fold (keep1 (\<lambda>w v. c v < c w)) xs None)"
proof (cases xs)
  case Nil
  then show ?thesis by (simp add: earliest_best_def)
next
  case (Cons x xs')
  have "fold (keep1 (\<lambda>w v. c v < c w)) xs' (Some x) \<noteq> None"
    using keep1_fold_None [of "\<lambda>w v. c v < c w" "x # xs'"] by simp
  then obtain b where b: "fold (keep1 (\<lambda>w v. c v < c w)) xs' (Some x) = Some b" by blast
  from keep1_fold_best [OF _ b, of c] show ?thesis using b Cons by (simp add: earliest_best_def)
qed

end

text \<open>The best cost and the best record so far are a table with one place.\<close>

definition best_slot :: "rat \<times> 's mpair option \<Rightarrow> unit \<Rightarrow> 's mpair option" where
  "best_slot best _ = snd best"

definition set_best :: "unit \<Rightarrow> 's mpair \<Rightarrow> rat \<times> 's mpair option \<Rightarrow> rat \<times> 's mpair option" where
  "set_best _ pair best = (mean_time (snd pair), Some pair)"

interpretation slot: best_table best_slot set_best
  by unfold_locales (simp add: best_slot_def set_best_def)

lemma no_old_format:
  "\<forall>i\<in>set inputs. decode (mi_wkey i) = Inr (JStr (mi_wkey i), None) \<Longrightarrow> check_workload_key decode inputs m = Inr m"
  by (induction inputs) (simp_all add: check_workload_key_def)

text \<open>The best cost is that of the best record, and 10^30 as long as there is none.\<close>

abbreviation best_ok :: "rat \<times> 's mpair option \<Rightarrow> bool" where
  "best_ok best \<equiv> fst best = (case snd best of None \<Rightarrow> 10 ^ 30 | Some p \<Rightarrow> mean_time (snd p)) \<and> fst best \<le> 10 ^ 30"

abbreviation slower :: "'s mpair \<Rightarrow> 's mpair \<Rightarrow> bool" where
  "slower w v \<equiv> mean_time (snd v) < mean_time (snd w)"

lemma offer_usable:
  assumes "decode (mi_wkey inp) = Inr (JStr (mi_wkey inp), None)" "best_ok best"
    and "\<forall>wk. workload_key = Some wk \<longrightarrow> decode wk = Inr (JStr wk, None)"
  shows "\<exists>c. record_cost decode workload_key kind inc (inp, res) = Inr c \<and>
    offer_best c (inp, res) best =
      (if usable workload_key kind (inp, res) then slot.keep slower ((), (inp, res)) best else best)"
proof (cases "mr_error_no res \<noteq> 0 \<or> (\<exists>k. kind = Some k \<and> mi_kind inp \<noteq> k)")
  case True
  then show ?thesis by (auto simp: record_cost_def offer_best_def usable_def split: prod.split option.splits)
next
  case False
  then have f: "mr_error_no res = 0" "\<forall>k. kind = Some k \<longrightarrow> mi_kind inp = k" by auto
  have m: "np_mean (map imm_value (mr_costs res)) = (if mr_costs res = [] then None else Some (mean_time res))"
    by (simp add: np_mean_def mean_time_def)
  have e: "calc_workload_dis_factor (JStr wk, None) (JStr k, None) = Inr (if k = wk then Some 1 else None)" for wk k
    by (auto simp: calc_workload_dis_factor_def)
  have o: "offer_best (Some (if mr_costs res = [] then None else Some (mean_time res))) (inp, res) best =
      (if mr_costs res \<noteq> [] \<and> mean_time res < 10 ^ 30 then slot.keep slower ((), (inp, res)) best else best)"
    using assms(2) by (cases best; cases "snd best")
      (auto simp: offer_best_def slot.keep_def best_slot_def set_best_def)
  have n: "offer_best None (inp, res) best = best" by (simp add: offer_best_def split: prod.split)
  show ?thesis
  proof (cases workload_key)
    case None
    then show ?thesis using f o by (auto simp: record_cost_def m usable_def Let_def split: option.splits if_splits)
  next
    case (Some wk)
    then have "decode wk = Inr (JStr wk, None)" using assms(3) by simp
    then show ?thesis using f o n Some assms(1)
      by (auto simp: record_cost_def m e usable_def Let_def split: option.splits if_splits)
  qed
qed

abbreviation measured_lines :: "'s mpair list \<Rightarrow> ('s, 'd) log_item list" where
  "measured_lines ps \<equiv> map (\<lambda>(inp, res). Measured inp res) ps"

lemma best_loop:
  assumes "\<forall>p\<in>set ps. decode (mi_wkey (fst p)) = Inr (JStr (mi_wkey (fst p)), None)" "best_ok best"
    and "\<forall>wk. workload_key = Some wk \<longrightarrow> decode wk = Inr (JStr wk, None)"
  shows "foldR (best_step decode workload_key kind inc) (measured_lines ps) (m, best) =
    Inr (m, fold (\<lambda>p. slot.keep slower ((), p)) (filter (usable workload_key kind) ps) best)"
  using assms(1,2)
proof (induction ps arbitrary: best)
  case (Cons p ps)
  obtain inp res where p: "p = (inp, res)" by (cases p)
  have d: "decode (mi_wkey inp) = Inr (JStr (mi_wkey inp), None)" using Cons.prems(1) p by simp
  obtain c where c: "record_cost decode workload_key kind inc (inp, res) = Inr c"
    "offer_best c (inp, res) best =
      (if usable workload_key kind (inp, res) then slot.keep slower ((), (inp, res)) best else best)"
    using offer_usable [OF d Cons.prems(2) assms(3)] by blast
  have "best_ok (offer_best c (inp, res) best)"
    using Cons.prems(2) unfolding c(2)
    by (auto simp: slot.keep_def best_slot_def set_best_def usable_def split: option.splits)
  then show ?case using Cons.IH [of "offer_best c (inp, res) best"] Cons.prems c d p
    by (simp add: best_step_def check_workload_key_def)
qed simp

lemma all_measured: "\<forall>d. Dispatched d \<notin> set lines \<Longrightarrow> \<exists>ps. lines = measured_lines ps"
proof (induction lines)
  case (Cons x lines)
  then obtain ps where "lines = measured_lines ps" by auto
  moreover obtain inp res where "x = Measured inp res" using Cons.prems by (cases x) auto
  ultimately show ?case by (intro exI [of _ "(inp, res) # ps"]) simp
qed simp

lemma in_measured: "(inp, res) \<in> set ps \<Longrightarrow> Measured inp res \<in> set (measured_lines ps)"
  by force

lemma dispatcher_stops:
  assumes "\<exists>d. Dispatched d \<in> set lines" and "\<forall>wk. workload_key = Some wk \<longrightarrow> decode wk = Inr (JStr wk, None)"
    and "\<forall>inp res. Measured inp res \<in> set lines \<longrightarrow> decode (mi_wkey inp) = Inr (JStr (mi_wkey inp), None)"
  shows "load_best_record decode lines workload_key kind inc = Inl TypeError"
proof -
  obtain d lines1 lines2 where lines: "lines = lines1 @ Dispatched d # lines2" "\<forall>d. Dispatched d \<notin> set lines1"
    using assms(1) split_list_first_prop [of lines "\<lambda>x. \<exists>d. x = Dispatched d"] by blast
  obtain ps where ps: "lines1 = measured_lines ps" using all_measured [OF lines(2)] by blast
  have "decode (mi_wkey (fst p)) = Inr (JStr (mi_wkey (fst p)), None)" if "p \<in> set ps" for p
    using assms(3) in_measured [of "fst p" "snd p" ps] that by (auto simp: lines(1) ps simp del: set_map)
  then have "\<forall>p\<in>set ps. decode (mi_wkey (fst p)) = Inr (JStr (mi_wkey (fst p)), None)" by blast
  then have "foldR (best_step decode workload_key kind inc) lines1 ({}, 10 ^ 30, None) =
      Inr ({}, fold (\<lambda>p. slot.keep slower ((), p)) (filter (usable workload_key kind) ps) (10 ^ 30, None))"
    unfolding ps by (intro best_loop assms(2)) simp_all
  then show ?thesis by (simp add: load_best_record_def lines(1) foldR_append best_step_def)
qed

text \<open>
  C31. \<open>load_best_record\<close> on a log whose keys TVM's own loader can read, with the default format of
  workload keys. A log that holds a dispatcher cannot be searched: the call raises \<open>TypeError\<close>.
  Otherwise it gives the earliest of the records of least mean time, among those that ran without
  error, on the target asked for, for exactly the workload asked for, and in less than 10^30
  seconds; there is no answer when there are none. Compatible workloads are never taken, whatever
  \<open>include_compatible\<close> says.
\<close>

theorem best_record_found:
  fixes lines :: "('s, 'd) log_item list"
  assumes "\<forall>inp res. Measured inp res \<in> set lines \<longrightarrow> (\<exists>n. load_json (mi_wkey inp) = Inr n)"
    and "\<forall>wk. workload_key = Some wk \<longrightarrow> (\<exists>n. load_json wk = Inr n)"
  shows "case load_best_record (decode_workload_key 0 json_loads load_json) lines workload_key kind inc of
      Inl e \<Rightarrow> e = TypeError \<and> (\<exists>d. Dispatched d \<in> set lines)
    | Inr r \<Rightarrow> \<exists>ps. lines = measured_lines ps \<and>
        earliest_best (\<lambda>(_, res). mean_time res) (filter (usable workload_key kind) ps) r"
proof -
  let ?decode = "decode_workload_key 0 json_loads load_json"
  have d: "\<forall>inp res. Measured inp res \<in> set lines \<longrightarrow> ?decode (mi_wkey inp) = Inr (JStr (mi_wkey inp), None)"
    "\<forall>wk. workload_key = Some wk \<longrightarrow> ?decode wk = Inr (JStr wk, None)"
    using assms decode_tvm_format by metis+
  show ?thesis
  proof (cases "\<exists>d. Dispatched d \<in> set lines")
    case True
    then show ?thesis using dispatcher_stops [OF True d(2,1)] by simp
  next
    case False
    then have "\<forall>d. Dispatched d \<notin> set lines" by simp
    from all_measured [OF this] obtain ps where lines: "lines = measured_lines ps" ..
    have "?decode (mi_wkey (fst p)) = Inr (JStr (mi_wkey (fst p)), None)" if "p \<in> set ps" for p
      using d(1) in_measured [of "fst p" "snd p" ps] that lines by (auto simp del: set_map)
    then have "\<forall>p\<in>set ps. ?decode (mi_wkey (fst p)) = Inr (JStr (mi_wkey (fst p)), None)" by blast
    then have "foldR (best_step ?decode workload_key kind inc) lines ({}, 10 ^ 30, None) =
        Inr ({}, fold (\<lambda>p. slot.keep slower ((), p)) (filter (usable workload_key kind) ps) (10 ^ 30, None))"
      unfolding lines by (intro best_loop d(2)) simp_all
    then have "load_best_record ?decode lines workload_key kind inc =
        Inr (snd (fold (\<lambda>p. slot.keep slower ((), p)) (filter (usable workload_key kind) ps) (10 ^ 30, None)))"
      by (simp add: load_best_record_def case_prod_unfold)
    moreover have "snd (fold (\<lambda>p. slot.keep slower ((), p)) xs b) = fold (slot.keep1 slower) xs (snd b)"
      for xs and b :: "rat \<times> 's mpair option"
      using slot.find_keep_fold [of slower "map (Pair ()) xs" b "()"] by (simp add: fold_map comp_def best_slot_def)
    ultimately have "load_best_record ?decode lines workload_key kind inc =
        Inr (fold (slot.keep1 slower) (filter (usable workload_key kind) ps) None)"
      by simp
    then show ?thesis
      using lines slot.keep1_earliest [of "\<lambda>p. mean_time (snd p)" "filter (usable workload_key kind) ps"]
      unfolding case_prod_unfold by (simp only: sum.case) blast
  qed
qed

definition sample_log :: "(nat, unit) log_item list" where
  "sample_log = (let inp = (\<lambda>wk st. \<lparr>mi_kind = ''cuda'', mi_keys = [''cuda'', ''gpu''], mi_wkey = wk, mi_state = st\<rparr>);
     res = (\<lambda>e cs. \<lparr>mr_error_no = e, mr_costs = map FloatImm cs\<rparr>) in
     [Measured (inp ''a'' 0) (res 0 [3, 5]), Measured (inp ''b'' 1) (res 0 [1]), Measured (inp ''a'' 2) (res 4 [1]),
      Measured (inp ''a'' 3) (res 0 [2, 4]), Measured (inp ''a'' 4) (res 0 [3])])"

lemma best_record_found_witness:
  "\<exists>inp res. load_best_record (decode_workload_key 0 (\<lambda>_. Inl JSONDecodeError) (\<lambda>_. Inr ())) sample_log
     (Some ''a'') (Some ''cuda'') True = Inr (Some (inp, res)) \<and> mi_state inp = 3 \<and> mean_time res = 3"
proof -
  let ?r = "load_best_record (decode_workload_key 0 (\<lambda>_. Inl JSONDecodeError) (\<lambda>_. Inr ())) sample_log
     (Some ''a'') (Some ''cuda'') True"
  have "case ?r of Inr r \<Rightarrow> \<exists>ps. sample_log = measured_lines ps \<and>
      earliest_best (\<lambda>(_, res). mean_time res) (filter (usable (Some ''a'') (Some ''cuda'')) ps) r | _ \<Rightarrow> True"
    using best_record_found [of sample_log "\<lambda>_. Inr ()" "Some ''a''" "Some ''cuda''" "\<lambda>_. Inl JSONDecodeError" True]
    by (auto split: sum.splits)
  moreover have "case ?r of Inr (Some (inp, res)) \<Rightarrow> mi_state inp = 3 \<and> mean_time res = 3 | _ \<Rightarrow> False"
    by code_simp
  ultimately show ?thesis by (auto split: sum.splits option.splits prod.splits)
qed

section \<open>Distilling\<close>

text \<open>
  \<open>distill_record_file\<close> never gets to write a file: whatever the logs hold, it raises, either
  while it reads them or because the tuple that \<open>load_records\<close> returns is iterated over as if it were
  the list of pairs, which is a \<open>ValueError\<close>, or an \<open>AttributeError\<close> when there are exactly two.
\<close>

lemma distill_always_raises:
  "\<exists>e. distill_record_file decode ser in_log out_log = Inl e \<and>
     (e = ValueError \<or> e = AttributeError \<or> load_records decode in_log = Inl e \<or>
      (\<exists>out. out_log = Some out \<and> load_records decode out = Inl e))"
proof (cases "load_records decode in_log")
  case (Inl e)
  then show ?thesis by (simp add: distill_record_file_def)
next
  case (Inr els)
  then obtain ps ds where c: "els = [EZip ps, EDispatchers ds]"
    by (auto simp: load_records_def bindR_Inr_iff)
  have "foldR (\<lambda>el t. bindR (unpack_pair el) (\<lambda>pair. distill_pair decode pair t)) (els @ xs) [] =
      Inl (if length ps = 2 then AttributeError else ValueError)" for xs
    by (simp add: c)
  from this [of "[]"] this Inr show ?thesis
    by (cases out_log; cases "load_records decode (the out_log)") (auto simp: distill_record_file_def)
qed

text \<open>What the loop keeps when it is given pairs: per target key and workload the earliest best.\<close>

type_synonym place = "string \<times> jval \<times> jval list option"

definition find_record :: "'s best_records \<Rightarrow> place \<Rightarrow> (cost \<times> 's mpair) option" where
  "find_record t = (\<lambda>(k, h, args). map_of (entry_of t k h) args)"

definition put_record :: "place \<Rightarrow> cost \<times> 's mpair \<Rightarrow> 's best_records \<Rightarrow> 's best_records" where
  "put_record = (\<lambda>(k, h, args) v t. put_entry k h (AList.update args v (entry_of t k h)) t)"

lemma entry_of_put [simp]: "entry_of (put_entry k h e t) k' h' = (if k' = k \<and> h' = h then e else entry_of t k' h')"
  by (simp add: entry_of_def put_entry_def sub_dict_def update_conv)

interpretation records: best_table find_record put_record
  by unfold_locales (auto simp: find_record_def put_record_def update_conv split: if_splits)

lemma find_record_empty [simp]: "find_record [] place = None"
  by (simp add: find_record_def entry_of_def sub_dict_def split: prod.split)

definition record_items :: "decoder \<Rightarrow> 's mpair \<Rightarrow> (place \<times> cost \<times> 's mpair) list" where
  "record_items decode pair = (if mr_error_no (snd pair) \<noteq> 0 then []
     else case decode (mi_wkey (fst pair)) of
       Inl _ \<Rightarrow> []
     | Inr (h, args) \<Rightarrow> [((k, h, args), np_mean (float_costs (snd pair)), pair). k \<leftarrow> mi_keys (fst pair)])"

abbreviation dearer :: "cost \<times> 's mpair \<Rightarrow> cost \<times> 's mpair \<Rightarrow> bool" where
  "dearer w v \<equiv> cost_lt (fst v) (fst w)"

lemma distill_key_keep:
  assumes "decode (mi_wkey (fst pair)) = Inr (h, args)" "\<forall>xs. h \<noteq> JList xs"
  shows "\<exists>t'. distill_key decode c pair k t = Inr t' \<and>
    find_record t' = find_record (records.keep dearer ((k, h, args), c, pair) t)"
proof -
  have same: "find_record (put_entry k h (entry_of t k h) t) = find_record t"
    by (auto simp: find_record_def fun_eq_iff)
  have put: "put_entry k h (AList.update args v (entry_of t k h)) t = put_record (k, h, args) v t" for v
    by (simp add: put_record_def)
  show ?thesis
  proof (cases "find_record t (k, h, args)")
    case None
    then have "map_of (entry_of t k h) args = None" by (simp add: find_record_def)
    then show ?thesis using assms None
      by (simp add: distill_key_def Let_def records.keep_def put)
  next
    case (Some v)
    obtain c' p' where v: "v = (c', p')" by (cases v)
    have "map_of (entry_of t k h) args = Some (c', p')" using Some v by (simp add: find_record_def)
    then show ?thesis using assms Some same v
      by (simp add: distill_key_def Let_def records.keep_def put)
  qed
qed

lemma keep_records_cong:
  "find_record t = find_record u \<Longrightarrow>
     find_record (fold (records.keep dearer) xs t) = find_record (fold (records.keep dearer) xs u)"
  by (rule ext) (simp add: records.find_keep_fold)

lemma distill_keys_keep:
  assumes "decode (mi_wkey (fst pair)) = Inr (h, args)" "\<forall>xs. h \<noteq> JList xs"
  shows "\<exists>t'. foldR (distill_key decode c pair) ks t = Inr t' \<and>
    find_record t' = find_record (fold (records.keep dearer) [((k, h, args), c, pair). k \<leftarrow> ks] t)"
proof (induction ks arbitrary: t)
  case (Cons k ks)
  obtain t1 where t1: "distill_key decode c pair k t = Inr t1"
    "find_record t1 = find_record (records.keep dearer ((k, h, args), c, pair) t)"
    using distill_key_keep [where decode = decode and pair = pair, OF assms] by blast
  obtain t2 where "foldR (distill_key decode c pair) ks t1 = Inr t2"
    "find_record t2 = find_record (fold (records.keep dearer) [((k, h, args), c, pair). k \<leftarrow> ks] t1)"
    using Cons.IH by blast
  then show ?case using t1(1) keep_records_cong [OF t1(2)] by simp
qed simp

lemma distill_pairs_keep:
  assumes "\<forall>p\<in>set ps. \<exists>h args. decode (mi_wkey (fst p)) = Inr (h, args) \<and> (\<forall>xs. h \<noteq> JList xs)"
  shows "\<exists>t'. foldR (distill_pair decode) ps t = Inr t' \<and>
    find_record t' = find_record (fold (records.keep dearer) (concat (map (record_items decode) ps)) t)"
  using assms
proof (induction ps arbitrary: t)
  case (Cons p ps)
  then obtain h args where d: "decode (mi_wkey (fst p)) = Inr (h, args)" "\<forall>xs. h \<noteq> JList xs" by auto
  have "\<exists>t1. distill_pair decode p t = Inr t1 \<and>
      find_record t1 = find_record (fold (records.keep dearer) (record_items decode p) t)"
  proof (cases "mr_error_no (snd p) = 0")
    case True
    then show ?thesis
      using distill_keys_keep [where decode = decode and pair = p and ks = "mi_keys (fst p)" and
        c = "np_mean (float_costs (snd p))" and t = t, OF d]
      by (simp add: distill_pair_def record_items_def d(1))
  qed (simp add: distill_pair_def record_items_def)
  then obtain t1 where t1: "distill_pair decode p t = Inr t1"
    "find_record t1 = find_record (fold (records.keep dearer) (record_items decode p) t)" by blast
  obtain t2 where "foldR (distill_pair decode) ps t1 = Inr t2"
    "find_record t2 = find_record (fold (records.keep dearer) (concat (map (record_items decode) ps)) t1)"
    using Cons.IH [of t1] Cons.prems by (meson list.set_intros(2))
  then show ?case using t1(1) keep_records_cong [OF t1(2)] by simp
qed simp

lemma distill_keeps_best:
  assumes "\<forall>p\<in>set ps. \<exists>h args. decode (mi_wkey (fst p)) = Inr (h, args) \<and> (\<forall>xs. h \<noteq> JList xs)"
    and "\<forall>p\<in>set ps. mr_error_no (snd p) = 0 \<longrightarrow> float_costs (snd p) \<noteq> []"
  shows "\<exists>t. foldR (distill_pair decode) ps [] = Inr t \<and> (\<forall>place. earliest_best (\<lambda>(c, _). the c)
    [snd item. item \<leftarrow> concat (map (record_items decode) ps), fst item = place] (find_record t place))"
proof -
  obtain t where t: "foldR (distill_pair decode) ps [] = Inr t"
    "find_record t = find_record (fold (records.keep dearer) (concat (map (record_items decode) ps)) [])"
    using distill_pairs_keep [OF assms(1)] by blast
  have "earliest_best (\<lambda>(c, _). the c) [snd item. item \<leftarrow> concat (map (record_items decode) ps), fst item = place]
      (find_record t place)" for place
  proof -
    let ?vs = "[snd item. item \<leftarrow> concat (map (record_items decode) ps), fst item = place]"
    have some: "\<exists>x. fst v = Some x" if "v \<in> set ?vs" for v
      using that assms(2) by (auto simp: record_items_def np_mean_def split: sum.splits prod.splits if_splits)
    have "find_record t place = fold (records.keep1 dearer) ?vs None"
      using records.find_keep_fold [of dearer "concat (map (record_items decode) ps)" "[]" place]
      by (simp add: t(2))
    also have "\<dots> = fold (records.keep1 (\<lambda>w v. the (fst v) < the (fst w))) ?vs None"
    proof -
      have "fold (records.keep1 dearer) vs p = fold (records.keep1 (\<lambda>w v. the (fst v) < the (fst w))) vs p"
        if "\<forall>v\<in>set vs. \<exists>x. fst v = Some x" "\<forall>w. p = Some w \<longrightarrow> (\<exists>x. fst w = Some x)"
        for vs and p :: "(cost \<times> 's mpair) option"
        using that
      proof (induction vs arbitrary: p)
        case (Cons v vs)
        obtain y where y: "fst v = Some y" using Cons.prems(1) by auto
        have same: "records.keep1 dearer v p = records.keep1 (\<lambda>w v. the (fst v) < the (fst w)) v p"
          using Cons.prems(2) y unfolding records.keep1_def by (auto split: option.split)
        have "\<forall>w. records.keep1 dearer v p = Some w \<longrightarrow> (\<exists>x. fst w = Some x)"
          using Cons.prems(2) y unfolding records.keep1_def by (cases v) (simp split: option.split)
        from Cons.IH [OF _ this] Cons.prems(1) show ?case by (simp add: same)
      qed simp
      then show ?thesis using some by blast
    qed
    finally show ?thesis
      using records.keep1_earliest [of "\<lambda>v. the (fst v)" ?vs] by (simp add: case_prod_unfold)
  qed
  then show ?thesis using t(1) by blast
qed

end
