(* ===== verification/RelayTasks.thy ===== *)
theory RelayTasks
  imports Contexts WorkloadRegistry TensorTraversal MeasureRecords
begin

text \<open>
  The meeting point of the compiler and the tuner,
  \<open>tvm/python/tvm/auto_scheduler/relay_integration.py\<close>: the environment that traces which workloads
  a model has, the callback that the compiler calls for every operator and the one that reports how
  often functions are used, and the extraction of tasks, static and dynamic. The compiler itself is
  the list of callbacks that it makes. The keyword arguments of \<open>SearchTask\<close> come from
  \<open>search_task.py\<close>, the default layout option from \<open>compute_dag.py\<close>.
\<close>

section \<open>The tracing environment\<close>

text \<open>Modes are numbers: 0 extracts all tasks, 1 complex ones, 2 prepares the rewriting of layouts.\<close>

abbreviation EXTRACT_TASK :: nat where "EXTRACT_TASK \<equiv> 0"
abbreviation EXTRACT_COMPLEX_TASK_ONLY :: nat where "EXTRACT_COMPLEX_TASK_ONLY \<equiv> 1"
abbreviation PREPARE_LAYOUT_REWRITE :: nat where "PREPARE_LAYOUT_REWRITE \<equiv> 2"

record tracing =
  tr_mode :: nat
  tr_keys :: "(string, string) dict"  \<comment> \<open>\<open>func_name_to_wkl_key\<close>\<close>
  tr_weights :: "(string, int \<times> string set) dict"  \<comment> \<open>\<open>wkl_key_to_weight\<close>\<close>
  tr_inputs :: "(string, string list) dict"  \<comment> \<open>\<open>wkl_key_to_input_names\<close>\<close>

definition new_tracing :: "nat \<Rightarrow> tracing" where
  "new_tracing mode = \<lparr>tr_mode = mode, tr_keys = [], tr_weights = [], tr_inputs = []\<rparr>"

text \<open>The entry of a workload is created with weight 0, then counted up.\<close>

definition count_use :: "string \<Rightarrow> int \<Rightarrow> string \<Rightarrow> (string, int \<times> string set) dict \<Rightarrow> (string, int \<times> string set) dict" where
  "count_use key n func_name ws =
     (let (weight, func_names) = (case map_of ws key of None \<Rightarrow> (0, {}) | Some e \<Rightarrow> e)
      in AList.update key (weight + n, insert func_name func_names) ws)"

definition add_workload_key :: "string \<Rightarrow> string \<Rightarrow> tracing \<Rightarrow> tracing" where
  "add_workload_key func_name workload_key env =
     env\<lparr>tr_keys := AList.update func_name workload_key (tr_keys env),
         tr_weights := count_use workload_key 1 func_name (tr_weights env)\<rparr>"

definition add_workload_input_names :: "string \<Rightarrow> string list \<Rightarrow> tracing \<Rightarrow> tracing" where
  "add_workload_input_names workload_key input_names env =
     env\<lparr>tr_inputs := AList.update workload_key input_names (tr_inputs env)\<rparr>"

text \<open>The weights are overridden by the use counts of the compiler; unknown functions are skipped.\<close>

definition update_weight :: "(string, string) dict \<Rightarrow> string \<times> int \<Rightarrow>
    (string, int \<times> string set) dict \<Rightarrow> (string, int \<times> string set) dict" where
  "update_weight keys = (\<lambda>(func_name, weight) ws.
     case map_of keys func_name of None \<Rightarrow> ws | Some key \<Rightarrow> count_use key weight func_name ws)"

definition te_compiler_update_weights :: "(string \<times> int) list \<Rightarrow> tracing option \<Rightarrow> tracing option" where
  "te_compiler_update_weights function_weights = map_option (\<lambda>env.
     env\<lparr>tr_weights := fold (update_weight (tr_keys env)) function_weights []\<rparr>)"

section \<open>The callback for an operator\<close>

datatype layout_rewrite_option = NO_REWRITE | INSERT_TRANSFORM_STAGE | REWRITE_FOR_PRE_TRANSFORMED

definition get_target_default :: "string \<Rightarrow> string option \<Rightarrow> bool \<Rightarrow> layout_rewrite_option" where
  "get_target_default kind device in_relay_integration =
     (if kind = ''llvm'' \<or> device = Some ''mali''
      then if in_relay_integration then REWRITE_FOR_PRE_TRANSFORMED else INSERT_TRANSFORM_STAGE
      else NO_REWRITE)"

text \<open>
  Native code: compute DAGs of a list of tensors, their workload key and text, applying the steps of
  a state, rewriting layouts, dispatchers, and the reader of logs. \<open>np_log_dir\<close> is the environment
  variable \<open>DIETCODE_SCHED_LOG_DIR\<close>.
\<close>

record ('s, 'd, 'g, 'c) native =
  nv_simplify :: "pyval \<Rightarrow> pyval"
  nv_dag :: "tensor list \<Rightarrow> nat list \<Rightarrow> 'g res"
  nv_workload_key :: "'g \<Rightarrow> string"
  nv_str :: "'g \<Rightarrow> string"
  nv_apply :: "'g \<Rightarrow> 's \<Rightarrow> 'c"
  nv_rewrite :: "'g \<Rightarrow> 's \<Rightarrow> 'g"
  nv_tensors :: "tensor list \<Rightarrow> nat list \<Rightarrow> pyval"
  nv_checked :: "tensor list \<Rightarrow> nat list \<Rightarrow> (nat, string) dict"
  nv_embed :: "'d \<Rightarrow> string \<Rightarrow> 'd"
  nv_has_dag :: "'d \<Rightarrow> bool"
  nv_insts :: "'d \<Rightarrow> int list list"
  nv_dispatch :: "'d \<Rightarrow> nat \<Rightarrow> 's"
  nv_log_dir :: "string option"
  nv_logs :: "string \<Rightarrow> ('s, 'd) element list res"
  nv_kind :: string
  nv_device :: "string option"
  nv_target :: target

record ('s, 'd) relay =
  rl_ctx :: "('s, 'd) dstate"
  rl_registry :: registry
  rl_env :: "tracing option"
  rl_dyn :: "string \<rightharpoonup> string"  \<comment> \<open>\<open>DYN_SEARCH_TASK_REGISTRY\<close>, by the workload key of the task\<close>

datatype ('d, 'c) scheduled = NoSchedule | Schedule 'c | Dispatcher 'd

text \<open>
  \<open>re.match\<close> with \<open>^tvmgen_.*\<close>, a name, and at the end nothing or an underscore and digits. A dot
  matches no line break, and the end may be in front of a last one.
\<close>

definition strip_break :: "string \<Rightarrow> string" where
  "strip_break s = (if s \<noteq> [] \<and> last s = CHR 0x0A then butlast s else s)"

definition generated :: "(string \<Rightarrow> bool) \<Rightarrow> string \<Rightarrow> string \<Rightarrow> bool" where
  "generated tail name f \<longleftrightarrow> take 7 f = ''tvmgen_'' \<and>
     (let r = drop 7 f in list_ex (\<lambda>i. CHR 0x0A \<notin> set (take i r) \<and> take (length name) (drop i r) = name \<and>
        tail (drop (i + length name) r)) [0..<length r + 1])"

definition end_or_index :: "string \<Rightarrow> bool" where
  "end_or_index rest = (rest = [] \<or> rest = [CHR 0x0A] \<or>
     (let r = strip_break rest in hd rest = CHR ''_'' \<and> tl r \<noteq> [] \<and> list_all is_digit (tl r)))"

definition is_dense :: "string \<Rightarrow> bool" where
  "is_dense = generated end_or_index ''_fused_nn_dense''"

definition is_batch_matmul :: "string \<Rightarrow> bool" where
  "is_batch_matmul = generated end_or_index ''_fused_nn_batch_matmul''"

definition int_shape :: "(pyval \<Rightarrow> pyval) \<Rightarrow> tensor list \<Rightarrow> nat \<Rightarrow> int list res" where
  "int_shape simplify g t = bindR (const_shape simplify g t) (\<lambda>shape.
     case shape of VTuple vs \<Rightarrow> mapR (\<lambda>v. case v of VInt n \<Rightarrow> Inr n | _ \<Rightarrow> Inl TypeError) vs | _ \<Rightarrow> Inl TypeError)"

definition last_dispatcher :: "('s, 'd, 'g, 'c) native \<Rightarrow> string \<Rightarrow> 'd res" where
  "last_dispatcher nv file =
     bindR (nv_logs nv file) (\<lambda>loaded. bindR (py_get loaded 1) (\<lambda>el.
       case el of EDispatchers ds \<Rightarrow> py_get ds (- 1) | _ \<Rightarrow> Inl TypeError))"

text \<open>The dispatchers for the operators of one model, with the shapes that are written into the code.\<close>

definition dense_dispatcher ::
  "('s, 'd, 'g, 'c) native \<Rightarrow> string \<Rightarrow> int list \<Rightarrow> int list \<Rightarrow> 'd option \<Rightarrow> ('d option \<times> int list) res" where
  "dense_dispatcher nv dir X W disp =
     bindR (py_get W 0) (\<lambda>w0.
     bindR (if w0 = 768 then map_sum id Some (last_dispatcher nv
         (dir @ ''dense/saved_schedules_G4/dietcode_autosched_dense_16xTxIx768.json'')) else Inr disp) (\<lambda>disp.
     bindR (if w0 = 3072 then bindR (py_get W 1) (\<lambda>w1. bindR (guardR (w1 = 768) AssertionError) (\<lambda>_.
         map_sum id Some (last_dispatcher nv
           (dir @ ''dense/saved_schedules_G4/dietcode_autosched_dense_16xTx768x3072.json'')))) else Inr disp) (\<lambda>disp.
     bindR (py_get X 0) (\<lambda>x0. bindR (py_get X 1) (\<lambda>x1. Inr (disp, [x0 div 16, x1, w0]))))))"

definition batch_dispatcher ::
  "('s, 'd, 'g, 'c) native \<Rightarrow> string \<Rightarrow> int list \<Rightarrow> int list \<Rightarrow> 'd option \<Rightarrow> ('d option \<times> int list) res" where
  "batch_dispatcher nv dir X W disp =
     bindR (py_get X 0) (\<lambda>x0. bindR (guardR (x0 = 192) AssertionError) (\<lambda>_.
     bindR (py_get X 2) (\<lambda>x2. bindR (py_get W 2) (\<lambda>w2. bindR (guardR (x2 = w2) AssertionError) (\<lambda>_.
     bindR (py_get X 1) (\<lambda>x1. bindR (py_get W 1) (\<lambda>w1.
     bindR (if x1 = x2 then bindR (guardR (w1 = 64) AssertionError) (\<lambda>_. map_sum id Some (last_dispatcher nv
         (dir @ ''batch_matmul/saved_schedules_G4/dietcode_autosched_batch_matmul_nt_192xTxTx64.json''))) else Inr disp) (\<lambda>disp.
     bindR (if x1 = w1 then bindR (guardR (x2 = 64) AssertionError) (\<lambda>_. map_sum id Some (last_dispatcher nv
         (dir @ ''batch_matmul/saved_schedules_G4/dietcode_autosched_batch_matmul_nt_192xTx64xT.json''))) else Inr disp) (\<lambda>disp.
       Inr (disp, [x1]))))))))))"

definition from_log_dir ::
  "('s, 'd, 'g, 'c) native \<Rightarrow> tensor list \<Rightarrow> string \<Rightarrow> nat list \<Rightarrow> ('d option \<times> int list) res" where
  "from_log_dir nv g func_name io_tensors = (case nv_log_dir nv of
       None \<Rightarrow> Inr (None, [])
     | Some dir \<Rightarrow>
         let shapes = (\<lambda>f d. bindR (py_get io_tensors 0) (\<lambda>t0. bindR (int_shape (nv_simplify nv) g t0) (\<lambda>X.
             bindR (py_get io_tensors 1) (\<lambda>t1. bindR (int_shape (nv_simplify nv) g t1) (\<lambda>W. f X W d))))) in
         bindR (if is_dense func_name then shapes (dense_dispatcher nv dir) None else Inr (None, [])) (\<lambda>(d, inst).
           if is_batch_matmul func_name then shapes (batch_dispatcher nv dir) d else Inr (d, inst)))"

text \<open>
  \<open>state, _ = query_result\<close>: a cached pair can be unpacked; the bare state that a fallback context
  remembers is no sequence.
\<close>

fun unpack_state :: "('s, 'd) answer \<Rightarrow> 's option res" where
  "unpack_state (ACached (CPair state cost)) = Inr (Some state)"
| "unpack_state (ACached (CDisp d)) = Inl TypeError"
| "unpack_state (AMemory None) = Inr None"
| "unpack_state (AMemory (Some state)) = Inl TypeError"

text \<open>A dispatcher gets the compute DAG of the dynamic task that the function belongs to.\<close>

definition schedule_dynamic ::
  "('s, 'd, 'g, 'c) native \<Rightarrow> (string \<rightharpoonup> string) \<Rightarrow> string \<Rightarrow> 'd \<Rightarrow> 'd res" where
  "schedule_dynamic nv dyn func_name d =
     (case dyn (remove_func_name_indices func_name) of
        None \<Rightarrow> Inl KeyError
      | Some key \<Rightarrow> let d' = nv_embed nv d key in if nv_has_dag nv d' then Inr d' else Inl AssertionError)"

text \<open>What happens to the answer of the query in each mode of the tracing environment.\<close>

definition schedule_static ::
  "('s, 'd, 'g, 'c) native \<Rightarrow> tensor list \<Rightarrow> string \<Rightarrow> nat list \<Rightarrow> bool \<Rightarrow> bool \<Rightarrow> 'g \<Rightarrow> string \<Rightarrow> nat \<Rightarrow>
     ('s, 'd) answer \<Rightarrow> ('s, 'd) relay \<Rightarrow> (('s, 'd) relay \<times> ('d, 'c) scheduled) res" where
  "schedule_static nv g func_name io_tensors has_layout_free has_complex_op dag key ctx answer st =
     (case rl_env st of
        None \<Rightarrow> bindR (unpack_state answer) (\<lambda>state. Inr (st, case state of
            None \<Rightarrow> NoSchedule | Some s \<Rightarrow> Schedule (nv_apply nv dag s)))
      | Some env \<Rightarrow>
          if tr_mode env \<in> {EXTRACT_TASK, EXTRACT_COMPLEX_TASK_ONLY} then
            if has_complex_op \<or> tr_mode env = EXTRACT_TASK then
              let env1 = add_workload_key func_name key env;
                  input_map = prepare_input_map g (nv_checked nv g) io_tensors;
                  env2 = (if input_map \<noteq> [] then add_workload_input_names key (map snd input_map) env1 else env1)
              in Inr (st\<lparr>rl_env := Some env2\<rparr>, NoSchedule)
            else Inr (st, NoSchedule)
          else if tr_mode env = PREPARE_LAYOUT_REWRITE then
            if get_target_default (nv_kind nv) (nv_device nv) True \<noteq> NO_REWRITE \<and> has_layout_free then
              bindR (unpack_state answer) (\<lambda>state. case state of
                None \<Rightarrow> Inr (st, NoSchedule)
              | Some s \<Rightarrow>
                  let new_key = nv_workload_key nv (nv_rewrite nv dag s) in
                  if new_key \<noteq> key then
                    bindR (update (nv_target nv) new_key (Some s) ctx (rl_ctx st)) (\<lambda>c. Inr (st\<lparr>rl_ctx := c\<rparr>, NoSchedule))
                  else Inr (st, NoSchedule))
            else Inr (st, NoSchedule)
          else Inl TypeError)"

text \<open>The query for an operator, and the surroundings with the registry of dynamic tasks of the state.\<close>

definition operator_query :: "('s, 'd, 'g, 'c) native \<Rightarrow> 'g \<Rightarrow> string \<Rightarrow> bool \<Rightarrow> string \<Rightarrow> qargs" where
  "operator_query nv dag key has_complex_op func_name =
     \<lparr>q_target = Some (nv_target nv), q_wkey = key, q_complex = has_complex_op,
      q_dag = nv_str nv dag, q_func = func_name\<rparr>"

definition operator_env :: "('s, 'd) env \<Rightarrow> ('s, 'd) relay \<Rightarrow> ('s, 'd) env" where
  "operator_env e st = e\<lparr>e_dyn := rl_dyn st\<rparr>"

text \<open>
  \<open>auto_schedule_topi\<close>, the whole callback. \<open>e\<close> holds what queries need; its registry of dynamic
  tasks is that of the state.
\<close>

definition auto_schedule_topi ::
  "nat \<Rightarrow> ('s, 'd, 'g, 'c) native \<Rightarrow> ('s, 'd) env \<Rightarrow> tensor list \<Rightarrow> string \<Rightarrow> nat list \<Rightarrow>
     ('s, 'd) relay \<Rightarrow> (('s, 'd) relay \<times> ('d, 'c) scheduled) res" where
  "auto_schedule_topi depth nv e g func_name outs st =
     bindR (traverse_to_get_io_tensors depth (nv_simplify nv) (rl_env st \<noteq> None) g outs)
       (\<lambda>(io_tensors, has_layout_free, has_complex_op).
     if io_tensors = [] then Inr (st, NoSchedule)
     else case nv_dag nv g io_tensors of
       Inl err \<Rightarrow> if err = TVMError then Inr (st, NoSchedule) else Inl err
     | Inr dag \<Rightarrow>
         bindR (register_workload_tensors (nv_workload_key nv dag) (nv_tensors nv g io_tensors) True (rl_registry st))
           (\<lambda>(registry, key).
         let st1 = st\<lparr>rl_registry := registry\<rparr> in
         case d_current (rl_ctx st1) of
           None \<Rightarrow> Inl AttributeError
         | Some ctx \<Rightarrow>
         bindR (from_log_dir nv g func_name io_tensors) (\<lambda>(from_log, wkl_inst).
         case from_log of
           Some d \<Rightarrow> bindR (dispatch_to_state (nv_dispatch nv) d (nv_insts nv d) wkl_inst) (\<lambda>s.
             Inr (st1, Schedule (nv_apply nv dag s)))
         | None \<Rightarrow>
         bindR (query depth (operator_env e st1) (operator_query nv dag key has_complex_op func_name)
             (Some ctx) (rl_ctx st1)) (\<lambda>(c, answer).
         let st2 = st1\<lparr>rl_ctx := c\<rparr> in
         case answer of
           ACached (CDisp d) \<Rightarrow> bindR (schedule_dynamic nv (rl_dyn st2) func_name d) (\<lambda>d'. Inr (st2, Dispatcher d'))
         | _ \<Rightarrow> schedule_static nv g func_name io_tensors has_layout_free has_complex_op dag key ctx answer st2))))"

section \<open>The registries of dynamic functions\<close>

definition cache_dyn_func ::
  "(string \<rightharpoonup> string) \<Rightarrow> 'f \<Rightarrow> string \<Rightarrow> (string \<rightharpoonup> 'f) \<Rightarrow> (string \<rightharpoonup> 'f) \<times> 'f" where
  "cache_dyn_func dyn_tasks func name_hint funcs =
     (if name_hint \<in> dom dyn_tasks then
        (case funcs name_hint of
           Some f \<Rightarrow> (funcs, f)
         | None \<Rightarrow> (funcs(name_hint \<mapsto> func), func))
      else (funcs, func))"

section \<open>Extracting tasks\<close>

text \<open>
  The compiler as the callbacks it makes. It runs in a thread of its own: an exception ends the
  thread, and what was traced before stays.
\<close>

datatype callback = Lower "tensor list" string "nat list" | UseCounts "(string \<times> int) list"

fun run_callback ::
  "nat \<Rightarrow> ('s, 'd, 'g, 'c) native \<Rightarrow> ('s, 'd) env \<Rightarrow> callback \<Rightarrow> ('s, 'd) relay \<Rightarrow> ('s, 'd) relay res" where
  "run_callback depth nv e (Lower g func_name outs) st =
     bindR (auto_schedule_topi depth nv e g func_name outs st) (\<lambda>(st, _). Inr st)"
| "run_callback depth nv e (UseCounts ws) st = Inr (st\<lparr>rl_env := te_compiler_update_weights ws (rl_env st)\<rparr>)"

fun build_thread ::
  "nat \<Rightarrow> ('s, 'd, 'g, 'c) native \<Rightarrow> ('s, 'd) env \<Rightarrow> callback list \<Rightarrow> ('s, 'd) relay \<Rightarrow> ('s, 'd) relay" where
  "build_thread depth nv e [] st = st"
| "build_thread depth nv e (c # cs) st =
     (case run_callback depth nv e c st of Inl _ \<Rightarrow> st | Inr st \<Rightarrow> build_thread depth nv e cs st)"

text \<open>\<open>verbose\<close> is an attribute of fallback contexts only.\<close>

definition set_verbose :: "nat \<Rightarrow> nat \<Rightarrow> ('s, 'd) dstate \<Rightarrow> (nat \<times> ('s, 'd) dstate) res" where
  "set_verbose i v st = (case d_heap st i of
       None \<Rightarrow> Inl AttributeError
     | Some c \<Rightarrow> (case c_body c of
           BFallback fb \<Rightarrow> Inr (f_verbose fb, set_body i (BFallback (fb\<lparr>f_verbose := v\<rparr>)) st)
         | _ \<Rightarrow> Inl AttributeError))"

text \<open>Running the compiler with a fresh environment and silent contexts; the environment it leaves.\<close>

definition trace_build ::
  "nat \<Rightarrow> ('s, 'd, 'g, 'c) native \<Rightarrow> ('s, 'd) env \<Rightarrow> nat \<Rightarrow> callback list \<Rightarrow> ('s, 'd) relay \<Rightarrow>
     (tracing \<times> ('s, 'd) relay) res" where
  "trace_build depth nv e mode compiler st = (case d_current (rl_ctx st) of
       None \<Rightarrow> Inl AttributeError
     | Some ctx \<Rightarrow>
         bindR (set_verbose ctx 0 (rl_ctx st)) (\<lambda>(old_verbose, c).
         let st1 = build_thread depth nv e compiler (st\<lparr>rl_ctx := c, rl_env := Some (new_tracing mode)\<rparr>) in
         bindR (set_verbose ctx old_verbose (rl_ctx st1)) (\<lambda>(_, c).
           Inr (case rl_env st1 of Some env \<Rightarrow> env | None \<Rightarrow> new_tracing mode, st1\<lparr>rl_ctx := c, rl_env := None\<rparr>))))"

text \<open>The arguments of a search task that is made from a workload key.\<close>

record task_args =
  ta_key :: string
  ta_inputs :: "string list option"
  ta_desc :: string

definition join_names :: "string list \<Rightarrow> string" where
  "join_names xs = (case xs of [] \<Rightarrow> [] | x # xs \<Rightarrow> foldl (\<lambda>a b. a @ '','' @ b) x xs)"

definition task_of :: "(string set \<Rightarrow> string list) \<Rightarrow> tracing \<Rightarrow> string \<Rightarrow> string set \<Rightarrow> task_args" where
  "task_of order env wkl_key func_names =
     \<lparr>ta_key = wkl_key, ta_inputs = map_of (tr_inputs env) wkl_key, ta_desc = join_names (order func_names)\<rparr>"

text \<open>\<open>order\<close> is the iteration order of sets, \<open>new_task\<close> the constructor of search tasks.\<close>

definition collect_tasks ::
  "(string set \<Rightarrow> string list) \<Rightarrow> (task_args \<Rightarrow> 't res) \<Rightarrow> tracing \<Rightarrow> ('t list \<times> int list) res" where
  "collect_tasks order new_task env =
     foldR (\<lambda>(wkl_key, weight, func_names) (tasks, weights).
         if weight = 1 then Inr (tasks, weights)
         else bindR (new_task (task_of order env wkl_key func_names)) (\<lambda>t. Inr (tasks @ [t], weights @ [weight])))
       (tr_weights env) ([], [])"

definition extract_tasks ::
  "nat \<Rightarrow> ('s, 'd, 'g, 'c) native \<Rightarrow> ('s, 'd) env \<Rightarrow> (string set \<Rightarrow> string list) \<Rightarrow> (task_args \<Rightarrow> 't res) \<Rightarrow>
     bool \<Rightarrow> callback list \<Rightarrow> ('s, 'd) relay \<Rightarrow> (('t list \<times> int list) \<times> ('s, 'd) relay) res" where
  "extract_tasks depth nv e order new_task include_simple_tasks compiler st =
     bindR (trace_build depth nv e (if include_simple_tasks then EXTRACT_TASK else EXTRACT_COMPLEX_TASK_ONLY) compiler st)
       (\<lambda>(env, st). bindR (collect_tasks order new_task env) (\<lambda>r. Inr (r, st)))"

section \<open>Extracting dynamic tasks\<close>

datatype wkl_func = RelayIntegration_Dense | RelayIntegration_BatchMatmul

type_synonym dyn_group = "wkl_func \<times> string list \<times> (pyval list \<times> int) list"

text \<open>Without an anchor at its end the pattern also matches longer names.\<close>

definition dyn_func :: "string \<Rightarrow> (wkl_func \<times> string list \<times> int list) option" where
  "dyn_func func_name =
     (if generated (\<lambda>_. True) ''_fused_nn_dense'' func_name
      then Some (RelayIntegration_Dense, [''M'', ''K'', ''N''], [1, 2, 3])
      else if generated (\<lambda>_. True) ''_fused_nn_batch_matmul'' func_name
      then Some (RelayIntegration_BatchMatmul, [''B'', ''M'', ''K'', ''N''], [1, 2, 3, 5])
      else None)"

definition add_instance ::
  "string \<Rightarrow> wkl_func \<Rightarrow> string list \<Rightarrow> pyval list \<Rightarrow> int \<Rightarrow> (string, dyn_group) dict \<Rightarrow> (string, dyn_group) dict" where
  "add_instance func_name f shape_vars shape weight groups =
     (case map_of groups func_name of
        None \<Rightarrow> AList.update func_name (f, shape_vars, [(shape, weight)]) groups
      | Some (f', vs, insts) \<Rightarrow> AList.update func_name (f', vs, insts @ [(shape, weight)]) groups)"

definition gather_task ::
  "(string set \<Rightarrow> string list) \<Rightarrow> (string \<Rightarrow> pyval res) \<Rightarrow> (task_args \<Rightarrow> 't res) \<Rightarrow> tracing \<Rightarrow>
     string \<times> int \<times> string set \<Rightarrow> (string, dyn_group) dict \<times> 't list \<times> int list \<Rightarrow>
     ((string, dyn_group) dict \<times> 't list \<times> int list) res" where
  "gather_task order load_json new_task env = (\<lambda>(wkl_key, weight, func_names) (groups, tasks, weights).
     bindR (guardR (card func_names = 1) AssertionError) (\<lambda>_.
     bindR (py_get (order func_names) 0) (\<lambda>f.
     let func_name = remove_func_name_indices f in
     bindR (load_json wkl_key) (\<lambda>wkl_info. case dyn_func func_name of
         Some (func, shape_vars, idx) \<Rightarrow>
           bindR (py_items wkl_info) (\<lambda>items. bindR (mapR (py_get items) idx) (\<lambda>shape.
             Inr (add_instance func_name func shape_vars shape weight groups, tasks, weights)))
       | None \<Rightarrow> bindR (new_task (task_of order env wkl_key func_names)) (\<lambda>t.
           Inr (groups, tasks @ [t], weights @ [weight]))))))"

text \<open>The parameters of \<open>SearchTask.__init__\<close>, and a call by keywords.\<close>

definition search_task_params :: "string list" where
  "search_task_params = [''func'', ''args'', ''shape_vars'', ''wkl_insts'', ''wkl_inst_weights'', ''compute_dag'',
     ''workload_key'', ''target'', ''target_host'', ''hardware_params'', ''layout_rewrite_option'', ''task_inputs'',
     ''task_inputs_overwrite'', ''task_inputs_save_to_file'', ''desc'']"

definition call_search_task :: "string list \<Rightarrow> 't res \<Rightarrow> 't res" where
  "call_search_task keywords r = (if set keywords \<subseteq> set search_task_params then r else Inl TypeError)"

definition dyn_task ::
  "(wkl_func \<Rightarrow> string list \<Rightarrow> 't res) \<Rightarrow> ('t \<Rightarrow> string) \<Rightarrow> string \<times> dyn_group \<Rightarrow>
     't list \<times> int list \<times> (string \<rightharpoonup> string) \<Rightarrow> ('t list \<times> int list \<times> (string \<rightharpoonup> string)) res" where
  "dyn_task new_dyn_task key_of = (\<lambda>(func_name, wkl_func, shape_vars, insts) (tasks, weights, dyn).
     bindR (call_search_task [''func'', ''args'', ''target'', ''shape_vars'', ''shape_value_freq_pairs'']
         (new_dyn_task wkl_func shape_vars)) (\<lambda>t.
       Inr (tasks @ [t], weights @ [sumlist (map snd insts)], dyn(func_name \<mapsto> key_of t))))"

definition extract_dyn_tasks ::
  "nat \<Rightarrow> ('s, 'd, 'g, 'c) native \<Rightarrow> ('s, 'd) env \<Rightarrow> (string set \<Rightarrow> string list) \<Rightarrow> (string \<Rightarrow> pyval res) \<Rightarrow>
     (task_args \<Rightarrow> 't res) \<Rightarrow> (wkl_func \<Rightarrow> string list \<Rightarrow> 't res) \<Rightarrow> ('t \<Rightarrow> string) \<Rightarrow>
     callback list \<Rightarrow> ('s, 'd) relay \<Rightarrow> (('t list \<times> int list) \<times> ('s, 'd) relay) res" where
  "extract_dyn_tasks depth nv e order load_json new_task new_dyn_task key_of compiler st =
     bindR (trace_build depth nv e EXTRACT_COMPLEX_TASK_ONLY compiler st) (\<lambda>(env, st).
     bindR (foldR (gather_task order load_json new_task env) (tr_weights env) ([], [], [])) (\<lambda>(groups, tasks, weights).
     bindR (foldR (dyn_task new_dyn_task key_of) groups (tasks, weights, rl_dyn st)) (\<lambda>(tasks, weights, dyn).
       Inr ((tasks, weights), st\<lparr>rl_dyn := dyn\<rparr>))))"

section \<open>Use counts\<close>

text \<open>The workloads of some functions, each once, in the order of their first use.\<close>

definition used_keys :: "(string, string) dict \<Rightarrow> (string \<times> int) list \<Rightarrow> string list" where
  "used_keys keys fws = rev (remdups (rev [key. (f, _) \<leftarrow> fws, Some key \<leftarrow> [map_of keys f]]))"

definition use_count :: "(string, string) dict \<Rightarrow> (string \<times> int) list \<Rightarrow> string \<Rightarrow> int" where
  "use_count keys fws key = sumlist [n. (f, n) \<leftarrow> fws, map_of keys f = Some key]"

definition use_names :: "(string, string) dict \<Rightarrow> (string \<times> int) list \<Rightarrow> string \<Rightarrow> string set" where
  "use_names keys fws key = {f \<in> fst ` set fws. map_of keys f = Some key}"

lemma update_listed:
  "distinct ks \<Longrightarrow> AList.update k v (map (\<lambda>k. (k, g k)) ks) =
     (if k \<in> set ks then map (\<lambda>k'. (k', if k' = k then v else g k')) ks
      else map (\<lambda>k. (k, g k)) ks @ [(k, v)])"
  by (induction ks) auto

lemma map_of_listed: "map_of (map (\<lambda>k. (k, g k)) ks) k = (if k \<in> set ks then Some (g k) else None)"
  by (induction ks) auto

lemma used_keys_snoc: "used_keys keys (fws @ [(f, n)]) = (case map_of keys f of
    None \<Rightarrow> used_keys keys fws
  | Some k \<Rightarrow> if k \<in> set (used_keys keys fws) then used_keys keys fws else used_keys keys fws @ [k])"
  by (auto simp: used_keys_def split: option.split)

lemma distinct_used_keys [simp]: "distinct (used_keys keys fws)"
  by (simp add: used_keys_def)

lemma unused_key: "k \<notin> set (used_keys keys fws) \<Longrightarrow> use_count keys fws k = 0 \<and> use_names keys fws k = {}"
proof (induction fws rule: rev_induct)
  case (snoc x fws)
  obtain f n where "x = (f, n)" by (cases x)
  then show ?case using snoc by (auto simp: used_keys_snoc use_count_def use_names_def split: option.splits if_splits)
qed (simp add: use_count_def use_names_def)

lemma weights_listed: "fold (update_weight keys) fws [] =
    map (\<lambda>k. (k, use_count keys fws k, use_names keys fws k)) (used_keys keys fws)"
proof (induction fws rule: rev_induct)
  case Nil
  then show ?case by (simp add: used_keys_def)
next
  case (snoc x fws)
  obtain f n where x: "x = (f, n)" by (cases x)
  show ?case
  proof (cases "map_of keys f")
    case None
    have "use_count keys (fws @ [x]) k = use_count keys fws k \<and> use_names keys (fws @ [x]) k = use_names keys fws k" for k
      using None by (auto simp: x use_count_def use_names_def)
    then show ?thesis using snoc None by (simp add: x used_keys_snoc update_weight_def)
  next
    case (Some key)
    have c: "use_count keys (fws @ [x]) k = use_count keys fws k + (if k = key then n else 0)" for k
      using Some by (simp add: x use_count_def)
    have s: "use_names keys (fws @ [x]) k = (if k = key then insert f (use_names keys fws k) else use_names keys fws k)" for k
      using Some by (auto simp: x use_names_def)
    let ?old = "map (\<lambda>k. (k, use_count keys fws k, use_names keys fws k)) (used_keys keys fws)"
    have e: "(case map_of ?old key of None \<Rightarrow> (0, {}) | Some e \<Rightarrow> e) = (use_count keys fws key, use_names keys fws key)"
      using unused_key [of key keys fws] by (auto simp: map_of_listed)
    have "fold (update_weight keys) (fws @ [x]) [] = count_use key n f ?old"
      using snoc Some by (simp add: x update_weight_def)
    also have "\<dots> = AList.update key (use_count keys fws key + n, insert f (use_names keys fws key)) ?old"
      by (simp add: count_use_def e)
    also have "\<dots> = map (\<lambda>k. (k, use_count keys (fws @ [x]) k, use_names keys (fws @ [x]) k)) (used_keys keys (fws @ [x]))"
      using unused_key [of key keys fws] unfolding c s
      by (auto simp: update_listed x used_keys_snoc Some)
    finally show ?thesis .
  qed
qed

lemma collect_loop: "foldR (\<lambda>(wkl_key, weight, func_names) (tasks, weights).
      if weight = 1 then Inr (tasks, weights)
      else bindR (new_task (task_of order env wkl_key func_names)) (\<lambda>t. Inr (tasks @ [t], weights @ [weight])))
    (map (\<lambda>k. (k, c k, s k)) ks) (ts, ws) =
    bindR (mapR (\<lambda>k. new_task (task_of order env k (s k))) (filter (\<lambda>k. c k \<noteq> 1) ks))
      (\<lambda>ts'. Inr (ts @ ts', ws @ map c (filter (\<lambda>k. c k \<noteq> 1) ks)))"
proof (induction ks arbitrary: ts ws)
  case (Cons k ks)
  show ?case
  proof (cases "c k = 1")
    case True
    then show ?thesis using Cons by simp
  next
    case False
    then show ?thesis using Cons
      by (cases "new_task (task_of order env k (s k))";
          cases "mapR (\<lambda>k. new_task (task_of order env k (s k))) (filter (\<lambda>k. c k \<noteq> 1) ks)") simp_all
  qed
qed simp

text \<open>
  C30. What the code extracts once the compiler has reported how often it uses its functions: one task
  per traced workload, in the order of their first use, with the names of all functions that compute
  it and the sum of their use counts as weight. A function that was not traced is left out. So is, by
  a check DietCode has added, a workload whose use counts add up to 1; the documentation of
  \<open>extract_tasks\<close> and the tests of the repository expect a task with weight 1 for it, so the last part
  is what the code does and not what they ask for.
\<close>

theorem tasks_by_use_count:
  "collect_tasks order new_task (the (te_compiler_update_weights fws (Some env))) =
     (let count = use_count (tr_keys env) fws; ks = filter (\<lambda>k. count k \<noteq> 1) (used_keys (tr_keys env) fws)
      in bindR (mapR (\<lambda>k. new_task (task_of order env k (use_names (tr_keys env) fws k))) ks)
           (\<lambda>tasks. Inr (tasks, map count ks)))"
proof -
  have "task_of order (env\<lparr>tr_weights := w\<rparr>) = task_of order env" for w
    by (simp add: fun_eq_iff task_of_def)
  then show "collect_tasks order new_task (the (te_compiler_update_weights fws (Some env))) =
     (let count = use_count (tr_keys env) fws; ks = filter (\<lambda>k. count k \<noteq> 1) (used_keys (tr_keys env) fws)
      in bindR (mapR (\<lambda>k. new_task (task_of order env k (use_names (tr_keys env) fws k))) ks)
           (\<lambda>tasks. Inr (tasks, map count ks)))"
    by (simp add: collect_tasks_def te_compiler_update_weights_def weights_listed collect_loop Let_def)
qed

text \<open>
  In particular a model whose functions are each used once, like the smallest ones of the tests, gives
  no task at all.
\<close>

lemma used_once_not_extracted:
  assumes "\<forall>key\<in>set (used_keys (tr_keys env) fws). use_count (tr_keys env) fws key = 1"
  shows "collect_tasks order new_task (the (te_compiler_update_weights fws (Some env))) = Inr ([], [])"
proof -
  have "filter (\<lambda>k. use_count (tr_keys env) fws k \<noteq> 1) (used_keys (tr_keys env) fws) = []"
    using assms by (simp add: filter_empty_conv)
  then show ?thesis
    by (simp add: collect_tasks_def te_compiler_update_weights_def weights_listed collect_loop Let_def)
qed

section \<open>Dynamic tasks\<close>

definition traced_dyn :: "(string set \<Rightarrow> string list) \<Rightarrow> string \<times> int \<times> string set \<Rightarrow> bool" where
  "traced_dyn order = (\<lambda>(_, _, func_names). dyn_func (remove_func_name_indices (hd (order func_names))) \<noteq> None)"

text \<open>What the loop needs of a traced workload: one name, a key that loads, dimensions to read, a task.\<close>

definition gatherable ::
  "(string set \<Rightarrow> string list) \<Rightarrow> (string \<Rightarrow> pyval res) \<Rightarrow> (task_args \<Rightarrow> 't res) \<Rightarrow> tracing \<Rightarrow>
     string \<times> int \<times> string set \<Rightarrow> bool" where
  "gatherable order load_json new_task env = (\<lambda>(key, w, func_names).
     card func_names = 1 \<and> order func_names \<noteq> [] \<and>
     (\<exists>v items. load_json key = Inr v \<and> py_items v = Inr items \<and> 6 \<le> length items) \<and>
     (\<exists>t. new_task (task_of order env key func_names) = Inr t))"

lemma dyn_task_raises: "dyn_task new_dyn_task key_of g x = Inl TypeError"
proof -
  have "''shape_value_freq_pairs'' \<notin> set search_task_params" by code_simp
  then show ?thesis by (auto simp: dyn_task_def call_search_task_def split: prod.split)
qed

lemma dyn_func_indices: "dyn_func f = Some (wfun, vs, idx) \<Longrightarrow> \<forall>i\<in>set idx. 0 \<le> i \<and> i < 6"
  by (auto simp: dyn_func_def split: if_splits)

lemma add_instance_ne: "add_instance f wfun vs shape w groups \<noteq> []"
  by (cases groups) (auto simp: add_instance_def split: option.splits prod.splits if_splits)

lemma gather_one:
  assumes "gatherable order load_json new_task env x"
  shows "\<exists>groups' tasks' weights'. gather_task order load_json new_task env x (groups, tasks, weights) =
      Inr (groups', tasks', weights') \<and> (groups' \<noteq> [] \<longleftrightarrow> groups \<noteq> [] \<or> traced_dyn order x) \<and>
      (\<not> traced_dyn order x \<longrightarrow> groups' = groups \<and> weights' = weights @ [fst (snd x)] \<and>
        (\<exists>t. new_task (task_of order env (fst x) (snd (snd x))) = Inr t \<and> tasks' = tasks @ [t]))"
proof -
  obtain key w fs where x: "x = (key, w, fs)" by (cases x)
  obtain f fs' where o: "order fs = f # fs'" using assms by (auto simp: x gatherable_def neq_Nil_conv)
  obtain v items t where g: "card fs = 1" "load_json key = Inr v" "py_items v = Inr items" "6 \<le> length items"
    "new_task (task_of order env key fs) = Inr t"
    using assms by (auto simp: x gatherable_def)
  show ?thesis
  proof (cases "dyn_func (remove_func_name_indices f)")
    case None
    then show ?thesis using g by (simp add: x gather_task_def o traced_dyn_def)
  next
    case (Some d)
    obtain wfun vs idx where d: "d = (wfun, vs, idx)" by (cases d)
    have "mapR (py_get items) idx = Inr (map (\<lambda>i. items ! nat i) idx)"
    proof (rule mapR_total)
      fix i assume "i \<in> set idx"
      then have "0 \<le> i" "i < 6" using dyn_func_indices Some d by blast+
      then show "py_get items i = Inr (items ! nat i)" using g(4) by (simp add: py_get_def)
    qed
    then show ?thesis using Some g by (simp add: x d gather_task_def o traced_dyn_def add_instance_ne)
  qed
qed

lemma gather_all:
  assumes "\<forall>x\<in>set xs. gatherable order load_json new_task env x"
  shows "\<exists>groups' tasks' weights'. foldR (gather_task order load_json new_task env) xs (groups, tasks, weights) =
      Inr (groups', tasks', weights') \<and> (groups' \<noteq> [] \<longleftrightarrow> groups \<noteq> [] \<or> (\<exists>x\<in>set xs. traced_dyn order x)) \<and>
      ((\<forall>x\<in>set xs. \<not> traced_dyn order x) \<longrightarrow> groups' = groups \<and> weights' = weights @ map (fst \<circ> snd) xs \<and>
        (\<exists>ts. mapR (\<lambda>(key, _, fs). new_task (task_of order env key fs)) xs = Inr ts \<and> tasks' = tasks @ ts))"
  using assms
proof (induction xs arbitrary: groups tasks weights)
  case (Cons x xs)
  have gx: "gatherable order load_json new_task env x" using Cons.prems by simp
  obtain g1 t1 w1 where one: "gather_task order load_json new_task env x (groups, tasks, weights) = Inr (g1, t1, w1)"
    "g1 \<noteq> [] \<longleftrightarrow> groups \<noteq> [] \<or> traced_dyn order x"
    "\<not> traced_dyn order x \<longrightarrow> g1 = groups \<and> w1 = weights @ [fst (snd x)] \<and>
      (\<exists>t. new_task (task_of order env (fst x) (snd (snd x))) = Inr t \<and> t1 = tasks @ [t])"
    using gather_one [OF gx, of groups tasks weights] by (elim exE conjE) (rule that)
  obtain g2 t2 w2 where rest: "foldR (gather_task order load_json new_task env) xs (g1, t1, w1) = Inr (g2, t2, w2)"
    "g2 \<noteq> [] \<longleftrightarrow> g1 \<noteq> [] \<or> (\<exists>x\<in>set xs. traced_dyn order x)"
    "(\<forall>x\<in>set xs. \<not> traced_dyn order x) \<longrightarrow> g2 = g1 \<and> w2 = w1 @ map (fst \<circ> snd) xs \<and>
      (\<exists>ts. mapR (\<lambda>(key, _, fs). new_task (task_of order env key fs)) xs = Inr ts \<and> t2 = t1 @ ts)"
    using Cons.IH [of g1 t1 w1] Cons.prems by (elim meta_impE exE conjE) (simp, rule that)
  have "(\<forall>x'\<in>set (x # xs). \<not> traced_dyn order x') \<longrightarrow> g2 = groups \<and> w2 = weights @ map (fst \<circ> snd) (x # xs) \<and>
      (\<exists>ts. mapR (\<lambda>(key, _, fs). new_task (task_of order env key fs)) (x # xs) = Inr ts \<and> t2 = tasks @ ts)"
    using one(3) rest(3) by (auto simp: case_prod_unfold)
  then show ?case using one(1,2) rest(1,2) by auto
qed simp

text \<open>
  C37. \<open>extract_dyn_tasks\<close>, when every traced workload has one function, a key that loads and a task
  that can be made. As soon as the model has a dense layer or a batched matrix multiplication, the
  operators that the dynamic tuner is for, the call raises \<open>TypeError\<close>, because \<open>SearchTask\<close> has no
  parameter \<open>shape_value_freq_pairs\<close>. Without one it returns one task per traced workload with its
  weight, and registers no dynamic task.
\<close>

theorem dynamic_tasks_never_made:
  assumes "trace_build depth nv e EXTRACT_COMPLEX_TASK_ONLY compiler st = Inr (env, st')"
    and "\<forall>x\<in>set (tr_weights env). gatherable order load_json new_task env x"
  shows "extract_dyn_tasks depth nv e order load_json new_task new_dyn_task key_of compiler st =
    (if \<exists>x\<in>set (tr_weights env). traced_dyn order x then Inl TypeError
     else bindR (mapR (\<lambda>(key, _, fs). new_task (task_of order env key fs)) (tr_weights env))
       (\<lambda>tasks. Inr ((tasks, map (fst \<circ> snd) (tr_weights env)), st')))"
proof -
  obtain groups tasks weights where g:
    "foldR (gather_task order load_json new_task env) (tr_weights env) ([], [], []) = Inr (groups, tasks, weights)"
    "groups \<noteq> [] \<longleftrightarrow> (\<exists>x\<in>set (tr_weights env). traced_dyn order x)"
    "(\<forall>x\<in>set (tr_weights env). \<not> traced_dyn order x) \<longrightarrow> groups = [] \<and> weights = map (fst \<circ> snd) (tr_weights env) \<and>
      mapR (\<lambda>(key, _, fs). new_task (task_of order env key fs)) (tr_weights env) = Inr tasks"
    using gather_all [OF assms(2), of "[]" "[]" "[]"] by auto
  show ?thesis
  proof (cases "\<exists>x\<in>set (tr_weights env). traced_dyn order x")
    case True
    then obtain x xs where "groups = x # xs" using g(2) by (auto simp: neq_Nil_conv)
    then show ?thesis using True assms(1) g(1) by (simp add: extract_dyn_tasks_def dyn_task_raises)
  next
    case False
    then show ?thesis using assms(1) g(1,3) by (simp add: extract_dyn_tasks_def)
  qed
qed

section \<open>Compiling with a history\<close>

lemma register_again: "register_workload_tensors key ts True reg = Inr (reg(key \<mapsto> RTensors ts), key)"
  by (simp add: register_workload_tensors_def register_workload_def register_def)

definition with_history ::
  "nat \<Rightarrow> ('s, 'd, 'g, 'c) native \<Rightarrow> ('s, 'd) env \<Rightarrow> tensor list \<Rightarrow> nat list \<Rightarrow> ('s, 'd) relay \<Rightarrow>
     nat list \<Rightarrow> bool \<Rightarrow> bool \<Rightarrow> 'g \<Rightarrow> nat \<Rightarrow> nat list \<Rightarrow> nat \<Rightarrow> string \<Rightarrow> bool" where
  "with_history depth nv e g outs st io lf cx dag i hs base func_name \<longleftrightarrow> nv_log_dir nv = None \<and>
     traverse_to_get_io_tensors depth (nv_simplify nv) (rl_env st \<noteq> None) g outs = Inr (io, lf, cx) \<and> io \<noteq> [] \<and>
     nv_dag nv g io = Inr dag \<and> d_current (rl_ctx st) = Some i \<and> chain (rl_ctx st) (Some i) hs base \<and>
     length hs < depth \<and> query_ok (e_decode e) (rl_dyn st) (nv_workload_key nv dag) func_name \<and>
     fallback_at (rl_ctx st) base \<noteq> None"

text \<open>The cached result that the contexts have for an operator, and what the base remembers.\<close>

definition operator_hit ::
  "('s, 'd, 'g, 'c) native \<Rightarrow> ('s, 'd) env \<Rightarrow> ('s, 'd) relay \<Rightarrow> bool \<Rightarrow> 'g \<Rightarrow> nat list \<Rightarrow> string \<Rightarrow> ('s, 'd) cached option" where
  "operator_hit nv e st cx dag hs func_name =
     first_some (map (hits (operator_env e st) (operator_query nv dag (nv_workload_key nv dag) cx func_name)
       (nv_target nv) (rl_ctx st)) hs)"

definition remembered :: "('s, 'd, 'g, 'c) native \<Rightarrow> ('s, 'd) relay \<Rightarrow> 'g \<Rightarrow> nat \<Rightarrow> 's option" where
  "remembered nv st dag base =
     (case f_memory (the (fallback_at (rl_ctx st) base)) (t_str (nv_target nv), nv_workload_key nv dag) of
        Some s \<Rightarrow> s | None \<Rightarrow> None)"

lemma operator_answer:
  assumes "with_history depth nv e g outs st io lf cx dag i hs base f"
  shows "\<exists>c. query depth (operator_env e st) (operator_query nv dag (nv_workload_key nv dag) cx f) (Some i) (rl_ctx st) =
    Inr (c, case operator_hit nv e st cx dag hs f of Some x \<Rightarrow> ACached x | None \<Rightarrow> AMemory (remembered nv st dag base))"
proof -
  let ?q = "operator_query nv dag (nv_workload_key nv dag) cx f"
  obtain fb where fb: "fallback_at (rl_ctx st) base = Some fb" using assms by (auto simp: with_history_def)
  have q: "q_target ?q = Some (nv_target nv)" "q_wkey ?q = nv_workload_key nv dag" by (simp_all add: operator_query_def)
  have w: "chain (rl_ctx st) (Some i) hs base" "length hs < depth"
    "query_ok (e_decode (operator_env e st)) (e_dyn (operator_env e st)) (q_wkey ?q) (q_func ?q)"
    using assms by (simp_all add: with_history_def operator_query_def operator_env_def)
  show ?thesis
    using query_along_chain [OF w(1,2) q(1) w(3) fb] by (simp only: operator_hit_def remembered_def fb option.sel q)
qed

text \<open>A query changes what contexts remember, not what they are.\<close>

fun is_base :: "('s, 'd) body \<Rightarrow> bool" where
  "is_base (BFallback _) = True"
| "is_base _ = False"

definition refuses_update :: "('s, 'd) dstate \<Rightarrow> nat \<Rightarrow> bool" where
  "refuses_update st i = (case d_heap st i of Some c \<Rightarrow> \<not> is_base (c_body c) | None \<Rightarrow> False)"

lemma set_body_kind:
  assumes "d_heap st j = Some c" "is_base (c_body c) = is_base b"
  shows "refuses_update (set_body j b st) i = refuses_update st i"
  using assms by (simp add: refuses_update_def set_body_def)

lemma query_keeps_kind:
  "query depth e q i st = Inr (st', answer) \<Longrightarrow> refuses_update st' j = refuses_update st j"
proof (induction depth e q i st rule: query.induct)
  case (2 depth e q i st)
  obtain c where c: "Option.bind i (d_heap st) = Some c" using 2 by (cases "Option.bind i (d_heap st)") auto
  then have ci: "i = Some (the i)" "d_heap st (the i) = Some c" by (cases i, simp, simp)+
  have kind: "refuses_update (set_body (the i) b st) j = refuses_update st j"
    if "is_base (c_body c) = is_base b" for b
    by (rule set_body_kind [OF ci(2) that])
  show ?case
  proof (cases "c_body c")
    case (BFallback fb)
    obtain fb' s where "fallback_query (str_target (q_target q)) (q_wkey q) (q_complex q) (q_dag q) (q_func q) fb = (fb', s)"
      by (cases "fallback_query (str_target (q_target q)) (q_wkey q) (q_complex q) (q_dag q) (q_func q) fb")
    then have "st' = set_body (the i) (BFallback fb') st" using 2 c BFallback by simp
    then show ?thesis using kind BFallback by simp
  next
    case (BHistory h)
    from 2 c BHistory obtain h' r where
      "query_inside (e_decode e) (e_dyn e) (q_target q) (q_wkey q) (q_func q) h = Inr (h', r)"
      "(case r of Some x \<Rightarrow> Inr (set_body (the i) (BHistory h') st, ACached x)
        | None \<Rightarrow> query depth e q (c_old c) (set_body (the i) (BHistory h') st)) = Inr (st', answer)"
      by (auto simp: bindR_Inr_iff)
    then show ?thesis using 2(1) [OF c BHistory] kind BHistory by (auto split: option.splits)
  next
    case (BSample b h)
    from 2 c BSample obtain h' r where
      "sample_inside e q b h = Inr (h', r)"
      "(case r of Some x \<Rightarrow> Inr (set_body (the i) (BSample b h') st, ACached x)
        | None \<Rightarrow> query depth e q (c_old c) (set_body (the i) (BSample b h') st)) = Inr (st', answer)"
      by (auto simp: bindR_Inr_iff)
    then show ?thesis using 2(2) [OF c BSample] kind BSample by (auto split: option.splits)
  qed
qed simp

lemma operator_scheduled:
  assumes w: "with_history depth nv e g outs st io lf cx dag i hs base f"
  shows "\<exists>st'. rl_env st' = rl_env st \<and> rl_dyn st' = rl_dyn st \<and>
    (\<forall>j. refuses_update (rl_ctx st') j = refuses_update (rl_ctx st) j) \<and>
    auto_schedule_topi depth nv e g f outs st =
      (case operator_hit nv e st cx dag hs f of
         Some (CDisp d) \<Rightarrow> bindR (schedule_dynamic nv (rl_dyn st) f d) (\<lambda>d'. Inr (st', Dispatcher d'))
       | Some (CPair s c) \<Rightarrow> schedule_static nv g f io lf cx dag (nv_workload_key nv dag) i (ACached (CPair s c)) st'
       | None \<Rightarrow> schedule_static nv g f io lf cx dag (nv_workload_key nv dag) i (AMemory (remembered nv st dag base)) st')"
proof -
  let ?key = "nv_workload_key nv dag"
  let ?st1 = "st\<lparr>rl_registry := (rl_registry st)(?key \<mapsto> RTensors (nv_tensors nv g io))\<rparr>"
  obtain c where q: "query depth (operator_env e st) (operator_query nv dag ?key cx f) (Some i) (rl_ctx st) =
    Inr (c, case operator_hit nv e st cx dag hs f of Some x \<Rightarrow> ACached x | None \<Rightarrow> AMemory (remembered nv st dag base))"
    using operator_answer [OF w] by blast
  have k: "refuses_update c j = refuses_update (rl_ctx st) j" for j by (rule query_keeps_kind [OF q])
  have e1: "operator_env e ?st1 = operator_env e st" by (simp add: operator_env_def)
  have h: "nv_log_dir nv = None" "traverse_to_get_io_tensors depth (nv_simplify nv) (rl_env st \<noteq> None) g outs = Inr (io, lf, cx)"
    "io \<noteq> []" "nv_dag nv g io = Inr dag" "d_current (rl_ctx st) = Some i"
    using w unfolding with_history_def by blast+
  have l: "from_log_dir nv g f io = Inr (None, [])" using h(1) by (simp add: from_log_dir_def)
  show ?thesis
  proof (intro exI [of _ "?st1\<lparr>rl_ctx := c\<rparr>"] conjI allI)
    show "refuses_update (rl_ctx (?st1\<lparr>rl_ctx := c\<rparr>)) j = refuses_update (rl_ctx st) j" for j using k by simp
    show "auto_schedule_topi depth nv e g f outs st =
      (case operator_hit nv e st cx dag hs f of
         Some (CDisp d) \<Rightarrow> bindR (schedule_dynamic nv (rl_dyn st) f d) (\<lambda>d'. Inr (?st1\<lparr>rl_ctx := c\<rparr>, Dispatcher d'))
       | Some (CPair s cost) \<Rightarrow> schedule_static nv g f io lf cx dag ?key i (ACached (CPair s cost)) (?st1\<lparr>rl_ctx := c\<rparr>)
       | None \<Rightarrow> schedule_static nv g f io lf cx dag ?key i (AMemory (remembered nv st dag base)) (?st1\<lparr>rl_ctx := c\<rparr>))"
      using h(3) unfolding auto_schedule_topi_def h(2,4) bindR_simps prod.case register_again Let_def l e1
      by (simp add: h(5) q e1 split: option.split cached.split)
  qed simp_all
qed

text \<open>
  C2. Compiling an operator outside the tracing modes, below a stack of history contexts. What the
  contexts hold for its workload, innermost first, decides: the schedule is what the steps of the
  cached state make of the compute DAG; for a dispatcher it is the dispatcher, completed by the
  compute DAG of the dynamic task that the name of the function belongs to. When no context holds
  anything the operator gets no schedule; but if the fallback context remembers a state for it the
  call raises \<open>TypeError\<close>, since such a state does not come with a cost.
\<close>

theorem operator_gets_cached_schedule:
  assumes "with_history depth nv e g outs st io lf cx dag i hs base f" "rl_env st = None"
  shows "\<exists>st'. rl_env st' = None \<and> auto_schedule_topi depth nv e g f outs st =
    (case operator_hit nv e st cx dag hs f of
       Some (CPair s c) \<Rightarrow> Inr (st', Schedule (nv_apply nv dag s))
     | Some (CDisp d) \<Rightarrow> (case rl_dyn st (remove_func_name_indices f) of
           None \<Rightarrow> Inl KeyError
         | Some key \<Rightarrow> if nv_has_dag nv (nv_embed nv d key) then Inr (st', Dispatcher (nv_embed nv d key))
             else Inl AssertionError)
     | None \<Rightarrow> (case remembered nv st dag base of None \<Rightarrow> Inr (st', NoSchedule) | Some s \<Rightarrow> Inl TypeError))"
proof -
  obtain st' where "rl_env st' = rl_env st" "auto_schedule_topi depth nv e g f outs st =
      (case operator_hit nv e st cx dag hs f of
         Some (CDisp d) \<Rightarrow> bindR (schedule_dynamic nv (rl_dyn st) f d) (\<lambda>d'. Inr (st', Dispatcher d'))
       | Some (CPair s c) \<Rightarrow> schedule_static nv g f io lf cx dag (nv_workload_key nv dag) i (ACached (CPair s c)) st'
       | None \<Rightarrow> schedule_static nv g f io lf cx dag (nv_workload_key nv dag) i (AMemory (remembered nv st dag base)) st')"
    using operator_scheduled [OF assms(1)] by (elim exE conjE) (rule that)
  then show ?thesis using assms(2)
    by (intro exI [of _ st'])
      (simp add: schedule_static_def schedule_dynamic_def Let_def split: option.split cached.split)
qed

text \<open>
  Rewriting layouts never reaches a context: while the compiler prepares it for an operator with a
  free layout, below at least one history context, and a cached state changes the layout, the call
  that should store the state for the new layout is refused with \<open>AssertionError\<close>.
\<close>

lemma layout_rewrite_refused:
  assumes "with_history depth nv e g outs st io True cx dag i hs base f" "hs \<noteq> []"
    and "rl_env st = Some env" "tr_mode env = PREPARE_LAYOUT_REWRITE"
    and "nv_kind nv = ''llvm'' \<or> nv_device nv = Some ''mali''"
    and "operator_hit nv e st cx dag hs f = Some (CPair s c)"
    and "nv_workload_key nv (nv_rewrite nv dag s) \<noteq> nv_workload_key nv dag"
  shows "auto_schedule_topi depth nv e g f outs st = Inl AssertionError"
proof -
  obtain st' where st': "rl_env st' = rl_env st" "\<forall>j. refuses_update (rl_ctx st') j = refuses_update (rl_ctx st) j"
    "auto_schedule_topi depth nv e g f outs st =
      schedule_static nv g f io True cx dag (nv_workload_key nv dag) i (ACached (CPair s c)) st'"
    using operator_scheduled [OF assms(1)] unfolding assms(6) option.case cached.case
    by (elim exE conjE) (rule that)
  obtain h hs' where "hs = h # hs'" using assms(2) by (cases hs) auto
  then have "plain_history (rl_ctx st) i \<noteq> None" using assms(1) by (simp add: with_history_def)
  then have "refuses_update (rl_ctx st) i"
    by (auto simp: refuses_update_def plain_history_def split: option.splits body.splits)
  then have "refuses_update (rl_ctx st') i" using st'(2) by blast
  then have "update (nv_target nv) k v i (rl_ctx st') = Inl AssertionError" for k v
    by (auto simp: refuses_update_def update_def split: option.splits body.splits)
  then show ?thesis using st'(1,3) assms(3-5,7)
    by (simp add: schedule_static_def get_target_default_def Let_def)
qed

section \<open>Instances\<close>

text \<open>The expression of a dense layer whose weight has a free layout, and native code for it.\<close>

definition free_dense_graph :: "tensor list" where
  "free_dense_graph = (let t = (\<lambda>ns op. \<lparr>tn_shape = map VInt ns, tn_op = op\<rparr>) in
     [t [16, 8] (Placeholder ''X''), t [4, 8] (Placeholder ''placeholder''),
      t [16, 4] (Compute ''T_matmul_NT'' ''matmul'' True [0, 1])])"

definition demo_native :: "(nat, nat, bool, nat) native" where
  "demo_native = \<lparr>nv_simplify = id, nv_dag = (\<lambda>_ _. Inr False), nv_workload_key = (\<lambda>b. if b then ''k2'' else ''k1''),
     nv_str = (\<lambda>_. []), nv_apply = (\<lambda>_ s. s), nv_rewrite = (\<lambda>_ _. True), nv_tensors = (\<lambda>_ _. VNone),
     nv_checked = (\<lambda>_ _. []), nv_embed = (\<lambda>d _. d), nv_has_dag = (\<lambda>_. True), nv_insts = (\<lambda>_. []),
     nv_dispatch = (\<lambda>_ _. 0), nv_log_dir = None, nv_logs = (\<lambda>_. Inl FileNotFoundError), nv_kind = ''llvm'',
     nv_device = None, nv_target = demo_target\<rparr>"

definition demo_history :: "(nat, nat) history" where
  "demo_history = (empty_history False)\<lparr>h_by_targetkey := put_cached (''cuda'', JStr ''k1'') (CPair 5 (Some 3)) Map.empty\<rparr>"

definition demo_relay :: "nat option \<Rightarrow> (nat, nat) relay" where
  "demo_relay mode = \<lparr>rl_ctx = \<lparr>d_heap = [0 \<mapsto> \<lparr>c_old = None, c_body = BFallback new_fallback\<rparr>,
       1 \<mapsto> \<lparr>c_old = Some 0, c_body = BHistory demo_history\<rparr>], d_current = Some 1\<rparr>,
     rl_registry = Map.empty, rl_env = map_option new_tracing mode, rl_dyn = Map.empty\<rparr>"

lemma free_dense_walk:
  "traverse_to_get_io_tensors 4 id has_env free_dense_graph [2] = Inr ([0, 1, 2], True, True)"
  by (cases has_env) (simp only:, code_simp)+

lemma demo_with_history:
  "with_history 4 demo_native demo_env free_dense_graph [2] (demo_relay mode) [0, 1, 2] True True False 1 [1] 0 ''f''"
  using free_dense_walk
  by (simp add: with_history_def demo_native_def demo_relay_def query_ok_def wkey_ok_def demo_env_def demo_decode_def
    plain_history_def fallback_at_def demo_history_def empty_history_def)

lemma demo_hit: "operator_hit demo_native demo_env (demo_relay mode) True False [1] ''f'' = Some (CPair 5 (Some 3))"
  by (simp add: operator_hit_def hits_def plain_history_def demo_relay_def demo_history_def empty_history_def
    candidates_def operator_env_def operator_query_def demo_native_def demo_target_def demo_env_def demo_decode_def
    hash_of_def find_cached_def put_cached_def Let_def)

lemma operator_gets_cached_schedule_witness:
  "\<exists>st'. rl_env st' = None \<and>
     auto_schedule_topi 4 demo_native demo_env free_dense_graph ''f'' [2] (demo_relay None) = Inr (st', Schedule 5)"
proof -
  have env: "rl_env (demo_relay None) = None" by (simp add: demo_relay_def)
  have steps: "nv_apply demo_native False 5 = 5" by (simp add: demo_native_def)
  from operator_gets_cached_schedule [OF demo_with_history env] show ?thesis
    by (simp only: demo_hit option.case cached.case steps)
qed

definition base_relay :: "(nat, nat) relay" where
  "base_relay = \<lparr>rl_ctx = init_dstate, rl_registry = Map.empty, rl_env = None, rl_dyn = Map.empty\<rparr>"

definition demo_name :: string where
  "demo_name = ''tvmgen_default_fused_nn_dense_3''"

definition demo_traced :: "int \<Rightarrow> tracing" where
  "demo_traced n = \<lparr>tr_mode = EXTRACT_COMPLEX_TASK_ONLY, tr_keys = [(demo_name, ''k1'')],
     tr_weights = [(''k1'', n, {demo_name})], tr_inputs = [(''k1'', [''X''])]\<rparr>"

lemma demo_static:
  "rl_env st = Some (new_tracing EXTRACT_COMPLEX_TASK_ONLY) \<Longrightarrow>
   schedule_static demo_native free_dense_graph demo_name [0, 1, 2] True True False ''k1'' 0 answer st =
     Inr (st\<lparr>rl_env := Some (demo_traced 1)\<rparr>, NoSchedule)"
  by (simp add: schedule_static_def new_tracing_def add_workload_key_def count_use_def demo_traced_def
    add_workload_input_names_def prepare_input_map_def free_dense_graph_def demo_native_def Let_def)

lemma demo_topi:
  assumes "d_heap (rl_ctx st) 0 = Some \<lparr>c_old = None, c_body = BFallback fb\<rparr>" "d_current (rl_ctx st) = Some 0"
  shows "\<exists>st' fb'. d_heap (rl_ctx st') 0 = Some \<lparr>c_old = None, c_body = BFallback fb'\<rparr> \<and>
    auto_schedule_topi 4 demo_native demo_env free_dense_graph demo_name [2]
      (st\<lparr>rl_env := Some (new_tracing EXTRACT_COMPLEX_TASK_ONLY)\<rparr>) = Inr (st'\<lparr>rl_env := Some (demo_traced 1)\<rparr>, NoSchedule)"
proof -
  let ?st = "st\<lparr>rl_env := Some (new_tracing EXTRACT_COMPLEX_TASK_ONLY)\<rparr>"
  let ?st1 = "st\<lparr>rl_registry := (rl_registry st)(''k1'' \<mapsto> RTensors VNone)\<rparr>"
  let ?q = "operator_query demo_native False ''k1'' True demo_name"
  obtain fb' s where fq: "fallback_query (str_target (q_target ?q)) (q_wkey ?q) (q_complex ?q) (q_dag ?q) (q_func ?q) fb = (fb', s)"
    by (cases "fallback_query (str_target (q_target ?q)) (q_wkey ?q) (q_complex ?q) (q_dag ?q) (q_func ?q) fb")
  have d: "4 = Suc 3" by simp
  have q: "query 4 ev ?q (Some 0) (rl_ctx st) = Inr (set_body 0 (BFallback fb') (rl_ctx st), AMemory s)" for ev
    unfolding d using assms(1) fq by (simp del: Suc_numeral)
  have n: "nv_simplify demo_native = id" "nv_dag demo_native = (\<lambda>_ _. Inr False)" "nv_workload_key demo_native False = ''k1''"
    "nv_tensors demo_native = (\<lambda>_ _. VNone)" "nv_log_dir demo_native = None"
    by (simp_all add: demo_native_def)
  have "auto_schedule_topi 4 demo_native demo_env free_dense_graph demo_name [2] ?st =
     Inr (?st1\<lparr>rl_ctx := set_body 0 (BFallback fb') (rl_ctx st), rl_env := Some (demo_traced 1)\<rparr>, NoSchedule)"
    unfolding auto_schedule_topi_def n free_dense_walk bindR_simps prod.case register_again Let_def
    using assms(2) by (simp del: One_nat_def add: from_log_dir_def n q demo_static)
  then show ?thesis using assms(1)
    by (intro exI [of _ "?st1\<lparr>rl_ctx := set_body 0 (BFallback fb') (rl_ctx st)\<rparr>"] exI [of _ fb'])
      (simp add: set_body_def)
qed

lemma demo_trace: "\<exists>st. trace_build 4 demo_native demo_env EXTRACT_COMPLEX_TASK_ONLY
    [Lower free_dense_graph demo_name [2], UseCounts [(demo_name, 7)]] base_relay = Inr (demo_traced 7, st)"
proof -
  let ?c = "set_body 0 (BFallback (new_fallback\<lparr>f_verbose := 0\<rparr>)) init_dstate"
  obtain st' fb' where t: "d_heap (rl_ctx st') 0 = Some \<lparr>c_old = None, c_body = BFallback fb'\<rparr>"
    "auto_schedule_topi 4 demo_native demo_env free_dense_graph demo_name [2]
      (base_relay\<lparr>rl_ctx := ?c, rl_env := Some (new_tracing EXTRACT_COMPLEX_TASK_ONLY)\<rparr>) =
      Inr (st'\<lparr>rl_env := Some (demo_traced 1)\<rparr>, NoSchedule)"
    using demo_topi [of "base_relay\<lparr>rl_ctx := ?c\<rparr>"] by (auto simp: set_body_def init_dstate_def)
  have v: "set_verbose 0 0 (rl_ctx base_relay) = Inr (1, ?c)"
    by (simp add: set_verbose_def base_relay_def init_dstate_def new_fallback_def)
  have w: "\<exists>c v. set_verbose 0 1 (rl_ctx st') = Inr (v, c)"
    using t(1) by (simp add: set_verbose_def)
  have u: "te_compiler_update_weights [(demo_name, 7)] (Some (demo_traced 1)) = Some (demo_traced 7)"
    by (simp add: te_compiler_update_weights_def update_weight_def count_use_def demo_traced_def)
  have c0: "d_current (rl_ctx base_relay) = Some 0" by (simp add: base_relay_def init_dstate_def)
  have b: "build_thread 4 demo_native demo_env [Lower free_dense_graph demo_name [2], UseCounts [(demo_name, 7)]]
      (base_relay\<lparr>rl_ctx := ?c, rl_env := Some (new_tracing EXTRACT_COMPLEX_TASK_ONLY)\<rparr>) =
      st'\<lparr>rl_env := Some (demo_traced 7)\<rparr>"
    using t(2) by (simp del: One_nat_def add: u)
  show ?thesis using w unfolding trace_build_def c0 option.case v bindR_simps prod.case Let_def b by auto
qed

text \<open>A set of one name is iterated over as its name; every key loads as a tuple of six dimensions.\<close>

definition demo_order :: "string set \<Rightarrow> string list" where
  "demo_order s = (if s = {demo_name} then [demo_name] else [])"

lemma dynamic_tasks_never_made_witness:
  "\<exists>st'. trace_build 4 demo_native demo_env EXTRACT_COMPLEX_TASK_ONLY
      [Lower free_dense_graph demo_name [2], UseCounts [(demo_name, 7)]] base_relay = Inr (demo_traced 7, st') \<and>
    extract_dyn_tasks 4 demo_native demo_env demo_order (\<lambda>_. Inr (VTuple (replicate 6 (VInt 1)))) (\<lambda>t. Inr (ta_key t))
      (\<lambda>_ _. Inr []) id [Lower free_dense_graph demo_name [2], UseCounts [(demo_name, 7)]] base_relay = Inl TypeError"
proof -
  obtain st' where t: "trace_build 4 demo_native demo_env EXTRACT_COMPLEX_TASK_ONLY
      [Lower free_dense_graph demo_name [2], UseCounts [(demo_name, 7)]] base_relay = Inr (demo_traced 7, st')"
    using demo_trace by blast
  have g: "\<forall>x\<in>set (tr_weights (demo_traced 7)). gatherable demo_order (\<lambda>_. Inr (VTuple (replicate 6 (VInt 1))))
      (\<lambda>t. Inr (ta_key t)) (demo_traced 7) x"
    by (simp add: demo_traced_def gatherable_def demo_order_def)
  have d: "dyn_func (remove_func_name_indices demo_name) \<noteq> None" by code_simp
  have dyn: "\<exists>x\<in>set (tr_weights (demo_traced 7)). traced_dyn demo_order x"
    using d by (simp add: demo_traced_def traced_dyn_def demo_order_def)
  show ?thesis using t dynamic_tasks_never_made [OF t g, of "\<lambda>_ _. Inr []" id] dyn by (intro exI [of _ st'] conjI) simp_all
qed

end
