(* ===== verification/SearchTasks.thy ===== *)
theory SearchTasks
  imports TaskInputs RelayTasks WorkloadRegistry
begin

text \<open>
  Search tasks and measurement inputs: \<open>SearchTask\<close> of
  \<open>tvm/python/tvm/auto_scheduler/search_task.py\<close>, and \<open>MeasureInput\<close> and \<open>recover_measure_input\<close> of
  \<open>measure.py\<close>, which carry a program into another process. Native code is a parameter: compute
  DAGs, targets, hardware parameters and the text form of a measurement input.
\<close>

section \<open>Search tasks\<close>

text \<open>
  Native code: the JSON and calls that \<open>WorkloadRegistry\<close> uses, \<open>ComputeDAG\<close> of some tensors,
  \<open>Target.check_and_update_host_consist\<close>, and the default hardware parameters of a target.
\<close>

record ('g, 't, 'h) task_native =
  tk_save_json :: "pyval \<Rightarrow> string"
  tk_load_json :: "string \<Rightarrow> pyval res"
  tk_save_tensors :: "pyval \<Rightarrow> string"
  tk_load_tensors :: "string \<Rightarrow> pyval res"
  tk_simplify :: "pyval \<Rightarrow> pyval"
  tk_call :: "pyfunc \<Rightarrow> pyval list \<Rightarrow> pyval res"
  tk_compute_dag :: "regval \<Rightarrow> 'g res"
  tk_consist :: "'t \<Rightarrow> 't option \<Rightarrow> ('t \<times> 't option) res"
  tk_kind :: "'t \<Rightarrow> string"
  tk_device :: "'t \<Rightarrow> string option"
  tk_default_hw :: "'t \<Rightarrow> 't option \<Rightarrow> 'h res"

text \<open>
  A task object. The compute DAG is missing in a task that has just been read from its text form; a
  task without dynamic shapes has no workload instances.
\<close>

record ('g, 't, 'h) search_task =
  sk_dag :: "'g option"
  sk_wkey :: string
  sk_target :: 't
  sk_host :: "'t option"
  sk_hw :: 'h
  sk_layout :: layout_rewrite_option
  sk_names :: "string list"
  sk_vars :: "string list option"
  sk_insts :: "int list list"
  sk_weights :: "rat list"

text \<open>The constructor of the native class; dynamic shapes need instances and weights.\<close>

definition native_search_task ::
  "('g, 't, 'h) task_native \<Rightarrow> 'g \<Rightarrow> string \<Rightarrow> 't \<Rightarrow> 't option \<Rightarrow> 'h option \<Rightarrow> layout_rewrite_option \<Rightarrow> string list \<Rightarrow>
     string list option \<Rightarrow> int list list option \<Rightarrow> rat list option \<Rightarrow> ('g, 't, 'h) search_task res" where
  "native_search_task nv dag wkey target target_host hardware_params layout names shape_vars insts weights =
     bindR (case hardware_params of Some h \<Rightarrow> Inr h | None \<Rightarrow> tk_default_hw nv target target_host) (\<lambda>h.
       if shape_vars \<noteq> None \<and> (insts = None \<or> weights = None) then Inl TVMError
       else Inr \<lparr>sk_dag = Some dag, sk_wkey = wkey, sk_target = target, sk_host = target_host, sk_hw = h,
              sk_layout = layout, sk_names = names, sk_vars = shape_vars,
              sk_insts = (case insts of None \<Rightarrow> [] | Some l \<Rightarrow> l),
              sk_weights = (case weights of None \<Rightarrow> [] | Some l \<Rightarrow> l)\<rparr>)"

datatype 'n task_inputs = NoInputs | InputNames "string list" | InputDict "(string \<times> 'n buffer) list" | OtherInputs

text \<open>The arguments of \<open>SearchTask(...)\<close>; the description is not passed on.\<close>

record ('g, 't, 'h, 'n) task_call =
  tc_func :: "name_arg option"
  tc_args :: "pyval list option"
  tc_vars :: "string list option"
  tc_insts :: "int list list option"
  tc_weights :: "rat list option"
  tc_dag :: "'g option"
  tc_wkey :: "string option"
  tc_target :: "'t option"
  tc_host :: "'t option"
  tc_hw :: "'h option"
  tc_layout :: "layout_rewrite_option option"
  tc_inputs :: "'n task_inputs"
  tc_overwrite :: bool
  tc_save :: bool

definition compute_dag :: "('g, 't, 'h) task_native \<Rightarrow> registry \<Rightarrow> string \<Rightarrow> 'g res" where
  "compute_dag nv reg wkey =
     bindR (workload_key_to_tensors (tk_load_json nv) (tk_call nv) reg wkey) (tk_compute_dag nv)"

definition resolve_key :: "('g, 't, 'h) task_native \<Rightarrow> registry \<Rightarrow> ('g, 't, 'h, 'n) task_call \<Rightarrow> string res" where
  "resolve_key nv reg c = (case (tc_func c, tc_wkey c) of
       (Some func, _) \<Rightarrow> make_workload_key (tk_save_json nv) (tk_simplify nv) func (tc_args c) reg
     | (None, Some wkey) \<Rightarrow> Inr wkey
     | (None, None) \<Rightarrow> Inl AssertionError)"

definition register_inputs ::
  "('n, 'f) array_files \<Rightarrow> string \<Rightarrow> ('g, 't, 'h, 'n) task_call \<Rightarrow> (('n, 'f) input_env, string list) sx" where
  "register_inputs af wkey c = (case tc_inputs c of
       NoInputs \<Rightarrow> retS []
     | InputNames names \<Rightarrow> retS names
     | InputDict inputs \<Rightarrow> register_task_inputs af wkey (tc_overwrite c) (tc_save c) inputs
     | OtherInputs \<Rightarrow> raiseS ValueError)"

definition init_search_task ::
  "('g, 't, 'h) task_native \<Rightarrow> ('n, 'f) array_files \<Rightarrow> registry \<Rightarrow> ('g, 't, 'h, 'n) task_call \<Rightarrow>
     (('n, 'f) input_env, ('g, 't, 'h) search_task) sx" where
  "init_search_task nv af reg c =
     bindS (liftS (resolve_key nv reg c)) (\<lambda>wkey.
     bindS (liftS (case tc_dag c of Some dag \<Rightarrow> Inr dag | None \<Rightarrow> compute_dag nv reg wkey)) (\<lambda>dag.
     bindS (liftS (case tc_target c of None \<Rightarrow> Inl AssertionError | Some t \<Rightarrow> tk_consist nv t (tc_host c))) (\<lambda>(target, host).
     bindS (register_inputs af wkey c) (\<lambda>names.
       liftS (native_search_task nv dag wkey target host (tc_hw c)
         (case tc_layout c of Some l \<Rightarrow> l | None \<Rightarrow> get_target_default (tk_kind nv target) (tk_device nv target) False)
         names (tc_vars c) (tc_insts c) (tc_weights c))))))"

section \<open>Pickling of tasks\<close>

text \<open>
  \<open>__getstate__\<close> keeps these fields; \<open>__setstate__\<close> calls the native constructor, which takes ten
  arguments, with the eight values of these fields.
\<close>

record ('g, 't, 'h) task_state =
  ts_dag :: "'g option"
  ts_wkey :: string
  ts_target :: 't
  ts_host :: "'t option"
  ts_hw :: 'h
  ts_layout :: layout_rewrite_option
  ts_names :: "string list"

definition task_getstate ::
  "('g, 't, 'h) task_native \<Rightarrow> ('g, 't, 'h) search_task \<Rightarrow> ('g, 't, 'h) task_state res" where
  "task_getstate nv task = bindR (tk_consist nv (sk_target task) (sk_host task)) (\<lambda>(target, host).
     Inr \<lparr>ts_dag = sk_dag task, ts_wkey = sk_wkey task, ts_target = target, ts_host = host, ts_hw = sk_hw task,
       ts_layout = sk_layout task, ts_names = sk_names task\<rparr>)"

definition native_task_params :: "string list" where
  "native_task_params = [''compute_dag'', ''workload_key'', ''target'', ''target_host'', ''hardware_params'',
     ''layout_rewrite_option'', ''task_input_names'', ''shape_vars'', ''wkl_insts'', ''wkl_inst_weights'']"

definition setstate_args :: "string list" where
  "setstate_args = [''compute_dag'', ''workload_key'', ''target'', ''host'', ''hardware_params'',
     ''layout_rewrite_option'', ''task_input_names'', ''desc'']"

definition call_native_task :: "string list \<Rightarrow> 'a res \<Rightarrow> 'a res" where
  "call_native_task args r = (if length args = length native_task_params then r else Inl TVMError)"

definition task_setstate ::
  "('g, 't, 'h) task_native \<Rightarrow> ('g option \<Rightarrow> pyval) \<Rightarrow> ('g, 't, 'h) task_state \<Rightarrow> (registry, ('g, 't, 'h) search_task) sx" where
  "task_setstate nv tensors_of st =
     bindS (liftS (case tk_load_json nv (ts_wkey st) of Inl e \<Rightarrow> Inl RuntimeError | Inr w \<Rightarrow> Inr w)) (\<lambda>workload.
     bindS (liftS (bindR (py_items workload) (\<lambda>items. py_get items 0))) (\<lambda>name.
     thenS (\<lambda>reg. if (case name of VStr s \<Rightarrow> s \<in> dom reg | _ \<Rightarrow> False) then (Inr (), reg)
                  else (case register_workload_tensors (ts_wkey st) (tensors_of (ts_dag st)) True reg of
                     Inl e \<Rightarrow> (Inl e, reg) | Inr (reg', _) \<Rightarrow> (Inr (), reg')))
       (bindS (liftS (tk_consist nv (ts_target st) (ts_host st))) (\<lambda>(target, host).
          liftS (call_native_task setstate_args
            (case ts_dag st of None \<Rightarrow> Inl TVMError | Some dag \<Rightarrow>
               native_search_task nv dag (ts_wkey st) target host (Some (ts_hw st)) (ts_layout st) (ts_names st)
                 None None None))))))"

section \<open>Measurement inputs\<close>

record ('g, 't, 'h, 's) meas_input =
  mq_task :: "('g, 't, 'h) search_task"
  mq_state :: 's
  mq_inst :: "int list option"  \<comment> \<open>\<open>wkl_inst\<close>, which only native code sets\<close>

text \<open>\<open>MeasureInput(task, state)\<close>\<close>

definition measure_input :: "('g, 't, 'h) search_task \<Rightarrow> 's \<Rightarrow> ('g, 't, 'h, 's) meas_input" where
  "measure_input task state = \<lparr>mq_task = task, mq_state = state, mq_inst = None\<rparr>"

text \<open>The new task gets its DAG from the workload key, and no registration of inputs takes place.\<close>

definition recover_call :: "('g, 't, 'h) search_task \<Rightarrow> 't \<Rightarrow> ('g, 't, 'h, 'n) task_call" where
  "recover_call task target = \<lparr>tc_func = None, tc_args = None, tc_vars = sk_vars task, tc_insts = Some (sk_insts task),
     tc_weights = Some (sk_weights task), tc_dag = None, tc_wkey = Some (sk_wkey task), tc_target = Some target,
     tc_host = None, tc_hw = Some (sk_hw task), tc_layout = Some (sk_layout task), tc_inputs = InputNames (sk_names task),
     tc_overwrite = False, tc_save = False\<rparr>"

definition recover_measure_input ::
  "('g, 't, 'h) task_native \<Rightarrow> ('n, 'f) array_files \<Rightarrow> ('g \<Rightarrow> 's \<Rightarrow> 's res) \<Rightarrow> registry \<Rightarrow> bool \<Rightarrow> ('g, 't, 'h, 's) meas_input \<Rightarrow>
     (('n, 'f) input_env, ('g, 't, 'h, 's) meas_input) sx" where
  "recover_measure_input nv af infer_bound reg rebuild_state inp =
     (let task = mq_task inp in
      bindS (liftS (tk_consist nv (sk_target task) (sk_host task))) (\<lambda>(target, host).
      bindS (init_search_task nv af reg (recover_call task target)) (\<lambda>new_task.
        if rebuild_state
        then bindS (liftS (case sk_dag new_task of None \<Rightarrow> Inl AttributeError | Some dag \<Rightarrow> infer_bound dag (mq_state inp))) (\<lambda>s. retS (measure_input new_task s))
        else retS (measure_input new_task (mq_state inp)))))"

text \<open>
  The serialized form: native text for the input, and the registry entry of its workload.
\<close>

definition serialize_input ::
  "('g, 't, 'h) task_native \<Rightarrow> (('g, 't, 'h, 's) meas_input \<Rightarrow> string) \<Rightarrow> registry \<Rightarrow> ('g, 't, 'h, 's) meas_input \<Rightarrow>
     (string \<times> pyval \<times> sval) res" where
  "serialize_input nv native_write reg inp =
     bindR (serialize_workload_registry_entry (tk_save_tensors nv) (tk_load_json nv) reg (sk_wkey (mq_task inp)))
       (\<lambda>entry. Inr (native_write inp, entry))"

text \<open>A name that is looked up in the registry is a string, or the entry could not have been read.\<close>

definition deserialize_input ::
  "('g, 't, 'h) task_native \<Rightarrow> ('n, 'f) array_files \<Rightarrow> (string \<Rightarrow> ('g, 't, 'h, 's) meas_input res) \<Rightarrow>
     string \<times> pyval \<times> sval \<Rightarrow> registry \<Rightarrow> (('n, 'f) input_env, ('g, 't, 'h, 's) meas_input \<times> registry) sx" where
  "deserialize_input nv af native_read data reg =
     bindS (liftS (native_read (fst data))) (\<lambda>inp.
     bindS (liftS (case fst (snd data) of
         VStr name \<Rightarrow> deserialize_workload_registry_entry (tk_load_tensors nv) (name, snd (snd data)) reg
       | _ \<Rightarrow> Inl KeyError)) (\<lambda>reg.
     bindS (recover_measure_input nv af (\<lambda>_. Inr) reg False inp) (\<lambda>inp. retS (inp, reg))))"

section \<open>Creating a task\<close>

lemma liftS_bind: "bindS (liftS r) f s = (case r of Inl e \<Rightarrow> (Inl e, s) | Inr x \<Rightarrow> f x s)"
  by (simp add: bindS_def split: sum.split)

lemma native_task_fields:
  assumes "native_search_task nv dag wkey target host hw layout names shape_vars insts weights = Inr task"
  shows "sk_dag task = Some dag" "sk_wkey task = wkey" "sk_names task = names"
    "sk_target task = target" "sk_host task = host" "sk_layout task = layout" "sk_vars task = shape_vars"
  using assms by (auto simp: native_search_task_def bindR_Inr_iff split: if_splits)

text \<open>What a task that could be created has.\<close>

lemma init_task:
  assumes "init_search_task nv af reg c s = (Inr task, s1)"
  shows "\<exists>wkey names. resolve_key nv reg c = Inr wkey \<and> sk_wkey task = wkey \<and> sk_names task = names \<and>
    register_inputs af wkey c s = (Inr names, s1)"
proof -
  from assms obtain wkey where wkey: "resolve_key nv reg c = Inr wkey"
    unfolding init_search_task_def liftS_bind by (cases "resolve_key nv reg c") simp_all
  from assms obtain dag where "(case tc_dag c of Some dag \<Rightarrow> Inr dag | None \<Rightarrow> compute_dag nv reg wkey) = Inr dag"
    unfolding init_search_task_def liftS_bind wkey
    by (cases "case tc_dag c of Some dag \<Rightarrow> Inr dag | None \<Rightarrow> compute_dag nv reg wkey") simp_all
  note dag = this
  from assms obtain target host where
    th: "(case tc_target c of None \<Rightarrow> Inl AssertionError | Some t \<Rightarrow> tk_consist nv t (tc_host c)) = Inr (target, host)"
    unfolding init_search_task_def liftS_bind wkey sum.case dag
    by (cases "case tc_target c of None \<Rightarrow> Inl AssertionError | Some t \<Rightarrow> tk_consist nv t (tc_host c)") auto
  from assms obtain names u where names: "register_inputs af wkey c s = (Inr names, u)"
    and task: "liftS (native_search_task nv dag wkey target host (tc_hw c)
         (case tc_layout c of Some l \<Rightarrow> l | None \<Rightarrow> get_target_default (tk_kind nv target) (tk_device nv target) False)
         names (tc_vars c) (tc_insts c) (tc_weights c)) u = (Inr task, s1)"
    unfolding init_search_task_def liftS_bind wkey sum.case dag th prod.case by (auto simp only: bindS_Inr)
  from task have "native_search_task nv dag wkey target host (tc_hw c)
         (case tc_layout c of Some l \<Rightarrow> l | None \<Rightarrow> get_target_default (tk_kind nv target) (tk_device nv target) False)
         names (tc_vars c) (tc_insts c) (tc_weights c) = Inr task" and "u = s1" by (simp_all only: basic_run prod.inject)
  with wkey names have "resolve_key nv reg c = Inr wkey" "register_inputs af wkey c s = (Inr names, s1)"
    "sk_wkey task = wkey" "sk_names task = names" by (simp_all only: native_task_fields(2,3))
  then show ?thesis by blast
qed

text \<open>
  C19. The buffers that a search task is created with reach the measurement of its programs: when
  \<open>SearchTask(..., task_inputs=...)\<close> with a dictionary returns, \<open>prepare_runner_args\<close> for that task
  gives each argument of a built program that the input map names the buffer of that name, in its
  place, and leaves the others to be filled at random. The named arguments are names of the
  dictionary, and there are as many of them.
\<close>

theorem task_buffers_reach_runner:
  assumes "init_search_task nv af reg c s = (Inr task, s1)" "tc_inputs c = InputDict inputs"
    and "dict_ok inputs" "inputs \<noteq> []"
    and "\<forall>arg\<in>set args. \<forall>n. map_of (prepare_input_map g checked args) arg = Some n \<longrightarrow> n \<in> fst ` set inputs"
    and "length (filter (\<lambda>arg. map_of (prepare_input_map g checked args) arg \<noteq> None) args) = length inputs"
  shows "fst (prepare_runner_args af g checked (sk_wkey task) (sk_names task) args s1) = Inr (map (\<lambda>arg.
    case map_of (prepare_input_map g checked args) arg of None \<Rightarrow> None | Some name \<Rightarrow> map_of inputs name) args)"
proof -
  obtain wkey names where "sk_wkey task = wkey" "sk_names task = names"
    and "register_inputs af wkey c s = (Inr names, s1)"
    using init_task [OF assms(1)] by blast
  then show ?thesis
    using registered_inputs_reach [OF _ assms(3,4) refl assms(5,6)] assms(2)
    by (simp add: register_inputs_def)
qed

text \<open>A task that was pickled cannot be restored, dynamic or not.\<close>

lemma unpickling_refused: "\<exists>e. fst (task_setstate nv tensors_of st reg) = Inl e"
  unfolding task_setstate_def
  by (cases "tk_load_json nv (ts_wkey st)")
    (auto simp: liftS_bind thenS_def bindS_def call_native_task_def setstate_args_def native_task_params_def
      split: sum.split prod.split)

section \<open>Sending a measurement input\<close>

lemma reg_lookup_Inr: "reg_lookup reg v = Inr r \<Longrightarrow> \<exists>name. v = VStr name \<and> reg name = Some r"
  by (cases v) (auto split: if_splits option.splits)

text \<open>The workload key stands for the same tensors in a process that has got the registry entry.\<close>

lemma key_survives_transfer:
  assumes ser: "serialize_workload_registry_entry SaveJSON load_json reg key = Inr (sname, sv)"
    and le: "reg1 \<subseteq>\<^sub>m reg"
    and codec: "\<And>name t. reg name = Some (RTensors t) \<Longrightarrow> LoadJSON (SaveJSON t) = Inr t"
    and key: "workload_key_to_tensors load_json call reg key = Inr v"
  shows "\<exists>name reg2. sname = VStr name \<and> deserialize_workload_registry_entry LoadJSON (name, sv) reg1 = Inr reg2 \<and>
    workload_key_to_tensors load_json call reg2 key = Inr v"
proof -
  obtain r where "reg_lookup reg sname = Inr r"
    using ser by (auto simp: serialize_workload_registry_entry_def bindR_Inr_iff split: if_splits)
  then obtain name where name: "sname = VStr name" "reg name = Some r" using reg_lookup_Inr by blast
  obtain v' reg2 where v': "reg name = Some v'"
      "deserialize_workload_registry_entry LoadJSON (name, sv) reg1 = Inr reg2"
      "reg2 name = (if name \<in> dom reg1 then reg1 name else Some v')" "\<And>n. n \<noteq> name \<Longrightarrow> reg2 n = reg1 n"
    using registry_entry_roundtrip [OF ser [unfolded name(1)], of LoadJSON reg1] codec by blast
  have at: "reg2 name = reg name" using v'(1,3) le by (auto simp: map_le_def)
  have "workload_key_to_tensors load_json call reg2 key = Inr v"
  proof (cases "key \<in> dom reg")
    case True
    then have "name = key" using ser name(1)
      by (auto simp: serialize_workload_registry_entry_def bindR_Inr_iff)
    then show ?thesis using key True at by (auto simp: workload_key_to_tensors_def)
  next
    case False
    then have none: "reg key = None" "reg2 key = None"
      using le v'(1,4) by (auto simp: map_le_def domIff) (metis domI domIff option.distinct(1))
    from ser none obtain workload items where w: "load_json key = Inr workload" "py_items workload = Inr items"
      "py_get items 0 = Inr (VStr name)"
      by (auto simp: serialize_workload_registry_entry_def bindR_Inr_iff name(1) domIff)
    then show ?thesis using key at none by (simp add: workload_key_to_tensors_def)
  qed
  with name(1) v'(2) show ?thesis by blast
qed

lemma recover_task:
  assumes "tk_consist nv (sk_target task) (sk_host task) = Inr (sk_target task, sk_host task)"
    and "tk_consist nv (sk_target task) None = Inr (sk_target task, sk_host task)"
    and "compute_dag nv reg (sk_wkey task) = Inr dag"
  shows "recover_measure_input nv af infer_bound reg False \<lparr>mq_task = task\<lparr>sk_dag := d\<rparr>, mq_state = s, mq_inst = inst\<rparr> env =
    (Inr (measure_input (task\<lparr>sk_dag := Some dag\<rparr>) s), env)"
  using assms
  by (simp add: recover_measure_input_def init_search_task_def recover_call_def resolve_key_def register_inputs_def
      native_search_task_def liftS_bind measure_input_def bindS_def)

text \<open>
  A measurement input that is sent to a worker process arrives with its task, whose compute DAG
  is rebuilt from the workload key, and with its steps; but it arrives without its workload instance:
  \<open>recover_measure_input\<close> makes a new input out of the task and the state only. The worker, a fresh
  process, knows a part of the registry, and gets the entry of the workload with the input.
\<close>

lemma input_arrives:
  fixes nv :: "('g, 't, 'h) task_native" and inp :: "('g, 't, 'h, 's) meas_input"
  assumes "serialize_input nv native_write reg inp = Inr data" "reg1 \<subseteq>\<^sub>m reg"
    and "native_read (native_write inp) =
      Inr \<lparr>mq_task = (mq_task inp)\<lparr>sk_dag := None\<rparr>, mq_state = steps_only (mq_state inp), mq_inst = mq_inst inp\<rparr>"
    and "\<And>name t. reg name = Some (RTensors t) \<Longrightarrow> tk_load_tensors nv (tk_save_tensors nv t) = Inr t"
    and "tk_consist nv (sk_target (mq_task inp)) (sk_host (mq_task inp)) = Inr (sk_target (mq_task inp), sk_host (mq_task inp))"
    and "tk_consist nv (sk_target (mq_task inp)) None = Inr (sk_target (mq_task inp), sk_host (mq_task inp))"
    and "compute_dag nv reg (sk_wkey (mq_task inp)) = Inr dag" "sk_dag (mq_task inp) = Some dag"
  shows "\<exists>reg2. deserialize_input nv af native_read data reg1 env =
    (Inr (\<lparr>mq_task = mq_task inp, mq_state = steps_only (mq_state inp), mq_inst = None\<rparr>, reg2), env)"
proof -
  let ?key = "sk_wkey (mq_task inp)"
  from assms(1) obtain sname sv where data: "data = (native_write inp, sname, sv)"
    and ser: "serialize_workload_registry_entry (tk_save_tensors nv) (tk_load_json nv) reg ?key = Inr (sname, sv)"
    by (auto simp: serialize_input_def bindR_Inr_iff)
  from assms(7) obtain v where v: "workload_key_to_tensors (tk_load_json nv) (tk_call nv) reg ?key = Inr v"
    "tk_compute_dag nv v = Inr dag" by (auto simp: compute_dag_def bindR_Inr_iff)
  have "\<exists>name reg2. sname = VStr name \<and>
      deserialize_workload_registry_entry (tk_load_tensors nv) (name, sv) reg1 = Inr reg2 \<and>
      workload_key_to_tensors (tk_load_json nv) (tk_call nv) reg2 ?key = Inr v"
    by (rule key_survives_transfer [OF ser assms(2) _ v(1)]) (rule assms(4))
  then obtain name reg2 where reg2: "sname = VStr name"
      "deserialize_workload_registry_entry (tk_load_tensors nv) (name, sv) reg1 = Inr reg2"
      "workload_key_to_tensors (tk_load_json nv) (tk_call nv) reg2 ?key = Inr v"
    by blast
  have dag: "compute_dag nv reg2 ?key = Inr dag" by (simp add: compute_dag_def reg2(3) v(2))
  have same: "(mq_task inp)\<lparr>sk_dag := Some dag\<rparr> = mq_task inp" using assms(8) by simp
  show ?thesis
    using recover_task [OF assms(5,6) dag, of af "\<lambda>_. Inr" None "steps_only (mq_state inp)" "mq_inst inp" env]
    by (simp add: deserialize_input_def data liftS_bind assms(3) reg2 bindS_def measure_input_def same)
qed

section \<open>Instances\<close>

definition plain_native :: "(nat, string, nat) task_native" where
  "plain_native = \<lparr>tk_save_json = (\<lambda>_. ''j''), tk_load_json = (\<lambda>_. Inl TVMError), tk_save_tensors = (\<lambda>_. ''t''),
     tk_load_tensors = (\<lambda>_. Inr (VList [])), tk_simplify = id, tk_call = (\<lambda>_ _. Inl TVMError),
     tk_compute_dag = (\<lambda>_. Inr 7), tk_consist = (\<lambda>t _. Inr (t, None)), tk_kind = id, tk_device = (\<lambda>_. None),
     tk_default_hw = (\<lambda>_ _. Inr 0)\<rparr>"

definition dyn_search_task :: "(nat, string, nat) search_task" where
  "dyn_search_task = \<lparr>sk_dag = Some 7, sk_wkey = ''k'', sk_target = ''cuda'', sk_host = None, sk_hw = 0,
     sk_layout = NO_REWRITE, sk_names = [], sk_vars = Some [''T''], sk_insts = [[5], [24]], sk_weights = [1, 1]\<rparr>"

definition dyn_input :: "(nat, string, nat, nat) meas_input" where
  "dyn_input = \<lparr>mq_task = dyn_search_task, mq_state = 3, mq_inst = Some [24]\<rparr>"

definition tensors_reg :: registry where
  "tensors_reg = [''k'' \<mapsto> RTensors (VList [])]"

definition sparse_call :: "(nat, string, nat, int) task_call" where
  "sparse_call = \<lparr>tc_func = None, tc_args = None, tc_vars = None, tc_insts = None, tc_weights = None, tc_dag = Some 7,
     tc_wkey = Some ''k'', tc_target = Some ''cuda'', tc_host = None, tc_hw = None, tc_layout = None,
     tc_inputs = InputDict [(''w'', demo_buffer)], tc_overwrite = False, tc_save = False\<rparr>"

lemma task_buffers_reach_runner_witness:
  "let s = \<lparr>ie_table = [], ie_files = Map.empty\<rparr> :: (int, int list) input_env;
       r = init_search_task plain_native demo_files tensors_reg sparse_call s; task = projr (fst r)
   in fst (prepare_runner_args demo_files sparse_graph (\<lambda>_. []) (sk_wkey task) (sk_names task) [0, 1, 2] (snd r)) =
     Inr [None, Some demo_buffer, None]"
proof -
  let ?s = "\<lparr>ie_table = [], ie_files = Map.empty\<rparr> :: (int, int list) input_env"
  let ?r = "init_search_task plain_native demo_files tensors_reg sparse_call ?s"
  have "register_task_inputs demo_files ''k'' False False [(''w'', demo_buffer)] ?s =
      (Inr [''w''], snd (register_task_inputs demo_files ''k'' False False [(''w'', demo_buffer)] ?s))"
    by (rule prod_eqI) (simp_all, code_simp)
  then obtain u where u: "register_task_inputs demo_files ''k'' False False [(''w'', demo_buffer)] ?s = (Inr [''w''], u)"
    by blast
  have "isl (fst ?r) = False"
    by (simp add: init_search_task_def sparse_call_def resolve_key_def register_inputs_def native_search_task_def
        plain_native_def liftS_bind bindS_def u del: register_task_inputs.simps)
  then have run: "?r = (Inr (projr (fst ?r)), snd ?r)" by (cases ?r; cases "fst ?r") auto
  have m: "prepare_input_map sparse_graph (\<lambda>_. []) [0, 1, 2] = [(1, ''w'')]" by code_simp
  have "fst (prepare_runner_args demo_files sparse_graph (\<lambda>_. []) (sk_wkey (projr (fst ?r))) (sk_names (projr (fst ?r)))
      [0, 1, 2] (snd ?r)) = Inr (map (\<lambda>arg. case map_of (prepare_input_map sparse_graph (\<lambda>_. []) [0, 1, 2]) arg of
        None \<Rightarrow> None | Some name \<Rightarrow> map_of [(''w'', demo_buffer)] name) [0, 1, 2])"
    by (rule task_buffers_reach_runner [OF run]; (unfold m)?) (simp_all add: sparse_call_def)
  then show ?thesis unfolding m Let_def by simp
qed

end
