(* ===== verification/Measuring.thy ===== *)
theory Measuring
  imports SearchTasks
begin

text \<open>
  Builders and runners: the functions of \<open>tvm/python/tvm/auto_scheduler/measure.py\<close> that native code
  calls to build and run a batch of programs, with the worker processes of
  \<open>tvm/python/tvm/contrib/popen_pool.py\<close> and \<open>call_func_with_timeout\<close> of \<open>utils.py\<close>. What becomes of a
  worker is a parameter per call, and so is the time it takes; compilation, devices and the
  scheduling of a state are native. Messages and time stamps are left out.
\<close>

section \<open>Worker processes\<close>

text \<open>A call in a worker finishes, runs into its time limit, or takes the process down.\<close>

datatype fate = Finishes | Hangs | Crashes

datatype recv_error = TimeoutError | ChildProcessError | OtherError exc

definition recv :: "fate \<Rightarrow> 'a res \<Rightarrow> recv_error + 'a" where
  "recv fate r = (case fate of
       Hangs \<Rightarrow> Inl TimeoutError
     | Crashes \<Rightarrow> Inl ChildProcessError
     | Finishes \<Rightarrow> (case r of Inl e \<Rightarrow> Inl (OtherError e) | Inr v \<Rightarrow> Inr v))"

datatype 'a map_result = COMPLETE 'a | EXCEPTION recv_error | TIMEOUT

definition run_with_error_catching :: "fate \<Rightarrow> 'a res \<Rightarrow> 'a map_result" where
  "run_with_error_catching fate r = (case recv fate r of
       Inr v \<Rightarrow> COMPLETE v
     | Inl TimeoutError \<Rightarrow> TIMEOUT
     | Inl e \<Rightarrow> EXCEPTION e)"

text \<open>
  \<open>call_func_with_timeout\<close> gives a value, or an exception as a value: whatever was raised, it is of
  the class \<open>Exception\<close> itself.
\<close>

datatype 'a called = Returned 'a | ATimeoutError | AnException

definition call_func_with_timeout :: "fate \<Rightarrow> 'a res \<Rightarrow> 'a called" where
  "call_func_with_timeout fate r = (case recv fate r of Inr v \<Rightarrow> Returned v | Inl e \<Rightarrow> AnException)"

section \<open>Results\<close>

datatype measure_error_no =
    NO_ERROR | INSTANTIATION_ERROR | COMPILE_HOST | COMPILE_DEVICE | RUNTIME_DEVICE | WRONG_ANSWER
  | BUILD_TIMEOUT | RUN_TIMEOUT | UNKNOWN_ERROR

definition MAX_FLOAT :: rat where
  "MAX_FLOAT = 10 ^ 10"

text \<open>The file name of a build that has none is empty.\<close>

record build_result =
  br_file :: string
  br_args :: "nat list"
  br_error :: measure_error_no
  br_cost :: rat

record run_result =
  rr_costs :: "rat list"
  rr_error :: measure_error_no
  rr_all_cost :: rat

section \<open>Building\<close>

text \<open>
  Native code and the compiler: the schedule of a state on a given workload instance, on one that
  the native side picks, or of a static task; compiling, and writing the library to a file.
\<close>

record ('g, 't, 'h, 's, 'c, 'f) toolchain =
  bt_on_inst :: "'g option \<Rightarrow> 's \<Rightarrow> string list \<Rightarrow> int list \<Rightarrow> ('c \<times> nat list) res"
  bt_cherry_pick :: "'g option \<Rightarrow> 's \<Rightarrow> ('g, 't, 'h) search_task \<Rightarrow> ('c \<times> nat list) res"
  bt_apply :: "'g option \<Rightarrow> 's \<Rightarrow> layout_rewrite_option \<Rightarrow> ('c \<times> nat list) res"
  bt_compile :: "'c \<Rightarrow> nat list \<Rightarrow> 't \<Rightarrow> 'f res"
  bt_export :: "'f \<Rightarrow> string \<Rightarrow> unit res"
  bt_filename :: string

definition instantiate ::
  "('g, 't, 'h, 's, 'c, 'f) toolchain \<Rightarrow> ('g, 't, 'h, 's) meas_input \<Rightarrow> ('c \<times> nat list) res" where
  "instantiate tc inp = (let task = mq_task inp in case sk_vars task of
       Some shape_vars \<Rightarrow> (case mq_inst inp of
           Some wkl_inst \<Rightarrow> bt_on_inst tc (sk_dag task) (mq_state inp) shape_vars wkl_inst
         | None \<Rightarrow> bt_cherry_pick tc (sk_dag task) (mq_state inp) task)
     | None \<Rightarrow> bt_apply tc (sk_dag task) (mq_state inp) (sk_layout task))"

definition build_instance ::
  "('g, 't, 'h, 's, 'c, 'f) toolchain \<Rightarrow> string \<Rightarrow> 't \<Rightarrow> ('c \<times> nat list) res \<Rightarrow> string \<times> nat list \<times> measure_error_no" where
  "build_instance tc build_func target r = (case r of
       Inl e \<Rightarrow> ([], [], INSTANTIATION_ERROR)
     | Inr (sch, args) \<Rightarrow> (bt_filename tc, args,
         (case bindR (bt_compile tc sch args target) (\<lambda>f. bt_export tc f build_func) of
            Inl e \<Rightarrow> COMPILE_HOST | Inr _ \<Rightarrow> NO_ERROR)))"

text \<open>\<open>receive\<close> is what the worker makes of the serialized input.\<close>

definition build_received ::
  "('g, 't, 'h) task_native \<Rightarrow> ('d \<Rightarrow> ('g, 't, 'h, 's) meas_input res) \<Rightarrow> ('g, 't, 'h, 's, 'c, 'f) toolchain \<Rightarrow>
     string \<Rightarrow> 'd \<Rightarrow> (string \<times> nat list \<times> measure_error_no) res" where
  "build_received nv receive tc build_func data =
     bindR (receive data) (\<lambda>inp.
     bindR (tk_consist nv (sk_target (mq_task inp)) (sk_host (mq_task inp))) (\<lambda>(target, host).
       let task = (mq_task inp)\<lparr>sk_target := target, sk_host := host\<rparr> in
       Inr (build_instance tc build_func target (instantiate tc (inp\<lparr>mq_task := task\<rparr>)))))"

text \<open>The name of the build function in a new process.\<close>

definition fresh_build_func :: string where
  "fresh_build_func = ''default''"

definition local_build_worker ::
  "('g, 't, 'h) task_native \<Rightarrow> ('d \<Rightarrow> ('g, 't, 'h, 's) meas_input res) \<Rightarrow> ('g, 't, 'h, 's, 'c, 'f) toolchain \<Rightarrow>
     string \<Rightarrow> rat \<Rightarrow> rat \<Rightarrow> 'd \<Rightarrow> build_result res" where
  "local_build_worker nv receive tc build_func timeout spent data =
     (if build_func \<noteq> fresh_build_func then Inl AssertionError
      else Inr (case build_received nv receive tc build_func data of
          Inl e \<Rightarrow> \<lparr>br_file = [], br_args = [], br_error = COMPILE_HOST, br_cost = timeout\<rparr>
        | Inr (file, args, err) \<Rightarrow> \<lparr>br_file = file, br_args = args, br_error = err, br_cost = spent\<rparr>))"

text \<open>The answer of the pool, taken apart; only a time-out is expected besides a result.\<close>

definition build_answer :: "rat \<Rightarrow> build_result map_result \<Rightarrow> build_result res" where
  "build_answer timeout res = (case res of
       COMPLETE r \<Rightarrow> Inr r
     | EXCEPTION _ \<Rightarrow> Inl AssertionError
     | TIMEOUT \<Rightarrow> Inr \<lparr>br_file = [], br_args = [], br_error = BUILD_TIMEOUT, br_cost = timeout\<rparr>)"

text \<open>Every input comes with what becomes of its worker and the time it takes.\<close>

definition local_builder_build ::
  "('g, 't, 'h) task_native \<Rightarrow> (('g, 't, 'h, 's) meas_input \<Rightarrow> 'd res) \<Rightarrow> ('d \<Rightarrow> ('g, 't, 'h, 's) meas_input res) \<Rightarrow>
     ('g, 't, 'h, 's, 'c, 'f) toolchain \<Rightarrow> rat \<Rightarrow> string \<Rightarrow> (('g, 't, 'h, 's) meas_input \<times> fate \<times> rat) list \<Rightarrow>
     build_result list res" where
  "local_builder_build nv send receive tc timeout build_func inputs =
     bindR (mapR (\<lambda>(inp, fate, spent). bindR (send inp) (\<lambda>data. Inr (data, fate, spent))) inputs) (\<lambda>calls.
       mapR (build_answer timeout)
         (map (\<lambda>(data, fate, spent).
            run_with_error_catching fate (local_build_worker nv receive tc build_func timeout spent data)) calls))"

section \<open>Running\<close>

text \<open>
  A device, with the module of a file and its time evaluator, the check for the random fill, an empty
  array for an argument filled at random, the timed run, and the removal of the build directory.
\<close>

record ('f, 'n) device =
  dv_load :: "string \<Rightarrow> 'f res"
  dv_has_fill :: bool
  dv_fill :: "nat \<Rightarrow> unit res"
  dv_time :: "'f \<Rightarrow> 'n buffer option list \<Rightarrow> rat list res"
  dv_remove :: "string \<Rightarrow> unit res"

text \<open>Every argument that is \<open>None\<close> is filled; then the program is timed.\<close>

definition run_loaded :: "('f, 'n) device \<Rightarrow> 'f \<Rightarrow> nat list \<Rightarrow> 'n buffer option list \<Rightarrow> rat list res" where
  "run_loaded dv func res_args args =
     bindR (guardR (dv_has_fill dv \<and> length args = length res_args) AssertionError) (\<lambda>_.
     bindR (mapR (\<lambda>(arg, b). if b = None then dv_fill dv arg else Inr ()) (zip res_args args)) (\<lambda>_.
       dv_time dv func args))"

definition timed_costs :: "('f, 'n) device \<Rightarrow> build_result \<Rightarrow> 'n buffer option list \<Rightarrow> rat list \<times> measure_error_no" where
  "timed_costs dv build_res args = (case dv_load dv (br_file build_res) of
       Inl e \<Rightarrow> ([MAX_FLOAT], COMPILE_DEVICE)
     | Inr func \<Rightarrow> (case run_loaded dv func (br_args build_res) args of
           Inl e \<Rightarrow> ([MAX_FLOAT], RUNTIME_DEVICE)
         | Inr costs \<Rightarrow> (costs, NO_ERROR)))"

definition timed_eval_func ::
  "('d \<Rightarrow> ('g, 't, 'h, 's) meas_input res) \<Rightarrow> ('f, 'n) device \<Rightarrow> rat \<Rightarrow> 'd \<Rightarrow> build_result \<Rightarrow> 'n buffer option list \<Rightarrow>
     run_result res" where
  "timed_eval_func receive dv spent data build_res args =
     bindR (receive data) (\<lambda>inp.
       let (costs, err) = timed_costs dv build_res args in
       bindR (dv_remove dv (br_file build_res)) (\<lambda>_.
         Inr \<lparr>rr_costs = costs, rr_error = err, rr_all_cost = spent + br_cost build_res\<rparr>))"

definition failed_build :: "build_result \<Rightarrow> run_result" where
  "failed_build build_res =
     \<lparr>rr_costs = [MAX_FLOAT], rr_error = br_error build_res, rr_all_cost = br_cost build_res\<rparr>"

definition failed_run :: "measure_error_no \<Rightarrow> rat \<Rightarrow> build_result \<Rightarrow> run_result" where
  "failed_run err timeout build_res =
     \<lparr>rr_costs = [MAX_FLOAT], rr_error = err, rr_all_cost = br_cost build_res + timeout\<rparr>"

definition run_answer :: "rat \<Rightarrow> build_result \<Rightarrow> run_result called \<Rightarrow> run_result" where
  "run_answer timeout build_res res = (case res of
       Returned r \<Rightarrow> r
     | ATimeoutError \<Rightarrow> failed_run RUN_TIMEOUT timeout build_res
     | AnException \<Rightarrow> failed_run RUNTIME_DEVICE timeout build_res)"

primrec forS_list :: "('a \<Rightarrow> ('s, 'b) sx) \<Rightarrow> 'a list \<Rightarrow> ('s, 'b list) sx" where
  "forS_list f [] = retS []"
| "forS_list f (x # xs) = bindS (f x) (\<lambda>y. bindS (forS_list f xs) (\<lambda>ys. retS (y # ys)))"

definition local_run_one ::
  "('n, 'x) array_files \<Rightarrow> tensor list \<Rightarrow> (nat list \<Rightarrow> (nat, string) dict) \<Rightarrow> (('g, 't, 'h, 's) meas_input \<Rightarrow> 'd res) \<Rightarrow>
     ('d \<Rightarrow> ('g, 't, 'h, 's) meas_input res) \<Rightarrow> ('f, 'n) device \<Rightarrow> rat \<Rightarrow>
     (('g, 't, 'h, 's) meas_input \<times> fate \<times> rat) \<times> build_result \<Rightarrow> (('n, 'x) input_env, run_result) sx" where
  "local_run_one af g checked send receive dv timeout = (\<lambda>((inp, fate, spent), build_res).
     if br_error build_res \<noteq> NO_ERROR then retS (failed_build build_res)
     else bindS (prepare_runner_args af g checked (sk_wkey (mq_task inp)) (sk_names (mq_task inp)) (br_args build_res)) (\<lambda>args.
       bindS (liftS (send inp)) (\<lambda>data.
         retS (run_answer timeout build_res
           (call_func_with_timeout fate (timed_eval_func receive dv spent data build_res args))))))"

definition local_run ::
  "('n, 'x) array_files \<Rightarrow> tensor list \<Rightarrow> (nat list \<Rightarrow> (nat, string) dict) \<Rightarrow> (('g, 't, 'h, 's) meas_input \<Rightarrow> 'd res) \<Rightarrow>
     ('d \<Rightarrow> ('g, 't, 'h, 's) meas_input res) \<Rightarrow> ('f, 'n) device \<Rightarrow> rat \<Rightarrow>
     (('g, 't, 'h, 's) meas_input \<times> fate \<times> rat) list \<Rightarrow> build_result list \<Rightarrow>
     (('n, 'x) input_env, run_result list) sx" where
  "local_run af g checked send receive dv timeout inputs build_results =
     thenS (guardS (length inputs = length build_results) AssertionError)
       (forS_list (local_run_one af g checked send receive dv timeout) (zip inputs build_results))"

section \<open>Running on remote devices\<close>

text \<open>
  \<open>_rpc_run\<close> on a device reached through the tracker; \<open>load\<close> includes the request and the upload,
  \<open>stream\<close> says whether a stream could be created. The handler of an error frees the stream, which
  is unbound when it could not be created, and that raises.
\<close>

definition rpc_run ::
  "('d \<Rightarrow> ('g, 't, 'h, 's) meas_input res) \<Rightarrow> ('f, 'n) device \<Rightarrow> bool \<Rightarrow> rat \<Rightarrow> 'd \<Rightarrow> build_result \<Rightarrow> 'n buffer option list \<Rightarrow>
     run_result res" where
  "rpc_run receive dv stream spent data build_res args =
     bindR (receive data) (\<lambda>inp.
     bindR (case dv_load dv (br_file build_res) of
         Inl e \<Rightarrow> Inr ([MAX_FLOAT], COMPILE_DEVICE)
       | Inr func \<Rightarrow> if \<not> stream then Inl NameError
           else (case run_loaded dv func (br_args build_res) args of
             Inl e \<Rightarrow> Inr ([MAX_FLOAT], RUNTIME_DEVICE)
           | Inr costs \<Rightarrow> Inr (costs, NO_ERROR))) (\<lambda>(costs, err).
     bindR (dv_remove dv (br_file build_res)) (\<lambda>_.
       Inr \<lparr>rr_costs = costs, rr_error = err, rr_all_cost = spent + br_cost build_res\<rparr>)))"

definition rpc_run_worker ::
  "('d \<Rightarrow> ('g, 't, 'h, 's) meas_input res) \<Rightarrow> ('f, 'n) device \<Rightarrow> bool \<Rightarrow> rat \<Rightarrow> rat \<Rightarrow> 'd \<Rightarrow> build_result \<Rightarrow>
     'n buffer option list \<Rightarrow> run_result" where
  "rpc_run_worker receive dv stream timeout spent data build_res args =
     (if br_error build_res \<noteq> NO_ERROR then failed_build build_res
      else case rpc_run receive dv stream spent data build_res args of
          Inl e \<Rightarrow> failed_run RUNTIME_DEVICE timeout build_res
        | Inr r \<Rightarrow> r)"

text \<open>The arguments of all runs are prepared first, in the order of the inputs.\<close>

definition rpc_prepare ::
  "('n, 'x) array_files \<Rightarrow> tensor list \<Rightarrow> (nat list \<Rightarrow> (nat, string) dict) \<Rightarrow> (('g, 't, 'h, 's) meas_input \<Rightarrow> 'd res) \<Rightarrow>
     (('g, 't, 'h, 's) meas_input \<times> fate \<times> bool \<times> rat) \<times> build_result \<Rightarrow>
     (('n, 'x) input_env, fate \<times> bool \<times> rat \<times> 'd \<times> build_result \<times> 'n buffer option list) sx" where
  "rpc_prepare af g checked send = (\<lambda>((inp, fate, stream, spent), build_res).
     bindS (liftS (send inp)) (\<lambda>data.
     bindS (prepare_runner_args af g checked (sk_wkey (mq_task inp)) (sk_names (mq_task inp)) (br_args build_res)) (\<lambda>args.
       retS (fate, stream, spent, data, build_res, args))))"

text \<open>
  The pool is created without a time limit, so a call that hangs never answers: \<open>None\<close> stands for a
  runner that does not return. An answer other than a result is taken for a time-out by assertion.
\<close>

definition rpc_answer ::
  "('d \<Rightarrow> ('g, 't, 'h, 's) meas_input res) \<Rightarrow> ('f, 'n) device \<Rightarrow> rat \<Rightarrow>
     fate \<times> bool \<times> rat \<times> 'd \<times> build_result \<times> 'n buffer option list \<Rightarrow> run_result res" where
  "rpc_answer receive dv timeout = (\<lambda>(fate, stream, spent, data, build_res, args).
     case run_with_error_catching fate (Inr (rpc_run_worker receive dv stream timeout spent data build_res args)) of
       COMPLETE r \<Rightarrow> Inr r
     | EXCEPTION _ \<Rightarrow> Inl AssertionError
     | TIMEOUT \<Rightarrow> Inr (failed_run RUN_TIMEOUT timeout build_res))"

fun rpc_collect ::
  "('d \<Rightarrow> ('g, 't, 'h, 's) meas_input res) \<Rightarrow> ('f, 'n) device \<Rightarrow> rat \<Rightarrow>
     (fate \<times> bool \<times> rat \<times> 'd \<times> build_result \<times> 'n buffer option list) list \<Rightarrow> run_result list res option" where
  "rpc_collect receive dv timeout [] = Some (Inr [])"
| "rpc_collect receive dv timeout (call # calls) =
     (if fst call = Hangs then None
      else case rpc_answer receive dv timeout call of
          Inl e \<Rightarrow> Some (Inl e)
        | Inr r \<Rightarrow> map_option (\<lambda>rs. bindR rs (\<lambda>rs. Inr (r # rs))) (rpc_collect receive dv timeout calls))"

definition rpc_runner_run ::
  "('n, 'x) array_files \<Rightarrow> tensor list \<Rightarrow> (nat list \<Rightarrow> (nat, string) dict) \<Rightarrow> (('g, 't, 'h, 's) meas_input \<Rightarrow> 'd res) \<Rightarrow>
     ('d \<Rightarrow> ('g, 't, 'h, 's) meas_input res) \<Rightarrow> ('f, 'n) device \<Rightarrow> rat \<Rightarrow>
     (('g, 't, 'h, 's) meas_input \<times> fate \<times> bool \<times> rat) list \<Rightarrow> build_result list \<Rightarrow> ('n, 'x) input_env \<Rightarrow>
     (run_result list res \<times> ('n, 'x) input_env) option" where
  "rpc_runner_run af g checked send receive dv timeout inputs build_results env =
     (if length inputs \<noteq> length build_results then Some (Inl AssertionError, env)
      else case forS_list (rpc_prepare af g checked send) (zip inputs build_results) env of
          (Inl e, env') \<Rightarrow> Some (Inl e, env')
        | (Inr calls, env') \<Rightarrow> map_option (\<lambda>rs. (rs, env')) (rpc_collect receive dv timeout calls))"

section \<open>Builds\<close>

text \<open>
  What the native side keeps of an input, and the targets and DAGs of the task, as
  \<open>input_arrives\<close> needs them.
\<close>

definition transferable ::
  "('g, 't, 'h) task_native \<Rightarrow> (('g, 't, 'h, 's) meas_input \<Rightarrow> string) \<Rightarrow> (string \<Rightarrow> ('g, 't, 'h, 's) meas_input res) \<Rightarrow>
     ('s \<Rightarrow> 's) \<Rightarrow> registry \<Rightarrow> ('g, 't, 'h, 's) meas_input \<Rightarrow> bool" where
  "transferable nv native_write native_read steps_only reg inp \<longleftrightarrow>
     (let task = mq_task inp in
      native_read (native_write inp) =
        Inr \<lparr>mq_task = task\<lparr>sk_dag := None\<rparr>, mq_state = steps_only (mq_state inp), mq_inst = mq_inst inp\<rparr> \<and>
      tk_consist nv (sk_target task) (sk_host task) = Inr (sk_target task, sk_host task) \<and>
      tk_consist nv (sk_target task) None = Inr (sk_target task, sk_host task) \<and>
      sk_dag task \<noteq> None \<and> compute_dag nv reg (sk_wkey task) = Inr (the (sk_dag task)) \<and>
      (\<exists>entry. serialize_workload_registry_entry (tk_save_tensors nv) (tk_load_json nv) reg (sk_wkey task) = Inr entry))"

text \<open>The text form of registered tensors can be read back.\<close>

definition tensors_codec :: "('g, 't, 'h) task_native \<Rightarrow> registry \<Rightarrow> bool" where
  "tensors_codec nv reg \<longleftrightarrow>
     (\<forall>name t. reg name = Some (RTensors t) \<longrightarrow> tk_load_tensors nv (tk_save_tensors nv t) = Inr t)"

text \<open>A worker starts with the registry \<open>reg1\<close> and a table of input buffers of its own.\<close>

definition received ::
  "('g, 't, 'h) task_native \<Rightarrow> ('n, 'x) array_files \<Rightarrow> (string \<Rightarrow> ('g, 't, 'h, 's) meas_input res) \<Rightarrow> registry \<Rightarrow>
     ('n, 'x) input_env \<Rightarrow> string \<times> pyval \<times> sval \<Rightarrow> ('g, 't, 'h, 's) meas_input res" where
  "received nv af native_read reg1 env data =
     bindR (fst (deserialize_input nv af native_read data reg1 env)) (\<lambda>(inp, _). Inr inp)"

lemma received_input:
  assumes "transferable nv native_write native_read steps_only reg inp" "reg1 \<subseteq>\<^sub>m reg"
    and "tensors_codec nv reg"
  shows "\<exists>data. serialize_input nv native_write reg inp = Inr data \<and> received nv af native_read reg1 env data =
    Inr \<lparr>mq_task = mq_task inp, mq_state = steps_only (mq_state inp), mq_inst = None\<rparr>"
proof -
  note t = assms(1) [unfolded transferable_def Let_def]
  obtain entry where entry:
    "serialize_workload_registry_entry (tk_save_tensors nv) (tk_load_json nv) reg (sk_wkey (mq_task inp)) = Inr entry"
    using t by blast
  then have ser: "serialize_input nv native_write reg inp = Inr (native_write inp, entry)"
    by (simp add: serialize_input_def)
  obtain dag where dag: "sk_dag (mq_task inp) = Some dag" using t by blast
  have "\<exists>reg2. deserialize_input nv af native_read (native_write inp, entry) reg1 env =
    (Inr (\<lparr>mq_task = mq_task inp, mq_state = steps_only (mq_state inp), mq_inst = None\<rparr>, reg2), env)"
    using t dag assms(3) by (intro input_arrives [OF ser assms(2)]) (auto simp: tensors_codec_def)
  then show ?thesis using ser by (auto simp: received_def)
qed

text \<open>The result of a build that was started on the given schedule.\<close>

definition build_of ::
  "('g, 't, 'h, 's, 'c, 'f) toolchain \<Rightarrow> string \<Rightarrow> 't \<Rightarrow> rat \<Rightarrow> ('c \<times> nat list) res \<Rightarrow> build_result" where
  "build_of tc build_func target spent r =
     (let (file, args, err) = build_instance tc build_func target r in
      \<lparr>br_file = file, br_args = args, br_error = err, br_cost = spent\<rparr>)"

lemma build_finishes:
  assumes "transferable nv native_write native_read steps_only reg inp" "reg1 \<subseteq>\<^sub>m reg"
    and "tensors_codec nv reg"
    and "sk_vars (mq_task inp) = Some shape_vars" "serialize_input nv native_write reg inp = Inr data"
  shows "local_build_worker nv (received nv af native_read reg1 env) tc ''default'' timeout spent data =
    Inr (build_of tc ''default'' (sk_target (mq_task inp)) spent
      (bt_cherry_pick tc (sk_dag (mq_task inp)) (steps_only (mq_state inp)) (mq_task inp)))"
proof -
  have rec: "received nv af native_read reg1 env data =
      Inr \<lparr>mq_task = mq_task inp, mq_state = steps_only (mq_state inp), mq_inst = None\<rparr>"
    using received_input [OF assms(1-3), where af = af and env = env] assms(5) by auto
  have "tk_consist nv (sk_target (mq_task inp)) (sk_host (mq_task inp)) =
      Inr (sk_target (mq_task inp), sk_host (mq_task inp))"
    using assms(1) by (simp add: transferable_def Let_def)
  then show ?thesis
    by (simp add: local_build_worker_def fresh_build_func_def build_received_def rec instantiate_def assms(4) build_of_def
        split: prod.split)
qed

text \<open>
  C18. Building a batch of programs of a dynamic task, each for a workload instance of its own, as the
  final selection of states does. One build result per input comes back, in order. A worker that runs
  into its time limit gives a time-out. Every other result is that of the program for the workload
  instance that the native side picks for the state, whatever instance the input was made for: the
  instance is lost on the way to the worker.
\<close>

theorem builds_ignore_instances:
  assumes "\<forall>(inp, fate, spent)\<in>set inputs. transferable nv native_write native_read steps_only reg inp \<and>
      sk_vars (mq_task inp) \<noteq> None \<and> fate \<noteq> Crashes"
    and "reg1 \<subseteq>\<^sub>m reg"
    and "tensors_codec nv reg"
  shows "local_builder_build nv (serialize_input nv native_write reg) (received nv af native_read reg1 env) tc timeout
      ''default'' inputs =
    Inr (map (\<lambda>(inp, fate, spent).
      if fate = Hangs then \<lparr>br_file = [], br_args = [], br_error = BUILD_TIMEOUT, br_cost = timeout\<rparr>
      else build_of tc ''default'' (sk_target (mq_task inp)) spent
        (bt_cherry_pick tc (sk_dag (mq_task inp)) (steps_only (mq_state inp)) (mq_task inp))) inputs)"
  using assms(1)
proof (induction inputs)
  case Nil
  then show ?case by (simp add: local_builder_build_def)
next
  case (Cons x inputs)
  obtain inp fate spent where x: "x = (inp, fate, spent)" by (cases x)
  have t: "transferable nv native_write native_read steps_only reg inp" "fate \<noteq> Crashes"
    and "sk_vars (mq_task inp) \<noteq> None" using Cons.prems by (auto simp: x)
  then obtain shape_vars where v: "sk_vars (mq_task inp) = Some shape_vars" by blast
  obtain data where data: "serialize_input nv native_write reg inp = Inr data"
    using received_input [OF t(1) assms(2,3), where af = af and env = env] by blast
  have answer: "build_answer timeout (run_with_error_catching fate
      (local_build_worker nv (received nv af native_read reg1 env) tc ''default'' timeout spent data)) =
    Inr (if fate = Hangs then \<lparr>br_file = [], br_args = [], br_error = BUILD_TIMEOUT, br_cost = timeout\<rparr>
      else build_of tc ''default'' (sk_target (mq_task inp)) spent
        (bt_cherry_pick tc (sk_dag (mq_task inp)) (steps_only (mq_state inp)) (mq_task inp)))"
    using t(2) by (cases fate)
      (simp_all add: build_finishes [OF t(1) assms(2,3) v data] recv_def run_with_error_catching_def build_answer_def)
  have "local_builder_build nv (serialize_input nv native_write reg) (received nv af native_read reg1 env) tc timeout
      ''default'' (x # inputs) =
    bindR (build_answer timeout (run_with_error_catching fate
      (local_build_worker nv (received nv af native_read reg1 env) tc ''default'' timeout spent data))) (\<lambda>r.
    bindR (local_builder_build nv (serialize_input nv native_write reg) (received nv af native_read reg1 env) tc timeout
      ''default'' inputs) (\<lambda>rs. Inr (r # rs)))"
    using Cons by (auto simp: local_builder_build_def x data bindR_Inr_iff bindR_Inl_iff) 
  then show ?case using Cons by (simp add: answer x)
qed

text \<open>
  A builder with a build function of its own cannot build: the name is compared in the worker, a new
  process, where it is always the default one, and the failed assertion is taken for a time-out.
\<close>

lemma own_build_func_refused:
  assumes "build_func \<noteq> ''default''" "send inp = Inr data"
    and "\<forall>(inp, _)\<in>set inputs. \<exists>data. send inp = Inr data"
  shows "local_builder_build nv send receive tc timeout build_func ((inp, Finishes, spent) # inputs) = Inl AssertionError"
proof -
  have "\<exists>calls. mapR (\<lambda>(inp, fate, spent). bindR (send inp) (\<lambda>data. Inr (data, fate, spent))) inputs = Inr calls"
    using assms(3) by (induction inputs) auto
  then show ?thesis
    using assms(1,2)
    by (auto simp: local_builder_build_def local_build_worker_def fresh_build_func_def recv_def
        run_with_error_catching_def build_answer_def)
qed

text \<open>A compiler that takes its process down ends the whole batch.\<close>

lemma crash_ends_batch:
  assumes "send inp = Inr data" "\<forall>(inp, _)\<in>set inputs. \<exists>data. send inp = Inr data"
  shows "local_builder_build nv send receive tc timeout build_func ((inp, Crashes, spent) # inputs) = Inl AssertionError"
proof -
  have "\<exists>calls. mapR (\<lambda>(inp, fate, spent). bindR (send inp) (\<lambda>data. Inr (data, fate, spent))) inputs = Inr calls"
    using assms(2) by (induction inputs) auto
  then show ?thesis
    using assms(1) by (auto simp: local_builder_build_def recv_def run_with_error_catching_def build_answer_def)
qed

section \<open>Runs\<close>

lemma forS_list_Inr:
  "forS_list f xs s = (Inr ys, t) \<Longrightarrow> list_all2 (\<lambda>x y. \<exists>u v. f x u = (Inr y, v)) xs ys"
  by (induction xs arbitrary: s ys) (fastforce simp: bindS_Inr)+

lemma timed_costs_errors:
  assumes "timed_costs dv b args = (costs, err)"
  shows "err \<in> {NO_ERROR, COMPILE_DEVICE, RUNTIME_DEVICE}" "err \<noteq> NO_ERROR \<Longrightarrow> costs = [MAX_FLOAT]"
  using assms by (auto simp: timed_costs_def split: sum.splits)

lemma timed_eval_errors:
  assumes "timed_eval_func receive dv spent data b args = Inr r"
  shows "rr_error r \<in> {NO_ERROR, COMPILE_DEVICE, RUNTIME_DEVICE}"
    and "rr_error r \<noteq> NO_ERROR \<Longrightarrow> rr_costs r = [MAX_FLOAT]"
proof -
  obtain costs err where c: "timed_costs dv b args = (costs, err)" by (cases "timed_costs dv b args")
  with assms have "r = \<lparr>rr_costs = costs, rr_error = err, rr_all_cost = spent + br_cost b\<rparr>"
    by (auto simp: timed_eval_func_def bindR_Inr_iff)
  then show "rr_error r \<in> {NO_ERROR, COMPILE_DEVICE, RUNTIME_DEVICE}" "rr_error r \<noteq> NO_ERROR \<Longrightarrow> rr_costs r = [MAX_FLOAT]"
    using timed_costs_errors [OF c] by simp_all
qed

text \<open>What one run reports.\<close>

definition run_report :: "rat \<Rightarrow> fate \<Rightarrow> build_result \<Rightarrow> run_result \<Rightarrow> bool" where
  "run_report timeout fate b r =
     (if br_error b \<noteq> NO_ERROR then r = failed_build b
      else if fate \<noteq> Finishes then r = failed_run RUNTIME_DEVICE timeout b
      else rr_error r \<in> {NO_ERROR, COMPILE_DEVICE, RUNTIME_DEVICE} \<and>
        (rr_error r \<noteq> NO_ERROR \<longrightarrow> rr_costs r = [MAX_FLOAT]))"

lemma run_one_reports:
  assumes "local_run_one af g checked send receive dv timeout ((inp, fate, spent), b) u = (Inr r, v)"
  shows "run_report timeout fate b r"
proof (cases "br_error b = NO_ERROR")
  case False
  with assms show ?thesis by (simp add: local_run_one_def run_report_def)
next
  case True
  with assms obtain args data where
    r: "r = run_answer timeout b (call_func_with_timeout fate (timed_eval_func receive dv spent data b args))"
    by (auto simp: local_run_one_def bindS_Inr)
  show ?thesis
  proof (cases fate)
    case Finishes
    then show ?thesis
      using timed_eval_errors [of receive dv spent data b args] True
      by (cases "timed_eval_func receive dv spent data b args")
        (auto simp: r run_report_def run_answer_def call_func_with_timeout_def recv_def failed_run_def)
  qed (simp_all add: True r run_report_def run_answer_def call_func_with_timeout_def recv_def)
qed

text \<open>
  C20. When a batch of programs has been run on the local device, there is one result per program, in
  order. A program that could not be built keeps the error of its build. One whose run breaks off,
  by a crash or by the time limit, is reported as a failure on the device: the error for time-outs,
  \<open>RUN_TIMEOUT\<close>, is never given by a run. Every result with an error has the single cost \<open>10^10\<close>.
\<close>

theorem runs_reported:
  assumes "local_run af g checked send receive dv timeout inputs builds env = (Inr results, env')"
    and "\<forall>b\<in>set builds. br_error b \<noteq> RUN_TIMEOUT"
  shows "length results = length inputs \<and>
    list_all2 (\<lambda>((inp, fate, spent), b) r. run_report timeout fate b r) (zip inputs builds) results \<and>
    (\<forall>r\<in>set results. rr_error r \<noteq> RUN_TIMEOUT \<and> (rr_error r \<noteq> NO_ERROR \<longrightarrow> rr_costs r = [MAX_FLOAT]))"
proof (intro conjI ballI)
  obtain u where len: "length inputs = length builds"
    and run: "forS_list (local_run_one af g checked send receive dv timeout) (zip inputs builds) u = (Inr results, env')"
    using assms(1) by (auto simp: local_run_def thenS_Inr split: if_splits)
  show all: "list_all2 (\<lambda>((inp, fate, spent), b) r. run_report timeout fate b r) (zip inputs builds) results"
    by (rule list_all2_mono [OF forS_list_Inr [OF run]]) (auto dest: run_one_reports)
  then show "length results = length inputs" using len by (auto dest: list_all2_lengthD)
  fix r assume "r \<in> set results"
  then obtain i where "i < length results" and r: "r = results ! i" by (auto simp: in_set_conv_nth)
  then have i: "i < length (zip inputs builds)" using list_all2_lengthD [OF all] by simp
  obtain inp fate spent where x: "inputs ! i = (inp, fate, spent)" by (cases "inputs ! i")
  have rep: "run_report timeout fate (builds ! i) r"
    using list_all2_nthD [OF all i] i by (simp add: x r)
  have "br_error (builds ! i) \<noteq> RUN_TIMEOUT" using assms(2) i by simp
  with rep show "rr_error r \<noteq> RUN_TIMEOUT" "rr_error r \<noteq> NO_ERROR \<longrightarrow> rr_costs r = [MAX_FLOAT]"
    by (auto simp: run_report_def failed_build_def failed_run_def split: if_splits)
qed

text \<open>
  On remote devices the arguments of all programs are prepared first, those of failed builds too. A
  failed build has no arguments, so when its task has special inputs, the batch is given up.
\<close>

lemma rpc_gives_up:
  assumes "length inputs = length builds" "((inp, fate, stream, spent), b) \<in> set (zip inputs builds)"
    and "br_args b = []" "sk_names (mq_task inp) \<noteq> []"
  shows "\<exists>e env'. rpc_runner_run af g checked send receive dv timeout inputs builds env = Some (Inl e, env')"
proof -
  have one: "\<exists>e v. rpc_prepare af g checked send ((inp, fate, stream, spent), b) u = (Inl e, v)" for u
  proof (cases "send inp")
    case (Inr data)
    then show ?thesis using assms(3,4)
      by (auto simp: rpc_prepare_def prepare_runner_args_def bindS_def Let_def)
  qed (simp add: rpc_prepare_def bindS_def)
  have "\<exists>e v. forS_list (rpc_prepare af g checked send) xs u = (Inl e, v)"
    if "((inp, fate, stream, spent), b) \<in> set xs" for xs u
    using that
  proof (induction xs arbitrary: u)
    case (Cons x xs)
    show ?case
    proof (cases "x = ((inp, fate, stream, spent), b)")
      case True
      then show ?thesis using one [of u] by (auto simp: bindS_run)
    next
      case False
      with Cons have IH: "\<And>u. \<exists>e v. forS_list (rpc_prepare af g checked send) xs u = (Inl e, v)" by auto
      show ?thesis
      proof (cases "rpc_prepare af g checked send x u")
        case (Pair r w)
        then show ?thesis using IH [of w] by (cases r) (auto simp: bindS_def)
      qed
    qed
  qed simp
  then obtain e v where "forS_list (rpc_prepare af g checked send) (zip inputs builds) env = (Inl e, v)"
    using assms(2) by blast
  then show ?thesis using assms(1) by (simp add: rpc_runner_run_def)
qed

text \<open>A remote run that hangs keeps the runner for ever, whatever its time limit.\<close>

lemma rpc_hangs:
  assumes "forS_list (rpc_prepare af g checked send) (zip inputs builds) env = (Inr ((Hangs, call) # calls), env')"
    and "length inputs = length builds"
  shows "rpc_runner_run af g checked send receive dv timeout inputs builds env = None"
  using assms by (simp add: rpc_runner_run_def)

section \<open>Instances\<close>

definition demo_toolchain :: "(nat, string, nat, nat, int list, nat) toolchain" where
  "demo_toolchain = \<lparr>bt_on_inst = (\<lambda>_ _ _ inst. Inr (inst, [length inst])), bt_cherry_pick = (\<lambda>_ _ task. Inr (hd (sk_insts task), [0])),
     bt_apply = (\<lambda>_ _ _. Inl TVMError), bt_compile = (\<lambda>sch _ _. if sch = [24] then Inr 1 else Inl TVMError),
     bt_export = (\<lambda>_ _. Inr ()), bt_filename = ''/tmp/f.tar''\<rparr>"

definition demo_device :: "(nat, int) device" where
  "demo_device = \<lparr>dv_load = (\<lambda>_. Inr 0), dv_has_fill = True, dv_fill = (\<lambda>_. Inr ()), dv_time = (\<lambda>_ _. Inr [1 / 2]),
     dv_remove = (\<lambda>_. Inr ())\<rparr>"

text \<open>The program for the instance 24 could be built; the one for 5, which is picked, cannot.\<close>

lemma builds_ignore_instances_witness:
  "local_builder_build plain_native (serialize_input plain_native (\<lambda>_. ''i'') tensors_reg)
     (received plain_native demo_files (\<lambda>_. Inr (dyn_input\<lparr>mq_task := dyn_search_task\<lparr>sk_dag := None\<rparr>\<rparr>)) Map.empty
        \<lparr>ie_table = [], ie_files = Map.empty\<rparr>)
     demo_toolchain 15 ''default'' [(dyn_input, Finishes, 2), (dyn_input, Hangs, 0)] =
   Inr [\<lparr>br_file = ''/tmp/f.tar'', br_args = [0], br_error = COMPILE_HOST, br_cost = 2\<rparr>,
     \<lparr>br_file = [], br_args = [], br_error = BUILD_TIMEOUT, br_cost = 15\<rparr>]"
proof -
  let ?read = "\<lambda>_. Inr (dyn_input\<lparr>mq_task := dyn_search_task\<lparr>sk_dag := None\<rparr>\<rparr>)"
  let ?inputs = "[(dyn_input, Finishes, 2), (dyn_input, Hangs, 0)] :: ((nat, string, nat, nat) meas_input \<times> fate \<times> rat) list"
  have t: "transferable plain_native (\<lambda>_. ''i'') ?read id tensors_reg dyn_input"
    by (simp add: transferable_def dyn_input_def dyn_search_task_def plain_native_def tensors_reg_def compute_dag_def
        workload_key_to_tensors_def serialize_workload_registry_entry_def)
  have "\<forall>(inp, fate, spent)\<in>set ?inputs. transferable plain_native (\<lambda>_. ''i'') ?read id tensors_reg inp \<and>
      sk_vars (mq_task inp) \<noteq> None \<and> fate \<noteq> Crashes"
    using t by (simp add: dyn_input_def dyn_search_task_def)
  note inputs = this
  have le: "Map.empty \<subseteq>\<^sub>m tensors_reg" by simp
  have codec: "tensors_codec plain_native tensors_reg"
    by (simp add: tensors_codec_def tensors_reg_def plain_native_def)
  show ?thesis
    by (rule trans [OF builds_ignore_instances [OF inputs le codec]])
      (simp add: dyn_input_def dyn_search_task_def build_of_def build_instance_def demo_toolchain_def)
qed

lemma runs_reported_witness:
  "let b = \<lparr>br_file = ''/tmp/f.tar'', br_args = [0], br_error = NO_ERROR, br_cost = 2\<rparr>; env = \<lparr>ie_table = [], ie_files = Map.empty\<rparr>;
       results = [\<lparr>rr_costs = [1 / 2], rr_error = NO_ERROR, rr_all_cost = 3\<rparr>,
         \<lparr>rr_costs = [MAX_FLOAT], rr_error = RUNTIME_DEVICE, rr_all_cost = 12\<rparr>]
   in local_run demo_files sparse_graph (\<lambda>_. []) Inr Inr demo_device 10
        [(dyn_input, Finishes, 1), (dyn_input, Hangs, 0)] [b, b] env = (Inr results, env) \<and>
      length results = 2 \<and> run_report 10 Hangs b (results ! 1)"
proof -
  let ?b = "\<lparr>br_file = ''/tmp/f.tar'', br_args = [0], br_error = NO_ERROR, br_cost = 2\<rparr>"
  let ?env = "\<lparr>ie_table = [], ie_files = Map.empty\<rparr> :: (int, int list) input_env"
  let ?results = "[\<lparr>rr_costs = [1 / 2], rr_error = NO_ERROR, rr_all_cost = 3\<rparr>,
         \<lparr>rr_costs = [MAX_FLOAT], rr_error = RUNTIME_DEVICE, rr_all_cost = 12\<rparr>]"
  have run: "local_run demo_files sparse_graph (\<lambda>_. []) Inr Inr demo_device 10
        [(dyn_input, Finishes, 1), (dyn_input, Hangs, 0)] [?b, ?b] ?env = (Inr ?results, ?env)"
    by (simp add: local_run_def thenS_def bindS_def local_run_one_def prepare_runner_args_def runner_arg_def
        dyn_input_def dyn_search_task_def run_answer_def call_func_with_timeout_def recv_def timed_eval_func_def
        timed_costs_def run_loaded_def demo_device_def failed_run_def)
  then show ?thesis using runs_reported [OF run] by simp
qed

end
