(* ===== verification/TaskArgs.thy ===== *)
theory TaskArgs
  imports WorkloadKeys
begin

text \<open>
  Arguments and workloads of the template-based tuner: \<open>serialize_args\<close>, \<open>deserialize_args\<close>,
  \<open>args_to_workload\<close> and \<open>Task.workload\<close> of \<open>tvm/python/tvm/autotvm/task/task.py\<close>,
  \<open>get_const_tuple\<close> of \<open>autotvm/utils.py\<close>, and the collection of tasks in
  \<open>autotvm/task/topi_integration.py\<close>. Values are those of \<open>WorkloadKeys\<close>; string constants of the
  tensor IR are not among them.
\<close>

section \<open>Serialization\<close>

text \<open>A dimension that simplifies to a constant falls through both branches and is left out.\<close>

fun const_dims_elem :: "(pyval \<Rightarrow> pyval) \<Rightarrow> pyval \<Rightarrow> pyval list" where
  "const_dims_elem simplify (VVar x) = [VVar x]"
| "const_dims_elem simplify (VInt n) = [VInt n]"
| "const_dims_elem simplify (VIntImm n) = [VInt n]"
| "const_dims_elem simplify e = (case simplify e of VIntImm n \<Rightarrow> [] | e' \<Rightarrow> [e'])"

definition get_const_dims :: "(pyval \<Rightarrow> pyval) \<Rightarrow> pyval list \<Rightarrow> pyval" where
  "get_const_dims simplify in_tuple = VTuple (concat (map (const_dims_elem simplify) in_tuple))"

fun encode_arg :: "(pyval \<Rightarrow> pyval) \<Rightarrow> pyval \<Rightarrow> pyval res" where
  "encode_arg simplify (VTensor shape dtype) = Inr (VTuple [VStr ''TENSOR'', get_const_dims simplify shape, VStr dtype])"
| "encode_arg simplify (VTuple xs) = bindR (mapR (encode_arg simplify) xs) (\<lambda>ys. Inr (VTuple ys))"
| "encode_arg simplify (VList xs) = bindR (mapR (encode_arg simplify) xs) (\<lambda>ys. Inr (VTuple ys))"
| "encode_arg simplify (VArray xs) = bindR (mapR (encode_arg simplify) xs) (\<lambda>ys. Inr (VTuple ys))"
| "encode_arg simplify (VStr s) = Inr (VStr s)"
| "encode_arg simplify (VInt n) = Inr (VInt n)"
| "encode_arg simplify (VFloat x) = Inr (VFloat x)"
| "encode_arg simplify (VVar x) = Inr (VVar x)"
| "encode_arg simplify VAny = Inr VAny"
| "encode_arg simplify (VIntImm n) = Inr (VInt n)"
| "encode_arg simplify (VFloatImm x) = Inr (VFloat x)"
| "encode_arg simplify VNone = Inr VNone"
| "encode_arg simplify _ = Inl RuntimeError"

definition serialize_task_args :: "(pyval \<Rightarrow> pyval) \<Rightarrow> pyval list \<Rightarrow> pyval list res" where
  "serialize_task_args simplify args = mapR (encode_arg simplify) args"

text \<open>\<open>t[0]\<close> of an empty tuple raises.\<close>

definition deserialize_task_arg :: "pyval \<Rightarrow> pyval res" where
  "deserialize_task_arg t = (case t of
       VTuple xs \<Rightarrow> bindR (py_get xs 0) (\<lambda>tag.
         if tag = VStr ''TENSOR'' then bindR (py_get xs 1) (\<lambda>shape. bindR (py_get xs 2) (placeholder shape))
         else Inr t)
     | _ \<Rightarrow> Inr t)"

definition deserialize_task_args :: "pyval list \<Rightarrow> pyval list res" where
  "deserialize_task_args = mapR deserialize_task_arg"

definition args_to_workload :: "(pyval \<Rightarrow> pyval) \<Rightarrow> pyval list \<Rightarrow> string option \<Rightarrow> pyval res" where
  "args_to_workload simplify args task_name = bindR (serialize_task_args simplify args) (\<lambda>us.
     Inr (VTuple (case task_name of None \<Rightarrow> us | Some name \<Rightarrow> VStr name # us)))"

definition task_workload :: "(pyval \<Rightarrow> pyval) \<Rightarrow> string \<Rightarrow> pyval list \<Rightarrow> pyval res" where
  "task_workload simplify name args = bindR (serialize_task_args simplify args) (\<lambda>us. Inr (VTuple (VStr name # us)))"

section \<open>Collecting tasks\<close>

record extract_env =
  ee_allow_duplicate :: bool
  ee_tasks :: "(string \<times> pyval list) list"
  ee_wanted :: "string list option"
  ee_tracing :: bool

definition new_extract_env :: "bool \<Rightarrow> extract_env" where
  "new_extract_env allow_duplicate =
     \<lparr>ee_allow_duplicate = allow_duplicate, ee_tasks = [], ee_wanted = None, ee_tracing = False\<rparr>"

definition enter_extract :: "extract_env \<Rightarrow> extract_env" where
  "enter_extract env = env\<lparr>ee_tasks := [], ee_tracing := True\<rparr>"

definition leave_extract :: "extract_env \<Rightarrow> extract_env" where
  "leave_extract env = env\<lparr>ee_tracing := False\<rparr>"

definition reset_extract :: "string list option \<Rightarrow> extract_env \<Rightarrow> extract_env" where
  "reset_extract wanted env = env\<lparr>ee_tasks := [], ee_wanted := wanted\<rparr>"

definition add_task :: "(pyval \<Rightarrow> pyval) \<Rightarrow> string \<Rightarrow> pyval list \<Rightarrow> extract_env \<Rightarrow> extract_env res" where
  "add_task simplify task_name args env = bindR (serialize_task_args simplify args) (\<lambda>us.
     Inr (if ee_allow_duplicate env \<or> (task_name, us) \<notin> set (ee_tasks env)
          then env\<lparr>ee_tasks := ee_tasks env @ [(task_name, us)]\<rparr> else env))"

text \<open>\<open>TaskExtractEnv.get\<close>: one instance for all.\<close>

definition get_extract :: "bool \<Rightarrow> extract_env option \<Rightarrow> extract_env" where
  "get_extract allow_duplicate current = (case current of
       None \<Rightarrow> new_extract_env allow_duplicate
     | Some env \<Rightarrow> env\<lparr>ee_allow_duplicate := allow_duplicate\<rparr>)"

section \<open>Serialized values\<close>

text \<open>Values that serialization leaves alone, and dimensions of which nothing is lost.\<close>

fun settled :: "pyval \<Rightarrow> bool" where
  "settled (VTuple xs) = list_all settled xs"
| "settled (VStr _) = True"
| "settled (VInt _) = True"
| "settled (VFloat _) = True"
| "settled (VVar _) = True"
| "settled VAny = True"
| "settled VNone = True"
| "settled _ = False"

text \<open>Every expression among the dimensions of a tensor is a constant or a variable once simplified.\<close>

fun plain_dims :: "(pyval \<Rightarrow> pyval) \<Rightarrow> pyval \<Rightarrow> bool" where
  "plain_dims simplify (VTensor shape _) = (list_all settled (concat (map (const_dims_elem simplify) shape)))"
| "plain_dims simplify (VTuple xs) = list_all (plain_dims simplify) xs"
| "plain_dims simplify (VList xs) = list_all (plain_dims simplify) xs"
| "plain_dims simplify (VArray xs) = list_all (plain_dims simplify) xs"
| "plain_dims simplify _ = True"

lemma encode_settled: "settled t \<Longrightarrow> encode_arg simplify t = Inr t"
proof (induction t)
  case (VTuple xs)
  then have "mapR (encode_arg simplify) xs = Inr (map (\<lambda>x. x) xs)"
    by (intro mapR_total) (simp add: list_all_iff)
  then show ?case by simp
qed simp_all

lemma mapR_all: "mapR f xs = Inr ys \<Longrightarrow> (\<And>x u. x \<in> set xs \<Longrightarrow> f x = Inr u \<Longrightarrow> P u = Q x) \<Longrightarrow>
    list_all P ys = list_all Q xs"
proof (induction xs arbitrary: ys)
  case (Cons x xs)
  then obtain u us where u: "f x = Inr u" "mapR f xs = Inr us" "ys = u # us" by (auto simp: bindR_Inr_iff)
  then have "P u = Q x" "list_all P us = list_all Q xs" using Cons by auto
  then show ?case using u(3) by simp
qed simp

lemma encode_seq_settles:
  assumes "bindR (mapR (encode_arg simplify) xs) (\<lambda>ys. Inr (VTuple ys)) = Inr u"
    and "\<And>x u. x \<in> set xs \<Longrightarrow> encode_arg simplify x = Inr u \<Longrightarrow> settled u = plain_dims simplify x"
  shows "settled u = list_all (plain_dims simplify) xs"
proof -
  obtain ys where ys: "mapR (encode_arg simplify) xs = Inr ys" "u = VTuple ys"
    using assms(1) by (auto simp: bindR_Inr_iff)
  have "list_all settled ys = list_all (plain_dims simplify) xs" by (rule mapR_all [OF ys(1)]) (rule assms(2))
  then show ?thesis using ys(2) by simp
qed

lemma encode_settles: "encode_arg simplify t = Inr u \<Longrightarrow> settled u = plain_dims simplify t"
proof (induction t arbitrary: u)
  case (VTuple xs)
  then show ?case unfolding encode_arg.simps plain_dims.simps by (rule encode_seq_settles [rotated])
next
  case (VList xs)
  then show ?case unfolding encode_arg.simps plain_dims.simps by (rule encode_seq_settles [rotated])
next
  case (VArray xs)
  then show ?case unfolding encode_arg.simps plain_dims.simps by (rule encode_seq_settles [rotated])
qed (auto simp: get_const_dims_def)

text \<open>What serialization gives holds no container but tuples and no opaque object but dimensions.\<close>

lemma encode_unsettled: "encode_arg simplify t = Inr t \<Longrightarrow> settled t"
proof (induction t)
  case (VTuple xs)
  then have "mapR (encode_arg simplify) xs = Inr xs" by (simp add: bindR_Inr_iff)
  then have "\<forall>x\<in>set xs. encode_arg simplify x = Inr x"
    by (auto simp: mapR_Inr_iff list_all2_conv_all_nth in_set_conv_nth)
  then show ?case using VTuple by (simp add: list_all_iff)
qed (auto simp: get_const_dims_def bindR_Inr_iff)

text \<open>
  A task keeps its arguments serialized and serializes them again for every workload. Doing that
  changes nothing exactly when the dimensions of all tensors among the arguments are, once
  simplified, constants or variables.
\<close>

lemma workload_of_created_task:
  assumes "serialize_task_args simplify args = Inr us"
  shows "(task_workload simplify name us = args_to_workload simplify args (Some name)) =
    list_all (plain_dims simplify) args"
proof -
  have "list_all settled us = list_all (plain_dims simplify) args"
    using assms unfolding serialize_task_args_def by (rule mapR_all) (rule encode_settles)
  moreover have "mapR (encode_arg simplify) us = Inr us \<longleftrightarrow> list_all settled us"
  proof
    assume "mapR (encode_arg simplify) us = Inr us"
    then have "\<forall>u\<in>set us. encode_arg simplify u = Inr u"
      by (auto simp: mapR_Inr_iff list_all2_conv_all_nth in_set_conv_nth)
    then show "list_all settled us" using encode_unsettled by (auto simp: list_all_iff)
  next
    assume "list_all settled us"
    then show "mapR (encode_arg simplify) us = Inr us"
      using mapR_total [of us "encode_arg simplify" "\<lambda>x. x"] by (simp add: list_all_iff encode_settled)
  qed
  moreover have "task_workload simplify name us = args_to_workload simplify args (Some name) \<longleftrightarrow>
      mapR (encode_arg simplify) us = Inr us"
    using assms
    by (cases "mapR (encode_arg simplify) us")
      (auto simp: task_workload_def args_to_workload_def serialize_task_args_def)
  ultimately show ?thesis by blast
qed

text \<open>A dimension written as an expression, \<open>VExpr 0\<close>, that simplifies to 4, and one that does not simplify.\<close>

lemma workload_of_created_task_witness:
  "let simp = (\<lambda>e. if e = VExpr 0 then VIntImm 4 else e);
       data = VTensor [VInt 1, VExpr 0] ''float32''; us = [VTuple [VStr ''TENSOR'', VTuple [VInt 1], VStr ''float32''], VTuple [VInt 2]]
   in serialize_task_args simp [data, VList [VIntImm 2]] = Inr us \<and>
     task_workload simp ''dense'' us = args_to_workload simp [data, VList [VIntImm 2]] (Some ''dense'') \<and>
     task_workload simp ''dense'' [VTuple [VStr ''TENSOR'', VTuple [VExpr 1], VStr ''float32'']] \<noteq>
       args_to_workload simp [VTensor [VExpr 1] ''float32''] (Some ''dense'')"
proof -
  define simp :: "pyval \<Rightarrow> pyval" where "simp = (\<lambda>e. if e = VExpr 0 then VIntImm 4 else e)"
  have a: "serialize_task_args simp [VTensor [VInt 1, VExpr 0] ''float32'', VList [VIntImm 2]] =
      Inr [VTuple [VStr ''TENSOR'', VTuple [VInt 1], VStr ''float32''], VTuple [VInt 2]]"
    and b: "serialize_task_args simp [VTensor [VExpr 1] ''float32''] =
      Inr [VTuple [VStr ''TENSOR'', VTuple [VExpr 1], VStr ''float32'']]"
    by (simp_all add: serialize_task_args_def get_const_dims_def simp_def)
  show ?thesis
    using a workload_of_created_task [OF a, of "''dense''"] workload_of_created_task [OF b, of "''dense''"]
    by (simp add: Let_def simp_def)
qed

fun static_dim :: "pyval \<Rightarrow> bool" where
  "static_dim (VVar _) = True"
| "static_dim (VInt _) = True"
| "static_dim _ = False"

definition untagged :: "pyval list \<Rightarrow> bool" where
  "untagged xs \<longleftrightarrow> xs \<noteq> [] \<and> hd xs \<noteq> VStr ''TENSOR'' \<and> list_all settled xs"

definition restorable :: "pyval \<Rightarrow> bool" where
  "restorable t = (case t of
       VTensor shape _ \<Rightarrow> list_all static_dim shape
     | VTuple xs \<Rightarrow> untagged xs
     | VList xs \<Rightarrow> untagged xs
     | _ \<Rightarrow> settled t)"

definition empty_seq :: "pyval \<Rightarrow> bool" where
  "empty_seq t \<longleftrightarrow> t \<in> {VTuple [], VList [], VArray []}"

lemma static_dims: "list_all static_dim shape \<Longrightarrow> get_const_dims simplify shape = VTuple shape"
proof -
  have "static_dim d \<Longrightarrow> const_dims_elem simplify d = [d]" for d by (cases d) simp_all
  then show "list_all static_dim shape \<Longrightarrow> get_const_dims simplify shape = VTuple shape"
    by (induction shape) (simp_all add: get_const_dims_def)
qed

lemma encode_all_settled: "list_all settled xs \<Longrightarrow> mapR (encode_arg simplify) xs = Inr xs"
  using mapR_total [of xs "encode_arg simplify" "\<lambda>x. x"] by (simp add: list_all_iff encode_settled)

lemma tuplify_settled: "settled t \<Longrightarrow> tuplify t = t"
  by (cases t) simp_all

lemma untagged_same: "untagged xs \<Longrightarrow> deserialize_task_arg (VTuple xs) = Inr (VTuple xs)"
  by (cases xs) (simp_all add: untagged_def deserialize_task_arg_def)

lemma restores: "restorable t \<Longrightarrow> bindR (encode_arg simplify t) deserialize_task_arg = Inr (tuplify t)"
proof (cases t)
  case (VTensor shape dtype)
  moreover have "py_get [a, b, c] 1 = Inr b" "py_get [a, b, c] 2 = Inr c" for a b c :: pyval
    by (simp_all add: py_get_def)
  moreover assume "restorable t"
  ultimately show ?thesis by (simp add: restorable_def static_dims deserialize_task_arg_def)
next
  case (VTuple xs)
  moreover assume "restorable t"
  ultimately show ?thesis by (simp add: restorable_def untagged_def untagged_same encode_all_settled)
next
  case (VList xs)
  moreover assume "restorable t"
  moreover have "list_all settled xs \<Longrightarrow> map tuplify xs = xs"
    by (simp add: list_all_iff tuplify_settled map_idI)
  ultimately show ?thesis by (simp add: restorable_def untagged_def untagged_same encode_all_settled)
qed (auto simp: restorable_def deserialize_task_arg_def)

lemma empty_raises: "empty_seq t \<Longrightarrow> bindR (encode_arg simplify t) deserialize_task_arg = Inl IndexError"
  by (auto simp: empty_seq_def deserialize_task_arg_def)

lemma encodes: "restorable t \<or> empty_seq t \<Longrightarrow> \<exists>u. encode_arg simplify t = Inr u"
  using restores [of t simplify] by (auto simp: bindR_Inr_iff empty_seq_def)

text \<open>
  \<open>deserialize_args\<close> undoes \<open>serialize_args\<close> up to the kind of containers, for arguments that are
  tensors with constant or variable dimensions, or other values, and not sequences tagged like a
  tensor. But a single empty sequence among them, such as an empty list of axes, makes it raise
  \<open>IndexError\<close>.
\<close>

lemma task_args_roundtrip:
  assumes "\<forall>t\<in>set args. restorable t \<or> empty_seq t"
  shows "bindR (serialize_task_args simplify args) deserialize_task_args =
    (if \<exists>t\<in>set args. empty_seq t then Inl IndexError else Inr (map tuplify args))"
  using assms
proof (induction args)
  case Nil
  then show ?case by (simp add: serialize_task_args_def deserialize_task_args_def)
next
  case (Cons t args)
  obtain u where u: "encode_arg simplify t = Inr u" using encodes Cons.prems by (meson list.set_intros(1))
  have "\<forall>t\<in>set args. \<exists>u. encode_arg simplify t = Inr u" using encodes Cons.prems by simp
  then have "\<exists>us. mapR (encode_arg simplify) args = Inr us" by (induction args) auto
  then obtain us where us: "mapR (encode_arg simplify) args = Inr us" by blast
  have rest: "mapR deserialize_task_arg us =
      (if \<exists>t\<in>set args. empty_seq t then Inl IndexError else Inr (map tuplify args))"
    using Cons us by (simp add: serialize_task_args_def deserialize_task_args_def)
  have "deserialize_task_arg u = (if empty_seq t then Inl IndexError else Inr (tuplify t))"
    using Cons.prems restores [of t simplify] empty_raises [of t simplify] u by auto
  then show ?case using u us rest by (auto simp: serialize_task_args_def deserialize_task_args_def)
qed

lemma task_args_roundtrip_witness:
  "bindR (serialize_task_args id [VTensor [VInt 16, VVar ''n''] ''float32'', VList [VInt 1, VInt 1], VStr ''NCHW''])
     deserialize_task_args =
   Inr (map tuplify [VTensor [VInt 16, VVar ''n''] ''float32'', VList [VInt 1, VInt 1], VStr ''NCHW''])"
  by (subst task_args_roundtrip) (simp_all add: restorable_def untagged_def empty_seq_def)

end
