(* ===== verification/ConfigContexts.thy ===== *)
theory ConfigContexts
  imports TaskArgs Contexts MeasureRecords StateExc
begin

text \<open>
  The dispatch contexts of the template-based tuner, \<open>tvm/python/tvm/autotvm/task/dispatcher.py\<close>:
  contexts that hold one configuration, the best records of a log, the records of the graph tuner in
  the order of the nodes, or fallback configurations. Contexts and configurations are objects: lists
  by address, so that what is stored twice is shared. What distinguishes a class is its body.
\<close>

section \<open>State\<close>

text \<open>A record of a tuning log: the input of a measurement and its result.\<close>

record tinput =
  in_target :: target
  in_name :: string
  in_args :: "pyval list"
  in_config :: nat  \<comment> \<open>address of the configuration\<close>

record tresult =
  tr_costs :: "rat list"
  tr_error_no :: int
  tr_all_cost :: rat
  tr_timestamp :: rat

type_synonym trecord = "tinput \<times> tresult"

record best_log =
  bl_by_targetkey :: "(string \<times> pyval, trecord) dict"
  bl_by_model :: "(string \<times> pyval, trecord) dict"
  bl_user :: "(string \<times> pyval, nat) dict"

definition empty_log :: best_log where
  "empty_log = \<lparr>bl_by_targetkey = [], bl_by_model = [], bl_user = []\<rparr>"

datatype cbody =
    CApplyConfig nat "pyval option"  \<comment> \<open>the configuration and the workload last asked for\<close>
  | CHistory best_log
  | CFallback "string \<times> pyval \<rightharpoonup> nat"
  | CGraph "trecord list" nat "string \<times> pyval \<rightharpoonup> nat"  \<comment> \<open>records, counter, \<open>_global_cfg_dict\<close>\<close>

record cctx =
  cc_old :: "nat option"
  cc_body :: cbody

record 'c config_obj =
  co_cost :: "cost option"
  co_workload :: "pyval option"
  co_flop :: rat
  co_body :: 'c

record 'c cstate =
  cx_ctxs :: "cctx list"
  cx_current :: "nat option"
  cx_configs :: "'c config_obj list"
  cx_warned :: "string set"
  cx_silent :: bool

definition set_cbody :: "nat \<Rightarrow> cbody \<Rightarrow> 'c cstate \<Rightarrow> 'c cstate" where
  "set_cbody i b st = st\<lparr>cx_ctxs := (cx_ctxs st)[i := (cx_ctxs st ! i)\<lparr>cc_body := b\<rparr>]\<rparr>"

definition set_config :: "nat \<Rightarrow> ('c config_obj \<Rightarrow> 'c config_obj) \<Rightarrow> 'c cstate \<Rightarrow> 'c cstate" where
  "set_config cfg f st = st\<lparr>cx_configs := (cx_configs st)[cfg := f (cx_configs st ! cfg)]\<rparr>"

text \<open>A fresh configuration, \<open>FallbackConfigEntity()\<close>; \<open>fb\<close> is its contents.\<close>

definition new_config :: "'c \<Rightarrow> 'c cstate \<Rightarrow> nat \<times> 'c cstate" where
  "new_config fb st = (length (cx_configs st),
     st\<lparr>cx_configs := cx_configs st @ [\<lparr>co_cost = None, co_workload = None, co_flop = 0, co_body = fb\<rparr>]\<rparr>)"

section \<open>Loading a log\<close>

definition mean_costs :: "tresult \<Rightarrow> cost" where
  "mean_costs res = np_mean (tr_costs res)"

text \<open>What a table holds for a key is replaced by a record of a smaller mean cost.\<close>

definition offer_record ::
  "bool \<Rightarrow> string \<times> pyval \<Rightarrow> trecord \<Rightarrow> (string \<times> pyval, trecord) dict \<Rightarrow> (string \<times> pyval, trecord) dict" where
  "offer_record store_new key record d = (case map_of d key of
       None \<Rightarrow> if store_new then AList.update key record d else d
     | Some (_, other_res) \<Rightarrow>
         if cost_gt (mean_costs other_res) (mean_costs (snd record)) then AList.update key record d else d)"

definition input_workload :: "(pyval \<Rightarrow> pyval) \<Rightarrow> tinput \<Rightarrow> pyval res" where
  "input_workload simplify inp = task_workload simplify (in_name inp) (in_args inp)"

text \<open>A failing \<open>workload\<close> leaves what was loaded before.\<close>

definition load_target_key :: "(pyval \<Rightarrow> pyval) \<Rightarrow> trecord \<Rightarrow> string \<Rightarrow> (best_log, unit) sx" where
  "load_target_key simplify r k = bindS (liftS (input_workload simplify (fst r))) (\<lambda>w.
     modS (\<lambda>h. h\<lparr>bl_by_targetkey := offer_record True (k, w) r (bl_by_targetkey h)\<rparr>))"

definition load_config_record :: "(pyval \<Rightarrow> pyval) \<Rightarrow> trecord \<Rightarrow> (best_log, unit) sx" where
  "load_config_record simplify r = (if tr_error_no (snd r) \<noteq> 0 then retS () else
     thenS (forS (load_target_key simplify r) (t_keys (in_target (fst r))))
       (bindS (liftS (input_workload simplify (fst r))) (\<lambda>w.
          let model = t_model (in_target (fst r)) in
          modS (\<lambda>h. h\<lparr>bl_by_model := offer_record (model \<noteq> ''unknown'') (model, w) r (bl_by_model h)\<rparr>))))"

definition load_config_log :: "(pyval \<Rightarrow> pyval) \<Rightarrow> trecord list \<Rightarrow> (best_log, unit) sx" where
  "load_config_log simplify = forS (load_config_record simplify)"

section \<open>Queries\<close>

text \<open>\<open>ApplyHistoryBest._query_inside\<close>: what the user stored and the log, by model, then by each key.\<close>

definition match_config :: "best_log \<Rightarrow> (string \<times> pyval, trecord) dict \<Rightarrow> string \<times> pyval \<Rightarrow> nat option" where
  "match_config h table key = (case map_of (bl_user h) key of
       Some cfg \<Rightarrow> Some cfg
     | None \<Rightarrow> map_option (\<lambda>(inp, _). in_config inp) (map_of table key))"

fun match_config_keys :: "best_log \<Rightarrow> pyval \<Rightarrow> string list \<Rightarrow> nat option" where
  "match_config_keys h w [] = None"
| "match_config_keys h w (k # ks) = (case match_config h (bl_by_targetkey h) (k, w) of
       Some cfg \<Rightarrow> Some cfg
     | None \<Rightarrow> match_config_keys h w ks)"

definition history_config :: "target option \<Rightarrow> pyval \<Rightarrow> best_log \<Rightarrow> nat option res" where
  "history_config tgt w h = (case tgt of
       None \<Rightarrow> Inl RuntimeError
     | Some t \<Rightarrow> Inr (case match_config h (bl_by_model h) (t_model t, w) of
           Some cfg \<Rightarrow> Some cfg
         | None \<Rightarrow> match_config_keys h w (t_keys t)))"

text \<open>\<open>FallbackContext._query_inside\<close>; \<open>show\<close> prints a workload.\<close>

definition fallback_message :: "(pyval \<Rightarrow> string) \<Rightarrow> string \<Rightarrow> pyval \<Rightarrow> string" where
  "fallback_message shw tgt w = ''Cannot find config for target='' @ tgt @ '', workload='' @ shw w @
     ''. A fallback configuration is used, which may bring great performance regression.''"

definition fallback_config ::
  "'c \<Rightarrow> (pyval \<Rightarrow> string) \<Rightarrow> string \<Rightarrow> pyval \<Rightarrow> nat \<Rightarrow> (string \<times> pyval \<rightharpoonup> nat) \<Rightarrow> 'c cstate \<Rightarrow> nat res \<times> 'c cstate" where
  "fallback_config fb shw tgt w i memory st = (case memory (tgt, w) of
       Some cfg \<Rightarrow> (Inr cfg, st)
     | None \<Rightarrow>
         let st1 = (if cx_silent st then st else st\<lparr>cx_warned := insert (fallback_message shw tgt w) (cx_warned st)\<rparr>);
             (cfg, st2) = new_config fb st1
         in (Inr cfg, set_cbody i (CFallback (memory((tgt, w) \<mapsto> cfg))) st2))"

text \<open>\<open>ApplyGraphBest._query_inside\<close>: records in turn, then what was seen before.\<close>

definition graph_config ::
  "'c \<Rightarrow> (pyval \<Rightarrow> pyval) \<Rightarrow> string \<Rightarrow> pyval \<Rightarrow> nat \<Rightarrow> trecord list \<Rightarrow> nat \<Rightarrow> (string \<times> pyval \<rightharpoonup> nat) \<Rightarrow>
     'c cstate \<Rightarrow> nat res \<times> 'c cstate" where
  "graph_config fb simplify tgt w i records counter cfgs st =
     (if counter < length records then
        let inp = fst (records ! counter); cfg = in_config inp in
        case input_workload simplify inp of
          Inl e \<Rightarrow> (Inl e, st)
        | Inr wkl \<Rightarrow>
            if w \<noteq> VNone \<and> wkl \<noteq> w then (Inl AssertionError, st)
            else (Inr cfg, set_config cfg (\<lambda>c. c\<lparr>co_workload := Some wkl\<rparr>)
                   (set_cbody i (CGraph records (counter + 1) (cfgs((tgt, wkl) \<mapsto> cfg))) st))
      else case cfgs (tgt, w) of
        Some cfg \<Rightarrow> (Inr cfg, st)
      | None \<Rightarrow> let (cfg, st1) = new_config fb st in
          (Inr cfg, set_cbody i (CGraph records counter (cfgs((tgt, w) \<mapsto> cfg))) st1))"

text \<open>
  \<open>query\<close> on the context at an address, within the recursion limit. Only a history context can pass a
  query on.
\<close>

definition ctx_at :: "'c cstate \<Rightarrow> nat option \<Rightarrow> cctx option" where
  "ctx_at st i = Option.bind i (\<lambda>i. if i < length (cx_ctxs st) then Some (cx_ctxs st ! i) else None)"

fun query_config ::
  "nat \<Rightarrow> 'c \<Rightarrow> (pyval \<Rightarrow> pyval) \<Rightarrow> (pyval \<Rightarrow> string) \<Rightarrow> target option \<Rightarrow> pyval \<Rightarrow> nat option \<Rightarrow>
     'c cstate \<Rightarrow> nat res \<times> 'c cstate" where
  "query_config 0 fb simplify shw tgt w i st = (Inl RecursionError, st)"
| "query_config (Suc depth) fb simplify shw tgt w i st = (case ctx_at st i of
       None \<Rightarrow> (Inl AttributeError, st)
     | Some c \<Rightarrow> (case cc_body c of
           CApplyConfig cfg _ \<Rightarrow> (Inr cfg, set_cbody (the i) (CApplyConfig cfg (Some w)) st)
         | CHistory h \<Rightarrow> (case history_config tgt w h of
               Inl e \<Rightarrow> (Inl e, st)
             | Inr (Some cfg) \<Rightarrow> (Inr cfg, st)
             | Inr None \<Rightarrow> query_config depth fb simplify shw tgt w (cc_old c) st)
         | CFallback memory \<Rightarrow> fallback_config fb shw (t_str (str_target tgt)) w (the i) memory st
         | CGraph records counter cfgs \<Rightarrow>
             graph_config fb simplify (t_str (str_target tgt)) w (the i) records counter cfgs st))"

section \<open>Updates and the stack\<close>

definition update_history :: "target \<Rightarrow> pyval \<Rightarrow> nat \<Rightarrow> best_log \<Rightarrow> best_log" where
  "update_history t w cfg h =
     h\<lparr>bl_user := fold (\<lambda>k. AList.update (k, w) cfg) (t_keys t) (AList.update (t_model t, w) cfg (bl_user h))\<rparr>"

definition update_config :: "target option \<Rightarrow> pyval \<Rightarrow> nat \<Rightarrow> nat \<Rightarrow> 'c cstate \<Rightarrow> unit res \<times> 'c cstate" where
  "update_config tgt w cfg i st = (case ctx_at st (Some i) of
       None \<Rightarrow> (Inl AttributeError, st)
     | Some c \<Rightarrow> (case cc_body c of
           CApplyConfig _ _ \<Rightarrow> (Inr (), set_cbody i (CApplyConfig cfg (Some w)) st)
         | CHistory h \<Rightarrow> (case tgt of
               None \<Rightarrow> (Inl AttributeError, st)
             | Some t \<Rightarrow> (Inr (), set_cbody i (CHistory (update_history t w cfg h))
                 (set_config cfg (\<lambda>c. c\<lparr>co_cost := Some (Some 0)\<rparr>) st)))
         | CFallback memory \<Rightarrow>
             (Inr (), set_cbody i (CFallback (memory((t_str (str_target tgt), w) \<mapsto> cfg))) st)
         | CGraph records counter cfgs \<Rightarrow>
             (Inr (), set_cbody i (CGraph records counter (cfgs((t_str (str_target tgt), w) \<mapsto> cfg))) st)))"

text \<open>\<open>clear_fallback_cache\<close> walks to the base, within a number of steps.\<close>

fun clear_fallback_cache :: "nat \<Rightarrow> string \<Rightarrow> pyval \<Rightarrow> nat option \<Rightarrow> 'c cstate \<Rightarrow> unit res \<times> 'c cstate" where
  "clear_fallback_cache 0 tgt w i st = (Inl OutOfFuel, st)"
| "clear_fallback_cache (Suc n) tgt w i st = (case ctx_at st i of
       None \<Rightarrow> (Inl AttributeError, st)
     | Some c \<Rightarrow> (case cc_body c of
           CFallback memory \<Rightarrow> (Inr (), set_cbody (the i) (CFallback (memory((tgt, w) := None))) st)
         | _ \<Rightarrow> clear_fallback_cache n tgt w (cc_old c) st))"

definition new_cctx :: "cbody \<Rightarrow> 'c cstate \<Rightarrow> nat \<times> 'c cstate" where
  "new_cctx b st = (length (cx_ctxs st), st\<lparr>cx_ctxs := cx_ctxs st @ [\<lparr>cc_old = cx_current st, cc_body = b\<rparr>]\<rparr>)"

definition enter_cctx :: "nat \<Rightarrow> 'c cstate \<Rightarrow> 'c cstate" where
  "enter_cctx i st = st\<lparr>cx_ctxs := (cx_ctxs st)[i := (cx_ctxs st ! i)\<lparr>cc_old := cx_current st\<rparr>], cx_current := Some i\<rparr>"

definition leave_cctx :: "nat \<Rightarrow> 'c cstate \<Rightarrow> 'c cstate" where
  "leave_cctx i st = st\<lparr>cx_current := cc_old (cx_ctxs st ! i)\<rparr>"

definition new_history_context :: "(pyval \<Rightarrow> pyval) \<Rightarrow> trecord list \<Rightarrow> 'c cstate \<Rightarrow> nat res \<times> 'c cstate" where
  "new_history_context simplify records st = (case load_config_log simplify records empty_log of
       (Inl e, _) \<Rightarrow> (Inl e, st)
     | (Inr _, h) \<Rightarrow> (let (i, st) = new_cctx (CHistory h) st in (Inr i, st)))"

definition new_graph_context :: "trecord list \<Rightarrow> 'c cstate \<Rightarrow> nat \<times> 'c cstate" where
  "new_graph_context records = new_cctx (CGraph records 0 Map.empty)"

definition init_cstate :: "'c cstate" where
  "init_cstate = \<lparr>cx_ctxs = [\<lparr>cc_old = None, cc_body = CFallback Map.empty\<rparr>], cx_current = Some 0,
     cx_configs = [], cx_warned = {}, cx_silent = False\<rparr>"

text \<open>\<open>with ApplyConfig(cfg): body\<close>; the context is left on every way out.\<close>

definition with_config :: "nat \<Rightarrow> ('c cstate, 'a) sx \<Rightarrow> ('c cstate, 'a) sx" where
  "with_config cfg body = (\<lambda>st.
     let (i, st1) = new_cctx (CApplyConfig cfg None) st; (r, st2) = body (enter_cctx i st1) in (r, leave_cctx i st2))"

section \<open>What a log says\<close>

text \<open>The usable records of a log for a model, or for a target key, and a workload.\<close>

definition time_of :: "trecord \<Rightarrow> rat" where
  "time_of r = sumlist (tr_costs (snd r)) / of_nat (length (tr_costs (snd r)))"

definition for_workload :: "(pyval \<Rightarrow> pyval) \<Rightarrow> pyval \<Rightarrow> trecord \<Rightarrow> bool" where
  "for_workload simplify w r \<longleftrightarrow> tr_error_no (snd r) = 0 \<and> input_workload simplify (fst r) = Inr w"

definition model_records :: "(pyval \<Rightarrow> pyval) \<Rightarrow> trecord list \<Rightarrow> string \<Rightarrow> pyval \<Rightarrow> trecord list" where
  "model_records simplify rs m w =
     filter (\<lambda>r. for_workload simplify w r \<and> m \<noteq> ''unknown'' \<and> t_model (in_target (fst r)) = m) rs"

definition key_records :: "(pyval \<Rightarrow> pyval) \<Rightarrow> trecord list \<Rightarrow> string \<Rightarrow> pyval \<Rightarrow> trecord list" where
  "key_records simplify rs k w = filter (\<lambda>r. for_workload simplify w r \<and> k \<in> set (t_keys (in_target (fst r)))) rs"

text \<open>A successful record has costs, a workload, and a target without repeated keys.\<close>

definition loadable :: "(pyval \<Rightarrow> pyval) \<Rightarrow> trecord \<Rightarrow> bool" where
  "loadable simplify r \<longleftrightarrow> tr_error_no (snd r) = 0 \<longrightarrow>
     tr_costs (snd r) \<noteq> [] \<and> (\<exists>w. input_workload simplify (fst r) = Inr w) \<and> distinct (t_keys (in_target (fst r)))"

context best_table
begin

lemma keep1_fold_cong:
  assumes "\<And>w v. w \<in> S \<Longrightarrow> v \<in> S \<Longrightarrow> bad w v = bad' w v" "set vs \<subseteq> S" "p \<in> insert None (Some ` S)"
  shows "fold (keep1 bad) vs p = fold (keep1 bad') vs p"
  using assms(2,3)
proof (induction vs arbitrary: p)
  case (Cons v vs)
  then have "keep1 bad v p = keep1 bad' v p" "keep1 bad v p \<in> insert None (Some ` S)"
    using assms(1) by (auto simp: keep1_def split: option.splits)
  then show ?case using Cons.IH [of "keep1 bad v p"] Cons.prems by simp
qed simp

end

text \<open>The tables of a log are dictionaries.\<close>

interpretation log_table: best_table "map_of :: (string \<times> pyval, trecord) dict \<Rightarrow> _" AList.update
  by unfold_locales (simp add: update_conv)

abbreviation worse_record :: "trecord \<Rightarrow> trecord \<Rightarrow> bool" where
  "worse_record old new \<equiv> cost_gt (mean_costs (snd old)) (mean_costs (snd new))"

lemma offer_keep: "offer_record True key r d = log_table.keep worse_record (key, r) d"
  by (simp add: offer_record_def log_table.keep_def split: option.split prod.split)

definition key_items :: "(pyval \<Rightarrow> pyval) \<Rightarrow> trecord \<Rightarrow> ((string \<times> pyval) \<times> trecord) list" where
  "key_items simplify r = (if tr_error_no (snd r) \<noteq> 0 then [] else case input_workload simplify (fst r) of
       Inl _ \<Rightarrow> [] | Inr w \<Rightarrow> [((k, w), r). k \<leftarrow> t_keys (in_target (fst r))])"

definition model_items :: "(pyval \<Rightarrow> pyval) \<Rightarrow> trecord \<Rightarrow> ((string \<times> pyval) \<times> trecord) list" where
  "model_items simplify r = (if tr_error_no (snd r) \<noteq> 0 \<or> t_model (in_target (fst r)) = ''unknown'' then []
     else case input_workload simplify (fst r) of
       Inl _ \<Rightarrow> [] | Inr w \<Rightarrow> [((t_model (in_target (fst r)), w), r)])"

lemma load_keys:
  assumes "input_workload simplify (fst r) = Inr w"
  shows "forS (load_target_key simplify r) ks h =
    (Inr (), h\<lparr>bl_by_targetkey := fold (log_table.keep worse_record) [((k, w), r). k \<leftarrow> ks] (bl_by_targetkey h)\<rparr>)"
proof (induction ks arbitrary: h)
  case (Cons k ks)
  have "load_target_key simplify r k h = (Inr (), h\<lparr>bl_by_targetkey := offer_record True (k, w) r (bl_by_targetkey h)\<rparr>)"
    using assms by (simp add: load_target_key_def bindS_def)
  then show ?case using Cons by (simp add: thenS_run(1) offer_keep)
qed simp

lemma offer_unknown:
  "\<forall>w. map_of d (''unknown'', w) = None \<Longrightarrow> offer_record (m \<noteq> ''unknown'') (m, w) r d =
    fold (log_table.keep worse_record) (if m = ''unknown'' then [] else [((m, w), r)]) d"
  by (auto simp: offer_record_def log_table.keep_def split: option.split prod.split)

lemma load_one:
  assumes "loadable simplify r" "\<forall>w. map_of (bl_by_model h) (''unknown'', w) = None"
  shows "load_config_record simplify r h =
    (Inr (), h\<lparr>bl_by_targetkey := fold (log_table.keep worse_record) (key_items simplify r) (bl_by_targetkey h),
               bl_by_model := fold (log_table.keep worse_record) (model_items simplify r) (bl_by_model h)\<rparr>)"
proof (cases "tr_error_no (snd r) = 0")
  case True
  then obtain w where w: "input_workload simplify (fst r) = Inr w" using assms(1) by (auto simp: loadable_def)
  show ?thesis
    using True w assms(2)
    by (simp add: load_config_record_def thenS_run(1) [OF load_keys [OF w]] bindS_def Let_def key_items_def
      model_items_def offer_unknown)
qed (simp add: load_config_record_def key_items_def model_items_def)

lemma model_items_known: "\<forall>w. map_of d (''unknown'', w) = None \<Longrightarrow>
    map_of (fold (log_table.keep worse_record) (model_items simplify r) d) (''unknown'', w) = None"
  by (auto simp: model_items_def log_table.find_keep split: sum.split)

lemma load_all:
  assumes "\<forall>r\<in>set rs. loadable simplify r" "\<forall>w. map_of (bl_by_model h) (''unknown'', w) = None"
  shows "load_config_log simplify rs h =
    (Inr (), h\<lparr>bl_by_targetkey := fold (log_table.keep worse_record) (concat (map (key_items simplify) rs)) (bl_by_targetkey h),
               bl_by_model := fold (log_table.keep worse_record) (concat (map (model_items simplify) rs)) (bl_by_model h)\<rparr>)"
  using assms unfolding load_config_log_def
proof (induction rs arbitrary: h)
  case (Cons r rs)
  have r: "loadable simplify r" using Cons.prems by simp
  show ?case using Cons.IH Cons.prems model_items_known by (simp add: thenS_run(1) [OF load_one [OF r]])
qed simp

lemma key_items_of:
  assumes "loadable simplify r"
  shows "[snd kv. kv \<leftarrow> key_items simplify r, fst kv = (k, w)] =
    (if for_workload simplify w r \<and> k \<in> set (t_keys (in_target (fst r))) then [r] else [])"
proof -
  have "distinct ks \<Longrightarrow> [snd kv. kv \<leftarrow> [((k, w'), r). k \<leftarrow> ks], fst kv = (k, w)] = (if w' = w \<and> k \<in> set ks then [r] else [])"
    for ks w' by (induction ks) auto
  then show ?thesis using assms by (auto simp: key_items_def for_workload_def loadable_def split: sum.split)
qed

lemma model_items_of:
  "[snd kv. kv \<leftarrow> model_items simplify r, fst kv = (m, w)] =
    (if for_workload simplify w r \<and> m \<noteq> ''unknown'' \<and> t_model (in_target (fst r)) = m then [r] else [])"
  by (auto simp: model_items_def for_workload_def split: sum.split)

lemma items_of_records:
  assumes "\<forall>r\<in>set rs. loadable simplify r"
  shows "[snd kv. kv \<leftarrow> concat (map (key_items simplify) rs), fst kv = (k, w)] = key_records simplify rs k w"
    and "[snd kv. kv \<leftarrow> concat (map (model_items simplify) rs), fst kv = (m, w)] = model_records simplify rs m w"
  using assms
  by (induction rs) (simp_all add: key_items_of model_items_of key_records_def model_records_def)

lemma table_earliest:
  assumes "\<forall>r\<in>set vs. tr_costs (snd r) \<noteq> []"
  shows "earliest_best time_of vs (fold (log_table.keep1 worse_record) vs None)"
proof -
  have "cost_gt (mean_costs (snd w)) (mean_costs (snd v)) = (time_of v < time_of w)" if "w \<in> set vs" "v \<in> set vs" for w v
    using that assms by (auto simp: mean_costs_def np_mean_def time_of_def)
  then have "fold (log_table.keep1 worse_record) vs None = fold (log_table.keep1 (\<lambda>w v. time_of v < time_of w)) vs None"
    by (intro log_table.keep1_fold_cong [of "set vs"]) auto
  then show ?thesis using log_table.keep1_earliest by simp
qed

lemma records_have_costs:
  assumes "\<forall>r\<in>set rs. loadable simplify r"
  shows "\<forall>r\<in>set (key_records simplify rs k w). tr_costs (snd r) \<noteq> []"
    and "\<forall>r\<in>set (model_records simplify rs m w). tr_costs (snd r) \<noteq> []"
  using assms by (auto simp: key_records_def model_records_def for_workload_def loadable_def)

text \<open>The best record that a query of a freshly loaded log can find, by a key or by a model.\<close>

definition best_for_key :: "(pyval \<Rightarrow> pyval) \<Rightarrow> trecord list \<Rightarrow> pyval \<Rightarrow> string \<Rightarrow> trecord option" where
  "best_for_key simplify rs w k = fold (log_table.keep1 worse_record) (key_records simplify rs k w) None"

definition best_for_model :: "(pyval \<Rightarrow> pyval) \<Rightarrow> trecord list \<Rightarrow> pyval \<Rightarrow> string \<Rightarrow> trecord option" where
  "best_for_model simplify rs w m = fold (log_table.keep1 worse_record) (model_records simplify rs m w) None"

lemma loaded_log:
  assumes "\<forall>r\<in>set rs. loadable simplify r"
  shows "\<exists>h. load_config_log simplify rs empty_log = (Inr (), h) \<and> bl_user h = [] \<and>
    (\<forall>k w. map_of (bl_by_targetkey h) (k, w) = best_for_key simplify rs w k) \<and>
    (\<forall>m w. map_of (bl_by_model h) (m, w) = best_for_model simplify rs w m)"
  using load_all [OF assms, of empty_log]
  by (simp add: empty_log_def log_table.find_keep_fold items_of_records [OF assms] best_for_key_def best_for_model_def)

lemma match_keys_first:
  "bl_user h = [] \<Longrightarrow> match_config_keys h w ks =
    map_option (\<lambda>r. in_config (fst r)) (first_some (map (\<lambda>k. map_of (bl_by_targetkey h) (k, w)) ks))"
  by (induction ks) (auto simp: match_config_def split: option.split)

text \<open>
  C21. A history context that was loaded from a log and not updated since answers a query for a target
  with the configuration of the earliest record of least mean time: among the records for the
  target's model and the workload, if there are any and the model is known, else among those for the
  first key of the target that has any for the workload. Failed measurements do not count. Without a
  record it passes the query on, and without a target it raises \<open>RuntimeError\<close>.
\<close>

theorem log_answers_best:
  assumes "\<forall>r\<in>set rs. loadable simplify r"
  shows "\<exists>h by_model by_key. load_config_log simplify rs empty_log = (Inr (), h) \<and>
    earliest_best time_of (model_records simplify rs (t_model t) w) by_model \<and>
    (\<forall>k. earliest_best time_of (key_records simplify rs k w) (by_key k)) \<and>
    history_config (Some t) w h =
      Inr (map_option (\<lambda>r. in_config (fst r)) (first_some (by_model # map by_key (t_keys t)))) \<and>
    history_config None w h = Inl RuntimeError"
proof -
  obtain h where h: "load_config_log simplify rs empty_log = (Inr (), h)" "bl_user h = []"
    "\<And>k w. map_of (bl_by_targetkey h) (k, w) = best_for_key simplify rs w k"
    "\<And>m w. map_of (bl_by_model h) (m, w) = best_for_model simplify rs w m"
    using loaded_log [OF assms] by blast
  have "history_config (Some t) w h = Inr (map_option (\<lambda>r. in_config (fst r))
      (first_some (best_for_model simplify rs w (t_model t) # map (best_for_key simplify rs w) (t_keys t))))"
    using h(2,3,4) by (auto simp: history_config_def match_config_def match_keys_first split: option.split)
  moreover have "earliest_best time_of (model_records simplify rs m w) (best_for_model simplify rs w m)" for m
    using table_earliest [OF records_have_costs(2) [OF assms]] by (simp add: best_for_model_def)
  moreover have "earliest_best time_of (key_records simplify rs k w) (best_for_key simplify rs w k)" for k
    using table_earliest [OF records_have_costs(1) [OF assms]] by (simp add: best_for_key_def)
  ultimately show ?thesis using h(1) by (auto simp: history_config_def)
qed

section \<open>Chains of contexts\<close>

definition history_at :: "'c cstate \<Rightarrow> nat \<Rightarrow> best_log option" where
  "history_at st i = Option.bind (ctx_at st (Some i)) (\<lambda>c. case cc_body c of CHistory h \<Rightarrow> Some h | _ \<Rightarrow> None)"

fun config_chain :: "'c cstate \<Rightarrow> nat option \<Rightarrow> nat list \<Rightarrow> nat \<Rightarrow> bool" where
  "config_chain st i [] base = (i = Some base \<and> base < length (cx_ctxs st) \<and> history_at st base = None)"
| "config_chain st i (h # hs) base =
     (i = Some h \<and> history_at st h \<noteq> None \<and> config_chain st (cc_old (cx_ctxs st ! h)) hs base)"

definition config_hit :: "target \<Rightarrow> pyval \<Rightarrow> 'c cstate \<Rightarrow> nat \<Rightarrow> nat option" where
  "config_hit t w st i = Option.bind (history_at st i) (\<lambda>h. case history_config (Some t) w h of
     Inr r \<Rightarrow> r | Inl _ \<Rightarrow> None)"

lemma history_config_total: "\<exists>r. history_config (Some t) w h = Inr r"
  by (simp add: history_config_def)

lemma history_at_iff: "history_at st i = Some h \<longleftrightarrow> i < length (cx_ctxs st) \<and> cc_body (cx_ctxs st ! i) = CHistory h"
  by (auto simp: history_at_def ctx_at_def split: cbody.splits)

lemma query_history_ctx:
  assumes "history_at st i = Some h"
  shows "query_config (Suc depth) fb simplify shw (Some t) w (Some i) st =
    (case config_hit t w st i of
       Some cfg \<Rightarrow> (Inr cfg, st)
     | None \<Rightarrow> query_config depth fb simplify shw (Some t) w (cc_old (cx_ctxs st ! i)) st)"
proof -
  obtain r where "history_config (Some t) w h = Inr r" using history_config_total by blast
  moreover have "i < length (cx_ctxs st)" "cc_body (cx_ctxs st ! i) = CHistory h"
    using assms by (simp_all add: history_at_iff)
  ultimately show ?thesis using assms by (simp add: config_hit_def ctx_at_def split: option.split)
qed

lemma query_walks:
  assumes "config_chain st i hs base" "length hs < depth"
  shows "\<exists>d. query_config depth fb simplify shw (Some t) w i st =
      (case first_some (map (config_hit t w st) hs) of
         Some cfg \<Rightarrow> (Inr cfg, st)
       | None \<Rightarrow> query_config (Suc d) fb simplify shw (Some t) w (Some base) st)"
  using assms
proof (induction hs arbitrary: i depth)
  case Nil
  then show ?case by (cases depth) auto
next
  case (Cons j hs)
  then obtain d where d: "depth = Suc d" by (cases depth) auto
  obtain h where h: "history_at st j = Some h" "i = Some j" using Cons.prems(1) by auto
  have "config_chain st (cc_old (cx_ctxs st ! j)) hs base" "length hs < d" using Cons.prems d by auto
  from Cons.IH [OF this] show ?case
    unfolding h(2) d query_history_ctx [OF h(1)] by (cases "config_hit t w st j") simp_all
qed

text \<open>A base may remember something; the histories above it do not change.\<close>

definition same_above :: "nat \<Rightarrow> 'c cstate \<Rightarrow> 'c cstate \<Rightarrow> bool" where
  "same_above base st st' \<longleftrightarrow> length (cx_ctxs st') = length (cx_ctxs st) \<and> history_at st' base = None \<and>
     (\<forall>j. j \<noteq> base \<longrightarrow> cx_ctxs st' ! j = cx_ctxs st ! j)"

lemma chain_same_above:
  assumes "same_above base st st'" "history_at st base = None" "config_chain st i hs base"
  shows "config_chain st' i hs base \<and> map (config_hit t w st') hs = map (config_hit t w st) hs"
  using assms(3)
proof (induction hs arbitrary: i)
  case Nil
  then show ?case using assms(1) by (auto simp: same_above_def)
next
  case (Cons j hs)
  then have "j \<noteq> base" using assms(2) by auto
  then have "history_at st' j = history_at st j" "cx_ctxs st' ! j = cx_ctxs st ! j"
    using assms(1) by (simp_all add: same_above_def history_at_def ctx_at_def)
  then show ?case using Cons by (auto simp: config_hit_def)
qed

text \<open>What a base context answers: a fixed configuration, or a fallback that is kept for next time.\<close>

definition base_config :: "target \<Rightarrow> pyval \<Rightarrow> 'c cstate \<Rightarrow> nat \<Rightarrow> nat option" where
  "base_config t w st base = Option.bind (ctx_at st (Some base)) (\<lambda>c. case cc_body c of
       CApplyConfig cfg _ \<Rightarrow> Some cfg
     | CFallback memory \<Rightarrow> Some (case memory (t_str t, w) of Some cfg \<Rightarrow> cfg | None \<Rightarrow> length (cx_configs st))
     | _ \<Rightarrow> None)"

lemma base_answers:
  assumes "base_config t w st base = Some b"
  shows "\<exists>st'. query_config (Suc d) fb simplify shw (Some t) w (Some base) st = (Inr b, st') \<and>
    same_above base st st' \<and> base_config t w st' base = Some b \<and> history_at st base = None"
proof -
  have c: "base < length (cx_ctxs st)" using assms by (auto simp: base_config_def ctx_at_def split: if_splits)
  show ?thesis
  proof (cases "cc_body (cx_ctxs st ! base)")
    case (CFallback memory)
    then show ?thesis using c assms
      by (cases "memory (t_str t, w)")
        (auto simp: base_config_def ctx_at_def history_at_def fallback_config_def Let_def new_config_def
          set_cbody_def same_above_def str_target_def)
  qed (use c assms in \<open>auto simp: base_config_def ctx_at_def history_at_def set_cbody_def same_above_def\<close>)
qed

text \<open>
  A query returns whenever the contexts below the current one are histories down to a context with
  one configuration or a fallback, and the recursion limit is above their number. The answer is that
  of the innermost history with a hit. When there is none it is what the base answers: its
  configuration, what the fallback remembers, or a fresh fallback configuration. Asking again gives
  the same configuration object.
\<close>

lemma config_query_chain:
  assumes "config_chain st i hs base" "length hs < depth" "base_config t w st base = Some b"
  shows "\<exists>st'. query_config depth fb simplify shw (Some t) w i st =
      (Inr (case first_some (map (config_hit t w st) hs) of Some cfg \<Rightarrow> cfg | None \<Rightarrow> b), st') \<and>
    fst (query_config depth fb simplify shw (Some t) w i st') =
      Inr (case first_some (map (config_hit t w st) hs) of Some cfg \<Rightarrow> cfg | None \<Rightarrow> b)"
proof (cases "first_some (map (config_hit t w st) hs)")
  case (Some cfg)
  then show ?thesis using query_walks [OF assms(1,2), of fb simplify shw t w] by auto
next
  case None
  obtain d where d: "query_config depth fb simplify shw (Some t) w i st =
      query_config (Suc d) fb simplify shw (Some t) w (Some base) st"
    using query_walks [OF assms(1,2), of fb simplify shw t w] None by auto
  obtain st' where st': "query_config (Suc d) fb simplify shw (Some t) w (Some base) st = (Inr b, st')"
    "same_above base st st'" "base_config t w st' base = Some b" "history_at st base = None"
    using base_answers [OF assms(3)] by blast
  have same: "config_chain st' i hs base" "map (config_hit t w st') hs = map (config_hit t w st) hs"
    using chain_same_above [OF st'(2,4) assms(1)] by blast+
  then obtain d' where "query_config depth fb simplify shw (Some t) w i st' =
      query_config (Suc d') fb simplify shw (Some t) w (Some base) st'"
    using query_walks [OF same(1) assms(2), of fb simplify shw t w] unfolding same(2) None option.case by blast
  moreover have "fst (query_config (Suc d') fb simplify shw (Some t) w (Some base) st') = Inr b"
    using base_answers [OF st'(3), of d' fb simplify shw] by auto
  ultimately show ?thesis using d st'(1) None by simp
qed

section \<open>Updates\<close>

lemma user_updated: "map_of (bl_user (update_history t w cfg h)) (k, w') =
    (if w' = w \<and> k \<in> insert (t_model t) (set (t_keys t)) then Some cfg else map_of (bl_user h) (k, w'))"
proof -
  have "map_of (fold (\<lambda>k. AList.update (k, w) cfg) ks d) (k, w') =
      (if w' = w \<and> k \<in> set ks then Some cfg else map_of d (k, w'))" for ks and d :: "(string \<times> pyval, nat) dict"
    by (induction ks arbitrary: d) (auto simp: update_conv')
  then show ?thesis by (auto simp: update_history_def update_conv')
qed

text \<open>
  What a history context answers after \<open>update\<close>: the new configuration for its workload and every
  target with the model or one of the keys that were updated, unless the target's own model or an
  earlier one of its keys has an answer already, which goes first; everything else is unchanged. In
  particular the target that was updated gets it, and the configuration counts as measured at cost 0.
\<close>

lemma update_goes_first:
  "history_config (Some t') w' (update_history t w cfg h) = Inr (first_some
     (map (\<lambda>(k, table). if w' = w \<and> k \<in> insert (t_model t) (set (t_keys t)) then Some cfg else match_config h table (k, w'))
       ((t_model t', bl_by_model h) # map (\<lambda>k. (k, bl_by_targetkey h)) (t_keys t'))))"
  (is "_ = Inr (first_some (map ?f _))")
proof -
  have m: "match_config (update_history t w cfg h) table (k, w') = ?f (k, table)" for k table
    by (auto simp: match_config_def user_updated)
  have "match_config_keys (update_history t w cfg h) w' ks = first_some (map (\<lambda>k. ?f (k, bl_by_targetkey h)) ks)" for ks
  proof (induction ks)
    case (Cons k ks)
    have "bl_by_targetkey (update_history t w cfg h) = bl_by_targetkey h" by (simp add: update_history_def)
    then have e: "match_config_keys (update_history t w cfg h) w' (k # ks) =
        (case ?f (k, bl_by_targetkey h) of Some c \<Rightarrow> Some c | None \<Rightarrow> match_config_keys (update_history t w cfg h) w' ks)"
      by (simp only: match_config_keys.simps m)
    show ?case unfolding e Cons.IH list.map by (cases "?f (k, bl_by_targetkey h)") (simp_all only: option.case first_some.simps)
  qed simp
  moreover have "bl_by_model (update_history t w cfg h) = bl_by_model h" by (simp add: update_history_def)
  ultimately have "history_config (Some t') w' (update_history t w cfg h) = Inr (case ?f (t_model t', bl_by_model h) of
      Some c \<Rightarrow> Some c | None \<Rightarrow> first_some (map (\<lambda>k. ?f (k, bl_by_targetkey h)) (t_keys t')))"
    by (simp only: history_config_def option.case m)
  then show ?thesis
    by (cases "?f (t_model t', bl_by_model h)") (simp_all only: list.map map_map comp_def option.case first_some.simps)
qed

section \<open>Records in the order of the graph\<close>

text \<open>Asking a context for one workload after the other.\<close>

fun ask_all ::
  "'c \<Rightarrow> (pyval \<Rightarrow> pyval) \<Rightarrow> (pyval \<Rightarrow> string) \<Rightarrow> target \<Rightarrow> nat \<Rightarrow> pyval list \<Rightarrow> 'c cstate \<Rightarrow> nat list res \<times> 'c cstate" where
  "ask_all fb simplify shw t i [] st = (Inr [], st)"
| "ask_all fb simplify shw t i (w # ws) st = (case query_config 1 fb simplify shw (Some t) w (Some i) st of
       (Inl e, st) \<Rightarrow> (Inl e, st)
     | (Inr cfg, st) \<Rightarrow> (case ask_all fb simplify shw t i ws st of
           (Inl e, st) \<Rightarrow> (Inl e, st) | (Inr cfgs, st) \<Rightarrow> (Inr (cfg # cfgs), st)))"

definition asks_for :: "(pyval \<Rightarrow> pyval) \<Rightarrow> pyval \<Rightarrow> trecord \<Rightarrow> bool" where
  "asks_for simplify w r \<longleftrightarrow> (w = VNone \<or> input_workload simplify (fst r) = Inr w) \<and>
     (\<exists>w. input_workload simplify (fst r) = Inr w)"

text \<open>The configuration of the last record with a workload.\<close>

definition last_config :: "(pyval \<Rightarrow> pyval) \<Rightarrow> trecord list \<Rightarrow> pyval \<Rightarrow> nat option" where
  "last_config simplify rs w =
     map_option (\<lambda>r. in_config (fst r)) (find (\<lambda>r. input_workload simplify (fst r) = Inr w) (rev rs))"

text \<open>The context at an address has answered the first \<open>n\<close> records, all for one target.\<close>

definition graph_at :: "(pyval \<Rightarrow> pyval) \<Rightarrow> target \<Rightarrow> nat \<Rightarrow> trecord list \<Rightarrow> nat \<Rightarrow> 'c cstate \<Rightarrow> bool" where
  "graph_at simplify t i rs n st \<longleftrightarrow> i < length (cx_ctxs st) \<and> (\<exists>cfgs. cc_body (cx_ctxs st ! i) = CGraph rs n cfgs \<and>
     (\<forall>w. cfgs (t_str t, w) = last_config simplify (take n rs) w))"

lemma graph_step:
  assumes "graph_at simplify t i rs n st" "n < length rs" "asks_for simplify w (rs ! n)"
  shows "\<exists>st'. query_config (Suc d) fb simplify shw (Some t) w (Some i) st = (Inr (in_config (fst (rs ! n))), st') \<and>
    graph_at simplify t i rs (Suc n) st' \<and> length (cx_configs st') = length (cx_configs st)"
proof -
  obtain wkl where w: "input_workload simplify (fst (rs ! n)) = Inr wkl" "w = VNone \<or> w = wkl"
    using assms(3) by (auto simp: asks_for_def)
  obtain cfgs where c: "i < length (cx_ctxs st)" "cc_body (cx_ctxs st ! i) = CGraph rs n cfgs"
    "\<forall>w. cfgs (t_str t, w) = last_config simplify (take n rs) w"
    using assms(1) by (auto simp: graph_at_def)
  have "last_config simplify (take (Suc n) rs) v =
      (if v = wkl then Some (in_config (fst (rs ! n))) else last_config simplify (take n rs) v)" for v
    using assms(2) w(1) by (simp add: last_config_def take_Suc_conv_app_nth)
  then show ?thesis using c w assms(2)
    by (auto simp: ctx_at_def str_target_def graph_config_def Let_def graph_at_def set_config_def set_cbody_def)
qed

lemma graph_mismatch:
  assumes "graph_at simplify t i rs n st" "n < length rs" "input_workload simplify (fst (rs ! n)) = Inr wkl"
    "w \<noteq> VNone" "w \<noteq> wkl"
  shows "query_config (Suc d) fb simplify shw (Some t) w (Some i) st = (Inl AssertionError, st)"
  using assms by (auto simp: graph_at_def ctx_at_def graph_config_def Let_def)

lemma graph_after:
  assumes "graph_at simplify t i rs n st" "length rs \<le> n"
  shows "fst (query_config (Suc d) fb simplify shw (Some t) w (Some i) st) =
    Inr (case last_config simplify rs w of Some cfg \<Rightarrow> cfg | None \<Rightarrow> length (cx_configs st))"
proof -
  obtain cfgs where "i < length (cx_ctxs st)" "cc_body (cx_ctxs st ! i) = CGraph rs n cfgs"
    "cfgs (t_str t, w) = last_config simplify rs w"
    using assms by (auto simp: graph_at_def)
  then show ?thesis using assms(2)
    by (simp add: ctx_at_def str_target_def graph_config_def new_config_def Let_def split: option.split)
qed

text \<open>
  A context with the records of the graph tuner answers one query per record, in order, with the
  record's configuration, as long as each asks for the record's workload or for none. The next query
  out of order raises \<open>AssertionError\<close> and changes nothing. After the last record a workload gets the
  configuration of its last record, or a fallback.
\<close>

lemma graph_answers_in_order:
  assumes "new_graph_context rs st0 = (i, st)" "n \<le> length rs" "length ws = n"
    and "\<forall>k<n. asks_for simplify (ws ! k) (rs ! k)"
  shows "\<exists>st'. ask_all fb simplify shw t i ws st = (Inr (map (\<lambda>r. in_config (fst r)) (take n rs)), st') \<and>
    (\<forall>w wkl. n < length rs \<longrightarrow> input_workload simplify (fst (rs ! n)) = Inr wkl \<longrightarrow> w \<noteq> VNone \<longrightarrow> w \<noteq> wkl \<longrightarrow>
       query_config 1 fb simplify shw (Some t) w (Some i) st' = (Inl AssertionError, st')) \<and>
    (n = length rs \<longrightarrow> (\<forall>w. fst (query_config 1 fb simplify shw (Some t) w (Some i) st') =
       Inr (case last_config simplify rs w of Some cfg \<Rightarrow> cfg | None \<Rightarrow> length (cx_configs st0))))"
proof -
  have start: "graph_at simplify t i rs 0 st" "length (cx_configs st) = length (cx_configs st0)"
    using assms(1) by (auto simp: new_graph_context_def new_cctx_def graph_at_def last_config_def)
  have run: "\<exists>st'. ask_all fb simplify shw t i ws st = (Inr (map (\<lambda>r. in_config (fst r)) (take (length ws) (drop k rs))), st') \<and>
      graph_at simplify t i rs (k + length ws) st' \<and> length (cx_configs st') = length (cx_configs st)"
    if "graph_at simplify t i rs k st" "k + length ws \<le> length rs" "\<forall>j<length ws. asks_for simplify (ws ! j) (rs ! (k + j))"
    for k ws and st :: "'a cstate"
    using that
  proof (induction ws arbitrary: k st)
    case (Cons w ws)
    have k: "k < length rs" "asks_for simplify w (rs ! k)" using Cons.prems(2,3) by auto
    obtain st1 where st1: "query_config 1 fb simplify shw (Some t) w (Some i) st = (Inr (in_config (fst (rs ! k))), st1)"
      "graph_at simplify t i rs (Suc k) st1" "length (cx_configs st1) = length (cx_configs st)"
      using graph_step [OF Cons.prems(1) k, of 0 fb shw] by auto
    have "\<forall>j<length ws. asks_for simplify (ws ! j) (rs ! (Suc k + j))" using Cons.prems(3) by force
    then obtain st2 where st2: "ask_all fb simplify shw t i ws st1 =
        (Inr (map (\<lambda>r. in_config (fst r)) (take (length ws) (drop (Suc k) rs))), st2)"
      "graph_at simplify t i rs (Suc k + length ws) st2" "length (cx_configs st2) = length (cx_configs st1)"
      using Cons.IH [OF st1(2)] Cons.prems(2) by auto
    have "take (Suc (length ws)) (drop k rs) = rs ! k # take (length ws) (drop (Suc k) rs)"
      using k(1) by (simp add: Cons_nth_drop_Suc [symmetric])
    then show ?case using st1 st2 by simp
  qed simp
  obtain st' where st': "ask_all fb simplify shw t i ws st = (Inr (map (\<lambda>r. in_config (fst r)) (take n rs)), st')"
    "graph_at simplify t i rs n st'" "length (cx_configs st') = length (cx_configs st0)"
    using run [OF start(1), of ws] assms(2-4) start(2) by auto
  have one: "query_config 1 = query_config (Suc 0)" by simp
  have "fst (query_config 1 fb simplify shw (Some t) w (Some i) st') =
      Inr (case last_config simplify rs w of Some cfg \<Rightarrow> cfg | None \<Rightarrow> length (cx_configs st0))" if "n = length rs" for w
    using graph_after [OF st'(2), of 0] that unfolding one st'(3) by blast
  then show ?thesis using st'(1) graph_mismatch [OF st'(2), of _ _ 0] unfolding one
    by (intro exI [of _ st']) blast
qed

section \<open>One configuration in force\<close>

text \<open>\<open>get_config\<close> of \<open>task.py\<close>, within the recursion limit.\<close>

definition get_config :: "nat \<Rightarrow> 'c \<Rightarrow> (pyval \<Rightarrow> pyval) \<Rightarrow> (pyval \<Rightarrow> string) \<Rightarrow> target option \<Rightarrow> ('c cstate, nat) sx" where
  "get_config depth fb simplify shw tgt = (\<lambda>st. query_config depth fb simplify shw tgt VNone (cx_current st) st)"

text \<open>Code that leaves the stack as it found it: contexts may be made, but those there keep their outer one.\<close>

definition stack_safe :: "('c cstate, 'a) sx \<Rightarrow> bool" where
  "stack_safe body \<longleftrightarrow> (\<forall>st. let st' = snd (body st) in cx_current st' = cx_current st \<and>
     length (cx_ctxs st) \<le> length (cx_ctxs st') \<and>
     (\<forall>j<length (cx_ctxs st). cc_old (cx_ctxs st' ! j) = cc_old (cx_ctxs st ! j)))"

lemma stack_safeD:
  assumes "stack_safe body"
  shows "cx_current (snd (body st)) = cx_current st" "length (cx_ctxs st) \<le> length (cx_ctxs (snd (body st)))"
    "j < length (cx_ctxs st) \<Longrightarrow> cc_old (cx_ctxs (snd (body st)) ! j) = cc_old (cx_ctxs st ! j)"
  using assms by (auto simp: stack_safe_def Let_def)

lemma stack_safe_bindS:
  assumes "stack_safe m" "\<And>x. stack_safe (f x)"
  shows "stack_safe (bindS m f)"
proof (unfold stack_safe_def, intro allI)
  fix st :: "'a cstate"
  obtain r st1 where m: "m st = (r, st1)" by (cases "m st")
  have 1: "cx_current st1 = cx_current st" "length (cx_ctxs st) \<le> length (cx_ctxs st1)"
    "\<forall>j<length (cx_ctxs st). cc_old (cx_ctxs st1 ! j) = cc_old (cx_ctxs st ! j)"
    using stack_safeD [OF assms(1), where st = st] m by simp_all
  show "let st' = snd (bindS m f st) in cx_current st' = cx_current st \<and> length (cx_ctxs st) \<le> length (cx_ctxs st') \<and>
      (\<forall>j<length (cx_ctxs st). cc_old (cx_ctxs st' ! j) = cc_old (cx_ctxs st ! j))"
  proof (cases r)
    case (Inl e)
    then show ?thesis using m 1 by (simp add: bindS_def)
  next
    case (Inr x)
    then have "snd (bindS m f st) = snd (f x st1)" using m by (simp add: bindS_def)
    then show ?thesis using 1 stack_safeD [OF assms(2) [of x], where st = st1] by (simp add: Let_def)
  qed
qed

lemma cc_old_set: "cc_old (xs[i := (xs ! i)\<lparr>cc_body := b\<rparr>] ! j) = cc_old (xs ! j)"
  by (cases "i < length xs") (auto simp: nth_list_update list_update_beyond)

lemma stack_safe_query: "stack_safe (query_config depth fb simplify shw tgt w i)"
proof -
  have "let st' = snd (query_config depth fb simplify shw tgt w i st) in cx_current st' = cx_current st \<and>
      length (cx_ctxs st) \<le> length (cx_ctxs st') \<and> (\<forall>j<length (cx_ctxs st). cc_old (cx_ctxs st' ! j) = cc_old (cx_ctxs st ! j))"
    for st
  proof (induction depth fb simplify shw tgt w i st rule: query_config.induct)
    case (2 depth fb simplify shw tgt w i st)
    show ?case
    proof (cases "ctx_at st i")
      case (Some c)
      then show ?thesis
        using 2 by (cases "cc_body c")
          (auto simp: Let_def set_cbody_def cc_old_set fallback_config_def graph_config_def new_config_def
            set_config_def split: sum.split option.split prod.split)
    qed simp
  qed simp
  then show ?thesis by (simp add: stack_safe_def)
qed

lemma stack_safe_get_config: "stack_safe (get_config depth fb simplify shw tgt)"
  unfolding stack_safe_def get_config_def
  using stack_safe_query [of depth fb simplify shw tgt VNone] by (auto simp: stack_safe_def Let_def)

lemma stack_safe_with_config:
  assumes "stack_safe body"
  shows "stack_safe (with_config cfg body)"
proof (unfold stack_safe_def, intro allI)
  fix st :: "'a cstate"
  let ?n = "length (cx_ctxs st)"
  let ?st1 = "enter_cctx ?n (snd (new_cctx (CApplyConfig cfg None) st))"
  have 1: "length (cx_ctxs ?st1) = Suc ?n" "cc_old (cx_ctxs ?st1 ! ?n) = cx_current st"
    "\<forall>j<?n. cc_old (cx_ctxs ?st1 ! j) = cc_old (cx_ctxs st ! j)"
    by (simp_all add: new_cctx_def enter_cctx_def nth_append)
  have "snd (with_config cfg body st) = leave_cctx ?n (snd (body ?st1))"
    by (simp add: with_config_def new_cctx_def split: prod.split)
  then show "let st' = snd (with_config cfg body st) in cx_current st' = cx_current st \<and>
      length (cx_ctxs st) \<le> length (cx_ctxs st') \<and>
      (\<forall>j<length (cx_ctxs st). cc_old (cx_ctxs st' ! j) = cc_old (cx_ctxs st ! j))"
    using 1 stack_safeD(2,3) [OF assms, where st = ?st1]
    by (simp add: Let_def leave_cctx_def)
qed

lemma config_in_block:
  fixes st :: "'a cstate" and body :: "nat \<Rightarrow> ('a cstate, 'b) sx"
  shows "with_config cfg (bindS (get_config (Suc d) fb simplify shw tgt) body) st =
     with_config cfg (\<lambda>st. body cfg (set_cbody (length (cx_ctxs st) - 1) (CApplyConfig cfg (Some VNone)) st)) st"
proof -
  let ?st1 = "enter_cctx (length (cx_ctxs st)) (snd (new_cctx (CApplyConfig cfg None) st))"
  have "ctx_at ?st1 (Some (length (cx_ctxs st))) = Some \<lparr>cc_old = cx_current st, cc_body = CApplyConfig cfg None\<rparr>"
    by (simp add: ctx_at_def enter_cctx_def new_cctx_def)
  then have get: "get_config (Suc d) fb simplify shw tgt ?st1 =
      (Inr cfg, set_cbody (length (cx_ctxs st)) (CApplyConfig cfg (Some VNone)) ?st1)"
    by (simp add: get_config_def enter_cctx_def)
  have block: "with_config cfg b st = (case b ?st1 of (r, st2) \<Rightarrow> (r, leave_cctx (length (cx_ctxs st)) st2))"
    for b :: "('a cstate, 'b) sx"
    by (simp add: with_config_def new_cctx_def)
  have "length (cx_ctxs ?st1) - 1 = length (cx_ctxs st)" by (simp add: enter_cctx_def new_cctx_def)
  then show ?thesis
    by (simp only: block bindS_def get prod.case sum.case)
qed

text \<open>
  Inside \<open>with ApplyConfig(cfg)\<close> the code asks for the configuration by \<open>get_config\<close> and gets
  exactly \<open>cfg\<close>, whatever the target and the contexts outside; and when the block is left, by its end
  or by an exception, the context that was current before is current again, however blocks are nested.
\<close>

lemma config_in_force:
  assumes "\<forall>c. stack_safe (body c)"
  shows "with_config cfg (bindS (get_config (Suc d) fb simplify shw tgt) body) st =
      with_config cfg (\<lambda>st. body cfg (set_cbody (length (cx_ctxs st) - 1) (CApplyConfig cfg (Some VNone)) st)) st \<and>
    stack_safe (with_config cfg (bindS (get_config (Suc d) fb simplify shw tgt) body)) \<and>
    stack_safe (with_config cfg (body cfg))"
  using assms by (intro conjI config_in_block stack_safe_with_config stack_safe_bindS stack_safe_get_config) simp_all

section \<open>Instances\<close>

text \<open>A log for a dense layer: a slow record, a failed one, the best one and an equally good later one.\<close>

definition gpu :: target where
  "gpu = \<lparr>t_keys = [''cuda'', ''gpu''], t_model = ''v100'', t_str = ''cuda -model=v100''\<rparr>"

definition dense_input :: "nat \<Rightarrow> tinput" where
  "dense_input cfg = \<lparr>in_target = gpu, in_name = ''dense'', in_args = [VInt 16, VStr ''float32''], in_config = cfg\<rparr>"

definition dense_log :: "trecord list" where
  "dense_log = map (\<lambda>(cfg, err, cs). (dense_input cfg, \<lparr>tr_costs = cs, tr_error_no = err, tr_all_cost = 1, tr_timestamp = 0\<rparr>))
     [(0, 0, [5, 7]), (1, 4, [1]), (2, 0, [3, 4]), (3, 0, [7 / 2])]"

definition dense_workload :: pyval where
  "dense_workload = VTuple [VStr ''dense'', VInt 16, VStr ''float32'']"

lemma dense_loadable: "\<forall>r\<in>set dense_log. loadable id r"
  by (simp add: dense_log_def loadable_def dense_input_def gpu_def input_workload_def task_workload_def serialize_task_args_def)

lemma dense_workload_of: "input_workload id (dense_input cfg) = Inr dense_workload"
  by (simp add: dense_input_def input_workload_def task_workload_def serialize_task_args_def dense_workload_def)

lemma dense_records:
  "model_records id dense_log ''v100'' dense_workload = map (nth dense_log) [0, 2, 3]"
  "w \<noteq> dense_workload \<Longrightarrow> model_records id dense_log m w = [] \<and> key_records id dense_log k w = []"
  by (simp_all add: model_records_def key_records_def dense_log_def for_workload_def dense_workload_of)
    (simp_all add: dense_input_def gpu_def)

lemma dense_best: "earliest_best time_of (map (nth dense_log) [0, 2, 3]) r \<Longrightarrow> map_option (\<lambda>r. in_config (fst r)) r = Some 2"
proof -
  have t: "map time_of (map (nth dense_log) [0, 2, 3]) = [6, 7 / 2, 7 / 2]"
    "map (\<lambda>r. in_config (fst r)) (map (nth dense_log) [0, 2, 3]) = [0, 2, 3]"
    by (simp_all add: dense_log_def time_of_def dense_input_def)
  assume e: "earliest_best time_of (map (nth dense_log) [0, 2, 3]) r"
  then obtain x where x: "r = Some x" by (cases r) (simp_all add: earliest_best_def)
  obtain i where i: "i < length (map (nth dense_log) [0, 2, 3])" "map (nth dense_log) [0, 2, 3] ! i = x"
    "\<forall>y\<in>set (map (nth dense_log) [0, 2, 3]). time_of x \<le> time_of y"
    "\<forall>j<i. time_of x < time_of (map (nth dense_log) [0, 2, 3] ! j)"
    using e unfolding earliest_best_def x option.case by blast
  consider "i = 0" | "i = 1" | "i = 2" using i(1) by fastforce
  then show ?thesis
  proof cases
    case 1
    then show ?thesis using i(2,3) t by auto
  next
    case 2
    then show ?thesis using i(2) t x by auto
  next
    case 3
    then have "time_of (dense_log ! 3) < time_of (dense_log ! 2)" using i(2) spec [OF i(4), of 1] by auto
    then show ?thesis using t by simp
  qed
qed

lemma log_answers_best_witness:
  "\<exists>h. load_config_log id dense_log empty_log = (Inr (), h) \<and> history_config (Some gpu) dense_workload h = Inr (Some 2)"
proof -
  obtain h r rs where h: "load_config_log id dense_log empty_log = (Inr (), h)"
    "earliest_best time_of (model_records id dense_log (t_model gpu) dense_workload) r"
    "history_config (Some gpu) dense_workload h = Inr (map_option (\<lambda>r. in_config (fst r)) (first_some (r # map rs (t_keys gpu))))"
    using log_answers_best [OF dense_loadable, of gpu dense_workload] by blast
  have "map_option (\<lambda>r. in_config (fst r)) r = Some 2"
    using h(2) dense_best by (simp add: dense_records gpu_def)
  then show ?thesis using h(1,3) by (cases r) auto
qed

lemma dense_history_misses:
  assumes "w \<noteq> dense_workload"
  shows "history_config (Some gpu) w (snd (load_config_log id dense_log empty_log)) = Inr None"
proof -
  obtain h where h: "load_config_log id dense_log empty_log = (Inr (), h)" "bl_user h = []"
    "\<And>k w. map_of (bl_by_targetkey h) (k, w) = best_for_key id dense_log w k"
    "\<And>m w. map_of (bl_by_model h) (m, w) = best_for_model id dense_log w m"
    using loaded_log [OF dense_loadable] by blast
  then show ?thesis using assms
    by (simp add: history_config_def match_config_def match_keys_first best_for_key_def best_for_model_def dense_records gpu_def)
qed

text \<open>Two contexts: the log, over the fallback that was there from the start.\<close>

definition two_contexts :: "unit cstate" where
  "two_contexts = (let (r, st) = new_history_context id dense_log init_cstate in enter_cctx 1 st)"

lemma two_contexts_eq: "two_contexts = init_cstate\<lparr>cx_ctxs := [\<lparr>cc_old = None, cc_body = CFallback Map.empty\<rparr>,
    \<lparr>cc_old = Some 0, cc_body = CHistory (snd (load_config_log id dense_log empty_log))\<rparr>], cx_current := Some 1\<rparr>"
proof -
  obtain h where "load_config_log id dense_log empty_log = (Inr (), h)"
    using loaded_log [OF dense_loadable] by blast
  then show ?thesis
    by (simp add: two_contexts_def new_history_context_def new_cctx_def init_cstate_def enter_cctx_def)
qed

end
