(* ===== verification/TuningLogs.thy ===== *)
theory TuningLogs
  imports ConfigContexts ConfigSpace
begin

text \<open>
  The tuning logs of the template-based tuner, \<open>tvm/python/tvm/autotvm/record.py\<close>: rows of the JSON
  protocol, loading a file, splitting a log by workload, and picking the best records. The text of a
  row is behind two parameters, the JSON writer and reader; the pickle protocol is left out.
\<close>

section \<open>Rows\<close>

record 'v log_row =
  lr_target :: string
  lr_name :: string
  lr_args :: "jval list"
  lr_config :: "'v jconfig"
  lr_costs :: "rat list"
  lr_error_no :: int
  lr_all_cost :: rat
  lr_timestamp :: rat

text \<open>A row of version 0.1, recognised by its key \<open>v\<close>, or of the current version.\<close>

datatype 'v row = OldRow | Row "'v log_row"

text \<open>What JSON can write of an argument, and \<open>clean_json_to_python\<close>.\<close>

fun json_arg :: "pyval \<Rightarrow> jval res" where
  "json_arg VNone = Inr JNull"
| "json_arg (VInt n) = Inr (JInt n)"
| "json_arg (VFloat x) = Inr (JFloat x)"
| "json_arg (VStr s) = Inr (JStr s)"
| "json_arg (VTuple xs) = bindR (mapR json_arg xs) (\<lambda>ys. Inr (JList ys))"
| "json_arg (VList xs) = bindR (mapR json_arg xs) (\<lambda>ys. Inr (JList ys))"
| "json_arg _ = Inl TypeError"

fun clean_json_to_python :: "jval \<Rightarrow> pyval" where
  "clean_json_to_python JNull = VNone"
| "clean_json_to_python (JInt n) = VInt n"
| "clean_json_to_python (JFloat x) = VFloat x"
| "clean_json_to_python (JStr s) = VStr s"
| "clean_json_to_python (JList xs) = VTuple (map clean_json_to_python xs)"

definition encode_record :: "(nat \<Rightarrow> 'v config_entity) \<Rightarrow> trecord \<Rightarrow> 'v row res" where
  "encode_record entity = (\<lambda>(inp, res). bindR (mapR json_arg (in_args inp)) (\<lambda>args.
     Inr (Row \<lparr>lr_target = t_str (in_target inp), lr_name = in_name inp, lr_args = args,
       lr_config = to_json_dict (entity (in_config inp)),
       lr_costs = (if tr_error_no res = 0 then tr_costs res else [10 ^ 9]), lr_error_no = tr_error_no res,
       lr_all_cost = tr_all_cost res, lr_timestamp = tr_timestamp res\<rparr>)))"

text \<open>\<open>str.replace\<close> for a pattern that is not empty.\<close>

function (sequential) replace_str :: "string \<Rightarrow> string \<Rightarrow> string \<Rightarrow> string" where
  "replace_str old new [] = []"
| "replace_str old new (c # s) =
     (if old \<noteq> [] \<and> take (length old) (c # s) = old then new @ replace_str old new (drop (length old) (c # s))
      else c # replace_str old new s)"
  by pat_completeness auto
termination
  by (relation "measure (\<lambda>(_, _, s). length s)") (auto simp: neq_Nil_conv)

text \<open>A decoded record: the configuration is a new object, with the mean of the costs as its cost.\<close>

record 'v decoded =
  dc_target :: target
  dc_name :: string
  dc_args :: "pyval list"
  dc_config :: "'v config_entity"
  dc_cost :: cost
  dc_result :: tresult

definition decode_row :: "(string \<Rightarrow> target res) \<Rightarrow> 'v row \<Rightarrow> 'v decoded option res" where
  "decode_row parse_target row = (case row of
       OldRow \<Rightarrow> Inr None
     | Row r \<Rightarrow>
         bindR (parse_target (replace_str ''-target'' ''-mtriple'' (lr_target r))) (\<lambda>tgt.
         bindR (from_json_dict (lr_config r)) (\<lambda>config.
           Inr (Some \<lparr>dc_target = tgt, dc_name = lr_name r, dc_args = map clean_json_to_python (lr_args r),
             dc_config = config, dc_cost = np_mean (lr_costs r),
             dc_result = \<lparr>tr_costs = lr_costs r, tr_error_no = lr_error_no r, tr_all_cost = lr_all_cost r,
               tr_timestamp = lr_timestamp r\<rparr>\<rparr>))))"

text \<open>A line keeps its line break, so that an empty line is not an empty string.\<close>

definition load_from_file ::
  "(string \<Rightarrow> target res) \<Rightarrow> (string \<Rightarrow> 'v row res) \<Rightarrow> string list \<Rightarrow> 'v decoded list res" where
  "load_from_file parse_target json_loads file =
     bindR (mapR (\<lambda>row. bindR (json_loads row) (decode_row parse_target)) (filter (\<lambda>row. row \<noteq> [] \<and> hd row \<noteq> CHR ''#'') file))
       (\<lambda>rs. Inr [r. Some r \<leftarrow> rs])"

section \<open>Splitting and picking\<close>

text \<open>\<open>show_args\<close> and \<open>show_config\<close> print the arguments and the configuration.\<close>

definition measure_str_key :: "(pyval \<Rightarrow> string) \<Rightarrow> (nat \<Rightarrow> string) \<Rightarrow> bool \<Rightarrow> tinput \<Rightarrow> string" where
  "measure_str_key show_args show_config include_config inp =
     t_str (in_target inp) @ in_name inp @ show_args (VTuple (in_args inp)) @ ''{}'' @
       (if include_config then show_config (in_config inp) else [])"

definition group_records :: "(trecord \<Rightarrow> string) \<Rightarrow> trecord list \<Rightarrow> (string, trecord list) dict" where
  "group_records wkl rs = fold (\<lambda>r d. AList.update (wkl r) ((case map_of d (wkl r) of None \<Rightarrow> [] | Some v \<Rightarrow> v) @ [r]) d) rs []"

fun clean_records :: "(trecord \<Rightarrow> string) \<Rightarrow> string set \<Rightarrow> trecord list \<Rightarrow> trecord list" where
  "clean_records key added [] = []"
| "clean_records key added (r # rs) =
     (if key r \<in> added then clean_records key added rs else r # clean_records key (insert (key r) added) rs)"

text \<open>
  The files that are written, in order. Their names come from a variable that exists only when the
  module is run as a program.
\<close>

definition split_workload ::
  "bool \<Rightarrow> (tinput \<Rightarrow> string) \<Rightarrow> (tinput \<Rightarrow> string) \<Rightarrow> bool \<Rightarrow> trecord list \<Rightarrow> trecord list list res" where
  "split_workload is_main wkl key clean lines =
     mapR (\<lambda>(_, v). let out = (if clean then clean_records (key \<circ> fst) {} v else v) in
         if is_main then Inr out else Inl NameError)
       (group_records (wkl \<circ> fst) lines)"

fun write_best :: "(trecord \<Rightarrow> string) \<Rightarrow> string set \<Rightarrow> trecord list \<Rightarrow> trecord list" where
  "write_best key best_set [] = []"
| "write_best key best_set (r # rs) =
     (if key r \<in> best_set then r # write_best key (best_set - {key r}) rs else write_best key best_set rs)"

definition best_keys :: "(trecord \<Rightarrow> string) \<Rightarrow> best_log \<Rightarrow> string set" where
  "best_keys key h = (key \<circ> snd) ` set (bl_by_model h) \<union> (key \<circ> snd) ` set (bl_by_targetkey h)"

definition pick_best ::
  "(pyval \<Rightarrow> pyval) \<Rightarrow> (trecord \<Rightarrow> string) \<Rightarrow> trecord list \<Rightarrow> trecord list option \<Rightarrow> trecord list res" where
  "pick_best simplify key in_file out_file =
     (let context = in_file @ (case out_file of None \<Rightarrow> [] | Some rs \<Rightarrow> rs) in
      case load_config_log simplify context empty_log of
        (Inl e, _) \<Rightarrow> Inl e
      | (Inr _, best_context) \<Rightarrow> Inr (write_best key (best_keys key best_context) context))"

section \<open>Writing and loading\<close>

lemma json_settled: "settled v \<Longrightarrow> json_arg v = Inr j \<Longrightarrow> clean_json_to_python j = v"
proof (induction v arbitrary: j)
  case (VTuple xs)
  then obtain js where js: "mapR json_arg xs = Inr js" "j = JList js" by (auto simp: bindR_Inr_iff)
  have "map clean_json_to_python js = xs"
    using js(1) VTuple by (intro nth_equalityI) (auto simp: mapR_Inr_iff list_all2_conv_all_nth list_all_length)
  then show ?case using js(2) by simp
qed auto

lemma json_args_settled: "list_all settled args \<Longrightarrow> mapR json_arg args = Inr js \<Longrightarrow> map clean_json_to_python js = args"
  by (intro nth_equalityI) (auto simp: mapR_Inr_iff list_all2_conv_all_nth list_all_length intro: json_settled)

text \<open>What a record becomes on its way through a log.\<close>

definition as_logged :: "(nat \<Rightarrow> 'v config_entity) \<Rightarrow> trecord \<Rightarrow> 'v decoded" where
  "as_logged entity = (\<lambda>(inp, res). let costs = (if tr_error_no res = 0 then tr_costs res else [10 ^ 9]) in
     \<lparr>dc_target = in_target inp, dc_name = in_name inp, dc_args = in_args inp,
      dc_config = (entity (in_config inp))\<lparr>ce_errors := []\<rparr>, dc_cost = np_mean costs, dc_result = res\<lparr>tr_costs := costs\<rparr>\<rparr>)"

text \<open>
  A record that can be logged: a target whose text is parsed back, serialized arguments, and a
  configuration with distinct knobs.
\<close>

definition loggable :: "(string \<Rightarrow> target res) \<Rightarrow> (nat \<Rightarrow> 'v config_entity) \<Rightarrow> trecord \<Rightarrow> bool" where
  "loggable parse_target entity = (\<lambda>(inp, res). parse_target (t_str (in_target inp)) = Inr (in_target inp) \<and>
     replace_str ''-target'' ''-mtriple'' (t_str (in_target inp)) = t_str (in_target inp) \<and>
     list_all settled (in_args inp) \<and> dict_ok (ce_entity_map (entity (in_config inp))))"

lemma record_decoded:
  assumes "encode_record entity r = Inr row" "loggable parse_target entity r"
  shows "decode_row parse_target row = Inr (Some (as_logged entity r))"
proof -
  obtain inp res where r: "r = (inp, res)" by (cases r)
  obtain js where js: "mapR json_arg (in_args inp) = Inr js" using assms(1) r by (auto simp: encode_record_def bindR_Inr_iff)
  then have "map clean_json_to_python js = in_args inp" using assms(2) json_args_settled r by (auto simp: loggable_def)
  moreover have "from_json_dict (to_json_dict (entity (in_config inp))) = Inr ((entity (in_config inp))\<lparr>ce_errors := []\<rparr>)"
    using assms(2) json_dict_roundtrip r by (auto simp: loggable_def)
  ultimately show ?thesis using assms js r
    by (auto simp: encode_record_def decode_row_def loggable_def as_logged_def Let_def)
qed

text \<open>
  C38. A log file that was written record by record loads back: the same records in the same order,
  with their targets, tasks and configurations, each configuration carrying the mean of its costs.
  Measurements that failed come back with the single cost 10^9 and their error. Comments are skipped;
  but one line that is blank, or has no JSON in it, makes the whole load raise.
\<close>

theorem log_file_roundtrip:
  assumes "mapR (encode_record entity) rs = Inr rows" "\<forall>r\<in>set rs. loggable parse_target entity r"
    and "\<forall>row\<in>set rows. json_loads (json_dumps row) = Inr row \<and> json_dumps row \<noteq> [] \<and> hd (json_dumps row) \<noteq> CHR ''#''"
    and "json_loads [CHR 0x0A] = Inl JSONDecodeError"
  shows "load_from_file parse_target json_loads ((''#'' @ c) # map json_dumps rows) = Inr (map (as_logged entity) rs) \<and>
    load_from_file parse_target json_loads (map json_dumps rows @ [[CHR 0x0A]]) = Inl JSONDecodeError"
proof -
  have f: "filter (\<lambda>row. row \<noteq> [] \<and> hd row \<noteq> CHR ''#'') (map json_dumps rows) = map json_dumps rows"
    using assms(3) by (auto simp: filter_id_conv)
  have rows: "list_all2 (\<lambda>r row. encode_record entity r = Inr row) rs rows" using assms(1) by (simp add: mapR_Inr_iff)
  have "mapR (\<lambda>row. bindR (json_loads row) (decode_row parse_target)) (map json_dumps rows) =
      Inr (map (\<lambda>r. Some (as_logged entity r)) rs)"
    using rows assms(2,3)
  proof (induction rs rows rule: list_all2_induct)
    case (Cons r rs row rows)
    then show ?case using record_decoded [of entity r row parse_target] by simp
  qed simp
  moreover have "[r. Some r \<leftarrow> map (\<lambda>r. Some (as_logged entity r)) rs] = map (as_logged entity) rs"
    by (induction rs) simp_all
  ultimately show ?thesis
    using assms(4) f by (simp add: load_from_file_def mapR_append)
qed

section \<open>Picking the best\<close>

lemma earliest_best_unique:
  assumes "earliest_best c xs r" "earliest_best c xs s"
  shows "r = s"
proof -
  have same: "x = y" if "i < length xs" "xs ! i = x" "\<forall>y\<in>set xs. c x \<le> c y" "\<forall>j<i. c x < c (xs ! j)"
    "k < length xs" "xs ! k = y" "\<forall>z\<in>set xs. c y \<le> c z" "\<forall>j<k. c y < c (xs ! j)" for i k x y
  proof -
    have "\<not> i < k" using that by (metis not_le nth_mem)
    moreover have "\<not> k < i" using that by (metis not_le nth_mem)
    ultimately show ?thesis using that(2,6) by (simp add: linorder_neq_iff)
  qed
  show ?thesis
  proof (cases r)
    case None
    then show ?thesis using assms by (cases s) (auto simp: earliest_best_def)
  next
    case (Some x)
    then obtain i where i: "i < length xs" "xs ! i = x" "\<forall>y\<in>set xs. c x \<le> c y" "\<forall>j<i. c x < c (xs ! j)"
      using assms(1) unfolding earliest_best_def by auto
    then obtain y where s: "s = Some y" using assms(2) by (cases s) (auto simp: earliest_best_def)
    obtain k where "k < length xs" "xs ! k = y" "\<forall>z\<in>set xs. c y \<le> c z" "\<forall>j<k. c y < c (xs ! j)"
      using assms(2) unfolding earliest_best_def s option.case by blast
    then show ?thesis using same [OF i] Some s by blast
  qed
qed

lemma earliest_best_mem: "earliest_best c xs (Some x) \<Longrightarrow> x \<in> set xs"
  by (auto simp: earliest_best_def)

lemma earliest_best_filter:
  assumes "earliest_best c xs r" "\<And>x. r = Some x \<Longrightarrow> P x"
  shows "earliest_best c (filter P xs) r"
proof (cases r)
  case None
  then show ?thesis using assms by (simp add: earliest_best_def)
next
  case (Some x)
  obtain i where i: "i < length xs" "xs ! i = x" "\<forall>y\<in>set xs. c x \<le> c y" "\<forall>j<i. c x < c (xs ! j)"
    using assms(1) unfolding earliest_best_def Some option.case by blast
  let ?k = "length (filter P (take i xs))"
  have "xs = take i xs @ x # drop (Suc i) xs" using id_take_nth_drop [OF i(1)] i(2) by simp
  then have f: "filter P xs = filter P (take i xs) @ x # filter P (drop (Suc i) xs)"
    using assms(2) [OF Some] by (metis filter.simps(2) filter_append)
  have "c x < c (filter P xs ! j)" if "j < ?k" for j
  proof -
    have "filter P xs ! j \<in> set (take i xs)" using that f by (metis nth_append nth_mem filter_is_subset subsetD)
    then show ?thesis using i(1,4) by (auto simp: in_set_conv_nth)
  qed
  moreover have "?k < length (filter P xs)" "filter P xs ! ?k = x" by (simp_all add: f nth_append)
  ultimately show ?thesis using i(3) unfolding earliest_best_def Some option.case
    by (intro exI [of _ ?k] conjI) auto
qed

lemma write_best_distinct:
  fixes key :: "trecord \<Rightarrow> string"
  shows "distinct (map key rs) \<Longrightarrow> write_best key ks rs = filter (\<lambda>r. key r \<in> ks) rs"
proof (induction rs arbitrary: ks)
  case (Cons r rs)
  have "key r' \<noteq> key r" if "r' \<in> set rs" for r'
    using Cons.prems that by (metis distinct.simps(2) list.map(2) image_eqI list.set_map)
  then have "filter (\<lambda>r'. key r' \<in> ks - {key r}) rs = filter (\<lambda>r'. key r' \<in> ks) rs"
    by (intro filter_cong) simp_all
  then show ?case using Cons by auto
qed simp

text \<open>Filtering a log by something that every best record has does not change what it answers.\<close>

lemma same_best:
  assumes "\<forall>r\<in>set rs. loadable simplify r"
    and "\<And>k w r. best_for_key simplify rs w k = Some r \<Longrightarrow> P r"
    and "\<And>m w r. best_for_model simplify rs w m = Some r \<Longrightarrow> P r"
  shows "best_for_key simplify (filter P rs) w k = best_for_key simplify rs w k"
    and "best_for_model simplify (filter P rs) w m = best_for_model simplify rs w m"
proof -
  have l: "\<forall>r\<in>set (filter P rs). loadable simplify r" using assms(1) by simp
  have k: "key_records simplify (filter P rs) k w = filter P (key_records simplify rs k w)"
    by (simp add: key_records_def filter_filter conj_commute)
  have m: "model_records simplify (filter P rs) m w = filter P (model_records simplify rs m w)"
    by (simp add: model_records_def filter_filter conj_commute)
  have "earliest_best time_of (filter P (key_records simplify rs k w)) (best_for_key simplify rs w k)"
    using earliest_best_filter table_earliest [OF records_have_costs(1) [OF assms(1)]] assms(2)
    unfolding best_for_key_def by blast
  moreover have "earliest_best time_of (filter P (key_records simplify rs k w)) (best_for_key simplify (filter P rs) w k)"
    using table_earliest [OF records_have_costs(1) [OF l, of k w]] by (simp only: best_for_key_def k)
  ultimately show "best_for_key simplify (filter P rs) w k = best_for_key simplify rs w k"
    by (rule earliest_best_unique [rotated])
  have "earliest_best time_of (filter P (model_records simplify rs m w)) (best_for_model simplify rs w m)"
    using earliest_best_filter table_earliest [OF records_have_costs(2) [OF assms(1)]] assms(3)
    unfolding best_for_model_def by blast
  moreover have "earliest_best time_of (filter P (model_records simplify rs m w)) (best_for_model simplify (filter P rs) w m)"
    using table_earliest [OF records_have_costs(2) [OF l, of m w]] by (simp only: best_for_model_def m)
  ultimately show "best_for_model simplify (filter P rs) w m = best_for_model simplify rs w m"
    by (rule earliest_best_unique [rotated])
qed

text \<open>
  C29. When no configuration was measured twice, \<open>pick_best\<close> keeps a part of the log, in its order, that
  answers every query like the whole log, the old contents of the output file included.
\<close>

theorem picked_log_answers_alike:
  assumes "rs = in_file @ (case out_file of None \<Rightarrow> [] | Some rs \<Rightarrow> rs)"
    and "\<forall>r\<in>set rs. loadable simplify r" "distinct (map key rs)"
  shows "\<exists>picked h h'. pick_best simplify key in_file out_file = Inr picked \<and> (\<exists>P. picked = filter P rs) \<and>
    load_config_log simplify rs empty_log = (Inr (), h) \<and> load_config_log simplify picked empty_log = (Inr (), h') \<and>
    (\<forall>t w. history_config t w h' = history_config t w h)"
proof -
  obtain h where h: "load_config_log simplify rs empty_log = (Inr (), h)" "bl_user h = []"
    "\<forall>k w. map_of (bl_by_targetkey h) (k, w) = best_for_key simplify rs w k"
    "\<forall>m w. map_of (bl_by_model h) (m, w) = best_for_model simplify rs w m"
    using loaded_log [OF assms(2)] by blast
  let ?P = "\<lambda>r. key r \<in> best_keys key h"
  have kept: "?P r" if "map_of (bl_by_targetkey h) x = Some r \<or> map_of (bl_by_model h) x = Some r" for r x
    using that by (force simp: best_keys_def dest: map_of_SomeD)
  have best: "best_for_key simplify (filter ?P rs) w k = best_for_key simplify rs w k"
    "best_for_model simplify (filter ?P rs) w m = best_for_model simplify rs w m" for w k m
    using same_best [OF assms(2), of ?P] kept h(3,4) by metis+
  have l: "\<forall>r\<in>set (filter ?P rs). loadable simplify r" using assms(2) by simp
  obtain h' where h': "load_config_log simplify (filter ?P rs) empty_log = (Inr (), h')" "bl_user h' = []"
    "\<forall>k w. map_of (bl_by_targetkey h') (k, w) = best_for_key simplify (filter ?P rs) w k"
    "\<forall>m w. map_of (bl_by_model h') (m, w) = best_for_model simplify (filter ?P rs) w m"
    using loaded_log [OF l] by blast
  have "match_config_keys h' w ks = match_config_keys h w ks" for w ks
    using h(2-4) h'(2-4) best by (simp add: match_keys_first)
  then have "history_config t w h' = history_config t w h" for t w
    using h(2-4) h'(2-4) best
    by (cases t) (simp_all add: history_config_def match_config_def split: option.split)
  moreover have "pick_best simplify key in_file out_file = Inr (filter ?P rs)"
    using h(1) assms(3) by (simp add: pick_best_def assms(1) write_best_distinct)
  ultimately show ?thesis using h(1) h'(1) by blast
qed

text \<open>
  When a configuration was measured twice, the earlier record is written in place of the best one: a
  failure that was measured again with success takes the success out of the log.
\<close>

definition retried_log :: "trecord list" where
  "retried_log = map (\<lambda>(err, cs). (dense_input 0, \<lparr>tr_costs = cs, tr_error_no = err, tr_all_cost = 1, tr_timestamp = 0\<rparr>))
     [(4, []), (0, [3])]"

lemma pick_best_loses_best:
  "\<exists>h h'. load_config_log id retried_log empty_log = (Inr (), h) \<and>
     history_config (Some gpu) dense_workload h = Inr (Some 0) \<and>
     pick_best id (measure_str_key (\<lambda>_. ''args'') (\<lambda>_. ''config'') True \<circ> fst) retried_log None = Inr (take 1 retried_log) \<and>
     load_config_log id (take 1 retried_log) empty_log = (Inr (), h') \<and> history_config (Some gpu) dense_workload h' = Inr None"
proof -
  let ?key = "measure_str_key (\<lambda>_. ''args'') (\<lambda>_. ''config'') True \<circ> fst"
  have l: "\<forall>r\<in>set retried_log. loadable id r" "\<forall>r\<in>set (take 1 retried_log). loadable id r"
    by (simp_all add: retried_log_def loadable_def dense_workload_of) (simp add: dense_input_def gpu_def)
  obtain h where h: "load_config_log id retried_log empty_log = (Inr (), h)" "bl_user h = []"
    "\<And>k w. map_of (bl_by_targetkey h) (k, w) = best_for_key id retried_log w k"
    "\<And>m w. map_of (bl_by_model h) (m, w) = best_for_model id retried_log w m"
    using loaded_log [OF l(1)] by blast
  obtain h' where h': "load_config_log id (take 1 retried_log) empty_log = (Inr (), h')" "bl_user h' = []"
    "\<And>k w. map_of (bl_by_targetkey h') (k, w) = best_for_key id (take 1 retried_log) w k"
    "\<And>m w. map_of (bl_by_model h') (m, w) = best_for_model id (take 1 retried_log) w m"
    using loaded_log [OF l(2)] by blast
  have m: "best_for_model id retried_log dense_workload ''v100'' = Some (retried_log ! 1)"
    by (simp add: best_for_model_def model_records_def retried_log_def for_workload_def dense_workload_of)
      (simp add: dense_input_def gpu_def)
  have "best_for_model id (take 1 retried_log) w m = None" "best_for_key id (take 1 retried_log) w m = None" for w m
    by (simp_all add: best_for_model_def model_records_def best_for_key_def key_records_def retried_log_def for_workload_def)
  then have q': "history_config (Some gpu) dense_workload h' = Inr None"
    using h'(2-4) by (simp add: history_config_def match_config_def match_keys_first gpu_def)
  have q: "history_config (Some gpu) dense_workload h = Inr (Some 0)"
    using h(2,4) m by (simp add: history_config_def match_config_def gpu_def) (simp add: retried_log_def dense_input_def)
  have "((''v100'', dense_workload), retried_log ! 1) \<in> set (bl_by_model h)" using h(4) m by (metis map_of_SomeD)
  from imageI [OF this, of "?key \<circ> snd"] have best: "?key (retried_log ! 1) \<in> best_keys ?key h"
    by (simp add: best_keys_def)
  have "write_best ?key ks retried_log = take 1 retried_log" if "?key (retried_log ! 1) \<in> ks" for ks
    using that by (simp add: retried_log_def measure_str_key_def)
  then have "pick_best id ?key retried_log None = Inr (take 1 retried_log)"
    using h(1) best by (simp add: pick_best_def)
  then show ?thesis using h(1) h'(1) q q' by blast
qed

section \<open>Splitting\<close>

text \<open>The values of a list, each once, in the order of their first places.\<close>

definition firsts :: "'a list \<Rightarrow> 'a list" where
  "firsts xs = rev (remdups (rev xs))"

lemma firsts_snoc: "firsts (xs @ [x]) = (if x \<in> set xs then firsts xs else firsts xs @ [x])"
  by (simp add: firsts_def)

lemma set_firsts [simp]: "set (firsts xs) = set xs" "distinct (firsts xs)"
  by (simp_all add: firsts_def)

lemma groups_listed: "group_records wkl rs = map (\<lambda>w. (w, filter (\<lambda>r. wkl r = w) rs)) (firsts (map wkl rs))"
proof (induction rs rule: rev_induct)
  case Nil
  then show ?case by (simp add: group_records_def firsts_def)
next
  case (snoc r rs)
  let ?old = "map (\<lambda>w. (w, filter (\<lambda>r. wkl r = w) rs)) (firsts (map wkl rs))"
  have m: "map_of (map (\<lambda>w. (w, g w)) ks) k = (if k \<in> set ks then Some (g k) else None)" for g :: "string \<Rightarrow> trecord list" and ks k
    by (induction ks) auto
  have u: "distinct ks \<Longrightarrow> AList.update k v (map (\<lambda>w. (w, g w)) ks) =
      (if k \<in> set ks then map (\<lambda>w. (w, if w = k then v else g w)) ks else map (\<lambda>w. (w, g w)) ks @ [(k, v)])"
    for ks k v and g :: "string \<Rightarrow> trecord list" by (induction ks) auto
  have none: "wkl r \<notin> wkl ` set rs \<Longrightarrow> filter (\<lambda>r'. wkl r' = wkl r) rs = []"
    by (auto simp: filter_empty_conv dest: rev_image_eqI [OF _ sym])
  have e: "(case map_of ?old (wkl r) of None \<Rightarrow> [] | Some v \<Rightarrow> v) = filter (\<lambda>r'. wkl r' = wkl r) rs"
    by (auto simp: m none)
  have "group_records wkl (rs @ [r]) = AList.update (wkl r) (filter (\<lambda>r'. wkl r' = wkl r) rs @ [r]) ?old"
    using snoc by (simp add: group_records_def e)
  also have "\<dots> = map (\<lambda>w. (w, filter (\<lambda>r. wkl r = w) (rs @ [r]))) (firsts (map wkl (rs @ [r])))"
    by (auto simp: u firsts_snoc none)
  finally show ?case .
qed

lemma firsts_Cons: "firsts (x # xs) = x # filter (\<lambda>y. y \<noteq> x) (firsts xs)"
proof -
  have "remdups (ys @ [x]) = filter (\<lambda>y. y \<noteq> x) (remdups ys) @ [x]" for ys by (induction ys) auto
  then show ?thesis by (simp add: firsts_def rev_filter)
qed

text \<open>Cleaning keeps the first record of every key.\<close>

lemma clean_records_firsts:
  "clean_records key added rs =
     map (\<lambda>k. the (find (\<lambda>r. key r = k) rs)) (filter (\<lambda>k. k \<notin> added) (firsts (map key rs)))"
proof (induction rs arbitrary: added)
  case (Cons r rs)
  have "filter (\<lambda>k. k \<notin> added) (filter (\<lambda>y. y \<noteq> key r) F) = filter (\<lambda>k. k \<notin> insert (key r) added) F" for F
    by (induction F) auto
  moreover have "filter (\<lambda>k. k \<notin> added) F = filter (\<lambda>k. k \<notin> insert (key r) added) F" if "key r \<in> added" for F
    using that by (intro filter_cong) auto
  moreover have "map (\<lambda>k. the (find (\<lambda>r. key r = k) (r # rs))) (filter (\<lambda>k. k \<notin> insert (key r) added) F) =
      map (\<lambda>k. the (find (\<lambda>r. key r = k) rs)) (filter (\<lambda>k. k \<notin> insert (key r) added) F)" for F
    by (intro map_cong) auto
  ultimately show ?case using Cons [of added] Cons [of "insert (key r) added"] by (simp add: firsts_Cons)
qed (simp add: firsts_def)

text \<open>
  \<open>split_workload\<close>, run as a program, writes one file per workload, in the order in which they first
  occur; a file holds the records of its workload in their order, or, when duplicates are deleted, the
  first record of every configuration. Called from other code it raises \<open>NameError\<close> unless the log is
  empty.
\<close>

lemma split_by_workload:
  "split_workload is_main wkl key clean lines = (if is_main \<or> lines = [] then
     Inr (map (\<lambda>w. let v = filter (\<lambda>r. wkl (fst r) = w) lines in
         if clean then map (\<lambda>k. the (find (\<lambda>r. key (fst r) = k) v)) (firsts (map (key \<circ> fst) v)) else v)
       (firsts (map (wkl \<circ> fst) lines)))
   else Inl NameError)"
proof -
  have g: "group_records (wkl \<circ> fst) lines = map (\<lambda>w. (w, filter (\<lambda>r. wkl (fst r) = w) lines)) (firsts (map (wkl \<circ> fst) lines))"
    by (simp add: groups_listed)
  have c: "clean_records (key \<circ> fst) {} v = map (\<lambda>k. the (find (\<lambda>r. key (fst r) = k) v)) (firsts (map (key \<circ> fst) v))" for v
    by (simp add: clean_records_firsts)
  show ?thesis
  proof (cases "is_main \<or> lines = []")
    case True
    then show ?thesis
    proof (cases "lines = []")
      case False
      then have "is_main" using True by simp
      then show ?thesis unfolding split_workload_def g
        by (subst mapR_total [where g = "\<lambda>(_, v). if clean then clean_records (key \<circ> fst) {} v else v"])
          (auto simp: c Let_def)
    qed (simp add: split_workload_def group_records_def firsts_def)
  next
    case False
    then obtain w ws where "firsts (map (wkl \<circ> fst) lines) = w # ws"
      by (metis list.exhaust set_firsts(1) set_empty2 map_is_Nil_conv)
    then show ?thesis using False unfolding split_workload_def g by (simp add: Let_def)
  qed
qed

section \<open>Instances\<close>

definition tiled :: "nat \<Rightarrow> unit config_entity" where
  "tiled _ = \<lparr>ce_index = 5, ce_code_hash = None, ce_entity_map = [(''tile'', SplitEntity [-1, 4])], ce_errors = []\<rparr>"

lemma log_file_roundtrip_witness:
  "\<exists>row. let json_loads = (\<lambda>s. if s = ''{}'' then Inr row else Inl JSONDecodeError);
       parse_target = (\<lambda>s. if s = t_str gpu then Inr gpu else Inl ValueError) in
     load_from_file parse_target json_loads [''# log'', ''{}''] = Inr [as_logged tiled (hd dense_log)] \<and>
     load_from_file parse_target json_loads [''{}'', [CHR 0x0A]] = Inl JSONDecodeError"
proof -
  have enc: "\<exists>row. mapR (encode_record tiled) [hd dense_log] = Inr [row]"
    by (simp add: encode_record_def dense_log_def dense_input_def)
  then obtain row where row: "mapR (encode_record tiled) [hd dense_log] = Inr [row]" by blast
  let ?loads = "\<lambda>s. if s = ''{}'' then Inr row else Inl JSONDecodeError"
  let ?parse = "\<lambda>s. if s = t_str gpu then Inr gpu else Inl ValueError"
  have l: "\<forall>r\<in>set [hd dense_log]. loggable ?parse tiled r"
    by (simp add: loggable_def dense_log_def dense_input_def tiled_def gpu_def)
  have "\<forall>r\<in>set [row]. ?loads ''{}'' = Inr r \<and> ''{}'' \<noteq> [] \<and> hd ''{}'' \<noteq> CHR ''#''" "?loads [CHR 0x0A] = Inl JSONDecodeError"
    by simp_all
  from log_file_roundtrip [OF row l this, of "'' log''"] show ?thesis by (intro exI [of _ row]) (simp add: Let_def)
qed

lemma picked_log_answers_alike_witness:
  "\<exists>picked h h'. pick_best id (measure_str_key (\<lambda>_. ''args'') (\<lambda>n. replicate n CHR ''c'') True \<circ> fst) dense_log None = Inr picked \<and>
     load_config_log id dense_log empty_log = (Inr (), h) \<and> load_config_log id picked empty_log = (Inr (), h') \<and>
     history_config (Some gpu) dense_workload h' = history_config (Some gpu) dense_workload h"
proof -
  have d: "distinct (map (measure_str_key (\<lambda>_. ''args'') (\<lambda>n. replicate n CHR ''c'') True \<circ> fst) (dense_log @ (case None of None \<Rightarrow> [] | Some rs \<Rightarrow> rs)))"
    by (simp add: dense_log_def measure_str_key_def dense_input_def numeral_2_eq_2 numeral_3_eq_3)
  have l: "\<forall>r\<in>set (dense_log @ (case None of None \<Rightarrow> [] | Some rs \<Rightarrow> rs)). loadable id r"
    using dense_loadable by simp
  show ?thesis using picked_log_answers_alike [OF refl l d] by auto
qed

end
