(* ===== verification/TaskTemplates.thy ===== *)
theory TaskTemplates
  imports ConfigContexts TensorTraversal
begin

text \<open>
  Tasks and templates of the template-based tuner, the rest of \<open>tvm/python/tvm/autotvm/task/task.py\<close>:
  the table of templates and its registration, calling a template, the input tensors of an
  expression, creating a task, instantiating it with a configuration, and the decorator \<open>template\<close>.
  Functions of the user are computations on the dispatch contexts; counting the operations of a
  schedule is a parameter.
\<close>

section \<open>The table of templates\<close>

text \<open>An expression is a list of tensors and its output; schedules are of any type.\<close>

type_synonym tensor_out = "tensor list \<times> nat"

record ('c, 'k) template =
  tt_compute :: "(pyval list \<Rightarrow> ('c cstate, tensor_out) sx) option"
  tt_schedule :: "(tensor_out \<Rightarrow> ('c cstate, 'k) sx) option"
  tt_customized :: "(pyval list \<Rightarrow> ('c cstate, 'k \<times> nat list) sx) option"

type_synonym ('c, 'k) task_table = "string \<rightharpoonup> ('c, 'k) template"

definition new_template :: "('c, 'k) template" where
  "new_template = \<lparr>tt_compute = None, tt_schedule = None, tt_customized = None\<rparr>"

definition template_of :: "string \<Rightarrow> ('c, 'k) task_table \<Rightarrow> ('c, 'k) template" where
  "template_of name table = (case table name of None \<Rightarrow> new_template | Some tmpl \<Rightarrow> tmpl)"

definition register_task_compute ::
  "string \<Rightarrow> (pyval list \<Rightarrow> ('c cstate, tensor_out) sx) \<Rightarrow> (('c, 'k) task_table, unit) sx" where
  "register_task_compute name f = (\<lambda>table. let tmpl = template_of name table in case tt_compute tmpl of
       Some _ \<Rightarrow> (Inl ValueError, table(name \<mapsto> tmpl))
     | None \<Rightarrow> (Inr (), table(name \<mapsto> tmpl\<lparr>tt_compute := Some f\<rparr>)))"

definition register_task_schedule ::
  "string \<Rightarrow> (tensor_out \<Rightarrow> ('c cstate, 'k) sx) \<Rightarrow> (('c, 'k) task_table, unit) sx" where
  "register_task_schedule name f = (\<lambda>table. let tmpl = template_of name table in case tt_schedule tmpl of
       Some _ \<Rightarrow> (Inl ValueError, table(name \<mapsto> tmpl))
     | None \<Rightarrow> (Inr (), table(name \<mapsto> tmpl\<lparr>tt_schedule := Some f\<rparr>)))"

definition register_customized_task ::
  "string \<Rightarrow> (pyval list \<Rightarrow> ('c cstate, 'k \<times> nat list) sx) \<Rightarrow> (('c, 'k) task_table, unit) sx" where
  "register_customized_task name f = (\<lambda>table. let tmpl = template_of name table in case tt_customized tmpl of
       Some _ \<Rightarrow> (Inl ValueError, table(name \<mapsto> tmpl))
     | None \<Rightarrow> (Inr (), table(name \<mapsto> tmpl\<lparr>tt_customized := Some f\<rparr>)))"

text \<open>
  \<open>_lookup_task\<close>: a reference to the template, which sees later registrations, or a dummy, which stays
  one.
\<close>

datatype task_func = Found string | MissingTask string

definition lookup_task :: "string \<Rightarrow> ('c, 'k) task_table \<Rightarrow> task_func" where
  "lookup_task name table = (if table name = None then MissingTask name else Found name)"

section \<open>Calling a template\<close>

text \<open>\<open>_get_inputs\<close>: breadth first through the operations; every tensor is put into the queue once.\<close>

fun get_inputs :: "nat \<Rightarrow> tensor list \<Rightarrow> nat list \<Rightarrow> nat set \<Rightarrow> nat list \<Rightarrow> nat list res" where
  "get_inputs 0 g queue hash_set inputs = Inl OutOfFuel"
| "get_inputs (Suc n) g [] hash_set inputs = Inr inputs"
| "get_inputs (Suc n) g (t # queue) hash_set inputs = (case tn_op (g ! t) of
       Placeholder _ \<Rightarrow> get_inputs n g queue hash_set (inputs @ [t])
     | _ \<Rightarrow> let input_tensors = filter (\<lambda>u. u \<notin> hash_set) (op_inputs (tn_op (g ! t))) in
         get_inputs n g (queue @ input_tensors) (hash_set \<union> set input_tensors) inputs)"

definition default_func :: "('c, 'k) template \<Rightarrow> pyval list \<Rightarrow> ('c cstate, 'k \<times> nat list) sx" where
  "default_func tmpl args = (case (tt_compute tmpl, tt_schedule tmpl) of
       (Some fcompute, Some fschedule) \<Rightarrow>
         bindS (fcompute args) (\<lambda>(g, out).
         bindS (liftS (get_inputs (length g + 2) g [out] {} [])) (\<lambda>inputs.
         bindS (fschedule (g, out)) (\<lambda>s. retS (s, out # inputs))))
     | _ \<Rightarrow> raiseS AssertionError)"

definition call_template :: "('c, 'k) template \<Rightarrow> pyval list \<Rightarrow> ('c cstate, 'k \<times> nat list) sx" where
  "call_template tmpl args = bindS (liftS (deserialize_task_args args)) (\<lambda>args.
     case tt_customized tmpl of None \<Rightarrow> default_func tmpl args | Some f \<Rightarrow> f args)"

definition call_task :: "('c, 'k) task_table \<Rightarrow> task_func \<Rightarrow> pyval list \<Rightarrow> ('c cstate, 'k \<times> nat list) sx" where
  "call_task table func args = (case func of
       MissingTask _ \<Rightarrow> raiseS RuntimeError
     | Found name \<Rightarrow> call_template (template_of name table) args)"

section \<open>Tasks\<close>

record task =
  tk_name :: string
  tk_args :: "pyval list"
  tk_func :: task_func
  tk_space :: "nat option"  \<comment> \<open>address of the configuration space\<close>
  tk_flop :: "rat option"

definition new_task :: "string \<Rightarrow> pyval list \<Rightarrow> ('c, 'k) task_table \<Rightarrow> task" where
  "new_task name args table =
     \<lparr>tk_name = name, tk_args = args, tk_func = lookup_task name table, tk_space = None, tk_flop = None\<rparr>"

definition set_flop :: "nat \<Rightarrow> rat \<Rightarrow> ('c cstate, unit) sx" where
  "set_flop cfg n = modS (set_config cfg (\<lambda>c. c\<lparr>co_flop := n\<rparr>))"

definition flop_of :: "('k \<Rightarrow> rat res) \<Rightarrow> nat \<Rightarrow> 'k \<Rightarrow> ('c cstate, rat) sx" where
  "flop_of compute_flop cfg sch = bindS (getS (\<lambda>st. co_flop (cx_configs st ! cfg))) (\<lambda>n.
     if n \<noteq> 0 then retS n else liftS (compute_flop sch))"

text \<open>\<open>Task.instantiate\<close>, with the task as it is afterwards.\<close>

definition instantiate_task ::
  "('k \<Rightarrow> rat res) \<Rightarrow> ('c, 'k) task_table \<Rightarrow> task \<Rightarrow> nat \<Rightarrow> ('c cstate, ('k \<times> nat list) \<times> task) sx" where
  "instantiate_task compute_flop table tsk cfg = thenS (set_flop cfg 0)
     (bindS (with_config cfg (call_task table (tk_func tsk) (tk_args tsk))) (\<lambda>(sch, arg_bufs).
        if tk_flop tsk = None \<or> tk_flop tsk = Some 0 then
          bindS (flop_of compute_flop cfg sch) (\<lambda>n. thenS (set_flop cfg n)
            (retS ((sch, arg_bufs), tsk\<lparr>tk_flop := Some n\<rparr>)))
        else retS ((sch, arg_bufs), tsk)))"

text \<open>
  \<open>create\<close>: the template is called once with a fresh configuration space, which it fills; \<open>stamp\<close>
  writes the hash of the code of the schedule into the space.
\<close>

definition create_task ::
  "(pyval \<Rightarrow> pyval) \<Rightarrow> ('k \<Rightarrow> rat res) \<Rightarrow> 'c \<Rightarrow> ('k \<Rightarrow> 'c \<Rightarrow> 'c) \<Rightarrow> ('c, 'k) task_table \<Rightarrow> string \<Rightarrow> pyval list \<Rightarrow>
     ('c cstate, task) sx" where
  "create_task simplify compute_flop new_space stamp table task_name args =
     bindS (liftS (serialize_task_args simplify args)) (\<lambda>args.
     let ret = new_task task_name args table in
     bindS (\<lambda>st. let (cfg, st) = new_config new_space st in (Inr cfg, st)) (\<lambda>cfg.
     bindS (with_config cfg (bindS (call_task table (tk_func ret) args) (\<lambda>(sch, _).
         thenS (modS (set_config cfg (\<lambda>c. c\<lparr>co_body := stamp sch (co_body c)\<rparr>))) (retS sch)))) (\<lambda>sch.
     bindS (flop_of compute_flop cfg sch) (\<lambda>n. retS (ret\<lparr>tk_space := Some cfg, tk_flop := Some n\<rparr>)))))"

text \<open>The function that \<open>template\<close> makes of \<open>f\<close>; the decorator also registers \<open>f\<close>.\<close>

definition template_call ::
  "nat \<Rightarrow> 'c \<Rightarrow> (pyval \<Rightarrow> pyval) \<Rightarrow> (pyval \<Rightarrow> string) \<Rightarrow> target option \<Rightarrow> string \<Rightarrow>
     (pyval list \<Rightarrow> ('c cstate, 'a) sx) \<Rightarrow> pyval list \<Rightarrow> ('c cstate, 'a) sx" where
  "template_call depth fb simplify shw tgt task_name f args =
     bindS (liftS (args_to_workload simplify args (Some task_name))) (\<lambda>workload.
     bindS (\<lambda>st. query_config depth fb simplify shw tgt workload (cx_current st) st) (\<lambda>cfg.
       with_config cfg (f args)))"

section \<open>Registration\<close>

text \<open>Registering a part twice raises and changes nothing; the other parts are independent.\<close>

lemma register_twice:
  assumes "register_task_compute name f table = (Inr (), table')"
  shows "fst (register_task_compute name f' table') = Inl ValueError \<and>
    template_of name (snd (register_task_compute name f' table')) = template_of name table' \<and>
    tt_compute (template_of name table') = Some f \<and> tt_schedule (template_of name table') = tt_schedule (template_of name table)"
  using assms by (auto simp: register_task_compute_def template_of_def Let_def split: option.splits)

text \<open>A task that was made before its template was imported stays without one.\<close>

lemma missing_stays_missing: "table name = None \<Longrightarrow> tk_func tsk = lookup_task name table \<Longrightarrow>
    call_task table' (tk_func tsk) args st = (Inl RuntimeError, st)"
  by (simp add: lookup_task_def call_task_def)

section \<open>The inputs of an expression\<close>

inductive below :: "tensor list \<Rightarrow> nat \<Rightarrow> nat \<Rightarrow> bool" for g :: "tensor list" where
  itself: "below g t t"
| input: "u \<in> set (op_inputs (tn_op (g ! t))) \<Longrightarrow> below g u v \<Longrightarrow> below g t v"

lemma below_trans: "below g t u \<Longrightarrow> below g u v \<Longrightarrow> below g t v"
  by (induction rule: below.induct) (auto intro: below.intros)

lemma below_step: "below g t u \<Longrightarrow> v \<in> set (op_inputs (tn_op (g ! u))) \<Longrightarrow> below g t v"
  by (blast intro: below_trans below.intros)

lemma below_le:
  assumes "older_inputs g"
  shows "below g t u \<Longrightarrow> t < length g \<Longrightarrow> u \<le> t"
proof (induction rule: below.induct)
  case (input u t v)
  then have "u < t" using assms by (auto simp: older_inputs_def)
  then show ?case using input by simp
qed simp

text \<open>
  The invariant of the search from a tensor: everything below it is behind the queue, what was found is
  below it and has no later tensor, and the placeholders that left the queue are the inputs.
\<close>

definition search_ok :: "tensor list \<Rightarrow> nat \<Rightarrow> nat list \<Rightarrow> nat set \<Rightarrow> nat list \<Rightarrow> bool" where
  "search_ok g out queue seen inputs \<longleftrightarrow>
     (let found = insert out seen; processed = found - set queue in
      distinct queue \<and> set queue \<subseteq> found \<and> (\<forall>u\<in>seen. below g out u \<and> u < out) \<and>
      (\<forall>t\<in>processed. set (op_inputs (tn_op (g ! t))) \<subseteq> seen) \<and>
      distinct inputs \<and> set inputs = {t \<in> processed. is_placeholder (tn_op (g ! t))})"

lemma search_step:
  assumes "search_ok g out (t # queue) seen inputs" "older_inputs g" "out < length g"
    and "distinct (op_inputs (tn_op (g ! t)))" "\<not> is_placeholder (tn_op (g ! t))"
    and "new = filter (\<lambda>u. u \<notin> seen) (op_inputs (tn_op (g ! t)))"
  shows "search_ok g out (queue @ new) (seen \<union> set new) inputs"
    and "insert out (seen \<union> set new) - set (queue @ new) = insert t (insert out seen - set (t # queue))"
    and "t \<in> insert out seen" "t \<notin> insert out seen - set (t # queue)"
proof -
  have s: "distinct (t # queue)" "set (t # queue) \<subseteq> insert out seen" "\<forall>u\<in>seen. below g out u \<and> u < out"
    "\<forall>t'\<in>insert out seen - set (t # queue). set (op_inputs (tn_op (g ! t'))) \<subseteq> seen" "distinct inputs"
    "set inputs = {t' \<in> insert out seen - set (t # queue). is_placeholder (tn_op (g ! t'))}"
    using assms(1) by (simp_all add: search_ok_def Let_def)
  have t: "below g out t" "t \<le> out" using s(2,3) by (auto intro: below.itself)
  have new: "below g out u \<and> u < out \<and> u \<notin> insert out seen" if "u \<in> set new" for u
  proof -
    have "u \<in> set (op_inputs (tn_op (g ! t)))" "u \<notin> seen" using that assms(6) by auto
    moreover have "u < t" using calculation(1) assms(2,3) t(2) by (auto simp: older_inputs_def)
    ultimately show ?thesis using t below_step by auto
  qed
  then have disj: "set new \<inter> insert out seen = {}" by blast
  show p: "insert out (seen \<union> set new) - set (queue @ new) = insert t (insert out seen - set (t # queue))"
    using s(1,2) disj by auto
  show "t \<in> insert out seen" "t \<notin> insert out seen - set (t # queue)" using s(2) by auto
  have "distinct (queue @ new)" using s(1,2) disj assms(4,6) by auto
  moreover have "set (queue @ new) \<subseteq> insert out (seen \<union> set new)" using s(2) by auto
  moreover have "\<forall>u\<in>seen \<union> set new. below g out u \<and> u < out" using s(3) new by blast
  moreover have "\<forall>t'\<in>insert t (insert out seen - set (t # queue)). set (op_inputs (tn_op (g ! t'))) \<subseteq> seen \<union> set new"
    using s(4) assms(6) by auto
  moreover have "set inputs = {t' \<in> insert t (insert out seen - set (t # queue)). is_placeholder (tn_op (g ! t'))}"
    using s(6) assms(5) by auto
  ultimately show "search_ok g out (queue @ new) (seen \<union> set new) inputs"
    using s(5) unfolding search_ok_def Let_def p by blast
qed

lemma search_placeholder:
  assumes "search_ok g out (t # queue) seen inputs" "is_placeholder (tn_op (g ! t))"
  shows "search_ok g out queue seen (inputs @ [t])"
proof -
  have i: "op_inputs (tn_op (g ! t)) = []" using assms(2) by (cases "tn_op (g ! t)") auto
  have s: "distinct (t # queue)" "set (t # queue) \<subseteq> insert out seen" "\<forall>u\<in>seen. below g out u \<and> u < out"
    "\<forall>t'\<in>insert out seen - set (t # queue). set (op_inputs (tn_op (g ! t'))) \<subseteq> seen" "distinct inputs"
    "set inputs = {t' \<in> insert out seen - set (t # queue). is_placeholder (tn_op (g ! t'))}"
    using assms(1) by (simp_all add: search_ok_def Let_def)
  have p: "insert out seen - set queue = insert t (insert out seen - set (t # queue))" using s(1,2) by auto
  have "distinct (inputs @ [t])" using s(5,6) by simp
  moreover have "set (inputs @ [t]) = {t' \<in> insert t (insert out seen - set (t # queue)). is_placeholder (tn_op (g ! t'))}"
    using s(6) assms(2) by auto
  moreover have "\<forall>t'\<in>insert t (insert out seen - set (t # queue)). set (op_inputs (tn_op (g ! t'))) \<subseteq> seen"
    using s(4) i by auto
  moreover have "distinct queue" "set queue \<subseteq> insert out seen" using s(1,2) by simp_all
  ultimately show ?thesis using s(3) unfolding search_ok_def Let_def p by blast
qed

lemma search_done:
  assumes "search_ok g out [] seen inputs"
  shows "distinct inputs \<and> set inputs = {t. below g out t \<and> is_placeholder (tn_op (g ! t))}"
proof -
  have s: "\<forall>u\<in>seen. below g out u" "\<forall>t\<in>insert out seen. set (op_inputs (tn_op (g ! t))) \<subseteq> seen"
    "distinct inputs" "set inputs = {t \<in> insert out seen. is_placeholder (tn_op (g ! t))}"
    using assms by (simp_all add: search_ok_def Let_def)
  have "u \<in> insert out seen" if "below g t u" "t \<in> insert out seen" for t u
    using that s(2) by (induction rule: below.induct) auto
  then have "insert out seen = {u. below g out u}" using s(1) by (auto intro: below.itself)
  then show ?thesis using s(3,4) by auto
qed

lemma search_inputs:
  assumes "older_inputs g" "out < length g" "\<forall>t<length g. distinct (op_inputs (tn_op (g ! t)))"
    and "search_ok g out queue seen inputs" "Suc out < n + card (insert out seen - set queue)" "finite seen"
  shows "\<exists>ts. get_inputs n g queue seen inputs = Inr ts \<and> distinct ts \<and>
    set ts = {t. below g out t \<and> is_placeholder (tn_op (g ! t))}"
  using assms(4-6)
proof (induction n arbitrary: queue seen inputs)
  case 0
  have "insert out seen \<subseteq> {..out}" using "0.prems"(1) by (auto simp: search_ok_def Let_def less_imp_le)
  then have "card (insert out seen - set queue) \<le> card {..out}" by (intro card_mono) auto
  then show ?case using "0.prems"(2) by simp
next
  case (Suc n)
  show ?case
  proof (cases queue)
    case Nil
    then show ?thesis using search_done Suc.prems(1) by auto
  next
    case (Cons t q)
    have tl: "t < length g" "t \<in> insert out seen" "t \<notin> set q"
      using Suc.prems(1) assms(2) by (auto simp: Cons search_ok_def Let_def)
    show ?thesis
    proof (cases "is_placeholder (tn_op (g ! t))")
      case True
      have e: "insert out seen - set q = insert t (insert out seen - set (t # q))" using tl(2,3) by auto
      have "card (insert out seen - set q) = Suc (card (insert out seen - set (t # q)))"
        unfolding e by (rule card_insert_disjoint) (use Suc.prems(3) in auto)
      then have "Suc out < n + card (insert out seen - set q)" using Suc.prems(2) unfolding Cons by linarith
      from Suc.IH [OF search_placeholder [OF Suc.prems(1) [unfolded Cons] True] this Suc.prems(3)]
      have "\<exists>ts. get_inputs n g q seen (inputs @ [t]) = Inr ts \<and> distinct ts \<and>
          set ts = {t. below g out t \<and> is_placeholder (tn_op (g ! t))}" .
      then show ?thesis using True Cons by (cases "tn_op (g ! t)") auto
    next
      case False
      define new where "new = filter (\<lambda>u. u \<notin> seen) (op_inputs (tn_op (g ! t)))"
      have d: "distinct (op_inputs (tn_op (g ! t)))" using assms(3) tl(1) by blast
      note step = search_step [OF Suc.prems(1) [unfolded Cons] assms(1,2) d False new_def]
      have "card (insert out (seen \<union> set new) - set (q @ new)) = Suc (card (insert out seen - set (t # q)))"
        unfolding step(2) by (rule card_insert_disjoint) (use Suc.prems(3) in auto)
      then have less: "Suc out < n + card (insert out (seen \<union> set new) - set (q @ new))"
        using Suc.prems(2) unfolding Cons by linarith
      have "finite (seen \<union> set new)" using Suc.prems(3) by simp
      from Suc.IH [OF step(1) less this]
      have "\<exists>ts. get_inputs n g (q @ new) (seen \<union> set new) inputs = Inr ts \<and> distinct ts \<and>
          set ts = {t. below g out t \<and> is_placeholder (tn_op (g ! t))}" .
      moreover have "get_inputs (Suc n) g (t # q) seen inputs = get_inputs n g (q @ new) (seen \<union> set new) inputs"
        using False by (cases "tn_op (g ! t)") (simp_all add: new_def Let_def)
      ultimately show ?thesis using Cons by simp
    qed
  qed
qed

text \<open>
  The arguments of a scheduled expression: the search for inputs ends within the fuel that is given
  and finds exactly the placeholders that the output is computed from, each once, however many ways
  lead to it. So the buffers of the default template are the output followed by these.
\<close>

lemma inputs_found:
  assumes "older_inputs g" "out < length g" "\<forall>t<length g. distinct (op_inputs (tn_op (g ! t)))"
  shows "\<exists>ts. get_inputs (length g + 2) g [out] {} [] = Inr ts \<and> distinct ts \<and>
    set ts = {t. below g out t \<and> is_placeholder (tn_op (g ! t))}"
  by (rule search_inputs [OF assms]) (use assms(2) in \<open>simp_all add: search_ok_def\<close>)

text \<open>A sum of two products that share an operand.\<close>

section \<open>Templates under a log\<close>

text \<open>
  C17. A template that is called while a history context loaded from a log is current, with arguments
  whose workload the log has measured on a known model, runs with the configuration of the earliest of
  the fastest records: its call of \<open>get_config\<close> returns that configuration, and afterwards the history
  is current again.
\<close>

theorem template_uses_best_record:
  assumes "\<forall>r\<in>set rs. loadable simplify r" "load_config_log simplify rs empty_log = (Inr (), h)"
    and "cx_current st = Some i" "history_at st i = Some h"
    and "args_to_workload simplify args (Some name) = Inr w" "model_records simplify rs (t_model t) w \<noteq> []"
    and "\<forall>c. stack_safe (body c)"
  shows "\<exists>r. earliest_best time_of (model_records simplify rs (t_model t) w) (Some r) \<and>
    template_call (Suc d) fb simplify shw (Some t) name
        (\<lambda>_. bindS (get_config (Suc d) fb simplify shw (Some t)) body) args st =
      with_config (in_config (fst r)) (\<lambda>st. body (in_config (fst r))
        (set_cbody (length (cx_ctxs st) - 1) (CApplyConfig (in_config (fst r)) (Some VNone)) st)) st \<and>
    cx_current (snd (template_call (Suc d) fb simplify shw (Some t) name
        (\<lambda>_. bindS (get_config (Suc d) fb simplify shw (Some t)) body) args st)) = Some i"
proof -
  obtain r' where h: "bl_user h = []" "map_of (bl_by_model h) (t_model t, w) = r'"
    "earliest_best time_of (model_records simplify rs (t_model t) w) r'"
    using loaded_log [OF assms(1)] assms(2) table_earliest [OF records_have_costs(2) [OF assms(1)]]
    by (auto simp: best_for_model_def)
  then obtain r where r: "r' = Some r" using assms(6) by (cases r') (auto simp: earliest_best_def)
  let ?cfg = "in_config (fst r)"
  have "history_config (Some t) w h = Inr (Some ?cfg)"
    using h(1,2) r by (simp add: history_config_def match_config_def split: prod.split)
  then have q: "query_config (Suc d) fb simplify shw (Some t) w (Some i) st = (Inr ?cfg, st)"
    unfolding query_history_ctx [OF assms(4)] using assms(4) by (simp add: config_hit_def)
  let ?call = "template_call (Suc d) fb simplify shw (Some t) name
        (\<lambda>_. bindS (get_config (Suc d) fb simplify shw (Some t)) body) args st"
  have call: "?call = with_config ?cfg (bindS (get_config (Suc d) fb simplify shw (Some t)) body) st"
    using assms(3,5) q by (simp del: query_config.simps add: template_call_def bindS_def)
  have "stack_safe (with_config ?cfg (bindS (get_config (Suc d) fb simplify shw (Some t)) body))"
    using assms(7) by (intro stack_safe_with_config stack_safe_bindS stack_safe_get_config) simp
  then have "cx_current (snd ?call) = Some i" using call assms(3) by (simp add: stack_safe_def Let_def)
  then show ?thesis using h(3) r call config_in_block by (intro exI [of _ r]) simp
qed

text \<open>A dense layer under the log of the last section of \<open>ConfigContexts\<close>: it runs with configuration 2.\<close>

lemma template_uses_best_record_witness:
  "fst (template_call 1 () id (\<lambda>_. []) (Some gpu) ''dense'' (\<lambda>_. bindS (get_config 1 () id (\<lambda>_. []) (Some gpu)) retS)
     [VInt 16, VStr ''float32''] two_contexts) = Inr 2"
proof -
  obtain h where h: "load_config_log id dense_log empty_log = (Inr (), h)" using loaded_log [OF dense_loadable] by blast
  have c: "cx_current two_contexts = Some 1" "history_at two_contexts 1 = Some h"
    by (simp_all add: two_contexts_eq init_cstate_def history_at_iff h)
  have w: "args_to_workload id [VInt 16, VStr ''float32''] (Some ''dense'') = Inr dense_workload"
    by (simp add: args_to_workload_def serialize_task_args_def dense_workload_def)
  have m: "model_records id dense_log (t_model gpu) dense_workload = map (nth dense_log) [0, 2, 3]"
    by (simp add: gpu_def dense_records)
  have s: "\<forall>c. stack_safe (retS c :: (unit cstate, nat) sx)" by (simp add: stack_safe_def)
  have one: "Suc 0 = 1" by simp
  have f: "fst (with_config cfg (\<lambda>st. retS cfg (k st)) two_contexts) = Inr cfg" for cfg k
    by (simp add: with_config_def split: prod.split)
  obtain r where r: "earliest_best time_of (map (nth dense_log) [0, 2, 3]) (Some r)"
    "template_call 1 () id (\<lambda>_. []) (Some gpu) ''dense'' (\<lambda>_. bindS (get_config 1 () id (\<lambda>_. []) (Some gpu)) retS)
       [VInt 16, VStr ''float32''] two_contexts = with_config (in_config (fst r)) (\<lambda>st. retS (in_config (fst r))
        (set_cbody (length (cx_ctxs st) - 1) (CApplyConfig (in_config (fst r)) (Some VNone)) st)) two_contexts"
    using template_uses_best_record [OF dense_loadable h c w _ s, of gpu 0 "()" "\<lambda>_. []"] unfolding one m by blast
  show ?thesis using dense_best [OF r(1)] unfolding r(2) f by simp
qed

end
