(* ===== verification/Flops.thy ===== *)
theory Flops
  imports ConfigSpace WorkloadKeys
begin

text \<open>
  Counting floating-point operations, \<open>compute_flop\<close> of \<open>tvm/python/tvm/autotvm/task/task.py\<close>. An
  expression is kept as far as the code looks at it; operations are numbered, and the inputs of a
  computation are operations with smaller numbers. \<open>FlopCalculationError\<close>, which is turned into a
  \<open>RuntimeError\<close>, is one from the start.
\<close>

section \<open>Expressions\<close>

datatype flop_expr =
    FReduce "pyval list" "flop_expr list" "flop_expr list"  \<comment> \<open>extents of the axes, combiner, source\<close>
  | FConst | FVar | FLoad
  | FCast flop_expr
  | FBinary flop_expr flop_expr  \<comment> \<open>arithmetic, comparisons, conjunction, disjunction\<close>
  | FNot flop_expr
  | FSelect flop_expr flop_expr flop_expr
  | FCall "flop_expr list"
  | FUnsupported

text \<open>\<open>np.prod\<close> multiplies 64-bit integers.\<close>

definition prod_length :: "(pyval \<Rightarrow> pyval) \<Rightarrow> pyval list \<Rightarrow> int res" where
  "prod_length simplify axes =
     bindR (mapR (\<lambda>extent. case get_const_int simplify extent of Inl _ \<Rightarrow> Inl RuntimeError | Inr n \<Rightarrow> Inr n) axes)
       (\<lambda>ns. Inr (foldl (\<lambda>p n. int64 (p * n)) 1 ns))"

fun count_flop :: "(pyval \<Rightarrow> pyval) \<Rightarrow> flop_expr \<Rightarrow> int res" where
  "count_flop simplify (FReduce axis [combiner] [source]) =
     bindR (prod_length simplify axis) (\<lambda>num_iter. bindR (count_flop simplify combiner) (\<lambda>a.
       bindR (count_flop simplify source) (\<lambda>b. Inr (num_iter * (a + b)))))"
| "count_flop simplify (FReduce axis _ _) = Inl RuntimeError"
| "count_flop simplify FConst = Inr 0"
| "count_flop simplify FVar = Inr 0"
| "count_flop simplify FLoad = Inr 0"
| "count_flop simplify (FCast e) = count_flop simplify e"
| "count_flop simplify (FBinary a b) =
     bindR (count_flop simplify a) (\<lambda>x. bindR (count_flop simplify b) (\<lambda>y. Inr (1 + x + y)))"
| "count_flop simplify (FNot a) = bindR (count_flop simplify a) (\<lambda>x. Inr (1 + x))"
| "count_flop simplify (FSelect c t e) =
     bindR (count_flop simplify c) (\<lambda>x. bindR (count_flop simplify t) (\<lambda>y. bindR (count_flop simplify e) (\<lambda>z.
       Inr (x + max y z))))"
| "count_flop simplify (FCall args) = bindR (mapR (count_flop simplify) args) (\<lambda>ns. Inr (sumlist ns))"
| "count_flop simplify FUnsupported = Inl RuntimeError"

section \<open>Schedules\<close>

datatype flop_op = FCompute "pyval list" "flop_expr list" "nat list" | FPlaceholder | FOtherOp

text \<open>The first argument is what is left of the recursion limit.\<close>

fun flop_traverse :: "nat \<Rightarrow> (pyval \<Rightarrow> pyval) \<Rightarrow> flop_op list \<Rightarrow> nat list \<Rightarrow> int res" where
  "flop_traverse 0 simplify g ops = Inl RecursionError"
| "flop_traverse (Suc depth) simplify g ops = foldR (\<lambda>op ret. case g ! op of
       FCompute axis body inputs \<Rightarrow> bindR (prod_length simplify axis) (\<lambda>num_element. case body of
           [e] \<Rightarrow> bindR (count_flop simplify e) (\<lambda>n. bindR (flop_traverse depth simplify g inputs) (\<lambda>rest.
             Inr (ret + num_element * n + rest)))
         | _ \<Rightarrow> Inl RuntimeError)
     | FPlaceholder \<Rightarrow> Inr ret
     | FOtherOp \<Rightarrow> Inl RuntimeError) ops 0"

definition compute_flop :: "nat \<Rightarrow> (pyval \<Rightarrow> pyval) \<Rightarrow> flop_op list \<Rightarrow> nat list \<Rightarrow> int res" where
  "compute_flop depth simplify g outputs = bindR (flop_traverse depth simplify g outputs) (\<lambda>ret.
     if ret = 0 then Inl RuntimeError else Inr ret)"

section \<open>What is counted\<close>

text \<open>The operations of one computation, and its inputs.\<close>

definition own_flop :: "(pyval \<Rightarrow> pyval) \<Rightarrow> flop_op \<Rightarrow> int res" where
  "own_flop simplify op = (case op of
       FCompute axis [e] _ \<Rightarrow> bindR (prod_length simplify axis) (\<lambda>num_element. bindR (count_flop simplify e) (\<lambda>n.
         Inr (num_element * n)))
     | FCompute _ _ _ \<Rightarrow> Inl RuntimeError
     | FPlaceholder \<Rightarrow> Inr 0
     | FOtherOp \<Rightarrow> Inl RuntimeError)"

fun flop_inputs :: "flop_op \<Rightarrow> nat list" where
  "flop_inputs (FCompute _ _ inputs) = inputs"
| "flop_inputs _ = []"

text \<open>The number of ways, of fewer than \<open>n\<close> steps, from an operation down to another.\<close>

fun ways :: "flop_op list \<Rightarrow> nat \<Rightarrow> nat \<Rightarrow> nat \<Rightarrow> nat" where
  "ways g 0 t u = 0"
| "ways g (Suc n) t u = (if t = u then 1 else 0) + sumlist (map (\<lambda>v. ways g n v u) (flop_inputs (g ! t)))"

definition flop_graph :: "flop_op list \<Rightarrow> bool" where
  "flop_graph g \<longleftrightarrow> (\<forall>t<length g. \<forall>u\<in>set (flop_inputs (g ! t)). u < t)"

lemma sumlist_swap: "(\<Sum>u<n. f u * sumlist (map (\<lambda>v. h v u) vs)) = sumlist (map (\<lambda>v. \<Sum>u<n. f u * h v u) vs)"
  for f :: "nat \<Rightarrow> int"
  by (induction vs) (simp_all add: algebra_simps sum.distrib)

lemma traverse_counts:
  assumes "flop_graph g" "\<forall>t<length g. own_flop simplify (g ! t) = Inr (own t)"
  shows "\<forall>t\<in>set ops. t < length g \<and> Suc t < depth \<Longrightarrow> depth \<noteq> 0 \<Longrightarrow> flop_traverse depth simplify g ops =
    Inr (sumlist (map (\<lambda>t. \<Sum>u<length g. own u * int (ways g depth t u)) ops))"
proof (induction depth arbitrary: ops)
  case (Suc depth)
  have total: "(\<Sum>u<length g. own u * int (ways g (Suc depth) t u)) =
      own t + sumlist (map (\<lambda>v. \<Sum>u<length g. own u * int (ways g depth v u)) (flop_inputs (g ! t)))"
    if "t < length g" for t
  proof -
    have i: "int (sumlist xs) = sumlist (map int xs)" for xs by (induction xs) simp_all
    have "own u * int (ways g (Suc depth) t u) = own u * (if t = u then 1 else 0) +
        own u * sumlist (map (\<lambda>v. int (ways g depth v u)) (flop_inputs (g ! t)))" for u
      by (simp add: i comp_def distrib_left)
    then have "(\<Sum>u<length g. own u * int (ways g (Suc depth) t u)) =
        (\<Sum>u<length g. own u * (if t = u then 1 else 0)) +
        (\<Sum>u<length g. own u * sumlist (map (\<lambda>v. int (ways g depth v u)) (flop_inputs (g ! t))))"
      by (simp only: sum.distrib)
    also have "(\<Sum>u<length g. own u * (if t = u then 1 else 0)) = own t"
      using that by (simp add: if_distrib sum.delta' cong: if_cong)
    finally show ?thesis by (simp only: sumlist_swap)
  qed
  have sub: "flop_traverse depth simplify g (flop_inputs (g ! t)) =
      Inr (sumlist (map (\<lambda>v. \<Sum>u<length g. own u * int (ways g depth v u)) (flop_inputs (g ! t))))"
    if "t < length g" "Suc t < Suc depth" for t
  proof -
    have "\<forall>u\<in>set (flop_inputs (g ! t)). u < t" using assms(1) that(1) by (auto simp: flop_graph_def)
    then show ?thesis using that by (intro Suc.IH) auto
  qed
  define step where "step = (\<lambda>op ret. case g ! op of
       FCompute axis body inputs \<Rightarrow> bindR (prod_length simplify axis) (\<lambda>num_element. case body of
           [e] \<Rightarrow> bindR (count_flop simplify e) (\<lambda>n. bindR (flop_traverse depth simplify g inputs) (\<lambda>rest.
             Inr (ret + num_element * n + rest)))
         | _ \<Rightarrow> Inl RuntimeError)
     | FPlaceholder \<Rightarrow> Inr ret
     | FOtherOp \<Rightarrow> Inl RuntimeError)"
  have one: "step t ret = Inr (ret + (\<Sum>u<length g. own u * int (ways g (Suc depth) t u)))"
    if t: "t < length g" "Suc t < Suc depth" for t ret
  proof -
    have o: "own_flop simplify (g ! t) = Inr (own t)" using assms(2) t(1) by blast
    show ?thesis
    proof (cases "g ! t")
      case (FCompute axis body inputs)
      then obtain e k n where e: "body = [e]" "prod_length simplify axis = Inr k" "count_flop simplify e = Inr n" "own t = k * n"
        using o by (auto simp: own_flop_def bindR_Inr_iff split: list.splits)
      then show ?thesis using sub [OF t] total [OF t(1)] FCompute by (simp add: step_def)
    next
      case FPlaceholder
      then show ?thesis using o total [OF t(1)] by (simp add: step_def own_flop_def)
    next
      case FOtherOp
      then show ?thesis using o by (simp add: own_flop_def)
    qed
  qed
  have "foldR step ops ret = Inr (ret + sumlist (map (\<lambda>t. \<Sum>u<length g. own u * int (ways g (Suc depth) t u)) ops))" for ret
    using Suc.prems(1) by (induction ops arbitrary: ret) (simp_all add: one add.assoc)
  from this [of 0] show ?case by (simp add: step_def)
qed simp

text \<open>
  C39. The number of operations that is estimated for a schedule, when every operation in it is a
  computation with one value that can be counted, or a placeholder, and the recursion limit is high
  enough: the sum over all operations of what each costs, but times the number of ways in which the
  outputs lead to it. An intermediate result that several operations read is counted several times.
  A schedule without operations raises \<open>RuntimeError\<close>.
\<close>

theorem flop_counts_ways:
  assumes "flop_graph g" "\<forall>t<length g. own_flop simplify (g ! t) = Inr (own t)"
    and "\<forall>t\<in>set outputs. t < length g \<and> Suc t < depth" "depth \<noteq> 0"
    and "n = (\<Sum>u<length g. own u * (\<Sum>t\<leftarrow>outputs. int (ways g depth t u)))"
  shows "compute_flop depth simplify g outputs = (if n = 0 then Inl RuntimeError else Inr n)"
proof -
  have "(\<Sum>u<length g. own u * (\<Sum>t\<leftarrow>ts. int (ways g depth t u))) =
      sumlist (map (\<lambda>t. \<Sum>u<length g. own u * int (ways g depth t u)) ts)" for ts
    by (induction ts) (simp_all add: distrib_left sum.distrib)
  then have "n = sumlist (map (\<lambda>t. \<Sum>u<length g. own u * int (ways g depth t u)) outputs)" using assms(5) by simp
  then show ?thesis using traverse_counts [OF assms(1,2,3,4)] by (simp add: compute_flop_def)
qed

text \<open>
  A sum of 8 elements over 16 products, whose result is squared and doubled by two operations that a
  third one adds: the first is counted twice.
\<close>

definition shared_sum :: "flop_op list" where
  "shared_sum = [FPlaceholder,
     FCompute [VInt 8] [FReduce [VInt 16] [FBinary FVar FVar] [FBinary FLoad FLoad]] [0],
     FCompute [VInt 8] [FBinary FLoad FLoad] [1],
     FCompute [VInt 8] [FBinary FLoad FConst] [1],
     FCompute [VInt 8] [FBinary FLoad FLoad] [2, 3]]"

lemma flop_counts_ways_witness:
  "compute_flop 6 id shared_sum [4] = Inr 536 \<and> own_flop id (shared_sum ! 1) = Inr 256 \<and> ways shared_sum 6 4 1 = 2"
proof -
  define own :: "nat \<Rightarrow> int" where "own t = [0, 256, 8, 8, 8] ! t" for t
  have g: "flop_graph shared_sum" by (simp add: flop_graph_def shared_sum_def All_less_Suc)
  have o: "\<forall>t<length shared_sum. own_flop id (shared_sum ! t) = Inr (own t)"
    by (simp add: shared_sum_def All_less_Suc own_def own_flop_def prod_length_def get_const_int_def int64_def)
  have l: "\<forall>t\<in>set [4]. t < length shared_sum \<and> Suc t < 6" by (simp add: shared_sum_def)
  have w: "ways shared_sum 6 4 0 = 2 \<and> ways shared_sum 6 4 1 = 2 \<and> ways shared_sum 6 4 2 = 1 \<and>
      ways shared_sum 6 4 3 = 1 \<and> ways shared_sum 6 4 4 = 1" by code_simp
  have five: "(\<Sum>u<5. F u) = F 0 + F 1 + F 2 + F 3 + F 4" for F :: "nat \<Rightarrow> int"
    by (simp add: eval_nat_numeral)
  have len: "length shared_sum = 5" by (simp add: shared_sum_def)
  have own: "own 0 = 0" "own 1 = 256" "own 2 = 8" "own 3 = 8" "own 4 = 8" by (simp_all add: own_def)
  have t: "536 = (\<Sum>u<length shared_sum. own u * (\<Sum>t\<leftarrow>[4]. int (ways shared_sum 6 t u)))"
    unfolding len five using w by (simp add: own del: ways.simps One_nat_def)
  have "own_flop id (shared_sum ! 1) = Inr 256" using o own(2) len by (simp del: One_nat_def)
  then show ?thesis using flop_counts_ways [OF g o l _ t] w by simp
qed

end
