(* ===== verification/Spec2Isabelle.thy ===== *)
theory Spec2Isabelle
  imports WorkloadRegistry Contexts ConfigSpace GeneticTuner Strategies TrackerRuns Connecting
    JoinStates PBQPResult Measuring TuningLogs TaskTemplates Flops
begin

text \<open>
  A verification library for DietCode, the auto-scheduler for dynamic tensor programs built into a
  copy of TVM under \<open>tvm/\<close>. The library is about the Python code under \<open>tvm/python/tvm\<close> that decides
  which schedule a workload gets, searches for schedules, and shares out the devices they are
  measured on. File names below are relative to that directory.

  \<^bold>\<open>How the parts work together.\<close> A computation is registered under a name, and a call of it is
  written as a workload key, a JSON text. When a model is compiled, each workload key is looked up
  in the current dispatch context: histories of measured schedules, stacked over a fallback. A
  dynamic workload is answered by a dispatcher that holds several schedules and one of them per
  shape. The compiler asks through a callback per operator, which also traces the workloads of a
  model, so that tuning tasks can be extracted from it. Schedules that are not yet in a history are searched for: in the template-based tuner, a
  configuration space of splits, orders, annotations and options is enumerated and a tuner walks
  through it; in the template-free one, a task scheduler distributes rounds of search over several
  dynamic workloads. Measuring needs devices, which clients obtain from the RPC tracker.

  \<^bold>\<open>Theories, by subject.\<close>
  \<^item> \<open>Prelude\<close>: Python exceptions as values (\<open>exc\<close>, \<open>'a res\<close>), loops that may raise (\<open>mapR\<close>,
    \<open>foldR\<close>), Python subscripts, dictionaries as association lists in insertion order, \<open>range\<close>,
    and the depth-first filling of a stack that three parts of the code share.
  \<^item> \<open>WorkloadKeys\<close> (\<open>auto_scheduler/utils.py\<close>): decoding of workload keys, the distance factor of
    two workloads, serialization of arguments.
  \<^item> \<open>WorkloadRegistry\<close> (\<open>auto_scheduler/workload_registry.py\<close>): the registry, from names to functions
    or tensors, and its transfer to another process.
  \<^item> \<open>Dispatch\<close> and \<open>Contexts\<close> (\<open>auto_scheduler/dispatcher.py\<close>, \<open>auto_scheduler/dietcode.py\<close>): the
    tables of best schedules, the lookup of a key in them, loading a tuning log, and the stack of
    contexts that \<open>with\<close> blocks build. Contexts live on a heap, because a context that is entered
    twice points to itself.
  \<^item> \<open>MeasureRecords\<close> (\<open>auto_scheduler/measure_record.py\<close>): reading a log, its best record, and
    distilling logs.
  \<^item> \<open>TensorTraversal\<close> and \<open>RelayTasks\<close> (\<open>auto_scheduler/relay_integration.py\<close>): the walk through the
    expression of an operator, the environment that traces workloads, the callback
    \<open>auto_schedule_topi\<close> that the compiler makes for every operator, and the extraction of static and
    dynamic tasks. \<open>RelayTasks\<close> is where the registry, the contexts and the records meet. The compiler
    is the list of the callbacks it makes.
  \<^item> \<open>TaskInputs\<close> and \<open>SearchTasks\<close> (\<open>auto_scheduler/search_task.py\<close>, \<open>auto_scheduler/measure.py\<close>): the
    table of input buffers with its files, the arguments of a measured program, search tasks, and
    measurement inputs on their way into a worker process, where the workload registry goes along.
  \<^item> \<open>Measuring\<close> (\<open>auto_scheduler/measure.py\<close>, \<open>contrib/popen_pool.py\<close>): building and running batches of
    programs in worker processes, on the local device and on remote ones.
  \<^item> \<open>Knobs\<close>, \<open>SplitSpace\<close>, \<open>Transforms\<close>, \<open>ConfigSpace\<close> (\<open>autotvm/task/space.py\<close>,
    \<open>autotvm/tuner/model_based_tuner.py\<close>): mixed-radix indices, the spaces of splits, orders,
    annotations and options with the application of their entities to a schedule, and the whole
    configuration space with its JSON form and its fallbacks.
  \<^item> \<open>TaskArgs\<close>, \<open>ConfigContexts\<close>, \<open>TuningLogs\<close> (\<open>autotvm/task/task.py\<close>, \<open>autotvm/task/dispatcher.py\<close>,
    \<open>autotvm/record.py\<close>): arguments and workloads of template tasks, the contexts that choose a
    configuration for a workload, and the logs of measurements that those contexts are loaded from.
  \<^item> \<open>TaskTemplates\<close>, \<open>Flops\<close> (\<open>autotvm/task/task.py\<close>): the table of templates, creating and instantiating
    tasks under a context, and the count of floating-point operations of a schedule.
  \<^item> \<open>TuneLoop\<close>, \<open>ModelTuner\<close>, \<open>GeneticTuner\<close> (\<open>autotvm/tuner/\<close>): the loop that measures batches of
    configurations, and the grid, random, model-based and genetic tuners with the simulated
    annealing they use.
  \<^item> \<open>TaskScheduler\<close> and \<open>Strategies\<close> (\<open>auto_scheduler/task_scheduler.py\<close>): the scheduler of search
    rounds with its two strategies.
  \<^item> \<open>Arrays\<close>: n-dimensional arrays, and the NumPy functions the graph tuner calls as a parameter with
    the laws their documentation states (locale \<open>numpy\<close>, with one instance).
  \<^item> \<open>GraphTraversal\<close> (\<open>autotvm/graph_tuner/utils/\<close>): the graph of a model reduced to target operators
    and operators with several inputs, each with its closest ancestors and consumers.
  \<^item> \<open>DPStages\<close>, \<open>DPTuning\<close> (\<open>dynamic_programming_stage.py\<close>, \<open>dynamic_programming_tuner.py\<close> of
    \<open>autotvm/graph_tuner/\<close>): the states of a stage, the forward pass that creates the stages and the
    backward pass that picks a schedule per node. \<open>ChainOptimum\<close> and \<open>JoinStates\<close> compare them with
    the least times they stand for.
  \<^item> \<open>PBQP\<close> (\<open>pbqp_tuner.py\<close>): the other graph tuner, which reduces a graph of cost vectors and
    matrices node by node and puts the nodes back. The matrices live on a heap, because the tuner
    shares some of them. \<open>PBQPReduction\<close> says what a reduction may do to the problem, for nodes with
    one neighbour; \<open>PBQPMerge\<close> and \<open>PBQPRun\<close> add nodes with two and more and the two passes;
    \<open>PBQPResult\<close> has the result and concrete graphs.
  \<^item> \<open>StateExc\<close>: stateful code whose exceptions leave the state changed, with rules for invariants.
  \<^item> \<open>Framing\<close> and \<open>Connecting\<close> (\<open>rpc/base.py\<close>): lengths as signed 32-bit words in bytes, sending and
    receiving, the framing loop of the tracker, retries and the search for a port.
  \<^item> \<open>Tracker\<close>, \<open>TrackerLaws\<close>, \<open>TrackerRuns\<close> (\<open>rpc/tracker.py\<close>, \<open>rpc/tornado_util.py\<close>): the
    tracker with its connections and schedulers, its laws, and its histories.

  \<^bold>\<open>Interfaces.\<close> \<open>best_table\<close> (\<open>Dispatch\<close>) is what looking up and loading share; \<open>index_codec\<close>
  (\<open>Knobs\<close>) relates points and knob vectors; \<open>batch_tuner\<close> (\<open>TuneLoop\<close>) is what the tuning loop
  needs of a tuner, and grid and random search provide it; \<open>task_strategy\<close> (\<open>TaskScheduler\<close>) is
  what the scheduling loop needs of a strategy, and both strategies provide it; \<open>rescheduling\<close>
  (\<open>TrackerLaws\<close>) is what closing and writing rely on when they start the scheduling loop again
  from inside, and every unfolding of that loop provides it; \<open>message_handler\<close> (\<open>TrackerRuns\<close>) is
  what receiving needs of the handler of a message; \<open>numpy\<close> (\<open>Arrays\<close>) is what the graph tuner
  relies on of NumPy. Each is interpreted on the model of the code.

  \<^bold>\<open>What is shown.\<close> For each part: what an operation returns on every branch and when it raises; the
  invariants of its state; that its loops end; and that its encodings can be undone. The larger
  statements are: the answer of a chain of contexts to a query; what loading a log keeps
  and which of its records is the best; that a
  template runs with the best configuration of a log, that a picked log answers like the whole one, and that logs load back as they were written; which schedule the compiler gets for an operator, and which
  tasks are extracted from a model with which weights; that the input buffers of a task reach its
  measurements; what a batch of builds and runs reports, and that a program of a dynamic task is built
  for the instance the native side picks; that
  indices enumerate exactly the configurations; which splits and orders a space holds; that tuning
  ends, measures nothing twice and reports the earliest best; that tuning several tasks ends and is
  fair under round robin, and that the gradient strategy never trips over its assertion and always
  picks a live task of least gradient; that simulated annealing returns the best of the points it
  tries; that the genetic tuner finds a generation of new configurations; that the dynamic programming over layouts is optimal on chains of operators; that the PBQP tuner ends and is
  optimal when it says so, unless two edges share a matrix; that frames are recovered from a stream
  however it is cut; that a scheduler of the tracker implements a queue of requests in their order of
  arrival, of which the earliest of greatest priority is served, grants nothing twice, and lets no request wait for a free resource.

  \<^bold>\<open>Bounds and fuel.\<close> Loops that may not end in the source take fuel and give \<open>OutOfFuel\<close> when it is
  used up; the theorems about them say how much is enough: one unit per trial and task for the task
  scheduler, one per trial for the tuning loop, one per waiting request for the tracker (whose fuel
  is computed from the state), one per node of a chain for the backward pass of the graph tuner, one per node and one for the
  forward pass of the PBQP tuner, the index of a node or tensor and one for the recursions down its
  inputs, one per byte for the framing loop. The depth of the traversal of tensors and of queries
  stands for the recursion limit. The random walks of the annealer
  and the retries of the tuners end with a fair source of random numbers only, which is a named
  hypothesis: within a window of given length it makes every draw (\<open>fair\<close>), every move of a walk
  (\<open>fair_walk\<close>), or spells every knob vector (\<open>fair_jumps\<close>); the window, and for the genetic tuner one
  turn more per dimension, is enough fuel. Products of dimensions wrap at 64 bits like those of NumPy
  (\<open>int64\<close> in \<open>Knobs\<close>); statements about whole configuration spaces suppose that their size fits.
  Lengths of messages are 32-bit and checked against that range.

  \<^bold>\<open>What is left open on purpose.\<close> Floating-point numbers are rationals, square roots and logarithms of
  integers are exact. Where rounding could change a decision, as in the step of the gradients of the
  task scheduler, the statement says that it is about exact arithmetic. The heap of the tracker is a
  sorted list, since the code sees its pops only; that of the annealer is the binary heap itself. Native code, NumPy, random numbers, clocks, sockets, the JSON codecs, the expression
  simplifier, cost models and the text files of arrays are parameters. Messages of exceptions and log output are dropped,
  except for the warnings of the fallback context, which the code remembers.

  \<^bold>\<open>Not modelled.\<close> The native part of TVM (C++, CUDA), which does the search of the template-free
  tuner, lowering and code generation; the classes that only forward to it (\<open>loop_state.py\<close>,
  \<open>compute_dag.py\<close>, \<open>search_policy.py\<close>); of the integration into Relay the patching of index checks
  and the rewriting of operator bodies, which build tensor IR; Relay, TOPI and the model importers,
  which are TVM's own and untouched by DietCode; the builders and runners of the template-based tuner
  (\<open>autotvm/measure\<close>), which drive worker processes of the same kind; feature extraction and the
  gradient-boosted cost models, numerical code over native buffers; the graph tuner's conversion of
  Relay expressions (\<open>expr2graph\<close>); RPC servers, proxies and clients;
  the unmodified copy of TVM under \<open>tvm_base/\<close>; and the experiment scripts.
\<close>

end
